(* ===== verification/Kernel_Prelude.thy ===== *)
theory Kernel_Prelude
  imports "HOL-Library.Word" "HOL-Library.Monad_Syntax"
begin

text \<open>
  Shared vocabulary of the development: the C integer types, checked array accesses in the
  option monad, byte-order conversions, and the generic lemmas about them.

  A C computation that may have no defined result (an access outside an array, a null
  dereference, a division by zero, a loop that does not end) is modelled in the option monad,
  with \<open>None\<close> for "no defined result". A function that cannot fault is a plain function.
\<close>

unbundle bit_operations_syntax

section \<open>Integer types\<close>

type_synonym u8 = "8 word"
type_synonym u16 = "16 word"
type_synonym u32 = "32 word"
type_synonym u64 = "64 word"
type_synonym bytes = "u8 list"

named_theorems unat_rules \<open>rules that move word arithmetic to the natural numbers\<close>
named_theorems arr_rules \<open>rules about checked array accesses\<close>

lemma unat_add_nowrap [unat_rules]:
  "unat a + unat b < 2 ^ LENGTH('a) \<Longrightarrow> unat (a + b :: 'a::len word) = unat a + unat b"
  by (simp add: unat_word_ariths)

lemma unat_sub_nowrap [unat_rules]:
  "unat b \<le> unat a \<Longrightarrow> unat (a - b :: 'a::len word) = unat a - unat b"
  by (simp add: unat_sub word_le_nat_alt)

lemma unat_mult_nowrap [unat_rules]:
  "unat a * unat b < 2 ^ LENGTH('a) \<Longrightarrow> unat (a * b :: 'a::len word) = unat a * unat b"
  by (simp add: unat_word_ariths)

lemma word_less_unat: "(a < b) = (unat a < unat (b :: 'a::len word))"
  by (rule word_less_nat_alt)

lemma word_le_unat: "(a \<le> b) = (unat a \<le> unat (b :: 'a::len word))"
  by (rule word_le_nat_alt)

lemmas word_order_unat = word_less_unat word_le_unat

lemma unat_less_len: "unat (w :: 'a::len word) < 2 ^ LENGTH('a)"
  by (rule unsigned_less)

lemma unat_take_bit_mod: "unat (take_bit k (w :: 'a::len word)) = unat w mod 2 ^ k"
proof -
  have "unat (take_bit k w) = take_bit k (unat w)" by (rule unsigned_take_bit_eq)
  then show ?thesis by (simp only: take_bit_eq_mod)
qed

lemma unat_drop_bit_div: "unat (drop_bit n (w :: 'a::len word)) = unat w div 2 ^ n"
proof -
  have "unat (drop_bit n w) = drop_bit n (take_bit LENGTH('a) (unat w))" by (rule unsigned_drop_bit_eq)
  then show ?thesis using unat_less_len [of w] by (simp only: take_bit_nat_eq_self drop_bit_eq_div)
qed

lemma unat_ucast_mod: "unat (ucast (w :: 'a::len word) :: 'b::len word) = unat w mod 2 ^ LENGTH('b)"
proof -
  have "unat (ucast w :: 'b word) = take_bit LENGTH('b) (unat w)" by (rule unsigned_ucast_eq)
  then show ?thesis by (simp only: take_bit_eq_mod)
qed

lemma word_and_not_minus: "(x :: 'a::len word) AND NOT m = x - (x AND m)"
proof -
  have "(x AND m) + (x AND NOT m) = (x AND m) OR (x AND NOT m)"
    by (rule disjunctive_add) (auto simp: bit_simps)
  also have "\<dots> = x" by (rule bit_word_eqI) (auto simp: bit_simps)
  finally show ?thesis by (simp add: algebra_simps)
qed

section \<open>Checked arrays\<close>

definition arr_get :: "'a list \<Rightarrow> nat \<Rightarrow> 'a option" where
  "arr_get xs i = (if i < length xs then Some (xs ! i) else None)"

definition arr_set :: "'a list \<Rightarrow> nat \<Rightarrow> 'a \<Rightarrow> 'a list option" where
  "arr_set xs i v = (if i < length xs then Some (xs[i := v]) else None)"

text \<open>Copying a block of known contents into an array, and out of it (\<open>memcpy\<close>).\<close>

definition arr_write :: "'a list \<Rightarrow> nat \<Rightarrow> 'a list \<Rightarrow> 'a list option" where
  "arr_write xs off bs =
     (if off + length bs \<le> length xs
      then Some (take off xs @ bs @ drop (off + length bs) xs) else None)"

definition arr_slice :: "'a list \<Rightarrow> nat \<Rightarrow> nat \<Rightarrow> 'a list option" where
  "arr_slice xs off n = (if off + n \<le> length xs then Some (take n (drop off xs)) else None)"

lemma arr_get_Some [arr_rules]: "arr_get xs i = Some v \<longleftrightarrow> i < length xs \<and> v = xs ! i"
  by (auto simp: arr_get_def)

lemma arr_set_Some [arr_rules]: "arr_set xs i v = Some ys \<longleftrightarrow> i < length xs \<and> ys = xs[i := v]"
  by (auto simp: arr_set_def)

lemma arr_get_in [arr_rules]: "i < length xs \<Longrightarrow> arr_get xs i = Some (xs ! i)"
  by (simp add: arr_get_def)

lemma arr_set_in [arr_rules]: "i < length xs \<Longrightarrow> arr_set xs i v = Some (xs[i := v])"
  by (simp add: arr_set_def)

lemma length_arr_write: "arr_write xs off bs = Some ys \<Longrightarrow> length ys = length xs"
  by (auto simp: arr_write_def split: if_splits)

lemma arr_write_Some [arr_rules]:
  "arr_write xs off bs = Some ys \<longleftrightarrow>
     off + length bs \<le> length xs \<and> ys = take off xs @ bs @ drop (off + length bs) xs"
  by (auto simp: arr_write_def)

lemma arr_slice_Some [arr_rules]:
  "arr_slice xs off n = Some ys \<longleftrightarrow> off + n \<le> length xs \<and> ys = take n (drop off xs)"
  by (auto simp: arr_slice_def)

text \<open>What was written is read back; what lies outside the written block is unchanged.\<close>

lemma arr_slice_write_same:
  "arr_write xs off bs = Some ys \<Longrightarrow> arr_slice ys off (length bs) = Some bs"
  by (auto simp: arr_write_def arr_slice_def split: if_splits)

lemma nth_arr_write:
  assumes "arr_write xs off bs = Some ys" and "i < length xs"
  shows "ys ! i = (if off \<le> i \<and> i < off + length bs then bs ! (i - off) else xs ! i)"
  using assms by (auto simp: arr_write_def nth_append split: if_splits)

section \<open>Byte order\<close>

definition bswap16 :: "u16 \<Rightarrow> u16" where
  "bswap16 w = push_bit 8 w OR drop_bit 8 w"

lemma bswap16_bswap16 [simp]: "bswap16 (bswap16 w) = w"
  by (rule bit_word_eqI) (auto simp: bswap16_def bit_simps)

end
