(* ===== verification/Pmm.thy ===== *)
theory Pmm
  imports Kernel_Prelude
begin

text \<open>
  The physical frame allocator (\<open>Kernel/mm/pmm.c\<close>): a bump allocator over the physical region
  from 2 MiB to 4 MiB. The two static variables are the record \<open>pmm_state\<close>; each function of
  the file is one definition. The interface that the program loader relies on is the locale
  \<open>frame_allocator\<close>, interpreted on these definitions at the end.
\<close>

section \<open>State and operations\<close>

definition PMM_FRAME_SIZE :: u32 where "PMM_FRAME_SIZE = 4096"
definition PMM_BASE :: u32 where "PMM_BASE = 0x00200000"
definition PMM_LIMIT :: u32 where "PMM_LIMIT = 0x00400000"

lemmas pmm_consts = PMM_FRAME_SIZE_def PMM_BASE_def PMM_LIMIT_def

record pmm_state =
  g_next :: u32
  g_ready :: bool

definition pmm_init :: "pmm_state \<Rightarrow> pmm_state" where
  "pmm_init s = (if g_ready s then s else s\<lparr>g_next := PMM_BASE, g_ready := True\<rparr>)"

text \<open>\<open>size_t\<close> is 32 bits wide on the target, so \<open>count\<close> is a \<open>u32\<close>.\<close>

definition pmm_alloc_frames :: "u32 \<Rightarrow> pmm_state \<Rightarrow> u32 \<times> pmm_state" where
  "pmm_alloc_frames count s =
     (if \<not> g_ready s \<or> count = 0 then (0, s)
      else if count > 0xFFFFFFFF div PMM_FRAME_SIZE then (0, s)
      else
        (let bytes = count * PMM_FRAME_SIZE in
         if g_next s < PMM_BASE \<or> g_next s > PMM_LIMIT then (0, s)
         else if bytes > PMM_LIMIT - g_next s then (0, s)
         else (let addr = g_next s in (addr, s\<lparr>g_next := g_next s + bytes\<rparr>))))"

definition pmm_alloc_frame :: "pmm_state \<Rightarrow> u32 \<times> pmm_state" where
  "pmm_alloc_frame s = pmm_alloc_frames 1 s"

definition pmm_bytes_used :: "pmm_state \<Rightarrow> u32" where
  "pmm_bytes_used s = (if \<not> g_ready s \<or> g_next s < PMM_BASE then 0 else g_next s - PMM_BASE)"

definition pmm_bytes_free :: "pmm_state \<Rightarrow> u32" where
  "pmm_bytes_free s = (if \<not> g_ready s \<or> g_next s > PMM_LIMIT then 0 else PMM_LIMIT - g_next s)"

section \<open>Invariant\<close>

text \<open>
  The comment in \<open>pmm_alloc_frames\<close> relies on "the allocator invariant keeps g_next inside
  [PMM_BASE, PMM_LIMIT]"; alignment to the frame size is kept as well.
\<close>

definition pmm_inv :: "pmm_state \<Rightarrow> bool" where
  "pmm_inv s \<longleftrightarrow>
     (g_ready s \<longrightarrow>
        PMM_BASE \<le> g_next s \<and> g_next s \<le> PMM_LIMIT \<and> unat (g_next s) mod 4096 = 0)"

text \<open>The static storage before the first call: everything zero.\<close>

definition pmm_boot :: pmm_state where
  "pmm_boot = \<lparr>g_next = 0, g_ready = False\<rparr>"

text \<open>The addresses handed out so far.\<close>

definition pmm_used :: "pmm_state \<Rightarrow> nat set" where
  "pmm_used s = (if g_ready s then {unat PMM_BASE ..< unat (g_next s)} else {})"

lemma pmm_inv_boot: "pmm_inv pmm_boot"
  by (simp add: pmm_inv_def pmm_boot_def)

lemma pmm_inv_init: "pmm_inv s \<Longrightarrow> pmm_inv (pmm_init s)"
  by (simp add: pmm_inv_def pmm_init_def pmm_consts)

text \<open>A request that is granted, in terms of natural numbers.\<close>

lemma pmm_alloc_frames_cases:
  assumes inv: "pmm_inv s" and res: "pmm_alloc_frames count s = (addr, s')"
  obtains (refused) "addr = 0" "s' = s"
  | (granted) "g_ready s" "addr = g_next s" "addr \<noteq> 0" "count \<noteq> 0"
      "unat addr + unat count * 4096 \<le> unat PMM_LIMIT"
      "unat (g_next s') = unat addr + unat count * 4096" "g_ready s'"
proof (cases "s' = s \<and> addr = 0")
  case True
  then show ?thesis using refused by simp
next
  case False
  from res False have ready: "g_ready s" and nz: "count \<noteq> 0"
    and small: "\<not> count > 0xFFFFFFFF div PMM_FRAME_SIZE"
    and base: "\<not> (g_next s < PMM_BASE \<or> g_next s > PMM_LIMIT)"
    and fits: "\<not> count * PMM_FRAME_SIZE > PMM_LIMIT - g_next s"
    and addr: "addr = g_next s" and s': "s' = s\<lparr>g_next := g_next s + count * PMM_FRAME_SIZE\<rparr>"
    by (auto simp: pmm_alloc_frames_def Let_def split: if_splits)
  have c: "unat count \<le> 1048575"
    using small by (simp add: pmm_consts word_le_nat_alt not_less)
  then have m: "unat (count * PMM_FRAME_SIZE) = unat count * 4096"
    by (subst unat_mult_nowrap) (simp_all add: pmm_consts)
  have l: "unat (g_next s) \<le> unat PMM_LIMIT"
    using base by (simp add: word_le_nat_alt not_less)
  have f: "unat count * 4096 \<le> unat PMM_LIMIT - unat (g_next s)"
    using fits m l by (simp add: word_le_nat_alt not_less unat_sub_nowrap)
  have "unat (g_next s + count * PMM_FRAME_SIZE) = unat (g_next s) + unat count * 4096"
    using f l m by (subst unat_add_nowrap) (simp_all add: pmm_consts)
  moreover have "unat (g_next s) + unat count * 4096 \<le> unat PMM_LIMIT"
    using f l by simp
  moreover have "g_next s \<noteq> 0"
    using base by (auto simp: pmm_consts)
  ultimately show ?thesis
    using granted ready addr s' nz by simp
qed

lemma pmm_inv_alloc:
  assumes "pmm_inv s" and "pmm_alloc_frames count s = (addr, s')"
  shows "pmm_inv s'"
  using assms
  by (rule pmm_alloc_frames_cases) (use assms in \<open>auto simp: pmm_inv_def word_le_nat_alt\<close>)

section \<open>The interface to the program loader\<close>

text \<open>A run of requests, with the granted ranges in the order they were granted.\<close>

fun alloc_run :: "(u32 \<Rightarrow> 's \<Rightarrow> u32 \<times> 's) \<Rightarrow> u32 list \<Rightarrow> 's \<Rightarrow> (u32 \<times> u32) list \<times> 's" where
  "alloc_run alloc [] s = ([], s)"
| "alloc_run alloc (n # ns) s =
     (let (a, s') = alloc n s; (gs, s'') = alloc_run alloc ns s'
      in (if a = 0 then gs else (a, n) # gs, s''))"

definition range_of :: "u32 \<times> u32 \<Rightarrow> nat set" where
  "range_of g = {unat (fst g) ..< unat (fst g) + unat (snd g) * 4096}"

text \<open>
  A frame allocator hands out ranges of physical addresses: a refusal is address 0 and changes
  nothing; a granted range is frame-aligned, inside the region, and disjoint from everything
  that was handed out before.
\<close>

locale frame_allocator =
  fixes alloc :: "u32 \<Rightarrow> 's \<Rightarrow> u32 \<times> 's"
    and inv :: "'s \<Rightarrow> bool"
    and used :: "'s \<Rightarrow> nat set"
    and lo :: nat and hi :: nat
  assumes alloc_inv: "inv s \<Longrightarrow> alloc n s = (a, s') \<Longrightarrow> inv s'"
    and alloc_refused: "inv s \<Longrightarrow> alloc n s = (0, s') \<Longrightarrow> s' = s"
    and alloc_fresh: "inv s \<Longrightarrow> alloc n s = (a, s') \<Longrightarrow> a \<noteq> 0 \<Longrightarrow>
      {unat a ..< unat a + unat n * 4096} \<inter> used s = {}"
    and alloc_used: "inv s \<Longrightarrow> alloc n s = (a, s') \<Longrightarrow> a \<noteq> 0 \<Longrightarrow>
      used s' = used s \<union> {unat a ..< unat a + unat n * 4096}"
    and alloc_range: "inv s \<Longrightarrow> alloc n s = (a, s') \<Longrightarrow> a \<noteq> 0 \<Longrightarrow>
      lo \<le> unat a \<and> unat a + unat n * 4096 \<le> hi \<and> unat a mod 4096 = 0 \<and> n \<noteq> 0"
begin

lemma alloc_run_inv: "inv s \<Longrightarrow> alloc_run alloc ns s = (gs, s') \<Longrightarrow> inv s'"
  by (induction ns arbitrary: s gs s') (auto simp: Let_def dest: alloc_inv split: prod.splits)

lemma alloc_run_fresh:
  "inv s \<Longrightarrow> alloc_run alloc ns s = (gs, s') \<Longrightarrow>
     used s \<subseteq> used s' \<and>
     (\<forall>g \<in> set gs. range_of g \<inter> used s = {} \<and> range_of g \<subseteq> used s' \<and> range_of g \<subseteq> {lo ..< hi})"
proof (induction ns arbitrary: s gs s')
  case Nil
  then show ?case by simp
next
  case (Cons n ns)
  obtain a s1 where a: "alloc n s = (a, s1)" by fastforce
  obtain gs1 s2 where r: "alloc_run alloc ns s1 = (gs1, s2)" by fastforce
  from Cons.prems a r have s': "s' = s2" and gs: "gs = (if a = 0 then gs1 else (a, n) # gs1)"
    by simp_all
  have i1: "inv s1" using Cons.prems(1) a by (rule alloc_inv)
  note IH = Cons.IH [OF i1 r]
  show ?case
  proof (cases "a = 0")
    case True
    with a Cons.prems(1) have "s1 = s" using alloc_refused by blast
    with IH True gs s' show ?thesis by simp
  next
    case False
    note u = alloc_used [OF Cons.prems(1) a False]
    note f = alloc_fresh [OF Cons.prems(1) a False]
    note b = alloc_range [OF Cons.prems(1) a False]
    from u IH have "used s \<subseteq> used s2" by blast
    moreover have "range_of (a, n) \<inter> used s = {} \<and> range_of (a, n) \<subseteq> used s2 \<and>
        range_of (a, n) \<subseteq> {lo ..< hi}"
      using f u IH b by (auto simp: range_of_def)
    moreover have "\<forall>g \<in> set gs1. range_of g \<inter> used s = {}"
      using u IH by blast
    ultimately show ?thesis
      using IH False gs s' by auto
  qed
qed

theorem alloc_run_disjoint:
  assumes "inv s" and "alloc_run alloc ns s = (gs, s')" and "i < j" and "j < length gs"
  shows "range_of (gs ! i) \<inter> range_of (gs ! j) = {}"
  using assms
proof (induction ns arbitrary: s gs s' i j)
  case Nil
  then show ?case by simp
next
  case (Cons n ns)
  obtain a s1 where a: "alloc n s = (a, s1)" by fastforce
  obtain gs1 s2 where r: "alloc_run alloc ns s1 = (gs1, s2)" by fastforce
  from Cons.prems a r have gs: "gs = (if a = 0 then gs1 else (a, n) # gs1)" by simp
  have i1: "inv s1" using Cons.prems(1) a by (rule alloc_inv)
  show ?case
  proof (cases "a \<noteq> 0 \<and> i = 0")
    case True
    then obtain k where j: "j = Suc k" "k < length gs1"
      using Cons.prems(3,4) gs by (cases j) auto
    have "range_of (gs1 ! k) \<inter> used s1 = {}"
      using alloc_run_fresh [OF i1 r] j(2) by auto
    moreover have "range_of (a, n) \<subseteq> used s1"
      using alloc_used [OF Cons.prems(1) a] True by (auto simp: range_of_def)
    ultimately show ?thesis using True gs j(1) by auto
  next
    case False
    then show ?thesis
      using Cons.IH [OF i1 r] Cons.prems(3,4) gs
      by (cases i; cases j) (auto split: if_splits)
  qed
qed

end

interpretation pmm: frame_allocator pmm_alloc_frames pmm_inv pmm_used "unat PMM_BASE" "unat PMM_LIMIT"
proof (unfold_locales, goal_cases)
  case (1 s n a s')
  then show ?case by (rule pmm_inv_alloc)
next
  case (2 s n s')
  from 2(1,2) show ?case by (rule pmm_alloc_frames_cases) simp_all
next
  case (3 s n a s')
  from 3(1,2) show ?case by (rule pmm_alloc_frames_cases) (use 3 in \<open>auto simp: pmm_used_def\<close>)
next
  case (4 s n a s')
  from 4(1,2) show ?case
    by (rule pmm_alloc_frames_cases)
      (use 4 in \<open>auto simp: pmm_used_def pmm_inv_def word_le_nat_alt\<close>)
next
  case (5 s n a s')
  from 5(1,2) show ?case
    by (rule pmm_alloc_frames_cases) (use 5 in \<open>auto simp: pmm_inv_def word_le_nat_alt\<close>)
qed

section \<open>Properties\<close>

text \<open>
  Property C3. Whatever sequence of requests is made after initialisation, every granted range
  lies inside the region from 2 MiB to 4 MiB, is frame-aligned, and no two granted ranges share
  a byte: a frame that belongs to one address space is never handed out again.
\<close>

theorem pmm_run_disjoint:
  assumes "pmm_inv s" and "alloc_run pmm_alloc_frames ns s = (gs, s')"
    and "i < j" and "j < length gs"
  shows "range_of (gs ! i) \<inter> range_of (gs ! j) = {} \<and>
    range_of (gs ! i) \<subseteq> {0x200000 ..< 0x400000} \<and> range_of (gs ! j) \<subseteq> {0x200000 ..< 0x400000} \<and>
    pmm_inv s'"
proof -
  have "range_of (gs ! i) \<inter> range_of (gs ! j) = {}"
    using assms by (rule pmm.alloc_run_disjoint)
  moreover have "\<forall>g \<in> set gs. range_of g \<subseteq> {unat PMM_BASE ..< unat PMM_LIMIT}"
    using pmm.alloc_run_fresh [OF assms(1,2)] by blast
  moreover have "pmm_inv s'" using assms(1,2) by (rule pmm.alloc_run_inv)
  moreover have "gs ! i \<in> set gs" "gs ! j \<in> set gs" using assms(3,4) by simp_all
  moreover have "unat PMM_BASE = 0x200000" "unat PMM_LIMIT = 0x400000"
    by (simp_all add: pmm_consts)
  ultimately show ?thesis by simp
qed

theorem pmm_run_disjoint_witness:
  "range_of (0x200000, 3) \<inter> range_of (0x203000, 2) = {} \<and>
   range_of (0x200000, 3) \<subseteq> {0x200000 ..< 0x400000} \<and> range_of (0x203000, 2) \<subseteq> {0x200000 ..< 0x400000}"
proof -
  have inv: "pmm_inv (pmm_init pmm_boot)"
    by (intro pmm_inv_init pmm_inv_boot)
  have run: "alloc_run pmm_alloc_frames [3, 0, 2, 600] (pmm_init pmm_boot) =
      ([(0x200000, 3), (0x203000, 2)], \<lparr>g_next = 0x205000, g_ready = True\<rparr>)"
    by (simp add: pmm_alloc_frames_def pmm_init_def pmm_boot_def pmm_consts)
  show ?thesis
    using pmm_run_disjoint [OF inv run, of 0 1] by simp
qed

text \<open>
  A request is granted exactly when it is for at least one frame and fits into what
  \<open>pmm_bytes_free\<close> reports; the frames used and the frames free always add up to the whole
  region, and initialising again changes nothing.
\<close>

theorem pmm_grant_exact:
  assumes "pmm_inv s" and "g_ready s"
  shows "(fst (pmm_alloc_frames n s) \<noteq> 0) =
      (n \<noteq> 0 \<and> unat n * 4096 \<le> unat (pmm_bytes_free s)) \<and>
    unat (pmm_bytes_used s) + unat (pmm_bytes_free s) = 0x200000 \<and>
    pmm_init s = s"
proof -
  have lo: "unat (g_next s) \<ge> 0x200000" and hi: "unat (g_next s) \<le> 0x400000"
    using assms by (simp_all add: pmm_inv_def word_le_nat_alt pmm_consts)
  have nb: "\<not> (g_next s < PMM_BASE \<or> g_next s > PMM_LIMIT)"
    using lo hi by (simp add: word_le_nat_alt not_less pmm_consts)
  have free: "unat (pmm_bytes_free s) = 0x400000 - unat (g_next s)"
    using assms(2) nb hi by (simp add: pmm_bytes_free_def unat_sub_nowrap pmm_consts)
  have used: "unat (pmm_bytes_used s) = unat (g_next s) - 0x200000"
    using assms(2) nb lo by (simp add: pmm_bytes_used_def unat_sub_nowrap pmm_consts)
  have fit: "(\<not> n > 0xFFFFFFFF div PMM_FRAME_SIZE \<and> \<not> n * PMM_FRAME_SIZE > PMM_LIMIT - g_next s) =
      (unat n * 4096 \<le> 0x400000 - unat (g_next s))"
  proof (cases "unat n \<le> 1048575")
    case True
    then have "unat (n * PMM_FRAME_SIZE) = unat n * 4096"
      by (subst unat_mult_nowrap) (simp_all add: pmm_consts)
    moreover have "unat (PMM_LIMIT - g_next s) = 0x400000 - unat (g_next s)"
      using hi by (subst unat_sub_nowrap) (simp_all add: pmm_consts)
    ultimately show ?thesis using True
      by (simp add: word_le_nat_alt not_less pmm_consts)
  next
    case False
    then show ?thesis by (simp add: word_le_nat_alt not_less pmm_consts)
  qed
  have "(fst (pmm_alloc_frames n s) \<noteq> 0) = (n \<noteq> 0 \<and> unat n * 4096 \<le> 0x400000 - unat (g_next s))"
    using assms(2) nb fit lo by (auto simp: pmm_alloc_frames_def Let_def)
  then show ?thesis
    using free used lo hi assms(2) by (simp add: pmm_init_def)
qed

theorem pmm_grant_exact_witness:
  "fst (pmm_alloc_frames 512 (pmm_init pmm_boot)) \<noteq> 0 \<and>
   fst (pmm_alloc_frames 513 (pmm_init pmm_boot)) = 0"
proof -
  have inv: "pmm_inv (pmm_init pmm_boot)" and rdy: "g_ready (pmm_init pmm_boot)"
    by (simp_all add: pmm_inv_def pmm_init_def pmm_boot_def pmm_consts)
  have fr: "unat (pmm_bytes_free (pmm_init pmm_boot)) = 0x200000"
    by (simp add: pmm_bytes_free_def pmm_init_def pmm_boot_def pmm_consts)
  show ?thesis
    using pmm_grant_exact [OF inv rdy, of 512] pmm_grant_exact [OF inv rdy, of 513] fr by simp
qed

end
