(* ===== verification/Heap.thy ===== *)
theory Heap
  imports Kernel_Prelude
begin

text \<open>
  The freestanding heap allocator (\<open>Kernel/mm/mm_fs.c\<close>; the hosted \<open>Kernel/mm/mm.c\<close> has the same
  functions line for line, apart from its log output). Block headers are a typed store
  \<open>blocks\<close> from addresses to headers, payload bytes a separate store \<open>hmem\<close>; \<open>NULL\<close> is address 0.
  The target is the i686 PE build: \<open>size_t\<close> and pointers are 32 bits, \<open>sizeof(block_t)\<close> is 16 and
  \<open>sizeof(heap_align_t)\<close> is 16, so \<open>sizeof(heap_storage)\<close> is exactly 1 MiB.

  The list traversals follow pointers and end only on lists without a cycle: they are
  \<open>partial_function (option)\<close>, with \<open>None\<close> for a traversal that does not end.
  Log output is not modelled.
\<close>

section \<open>Data\<close>

record block_t =
  bsize :: u32
  in_use :: bool
  bnext :: u32
  bprev :: u32

record mem_stats_t =
  total_allocated :: u64
  total_freed :: u64
  current_usage :: u64
  peak_usage :: u64
  allocation_count :: u64
  free_count :: u64
  failed_allocations :: u64

record heap_t =
  heap_storage :: u32
  blocks :: "u32 \<Rightarrow> block_t"
  hmem :: "u32 \<Rightarrow> u8"
  block_list :: u32
  free_lists :: "u32 list"
  stats :: mem_stats_t

definition SIZEOF_BLOCK :: u32 where "SIZEOF_BLOCK = 16"
definition SIZEOF_HEAP :: u32 where "SIZEOF_HEAP = 0x100000"
definition NUM_SIZE_CLASSES :: nat where "NUM_SIZE_CLASSES = 6"

definition size_classes :: "u32 list" where
  "size_classes = [8, 16, 32, 64, 128, 256]"

lemmas heap_consts = SIZEOF_BLOCK_def SIZEOF_HEAP_def NUM_SIZE_CLASSES_def size_classes_def

section \<open>Bytes\<close>

definition memset_fs :: "(u32 \<Rightarrow> u8) \<Rightarrow> u32 \<Rightarrow> u8 \<Rightarrow> u32 \<Rightarrow> (u32 \<Rightarrow> u8)" where
  "memset_fs m p c n = (\<lambda>a. if a - p < n then c else m a)"

text \<open>The copy loop, byte by byte in ascending order (source and target may overlap).\<close>

definition memcpy_fs :: "(u32 \<Rightarrow> u8) \<Rightarrow> u32 \<Rightarrow> u32 \<Rightarrow> u32 \<Rightarrow> (u32 \<Rightarrow> u8)" where
  "memcpy_fs m d s n =
     fold (\<lambda>i m. m(d + word_of_nat i := m (s + word_of_nat i))) [0 ..< unat n] m"

section \<open>Operations\<close>

text \<open>Writing one header.\<close>

definition upd_block :: "u32 \<Rightarrow> (block_t \<Rightarrow> block_t) \<Rightarrow> heap_t \<Rightarrow> heap_t" where
  "upd_block p f h = h\<lparr>blocks := (blocks h)(p := f (blocks h p))\<rparr>"

definition align16 :: "u32 \<Rightarrow> u32" where
  "align16 value = (value + 15) AND NOT 15"

definition update_peak :: "mem_stats_t \<Rightarrow> mem_stats_t" where
  "update_peak st =
     (if current_usage st > peak_usage st then st\<lparr>peak_usage := current_usage st\<rparr> else st)"

definition block_list_remove :: "u32 \<Rightarrow> heap_t \<Rightarrow> heap_t" where
  "block_list_remove b h =
     (let pv = bprev (blocks h b); nx = bnext (blocks h b);
          h1 = (if pv \<noteq> 0 then upd_block pv (\<lambda>k. k\<lparr>bnext := nx\<rparr>) h else h\<lparr>block_list := nx\<rparr>);
          nx1 = bnext (blocks h1 b);
          h2 = (if nx1 \<noteq> 0 then upd_block nx1 (\<lambda>k. k\<lparr>bprev := bprev (blocks h1 b)\<rparr>) h1 else h1)
      in upd_block b (\<lambda>k. k\<lparr>bnext := 0, bprev := 0\<rparr>) h2)"

definition block_list_insert_front :: "u32 \<Rightarrow> heap_t \<Rightarrow> heap_t" where
  "block_list_insert_front b h =
     (let h1 = upd_block b (\<lambda>k. k\<lparr>bprev := 0, bnext := block_list h\<rparr>) h;
          h2 = (if block_list h1 \<noteq> 0
                then upd_block (block_list h1) (\<lambda>k. k\<lparr>bprev := b\<rparr>) h1 else h1)
      in h2\<lparr>block_list := b\<rparr>)"

text \<open>The first class that is large enough; \<open>None\<close> for the result \<open>-1\<close>.\<close>

fun size_class_from :: "u32 \<Rightarrow> nat \<Rightarrow> u32 list \<Rightarrow> nat option" where
  "size_class_from sz i [] = None"
| "size_class_from sz i (c # cs) = (if sz \<le> c then Some i else size_class_from sz (Suc i) cs)"

definition size_class_index :: "u32 \<Rightarrow> nat option" where
  "size_class_index sz = size_class_from sz 0 size_classes"

definition free_list_push :: "nat \<Rightarrow> u32 \<Rightarrow> heap_t \<Rightarrow> heap_t" where
  "free_list_push c b h =
     (let h1 = upd_block b (\<lambda>k. k\<lparr>bnext := free_lists h ! c, bprev := 0\<rparr>) h;
          h2 = (if free_lists h1 ! c \<noteq> 0
                then upd_block (free_lists h1 ! c) (\<lambda>k. k\<lparr>bprev := b\<rparr>) h1 else h1)
      in h2\<lparr>free_lists := (free_lists h2)[c := b]\<rparr>)"

definition free_list_pop :: "nat \<Rightarrow> heap_t \<Rightarrow> u32 \<times> heap_t" where
  "free_list_pop c h =
     (let b = free_lists h ! c in
      if b = 0 then (0, h)
      else
        (let h1 = h\<lparr>free_lists := (free_lists h)[c := bnext (blocks h b)]\<rparr>;
             h2 = (if free_lists h1 ! c \<noteq> 0
                   then upd_block (free_lists h1 ! c) (\<lambda>k. k\<lparr>bprev := 0\<rparr>) h1 else h1)
         in (b, h2)))"

definition split_block :: "u32 \<Rightarrow> u32 \<Rightarrow> heap_t \<Rightarrow> heap_t" where
  "split_block b sz h =
     (let remaining = bsize (blocks h b) - sz in
      if remaining \<le> SIZEOF_BLOCK + 16 then h
      else
        (let split = b + SIZEOF_BLOCK + sz;
             nx = bnext (blocks h b);
             h1 = upd_block split
                    (\<lambda>_. \<lparr>bsize = remaining - SIZEOF_BLOCK, in_use = False,
                          bnext = nx, bprev = b\<rparr>) h;
             h2 = (if nx \<noteq> 0 then upd_block nx (\<lambda>k. k\<lparr>bprev := split\<rparr>) h1 else h1)
         in upd_block b (\<lambda>k. k\<lparr>bsize := sz, bnext := split\<rparr>) h2))"

text \<open>The second half of \<open>coalesce\<close>: absorb the free successors in the list.\<close>

partial_function (option) coalesce_next :: "u32 \<Rightarrow> heap_t \<Rightarrow> heap_t option" where
  "coalesce_next b h =
     (let nx = bnext (blocks h b) in
      if nx \<noteq> 0 \<and> \<not> in_use (blocks h nx)
      then
        (let h1 = upd_block b (\<lambda>k. k\<lparr>bsize := bsize k + (SIZEOF_BLOCK + bsize (blocks h nx))\<rparr>) h;
             h2 = upd_block b (\<lambda>k. k\<lparr>bnext := bnext (blocks h1 nx)\<rparr>) h1;
             nx2 = bnext (blocks h2 b);
             h3 = (if nx2 \<noteq> 0 then upd_block nx2 (\<lambda>k. k\<lparr>bprev := b\<rparr>) h2 else h2)
         in coalesce_next b h3)
      else Some h)"

definition coalesce_prev :: "u32 \<Rightarrow> heap_t \<Rightarrow> heap_t" where
  "coalesce_prev b h =
     (let pv = bprev (blocks h b) in
      if pv \<noteq> 0 \<and> \<not> in_use (blocks h pv)
      then
        (let h1 = upd_block b (\<lambda>k. k\<lparr>bsize := bsize k + (SIZEOF_BLOCK + bsize (blocks h pv))\<rparr>) h;
             h2 = upd_block b (\<lambda>k. k\<lparr>bprev := bprev (blocks h1 pv)\<rparr>) h1;
             pv2 = bprev (blocks h2 b)
         in if pv2 \<noteq> 0 then upd_block pv2 (\<lambda>k. k\<lparr>bnext := b\<rparr>) h2 else h2)
      else h)"

definition coalesce :: "u32 \<Rightarrow> heap_t \<Rightarrow> heap_t option" where
  "coalesce b h =
     (if b = 0 \<or> in_use (blocks h b) then Some h else coalesce_next b (coalesce_prev b h))"

definition zero_stats :: mem_stats_t where
  "zero_stats = \<lparr>total_allocated = 0, total_freed = 0, current_usage = 0, peak_usage = 0,
     allocation_count = 0, free_count = 0, failed_allocations = 0\<rparr>"

definition zero_block :: block_t where
  "zero_block = \<lparr>bsize = 0, in_use = False, bnext = 0, bprev = 0\<rparr>"

definition init_memory :: "heap_t \<Rightarrow> heap_t" where
  "init_memory h =
     h\<lparr>stats := zero_stats,
       hmem := memset_fs (hmem h) (heap_storage h) 0 SIZEOF_HEAP,
       blocks := (\<lambda>_. zero_block)(heap_storage h :=
         \<lparr>bsize = SIZEOF_HEAP - SIZEOF_BLOCK, in_use = False, bnext = 0, bprev = 0\<rparr>),
       free_lists := replicate NUM_SIZE_CLASSES 0,
       block_list := heap_storage h\<rparr>"

text \<open>The statistics update of a successful allocation of block \<open>b\<close>.\<close>

definition count_alloc :: "u32 \<Rightarrow> heap_t \<Rightarrow> heap_t" where
  "count_alloc b h =
     (let sz = ucast (bsize (blocks h b)); st = stats h in
      h\<lparr>stats := update_peak
          (st\<lparr>total_allocated := total_allocated st + sz,
              current_usage := current_usage st + sz,
              allocation_count := allocation_count st + 1\<rparr>)\<rparr>)"

text \<open>The loop over \<open>block_list\<close>: the first free block that is large enough, or \<open>NULL\<close>.\<close>

partial_function (option) first_fit :: "(u32 \<Rightarrow> block_t) \<Rightarrow> u32 \<Rightarrow> u32 \<Rightarrow> u32 option" where
  "first_fit B sz p =
     (if p = 0 then Some 0
      else if \<not> in_use (B p) \<and> bsize (B p) \<ge> sz then Some p
      else first_fit B sz (bnext (B p)))"

definition kmalloc_scan :: "u32 \<Rightarrow> heap_t \<Rightarrow> (u32 \<times> heap_t) option" where
  "kmalloc_scan sz h =
     do { b \<leftarrow> first_fit (blocks h) sz (block_list h);
          if b = 0
          then Some (0, h\<lparr>stats := (stats h)\<lparr>failed_allocations := failed_allocations (stats h) + 1\<rparr>\<rparr>)
          else Some (b + SIZEOF_BLOCK,
                 count_alloc b (upd_block b (\<lambda>k. k\<lparr>in_use := True\<rparr>) (split_block b sz h))) }"

definition kmalloc :: "u32 \<Rightarrow> heap_t \<Rightarrow> (u32 \<times> heap_t) option" where
  "kmalloc req h0 =
     (if req = 0 then Some (0, h0)
      else
        (let h = (if block_list h0 = 0 then init_memory h0 else h0);
             sz = align16 req in
         case (if sz \<le> size_classes ! (NUM_SIZE_CLASSES - 1) then size_class_index sz else None) of
           None \<Rightarrow> kmalloc_scan sz h
         | Some c \<Rightarrow>
             (let (b, h1) = free_list_pop c h in
              if b \<noteq> 0
              then Some (b + SIZEOF_BLOCK,
                     block_list_insert_front b (upd_block b (\<lambda>k. k\<lparr>in_use := True\<rparr>) (count_alloc b h1)))
              else kmalloc_scan sz h1)))"

definition kcalloc :: "u32 \<Rightarrow> u32 \<Rightarrow> heap_t \<Rightarrow> (u32 \<times> heap_t) option" where
  "kcalloc nmemb sz h =
     (if nmemb \<noteq> 0 \<and> sz > (- 1) div nmemb
      then Some (0, h\<lparr>stats := (stats h)\<lparr>failed_allocations := failed_allocations (stats h) + 1\<rparr>\<rparr>)
      else
        (let total = nmemb * sz in
         do { (ptr, h1) \<leftarrow> kmalloc total h;
              Some (ptr, if ptr \<noteq> 0 then h1\<lparr>hmem := memset_fs (hmem h1) ptr 0 total\<rparr> else h1) }))"

definition kfree :: "u32 \<Rightarrow> heap_t \<Rightarrow> heap_t option" where
  "kfree ptr h =
     (if ptr = 0 then Some h
      else
        (let b = ptr - SIZEOF_BLOCK in
         if \<not> in_use (blocks h b) then Some h
         else
           (let h1 = upd_block b (\<lambda>k. k\<lparr>in_use := False\<rparr>) h;
                sz = ucast (bsize (blocks h1 b)); st = stats h1;
                h2 = h1\<lparr>stats := st\<lparr>total_freed := total_freed st + sz,
                          current_usage := current_usage st - sz,
                          free_count := free_count st + 1\<rparr>\<rparr>
            in do { h3 \<leftarrow> coalesce b h2;
                    Some (case size_class_index (bsize (blocks h3 b)) of
                            None \<Rightarrow> h3
                          | Some c \<Rightarrow> free_list_push c b (block_list_remove b h3)) })))"

definition krealloc :: "u32 \<Rightarrow> u32 \<Rightarrow> heap_t \<Rightarrow> (u32 \<times> heap_t) option" where
  "krealloc ptr sz h =
     (if ptr = 0 then kmalloc sz h
      else if sz = 0 then do { h1 \<leftarrow> kfree ptr h; Some (0, h1) }
      else
        (let b = ptr - SIZEOF_BLOCK;
             copy_size = (if bsize (blocks h b) < sz then bsize (blocks h b) else sz)
         in do { (nx, h1) \<leftarrow> kmalloc sz h;
                 if nx = 0 then Some (0, h1)
                 else do { h2 \<leftarrow> kfree ptr (h1\<lparr>hmem := memcpy_fs (hmem h1) nx ptr copy_size\<rparr>);
                           Some (nx, h2) } }))"

definition get_memory_stats :: "heap_t \<Rightarrow> mem_stats_t" where
  "get_memory_stats h = stats h"

end
