(* ===== verification/Heap_Inv.thy ===== *)
theory Heap_Inv
  imports Heap
begin

text \<open>
  The heap of \<open>Kernel/mm/mm_fs.c\<close>: the invariant of its lists and of the memory they describe, that
  \<open>kmalloc\<close> keeps it on every path, that \<open>kfree\<close> keeps it when the neighbours of the freed block
  allow it, and the three cases in which a block does not have the memory it stands for.
\<close>

section \<open>Doubly linked lists\<close>

fun dseg :: "(u32 \<Rightarrow> block_t) \<Rightarrow> u32 \<Rightarrow> u32 \<Rightarrow> u32 list \<Rightarrow> u32 \<Rightarrow> bool" where
  "dseg B pr p [] e = (p = e)"
| "dseg B pr p (b # bs) e =
     (p = b \<and> b \<noteq> 0 \<and> bprev (B b) = pr \<and> dseg B b (bnext (B b)) bs e)"

definition last_of :: "u32 \<Rightarrow> u32 list \<Rightarrow> u32" where
  "last_of pr xs = (if xs = [] then pr else last xs)"

lemma last_of_simps [simp]: "last_of pr [] = pr" "last_of pr (x # xs) = last_of x xs"
  by (simp_all add: last_of_def)

lemma dseg_append:
  "dseg B pr p (xs @ ys) e \<longleftrightarrow> (\<exists>m. dseg B pr p xs m \<and> dseg B (last_of pr xs) m ys e)"
  by (induction xs arbitrary: pr p) auto

lemma dseg_cong:
  "(\<And>x. x \<in> set bs \<Longrightarrow> bnext (B' x) = bnext (B x) \<and> bprev (B' x) = bprev (B x)) \<Longrightarrow>
     dseg B' pr p bs e = dseg B pr p bs e"
  by (induction bs arbitrary: pr p) auto

lemma dseg_nonzero: "dseg B pr p bs e \<Longrightarrow> 0 \<notin> set bs"
  by (induction bs arbitrary: pr p) auto

lemma dseg_distinct: "dseg B pr p bs 0 \<Longrightarrow> distinct bs"
proof (induction bs arbitrary: pr p)
  case (Cons b bs)
  have no_repeat: "b \<notin> set bs" 
  proof
    assume "b \<in> set bs"
    then obtain us vs where bs: "bs = us @ b # vs" by (meson split_list)
    obtain m where m: "dseg B b (bnext (B b)) us m" "dseg B (last_of b us) m (b # vs) 0"
      using Cons.prems by (auto simp: bs dseg_append)
    have "length (us @ b # vs) = length vs"
    proof -
      have det: "dseg B q1 r xs 0 \<Longrightarrow> dseg B q2 r ys 0 \<Longrightarrow> length xs = length ys" for q1 q2 r xs ys
      proof (induction xs arbitrary: q1 q2 r ys)
        case Nil then show ?case by (cases ys) auto
      next
        case (Cons x xs) then show ?case by (cases ys) auto
      qed
      have "dseg B b (bnext (B b)) (us @ b # vs) 0" using Cons.prems by (simp add: bs)
      moreover have "dseg B b (bnext (B b)) vs 0" using m(2) by simp
      ultimately show ?thesis by (rule det)
    qed
    then show False by simp
  qed
  then show ?case using Cons by auto
qed simp

lemma dseg_insert_front:
  assumes "dseg B 0 p ms 0" and "b \<notin> set ms" and "b \<noteq> 0"
    and B1: "B1 = B(b := (B b)\<lparr>bprev := 0, bnext := p\<rparr>)"
    and B2: "B2 = (if p \<noteq> 0 then B1(p := (B1 p)\<lparr>bprev := b\<rparr>) else B1)"
  shows "dseg B2 0 b (b # ms) 0"
proof (cases ms)
  case Nil
  then show ?thesis using assms by auto
next
  case (Cons m ms')
  have d: "distinct ms" using assms(1) by (rule dseg_distinct)
  from Cons assms(1) have p: "p = m" "m \<noteq> 0" and seg: "dseg B m (bnext (B m)) ms' 0" by auto
  have "dseg B2 m (bnext (B m)) ms' 0"
    using seg by (rule dseg_cong [THEN iffD2, rotated]) (use assms(2) Cons d p in \<open>auto simp: B1 B2\<close>)
  then show ?thesis
    using Cons p assms(2,3) by (auto simp: B1 B2)
qed

lemma dseg_pop_front:
  assumes "dseg B 0 p (b # bs) 0"
    and B1: "B1 = (if bnext (B b) \<noteq> 0 then B(bnext (B b) := (B (bnext (B b)))\<lparr>bprev := 0\<rparr>) else B)"
  shows "dseg B1 0 (bnext (B b)) bs 0"
proof (cases bs)
  case Nil
  then show ?thesis using assms by simp
next
  case (Cons m bs')
  have d: "distinct (b # bs)" using assms(1) by (rule dseg_distinct)
  from Cons assms(1) have p: "bnext (B b) = m" "m \<noteq> 0" and seg: "dseg B m (bnext (B m)) bs' 0" by auto
  have "dseg B1 m (bnext (B m)) bs' 0"
    using seg by (rule dseg_cong [THEN iffD2, rotated]) (use d Cons p in \<open>auto simp: B1\<close>)
  then show ?thesis using Cons p by (simp add: B1)
qed

text \<open>Unlinking an element from the middle of a list.\<close>

lemma dseg_relink:
  assumes "dseg B 0 p (xs @ b # ys) 0"
    and nb: "nb = (if xs = [] then B else B(last xs := (B (last xs))\<lparr>bnext := bnext (B b)\<rparr>))"
    and B1: "B1 = (if ys = [] then nb else nb(hd ys := (nb (hd ys))\<lparr>bprev := bprev (B b)\<rparr>))"
  shows "dseg B1 0 (if xs = [] then bnext (B b) else p) (xs @ ys) 0"
proof -
  have d: "distinct (xs @ b # ys)" using assms(1) by (rule dseg_distinct)
  then have lx: "xs \<noteq> [] \<Longrightarrow> last xs \<notin> set ys"
    by (metis disjoint_iff distinct_append last_in_set list.set_intros(2))
  from assms(1) obtain m where xs: "dseg B 0 p xs b" and b: "bprev (B b) = last_of 0 xs"
    and ys: "dseg B b (bnext (B b)) ys 0"
    by (auto simp: dseg_append)
  have ys': "dseg B1 (last_of 0 xs) (bnext (B b)) ys 0"
  proof (cases ys)
    case Nil
    then show ?thesis using ys by simp
  next
    case (Cons y ys')
    from ys Cons have y: "bnext (B b) = y" "y \<noteq> 0" and seg: "dseg B y (bnext (B y)) ys' 0" by auto
    have "dseg B1 y (bnext (B y)) ys' 0"
      using seg by (rule dseg_cong [THEN iffD2, rotated]) (use d Cons lx in \<open>auto simp: B1 nb\<close>)
    moreover have "bnext (B1 y) = bnext (B y)" "bprev (B1 y) = bprev (B b)"
      using d Cons lx by (auto simp: B1 nb)
    ultimately show ?thesis using Cons y b by simp
  qed
  show ?thesis
  proof (cases xs rule: rev_cases)
    case Nil
    then show ?thesis using ys' by simp
  next
    case (snoc us l)
    from xs snoc obtain k where us: "dseg B 0 p us l" and l: "l \<noteq> 0" "bprev (B l) = last_of 0 us"
      by (auto simp: dseg_append)
    have "dseg B1 0 p us l"
      using us by (rule dseg_cong [THEN iffD2, rotated]) (use d snoc in \<open>cases ys; auto simp: B1 nb\<close>)
    moreover have "bprev (B1 l) = bprev (B l)" "bnext (B1 l) = bnext (B b)"
      using d snoc by (cases ys; auto simp: B1 nb)+
    ultimately show ?thesis
      using ys' snoc l by (auto simp: dseg_append last_of_def)
  qed
qed

text \<open>Linking a new element behind \<open>b\<close>.\<close>

lemma dseg_insert_after:
  assumes "dseg B 0 p (xs @ b # ys) 0" and new: "s \<notin> set (xs @ b # ys)" "s \<noteq> 0"
    and S: "bprev S = b" "bnext S = bnext (B b)"
    and B1: "B1 = B(s := S)"
    and B2: "B2 = (if ys = [] then B1 else B1(hd ys := (B1 (hd ys))\<lparr>bprev := s\<rparr>))"
    and T: "bnext T = s" "bprev T = bprev (B b)"
    and B3: "B3 = B2(b := T)"
  shows "dseg B3 0 p (xs @ b # s # ys) 0"
proof -
  have d: "distinct (xs @ b # ys)" using assms(1) by (rule dseg_distinct)
  from assms(1) have xs: "dseg B 0 p xs b" and b: "b \<noteq> 0" "bprev (B b) = last_of 0 xs"
    and ys: "dseg B b (bnext (B b)) ys 0"
    by (auto simp: dseg_append)
  have "dseg B3 0 p xs b"
    using xs by (rule dseg_cong [THEN iffD2, rotated])
      (use d new T in \<open>cases ys; auto simp: B1 B2 B3\<close>)
  moreover have "dseg B3 s (bnext (B b)) ys 0"
  proof (cases ys)
    case Nil
    then show ?thesis using ys by simp
  next
    case (Cons y ys')
    from ys Cons have y: "bnext (B b) = y" "y \<noteq> 0" and seg: "dseg B y (bnext (B y)) ys' 0" by auto
    have "dseg B3 y (bnext (B y)) ys' 0"
      using seg by (rule dseg_cong [THEN iffD2, rotated])
        (use d new Cons T in \<open>auto simp: B1 B2 B3\<close>)
    moreover have "bnext (B3 y) = bnext (B y)" "bprev (B3 y) = s"
      using d new Cons by (auto simp: B1 B2 B3)
    ultimately show ?thesis using Cons y by simp
  qed
  moreover have "bprev (B3 s) = b" "bnext (B3 s) = bnext (B b)"
    using new d S by (cases ys; auto simp: B1 B2 B3)+
  ultimately show ?thesis
    using b new T by (auto simp: dseg_append B3)
qed

lemma first_fit_find:
  "dseg B pr p ms 0 \<Longrightarrow>
     first_fit B sz p = Some (case find (\<lambda>b. \<not> in_use (B b) \<and> sz \<le> bsize (B b)) ms of
                                None \<Rightarrow> 0 | Some b \<Rightarrow> b)"
proof (induction ms arbitrary: pr p)
  case Nil
  then show ?case by (simp add: first_fit.simps)
next
  case (Cons b ms)
  then show ?case by (subst first_fit.simps) auto
qed

section \<open>The heap invariant\<close>

definition extent :: "(u32 \<Rightarrow> block_t) \<Rightarrow> u32 \<Rightarrow> nat set" where
  "extent B b = {unat b ..< unat b + 16 + unat (bsize (B b))}"

definition geom :: "(u32 \<Rightarrow> block_t) \<Rightarrow> nat \<Rightarrow> u32 set \<Rightarrow> bool" where
  "geom B lo S \<longleftrightarrow>
     (\<forall>b \<in> S. extent B b \<subseteq> {lo ..< lo + 0x100000}) \<and>
     (\<forall>b \<in> S. \<forall>c \<in> S. b \<noteq> c \<longrightarrow> extent B b \<inter> extent B c = {})"

definition all_blocks :: "u32 list \<Rightarrow> (nat \<Rightarrow> u32 list) \<Rightarrow> u32 set" where
  "all_blocks ms fl = set ms \<union> (\<Union>c<6. set (fl c))"

definition heap_ok :: "heap_t \<Rightarrow> u32 list \<Rightarrow> (nat \<Rightarrow> u32 list) \<Rightarrow> bool" where
  "heap_ok h ms fl \<longleftrightarrow>
     unat (heap_storage h) + 0x100000 < 2 ^ 32 \<and> heap_storage h \<noteq> 0 \<and>
     length (free_lists h) = 6 \<and>
     dseg (blocks h) 0 (block_list h) ms 0 \<and>
     (\<forall>c<6. dseg (blocks h) 0 (free_lists h ! c) (fl c) 0) \<and>
     (\<forall>c<6. \<forall>b \<in> set (fl c). \<not> in_use (blocks h b)) \<and>
     (\<forall>c<6. set ms \<inter> set (fl c) = {}) \<and>
     (\<forall>c<6. \<forall>d<6. c \<noteq> d \<longrightarrow> set (fl c) \<inter> set (fl d) = {}) \<and>
     geom (blocks h) (unat (heap_storage h)) (all_blocks ms fl)"

lemma geom_cong: "(\<And>b. b \<in> S \<Longrightarrow> bsize (B' b) = bsize (B b)) \<Longrightarrow> geom B lo S \<Longrightarrow> geom B' lo S"
  by (simp add: geom_def extent_def)

lemma upd_block_simps [simp]:
  "blocks (upd_block p f h) = (blocks h)(p := f (blocks h p))"
  "heap_storage (upd_block p f h) = heap_storage h"
  "hmem (upd_block p f h) = hmem h"
  "block_list (upd_block p f h) = block_list h"
  "free_lists (upd_block p f h) = free_lists h"
  "stats (upd_block p f h) = stats h"
  by (simp_all add: upd_block_def)

lemma count_alloc_simps [simp]:
  "blocks (count_alloc b h) = blocks h"
  "heap_storage (count_alloc b h) = heap_storage h"
  "hmem (count_alloc b h) = hmem h"
  "block_list (count_alloc b h) = block_list h"
  "free_lists (count_alloc b h) = free_lists h"
  by (simp_all add: count_alloc_def Let_def)

text \<open>The list invariant does not depend on the statistics and the payload bytes.\<close>

lemma heap_ok_cong:
  assumes "heap_ok h ms fl" and "heap_storage h' = heap_storage h" and "block_list h' = block_list h"
    and "free_lists h' = free_lists h"
    and "\<And>b. b \<in> all_blocks ms fl \<Longrightarrow> bnext (blocks h' b) = bnext (blocks h b) \<and>
      bprev (blocks h' b) = bprev (blocks h b) \<and> bsize (blocks h' b) = bsize (blocks h b)"
    and "\<And>b c. c < 6 \<Longrightarrow> b \<in> set (fl c) \<Longrightarrow> \<not> in_use (blocks h b) \<Longrightarrow> \<not> in_use (blocks h' b)"
  shows "heap_ok h' ms fl"
proof -
  have "dseg (blocks h') 0 (block_list h) ms 0 = dseg (blocks h) 0 (block_list h) ms 0"
    using assms(5) by (intro dseg_cong) (simp add: all_blocks_def)
  moreover have "dseg (blocks h') 0 p (fl c) 0 = dseg (blocks h) 0 p (fl c) 0" if "c < 6" for c p
    using assms(5) that by (intro dseg_cong) (auto simp: all_blocks_def)
  moreover have "geom (blocks h) lo (all_blocks ms fl) \<Longrightarrow> geom (blocks h') lo (all_blocks ms fl)" for lo
    using assms(5) by (intro geom_cong [of _ "blocks h'" "blocks h"]) auto
  ultimately show ?thesis
    using assms(1,2,3,4,6) unfolding heap_ok_def by simp
qed

lemma heap_ok_init:
  assumes "heap_storage h \<noteq> 0" and "unat (heap_storage h) + 0x100000 < 2 ^ 32"
  shows "heap_ok (init_memory h) [heap_storage h] (\<lambda>_. [])"
  using assms
  by (simp add: heap_ok_def init_memory_def geom_def extent_def all_blocks_def heap_consts)

lemma geom_bounds:
  assumes "geom B lo S" and "b \<in> S" and "lo + 0x100000 \<le> 2 ^ 32"
  shows "lo \<le> unat b \<and> unat b + 16 + unat (bsize (B b)) \<le> lo + 0x100000 \<and>
    unat b + 16 + unat (bsize (B b)) \<le> 2 ^ 32"
proof -
  have sub: "{unat b ..< unat b + 16 + unat (bsize (B b))} \<subseteq> {lo ..< lo + 0x100000}"
    using assms(1,2) by (auto simp: geom_def extent_def)
  have "unat b \<in> {lo ..< lo + 0x100000}" "unat b + 15 + unat (bsize (B b)) \<in> {lo ..< lo + 0x100000}"
    by (rule subsetD [OF sub], simp)+
  then show ?thesis using assms(3) by auto
qed

section \<open>Splitting\<close>

text \<open>Splitting a block: the list, the geometry and the sizes afterwards.\<close>

lemma geom_split:
  assumes g: "geom B lo S" and b: "b \<in> S" and hi: "lo + 0x100000 \<le> 2 ^ 32"
    and B': "\<And>x. x \<in> S \<Longrightarrow> x \<noteq> b \<Longrightarrow> bsize (B' x) = bsize (B x)"
    and parts: "unat (bsize (B' b)) + 16 + unat (bsize (B' s)) = unat (bsize (B b))"
    and s: "unat s = unat b + 16 + unat (bsize (B' b))"
  shows "s \<notin> S \<and> geom B' lo (insert s S)"
proof -
  have es: "extent B' b \<union> extent B' s = extent B b" and ei: "extent B' b \<inter> extent B' s = {}"
    using parts s by (auto simp: extent_def)
  have mem: "unat s \<in> extent B b" using parts s by (auto simp: extent_def)
  have sS: "s \<notin> S"
  proof
    assume a: "s \<in> S"
    have "s \<noteq> b" using s by auto
    then have "extent B b \<inter> extent B s = {}" using g a b by (auto simp: geom_def)
    moreover have "unat s \<in> extent B s" by (simp add: extent_def)
    ultimately show False using mem by blast
  qed
  have eq: "extent B' x = extent B x" if "x \<in> S" "x \<noteq> b" for x
    using B' [OF that] by (simp add: extent_def)
  have sub: "extent B' x \<subseteq> extent B (if x = s then b else x)" if "x \<in> insert s S" for x
    using that es eq by (cases "x = s"; cases "x = b") auto
  have inS: "(if x = s then b else x) \<in> S" if "x \<in> insert s S" for x
    using that b by auto
  have "extent B' x \<inter> extent B' y = {}" if "x \<in> insert s S" "y \<in> insert s S" "x \<noteq> y" for x y
  proof (cases "(if x = s then b else x) = (if y = s then b else y)")
    case True
    then show ?thesis using that ei sS by (auto split: if_splits)
  next
    case False
    then have "extent B (if x = s then b else x) \<inter> extent B (if y = s then b else y) = {}"
      using g inS [OF that(1)] inS [OF that(2)] unfolding geom_def by blast
    then show ?thesis using sub [OF that(1)] sub [OF that(2)] by blast
  qed
  moreover have "extent B' x \<subseteq> {lo ..< lo + 0x100000}" if "x \<in> insert s S" for x
    using sub [OF that] inS [OF that] g unfolding geom_def by blast
  ultimately show ?thesis using sS by (auto simp: geom_def)
qed

text \<open>
  What an operation on the heap leaves alone: the headers of the blocks outside \<open>A\<close> keep their
  size and their mark, and no block that is in use appears or disappears outside \<open>A\<close>.
\<close>

definition keeps :: "u32 set \<Rightarrow> heap_t \<Rightarrow> u32 list \<Rightarrow> heap_t \<Rightarrow> u32 list \<Rightarrow> bool" where
  "keeps A h ms h' ms' \<longleftrightarrow>
     heap_storage h' = heap_storage h \<and>
     (\<forall>x. x \<notin> A \<longrightarrow> (x \<in> set ms \<and> in_use (blocks h x)) = (x \<in> set ms' \<and> in_use (blocks h' x))) \<and>
     (\<forall>x \<in> set ms. x \<notin> A \<longrightarrow> bsize (blocks h' x) = bsize (blocks h x))"

lemma keeps_refl: "keeps A h ms h ms"
  by (simp add: keeps_def)

text \<open>
  A change that touches only blocks outside the free lists re-establishes the invariant when the
  new block list and the new geometry are in order.
\<close>

lemma heap_ok_frame:
  assumes ok: "heap_ok h ms fl"
    and same: "heap_storage h' = heap_storage h" "free_lists h' = free_lists h"
    and frame: "\<And>x c. c < 6 \<Longrightarrow> x \<in> set (fl c) \<Longrightarrow> blocks h' x = blocks h x"
    and seg: "dseg (blocks h') 0 (block_list h') ms' 0"
    and dj: "\<And>c. c < 6 \<Longrightarrow> set ms' \<inter> set (fl c) = {}"
    and geo: "geom (blocks h') (unat (heap_storage h)) (all_blocks ms' fl)"
  shows "heap_ok h' ms' fl"
proof -
  have "dseg (blocks h') 0 p (fl c) 0 = dseg (blocks h) 0 p (fl c) 0" if "c < 6" for c p
    using frame [OF that] by (intro dseg_cong) simp
  then show ?thesis
    using ok same seg dj geo frame unfolding heap_ok_def by simp
qed

lemma split_point:
  assumes "unat b + 16 + unat sb \<le> 2 ^ 32" and "sz \<le> sb" and "\<not> sb - sz \<le> SIZEOF_BLOCK + 16"
  shows "unat (b + SIZEOF_BLOCK + sz) = unat b + 16 + unat sz"
    and "unat (sb - sz - SIZEOF_BLOCK) = unat sb - unat sz - 16"
    and "unat sz + 16 < unat sb"
    and "b + SIZEOF_BLOCK + sz \<noteq> b" and "b + SIZEOF_BLOCK + sz \<noteq> 0"
proof -
  have le: "unat sz \<le> unat sb" using assms(2) by (simp add: word_le_nat_alt)
  have rem: "unat (sb - sz) = unat sb - unat sz" using le by (rule unat_sub_nowrap)
  show big: "unat sz + 16 < unat sb"
    using assms(3) rem by (simp add: word_le_nat_alt heap_consts)
  have big': "32 < unat sb - unat sz"
    using assms(3) rem by (simp add: word_le_nat_alt heap_consts)
  have "unat (b + SIZEOF_BLOCK) = unat b + 16"
    using assms(1) big by (subst unat_add_nowrap) (auto simp: heap_consts)
  then show s: "unat (b + SIZEOF_BLOCK + sz) = unat b + 16 + unat sz"
    using assms(1) big by (subst unat_add_nowrap) auto
  show "unat (sb - sz - SIZEOF_BLOCK) = unat sb - unat sz - 16"
    using rem big' by (subst unat_sub_nowrap) (simp_all add: heap_consts)
  show "b + SIZEOF_BLOCK + sz \<noteq> b" "b + SIZEOF_BLOCK + sz \<noteq> 0"
    using s by (metis add_cancel_right_right add_is_0 zero_neq_numeral add.assoc,
      metis unat_0 add_is_0 zero_neq_numeral)
qed

lemma bnext_in_dseg:
  assumes "dseg B 0 p (xs @ b # ys) 0"
  shows "bnext (B b) = (if ys = [] then 0 else hd ys)"
    and "bprev (B b) = (if xs = [] then 0 else last xs)"
    and "ys \<noteq> [] \<Longrightarrow> hd ys \<noteq> 0 \<and> hd ys \<noteq> b" and "xs \<noteq> [] \<Longrightarrow> last xs \<noteq> 0 \<and> last xs \<noteq> b"
proof -
  have d: "distinct (xs @ b # ys)" and z: "0 \<notin> set (xs @ b # ys)"
    using assms dseg_distinct dseg_nonzero by blast+
  show "bnext (B b) = (if ys = [] then 0 else hd ys)"
    using assms by (cases ys) (auto simp: dseg_append)
  show "bprev (B b) = (if xs = [] then 0 else last xs)"
    using assms by (auto simp: dseg_append last_of_def)
  show "ys \<noteq> [] \<Longrightarrow> hd ys \<noteq> 0 \<and> hd ys \<noteq> b" using d z by (cases ys) auto
  show "xs \<noteq> [] \<Longrightarrow> last xs \<noteq> 0 \<and> last xs \<noteq> b" using d z by (cases xs rule: rev_cases) auto
qed

text \<open>The headers after a split that takes place.\<close>

lemma split_block_blocks:
  assumes d: "dseg (blocks h) 0 (block_list h) (xs @ b # ys) 0"
    and big: "\<not> bsize (blocks h b) - sz \<le> SIZEOF_BLOCK + 16"
    and s: "s = b + SIZEOF_BLOCK + sz" and sb: "s \<noteq> b"
  shows "blocks (split_block b sz h) =
     (let B1 = (blocks h)(s := \<lparr>bsize = bsize (blocks h b) - sz - SIZEOF_BLOCK, in_use = False,
                                bnext = bnext (blocks h b), bprev = b\<rparr>);
          B2 = (if ys = [] then B1 else B1(hd ys := (B1 (hd ys))\<lparr>bprev := s\<rparr>))
      in B2(b := (blocks h b)\<lparr>bsize := sz, bnext := s\<rparr>))"
  using big s sb bnext_in_dseg [OF d] by (auto simp: split_block_def Let_def)

lemma split_block_rest [simp]:
  "heap_storage (split_block b sz h) = heap_storage h"
  "block_list (split_block b sz h) = block_list h"
  "free_lists (split_block b sz h) = free_lists h"
  "hmem (split_block b sz h) = hmem h" "stats (split_block b sz h) = stats h"
  by (simp_all add: split_block_def Let_def)

lemma split_block_ok:
  assumes ok: "heap_ok h ms fl" and b: "b \<in> set ms" and fit: "sz \<le> bsize (blocks h b)"
    and h': "h' = split_block b sz h"
  shows "\<exists>ms'. heap_ok h' ms' fl \<and> b \<in> set ms' \<and> keeps {b} h ms h' ms' \<and>
     sz \<le> bsize (blocks h' b) \<and> extent (blocks h') b \<subseteq> extent (blocks h) b"
proof (cases "bsize (blocks h b) - sz \<le> SIZEOF_BLOCK + 16")
  case True
  then have "h' = h" by (simp add: split_block_def h')
  then show ?thesis using ok b fit keeps_refl by (intro exI [of _ ms]) simp
next
  case False
  let ?B = "blocks h" and ?lo = "unat (heap_storage h)"
  define s where "s = b + SIZEOF_BLOCK + sz"
  have g: "geom ?B ?lo (all_blocks ms fl)" and hi: "?lo + 0x100000 \<le> 2 ^ 32"
    using ok by (simp_all add: heap_ok_def)
  have bS: "b \<in> all_blocks ms fl" using b by (simp add: all_blocks_def)
  note sp = split_point [of b "bsize (?B b)", OF _ fit False, folded s_def]
  have bd: "unat b + 16 + unat (bsize (?B b)) \<le> 2 ^ 32" using geom_bounds [OF g bS hi] by blast
  obtain xs ys where ms: "ms = xs @ b # ys" using b by (meson split_list)
  have d: "dseg ?B 0 (block_list h) (xs @ b # ys) 0" using ok by (simp add: heap_ok_def ms)
  note bl = split_block_blocks [OF d False s_def sp(4) [OF bd], folded h', unfolded Let_def]
  note dn = bnext_in_dseg [OF d]
  have other: "bsize (blocks h' x) = bsize (?B x) \<and> in_use (blocks h' x) = in_use (?B x)"
    if "x \<noteq> b" "x \<noteq> s" for x
    using that by (simp add: bl)
  have at_b: "bsize (blocks h' b) = sz" by (simp add: bl)
  have at_s: "bsize (blocks h' s) = bsize (?B b) - sz - SIZEOF_BLOCK" "\<not> in_use (blocks h' s)"
    using sp(4) [OF bd] by (simp_all add: bl)
  have sS: "s \<notin> all_blocks ms fl"
  proof
    assume "s \<in> all_blocks ms fl"
    then have "extent ?B b \<inter> extent ?B s = {}"
      using g bS sp(4) [OF bd] unfolding geom_def by blast
    moreover have "unat s \<in> extent ?B s" "unat s \<in> extent ?B b"
      using sp(1,3) [OF bd] by (simp_all add: extent_def)
    ultimately show False by blast
  qed
  have "geom (blocks h') ?lo (insert s (all_blocks ms fl))"
  proof (rule geom_split [OF g bS hi, THEN conjunct2])
    show "bsize (blocks h' x) = bsize (?B x)" if "x \<in> all_blocks ms fl" "x \<noteq> b" for x
      using other [of x] that sS by blast
  qed (use at_b at_s sp(1-3) [OF bd] in simp_all)
  moreover have "all_blocks (xs @ b # s # ys) fl = insert s (all_blocks ms fl)"
    by (auto simp: all_blocks_def ms)
  moreover have "dseg (blocks h') 0 (block_list h) (xs @ b # s # ys) 0"
    by (rule dseg_insert_after [OF d _ _ _ _ refl refl _ _ bl])
      (use sS sp(5) [OF bd] in \<open>simp_all add: ms all_blocks_def\<close>)
  moreover have dj: "set ms \<inter> set (fl c) = {}" "set (xs @ b # s # ys) \<inter> set (fl c) = {}" if "c < 6" for c
    using that ok sS by (auto simp: heap_ok_def all_blocks_def ms)
  moreover have "blocks h' x = ?B x" if "c < 6" "x \<in> set (fl c)" for c x
  proof -
    have "x \<noteq> b" "x \<noteq> s" "ys \<noteq> [] \<Longrightarrow> x \<noteq> hd ys"
      using dj(2) [OF that(1)] that(2) by (cases ys; auto)+
    then show ?thesis by (simp add: bl)
  qed
  ultimately have "heap_ok h' (xs @ b # s # ys) fl"
    by (intro heap_ok_frame [OF ok]) (simp_all add: h')
  moreover have "keeps {b} h ms h' (xs @ b # s # ys)"
    using other at_s sS by (auto simp: keeps_def h' ms all_blocks_def)
  moreover have "extent (blocks h') b \<subseteq> extent ?B b"
    using sp(3) [OF bd] at_b by (auto simp: extent_def)
  ultimately show ?thesis using at_b by (intro exI [of _ "xs @ b # s # ys"]) simp
qed

section \<open>Allocation\<close>

text \<open>Marking a block of the list, and the two ways \<open>kmalloc\<close> obtains one.\<close>

lemma heap_ok_in_list:
  assumes "heap_ok h ms fl" and "b \<in> set ms"
  shows "b \<noteq> 0" and "\<And>c. c < 6 \<Longrightarrow> b \<notin> set (fl c)" and "b \<in> all_blocks ms fl"
  using assms dseg_nonzero by (auto simp: heap_ok_def all_blocks_def)

lemma heap_ok_payload:
  assumes "heap_ok h ms fl" and "b \<in> all_blocks ms fl"
  shows "b + SIZEOF_BLOCK \<noteq> 0"
proof -
  have "unat b + 16 < 2 ^ 32"
    using geom_bounds [of "blocks h" "unat (heap_storage h)" _ b] assms by (force simp: heap_ok_def)
  then have "unat (b + SIZEOF_BLOCK) = unat b + 16"
    by (subst unat_add_nowrap) (simp_all add: heap_consts)
  then show ?thesis by (metis unat_0 add_is_0 zero_neq_numeral)
qed

lemma heap_ok_set_used:
  assumes "heap_ok h ms fl" and "b \<in> set ms"
  shows "heap_ok (upd_block b (\<lambda>k. k\<lparr>in_use := v\<rparr>) h) ms fl"
  using assms(1) by (rule heap_ok_cong) (use heap_ok_in_list(2) [OF assms] in auto)

lemma heap_ok_stats:
  assumes "heap_ok h ms fl"
  shows "heap_ok (h\<lparr>stats := st\<rparr>) ms fl" and "heap_ok (count_alloc b h) ms fl"
    and "heap_ok (h\<lparr>hmem := m\<rparr>) ms fl"
  using assms by (rule heap_ok_cong; simp)+

definition live :: "heap_t \<Rightarrow> u32 list \<Rightarrow> u32 set" where
  "live h ms = {b \<in> set ms. in_use (blocks h b)}"

text \<open>
  The contract of an allocation that returns \<open>p\<close>: the invariant holds, a refusal changes no live
  block, and a granted block is new, inside the heap and apart from all live blocks, which keep
  their headers.
\<close>

definition granted :: "heap_t \<Rightarrow> u32 list \<Rightarrow> u32 \<Rightarrow> heap_t \<Rightarrow> u32 list \<Rightarrow> (nat \<Rightarrow> u32 list) \<Rightarrow> bool" where
  "granted h ms p h' ms' fl' \<longleftrightarrow>
     heap_ok h' ms' fl' \<and> heap_storage h' = heap_storage h \<and>
     (\<forall>x \<in> live h ms. bsize (blocks h' x) = bsize (blocks h x)) \<and>
     (if p = 0 then live h' ms' = live h ms
      else p - SIZEOF_BLOCK \<notin> live h ms \<and> live h' ms' = insert (p - SIZEOF_BLOCK) (live h ms))"

lemma kmalloc_scan_ok:
  assumes ok: "heap_ok h ms fl" and res: "kmalloc_scan sz h = Some (p, h')"
  shows "\<exists>ms'. granted h ms p h' ms' fl \<and> (p \<noteq> 0 \<longrightarrow> sz \<le> bsize (blocks h' (p - SIZEOF_BLOCK)))"
proof -
  let ?P = "\<lambda>b. \<not> in_use (blocks h b) \<and> sz \<le> bsize (blocks h b)"
  have seg: "dseg (blocks h) 0 (block_list h) ms 0" using ok by (simp add: heap_ok_def)
  note ff = first_fit_find [OF seg, of sz]
  show ?thesis
  proof (cases "find ?P ms")
    case None
    then have "p = 0" "h' = h\<lparr>stats := (stats h)\<lparr>failed_allocations := failed_allocations (stats h) + 1\<rparr>\<rparr>"
      using res ff by (auto simp: kmalloc_scan_def)
    then show ?thesis
      using heap_ok_stats(1) [OF ok] by (intro exI [of _ ms]) (simp add: granted_def live_def)
  next
    case (Some b)
    then have b: "b \<in> set ms" and free: "\<not> in_use (blocks h b)" and fit: "sz \<le> bsize (blocks h b)"
      by (auto simp: find_Some_iff)
    have b0: "b \<noteq> 0" using heap_ok_in_list(1) [OF ok b] .
    have p: "p = b + SIZEOF_BLOCK" and
      h': "h' = count_alloc b (upd_block b (\<lambda>k. k\<lparr>in_use := True\<rparr>) (split_block b sz h))"
      using res ff Some b0 by (auto simp: kmalloc_scan_def)
    obtain ms' where ok': "heap_ok (split_block b sz h) ms' fl" and b': "b \<in> set ms'"
      and k: "keeps {b} h ms (split_block b sz h) ms'"
      and sz: "sz \<le> bsize (blocks (split_block b sz h) b)"
      using split_block_ok [OF ok b fit refl] by blast
    have p0: "b + SIZEOF_BLOCK \<noteq> 0"
      using heap_ok_payload [OF ok heap_ok_in_list(3) [OF ok b]] .
    have "heap_ok h' ms' fl"
      unfolding h' by (intro heap_ok_stats heap_ok_set_used ok' b')
    moreover have "live h' ms' = insert b (live h ms)"
      using k b' by (auto simp: live_def h' keeps_def)
    moreover have "bsize (blocks h' x) = bsize (blocks h x)" if "x \<in> live h ms" for x
      using k that free by (cases "x = b") (auto simp: live_def h' keeps_def)
    ultimately have "granted h ms p h' ms' fl"
      using free p0 k by (simp add: granted_def p live_def keeps_def h')
    then show ?thesis using sz p h' by (intro exI [of _ ms']) simp
  qed
qed

lemma dseg_head: "dseg B pr p bs 0 \<Longrightarrow> p = (case bs of [] \<Rightarrow> 0 | b # _ \<Rightarrow> b)"
  by (cases bs) auto

lemma all_blocks_at:
  "c < 6 \<Longrightarrow> all_blocks ms fl = set ms \<union> set (fl c) \<union> (\<Union>e \<in> {..<6} - {c}. set (fl e))"
  by (auto simp: all_blocks_def)

definition take_cached :: "nat \<Rightarrow> u32 \<Rightarrow> heap_t \<Rightarrow> heap_t" where
  "take_cached c b h =
     block_list_insert_front b (upd_block b (\<lambda>k. k\<lparr>in_use := True\<rparr>) (count_alloc b (snd (free_list_pop c h))))"

lemma take_cached_ok:
  assumes ok: "heap_ok h ms fl" and c: "c < 6" and fl: "fl c = b # bs"
    and h': "h' = take_cached c b h"
  shows "heap_ok h' (b # ms) (fl(c := bs))"
    and "bsize (blocks h' x) = bsize (blocks h x)"
    and "in_use (blocks h' x) = (x = b \<or> in_use (blocks h x))"
    and "heap_storage h' = heap_storage h"
proof -
  let ?B = "blocks h" and ?q = "block_list h"
  have main: "dseg ?B 0 ?q ms 0" and cls: "\<And>d. d < 6 \<Longrightarrow> dseg ?B 0 (free_lists h ! d) (fl d) 0"
    and djm: "\<And>d. d < 6 \<Longrightarrow> set ms \<inter> set (fl d) = {}"
    and djd: "\<And>d e. d < 6 \<Longrightarrow> e < 6 \<Longrightarrow> d \<noteq> e \<Longrightarrow> set (fl d) \<inter> set (fl e) = {}"
    and len: "length (free_lists h) = 6"
    using ok by (simp_all add: heap_ok_def)
  have seg: "dseg ?B 0 (free_lists h ! c) (b # bs) 0" using cls [OF c] by (simp add: fl)
  then have hd: "free_lists h ! c = b" "b \<noteq> 0" by auto
  define n where "n = bnext (?B b)"
  have n: "n = (case bs of [] \<Rightarrow> 0 | x # _ \<Rightarrow> x)" using seg by (auto simp: n_def dest: dseg_head)
  have q: "?q = (case ms of [] \<Rightarrow> 0 | x # _ \<Rightarrow> x)" using main by (rule dseg_head)
  have d: "distinct (b # bs)" using seg by (rule dseg_distinct)
  define B1 where "B1 = (if n \<noteq> 0 then ?B(n := (?B n)\<lparr>bprev := 0\<rparr>) else ?B)"
  define B2 where "B2 = B1(b := (B1 b)\<lparr>in_use := True\<rparr>)"
  define B3 where "B3 = B2(b := (B2 b)\<lparr>bprev := 0, bnext := ?q\<rparr>)"
  define B4 where "B4 = (if ?q \<noteq> 0 then B3(?q := (B3 ?q)\<lparr>bprev := b\<rparr>) else B3)"
  have blocks': "blocks h' = B4"
    using hd c len by (simp add: h' take_cached_def free_list_pop_def block_list_insert_front_def Let_def
        B1_def B2_def B3_def B4_def n_def)
  have rest: "block_list h' = b" "heap_storage h' = heap_storage h"
    "free_lists h' = (free_lists h)[c := n]"
    using hd c len by (simp_all add: h' take_cached_def free_list_pop_def block_list_insert_front_def Let_def n_def)
  have out: "x \<noteq> b" "x \<noteq> n" "x \<noteq> 0" if "x \<in> set ms" for x
    using that djm [OF c] dseg_nonzero [OF main] seg by (cases bs; auto simp: fl n)+
  have q_out: "?q \<notin> set (fl e)" if "e < 6" for e
    using djm [OF that] dseg_nonzero [OF cls [OF that]] by (cases ms) (auto simp: q)
  have "dseg B2 0 ?q ms 0"
    using main by (rule dseg_cong [THEN iffD2, rotated]) (use out in \<open>auto simp: B2_def B1_def\<close>)
  then have seg_main: "dseg B4 0 b (b # ms) 0"
    using out(1) hd(2) by (intro dseg_insert_front [of B2 _ _ _ B3]) (auto simp: B3_def B4_def)
  have "dseg B1 0 n bs 0"
    unfolding B1_def n_def by (rule dseg_pop_front [OF seg refl])
  then have seg_c: "dseg B4 0 n bs 0"
    by (rule dseg_cong [THEN iffD2, rotated]) (use d q_out [OF c] in \<open>auto simp: B4_def B3_def B2_def fl\<close>)
  have seg_d: "dseg B4 0 (free_lists h ! e) (fl e) 0" if e: "e < 6" "e \<noteq> c" for e
    using cls [OF e(1)]
  proof (rule dseg_cong [THEN iffD2, rotated])
    fix x assume x: "x \<in> set (fl e)"
    have "x \<noteq> b" "x \<noteq> n" "x \<noteq> ?q"
      using x djd [OF e(1) c e(2)] q_out [OF e(1)] dseg_nonzero [OF cls [OF e(1)]]
      by (cases bs; auto simp: fl n)+
    then show "bnext (B4 x) = bnext (?B x) \<and> bprev (B4 x) = bprev (?B x)"
      by (simp add: B4_def B3_def B2_def B1_def)
  qed
  show sz: "bsize (blocks h' x) = bsize (?B x)" for x
    by (simp add: blocks' B4_def B3_def B2_def B1_def)
  show iu: "in_use (blocks h' x) = (x = b \<or> in_use (?B x))" for x
    by (simp add: blocks' B4_def B3_def B2_def B1_def)
  show "heap_storage h' = heap_storage h" by (rule rest)
  have all: "all_blocks (b # ms) (fl(c := bs)) = all_blocks ms fl"
    using all_blocks_at [OF c, of "b # ms" "fl(c := bs)"] all_blocks_at [OF c, of ms fl] by (auto simp: fl)
  have geo: "geom (blocks h') (unat (heap_storage h)) (all_blocks ms fl)"
    using ok sz by (intro geom_cong [of _ "blocks h'" ?B]) (simp_all add: heap_ok_def)
  have fr: "\<not> in_use (?B x)" if "e < 6" "x \<in> set (fl e)" for e x
    using ok that by (simp add: heap_ok_def)
  show "heap_ok h' (b # ms) (fl(c := bs))"
    unfolding heap_ok_def
  proof (intro conjI allI impI ballI)
    fix e assume e: "e < (6::nat)"
    show "dseg (blocks h') 0 (free_lists h' ! e) ((fl(c := bs)) e) 0"
      using e len seg_c seg_d by (auto simp: rest blocks')
    show "set (b # ms) \<inter> set ((fl(c := bs)) e) = {}"
      using e c d djm [OF e] djm [OF c] djd [of e c] fl by (auto split: if_splits)
    fix x assume "x \<in> set ((fl(c := bs)) e)"
    then show "\<not> in_use (blocks h' x)"
      using e c d djd [of e c] fr [of c x] fr [of e x] fl by (auto simp: iu split: if_splits)
  next
    fix e f assume "e < (6::nat)" "f < (6::nat)" "e \<noteq> f"
    then show "set ((fl(c := bs)) e) \<inter> set ((fl(c := bs)) f) = {}"
      using djd [of e f] fl by (cases "e = c"; cases "f = c") auto
  qed (use ok len all geo seg_main in \<open>simp_all add: heap_ok_def rest blocks'\<close>)
qed

lemma size_class_index_less: "size_class_index sz = Some c \<Longrightarrow> c < 6"
  by (auto simp: size_class_index_def heap_consts split: if_splits)

lemma kmalloc_ok:
  assumes ok: "heap_ok h0 ms fl" and res: "kmalloc req h0 = Some (p, h')"
  shows "\<exists>ms' fl'. granted h0 ms p h' ms' fl'"
proof (cases "req = 0")
  case True
  then show ?thesis using ok res by (auto simp: kmalloc_def granted_def)
next
  case False
  define h where "h = (if block_list h0 = 0 then init_memory h0 else h0)"
  obtain ms1 fl1 where ok1: "heap_ok h ms1 fl1" and same: "live h ms1 = live h0 ms"
    "\<And>x. x \<in> live h0 ms \<Longrightarrow> blocks h x = blocks h0 x" "heap_storage h = heap_storage h0"
  proof (cases "block_list h0 = 0")
    case True
    then have "ms = []" using ok by (cases ms) (auto simp: heap_ok_def)
    then have "live h0 ms = {}" "live h [heap_storage h0] = {}"
      using True by (auto simp: live_def h_def init_memory_def)
    moreover have "heap_ok h [heap_storage h0] (\<lambda>_. [])"
      using ok True by (simp add: h_def heap_ok_def [of h0] heap_ok_init)
    ultimately show ?thesis using that True by (simp add: h_def init_memory_def)
  next
    case F: False
    then show ?thesis using that [of ms fl] ok by (simp add: h_def)
  qed
  have transfer: "granted h0 ms p h' ms' fl'" if "granted h ms1 p h' ms' fl'" for ms' fl'
    using that same by (auto simp: granted_def)
  let ?c = "if align16 req \<le> size_classes ! (NUM_SIZE_CLASSES - 1) then size_class_index (align16 req) else None"
  show ?thesis
  proof (cases "\<exists>c b bs. ?c = Some c \<and> fl1 c = b # bs")
    case True
    then obtain c b bs where c: "?c = Some c" and fl: "fl1 c = b # bs" by blast
    have c6: "c < 6" using c size_class_index_less by (auto split: if_splits)
    have seg: "dseg (blocks h) 0 (free_lists h ! c) (b # bs) 0"
      using ok1 c6 by (metis fl heap_ok_def)
    then have b: "free_lists h ! c = b" "b \<noteq> 0" by auto
    have fp: "fst (free_list_pop c h) = b" using b by (simp add: free_list_pop_def Let_def)
    have p: "p = b + SIZEOF_BLOCK" and h': "h' = take_cached c b h"
      using res False c b(2) fp by (auto simp: kmalloc_def h_def Let_def take_cached_def split: prod.splits)
    have bA: "b \<in> all_blocks ms1 fl1" using all_blocks_at [OF c6] fl by auto
    have nb: "b \<notin> set ms1" using ok1 c6 fl by (auto simp: heap_ok_def)
    have "granted h ms1 p h' (b # ms1) (fl1(c := bs))"
      using take_cached_ok [OF ok1 c6 fl h'] heap_ok_payload [OF ok1 bA] nb
      by (auto simp: granted_def live_def p)
    then show ?thesis using transfer by blast
  next
    case none: False
    have "kmalloc_scan (align16 req) h = Some (p, h')"
    proof (cases ?c)
      case None
      then show ?thesis using res False by (simp add: kmalloc_def h_def Let_def)
    next
      case (Some c)
      then have "fl1 c = []" "c < 6"
        using none size_class_index_less by (cases "fl1 c"; auto split: if_splits)+
      then have "free_lists h ! c = 0" using ok1 by (auto simp: heap_ok_def)
      then have "free_list_pop c h = (0, h)" by (simp add: free_list_pop_def)
      then show ?thesis using res False Some by (simp add: kmalloc_def h_def Let_def)
    qed
    then show ?thesis using kmalloc_scan_ok [OF ok1] transfer by blast
  qed
qed

lemma kmalloc_returns:
  assumes "heap_ok h ms fl"
  shows "\<exists>p h'. kmalloc req h = Some (p, h')"
proof -
  define g where "g = (if block_list h = 0 then init_memory h else h)"
  have "\<exists>l. dseg (blocks g) 0 (block_list g) l 0"
    using assms by (auto simp: g_def init_memory_def heap_ok_def intro: exI [of _ "[heap_storage h]"])
  then have scan: "\<exists>p h'. kmalloc_scan sz g = Some (p, h')" for sz
    using first_fit_find by (fastforce simp: kmalloc_scan_def)
  have pop: "free_list_pop c g = (0, g) \<or> fst (free_list_pop c g) \<noteq> 0" for c
    by (simp add: free_list_pop_def Let_def)
  show ?thesis
  proof (cases "if align16 req \<le> size_classes ! (NUM_SIZE_CLASSES - 1) then size_class_index (align16 req) else None")
    case None
    then show ?thesis using scan by (simp add: kmalloc_def Let_def g_def)
  next
    case (Some c)
    then show ?thesis
      using scan pop [of c] by (cases "free_list_pop c g") (auto simp: kmalloc_def Let_def g_def)
  qed
qed

section \<open>Merging and caching free blocks\<close>

lemma geom_merge:
  assumes g: "geom B lo S" and S: "b \<in> S" "y \<in> S" "b \<noteq> y"
    and adj: "unat y = unat b + 16 + unat (bsize (B b))"
    and size: "unat (bsize (B' b)) = unat (bsize (B b)) + 16 + unat (bsize (B y))"
    and B': "\<And>x. x \<in> S \<Longrightarrow> x \<noteq> b \<Longrightarrow> bsize (B' x) = bsize (B x)"
  shows "geom B' lo (S - {y})"
proof -
  have eb: "extent B' b = extent B b \<union> extent B y"
    using adj size by (auto simp: extent_def)
  have eo: "extent B' x = extent B x" if "x \<in> S" "x \<noteq> b" for x
    using B' [OF that] by (simp add: extent_def)
  have far: "extent B x \<inter> extent B z = {}" if "x \<in> S" "z \<in> S" "x \<noteq> z" for x z
    using g that unfolding geom_def by blast
  have apart: "extent B' b \<inter> extent B' z = {}" if "z \<in> S" "z \<noteq> b" "z \<noteq> y" for z
    using far [OF S(1) that(1)] far [OF S(2) that(1)] that eo eb by blast
  have "extent B' x \<inter> extent B' z = {}" if "x \<in> S - {y}" "z \<in> S - {y}" "x \<noteq> z" for x z
    using that apart [of z] apart [of x] far [of x z] eo [of x] eo [of z]
    by (cases "x = b"; cases "z = b") auto
  moreover have "extent B' x \<subseteq> {lo ..< lo + 0x100000}" if "x \<in> S - {y}" for x
    using that g S eb eo [of x] unfolding geom_def by (cases "x = b") auto
  ultimately show ?thesis by (simp add: geom_def)
qed

text \<open>The free successors of a block follow it in memory.\<close>

fun adjacent :: "(u32 \<Rightarrow> block_t) \<Rightarrow> nat \<Rightarrow> u32 list \<Rightarrow> bool" where
  "adjacent B e [] = True"
| "adjacent B e (y # ys) =
     (in_use (B y) \<or> (unat y = e \<and> adjacent B (e + 16 + unat (bsize (B y))) ys))"

lemma adjacent_cong:
  "(\<And>y. y \<in> set ys \<Longrightarrow> in_use (B' y) = in_use (B y) \<and> bsize (B' y) = bsize (B y)) \<Longrightarrow>
     adjacent B' e ys = adjacent B e ys"
  by (induction ys arbitrary: e) auto

definition merge_next :: "u32 \<Rightarrow> heap_t \<Rightarrow> heap_t" where
  "merge_next b h =
     (let nx = bnext (blocks h b);
          h1 = upd_block b (\<lambda>k. k\<lparr>bsize := bsize k + (SIZEOF_BLOCK + bsize (blocks h nx))\<rparr>) h;
          h2 = upd_block b (\<lambda>k. k\<lparr>bnext := bnext (blocks h1 nx)\<rparr>) h1;
          nx2 = bnext (blocks h2 b)
      in if nx2 \<noteq> 0 then upd_block nx2 (\<lambda>k. k\<lparr>bprev := b\<rparr>) h2 else h2)"

lemma coalesce_next_step:
  "coalesce_next b h =
     (if bnext (blocks h b) \<noteq> 0 \<and> \<not> in_use (blocks h (bnext (blocks h b)))
      then coalesce_next b (merge_next b h) else Some h)"
  by (subst coalesce_next.simps) (simp add: merge_next_def Let_def)

lemma merge_next_ok:
  assumes ok: "heap_ok h (xs @ b # y # ws) fl"
    and adj: "unat y = unat b + 16 + unat (bsize (blocks h b))" and h': "h' = merge_next b h"
  shows "heap_ok h' (xs @ b # ws) fl"
    and "unat (bsize (blocks h' b)) = unat (bsize (blocks h b)) + 16 + unat (bsize (blocks h y))"
    and "\<And>x. x \<noteq> b \<Longrightarrow> bsize (blocks h' x) = bsize (blocks h x)"
    and "\<And>x. in_use (blocks h' x) = in_use (blocks h x)"
    and "heap_storage h' = heap_storage h"
proof -
  let ?B = "blocks h" and ?lo = "unat (heap_storage h)"
  have d: "dseg ?B 0 (block_list h) (xs @ b # y # ws) 0" using ok by (simp add: heap_ok_def)
  have g: "geom ?B ?lo (all_blocks (xs @ b # y # ws) fl)" and hi: "?lo + 0x100000 \<le> 2 ^ 32"
    using ok by (simp_all add: heap_ok_def)
  have dist: "distinct (xs @ b # y # ws)" using d by (rule dseg_distinct)
  note nb = bnext_in_dseg [OF d] and ny = bnext_in_dseg [of ?B "block_list h" "xs @ [b]" y ws]
  have nb': "bnext (?B b) = y" "y \<noteq> 0" "y \<noteq> b" using nb by simp_all
  have ny': "bnext (?B y) = (if ws = [] then 0 else hd ws)" "bprev (?B y) = b"
    "ws \<noteq> [] \<Longrightarrow> hd ws \<noteq> 0" "ws \<noteq> [] \<Longrightarrow> hd ws \<noteq> b"
    using ny d dist by (simp_all, cases ws) auto
  have bl: "blocks h' =
     (let B1 = ?B(b := (?B b)\<lparr>bsize := bsize (?B b) + (SIZEOF_BLOCK + bsize (?B y)), bnext := bnext (?B y)\<rparr>)
      in if ws = [] then B1 else B1(hd ws := (B1 (hd ws))\<lparr>bprev := b\<rparr>))"
    using nb' ny' by (auto simp: h' merge_next_def Let_def fun_upd_twist)
  have rest: "heap_storage h' = heap_storage h" "free_lists h' = free_lists h" "block_list h' = block_list h"
    by (simp_all add: h' merge_next_def Let_def)
  have bS: "b \<in> all_blocks (xs @ b # y # ws) fl" "y \<in> all_blocks (xs @ b # y # ws) fl"
    by (simp_all add: all_blocks_def)
  have yb: "unat y + 16 + unat (bsize (?B y)) \<le> 2 ^ 32" "?lo \<le> unat b"
    "unat y + 16 + unat (bsize (?B y)) \<le> ?lo + 0x100000"
    using geom_bounds [OF g bS(2) hi] geom_bounds [OF g bS(1) hi] by auto
  have "unat (SIZEOF_BLOCK + bsize (?B y)) = 16 + unat (bsize (?B y))"
    using yb adj by (subst unat_add_nowrap) (simp_all add: heap_consts)
  then show sz: "unat (bsize (blocks h' b)) = unat (bsize (?B b)) + 16 + unat (bsize (?B y))"
    using yb adj nb' ny'(4) by (auto simp: bl Let_def) (subst unat_add_nowrap, simp_all)+
  show so: "bsize (blocks h' x) = bsize (?B x)" if "x \<noteq> b" for x
    using that by (simp add: bl Let_def)
  show "in_use (blocks h' x) = in_use (?B x)" for x by (simp add: bl Let_def)
  show "heap_storage h' = heap_storage h" by (rule rest)
  have "dseg (blocks h') 0 (block_list h) (xs @ b # ws) 0"
  proof -
    define nbm where "nbm = ?B(b := (?B b)\<lparr>bnext := bnext (?B y)\<rparr>)"
    define B1 where "B1 = (if ws = [] then nbm else nbm(hd ws := (nbm (hd ws))\<lparr>bprev := bprev (?B y)\<rparr>))"
    have "dseg B1 0 (block_list h) ((xs @ [b]) @ ws) 0"
      using dseg_relink [of ?B "block_list h" "xs @ [b]" y ws nbm B1] d by (simp add: nbm_def B1_def)
    then have "dseg B1 0 (block_list h) (xs @ b # ws) 0" by simp
    then show ?thesis
      by (rule dseg_cong [THEN iffD2, rotated])
        (use ny' in \<open>auto simp: bl Let_def B1_def nbm_def\<close>)
  qed
  moreover have "geom (blocks h') ?lo (all_blocks (xs @ b # ws) fl)"
  proof -
    have fl: "\<forall>c<6. set (xs @ b # y # ws) \<inter> set (fl c) = {}" using ok by (simp add: heap_ok_def)
    have "all_blocks (xs @ b # ws) fl = all_blocks (xs @ b # y # ws) fl - {y}"
      using dist fl by (auto simp: all_blocks_def)
    then show ?thesis using geom_merge [OF g bS, of "blocks h'"] adj nb' sz so by simp
  qed
  moreover have dj: "set (xs @ b # y # ws) \<inter> set (fl c) = {}" if "c < 6" for c
    using ok that by (simp add: heap_ok_def)
  moreover have "blocks h' x = ?B x" if "c < 6" "x \<in> set (fl c)" for c x
  proof -
    have "x \<noteq> b" "ws \<noteq> [] \<Longrightarrow> x \<noteq> hd ws"
      using dj [OF that(1)] that(2) by (cases ws; auto)+
    then show ?thesis by (simp add: bl Let_def)
  qed
  ultimately show "heap_ok h' (xs @ b # ws) fl"
    by (intro heap_ok_frame [OF ok]) (auto simp: rest)
qed

lemma coalesce_next_ok:
  assumes "heap_ok h (xs @ b # ys) fl" and "adjacent (blocks h) (unat b + 16 + unat (bsize (blocks h b))) ys"
  shows "\<exists>h' zs ws. coalesce_next b h = Some h' \<and> heap_ok h' (xs @ b # ws) fl \<and> ys = zs @ ws \<and>
    (\<forall>z \<in> set zs. \<not> in_use (blocks h z)) \<and> heap_storage h' = heap_storage h \<and> stats h' = stats h \<and>
    (\<forall>x. in_use (blocks h' x) = in_use (blocks h x)) \<and>
    (\<forall>x. x \<noteq> b \<longrightarrow> bsize (blocks h' x) = bsize (blocks h x))"
  using assms
proof (induction ys arbitrary: h)
  case Nil
  then have "bnext (blocks h b) = 0"
    using bnext_in_dseg(1) [of "blocks h" "block_list h" xs b "[]"] by (simp add: heap_ok_def)
  then show ?case using Nil.prems by (subst coalesce_next_step) auto
next
  case (Cons y ys)
  have d: "dseg (blocks h) 0 (block_list h) (xs @ b # y # ys) 0"
    using Cons.prems(1) by (simp add: heap_ok_def)
  have y: "bnext (blocks h b) = y" "y \<noteq> 0" "y \<noteq> b"
    using bnext_in_dseg [OF d] by auto
  show ?case
  proof (cases "in_use (blocks h y)")
    case True
    then have "coalesce_next b h = Some h" using y by (subst coalesce_next_step) simp
    then show ?thesis
      using Cons.prems(1) by (intro exI [of _ h] exI [of _ "[]"] exI [of _ "y # ys"]) simp
  next
    case False
    then have adj: "unat y = unat b + 16 + unat (bsize (blocks h b))"
      and more: "adjacent (blocks h) (unat y + 16 + unat (bsize (blocks h y))) ys"
      using Cons.prems(2) by auto
    define h1 where "h1 = merge_next b h"
    note m = merge_next_ok [OF Cons.prems(1) adj h1_def]
    have "b \<notin> set ys" using dseg_distinct [OF d] by simp
    then have "adjacent (blocks h1) (unat b + 16 + unat (bsize (blocks h1 b))) ys"
      using more adj m(2,3,4) adjacent_cong [of ys "blocks h1" "blocks h"] by (metis add.assoc)
    from Cons.IH [OF m(1) this] obtain h' zs ws where
      IH: "coalesce_next b h1 = Some h'" "heap_ok h' (xs @ b # ws) fl" "ys = zs @ ws"
      "\<forall>z \<in> set zs. \<not> in_use (blocks h1 z)" "heap_storage h' = heap_storage h1" "stats h' = stats h1"
      "\<forall>x. in_use (blocks h' x) = in_use (blocks h1 x)"
      "\<forall>x. x \<noteq> b \<longrightarrow> bsize (blocks h' x) = bsize (blocks h1 x)" by blast
    have st: "stats h1 = stats h" by (simp add: h1_def merge_next_def Let_def)
    have "coalesce_next b h = Some h'"
      using False y IH(1) by (subst coalesce_next_step) (simp add: h1_def)
    then show ?thesis
      using IH m False st by (intro exI [of _ h'] exI [of _ "y # zs"] exI [of _ ws]) auto
  qed
qed

lemma block_links_swap: "(k :: block_t)\<lparr>bnext := p, bprev := q\<rparr> = k\<lparr>bprev := q, bnext := p\<rparr>"
  by (cases k) simp

lemma dseg_block_list_remove:
  assumes d: "dseg (blocks h) 0 (block_list h) (xs @ b # ys) 0" and h': "h' = block_list_remove b h"
  shows "dseg (blocks h') 0 (block_list h') (xs @ ys) 0"
    and "\<And>x. x \<notin> set (xs @ b # ys) \<Longrightarrow> blocks h' x = blocks h x"
    and "\<And>x. bsize (blocks h' x) = bsize (blocks h x) \<and> in_use (blocks h' x) = in_use (blocks h x)"
    and "heap_storage h' = heap_storage h" "free_lists h' = free_lists h" "stats h' = stats h"
proof -
  let ?B = "blocks h"
  note nb = bnext_in_dseg [OF d]
  have dist: "distinct (xs @ b # ys)" using d by (rule dseg_distinct)
  define nbm where "nbm = (if xs = [] then ?B else ?B(last xs := (?B (last xs))\<lparr>bnext := bnext (?B b)\<rparr>))"
  define B1 where "B1 = (if ys = [] then nbm else nbm(hd ys := (nbm (hd ys))\<lparr>bprev := bprev (?B b)\<rparr>))"
  have bl: "blocks h' = B1(b := (B1 b)\<lparr>bnext := 0, bprev := 0\<rparr>)"
    using nb by (auto simp: h' block_list_remove_def Let_def B1_def nbm_def)
  have hd: "block_list h' = (if xs = [] then bnext (?B b) else block_list h)"
    using nb by (auto simp: h' block_list_remove_def Let_def)
  have "dseg B1 0 (block_list h') (xs @ ys) 0"
    using dseg_relink [OF d nbm_def B1_def] by (simp add: hd)
  then show "dseg (blocks h') 0 (block_list h') (xs @ ys) 0"
    by (rule dseg_cong [THEN iffD2, rotated]) (use dist in \<open>auto simp: bl\<close>)
  show "blocks h' x = ?B x" if "x \<notin> set (xs @ b # ys)" for x
  proof -
    have "xs \<noteq> [] \<Longrightarrow> x \<noteq> last xs" "ys \<noteq> [] \<Longrightarrow> x \<noteq> hd ys" "x \<noteq> b"
      using that by auto
    then show ?thesis by (simp add: bl B1_def nbm_def)
  qed
  show "bsize (blocks h' x) = bsize (?B x) \<and> in_use (blocks h' x) = in_use (?B x)" for x
    by (simp add: bl B1_def nbm_def)
qed (simp_all add: h' block_list_remove_def Let_def)

text \<open>Moving a free block from the block list to the free list of a class.\<close>

lemma cache_block_ok:
  assumes ok: "heap_ok h (xs @ b # ys) fl" and c: "c < 6" and free: "\<not> in_use (blocks h b)"
    and h': "h' = free_list_push c b (block_list_remove b h)"
  shows "heap_ok h' (xs @ ys) (fl(c := b # fl c))"
    and "\<And>x. bsize (blocks h' x) = bsize (blocks h x) \<and> in_use (blocks h' x) = in_use (blocks h x)"
    and "heap_storage h' = heap_storage h" "stats h' = stats h"
proof -
  let ?ms = "xs @ b # ys"
  define h1 where "h1 = block_list_remove b h"
  have d: "dseg (blocks h) 0 (block_list h) ?ms 0" and cls: "\<And>e. e < 6 \<Longrightarrow> dseg (blocks h) 0 (free_lists h ! e) (fl e) 0"
    and djm: "\<And>e. e < 6 \<Longrightarrow> set ?ms \<inter> set (fl e) = {}"
    and djd: "\<And>e f. e < 6 \<Longrightarrow> f < 6 \<Longrightarrow> e \<noteq> f \<Longrightarrow> set (fl e) \<inter> set (fl f) = {}"
    and len: "length (free_lists h) = 6" and fr: "\<And>e x. e < 6 \<Longrightarrow> x \<in> set (fl e) \<Longrightarrow> \<not> in_use (blocks h x)"
    using ok by (simp_all add: heap_ok_def)
  note r = dseg_block_list_remove [OF d h1_def]
  have dist: "distinct ?ms" and b0: "b \<noteq> 0"
    using dseg_distinct [OF d] dseg_nonzero [OF d] by auto
  have cls1: "dseg (blocks h1) 0 (free_lists h ! e) (fl e) 0" if "e < 6" for e
    using cls [OF that]
  proof (rule dseg_cong [THEN iffD2, rotated])
    fix x assume "x \<in> set (fl e)"
    then have "x \<notin> set ?ms" using djm [OF that] by blast
    then show "bnext (blocks h1 x) = bnext (blocks h x) \<and> bprev (blocks h1 x) = bprev (blocks h x)"
      using r(2) by simp
  qed
  let ?q = "free_lists h ! c"
  have q: "?q = (case fl c of [] \<Rightarrow> 0 | x # _ \<Rightarrow> x)" using cls [OF c] by (rule dseg_head)
  define B1 where "B1 = (blocks h1)(b := (blocks h1 b)\<lparr>bprev := 0, bnext := ?q\<rparr>)"
  define B2 where "B2 = (if ?q \<noteq> 0 then B1(?q := (B1 ?q)\<lparr>bprev := b\<rparr>) else B1)"
  have bl: "blocks h' = B2"
    using r(5) by (simp add: h' h1_def [symmetric] free_list_push_def Let_def B1_def B2_def block_links_swap)
  have rest: "block_list h' = block_list h1" "heap_storage h' = heap_storage h"
    "free_lists h' = (free_lists h)[c := b]" "stats h' = stats h"
    using r(4-6) by (simp_all add: h' h1_def [symmetric] free_list_push_def Let_def)
  have off: "bnext (B2 x) = bnext (blocks h1 x) \<and> bprev (B2 x) = bprev (blocks h1 x)"
    if "x \<noteq> b" "x \<notin> set (fl c)" "x \<noteq> 0" for x
    using that by (cases "fl c") (auto simp: B2_def B1_def q)
  have seg_c: "dseg B2 0 b (b # fl c) 0"
    using cls1 [OF c] djm [OF c] b0 by (intro dseg_insert_front [of "blocks h1" _ _ _ B1]) (auto simp: B1_def B2_def)
  have seg_m: "dseg B2 0 (block_list h1) (xs @ ys) 0"
    using r(1) by (rule dseg_cong [THEN iffD2, rotated], intro off)
      (use dist djm [OF c] dseg_nonzero [OF d] in auto)
  have seg_e: "dseg B2 0 (free_lists h ! e) (fl e) 0" if e: "e < 6" "e \<noteq> c" for e
    using cls1 [OF e(1)] by (rule dseg_cong [THEN iffD2, rotated], intro off)
      (use djd [OF e(1) c e(2)] djm [OF e(1)] dseg_nonzero [OF cls [OF e(1)]] in auto)
  show same: "bsize (blocks h' x) = bsize (blocks h x) \<and> in_use (blocks h' x) = in_use (blocks h x)" for x
    using r(3) by (simp add: bl B2_def B1_def)
  show "heap_storage h' = heap_storage h" "stats h' = stats h" by (simp_all add: rest)
  have all: "all_blocks (xs @ ys) (fl(c := b # fl c)) = all_blocks ?ms fl"
    using all_blocks_at [OF c, of "xs @ ys" "fl(c := b # fl c)"] all_blocks_at [OF c, of ?ms fl] by auto
  have geo: "geom (blocks h') (unat (heap_storage h)) (all_blocks ?ms fl)"
    using ok same by (intro geom_cong [of _ "blocks h'" "blocks h"]) (simp_all add: heap_ok_def)
  show "heap_ok h' (xs @ ys) (fl(c := b # fl c))"
    unfolding heap_ok_def
  proof (intro conjI allI impI ballI)
    fix e assume e: "e < (6::nat)"
    show "dseg (blocks h') 0 (free_lists h' ! e) ((fl(c := b # fl c)) e) 0"
      using e len seg_c seg_e by (auto simp: rest bl)
    show "set (xs @ ys) \<inter> set ((fl(c := b # fl c)) e) = {}"
      using djm [OF e] dist by auto
    show "\<not> in_use (blocks h' x)" if "x \<in> set ((fl(c := b # fl c)) e)" for x
      using that e fr [of e x] free same by (auto split: if_splits)
  next
    fix e f assume "e < (6::nat)" "f < (6::nat)" "e \<noteq> f"
    then show "set ((fl(c := b # fl c)) e) \<inter> set ((fl(c := b # fl c)) f) = {}"
      using djd [of e f] djm [of e] djm [of f] by (cases "e = c"; cases "f = c") auto
  qed (use ok len all geo seg_m in \<open>simp_all add: heap_ok_def rest bl\<close>)
qed

section \<open>Freeing\<close>

text \<open>
  When the blocks around a freed block allow it: the block before it in the list is absent or in
  use, and the free blocks behind it in the list follow it in memory.
\<close>

definition coalesce_safe :: "heap_t \<Rightarrow> u32 \<Rightarrow> u32 list \<Rightarrow> u32 list \<Rightarrow> bool" where
  "coalesce_safe h b xs ys \<longleftrightarrow>
     (xs = [] \<or> in_use (blocks h (last xs))) \<and>
     adjacent (blocks h) (unat b + 16 + unat (bsize (blocks h b))) ys"

lemma kfree_ok:
  assumes ok: "heap_ok h (xs @ b # ys) fl" and used: "in_use (blocks h b)"
    and safe: "coalesce_safe h b xs ys"
  shows "\<exists>h' ms' fl'. kfree (b + SIZEOF_BLOCK) h = Some h' \<and> heap_ok h' ms' fl' \<and>
    live h' ms' = live h (xs @ b # ys) - {b} \<and> \<not> in_use (blocks h' b) \<and>
    (\<forall>x \<in> live h' ms'. bsize (blocks h' x) = bsize (blocks h x))"
proof -
  let ?ms = "xs @ b # ys"
  have bm: "b \<in> set ?ms" by simp
  have d: "dseg (blocks h) 0 (block_list h) ?ms 0" using ok by (simp add: heap_ok_def)
  have dist: "distinct ?ms" using d by (rule dseg_distinct)
  have p0: "b + SIZEOF_BLOCK \<noteq> 0" by (rule heap_ok_payload [OF ok heap_ok_in_list(3) [OF ok bm]])
  have b0: "b \<noteq> 0" by (rule heap_ok_in_list(1) [OF ok bm])
  define h1 where "h1 = upd_block b (\<lambda>k. k\<lparr>in_use := False\<rparr>) h"
  define h2 where "h2 = h1\<lparr>stats := (stats h1)\<lparr>total_freed := total_freed (stats h1) + ucast (bsize (blocks h1 b)),
    current_usage := current_usage (stats h1) - ucast (bsize (blocks h1 b)), free_count := free_count (stats h1) + 1\<rparr>\<rparr>"
  have ok2: "heap_ok h2 ?ms fl"
    unfolding h2_def h1_def by (intro heap_ok_stats heap_ok_set_used ok bm)
  have b2: "blocks h2 = (blocks h)(b := (blocks h b)\<lparr>in_use := False\<rparr>)" by (simp add: h2_def h1_def)
  have "coalesce_prev b h2 = h2"
    using safe bnext_in_dseg(2,4) [OF d] by (auto simp: coalesce_prev_def b2 coalesce_safe_def Let_def)
  then have co: "coalesce b h2 = coalesce_next b h2" using b0 by (simp add: coalesce_def b2)
  have "adjacent (blocks h2) (unat b + 16 + unat (bsize (blocks h2 b))) ys"
    using safe dist by (subst adjacent_cong [of ys _ "blocks h"]) (auto simp: b2 coalesce_safe_def)
  from coalesce_next_ok [OF ok2 this] obtain h3 zs ws where
    c3: "coalesce_next b h2 = Some h3" and ok3: "heap_ok h3 (xs @ b # ws) fl" and ys: "ys = zs @ ws"
    and zs: "\<forall>z \<in> set zs. \<not> in_use (blocks h2 z)"
    and iu3: "\<And>x. in_use (blocks h3 x) = in_use (blocks h2 x)"
    and sz3: "\<And>x. x \<noteq> b \<Longrightarrow> bsize (blocks h3 x) = bsize (blocks h2 x)" by blast
  have free3: "\<not> in_use (blocks h3 b)" by (simp add: iu3 b2)
  have live3: "live h3 (xs @ b # ws) = live h ?ms - {b}"
    using zs dist by (auto simp: live_def iu3 b2 ys)
  have live3': "live h3 (xs @ ws) = live h3 (xs @ b # ws)" using free3 by (auto simp: live_def)
  have kf: "kfree (b + SIZEOF_BLOCK) h = Some (case size_class_index (bsize (blocks h3 b)) of
      None \<Rightarrow> h3 | Some c \<Rightarrow> free_list_push c b (block_list_remove b h3))"
    using p0 used co c3 by (simp add: kfree_def Let_def h1_def [symmetric] h2_def [symmetric])
  show ?thesis
  proof (cases "size_class_index (bsize (blocks h3 b))")
    case None
    then show ?thesis
      using kf ok3 live3 free3 sz3 b2
      by (intro exI [of _ h3] exI [of _ "xs @ b # ws"] exI [of _ fl]) auto
  next
    case (Some c)
    define h4 where "h4 = free_list_push c b (block_list_remove b h3)"
    note k = cache_block_ok [OF ok3 size_class_index_less [OF Some] free3 h4_def]
    have "live h4 (xs @ ws) = live h3 (xs @ ws)" using k(2) by (simp add: live_def)
    then show ?thesis
      using kf Some k(1,2) live3 live3' free3 sz3 b2
      by (intro exI [of _ h4] exI [of _ "xs @ ws"] exI [of _ "fl(c := b # fl c)"])
        (auto simp: h4_def [symmetric])
  qed
qed

section \<open>Properties\<close>

text \<open>A boot heap at 1 MiB, and the headers after concrete calls.\<close>

declare first_fit.simps [code] coalesce_next.simps [code]

definition heap_boot :: heap_t where
  "heap_boot = init_memory \<lparr>heap_storage = 0x100000, blocks = (\<lambda>_. zero_block), hmem = (\<lambda>_. 0),
     block_list = 0, free_lists = replicate 6 0, stats = zero_stats\<rparr>"

lemma heap_ok_boot: "heap_ok heap_boot [0x100000] (\<lambda>_. [])"
  unfolding heap_boot_def by (rule heap_ok_init [of "\<lparr>heap_storage = 0x100000, blocks = (\<lambda>_. zero_block), hmem = (\<lambda>_. 0),
     block_list = 0, free_lists = replicate 6 0, stats = zero_stats\<rparr>", simplified])

lemma align16_large:
  assumes "unat req + 15 < 2 ^ 32"
  shows "req \<le> align16 req"
proof -
  have nw: "unat (req + 15) = unat req + 15" using assms by (subst unat_add_nowrap) simp_all
  have m: "align16 req = (req + 15) - ((req + 15) AND 15)"
    unfolding align16_def by (rule word_and_not_minus)
  have "(req + 15) AND 15 = take_bit 4 (req + 15)" by (simp add: take_bit_eq_mask mask_eq_decr_exp)
  then have "unat ((req + 15) AND 15) = (unat req + 15) mod 16"
    using nw by (simp add: take_bit_eq_mod unat_mod_distrib)
  then have "unat (align16 req) = unat req + 15 - (unat req + 15) mod 16"
    using nw by (simp add: m unat_sub_nowrap)
  moreover have "(unat req + 15) mod 16 \<le> 15" by simp
  ultimately show ?thesis by (simp add: word_le_nat_alt)
qed

lemma heap_ok_extent:
  "heap_ok h ms fl \<Longrightarrow> b \<in> all_blocks ms fl \<Longrightarrow>
     extent (blocks h) b \<subseteq> {unat (heap_storage h) ..< unat (heap_storage h) + 0x100000}"
  unfolding heap_ok_def geom_def by blast

lemma heap_ok_reinit:
  assumes "heap_ok h ms fl"
  shows "\<exists>l f. heap_ok (if block_list h = 0 then init_memory h else h) l f"
proof (cases "block_list h = 0")
  case True
  have "heap_ok (init_memory h) [heap_storage h] (\<lambda>_. [])"
    by (rule heap_ok_init) (use assms in \<open>simp_all add: heap_ok_def\<close>)
  then show ?thesis using True by auto
next
  case False
  then show ?thesis using assms by auto
qed

lemma granted_disjoint:
  assumes "granted h ms p h' ms' fl'" and "p \<noteq> 0" and "x \<in> live h ms"
  shows "extent (blocks h') (p - SIZEOF_BLOCK) \<inter> extent (blocks h) x = {}"
proof -
  let ?b = "p - SIZEOF_BLOCK"
  from assms have ok: "heap_ok h' ms' fl'" and sz: "bsize (blocks h' x) = bsize (blocks h x)"
    and nb: "?b \<notin> live h ms" and lv: "live h' ms' = insert ?b (live h ms)"
    by (auto simp: granted_def)
  have "?b \<in> all_blocks ms' fl'" "x \<in> all_blocks ms' fl'"
    using lv assms(3) by (auto simp: live_def all_blocks_def)
  moreover have "?b \<noteq> x" using nb assms(3) by auto
  ultimately have "extent (blocks h') ?b \<inter> extent (blocks h') x = {}"
    using ok unfolding heap_ok_def geom_def by blast
  then show ?thesis using sz by (simp add: extent_def)
qed

text \<open>
  Property C1. An allocation from a well-formed heap always returns. It either refuses and leaves
  the set of live blocks as it was, or makes exactly one new block live whose bytes lie inside the
  1 MiB heap and overlap no block that was live before; the other live blocks keep their size, and
  the heap stays well-formed.
\<close>

theorem kmalloc_sound:
  assumes "heap_ok h ms fl"
  shows "\<exists>p h' ms' fl'. kmalloc req h = Some (p, h') \<and> heap_ok h' ms' fl' \<and>
    (\<forall>x \<in> live h ms. bsize (blocks h' x) = bsize (blocks h x)) \<and>
    (if p = 0 then live h' ms' = live h ms
     else live h' ms' = insert (p - 16) (live h ms) \<and>
       (\<forall>x \<in> live h ms. extent (blocks h') (p - 16) \<inter> extent (blocks h) x = {}) \<and>
       extent (blocks h') (p - 16) \<subseteq> {unat (heap_storage h) ..< unat (heap_storage h) + 0x100000})"
proof -
  obtain p h' where res: "kmalloc req h = Some (p, h')" using kmalloc_returns [OF assms] by blast
  obtain ms' fl' where g: "granted h ms p h' ms' fl'" using kmalloc_ok [OF assms res] by blast
  have "extent (blocks h') (p - SIZEOF_BLOCK) \<subseteq> {unat (heap_storage h) ..< unat (heap_storage h) + 0x100000}"
    if "p \<noteq> 0"
  proof -
    have "p - SIZEOF_BLOCK \<in> all_blocks ms' fl'"
      using g that by (auto simp: granted_def live_def all_blocks_def)
    then show ?thesis using g heap_ok_extent [of h' ms' fl'] by (metis granted_def)
  qed
  then show ?thesis
    using res g granted_disjoint [OF g]
    by (intro exI [of _ p] exI [of _ h'] exI [of _ ms'] exI [of _ fl'])
      (simp add: granted_def SIZEOF_BLOCK_def)
qed

lemma kmalloc_large:
  assumes ok: "heap_ok h ms fl" and big: "256 < unat req" "unat req + 15 < 2 ^ 32"
    and res: "kmalloc req h = Some (p, h')" and "p \<noteq> 0"
  shows "req \<le> bsize (blocks h' (p - 16))"
proof -
  define g where "g = (if block_list h = 0 then init_memory h else h)"
  obtain l f where ok': "heap_ok g l f"
    using heap_ok_reinit [OF ok] by (auto simp: g_def)
  have al: "req \<le> align16 req" using big(2) by (rule align16_large)
  then have "\<not> align16 req \<le> size_classes ! (NUM_SIZE_CLASSES - 1)"
    using big(1) by (simp add: heap_consts word_le_nat_alt)
  moreover have "req \<noteq> 0" using big(1) by auto
  ultimately have "kmalloc_scan (align16 req) g = Some (p, h')"
    using res by (simp add: kmalloc_def g_def Let_def)
  then have "align16 req \<le> bsize (blocks h' (p - SIZEOF_BLOCK))"
    using kmalloc_scan_ok [OF ok'] assms(5) by blast
  then show ?thesis using al by (simp add: SIZEOF_BLOCK_def)
qed

text \<open>
  A block granted for a request of more than 256 bytes (and below the point where
  rounding up wraps around) has at least the requested size.
\<close>

theorem kmalloc_large_enough:
  assumes ok: "heap_ok h ms fl" and big: "256 < unat req" "unat req + 15 < 2 ^ 32"
    and res: "kmalloc req h = Some (p, h')" and "p \<noteq> 0"
  shows "req \<le> bsize (blocks h' (p - 16))"
  using assms by (rule kmalloc_large)

text \<open>
  A block returned to a size class may be smaller than the class: after a block of
  48 bytes is freed, a request for 64 bytes is granted with that block of 48 bytes.
\<close>

theorem kmalloc_cached_too_small:
  "do { (a, h1) \<leftarrow> kmalloc 48 heap_boot; (b, h2) \<leftarrow> kmalloc 48 h1; h3 \<leftarrow> kfree a h2; (c, h4) \<leftarrow> kmalloc 64 h3;
        Some (c, bsize (blocks h4 (c - 16)), b, in_use (blocks h4 (b - 16))) } =
   Some (0x100010, 48, 0x100050, True)"
  by code_simp

text \<open>
  When the block in front of a freed block in the list is free as well, \<open>coalesce\<close>
  adds that block's size to the freed block without moving its start. After four allocations of 1000 bytes and freeing the
  first two, an allocation of 2000 bytes returns the second block's address with 2032 bytes, which
  reaches over the third block, still in use.
\<close>

theorem kfree_grows_over_live_block:
  "do { (a, h1) \<leftarrow> kmalloc 1000 heap_boot; (b, h2) \<leftarrow> kmalloc 1000 h1; (c, h3) \<leftarrow> kmalloc 1000 h2;
        (d, h4) \<leftarrow> kmalloc 1000 h3;
        h5 \<leftarrow> kfree a h4; h6 \<leftarrow> kfree b h5; (e, h7) \<leftarrow> kmalloc 2000 h6;
        Some (c, in_use (blocks h7 (c - 16)), e, bsize (blocks h7 (e - 16))) } =
   Some (0x100810, True, 0x100410, 2032)"
  by code_simp

text \<open>
  Rounding a request of more than 0xFFFFFFF0 bytes up to a multiple of 16 wraps around to
  0, and the request is granted with a block of no bytes.
\<close>

theorem kmalloc_wraps:
  "do { (a, h1) \<leftarrow> kmalloc 0xFFFFFFFF heap_boot; Some (a, bsize (blocks h1 (a - 16))) } = Some (0x100010, 0)"
  by code_simp

text \<open>
  Property C2. Freeing a live block whose neighbours in the list are safe to merge returns, ends
  exactly that block's life, keeps the size of all other live blocks and the well-formedness of the
  heap; freeing it a second time changes nothing.
\<close>

theorem kfree_sound:
  assumes "heap_ok h (xs @ b # ys) fl" and "in_use (blocks h b)" and "coalesce_safe h b xs ys"
  shows "\<exists>h' ms' fl'. kfree (b + 16) h = Some h' \<and> heap_ok h' ms' fl' \<and>
    live h' ms' = live h (xs @ b # ys) - {b} \<and>
    (\<forall>x \<in> live h' ms'. bsize (blocks h' x) = bsize (blocks h x)) \<and>
    kfree (b + 16) h' = Some h'"
proof -
  have "kfree (b + 16) h' = Some h'" if "\<not> in_use (blocks h' b)" for h'
    using that by (simp add: kfree_def SIZEOF_BLOCK_def)
  then show ?thesis using kfree_ok [OF assms] unfolding SIZEOF_BLOCK_def by blast
qed

definition heap_two :: heap_t where
  "heap_two = heap_boot\<lparr>blocks := (blocks heap_boot)
     (0x100000 := \<lparr>bsize = 1008, in_use = True, bnext = 0x100400, bprev = 0\<rparr>,
      0x100400 := \<lparr>bsize = 0xFFBF0, in_use = False, bnext = 0, bprev = 0x100000\<rparr>)\<rparr>"

lemma heap_two_ok: "heap_ok heap_two [0x100000, 0x100400] (\<lambda>_. [])"
  by (simp add: heap_ok_def heap_two_def heap_boot_def init_memory_def geom_def extent_def all_blocks_def
      heap_consts)

theorem kfree_sound_witness:
  "\<exists>h' ms' fl'. kfree 0x100010 heap_two = Some h' \<and> heap_ok h' ms' fl' \<and> live h' ms' = {} \<and>
     kfree 0x100010 h' = Some h'"
proof -
  have u: "in_use (blocks heap_two 0x100000)" by (simp add: heap_two_def)
  have s: "coalesce_safe heap_two 0x100000 [] [0x100400]"
    by (simp add: coalesce_safe_def heap_two_def)
  have l: "live heap_two [0x100000, 0x100400] - {0x100000} = {}"
    by (auto simp: live_def heap_two_def)
  show ?thesis
    using kfree_sound [of heap_two "[]" "0x100000" "[0x100400]" "\<lambda>_. []", OF _ u s] heap_two_ok l
    by (simp del: ex_simps) blast
qed

theorem kmalloc_sound_witness:
  "\<exists>p h' ms' fl'. kmalloc 100 heap_boot = Some (p, h') \<and> heap_ok h' ms' fl' \<and>
     (p \<noteq> 0 \<longrightarrow> extent (blocks h') (p - 16) \<subseteq> {0x100000 ..< 0x200000})"
proof -
  have "heap_storage heap_boot = 0x100000" by (simp add: heap_boot_def init_memory_def)
  then show ?thesis using kmalloc_sound [OF heap_ok_boot, of 100] by (fastforce split: if_splits)
qed

theorem kmalloc_large_enough_witness:
  "\<exists>h'. kmalloc 1000 heap_boot = Some (0x100010, h') \<and> 1000 \<le> bsize (blocks h' 0x100000)"
proof -
  have "map_option fst (kmalloc 1000 heap_boot) = Some 0x100010" by code_simp
  then obtain h' where r: "kmalloc 1000 heap_boot = Some (0x100010, h')" by auto
  show ?thesis using kmalloc_large_enough [OF heap_ok_boot _ _ r] r by simp
qed

definition stats_balanced :: "heap_t \<Rightarrow> bool" where
  "stats_balanced h \<longleftrightarrow> current_usage (stats h) = total_allocated (stats h) - total_freed (stats h)"

lemma coalesce_next_stats:
  assumes "coalesce_next b h = Some h'"
  shows "stats h' = stats h \<and> hmem h' = hmem h"
proof (rule coalesce_next.raw_induct [OF _ assms, of "\<lambda>b h h'. stats h' = stats h \<and> hmem h' = hmem h"], goal_cases)
  case (1 cn b h h')
  show ?case
    using 1(2) by (auto simp: Let_def dest!: 1(1) split: if_splits)
qed

lemma coalesce_stats: "coalesce b h = Some h' \<Longrightarrow> stats h' = stats h \<and> hmem h' = hmem h"
  by (auto simp: coalesce_def coalesce_prev_def Let_def dest!: coalesce_next_stats split: if_splits)

lemma list_op_stats [simp]:
  "stats (block_list_remove b h) = stats h" "stats (block_list_insert_front b h) = stats h"
  "stats (free_list_push c b h) = stats h" "stats (snd (free_list_pop c h)) = stats h"
  "hmem (block_list_remove b h) = hmem h" "hmem (block_list_insert_front b h) = hmem h"
  "hmem (free_list_push c b h) = hmem h" "hmem (snd (free_list_pop c h)) = hmem h"
  by (simp_all add: block_list_remove_def block_list_insert_front_def free_list_push_def
      free_list_pop_def Let_def)

lemma count_alloc_balanced: "stats_balanced h \<Longrightarrow> stats_balanced (count_alloc b h)"
  by (simp add: stats_balanced_def count_alloc_def update_peak_def Let_def)

lemma kmalloc_balanced:
  assumes "stats_balanced h" and "kmalloc n h = Some (p, h')"
  shows "stats_balanced h'"
proof -
  have scan: "stats_balanced g'" if "kmalloc_scan sz g = Some (p, g')" "stats_balanced g" for sz g g'
    using that by (auto simp: kmalloc_scan_def bind_eq_Some_conv stats_balanced_def count_alloc_def
        update_peak_def Let_def split: if_splits)
  have pop: "stats_balanced (snd (free_list_pop c g))" if "stats_balanced g" for c g
    using that by (simp add: stats_balanced_def)
  define g where "g = (if block_list h = 0 then init_memory h else h)"
  have g: "stats_balanced g"
    using assms(1) by (simp add: g_def stats_balanced_def init_memory_def zero_stats_def)
  have hit: "stats_balanced (block_list_insert_front b (upd_block b f (count_alloc b (snd (free_list_pop c g)))))" for b c f
    using count_alloc_balanced [OF pop [OF g]] by (simp add: stats_balanced_def)
  show ?thesis
  proof (cases "if align16 n \<le> size_classes ! (NUM_SIZE_CLASSES - 1) then size_class_index (align16 n) else None")
    case None
    then show ?thesis
      using assms scan [OF _ g] by (cases "n = 0") (simp_all add: kmalloc_def Let_def g_def [symmetric])
  next
    case (Some c)
    obtain b g1 where fp: "free_list_pop c g = (b, g1)" by fastforce
    show ?thesis
    proof (cases "n = 0"; cases "b = 0")
      assume nz: "n \<noteq> 0" "b \<noteq> 0"
      have "h' = block_list_insert_front b (upd_block b (\<lambda>k. k\<lparr>in_use := True\<rparr>) (count_alloc b g1))"
        using assms(2) nz Some fp by (simp add: kmalloc_def Let_def g_def [symmetric])
      then show ?thesis using fp hit [of b _ c] by simp
    next
      assume "n \<noteq> 0" "b = 0"
      then have "kmalloc_scan (align16 n) g1 = Some (p, h')"
        using assms(2) Some fp by (simp add: kmalloc_def Let_def g_def [symmetric])
      then show ?thesis using scan pop [OF g, of c] fp by simp
    qed (use assms in \<open>simp_all add: kmalloc_def\<close>)
  qed
qed

lemma kfree_balanced:
  assumes "stats_balanced h" and "kfree p h = Some h'"
  shows "stats_balanced h' \<and> hmem h' = hmem h"
  using assms
  by (auto simp: kfree_def Let_def stats_balanced_def bind_eq_Some_conv dest!: coalesce_stats
      split: if_splits option.splits)

text \<open>The calls of a client, and a whole history of them.\<close>

datatype heap_call = Malloc u32 | Calloc u32 u32 | Free u32 | Realloc u32 u32

fun heap_call_step :: "heap_call \<Rightarrow> heap_t \<Rightarrow> heap_t option" where
  "heap_call_step (Malloc n) h = map_option snd (kmalloc n h)"
| "heap_call_step (Calloc m n) h = map_option snd (kcalloc m n h)"
| "heap_call_step (Free p) h = kfree p h"
| "heap_call_step (Realloc p n) h = map_option snd (krealloc p n h)"

fun heap_calls :: "heap_call list \<Rightarrow> heap_t \<Rightarrow> heap_t option" where
  "heap_calls [] h = Some h"
| "heap_calls (c # cs) h = Option.bind (heap_call_step c h) (heap_calls cs)"

lemma heap_call_balanced:
  assumes "stats_balanced h" and "heap_call_step c h = Some h'"
  shows "stats_balanced h'"
proof (cases c)
  case (Malloc n)
  then show ?thesis using assms kmalloc_balanced by auto
next
  case (Calloc m n)
  then obtain p where r: "kcalloc m n h = Some (p, h')" using assms(2) by auto
  show ?thesis
  proof (cases "m \<noteq> 0 \<and> n > (- 1) div m")
    case True
    then show ?thesis using r assms(1) by (auto simp: kcalloc_def stats_balanced_def)
  next
    case False
    then obtain h1 where "kmalloc (m * n) h = Some (p, h1)" "stats h' = stats h1"
      using r by (auto simp: kcalloc_def Let_def bind_eq_Some_conv split: if_splits)
    then show ?thesis using kmalloc_balanced [OF assms(1)] by (simp add: stats_balanced_def)
  qed
next
  case (Free p)
  then show ?thesis using assms kfree_balanced by auto
next
  case (Realloc p n)
  then obtain q where r: "krealloc p n h = Some (q, h')" using assms(2) by auto
  show ?thesis
  proof (cases "p = 0 \<or> n = 0")
    case True
    then show ?thesis
      using r kmalloc_balanced [OF assms(1)] kfree_balanced [OF assms(1)]
      by (auto simp: krealloc_def bind_eq_Some_conv split: if_splits)
  next
    case False
    then obtain nx h1 where m: "kmalloc n h = Some (nx, h1)"
      and more: "nx = 0 \<and> h' = h1 \<or> (\<exists>M. kfree p (h1\<lparr>hmem := M\<rparr>) = Some h')"
      using r by (auto simp: krealloc_def Let_def bind_eq_Some_conv split: if_splits)
    have b1: "stats_balanced h1" using assms(1) m by (rule kmalloc_balanced)
    then have "stats_balanced (h1\<lparr>hmem := M\<rparr>)" for M by (simp add: stats_balanced_def)
    then show ?thesis using more b1 kfree_balanced by blast
  qed
qed

text \<open>
  After any sequence of allocation calls that returns, the statistics report as current
  usage exactly what was allocated less what was freed (modulo 2 to the 64).
\<close>

theorem heap_stats_balanced:
  assumes "heap_calls cs heap_boot = Some h"
  shows "current_usage (get_memory_stats h) = total_allocated (get_memory_stats h) - total_freed (get_memory_stats h)"
proof -
  have "stats_balanced h'" if "stats_balanced g" "heap_calls cs g = Some h'" for g h'
    using that by (induction cs arbitrary: g) (auto simp: bind_eq_Some_conv dest: heap_call_balanced)
  moreover have "stats_balanced heap_boot"
    by (simp add: stats_balanced_def heap_boot_def init_memory_def zero_stats_def)
  ultimately show ?thesis using assms by (simp add: stats_balanced_def get_memory_stats_def)
qed

theorem heap_stats_balanced_witness:
  "\<exists>h. heap_calls [Malloc 100, Calloc 4 8, Free 0x100010] heap_boot = Some h \<and>
     current_usage (get_memory_stats h) = total_allocated (get_memory_stats h) - total_freed (get_memory_stats h)"
proof -
  have "map_option (\<lambda>h. current_usage (stats h)) (heap_calls [Malloc 100, Calloc 4 8, Free 0x100010] heap_boot) = Some 32"
    by code_simp
  then obtain h where r: "heap_calls [Malloc 100, Calloc 4 8, Free 0x100010] heap_boot = Some h" by auto
  show ?thesis using heap_stats_balanced [OF r] r by blast
qed

end
