(* ===== verification/Net.thy ===== *)
theory Net
  imports Kernel_Prelude
begin

text \<open>
  The network stack: Ethernet (\<open>Kernel/net/net_eth.c\<close>), ARP (\<open>net_arp.c\<close>), IPv4 (\<open>net_ip.c\<close>)
  and TCP (\<open>net_tcp.c\<close>), as one state \<open>net\<close> and one definition per function.

  A buffer and its length argument are one byte list; a packed header is the bytes it has in
  memory, fields little-endian, so that the byte swaps of the code are the byte swaps here.
  The network card and the timer are the environment: \<open>nic_rx\<close> lists what the next calls of
  \<open>rtl8139_poll\<close> deliver (an empty list for no frame, and no frame after the end), \<open>nic_tx\<close>
  collects the frames handed to \<open>rtl8139_send\<close>, and \<open>clock\<close> gives the value the n-th call of
  \<open>timer_ticks\<close> reads.

  The functions call each other in a circle: waiting for an ARP reply polls the card, a polled
  frame may be a TCP segment, and answering it needs ARP again. Each function takes the resolver
  it uses as an argument; \<open>arp_resolve\<close> closes the circle with the depth of the nesting as fuel
  (\<open>None\<close> when it is exhausted; the kernel's stack bounds it in the code). The waiting loops are
  \<open>partial_function (option)\<close>, with \<open>None\<close> for a loop that does not end. Log output is not
  modelled.
\<close>

section \<open>Bytes and byte order\<close>

definition bswap32 :: "u32 \<Rightarrow> u32" where
  "bswap32 w = push_bit 24 (w AND 0xFF) OR push_bit 8 (w AND 0xFF00) OR
     (drop_bit 8 w AND 0xFF00) OR drop_bit 24 w"

definition st16 :: "u16 \<Rightarrow> bytes" where "st16 w = [ucast w, ucast (drop_bit 8 w)]"

definition st32 :: "u32 \<Rightarrow> bytes" where
  "st32 w = [ucast w, ucast (drop_bit 8 w), ucast (drop_bit 16 w), ucast (drop_bit 24 w)]"

definition ld16 :: "bytes \<Rightarrow> nat \<Rightarrow> u16" where
  "ld16 bs i = ucast (bs ! i) OR push_bit 8 (ucast (bs ! Suc i))"

definition ld32 :: "bytes \<Rightarrow> nat \<Rightarrow> u32" where
  "ld32 bs i = ucast (bs ! i) OR push_bit 8 (ucast (bs ! (i + 1))) OR
     push_bit 16 (ucast (bs ! (i + 2))) OR push_bit 24 (ucast (bs ! (i + 3)))"

section \<open>State\<close>

datatype tcp_state_t = TCP_CLOSED | TCP_SYN_SENT | TCP_ESTABLISHED | TCP_FIN_WAIT_1 | TCP_TIME_WAIT

record arp_cache_t =
  arp_ip :: u32
  arp_mac :: bytes
  arp_valid :: bool

record tcp_conn_t =
  cstate :: tcp_state_t
  local_ip :: u32
  remote_ip :: u32
  local_port :: u16
  remote_port :: u16
  seq_num :: u32
  ack_num :: u32
  recv_buf :: bytes
  recv_len :: u16
  rto_start_tick :: u32
  retries :: u16
  connected :: bool
  waiting_for_ack :: bool
  ack_received :: bool

record net =
  nic_up :: bool
  nic_rx :: "bytes list"
  nic_tx :: "bytes list"
  clock :: "nat \<Rightarrow> u32"
  clock_reads :: nat
  g_our_mac :: bytes
  g_arp_cache :: "arp_cache_t list"
  g_arp_age :: "u32 list"
  g_arp_age_counter :: u32
  g_ip_id :: u16
  g_tcp_conn :: tcp_conn_t

type_synonym resolver = "u32 \<Rightarrow> net \<Rightarrow> (bytes option \<times> net) option"

definition ETH_HLEN :: nat where "ETH_HLEN = 14"
definition ETH_MTU :: nat where "ETH_MTU = 1500"
definition ETH_TYPE_ARP :: u16 where "ETH_TYPE_ARP = 0x0806"
definition ETH_TYPE_IP :: u16 where "ETH_TYPE_IP = 0x0800"
definition IP_HLEN :: nat where "IP_HLEN = 20"
definition IP_PROTO_TCP :: u8 where "IP_PROTO_TCP = 6"
definition OUR_IP_ADDR :: u32 where "OUR_IP_ADDR = 0x0A00020F"
definition ARP_CACHE_SIZE :: nat where "ARP_CACHE_SIZE = 8"
definition ARP_TIMEOUT_MS :: u32 where "ARP_TIMEOUT_MS = 500"
definition ARP_RETRIES :: nat where "ARP_RETRIES = 3"
definition TCP_HLEN_WORDS :: nat where "TCP_HLEN_WORDS = 5"
definition TCP_HLEN :: nat where "TCP_HLEN = 20"
definition TCP_MSS :: nat where "TCP_MSS = 1460"
definition TCP_RECV_BUF_SIZE :: nat where "TCP_RECV_BUF_SIZE = 2048"
definition TCP_DEFAULT_WINDOW :: u16 where "TCP_DEFAULT_WINDOW = 65535"
definition TCP_RTO_TICKS :: u32 where "TCP_RTO_TICKS = 50"
definition TCP_MAX_RETRIES :: nat where "TCP_MAX_RETRIES = 3"
definition TCP_FIN :: u8 where "TCP_FIN = 0x01"
definition TCP_SYN :: u8 where "TCP_SYN = 0x02"
definition TCP_RST :: u8 where "TCP_RST = 0x04"
definition TCP_PSH :: u8 where "TCP_PSH = 0x08"
definition TCP_ACK :: u8 where "TCP_ACK = 0x10"
definition TCP_SYN_ACK :: u8 where "TCP_SYN_ACK = TCP_SYN OR TCP_ACK"

lemmas eth_consts = ETH_HLEN_def ETH_MTU_def ETH_TYPE_ARP_def ETH_TYPE_IP_def
lemmas ip_consts = IP_HLEN_def IP_PROTO_TCP_def OUR_IP_ADDR_def
lemmas arp_consts = ARP_CACHE_SIZE_def ARP_TIMEOUT_MS_def ARP_RETRIES_def
lemmas tcp_consts = TCP_HLEN_WORDS_def TCP_HLEN_def TCP_MSS_def TCP_RECV_BUF_SIZE_def
  TCP_DEFAULT_WINDOW_def TCP_RTO_TICKS_def TCP_MAX_RETRIES_def TCP_FIN_def TCP_SYN_def TCP_RST_def
  TCP_PSH_def TCP_ACK_def TCP_SYN_ACK_def

section \<open>The environment\<close>

definition timer_ticks :: "net \<Rightarrow> u32 \<times> net" where
  "timer_ticks s = (clock s (clock_reads s), s\<lparr>clock_reads := Suc (clock_reads s)\<rparr>)"

definition rtl8139_poll :: "net \<Rightarrow> bytes \<times> net" where
  "rtl8139_poll s = (case nic_rx s of [] \<Rightarrow> ([], s) | f # fs \<Rightarrow> (f, s\<lparr>nic_rx := fs\<rparr>))"

definition rtl8139_send :: "bytes \<Rightarrow> net \<Rightarrow> net" where
  "rtl8139_send f s = s\<lparr>nic_tx := nic_tx s @ [f]\<rparr>"

section \<open>Ethernet\<close>

definition g_eth_broadcast :: bytes where "g_eth_broadcast = replicate 6 0xFF"

definition eth_send :: "bytes \<Rightarrow> u16 \<Rightarrow> bytes \<Rightarrow> net \<Rightarrow> net" where
  "eth_send dst_mac type payload s =
     (if \<not> nic_up s then s
      else if length payload > ETH_MTU then s
      else rtl8139_send (dst_mac @ g_our_mac s @ st16 (bswap16 type) @ payload) s)"

definition net_set_mac :: "bytes \<Rightarrow> net \<Rightarrow> net" where
  "net_set_mac m s = s\<lparr>g_our_mac := take 6 m\<rparr>"

section \<open>ARP\<close>

definition arp_init :: "net \<Rightarrow> net" where
  "arp_init s = s\<lparr>g_arp_cache := map (\<lambda>e. e\<lparr>arp_valid := False\<rparr>) (g_arp_cache s),
     g_arp_age := replicate ARP_CACHE_SIZE 0, g_arp_age_counter := 0\<rparr>"

text \<open>The first index, in order, whose entry is valid and has the address.\<close>

definition arp_index :: "u32 \<Rightarrow> net \<Rightarrow> nat option" where
  "arp_index ip s =
     find (\<lambda>i. arp_valid (g_arp_cache s ! i) \<and> arp_ip (g_arp_cache s ! i) = ip) [0 ..< ARP_CACHE_SIZE]"

definition arp_cache_lookup :: "u32 \<Rightarrow> net \<Rightarrow> bytes option \<times> net" where
  "arp_cache_lookup ip s =
     (case arp_index ip s of
        None \<Rightarrow> (None, s)
      | Some i \<Rightarrow> (Some (arp_mac (g_arp_cache s ! i)),
          (let c = g_arp_age_counter s + 1
           in s\<lparr>g_arp_age_counter := c, g_arp_age := (g_arp_age s)[i := c]\<rparr>)))"

definition arp_lru :: "u32 list \<Rightarrow> nat" where
  "arp_lru ages = foldl (\<lambda>slot i. if ages ! i < ages ! slot then i else slot) 0 [1 ..< ARP_CACHE_SIZE]"

definition arp_slot :: "u32 \<Rightarrow> net \<Rightarrow> nat" where
  "arp_slot ip s =
     (case arp_index ip s of
        Some i \<Rightarrow> i
      | None \<Rightarrow> (case find (\<lambda>i. \<not> arp_valid (g_arp_cache s ! i)) [0 ..< ARP_CACHE_SIZE] of
          Some i \<Rightarrow> i
        | None \<Rightarrow> arp_lru (g_arp_age s)))"

definition arp_cache_add :: "u32 \<Rightarrow> bytes \<Rightarrow> net \<Rightarrow> net" where
  "arp_cache_add ip m s =
     (let slot = arp_slot ip s; c = g_arp_age_counter s + 1
      in s\<lparr>g_arp_cache := (g_arp_cache s)[slot := \<lparr>arp_ip = ip, arp_mac = m, arp_valid = True\<rparr>],
           g_arp_age_counter := c, g_arp_age := (g_arp_age s)[slot := c]\<rparr>)"

definition arp_fill_ip :: "u32 \<Rightarrow> bytes" where
  "arp_fill_ip ip = [ucast (drop_bit 24 ip AND 0xFF), ucast (drop_bit 16 ip AND 0xFF),
     ucast (drop_bit 8 ip AND 0xFF), ucast (ip AND 0xFF)]"

definition arp_read_ip :: "bytes \<Rightarrow> nat \<Rightarrow> u32" where
  "arp_read_ip bs i = push_bit 24 (ucast (bs ! i)) OR push_bit 16 (ucast (bs ! (i + 1))) OR
     push_bit 8 (ucast (bs ! (i + 2))) OR ucast (bs ! (i + 3))"

text \<open>The 28 bytes of \<open>arp_packet_t\<close>.\<close>

definition arp_packet :: "u16 \<Rightarrow> u16 \<Rightarrow> u16 \<Rightarrow> bytes \<Rightarrow> bytes \<Rightarrow> bytes \<Rightarrow> bytes \<Rightarrow> bytes" where
  "arp_packet htype ptype op sha spa tha tpa =
     st16 htype @ st16 ptype @ [6, 4] @ st16 op @ sha @ spa @ tha @ tpa"

definition arp_handle_packet :: "bytes \<Rightarrow> net \<Rightarrow> net" where
  "arp_handle_packet d s =
     (if length d < 28 then s
      else if ld16 d 0 \<noteq> bswap16 1 \<or> ld16 d 2 \<noteq> bswap16 0x0800 \<or> d ! 4 \<noteq> 6 \<or> d ! 5 \<noteq> 4 then s
      else
        (let op = bswap16 (ld16 d 6);
             sha = take 6 (drop 8 d); spa = take 4 (drop 14 d) in
         if op \<noteq> 1 \<and> op \<noteq> 2 then s
         else
           (let s1 = arp_cache_add (arp_read_ip d 14) sha s in
            if op \<noteq> 1 then s1
            else if arp_read_ip d 24 \<noteq> OUR_IP_ADDR then s1
            else eth_send sha ETH_TYPE_ARP
                   (arp_packet (ld16 d 0) (ld16 d 2) (bswap16 2) (g_our_mac s1)
                      (arp_fill_ip OUR_IP_ADDR) sha spa) s1)))"

section \<open>IPv4\<close>

text \<open>Folding the carries back into the low 16 bits.\<close>

function fold16 :: "u32 \<Rightarrow> u32" where
  "fold16 acc =
     (if drop_bit 16 acc \<noteq> 0 then fold16 ((acc AND 0xFFFF) + drop_bit 16 acc) else acc)"
  by auto
termination
proof (relation "measure unat")
  fix acc :: u32
  assume nz: "drop_bit 16 acc \<noteq> 0"
  have d: "unat (drop_bit 16 acc) = unat acc div 65536"
    by (simp add: drop_bit_eq_div unat_div)
  have "acc AND 0xFFFF = take_bit 16 acc" by (simp add: take_bit_eq_mask mask_eq_decr_exp)
  then have m: "unat (acc AND 0xFFFF) = unat acc mod 65536"
    by (simp add: take_bit_eq_mod unat_mod_distrib)
  have "unat acc div 65536 \<noteq> 0" using nz d by (metis unat_eq_zero)
  then have big: "unat acc \<ge> 65536" by (simp add: div_eq_0_iff not_less)
  have "unat acc < 2 ^ 32" using unsigned_less [of acc] by simp
  then have "unat acc mod 65536 + unat acc div 65536 < 2 ^ 32" by (simp add: div_less_iff_less_mult)
  then have "unat ((acc AND 0xFFFF) + drop_bit 16 acc) = unat acc mod 65536 + unat acc div 65536"
    using d m by (subst unat_add_nowrap) simp_all
  also have "\<dots> < unat acc" using big div_mult_mod_eq [of "unat acc" 65536] by linarith
  finally show "((acc AND 0xFFFF) + drop_bit 16 acc, acc) \<in> measure unat" by simp
qed simp

text \<open>The 16-bit words of a header, as loaded on the target.\<close>

fun words_le :: "bytes \<Rightarrow> u16 list" where
  "words_le (a # b # bs) = (ucast a OR push_bit 8 (ucast b)) # words_le bs"
| "words_le _ = []"

definition ip_checksum :: "u16 list \<Rightarrow> u16" where
  "ip_checksum ws =
     (let total = foldl (\<lambda>acc w. acc + ucast (bswap16 w)) (0 :: u32) ws
      in bswap16 (ucast (NOT (fold16 total) AND 0xFFFF)))"

text \<open>The 20 bytes of \<open>ip_header_t\<close> that \<open>ip_send\<close> fills in.\<close>

definition ip_header :: "u16 \<Rightarrow> u16 \<Rightarrow> u8 \<Rightarrow> u16 \<Rightarrow> u32 \<Rightarrow> bytes" where
  "ip_header total_len ident protocol cksum dst =
     [0x45, 0] @ st16 (bswap16 total_len) @ st16 (bswap16 ident) @ st16 (bswap16 0x4000) @
     [64, protocol] @ st16 cksum @ st32 (bswap32 OUR_IP_ADDR) @ st32 (bswap32 dst)"

definition ip_packet :: "u16 \<Rightarrow> u8 \<Rightarrow> bytes \<Rightarrow> u32 \<Rightarrow> bytes" where
  "ip_packet ident protocol payload dst_ip =
     (let total_len = word_of_nat (IP_HLEN + length payload);
          cksum = ip_checksum (words_le (ip_header total_len ident protocol 0 dst_ip))
      in ip_header total_len ident protocol cksum dst_ip @ payload)"

definition ip_send :: "resolver \<Rightarrow> u32 \<Rightarrow> u8 \<Rightarrow> bytes \<Rightarrow> net \<Rightarrow> net option" where
  "ip_send resolve dst_ip protocol payload s =
     (if length payload > ETH_MTU - IP_HLEN then Some s
      else
        (let buf = ip_packet (g_ip_id s) protocol payload dst_ip;
             s1 = s\<lparr>g_ip_id := g_ip_id s + 1\<rparr>
         in do { (r, s2) \<leftarrow> resolve dst_ip s1;
                 case r of
                   Some dst_mac \<Rightarrow> Some (eth_send dst_mac ETH_TYPE_IP buf s2)
                 | None \<Rightarrow> Some s2 }))"

section \<open>TCP: segments\<close>

definition tcp_get_conn :: "net \<Rightarrow> tcp_conn_t" where "tcp_get_conn s = g_tcp_conn s"

definition upd_conn :: "(tcp_conn_t \<Rightarrow> tcp_conn_t) \<Rightarrow> net \<Rightarrow> net" where
  "upd_conn f s = s\<lparr>g_tcp_conn := f (g_tcp_conn s)\<rparr>"

definition tcp_init :: "net \<Rightarrow> net" where
  "tcp_init = upd_conn (\<lambda>c. c\<lparr>cstate := TCP_CLOSED, seq_num := 1000, ack_num := 0, recv_len := 0,
     rto_start_tick := 0, retries := 0, connected := False, waiting_for_ack := False,
     ack_received := False\<rparr>)"

text \<open>Adding the 16-bit words of a byte string in network order, an odd last byte padded with 0.\<close>

fun sum_be :: "u32 \<Rightarrow> bytes \<Rightarrow> u32" where
  "sum_be acc (a # b # bs) = sum_be (acc + (push_bit 8 (ucast a) OR ucast b)) bs"
| "sum_be acc [a] = acc + push_bit 8 (ucast a)"
| "sum_be acc [] = acc"

definition tcp_checksum :: "bytes \<Rightarrow> bytes \<Rightarrow> u16" where
  "tcp_checksum pseudo tcp_seg =
     bswap16 (ucast (NOT (fold16 (sum_be (sum_be 0 pseudo) tcp_seg)) AND 0xFFFF))"

text \<open>The 12 bytes of \<open>tcp_pseudo_t\<close> and the 20 bytes of \<open>tcp_header_t\<close>.\<close>

definition tcp_pseudo :: "u32 \<Rightarrow> u32 \<Rightarrow> u16 \<Rightarrow> bytes" where
  "tcp_pseudo src dst len =
     st32 (bswap32 src) @ st32 (bswap32 dst) @ [0, IP_PROTO_TCP] @ st16 (bswap16 len)"

definition tcp_header :: "tcp_conn_t \<Rightarrow> u8 \<Rightarrow> u16 \<Rightarrow> bytes" where
  "tcp_header c flags cksum =
     st16 (bswap16 (local_port c)) @ st16 (bswap16 (remote_port c)) @
     st32 (bswap32 (seq_num c)) @ st32 (bswap32 (ack_num c)) @
     [push_bit 4 (word_of_nat TCP_HLEN_WORDS), flags] @ st16 (bswap16 TCP_DEFAULT_WINDOW) @
     st16 cksum @ st16 0"

definition tcp_segment :: "tcp_conn_t \<Rightarrow> u8 \<Rightarrow> bytes \<Rightarrow> bytes" where
  "tcp_segment c flags payload =
     (let seg_len = word_of_nat (TCP_HLEN + length payload);
          pseudo = tcp_pseudo (local_ip c) (remote_ip c) seg_len;
          cksum = tcp_checksum pseudo (tcp_header c flags 0 @ payload)
      in tcp_header c flags cksum @ payload)"

definition tcp_send_segment :: "resolver \<Rightarrow> u8 \<Rightarrow> bytes \<Rightarrow> net \<Rightarrow> (int \<times> net) option" where
  "tcp_send_segment resolve flags payload s =
     (if length payload > TCP_MSS then Some (- 1, s)
      else do { s1 \<leftarrow> ip_send resolve (remote_ip (g_tcp_conn s)) IP_PROTO_TCP
                        (tcp_segment (g_tcp_conn s) flags payload) s;
                Some (0, s1) })"

text \<open>Sending a bare acknowledgement, the result ignored.\<close>

definition tcp_ack :: "resolver \<Rightarrow> net \<Rightarrow> net option" where
  "tcp_ack resolve s = map_option snd (tcp_send_segment resolve TCP_ACK [] s)"

section \<open>TCP: the state machine\<close>

definition flag_set :: "u8 \<Rightarrow> u8 \<Rightarrow> bool" where "flag_set flags f \<longleftrightarrow> flags AND f \<noteq> 0"

definition tcp_on_syn_sent :: "resolver \<Rightarrow> u8 \<Rightarrow> u32 \<Rightarrow> u32 \<Rightarrow> net \<Rightarrow> net option" where
  "tcp_on_syn_sent resolve flags sq ak s =
     (if flags AND TCP_SYN_ACK = TCP_SYN_ACK
      then
        (if ak \<noteq> seq_num (g_tcp_conn s) + 1 then Some s
         else do { s1 \<leftarrow> tcp_ack resolve (upd_conn (\<lambda>c. c\<lparr>ack_num := sq + 1, seq_num := ak\<rparr>) s);
                   Some (upd_conn (\<lambda>c. c\<lparr>cstate := TCP_ESTABLISHED, connected := True,
                                         waiting_for_ack := False\<rparr>) s1) })
      else if flag_set flags TCP_RST
      then Some (upd_conn (\<lambda>c. c\<lparr>cstate := TCP_CLOSED, connected := False, waiting_for_ack := False\<rparr>) s)
      else Some s)"

definition tcp_note_ack :: "u8 \<Rightarrow> u32 \<Rightarrow> net \<Rightarrow> net" where
  "tcp_note_ack flags ak s =
     (if flag_set flags TCP_ACK \<and> ak \<ge> ack_num (g_tcp_conn s)
      then upd_conn (\<lambda>c. c\<lparr>ack_num := ak\<rparr>) s else s)"

text \<open>
  The payload of a segment in \<open>TCP_ESTABLISHED\<close>: \<open>True\<close> when the code goes on to look at the FIN
  flag, \<open>False\<close> for its three early breaks.
\<close>

definition tcp_on_payload :: "resolver \<Rightarrow> u32 \<Rightarrow> bytes \<Rightarrow> net \<Rightarrow> (bool \<times> net) option" where
  "tcp_on_payload resolve sq payload s =
     (if payload = [] then Some (True, s)
      else if sq \<noteq> ack_num (g_tcp_conn s) \<or> length payload > TCP_RECV_BUF_SIZE \<or> recv_len (g_tcp_conn s) \<noteq> 0
      then do { s1 \<leftarrow> tcp_ack resolve s; Some (False, s1) }
      else do { s1 \<leftarrow> tcp_ack resolve
                  (upd_conn (\<lambda>c. c\<lparr>recv_buf := payload @ drop (length payload) (recv_buf c),
                                   recv_len := word_of_nat (length payload),
                                   ack_num := sq + word_of_nat (length payload)\<rparr>) s);
                Some (True, s1) })"

definition tcp_on_fin :: "resolver \<Rightarrow> u8 \<Rightarrow> u32 \<Rightarrow> net \<Rightarrow> net option" where
  "tcp_on_fin resolve flags sq s =
     (if \<not> flag_set flags TCP_FIN then Some s
      else if sq \<noteq> ack_num (g_tcp_conn s) then tcp_ack resolve s
      else do { s1 \<leftarrow> tcp_ack resolve (upd_conn (\<lambda>c. c\<lparr>ack_num := sq + 1\<rparr>) s);
                Some (upd_conn (\<lambda>c. c\<lparr>cstate := TCP_TIME_WAIT\<rparr>) s1) })"

definition tcp_on_established :: "resolver \<Rightarrow> u8 \<Rightarrow> u32 \<Rightarrow> u32 \<Rightarrow> bytes \<Rightarrow> net \<Rightarrow> net option" where
  "tcp_on_established resolve flags sq ak payload s =
     (if flag_set flags TCP_RST
      then Some (upd_conn (\<lambda>c. c\<lparr>cstate := TCP_CLOSED, connected := False\<rparr>) s)
      else do { (go, s1) \<leftarrow> tcp_on_payload resolve sq payload (tcp_note_ack flags ak s);
                if go then tcp_on_fin resolve flags sq s1 else Some s1 })"

definition tcp_on_fin_wait :: "resolver \<Rightarrow> u8 \<Rightarrow> u32 \<Rightarrow> u32 \<Rightarrow> net \<Rightarrow> net option" where
  "tcp_on_fin_wait resolve flags sq ak s0 =
     (let s = tcp_note_ack flags ak s0 in
      if flag_set flags TCP_FIN
      then do { s1 \<leftarrow> tcp_ack resolve (upd_conn (\<lambda>c. c\<lparr>ack_num := sq + 1\<rparr>) s);
                Some (upd_conn (\<lambda>c. c\<lparr>cstate := TCP_TIME_WAIT\<rparr>) s1) }
      else if flag_set flags TCP_ACK \<and> ak \<ge> seq_num (g_tcp_conn s)
      then Some (upd_conn (\<lambda>c. c\<lparr>cstate := TCP_TIME_WAIT\<rparr>) s)
      else Some s)"

definition tcp_handle_packet :: "resolver \<Rightarrow> bytes \<Rightarrow> u32 \<Rightarrow> net \<Rightarrow> net option" where
  "tcp_handle_packet resolve d src_ip s =
     (if length d < TCP_HLEN then Some s
      else
        (let c = g_tcp_conn s in
         if src_ip \<noteq> remote_ip c \<or> bswap16 (ld16 d 0) \<noteq> remote_port c \<or> bswap16 (ld16 d 2) \<noteq> local_port c
         then Some s
         else
           (let hdr_words = unat (drop_bit 4 (d ! 12) AND 0x0F); hdr_len = hdr_words * 4 in
            if hdr_words < TCP_HLEN_WORDS then Some s
            else if hdr_len > length d then Some s
            else if tcp_checksum (tcp_pseudo src_ip (local_ip c) (word_of_nat (length d))) d \<noteq> 0 then Some s
            else
              (let flags = d ! 13; sq = bswap32 (ld32 d 4); ak = bswap32 (ld32 d 8);
                   payload = drop hdr_len d in
               case cstate c of
                 TCP_SYN_SENT \<Rightarrow> tcp_on_syn_sent resolve flags sq ak s
               | TCP_ESTABLISHED \<Rightarrow> tcp_on_established resolve flags sq ak payload s
               | TCP_FIN_WAIT_1 \<Rightarrow> tcp_on_fin_wait resolve flags sq ak s
               | TCP_TIME_WAIT \<Rightarrow> Some (upd_conn (\<lambda>c. c\<lparr>cstate := TCP_CLOSED, connected := False\<rparr>) s)
               | TCP_CLOSED \<Rightarrow> Some s))))"

section \<open>Receiving\<close>

definition ip_handle_packet :: "resolver \<Rightarrow> bytes \<Rightarrow> net \<Rightarrow> net option" where
  "ip_handle_packet resolve d s =
     (if length d < IP_HLEN then Some s
      else
        (let version = drop_bit 4 (d ! 0); ihl_words = unat (d ! 0 AND 0x0F) in
         if version \<noteq> 4 \<or> ihl_words < 5 then Some s
         else
           (let header_len = ihl_words * 4 in
            if header_len > length d then Some s
            else
              (let total_len = unat (bswap16 (ld16 d 2)) in
               if total_len < header_len \<or> total_len > length d then Some s
               else if ip_checksum (words_le (take header_len d)) \<noteq> 0 then Some s
               else
                 (let flags_frag = bswap16 (ld16 d 6) in
                  if flags_frag AND 0x2000 \<noteq> 0 \<or> flags_frag AND 0x1FFF \<noteq> 0 then Some s
                  else if d ! 9 = IP_PROTO_TCP
                  then tcp_handle_packet resolve (take (total_len - header_len) (drop header_len d))
                         (bswap32 (ld32 d 12)) s
                  else Some s)))))"

definition eth_dispatch :: "resolver \<Rightarrow> bytes \<Rightarrow> net \<Rightarrow> net option" where
  "eth_dispatch resolve frame s =
     (if length frame < ETH_HLEN then Some s
      else
        (let type = bswap16 (ld16 frame 12); payload = drop ETH_HLEN frame in
         if type = ETH_TYPE_ARP then Some (arp_handle_packet payload s)
         else if type = ETH_TYPE_IP then ip_handle_packet resolve payload s
         else Some s))"

definition net_poll_once :: "resolver \<Rightarrow> net \<Rightarrow> net option" where
  "net_poll_once resolve s =
     (if \<not> nic_up s then Some s
      else (let (frame, s1) = rtl8139_poll s in
            if frame \<noteq> [] then eth_dispatch resolve frame s1 else Some s1))"

section \<open>Resolving an address\<close>

text \<open>
  The loop that ARP and the blocking TCP calls wait in: poll the card and test the state until the
  test gives a result or the time is up.
\<close>

partial_function (option) poll_until ::
  "(net \<Rightarrow> net option) \<Rightarrow> (net \<Rightarrow> 'r option \<times> net) \<Rightarrow> u32 \<Rightarrow> u32 \<Rightarrow> net \<Rightarrow> ('r option \<times> net) option" where
  "poll_until poll check start limit s =
     (let (t, s1) = timer_ticks s in
      if t - start < limit
      then do { s2 \<leftarrow> poll s1;
                case check s2 of
                  (Some r, s3) \<Rightarrow> Some (Some r, s3)
                | (None, s3) \<Rightarrow> poll_until poll check start limit s3 }
      else Some (None, s1))"

definition arp_request :: "u32 \<Rightarrow> net \<Rightarrow> bytes" where
  "arp_request ip s = arp_packet (bswap16 1) (bswap16 0x0800) (bswap16 1) (g_our_mac s)
     (arp_fill_ip OUR_IP_ADDR) (replicate 6 0) (arp_fill_ip ip)"

fun arp_try :: "(net \<Rightarrow> net option) \<Rightarrow> u32 \<Rightarrow> bytes \<Rightarrow> nat \<Rightarrow> net \<Rightarrow> (bytes option \<times> net) option" where
  "arp_try poll ip arp 0 s = Some (None, s)"
| "arp_try poll ip arp (Suc n) s =
     (let s1 = eth_send g_eth_broadcast ETH_TYPE_ARP arp s;
          (start, s2) = timer_ticks s1
      in do { (r, s3) \<leftarrow> poll_until poll (arp_cache_lookup ip) start ((ARP_TIMEOUT_MS + 9) div 10) s2;
              if r \<noteq> None then Some (r, s3) else arp_try poll ip arp n s3 })"

fun arp_resolve :: "nat \<Rightarrow> resolver" where
  "arp_resolve 0 ip s = None"
| "arp_resolve (Suc d) ip s =
     (let (r, s1) = arp_cache_lookup ip s in
      if r \<noteq> None then Some (r, s1)
      else arp_try (net_poll_once (arp_resolve d)) ip (arp_request ip s1) ARP_RETRIES s1)"

section \<open>TCP: the blocking calls\<close>

text \<open>The answer to a SYN: the result of \<open>tcp_connect\<close>, or \<open>None\<close> to go on waiting.\<close>

definition syn_check :: "net \<Rightarrow> int option \<times> net" where
  "syn_check s =
     (if cstate (g_tcp_conn s) = TCP_ESTABLISHED
      then (Some 0, upd_conn (\<lambda>c. c\<lparr>connected := True, waiting_for_ack := False\<rparr>) s)
      else if cstate (g_tcp_conn s) = TCP_CLOSED
      then (Some (- 1), upd_conn (\<lambda>c. c\<lparr>waiting_for_ack := False\<rparr>) s)
      else (None, s))"

definition tcp_connect_failed :: "net \<Rightarrow> (int \<times> net) option" where
  "tcp_connect_failed s =
     Some (- 1, upd_conn (\<lambda>c. c\<lparr>cstate := TCP_CLOSED, waiting_for_ack := False\<rparr>) s)"

partial_function (option) tcp_connect_loop :: "resolver \<Rightarrow> u32 \<Rightarrow> net \<Rightarrow> (int \<times> net) option" where
  "tcp_connect_loop resolve syn_seq s =
     (if cstate (g_tcp_conn s) = TCP_SYN_SENT \<and> unat (retries (g_tcp_conn s)) < TCP_MAX_RETRIES
      then do { (e, s1) \<leftarrow> tcp_send_segment resolve TCP_SYN [] (upd_conn (\<lambda>c. c\<lparr>seq_num := syn_seq\<rparr>) s);
                if e \<noteq> 0 then tcp_connect_failed s1
                else (let (start, s2) = timer_ticks s1 in
                      do { (r, s3) \<leftarrow> poll_until (net_poll_once resolve) syn_check start TCP_RTO_TICKS s2;
                           case r of
                             Some v \<Rightarrow> Some (v, s3)
                           | None \<Rightarrow> tcp_connect_loop resolve syn_seq
                               (upd_conn (\<lambda>c. c\<lparr>retries := retries c + 1\<rparr>) s3) }) }
      else tcp_connect_failed s)"

definition tcp_connect :: "resolver \<Rightarrow> u32 \<Rightarrow> u16 \<Rightarrow> net \<Rightarrow> (int \<times> net) option" where
  "tcp_connect resolve rip rport s =
     (if cstate (g_tcp_conn s) \<noteq> TCP_CLOSED then Some (- 1, s)
      else
        (let s1 = upd_conn (\<lambda>c. c\<lparr>local_ip := OUR_IP_ADDR, remote_ip := rip, local_port := 12345,
                    remote_port := rport, cstate := TCP_SYN_SENT, retries := 0,
                    waiting_for_ack := True, ack_received := False\<rparr>) s
         in tcp_connect_loop resolve (seq_num (g_tcp_conn s1)) s1))"

datatype tcp_wait = Acked | Lost

definition ack_check :: "u32 \<Rightarrow> net \<Rightarrow> tcp_wait option \<times> net" where
  "ack_check expected s =
     (if cstate (g_tcp_conn s) \<noteq> TCP_ESTABLISHED then (Some Lost, s)
      else if ack_num (g_tcp_conn s) \<ge> expected then (Some Acked, s)
      else (None, s))"

text \<open>Sending one chunk, at most \<open>n\<close> times; \<open>None\<close> when no attempt was answered.\<close>

fun tcp_send_chunk :: "resolver \<Rightarrow> u32 \<Rightarrow> bytes \<Rightarrow> nat \<Rightarrow> net \<Rightarrow> (tcp_wait option \<times> net) option" where
  "tcp_send_chunk resolve segment_seq chunk 0 s = Some (None, s)"
| "tcp_send_chunk resolve segment_seq chunk (Suc n) s =
     do { (e, s1) \<leftarrow> tcp_send_segment resolve (TCP_PSH OR TCP_ACK) chunk
                       (upd_conn (\<lambda>c. c\<lparr>seq_num := segment_seq\<rparr>) s);
          if e \<noteq> 0 then Some (Some Lost, s1)
          else (let (start, s2) = timer_ticks s1 in
                do { (r, s3) \<leftarrow> poll_until (net_poll_once resolve)
                                  (ack_check (segment_seq + word_of_nat (length chunk)))
                                  start TCP_RTO_TICKS s2;
                     case r of
                       Some _ \<Rightarrow> Some (r, s3)
                     | None \<Rightarrow> tcp_send_chunk resolve segment_seq chunk n s3 }) }"

function tcp_send_loop :: "resolver \<Rightarrow> bytes \<Rightarrow> net \<Rightarrow> (bool \<times> net) option" where
  "tcp_send_loop resolve data s =
     (if data = [] then Some (True, s)
      else
        (let chunk = take TCP_MSS data; segment_seq = seq_num (g_tcp_conn s) in
         do { (r, s1) \<leftarrow> tcp_send_chunk resolve segment_seq chunk TCP_MAX_RETRIES s;
              if r = Some Acked
              then tcp_send_loop resolve (drop TCP_MSS data)
                     (upd_conn (\<lambda>c. c\<lparr>seq_num := segment_seq + word_of_nat (length chunk)\<rparr>) s1)
              else Some (False, s1) }))"
  by pat_completeness auto
termination by (relation "measure (\<lambda>(_, d, _). length d)") (auto simp: TCP_MSS_def)

definition tcp_send :: "resolver \<Rightarrow> bytes \<Rightarrow> net \<Rightarrow> (int \<times> net) option" where
  "tcp_send resolve data s =
     (if cstate (g_tcp_conn s) \<noteq> TCP_ESTABLISHED then Some (- 1, s)
      else do { (ok, s1) \<leftarrow> tcp_send_loop resolve data s;
                Some (if ok then int (length data) else - 1, s1) })"

text \<open>Waiting for data: \<open>Some v\<close> when \<open>tcp_recv\<close> returns \<open>v\<close> without copying.\<close>

partial_function (option) tcp_recv_wait ::
  "(net \<Rightarrow> net option) \<Rightarrow> u32 \<Rightarrow> net \<Rightarrow> (int option \<times> net) option" where
  "tcp_recv_wait poll start s =
     (if recv_len (g_tcp_conn s) \<noteq> 0 then Some (None, s)
      else do { s1 \<leftarrow> poll s;
                if cstate (g_tcp_conn s1) \<noteq> TCP_ESTABLISHED \<and> cstate (g_tcp_conn s1) \<noteq> TCP_FIN_WAIT_1
                then Some (if recv_len (g_tcp_conn s1) = 0 then Some (- 1) else None, s1)
                else (let (t, s2) = timer_ticks s1 in
                      if t - start > 200 then Some (Some 0, s2) else tcp_recv_wait poll start s2) })"

text \<open>Taking the bytes out of the receive buffer; the rest moves to its front.\<close>

definition tcp_take :: "nat \<Rightarrow> tcp_conn_t \<Rightarrow> bytes \<times> tcp_conn_t" where
  "tcp_take len c =
     (let n = min (unat (recv_len c)) len; rest = unat (recv_len c) - n in
      (take n (recv_buf c),
       if rest > 0
       then c\<lparr>recv_buf := take rest (drop n (recv_buf c)) @ drop rest (recv_buf c),
              recv_len := word_of_nat rest\<rparr>
       else c\<lparr>recv_len := 0\<rparr>))"

definition tcp_recv :: "resolver \<Rightarrow> nat \<Rightarrow> net \<Rightarrow> (int \<times> bytes \<times> net) option" where
  "tcp_recv resolve len s =
     (if len = 0 then Some (0, [], s)
      else
        (let (start, s1) = timer_ticks s in
         do { (r, s2) \<leftarrow> tcp_recv_wait (net_poll_once resolve) start s1;
              case r of
                Some v \<Rightarrow> Some (v, [], s2)
              | None \<Rightarrow> (let (bs, c) = tcp_take len (g_tcp_conn s2)
                        in Some (int (length bs), bs, s2\<lparr>g_tcp_conn := c\<rparr>)) }))"

definition close_check :: "net \<Rightarrow> unit option \<times> net" where
  "close_check s =
     (if cstate (g_tcp_conn s) = TCP_TIME_WAIT \<or> cstate (g_tcp_conn s) = TCP_CLOSED
      then (Some (), s) else (None, s))"

definition tcp_close :: "resolver \<Rightarrow> net \<Rightarrow> net option" where
  "tcp_close resolve s =
     (if cstate (g_tcp_conn s) \<noteq> TCP_ESTABLISHED then Some s
      else
        (let fin_seq = seq_num (g_tcp_conn s) in
         do { (e, s1) \<leftarrow> tcp_send_segment resolve (TCP_FIN OR TCP_ACK) []
                           (upd_conn (\<lambda>c. c\<lparr>cstate := TCP_FIN_WAIT_1\<rparr>) s);
              if e \<noteq> 0 then Some (upd_conn (\<lambda>c. c\<lparr>cstate := TCP_CLOSED, connected := False\<rparr>) s1)
              else (let s2 = upd_conn (\<lambda>c. c\<lparr>seq_num := fin_seq + 1\<rparr>) s1; (start, s3) = timer_ticks s2 in
                    do { (_, s4) \<leftarrow> poll_until (net_poll_once resolve) close_check start TCP_RTO_TICKS s3;
                         Some (upd_conn (\<lambda>c. c\<lparr>cstate := TCP_CLOSED, connected := False,
                                               waiting_for_ack := False\<rparr>) s4) }) }))"

end
