(* ===== verification/Net_Checksum.thy ===== *)
theory Net_Checksum
  imports Net
begin

text \<open>
  The Internet checksum of the IPv4 and TCP layers: folding keeps the sum modulo 65535, so a
  header that carries the checksum computed by the sender is accepted by the receiver, and an
  IPv4 packet built by \<open>ip_send\<close> is delivered by \<open>ip_handle_packet\<close> with its exact payload.
\<close>

section \<open>Folding\<close>

lemma bswap16_0 [simp]: "bswap16 0 = 0"
  by (simp add: bswap16_def)

declare fold16.simps [simp del]

lemma unat_low16: "unat (w AND 0xFFFF :: u32) = unat w mod 65536"
proof -
  have "w AND 0xFFFF = take_bit 16 w" by (simp add: take_bit_eq_mask mask_eq_decr_exp)
  then show ?thesis by (simp add: take_bit_eq_mod unat_mod_distrib)
qed

lemma unat_high16: "unat (drop_bit 16 w :: u32) = unat w div 65536"
  by (simp add: drop_bit_eq_div unat_div)

lemma unat_fold_step: "unat ((w AND 0xFFFF) + drop_bit 16 w :: u32) = unat w mod 65536 + unat w div 65536"
proof -
  have "unat w < 2 ^ 32" using unsigned_less [of w] by simp
  then have "unat w mod 65536 + unat w div 65536 < 2 ^ 32" by (simp add: div_less_iff_less_mult)
  then show ?thesis by (subst unat_add_nowrap) (simp_all add: unat_low16 unat_high16)
qed

lemma fold_step_mod: "(n mod 65536 + n div 65536) mod 65535 = n mod (65535 :: nat)"
proof -
  have "n = n div 65536 * 65535 + (n mod 65536 + n div 65536)"
    using div_mult_mod_eq [of n 65536] by linarith
  then show ?thesis by (metis mod_mult_self3)
qed

lemma fold16_spec:
  "unat (fold16 w) < 65536 \<and> unat (fold16 w) mod 65535 = unat w mod 65535 \<and> (fold16 w = 0) = (w = 0)"
proof (induction w rule: fold16.induct)
  case (1 w)
  show ?case
  proof (cases "drop_bit 16 w = 0")
    case True
    then have "unat w div 65536 = 0" using unat_high16 [of w] by simp
    then show ?thesis using True by (subst (1 2 3) fold16.simps) (simp add: div_eq_0_iff)
  next
    case False
    then have "w \<noteq> 0" by auto
    moreover have "unat w div 65536 \<noteq> 0" using False unat_high16 [of w] by (metis unat_eq_zero)
    then have "(w AND 0xFFFF) + drop_bit 16 w \<noteq> 0"
      using unat_fold_step [of w] by (metis add_is_0 unat_0)
    ultimately show ?thesis
      using 1 [OF False] False fold_step_mod unat_fold_step [of w]
      by (subst (1 2 3) fold16.simps) simp
  qed
qed

lemma unat_complement16: "unat (ucast (NOT w AND 0xFFFF :: u32) :: u16) = 65535 - unat w mod 65536"
proof -
  have "NOT w AND 0xFFFF = 0xFFFF - (w AND (0xFFFF :: u32))"
    using word_and_not_minus [of "0xFFFF :: u32" w] by (simp add: and.commute)
  then have u: "unat (NOT w AND 0xFFFF :: u32) = 65535 - unat w mod 65536"
    using unat_sub_nowrap [of "w AND 0xFFFF" "0xFFFF :: u32"] unat_low16 [of w] by simp
  have "unat (ucast (NOT w AND 0xFFFF :: u32) :: u16) = unat (NOT w AND 0xFFFF :: u32) mod 65536"
    by (simp add: unsigned_ucast_eq take_bit_eq_mod)
  then show ?thesis using u by simp
qed

text \<open>Adding the complement of the folded sum to the sum makes the folded sum all ones.\<close>

lemma fold16_complement:
  assumes "unat t = unat w + (65535 - unat (fold16 w))"
  shows "(ucast (NOT (fold16 t) AND 0xFFFF :: u32) :: u16) = 0"
proof -
  let ?f = "unat (fold16 w)"
  have f: "?f < 65536" "?f mod 65535 = unat w mod 65535" "(fold16 w = 0) = (w = 0)"
    using fold16_spec [of w] by auto
  have "unat t mod 65535 = 0"
  proof -
    have "(unat w + (65535 - ?f)) mod 65535 = (unat w mod 65535 + (65535 - ?f)) mod 65535"
      by (simp add: mod_add_left_eq)
    also have "\<dots> = (?f mod 65535 + (65535 - ?f)) mod 65535" by (simp add: f)
    also have "\<dots> = (?f + (65535 - ?f)) mod 65535" by (rule mod_add_left_eq)
    also have "\<dots> = 0" using f(1) by simp
    finally show ?thesis using assms by simp
  qed
  moreover have "t \<noteq> 0"
    using assms f(3) by (cases "w = 0") (auto simp: unat_eq_zero [symmetric] simp del: unat_eq_zero)
  ultimately have "unat (fold16 t) mod 65535 = 0" "fold16 t \<noteq> 0" "unat (fold16 t) < 65536"
    using fold16_spec [of t] by auto
  moreover have "n = 65535" if "n mod 65535 = 0" "n \<noteq> 0" "n < 65536" for n :: nat
    using that by (auto elim!: dvdE simp: mod_eq_0_iff_dvd)
  ultimately have "unat (fold16 t) = 65535" by (metis unat_eq_zero)
  then have "unat (ucast (NOT (fold16 t) AND 0xFFFF :: u32) :: u16) = 0"
    by (simp add: unat_complement16)
  then show ?thesis by (simp only: unat_eq_zero)
qed

section \<open>The sum as a natural number\<close>

fun nsum :: "bytes \<Rightarrow> nat" where
  "nsum (a # b # bs) = unat a * 256 + unat b + nsum bs"
| "nsum [a] = unat a * 256"
| "nsum [] = 0"

lemma nsum_append: "even (length xs) \<Longrightarrow> nsum (xs @ ys) = nsum xs + nsum ys"
  by (induction xs rule: nsum.induct) auto

lemma nsum_bound: "nsum bs \<le> 65535 * ((length bs + 1) div 2)"
proof (induction bs rule: nsum.induct)
  case (1 a b bs)
  have "unat a < 256" "unat b < 256" using unsigned_less [of a] unsigned_less [of b] by simp_all
  then show ?case using 1 by simp
next
  case (2 a)
  have "unat a < 256" using unsigned_less [of a] by simp
  then show ?case by simp
qed simp

lemma unat_be16: "unat (push_bit 8 (ucast (a :: u8)) OR ucast (b :: u8) :: u32) = unat a * 256 + unat b"
proof -
  have a: "unat a < 256" and b: "unat b < 256"
    using unsigned_less [of a] unsigned_less [of b] by simp_all
  have ua: "unat (ucast a :: u32) = unat a" and ub: "unat (ucast b :: u32) = unat b"
    using a b by (simp_all add: unsigned_ucast_eq take_bit_nat_eq_self)
  have "push_bit 8 (ucast a) OR ucast b = push_bit 8 (ucast a) + (ucast b :: u32)"
    by (rule disjunctive_add [symmetric]) (auto simp: bit_simps dest: bit_imp_le_length)
  moreover have "unat (push_bit 8 (ucast a) :: u32) = unat a * 256"
    using a ua unat_mult_nowrap [of "ucast a :: u32" 256] by (simp add: push_bit_eq_mult)
  ultimately show ?thesis using a b ub by (simp add: unat_add_nowrap)
qed

lemma sum_be_nsum: "unat acc + nsum bs < 2 ^ 32 \<Longrightarrow> unat (sum_be acc bs) = unat acc + nsum bs"
proof (induction acc bs rule: sum_be.induct)
  case (1 acc a b bs)
  have "unat (acc + (push_bit 8 (ucast a) OR ucast b)) = unat acc + (unat a * 256 + unat b)"
    using 1 by (subst unat_add_nowrap) (simp_all add: unat_be16)
  then show ?case using 1 by simp
next
  case (2 acc a)
  have "push_bit 8 (ucast a :: u32) = push_bit 8 (ucast a) OR ucast (0 :: u8)" by simp
  then have "unat (push_bit 8 (ucast a :: u32)) = unat a * 256" using unat_be16 [of a 0] by simp
  then show ?case using 2 by (simp add: unat_add_nowrap)
qed simp

lemma length_st [simp]: "length (st16 w) = 2" "length (st32 v) = 4"
  by (simp_all add: st16_def st32_def)

lemma nsum_st16 [simp]: "nsum (st16 (bswap16 v)) = unat v"
proof -
  have v: "unat v < 65536" using unsigned_less [of v] by simp
  have "(ucast (bswap16 v) :: u8) = ucast (drop_bit 8 v)" "(ucast (drop_bit 8 (bswap16 v)) :: u8) = ucast v"
    by (rule bit_word_eqI, auto simp: bswap16_def bit_simps)+
  moreover have "unat (ucast (drop_bit 8 v) :: u8) = unat v div 256"
    using v by (simp add: unsigned_ucast_eq drop_bit_eq_div unat_div take_bit_eq_mod div_less_iff_less_mult)
  moreover have "unat (ucast v :: u8) = unat v mod 256"
    by (simp add: unsigned_ucast_eq take_bit_eq_mod)
  ultimately show ?thesis by (simp add: st16_def)
qed


section \<open>TCP segments\<close>

lemma length_tcp_header [simp]: "length (tcp_header c f k) = 20"
  by (simp add: tcp_header_def)

lemma nsum_tcp_header:
  "nsum (tcp_header c f (bswap16 v) @ payload) = nsum (tcp_header c f 0 @ payload) + unat v"
proof -
  have "nsum (st16 0) = 0" by (simp add: st16_def)
  then show ?thesis by (simp add: tcp_header_def nsum_append [of "st16 _"] nsum_append [of "st32 _"])
qed

lemma tcp_checksum_verifies:
  assumes small: "length payload \<le> 65000"
    and seg: "seg = tcp_header c f (tcp_checksum pseudo (tcp_header c f 0 @ payload)) @ payload"
    and len: "length pseudo = 12"
  shows "tcp_checksum pseudo seg = 0"
proof -
  define w where "w = sum_be (sum_be 0 pseudo) (tcp_header c f 0 @ payload)"
  define v :: u16 where "v = ucast (NOT (fold16 w) AND 0xFFFF)"
  have np: "nsum pseudo \<le> 65535 * 6" using nsum_bound [of pseudo] len by simp
  have nh: "nsum (tcp_header c f 0 @ payload) \<le> 65535 * 32511"
    using nsum_bound [of "tcp_header c f 0 @ payload"] small by simp
  have v: "unat v = 65535 - unat (fold16 w)"
    using fold16_spec [of w] by (simp add: v_def unat_complement16)
  have p: "unat (sum_be 0 pseudo) = nsum pseudo"
    using np by (subst sum_be_nsum) simp_all
  have w: "unat w = nsum pseudo + nsum (tcp_header c f 0 @ payload)"
    unfolding w_def using np nh p by (subst sum_be_nsum) simp_all
  have s: "seg = tcp_header c f (bswap16 v) @ payload"
    by (simp add: seg tcp_checksum_def v_def w_def)
  have "unat (sum_be (sum_be 0 pseudo) seg) = nsum pseudo + nsum seg"
    using np nh p v by (subst sum_be_nsum) (simp_all add: s nsum_tcp_header)
  then have "unat (sum_be (sum_be 0 pseudo) seg) = unat w + (65535 - unat (fold16 w))"
    using w v by (simp add: s nsum_tcp_header)
  then show ?thesis
    using fold16_complement [of "sum_be (sum_be 0 pseudo) seg" w] by (simp add: tcp_checksum_def bswap16_def)
qed

text \<open>
  Every segment that \<open>tcp_send_segment\<close> builds passes the checksum test of a
  receiver that computes it over the same pseudo-header, whatever the payload, of even or odd
  length.
\<close>

theorem tcp_segment_checksum_ok:
  assumes "length payload \<le> TCP_MSS"
  shows "tcp_checksum (tcp_pseudo (local_ip c) (remote_ip c)
           (word_of_nat (length (tcp_segment c flags payload)))) (tcp_segment c flags payload) = 0"
proof -
  have "length (tcp_segment c flags payload) = 20 + length payload"
    by (simp add: tcp_segment_def Let_def)
  moreover have "length (tcp_pseudo a b l) = 12" for a b l by (simp add: tcp_pseudo_def)
  ultimately show ?thesis
    using assms by (intro tcp_checksum_verifies [where payload = payload and c = c and f = flags])
      (simp_all add: tcp_segment_def Let_def tcp_consts)
qed

theorem tcp_segment_checksum_ok_witness:
  "tcp_checksum (tcp_pseudo 1 2 23)
     (tcp_segment \<lparr>cstate = TCP_ESTABLISHED, local_ip = 1, remote_ip = 2, local_port = 3, remote_port = 4,
        seq_num = 5, ack_num = 6, recv_buf = [], recv_len = 0, rto_start_tick = 0, retries = 0,
        connected = True, waiting_for_ack = False, ack_received = False\<rparr> TCP_ACK [1, 2, 3]) = 0"
  using tcp_segment_checksum_ok [of "[1, 2, 3]" "\<lparr>cstate = TCP_ESTABLISHED, local_ip = 1, remote_ip = 2,
    local_port = 3, remote_port = 4, seq_num = 5, ack_num = 6, recv_buf = [], recv_len = 0,
    rto_start_tick = 0, retries = 0, connected = True, waiting_for_ack = False, ack_received = False\<rparr>" TCP_ACK]
  by (simp add: tcp_consts tcp_segment_def Let_def)

section \<open>IPv4 packets\<close>

lemma be_of_le:
  "(ucast (bswap16 (ucast (a :: u8) OR push_bit 8 (ucast (b :: u8)))) :: u32) = push_bit 8 (ucast a) OR ucast b"
  by (rule bit_word_eqI) (auto simp: bswap16_def bit_simps dest: bit_imp_le_length)

lemma foldl_words_le:
  "even (length bs) \<Longrightarrow> foldl (\<lambda>acc w. acc + ucast (bswap16 w)) acc (words_le bs) = sum_be acc bs"
  by (induction acc bs rule: sum_be.induct) (simp_all add: be_of_le)

lemma length_ip_header [simp]: "length (ip_header n i pr k d) = 20"
  by (simp add: ip_header_def)

lemma nsum_ip_header:
  "nsum (ip_header n i pr (bswap16 v) d) = nsum (ip_header n i pr 0 d) + unat v"
proof -
  have "nsum (st16 0) = 0" by (simp add: st16_def)
  then show ?thesis by (simp add: ip_header_def nsum_append [of "st16 _"] nsum_append [of "st32 _"])
qed

lemma ip_checksum_verifies:
  "ip_checksum (words_le (ip_header n i pr (ip_checksum (words_le (ip_header n i pr 0 d))) d)) = 0"
proof -
  define w where "w = sum_be 0 (ip_header n i pr 0 d)"
  define v :: u16 where "v = ucast (NOT (fold16 w) AND 0xFFFF)"
  have ck: "ip_checksum (words_le (ip_header n i pr 0 d)) = bswap16 v"
    by (simp add: ip_checksum_def foldl_words_le v_def w_def)
  have b: "nsum (ip_header n i pr k d) \<le> 65535 * 10" for k
    using nsum_bound [of "ip_header n i pr k d"] by simp
  have w: "unat w = nsum (ip_header n i pr 0 d)"
    unfolding w_def using b [of 0] by (subst sum_be_nsum) simp_all
  have v: "unat v = 65535 - unat (fold16 w)"
    using fold16_spec [of w] by (simp add: v_def unat_complement16)
  have "unat (sum_be 0 (ip_header n i pr (bswap16 v) d)) = unat w + (65535 - unat (fold16 w))"
    using b [of "bswap16 v"] w v by (subst sum_be_nsum) (simp_all add: nsum_ip_header)
  then show ?thesis
    using fold16_complement [of "sum_be 0 (ip_header n i pr (bswap16 v) d)" w]
    by (simp add: ck) (simp add: ip_checksum_def foldl_words_le)
qed

text \<open>Byte \<open>i\<close> of a word, and the two conversions in terms of it.\<close>

definition byte_of :: "u32 \<Rightarrow> nat \<Rightarrow> u8" where "byte_of w i = ucast (drop_bit (8 * i) w)"

lemma st32_bswap32: "st32 (bswap32 w) = [byte_of w 3, byte_of w 2, byte_of w 1, byte_of w 0]"
proof -
  have m: "(0xFF :: u32) = mask 8" "(0xFF00 :: u32) = push_bit 8 (mask 8)"
    by (simp_all add: mask_eq_exp_minus_1)
  have "(ucast (bswap32 w) :: u8) = byte_of w 3" "(ucast (drop_bit 8 (bswap32 w)) :: u8) = byte_of w 2"
    "(ucast (drop_bit 16 (bswap32 w)) :: u8) = byte_of w 1" "(ucast (drop_bit 24 (bswap32 w)) :: u8) = byte_of w 0"
    unfolding bswap32_def m byte_of_def by (rule bit_word_eqI, auto simp: bit_simps)+
  then show ?thesis by (simp add: st32_def)
qed

definition be32 :: "u8 \<Rightarrow> u8 \<Rightarrow> u8 \<Rightarrow> u8 \<Rightarrow> u32" where
  "be32 a b c d = push_bit 24 (ucast a) OR push_bit 16 (ucast b) OR push_bit 8 (ucast c) OR ucast d"

lemma bswap32_ld32: "bswap32 (ld32 bs i) = be32 (bs ! i) (bs ! (i + 1)) (bs ! (i + 2)) (bs ! (i + 3))"
proof -
  have m: "(0xFF :: u32) = mask 8" "(0xFF00 :: u32) = push_bit 8 (mask 8)"
    by (simp_all add: mask_eq_exp_minus_1)
  have *: "push_bit 24 (w AND mask 8) OR push_bit 8 (w AND push_bit 8 (mask 8)) OR
     (drop_bit 8 w AND push_bit 8 (mask 8)) OR drop_bit 24 w = be32 a b c d"
    if w: "w = ucast a OR push_bit 8 (ucast b) OR push_bit 16 (ucast c) OR push_bit 24 (ucast d)" for w a b c d
  proof -
    have 1: "push_bit 24 (w AND mask 8) = push_bit 24 (ucast a)"
      unfolding w by (rule bit_word_eqI) (auto simp: bit_simps)
    have 2: "push_bit 8 (w AND push_bit 8 (mask 8)) = push_bit 16 (ucast b)"
      unfolding w by (rule bit_word_eqI) (auto simp: bit_simps dest: bit_imp_le_length)
    have 3: "drop_bit 8 w AND push_bit 8 (mask 8) = push_bit 8 (ucast c)"
      unfolding w by (rule bit_word_eqI) (auto simp: bit_simps dest: bit_imp_le_length)
    have 4: "drop_bit 24 w = ucast d"
      unfolding w by (rule bit_word_eqI) (auto simp: bit_simps dest: bit_imp_le_length)
    show ?thesis unfolding 1 2 3 4 be32_def ..
  qed
  show ?thesis unfolding bswap32_def m by (rule *) (simp add: ld32_def)
qed

lemma be32_bytes [simp]: "be32 (byte_of w 3) (byte_of w 2) (byte_of w 1) (byte_of w 0) = w"
proof (rule bit_word_eqI)
  fix n :: nat
  assume "n < LENGTH(32)"
  then consider "n < 8" | "8 \<le> n" "n < 16" | "16 \<le> n" "n < 24" | "24 \<le> n" "n < 32" by fastforce
  then show "bit (be32 (byte_of w 3) (byte_of w 2) (byte_of w 1) (byte_of w 0)) n = bit w n"
    by cases (auto simp: be32_def byte_of_def bit_simps)
qed

lemma ld16_bytes: "bs ! i = ucast w \<Longrightarrow> bs ! Suc i = ucast (drop_bit 8 w) \<Longrightarrow> ld16 bs i = w"
  by (rule bit_word_eqI) (auto simp: ld16_def bit_simps)

lemma ip_packet_received:
  assumes "length payload \<le> ETH_MTU - IP_HLEN"
  shows "ip_handle_packet r (ip_packet ident IP_PROTO_TCP payload dst @ pad) s =
    tcp_handle_packet r payload OUR_IP_ADDR s"
proof -
  define n :: u16 where "n = word_of_nat (20 + length payload)"
  define k where "k = ip_checksum (words_le (ip_header n ident IP_PROTO_TCP 0 dst))"
  define h where "h = ip_header n ident IP_PROTO_TCP k dst"
  define d where "d = h @ payload @ pad"
  have un: "unat n = 20 + length payload"
    using assms by (simp add: n_def unsigned_of_nat take_bit_nat_eq_self eth_consts ip_consts del: of_nat_add)
  have d: "ip_packet ident IP_PROTO_TCP payload dst @ pad = d"
    by (simp add: ip_packet_def Let_def d_def h_def k_def n_def ip_consts)
  have lh: "length h = 20" by (simp add: h_def)
  have ck: "ip_checksum (words_le h) = 0" unfolding h_def k_def by (rule ip_checksum_verifies)
  have nth: "d ! 0 = 0x45" "d ! 9 = IP_PROTO_TCP"
    by (simp_all add: d_def h_def ip_header_def st16_def)
  have tot: "ld16 d 2 = bswap16 n"
    by (rule ld16_bytes) (simp_all add: d_def h_def ip_header_def st16_def)
  have frag: "ld16 d 6 = bswap16 0x4000"
    by (rule ld16_bytes) (simp_all add: d_def h_def ip_header_def st16_def)
  have src: "bswap32 (ld32 d 12) = OUR_IP_ADDR"
    using be32_bytes [of OUR_IP_ADDR]
    by (subst bswap32_ld32) (simp add: d_def h_def ip_header_def st16_def st32_bswap32)
  have "take 20 d = h" "take (length payload) (drop 20 d) = payload" "length d \<ge> 20 + length payload"
    using lh by (simp_all add: d_def)
  then show ?thesis
    unfolding d ip_handle_packet_def using nth tot frag src ck un
    by (simp add: Let_def IP_HLEN_def)
qed

text \<open>
  Property C6. What \<open>ip_send\<close> hands to the network card for a TCP segment is a frame that any
  receiver running this stack delivers: \<open>eth_dispatch\<close> on it, with any padding behind it, passes
  exactly the segment and the sender's address to \<open>tcp_handle_packet\<close>.
\<close>

theorem ip_send_delivered:
  assumes "length payload \<le> ETH_MTU - IP_HLEN"
    and "resolve dst (s\<lparr>g_ip_id := g_ip_id s + 1\<rparr>) = Some (Some m, s2)"
    and "nic_up s2" and "length m = 6" and "length (g_our_mac s2) = 6"
  shows "\<exists>frame. ip_send resolve dst IP_PROTO_TCP payload s = Some (rtl8139_send frame s2) \<and>
    (\<forall>pad r t. eth_dispatch r (frame @ pad) t = tcp_handle_packet r payload OUR_IP_ADDR t)"
proof -
  define p where "p = ip_packet (g_ip_id s) IP_PROTO_TCP payload dst"
  define f where "f = m @ g_our_mac s2 @ st16 (bswap16 ETH_TYPE_IP) @ p"
  have "length p \<le> ETH_MTU" using assms(1)
    by (simp add: p_def ip_packet_def Let_def eth_consts ip_consts)
  then have "ip_send resolve dst IP_PROTO_TCP payload s = Some (rtl8139_send f s2)"
    using assms by (simp add: ip_send_def Let_def p_def [symmetric] eth_send_def f_def)
  moreover have "eth_dispatch r (f @ pad) t = tcp_handle_packet r payload OUR_IP_ADDR t" for pad r t
  proof -
    have "ld16 (f @ pad) 12 = bswap16 ETH_TYPE_IP"
      by (rule ld16_bytes) (simp_all add: f_def nth_append assms(4,5) st16_def)
    moreover have "drop 14 (f @ pad) = p @ pad" "length (f @ pad) \<ge> 14"
      using assms(4,5) by (simp_all add: f_def)
    ultimately show ?thesis
      using ip_packet_received [OF assms(1)]
      by (simp add: eth_dispatch_def ETH_HLEN_def ETH_TYPE_IP_def ETH_TYPE_ARP_def p_def Let_def)
  qed
  ultimately show ?thesis by blast
qed

definition net_boot :: net where
  "net_boot = \<lparr>nic_up = True, nic_rx = [], nic_tx = [], clock = (\<lambda>n. word_of_nat n), clock_reads = 0,
     g_our_mac = [0x52, 0x54, 0, 0x12, 0x34, 0x56],
     g_arp_cache = replicate 8 \<lparr>arp_ip = 0, arp_mac = replicate 6 0, arp_valid = False\<rparr>,
     g_arp_age = replicate 8 0, g_arp_age_counter = 0, g_ip_id = 0,
     g_tcp_conn = \<lparr>cstate = TCP_CLOSED, local_ip = 0, remote_ip = 0, local_port = 0, remote_port = 0,
        seq_num = 1000, ack_num = 0, recv_buf = replicate 2048 0, recv_len = 0, rto_start_tick = 0,
        retries = 0, connected = False, waiting_for_ack = False, ack_received = False\<rparr>\<rparr>"

theorem ip_send_delivered_witness:
  "\<exists>frame. ip_send (\<lambda>ip s. Some (Some [1, 2, 3, 4, 5, 6], s)) 0x0A000202 IP_PROTO_TCP [1, 2, 3] net_boot =
      Some (rtl8139_send frame (net_boot\<lparr>g_ip_id := 1\<rparr>)) \<and>
    (\<forall>pad r t. eth_dispatch r (frame @ pad) t = tcp_handle_packet r [1, 2, 3] OUR_IP_ADDR t)"
proof -
  have i: "g_ip_id net_boot + 1 = 1" by (simp add: net_boot_def)
  show ?thesis
    using ip_send_delivered [of "[1, 2, 3]" "\<lambda>ip s. Some (Some [1, 2, 3, 4, 5, 6], s)" "0x0A000202" net_boot
      "[1, 2, 3, 4, 5, 6]" "net_boot\<lparr>g_ip_id := 1\<rparr>"] i
    by (simp add: net_boot_def eth_consts ip_consts)
qed
end
