(* ===== verification/Net_Arp.thy ===== *)
theory Net_Arp
  imports Net_Checksum
begin

text \<open>
  The ARP cache of \<open>Kernel/net/net_arp.c\<close>: its invariant, what a lookup returns after the cache has
  learned addresses (as the locale \<open>address_cache\<close>, interpreted on the code's functions), the
  choice of the evicted entry, and the answer to a request for our address.
\<close>

section \<open>The interface of an address cache\<close>

text \<open>The last address learned for \<open>ip\<close> in a sequence of pairs.\<close>

fun last_learned :: "u32 \<Rightarrow> (u32 \<times> bytes) list \<Rightarrow> bytes option" where
  "last_learned ip [] = None"
| "last_learned ip ((a, m) # ps) =
     (case last_learned ip ps of Some x \<Rightarrow> Some x | None \<Rightarrow> if a = ip then Some m else None)"

text \<open>
  A cache may forget, but what it returns for an address is what it learned last for it.
\<close>

locale address_cache =
  fixes lookup :: "u32 \<Rightarrow> 's \<Rightarrow> bytes option"
    and add :: "u32 \<Rightarrow> bytes \<Rightarrow> 's \<Rightarrow> 's"
    and inv :: "'s \<Rightarrow> bool"
  assumes add_inv: "inv s \<Longrightarrow> inv (add ip m s)"
    and lookup_add_same: "inv s \<Longrightarrow> lookup ip (add ip m s) = Some m"
    and lookup_add_other: "inv s \<Longrightarrow> ip' \<noteq> ip \<Longrightarrow>
      lookup ip' (add ip m s) = lookup ip' s \<or> lookup ip' (add ip m s) = None"
begin

lemma learn_inv: "inv s \<Longrightarrow> inv (foldl (\<lambda>s (ip, m). add ip m s) s ps)"
  by (induction ps arbitrary: s) (auto intro: add_inv)

theorem lookup_learned:
  assumes "inv s" and "lookup ip (foldl (\<lambda>s (ip, m). add ip m s) s ps) = Some m"
  shows "last_learned ip ps = Some m \<or> (last_learned ip ps = None \<and> lookup ip s = Some m)"
  using assms
proof (induction ps arbitrary: s)
  case Nil
  then show ?case by simp
next
  case (Cons p ps)
  obtain a k where p: "p = (a, k)" by fastforce
  have "inv (add a k s)" using Cons.prems(1) by (rule add_inv)
  moreover have "lookup ip (foldl (\<lambda>s (ip, m). add ip m s) (add a k s) ps) = Some m"
    using Cons.prems(2) by (simp add: p)
  ultimately have "last_learned ip ps = Some m \<or>
      (last_learned ip ps = None \<and> lookup ip (add a k s) = Some m)"
    by (rule Cons.IH)
  then consider "last_learned ip ps = Some m"
    | "last_learned ip ps = None" "lookup ip (add a k s) = Some m" by (elim disjE conjE)
  then show ?case
  proof cases
    case 2
    then show ?thesis
      using lookup_add_same [OF Cons.prems(1)] lookup_add_other [OF Cons.prems(1), of ip a k]
      by (cases "a = ip") (auto simp: p)
  qed (simp add: p)
qed

end

section \<open>The invariant of the cache\<close>

definition arp_ok :: "net \<Rightarrow> bool" where
  "arp_ok s \<longleftrightarrow>
     length (g_arp_cache s) = 8 \<and> length (g_arp_age s) = 8 \<and>
     (\<forall>i < 8. \<forall>j < 8. arp_valid (g_arp_cache s ! i) \<longrightarrow> arp_valid (g_arp_cache s ! j) \<longrightarrow>
        arp_ip (g_arp_cache s ! i) = arp_ip (g_arp_cache s ! j) \<longrightarrow> i = j)"

text \<open>What a lookup returns, leaving out the refreshed age.\<close>

definition arp_lookup :: "u32 \<Rightarrow> net \<Rightarrow> bytes option" where
  "arp_lookup ip s = map_option (\<lambda>i. arp_mac (g_arp_cache s ! i)) (arp_index ip s)"

lemma find_upt_Some:
  "find P [0 ..< n] = Some i \<longleftrightarrow> i < n \<and> P i \<and> (\<forall>j < i. \<not> P j)"
  by (auto simp: find_Some_iff)

lemma find_upt_None: "find P [0 ..< n] = None \<longleftrightarrow> (\<forall>j < n. \<not> P j)"
  by (auto simp: find_None_iff)

lemma arp_lru_less: "arp_lru ages < 8"
proof -
  have "foldl (\<lambda>slot i. if ages ! i < ages ! slot then i else slot) k xs < 8"
    if "k < 8" "\<forall>i \<in> set xs. i < 8" for k xs
    using that by (induction xs arbitrary: k) auto
  then show ?thesis by (simp add: arp_lru_def arp_consts)
qed

lemma arp_lru_least: "i < 8 \<Longrightarrow> ages ! arp_lru ages \<le> ages ! i"
proof -
  have *: "ages ! foldl (\<lambda>slot i. if ages ! i < ages ! slot then i else slot) k xs \<le> ages ! k \<and>
      (\<forall>i \<in> set xs. ages ! foldl (\<lambda>slot i. if ages ! i < ages ! slot then i else slot) k xs \<le> ages ! i)"
    for k xs and ages :: "u32 list"
  proof (induction xs arbitrary: k)
    case Nil
    then show ?case by simp
  next
    case (Cons i xs)
    show ?case
      using Cons [of i] Cons [of k] by (cases "ages ! i < ages ! k") (auto intro: order_trans less_imp_le)
  qed
  assume "i < 8"
  then have "i = 0 \<or> i \<in> set [1 ..< 8]" by auto
  then show ?thesis using * [where k = 0 and xs = "[1 ..< 8]"] by (auto simp: arp_lru_def arp_consts)
qed

lemma arp_slot_less: "arp_slot ip s < 8"
  using arp_lru_less
  by (auto simp: arp_slot_def arp_index_def arp_consts find_upt_Some split: option.splits)

text \<open>In a cache without duplicates the index is characterised by the entry alone.\<close>

lemma arp_index_Some:
  assumes "arp_ok s"
  shows "arp_index ip s = Some i \<longleftrightarrow> i < 8 \<and> arp_valid (g_arp_cache s ! i) \<and> arp_ip (g_arp_cache s ! i) = ip"
  using assms unfolding arp_index_def arp_consts find_upt_Some arp_ok_def
  by (auto dest: less_trans)

lemma arp_index_None:
  "arp_index ip s = None \<longleftrightarrow> (\<forall>i < 8. \<not> (arp_valid (g_arp_cache s ! i) \<and> arp_ip (g_arp_cache s ! i) = ip))"
  by (simp add: arp_index_def arp_consts find_upt_None)

text \<open>The slot chosen for an address is the only one that may hold it.\<close>

lemma arp_slot_only:
  assumes "arp_ok s" and "i < 8" and "arp_valid (g_arp_cache s ! i)" and "arp_ip (g_arp_cache s ! i) = ip"
  shows "arp_slot ip s = i"
  using assms arp_index_Some [OF assms(1), of ip i] by (simp add: arp_slot_def)

lemma arp_cache_add_cache:
  "g_arp_cache (arp_cache_add ip m s) =
     (g_arp_cache s)[arp_slot ip s := \<lparr>arp_ip = ip, arp_mac = m, arp_valid = True\<rparr>]"
  by (simp add: arp_cache_add_def Let_def)

lemma arp_ok_add:
  assumes ok: "arp_ok s"
  shows "arp_ok (arp_cache_add ip m s)"
proof -
  let ?k = "arp_slot ip s"
  have len: "length (g_arp_cache s) = 8" using ok by (simp add: arp_ok_def)
  have only: "i = ?k" if "i < 8" "arp_valid (g_arp_cache s ! i)" "arp_ip (g_arp_cache s ! i) = ip" for i
    using arp_slot_only [OF ok that] by simp
  show ?thesis
    using ok only len arp_slot_less [of ip s]
    unfolding arp_ok_def arp_cache_add_cache
    by (auto simp: nth_list_update arp_cache_add_def Let_def split: if_splits)
qed

lemma arp_lookup_add_same:
  assumes "arp_ok s"
  shows "arp_lookup ip (arp_cache_add ip m s) = Some m"
proof -
  have len: "length (g_arp_cache s) = 8" using assms by (simp add: arp_ok_def)
  have "arp_index ip (arp_cache_add ip m s) = Some (arp_slot ip s)"
    using arp_index_Some [OF arp_ok_add [OF assms, of ip m], of ip "arp_slot ip s"] arp_slot_less [of ip s] len
    by (simp add: arp_cache_add_cache)
  then show ?thesis using len arp_slot_less [of ip s] by (simp add: arp_lookup_def arp_cache_add_cache)
qed

lemma arp_lookup_add_other:
  assumes ok: "arp_ok s" and ne: "ip' \<noteq> ip"
  shows "arp_lookup ip' (arp_cache_add ip m s) =
    (if arp_index ip' s = Some (arp_slot ip s) then None else arp_lookup ip' s)"
proof -
  let ?k = "arp_slot ip s" and ?s = "arp_cache_add ip m s"
  have len: "length (g_arp_cache s) = 8" using ok by (simp add: arp_ok_def)
  have other: "g_arp_cache ?s ! i = g_arp_cache s ! i" if "i \<noteq> ?k" for i
    using that by (simp add: arp_cache_add_cache)
  have at_k: "arp_ip (g_arp_cache ?s ! ?k) = ip"
    using len arp_slot_less [of ip s] by (simp add: arp_cache_add_cache)
  note ok' = arp_ok_add [OF ok, of ip m]
  have idx: "arp_index ip' ?s = Some i \<longleftrightarrow> i \<noteq> ?k \<and> arp_index ip' s = Some i" for i
    using arp_index_Some [OF ok, of ip' i] arp_index_Some [OF ok', of ip' i] other [of i] at_k ne
    by (cases "i = ?k") auto
  show ?thesis
  proof (cases "arp_index ip' s")
    case None
    then have "arp_index ip' ?s \<noteq> Some j" for j using idx [of j] by simp
    then have "arp_index ip' ?s = None" by (meson not_Some_eq)
    then show ?thesis using None by (simp add: arp_lookup_def)
  next
    case (Some i)
    show ?thesis
    proof (cases "i = ?k")
      case True
      then have "arp_index ip' ?s \<noteq> Some j" for j using idx [of j] Some by auto
      then have "arp_index ip' ?s = None" by (meson not_Some_eq)
      then show ?thesis using True Some by (simp add: arp_lookup_def)
    next
      case False
      then have "arp_index ip' ?s = Some i" using idx [of i] Some by blast
      then show ?thesis using False Some other [of i] by (simp add: arp_lookup_def)
    qed
  qed
qed

interpretation arp: address_cache arp_lookup arp_cache_add arp_ok
proof
  show "arp_lookup ip' (arp_cache_add ip m s) = arp_lookup ip' s \<or>
      arp_lookup ip' (arp_cache_add ip m s) = None" if "arp_ok s" "ip' \<noteq> ip" for s ip ip' m
    using arp_lookup_add_other [OF that] by simp
qed (simp_all add: arp_ok_add arp_lookup_add_same)


section \<open>Properties\<close>

lemma arp_ok_lookup: "arp_ok s \<Longrightarrow> arp_ok (snd (arp_cache_lookup ip s))"
  by (auto simp: arp_cache_lookup_def arp_ok_def Let_def split: option.splits)

lemma arp_cache_lookup_fst: "fst (arp_cache_lookup ip s) = arp_lookup ip s"
  by (simp add: arp_cache_lookup_def arp_lookup_def split: option.splits)

text \<open>
  Property C9. After any sequence of learned addresses, a hit in the ARP cache returns the hardware
  address that was learned last for this IP address (or the one the cache had before, when none was
  learned since): evictions forget, they never mix entries up.
\<close>

theorem arp_cache_hit_sound:
  assumes "arp_ok s"
    and "fst (arp_cache_lookup ip (foldl (\<lambda>s (ip, m). arp_cache_add ip m s) s ps)) = Some m"
  shows "last_learned ip ps = Some m \<or> (last_learned ip ps = None \<and> fst (arp_cache_lookup ip s) = Some m)"
  using assms unfolding arp_cache_lookup_fst by (rule arp.lookup_learned)

theorem arp_cache_hit_sound_witness:
  "last_learned 7 [(7, [1]), (8, [2]), (7, [3])] = Some [3]"
proof -
  have ok: "arp_ok net_boot" by (simp add: arp_ok_def net_boot_def)
  have "fst (arp_cache_lookup 7 (foldl (\<lambda>s (ip, m). arp_cache_add ip m s) net_boot
      [(7, [1]), (8, [2]), (7, [3])])) = Some [3]"
    by code_simp
  from arp_cache_hit_sound [OF ok this] show ?thesis by simp
qed

text \<open>
  Learning an address keeps the cache free of duplicates, makes the address known, and
  removes at most one other entry; it removes one only when all eight entries are in use and the
  address is new, and the entry removed is one with the least age.
\<close>

theorem arp_cache_add_evicts_lru:
  assumes ok: "arp_ok s" and other: "ip' \<noteq> ip"
    and known: "arp_lookup ip' s = Some m'"
  shows "arp_ok (arp_cache_add ip m s) \<and> arp_lookup ip (arp_cache_add ip m s) = Some m \<and>
    (arp_lookup ip' (arp_cache_add ip m s) = Some m' \<or>
     arp_lookup ip s = None \<and> (\<forall>i < 8. arp_valid (g_arp_cache s ! i)) \<and>
     (\<exists>k < 8. arp_ip (g_arp_cache s ! k) = ip' \<and> (\<forall>i < 8. g_arp_age s ! k \<le> g_arp_age s ! i)))"
proof (cases "arp_index ip' s = Some (arp_slot ip s)")
  case False
  then show ?thesis
    using arp_ok_add [OF ok] arp_lookup_add_same [OF ok] arp_lookup_add_other [OF ok other] known by simp
next
  case True
  then have k: "arp_valid (g_arp_cache s ! arp_slot ip s)" "arp_ip (g_arp_cache s ! arp_slot ip s) = ip'"
    using arp_index_Some [OF ok] by blast+
  have none: "arp_index ip s = None"
  proof (cases "arp_index ip s")
    case (Some i)
    then have "arp_slot ip s = i" by (simp add: arp_slot_def)
    then show ?thesis using Some k(2) other arp_index_Some [OF ok, of ip i] by simp
  qed
  have full: "find (\<lambda>i. \<not> arp_valid (g_arp_cache s ! i)) [0 ..< ARP_CACHE_SIZE] = None"
  proof (cases "find (\<lambda>i. \<not> arp_valid (g_arp_cache s ! i)) [0 ..< ARP_CACHE_SIZE]")
    case (Some i)
    then have "arp_slot ip s = i" using none by (simp add: arp_slot_def)
    moreover have "\<not> arp_valid (g_arp_cache s ! i)" using Some by (simp add: find_upt_Some)
    ultimately show ?thesis using k(1) by simp
  qed
  then have "arp_slot ip s = arp_lru (g_arp_age s)" using none by (simp add: arp_slot_def)
  then have "\<exists>k < 8. arp_ip (g_arp_cache s ! k) = ip' \<and> (\<forall>i < 8. g_arp_age s ! k \<le> g_arp_age s ! i)"
    using k(2) arp_lru_least arp_lru_less by metis
  moreover have "\<forall>i < 8. arp_valid (g_arp_cache s ! i)" using full by (simp add: find_upt_None arp_consts)
  moreover have "arp_lookup ip s = None" using none by (simp add: arp_lookup_def)
  ultimately show ?thesis using arp_ok_add [OF ok] arp_lookup_add_same [OF ok] by blast
qed

theorem arp_cache_add_evicts_lru_witness:
  "\<exists>s. arp_ok s \<and> arp_lookup 8 s = Some [2] \<and> arp_lookup 7 (arp_cache_add 7 [1] s) = Some [1]"
proof -
  define s where "s = arp_cache_add 8 [2] net_boot"
  have ok: "arp_ok net_boot" by (simp add: arp_ok_def net_boot_def)
  then have ok: "arp_ok s" and k: "arp_lookup 8 s = Some [2]"
    by (simp_all add: s_def arp_ok_add arp_lookup_add_same)
  show ?thesis using arp_cache_add_evicts_lru [OF ok _ k, of 7 "[1]"] ok k by auto
qed

text \<open>Reading back the address fields of an ARP packet.\<close>

lemma arp_read_fill: 
  assumes "bs ! i = arp_fill_ip ip ! 0" "bs ! (i + 1) = arp_fill_ip ip ! 1"
    "bs ! (i + 2) = arp_fill_ip ip ! 2" "bs ! (i + 3) = arp_fill_ip ip ! 3"
  shows "arp_read_ip bs i = ip"
proof -
  have m: "(0xFF :: u32) = mask 8" by (simp add: mask_eq_exp_minus_1)
  have b: "ucast (drop_bit n ip AND 0xFF) = (ucast (drop_bit n ip) :: u8)" for n
    unfolding m by (rule bit_word_eqI) (auto simp: bit_simps)
  have "arp_fill_ip ip = [byte_of ip 3, byte_of ip 2, byte_of ip 1, byte_of ip 0]"
    using b [of 24] b [of 16] b [of 8] b [of 0] by (simp add: arp_fill_ip_def byte_of_def)
  then show ?thesis using assms be32_bytes [of ip] by (simp add: arp_read_ip_def be32_def)
qed

text \<open>
  A request for our address is answered: the asking host's address is learned, exactly
  one frame is sent, and a host that receives that frame learns our hardware address for our IP
  address.
\<close>

theorem arp_request_answered:
  assumes "nic_up s" and "length (g_our_mac s) = 6" and "length (g_our_mac t) = 6"
    and "nic_up t" and "arp_ok s" and "arp_ok t"
    and req: "d = arp_packet (bswap16 1) (bswap16 0x0800) (bswap16 1) (g_our_mac s) (arp_fill_ip ip)
      (replicate 6 0) (arp_fill_ip OUR_IP_ADDR)"
  shows "\<exists>reply. arp_handle_packet d t = rtl8139_send reply (arp_cache_add ip (g_our_mac s) t) \<and>
    arp_lookup OUR_IP_ADDR (arp_handle_packet (drop ETH_HLEN reply) s) = Some (g_our_mac t)"
proof -
  have nh: "length (arp_fill_ip x) = 4" for x by (simp add: arp_fill_ip_def)
  define p where "p op a sp b tp = arp_packet (bswap16 1) (bswap16 0x0800) (bswap16 op) a sp b tp" for op a sp b tp
  have fields: "ld16 (p op a sp b tp) 0 = bswap16 1 \<and> ld16 (p op a sp b tp) 2 = bswap16 0x0800 \<and>
      p op a sp b tp ! 4 = 6 \<and> p op a sp b tp ! 5 = 4 \<and> bswap16 (ld16 (p op a sp b tp) 6) = op \<and>
      take 6 (drop 8 (p op a sp b tp)) = a \<and> take 4 (drop 14 (p op a sp b tp)) = sp \<and>
      length (p op a sp b tp) = 28"
    if "length a = 6" "length sp = 4" "length b = 6" "length tp = 4" for op a sp b tp
  proof -
    have "ld16 (p op a sp b tp) 0 = bswap16 1" "ld16 (p op a sp b tp) 2 = bswap16 0x0800"
      "ld16 (p op a sp b tp) 6 = bswap16 op"
      by (rule ld16_bytes; simp add: p_def arp_packet_def st16_def)+
    then show ?thesis using that by (simp add: p_def arp_packet_def st16_def)
  qed
  have rd: "arp_read_ip (p op a (arp_fill_ip x) b (arp_fill_ip y)) 14 = x \<and>
      arp_read_ip (p op a (arp_fill_ip x) b (arp_fill_ip y)) 24 = y"
    if "length a = 6" "length b = 6" for op a b x y
    using that by (intro conjI arp_read_fill) (simp_all add: p_def arp_packet_def st16_def nth_append nh)
  have d: "d = p 1 (g_our_mac s) (arp_fill_ip ip) (replicate 6 0) (arp_fill_ip OUR_IP_ADDR)"
    by (simp add: req p_def)
  define t1 where "t1 = arp_cache_add ip (g_our_mac s) t"
  have t1: "nic_up t1" "g_our_mac t1 = g_our_mac t" using assms(4) by (simp_all add: t1_def arp_cache_add_def Let_def)
  define rp where "rp = p 2 (g_our_mac t) (arp_fill_ip OUR_IP_ADDR) (g_our_mac s) (arp_fill_ip ip)"
  define reply where "reply = g_our_mac s @ g_our_mac t @ st16 (bswap16 ETH_TYPE_ARP) @ rp"
  have lrp: "length rp = 28" using fields [of "g_our_mac t" _ "g_our_mac s"] assms(2,3) nh by (simp add: rp_def)
  have "arp_handle_packet d t = rtl8139_send reply t1"
    using fields [of "g_our_mac s" "arp_fill_ip ip" "replicate 6 0" "arp_fill_ip OUR_IP_ADDR" 1]
      rd [of "g_our_mac s" "replicate 6 0" 1 ip OUR_IP_ADDR] assms(2) nh t1 lrp
    unfolding arp_handle_packet_def d [symmetric]
    by (simp add: Let_def t1_def [symmetric] eth_send_def eth_consts reply_def) (simp add: rp_def p_def)
  moreover have "drop ETH_HLEN reply = rp" using assms(2,3) by (simp add: reply_def ETH_HLEN_def)
  moreover have "arp_handle_packet rp s = arp_cache_add OUR_IP_ADDR (g_our_mac t) s"
    using fields [of "g_our_mac t" "arp_fill_ip OUR_IP_ADDR" "g_our_mac s" "arp_fill_ip ip" 2]
      rd [of "g_our_mac t" "g_our_mac s" 2 OUR_IP_ADDR ip] assms(2,3) nh
    unfolding arp_handle_packet_def rp_def [symmetric] by (simp add: Let_def)
  ultimately show ?thesis
    using arp_lookup_add_same [OF assms(5)] by (auto simp: t1_def)
qed


theorem arp_request_answered_witness:
  "\<exists>reply. arp_handle_packet (arp_packet (bswap16 1) (bswap16 0x0800) (bswap16 1) (g_our_mac net_boot)
       (arp_fill_ip 0x0A000202) (replicate 6 0) (arp_fill_ip OUR_IP_ADDR)) (net_set_mac [9, 8, 7, 6, 5, 4] net_boot) =
      rtl8139_send reply (arp_cache_add 0x0A000202 (g_our_mac net_boot) (net_set_mac [9, 8, 7, 6, 5, 4] net_boot)) \<and>
    arp_lookup OUR_IP_ADDR (arp_handle_packet (drop ETH_HLEN reply) net_boot) = Some [9, 8, 7, 6, 5, 4]"
proof -
  define t where "t = net_set_mac [9, 8, 7, 6, 5, 4] net_boot"
  have t: "g_our_mac t = [9, 8, 7, 6, 5, 4]" "nic_up t" "arp_ok t"
    by (simp_all add: t_def net_set_mac_def net_boot_def arp_ok_def)
  have b: "nic_up net_boot" "length (g_our_mac net_boot) = 6" "arp_ok net_boot"
    by (simp_all add: net_boot_def arp_ok_def)
  show ?thesis
    unfolding t_def [symmetric]
    using arp_request_answered [OF b(1,2) _ t(2) b(3) t(3) refl, of "0x0A000202"] t(1) by simp
qed
end
