(* ===== verification/Net_Tcp.thy ===== *)
theory Net_Tcp
  imports Net_Arp
begin

text \<open>
  TCP over the whole stack. Receiving a frame may send one, sending one may wait for ARP, and waiting
  receives frames again; what holds of the connection across all of this is proved once, in the locale
  \<open>conn_evolution\<close>, from the few updates the segment handler makes. That waiting ends is proved in the
  locale \<open>net_poller\<close>. Both are interpreted on the code's functions.
\<close>

section \<open>What a frame may do to the connection\<close>

text \<open>
  A relation on connections that contains every single update of the segment handler. A resolver
  keeps it when the connection before and after are related.
\<close>

definition keeps_conn :: "(tcp_conn_t \<Rightarrow> tcp_conn_t \<Rightarrow> bool) \<Rightarrow> net \<Rightarrow> net option \<Rightarrow> bool" where
  "keeps_conn R s o' \<longleftrightarrow> (\<forall>s'. o' = Some s' \<longrightarrow> R (g_tcp_conn s) (g_tcp_conn s'))"

definition resolver_keeps :: "(tcp_conn_t \<Rightarrow> tcp_conn_t \<Rightarrow> bool) \<Rightarrow> resolver \<Rightarrow> bool" where
  "resolver_keeps R resolve \<longleftrightarrow>
     (\<forall>ip s r s'. resolve ip s = Some (r, s') \<longrightarrow> R (g_tcp_conn s) (g_tcp_conn s'))"

locale conn_evolution =
  fixes R :: "tcp_conn_t \<Rightarrow> tcp_conn_t \<Rightarrow> bool"
  assumes R_refl: "R c c"
    and R_trans: "R a b \<Longrightarrow> R b c \<Longrightarrow> R a c"
    and R_numbers: "R c (c\<lparr>ack_num := x, seq_num := y\<rparr>)"
    and R_state: "R c (c\<lparr>cstate := st, connected := u, waiting_for_ack := v\<rparr>)"
    and R_data: "recv_len c = 0 \<Longrightarrow> payload \<noteq> [] \<Longrightarrow> length payload \<le> TCP_RECV_BUF_SIZE \<Longrightarrow>
      R c (c\<lparr>recv_buf := payload @ drop (length payload) (recv_buf c),
             recv_len := word_of_nat (length payload), ack_num := x\<rparr>)"
begin

lemma R_ack: "R c (c\<lparr>ack_num := x\<rparr>)"
proof -
  have "c\<lparr>ack_num := x, seq_num := seq_num c\<rparr> = c\<lparr>ack_num := x\<rparr>" by (cases c) simp
  then show ?thesis using R_numbers [where c = c and x = x and y = "seq_num c"] by simp
qed

lemma R_set_state:
  "R c (c\<lparr>cstate := st\<rparr>)" "R c (c\<lparr>cstate := st, connected := u\<rparr>)"
proof -
  have "c\<lparr>cstate := st, connected := connected c, waiting_for_ack := waiting_for_ack c\<rparr> = c\<lparr>cstate := st\<rparr>"
    "c\<lparr>cstate := st, connected := u, waiting_for_ack := waiting_for_ack c\<rparr> = c\<lparr>cstate := st, connected := u\<rparr>"
    by (cases c; simp)+
  then show "R c (c\<lparr>cstate := st\<rparr>)" "R c (c\<lparr>cstate := st, connected := u\<rparr>)"
    using R_state [where c = c and st = st and u = "connected c" and v = "waiting_for_ack c"]
      R_state [where c = c and st = st and u = u and v = "waiting_for_ack c"] by simp_all
qed

lemma keeps_bind:
  assumes "keeps_conn R s m" and "\<And>s'. m = Some s' \<Longrightarrow> keeps_conn R s' (f s')"
  shows "keeps_conn R s (Option.bind m f)"
  using assms R_trans by (cases m) (auto simp: keeps_conn_def)

lemma keeps_Some: "R (g_tcp_conn s) (g_tcp_conn s') \<Longrightarrow> keeps_conn R s (Some s')"
  by (simp add: keeps_conn_def)

lemma ip_send_keeps:
  assumes "resolver_keeps R resolve"
  shows "keeps_conn R s (ip_send resolve dst pr payload s)"
proof -
  have e: "g_tcp_conn (eth_send m t p s') = g_tcp_conn s'" for m t p s'
    by (simp add: eth_send_def rtl8139_send_def)
  have "R (g_tcp_conn s) (g_tcp_conn s')"
    if "resolve dst (s\<lparr>g_ip_id := g_ip_id s + 1\<rparr>) = Some (r, s')" for r s'
    using assms that unfolding resolver_keeps_def by fastforce
  then show ?thesis
    by (auto simp: ip_send_def Let_def keeps_conn_def R_refl bind_eq_Some_conv e split: if_splits option.splits)
qed

lemma tcp_ack_keeps:
  assumes "resolver_keeps R resolve"
  shows "keeps_conn R s (tcp_ack resolve s)"
  using ip_send_keeps [OF assms]
  by (auto simp: tcp_ack_def tcp_send_segment_def keeps_conn_def bind_eq_Some_conv TCP_MSS_def)

lemma upd_conn_conn [simp]: "g_tcp_conn (upd_conn f s) = f (g_tcp_conn s)"
  by (simp add: upd_conn_def)

lemma keeps_upd_ack:
  assumes "resolver_keeps R resolve" and "R (g_tcp_conn s) (f (g_tcp_conn s))"
  shows "keeps_conn R s (tcp_ack resolve (upd_conn f s))"
  using tcp_ack_keeps [OF assms(1), of "upd_conn f s"] assms(2) R_trans by (auto simp: keeps_conn_def)

lemma tcp_note_ack_keeps: "R (g_tcp_conn s) (g_tcp_conn (tcp_note_ack flags ak s))"
  by (simp add: tcp_note_ack_def R_ack R_refl)

lemma tcp_on_syn_sent_keeps:
  assumes "resolver_keeps R resolve"
  shows "keeps_conn R s (tcp_on_syn_sent resolve flags sq ak s)"
  unfolding tcp_on_syn_sent_def
  by (auto intro!: keeps_bind keeps_upd_ack assms keeps_Some R_numbers R_state R_refl)

lemma tcp_on_payload_keeps:
  assumes "resolver_keeps R resolve" and "tcp_on_payload resolve sq payload s = Some (go, s')"
  shows "R (g_tcp_conn s) (g_tcp_conn s')"
proof (cases "payload = [] \<or> sq \<noteq> ack_num (g_tcp_conn s) \<or> length payload > TCP_RECV_BUF_SIZE \<or>
    recv_len (g_tcp_conn s) \<noteq> 0")
  case True
  then show ?thesis
    using assms(2) tcp_ack_keeps [OF assms(1), of s]
    by (auto simp: tcp_on_payload_def bind_eq_Some_conv R_refl keeps_conn_def split: if_splits)
next
  case False
  let ?f = "\<lambda>c. c\<lparr>recv_buf := payload @ drop (length payload) (recv_buf c),
    recv_len := word_of_nat (length payload), ack_num := sq + word_of_nat (length payload)\<rparr>"
  have "R (g_tcp_conn s) (?f (g_tcp_conn s))" using False by (intro R_data) auto
  note k = keeps_upd_ack [OF assms(1), of s ?f, OF this]
  have "tcp_ack resolve (upd_conn ?f s) = Some s'"
    using False assms(2) by (auto simp: tcp_on_payload_def bind_eq_Some_conv)
  then show ?thesis using k by (simp add: keeps_conn_def)
qed

lemma tcp_on_fin_keeps:
  assumes "resolver_keeps R resolve"
  shows "keeps_conn R s (tcp_on_fin resolve flags sq s)"
  unfolding tcp_on_fin_def
  by (auto intro!: keeps_bind keeps_upd_ack tcp_ack_keeps assms keeps_Some R_ack R_set_state R_refl)

lemma tcp_on_established_keeps:
  assumes "resolver_keeps R resolve"
  shows "keeps_conn R s (tcp_on_established resolve flags sq ak payload s)"
proof -
  have "R (g_tcp_conn s) (g_tcp_conn s2)"
    if p: "tcp_on_payload resolve sq payload (tcp_note_ack flags ak s) = Some (go, s1)"
      and f: "(if go then tcp_on_fin resolve flags sq s1 else Some s1) = Some s2" for go s1 s2
  proof -
    have "R (g_tcp_conn s) (g_tcp_conn s1)"
      using tcp_note_ack_keeps tcp_on_payload_keeps [OF assms p] R_trans by blast
    moreover have "R (g_tcp_conn s1) (g_tcp_conn s2)"
      using f tcp_on_fin_keeps [OF assms, of s1] by (auto simp: keeps_conn_def R_refl split: if_splits)
    ultimately show ?thesis by (rule R_trans)
  qed
  then show ?thesis
    by (auto simp: tcp_on_established_def keeps_conn_def bind_eq_Some_conv R_set_state)
qed

lemma tcp_on_fin_wait_keeps:
  assumes "resolver_keeps R resolve"
  shows "keeps_conn R s (tcp_on_fin_wait resolve flags sq ak s)"
proof -
  have "keeps_conn R s' (Option.bind (tcp_ack resolve (upd_conn (\<lambda>c. c\<lparr>ack_num := sq + 1\<rparr>) s'))
      (\<lambda>s1. Some (upd_conn (\<lambda>c. c\<lparr>cstate := TCP_TIME_WAIT\<rparr>) s1)))" for s'
    by (auto intro!: keeps_bind keeps_upd_ack assms keeps_Some R_ack R_set_state)
  then show ?thesis
    using tcp_note_ack_keeps [of s flags ak] R_trans R_set_state(1)
    by (fastforce simp: tcp_on_fin_wait_def Let_def keeps_conn_def)
qed

lemma tcp_handle_packet_keeps:
  assumes "resolver_keeps R resolve"
  shows "keeps_conn R s (tcp_handle_packet resolve d src s)"
  using tcp_on_syn_sent_keeps [OF assms, of s] tcp_on_established_keeps [OF assms, of s]
    tcp_on_fin_wait_keeps [OF assms, of s]
  by (auto simp: tcp_handle_packet_def Let_def R_refl R_set_state intro!: keeps_Some split: tcp_state_t.splits)

lemma arp_handle_packet_conn: "g_tcp_conn (arp_handle_packet d s) = g_tcp_conn s"
  by (simp add: arp_handle_packet_def Let_def arp_cache_add_def eth_send_def rtl8139_send_def)

lemma eth_dispatch_keeps:
  assumes "resolver_keeps R resolve"
  shows "keeps_conn R s (eth_dispatch resolve frame s)"
  unfolding eth_dispatch_def ip_handle_packet_def Let_def
  by (simp add: R_refl arp_handle_packet_conn keeps_Some tcp_handle_packet_keeps [OF assms])

lemma net_poll_once_keeps:
  assumes "resolver_keeps R resolve"
  shows "keeps_conn R s (net_poll_once resolve s)"
proof -
  have "g_tcp_conn (snd (rtl8139_poll s)) = g_tcp_conn s"
    by (simp add: rtl8139_poll_def split: list.splits)
  then show ?thesis
    using eth_dispatch_keeps [OF assms, of "snd (rtl8139_poll s)"]
    by (auto simp: net_poll_once_def R_refl keeps_conn_def split: prod.splits)
qed

text \<open>A check that does not change the connection, or only within the relation.\<close>

lemma poll_until_keeps:
  assumes poll: "\<And>s. keeps_conn R s (poll s)" and check: "\<And>s. R (g_tcp_conn s) (g_tcp_conn (snd (check s)))"
    and res: "poll_until poll check start limit s = Some (r, s')"
  shows "R (g_tcp_conn s) (g_tcp_conn s')"
proof (rule poll_until.raw_induct [OF _ res, of "\<lambda>poll check start limit s x.
    (\<forall>s. keeps_conn R s (poll s)) \<longrightarrow> (\<forall>s. R (g_tcp_conn s) (g_tcp_conn (snd (check s)))) \<longrightarrow>
    R (g_tcp_conn s) (g_tcp_conn (snd x))", THEN mp, THEN mp, unfolded snd_conv], goal_cases)
  case (1 pu poll check start limit s x)
  show ?case
  proof (intro impI)
    assume p: "\<forall>s. keeps_conn R s (poll s)" and c: "\<forall>s. R (g_tcp_conn s) (g_tcp_conn (snd (check s)))"
    have t: "g_tcp_conn (snd (timer_ticks s)) = g_tcp_conn s" by (simp add: timer_ticks_def)
    obtain v s1 where ts: "timer_ticks s = (v, s1)" by fastforce
    show "R (g_tcp_conn s) (g_tcp_conn (snd x))"
    proof (cases "v - start < limit")
      case False
      then show ?thesis using 1(2) t ts by (auto simp: R_refl)
    next
      case True
      then obtain s2 where s2: "poll s1 = Some s2" and
        more: "(case check s2 of (Some r, s3) \<Rightarrow> Some (Some r, s3) | (None, s3) \<Rightarrow> pu poll check start limit s3) = Some x"
        using 1(2) ts by (auto simp: bind_eq_Some_conv)
      obtain r s3 where ch: "check s2 = (r, s3)" by fastforce
      have "R (g_tcp_conn s1) (g_tcp_conn s2)" using p s2 unfolding keeps_conn_def by blast
      then have "R (g_tcp_conn s) (g_tcp_conn s2)" using t ts by simp
      moreover have "R (g_tcp_conn s2) (g_tcp_conn s3)" using c ch by (metis snd_conv)
      moreover have "R (g_tcp_conn s3) (g_tcp_conn (snd x))"
        using more ch 1(1) [of poll check start limit s3 x] p c by (cases r) (auto simp: R_refl)
      ultimately show ?thesis using R_trans by blast
    qed
  qed
qed (use poll check in auto)

lemma arp_resolve_keeps: "resolver_keeps R (arp_resolve d)"
proof (induction d)
  case 0
  then show ?case by (simp add: resolver_keeps_def)
next
  case (Suc d)
  have lk: "g_tcp_conn (snd (arp_cache_lookup ip s)) = g_tcp_conn s" for ip s
    by (simp add: arp_cache_lookup_def Let_def split: option.splits)
  have "R (g_tcp_conn s) (g_tcp_conn s')"
    if "arp_try (net_poll_once (arp_resolve d)) ip pkt n s = Some (r, s')" for n ip pkt s r s'
    using that
  proof (induction n arbitrary: s)
    case 0
    then show ?case by (simp add: R_refl)
  next
    case (Suc n)
    obtain v s1 where ts: "timer_ticks (eth_send g_eth_broadcast ETH_TYPE_ARP pkt s) = (v, s1)" by fastforce
    then have "g_tcp_conn s1 = g_tcp_conn s" by (auto simp: timer_ticks_def eth_send_def rtl8139_send_def)
    moreover obtain r1 s2 where w: "poll_until (net_poll_once (arp_resolve d)) (arp_cache_lookup ip) v
        ((ARP_TIMEOUT_MS + 9) div 10) s1 = Some (r1, s2)"
      and more: "(if r1 \<noteq> None then Some (r1, s2) else arp_try (net_poll_once (arp_resolve d)) ip pkt n s2) = Some (r, s')"
      using Suc.prems ts by (auto simp: Let_def bind_eq_Some_conv)
    moreover have "R (g_tcp_conn s1) (g_tcp_conn s2)"
      using w by (rule poll_until_keeps [rotated 2]) (simp_all add: net_poll_once_keeps [OF \<open>resolver_keeps R (arp_resolve d)\<close>] lk R_refl)
    ultimately show ?case using Suc.IH [of s2] R_trans R_refl by (auto split: if_splits)
  qed
  then show ?case
    using lk by (auto simp: resolver_keeps_def Let_def R_refl split: prod.splits if_splits) (metis R_refl snd_conv)+
qed

theorem poll_keeps: "net_poll_once (arp_resolve d) s = Some s' \<Longrightarrow> R (g_tcp_conn s) (g_tcp_conn s')"
  using net_poll_once_keeps [OF arp_resolve_keeps, of s d] by (simp add: keeps_conn_def)

end


section \<open>Waiting ends\<close>

text \<open>
  The timer keeps ticking: from every reading on, there is always a later one that lies at least
  \<open>limit\<close> ticks after it.
\<close>

definition ticking :: "(nat \<Rightarrow> u32) \<Rightarrow> bool" where
  "ticking c \<longleftrightarrow> (\<forall>i j. \<exists>k \<ge> j. \<not> c k - c i < 50)"

text \<open>A computation that returns, does not put frames back and leaves the timer's readings alone.\<close>

definition settles :: "net \<Rightarrow> net option \<Rightarrow> bool" where
  "settles s m \<longleftrightarrow> (\<exists>s'. m = Some s' \<and> length (nic_rx s') \<le> length (nic_rx s) \<and> clock s' = clock s)"

definition resolver_settles :: "nat \<Rightarrow> resolver \<Rightarrow> bool" where
  "resolver_settles n resolve \<longleftrightarrow>
     (\<forall>ip s. length (nic_rx s) < n \<longrightarrow> ticking (clock s) \<longrightarrow> settles s (map_option snd (resolve ip s)))"

lemma settles_bind:
  assumes "settles s m"
    and "\<And>s'. m = Some s' \<Longrightarrow> length (nic_rx s') \<le> length (nic_rx s) \<Longrightarrow> clock s' = clock s \<Longrightarrow> settles s' (f s')"
  shows "settles s (Option.bind m f)"
proof -
  obtain s' where "m = Some s'" "length (nic_rx s') \<le> length (nic_rx s)" "clock s' = clock s"
    using assms(1) by (auto simp: settles_def)
  then show ?thesis using assms(2) [of s'] by (auto simp: settles_def)
qed

lemma settles_Some:
  "length (nic_rx s') \<le> length (nic_rx s) \<Longrightarrow> clock s' = clock s \<Longrightarrow> settles s (Some s')"
  by (simp add: settles_def)

lemma env_upd_conn [simp]:
  "nic_rx (upd_conn f s) = nic_rx s" "clock (upd_conn f s) = clock s"
  "clock_reads (upd_conn f s) = clock_reads s" "g_tcp_conn (upd_conn f s) = f (g_tcp_conn s)"
  by (simp_all add: upd_conn_def)

lemma env_eth_send [simp]:
  "nic_rx (eth_send m t p s) = nic_rx s" "clock (eth_send m t p s) = clock s"
  by (simp_all add: eth_send_def rtl8139_send_def)

lemma env_arp [simp]:
  "nic_rx (arp_handle_packet d s) = nic_rx s" "clock (arp_handle_packet d s) = clock s"
  "nic_rx (snd (arp_cache_lookup ip s)) = nic_rx s" "clock (snd (arp_cache_lookup ip s)) = clock s"
  "clock_reads (snd (arp_cache_lookup ip s)) = clock_reads s"
  by (simp_all add: arp_handle_packet_def arp_cache_lookup_def arp_cache_add_def Let_def split: option.splits)

lemma ip_send_settles:
  assumes "resolver_settles n resolve" and "length (nic_rx s) < n" and "ticking (clock s)"
  shows "settles s (ip_send resolve dst pr payload s)"
proof -
  have "settles (s\<lparr>g_ip_id := g_ip_id s + 1\<rparr>) (map_option snd (resolve dst (s\<lparr>g_ip_id := g_ip_id s + 1\<rparr>)))"
    using assms unfolding resolver_settles_def by simp
  then show ?thesis by (auto simp: settles_def ip_send_def Let_def split: option.splits)
qed

lemma tcp_ack_ip_send:
  "tcp_ack resolve s = ip_send resolve (remote_ip (g_tcp_conn s)) IP_PROTO_TCP (tcp_segment (g_tcp_conn s) TCP_ACK []) s"
proof -
  have "map_option snd (Option.bind m (\<lambda>s1. Some (0 :: int, s1))) = m" for m :: "net option"
    by (cases m) simp_all
  then show ?thesis by (simp add: tcp_ack_def tcp_send_segment_def)
qed

lemma tcp_ack_settles:
  assumes "resolver_settles n resolve" and "length (nic_rx s) < n" and "ticking (clock s)"
  shows "settles s (tcp_ack resolve (upd_conn f s))" and "settles s (tcp_ack resolve s)"
proof -
  show "settles s (tcp_ack resolve s)" unfolding tcp_ack_ip_send using assms by (rule ip_send_settles)
  have "settles (upd_conn f s) (tcp_ack resolve (upd_conn f s))"
    unfolding tcp_ack_ip_send using assms by (intro ip_send_settles [of n]) simp_all
  then show "settles s (tcp_ack resolve (upd_conn f s))" by (simp add: settles_def)
qed

lemma tcp_handle_packet_settles:
  assumes r: "resolver_settles n resolve" "length (nic_rx s) < n" "ticking (clock s)"
  shows "settles s (tcp_handle_packet resolve d src s)"
proof -
  note ack = tcp_ack_settles [OF r(1)]
  have note_env: "nic_rx (tcp_note_ack fl ak s) = nic_rx s" "clock (tcp_note_ack fl ak s) = clock s" for fl ak s
    by (simp_all add: tcp_note_ack_def)
  have fin: "settles t (tcp_on_fin resolve fl sq t)" if "length (nic_rx t) < n" "ticking (clock t)" for fl sq t
    using that unfolding tcp_on_fin_def by (auto intro!: settles_bind ack settles_Some)
  have syn: "settles s (tcp_on_syn_sent resolve fl sq ak s)" for fl sq ak
    using r unfolding tcp_on_syn_sent_def by (auto intro!: settles_bind ack settles_Some)
  have pay: "settles t (map_option snd (tcp_on_payload resolve sq p t))"
    if "length (nic_rx t) < n" "ticking (clock t)" for sq p t
  proof -
    let ?t = "upd_conn (\<lambda>c. c\<lparr>recv_buf := p @ drop (length p) (recv_buf c),
      recv_len := word_of_nat (length p), ack_num := sq + word_of_nat (length p)\<rparr>) t"
    have "settles t (tcp_ack resolve ?t)" "settles t (tcp_ack resolve t)" by (intro ack that)+
    then show ?thesis by (auto simp: settles_def tcp_on_payload_def)
  qed
  have est: "settles s (tcp_on_established resolve fl sq ak p s)" for fl sq ak p
  proof -
    let ?t = "tcp_note_ack fl ak s"
    obtain go s1 where p: "tcp_on_payload resolve sq p ?t = Some (go, s1)"
      and le: "length (nic_rx s1) \<le> length (nic_rx s)" and c: "clock s1 = clock s"
      using pay [of ?t sq p] r by (auto simp: settles_def note_env)
    have "settles s1 (if go then tcp_on_fin resolve fl sq s1 else Some s1)"
      using fin [of s1] r le c by (auto intro: settles_Some)
    then show ?thesis using p le c by (auto simp: tcp_on_established_def settles_def)
  qed
  have fw: "settles s (tcp_on_fin_wait resolve fl sq ak s)" for fl sq ak
  proof -
    have "settles t (Option.bind (tcp_ack resolve (upd_conn f t)) (\<lambda>s1. Some (upd_conn g s1)))"
      if "length (nic_rx t) < n" "ticking (clock t)" for f g t
      using that by (auto intro!: settles_bind ack settles_Some)
    from this [of "tcp_note_ack fl ak s"] show ?thesis
      using r by (auto simp: tcp_on_fin_wait_def Let_def note_env settles_def)
  qed
  show ?thesis
    using syn est fw by (auto simp: tcp_handle_packet_def Let_def intro!: settles_Some split: tcp_state_t.splits)
qed

lemma net_poll_once_settles:
  assumes r: "resolver_settles n resolve" "length (nic_rx s) \<le> n" "ticking (clock s)"
  shows "net_poll_once resolve s = Some s \<or>
    (\<exists>s'. net_poll_once resolve s = Some s' \<and> length (nic_rx s') < length (nic_rx s) \<and> clock s' = clock s)"
proof (cases "nic_rx s")
  case Nil
  then show ?thesis by (simp add: net_poll_once_def rtl8139_poll_def)
next
  case (Cons f fs)
  let ?s = "s\<lparr>nic_rx := fs\<rparr>"
  have t: "settles ?s (tcp_handle_packet resolve d src ?s)" for d src
    using r Cons by (intro tcp_handle_packet_settles [of n]) auto
  have "settles ?s (eth_dispatch resolve f ?s)"
    unfolding eth_dispatch_def ip_handle_packet_def Let_def by (simp add: t settles_Some)
  then show ?thesis
    using Cons by (auto simp: net_poll_once_def rtl8139_poll_def settles_def)
qed

locale net_poller =
  fixes poll :: "net \<Rightarrow> net option" and n :: nat
  assumes poll_step: "length (nic_rx s) \<le> n \<Longrightarrow> ticking (clock s) \<Longrightarrow>
    poll s = Some s \<or> (\<exists>s'. poll s = Some s' \<and> length (nic_rx s') < length (nic_rx s) \<and> clock s' = clock s)"
begin

lemma poll_until_settles:
  assumes "\<And>s. nic_rx (snd (check s)) = nic_rx s \<and> clock (snd (check s)) = clock s \<and>
      clock_reads (snd (check s)) = clock_reads s"
    and "length (nic_rx s) \<le> n" and "ticking (clock s)"
  shows "settles s (map_option snd (poll_until poll check (clock s i) 50 s))"
  using assms(2,3)
proof (induction "length (nic_rx s)" arbitrary: s rule: less_induct)
  case less
  note outer = less.hyps
  have "settles t (map_option snd (poll_until poll check (clock t i) 50 t))"
    if "\<not> clock t k - clock t i < 50" "clock_reads t \<le> k" "length (nic_rx t) = length (nic_rx s)"
      "ticking (clock t)" for t k
    using that
  proof (induction "k - clock_reads t" arbitrary: t)
    case 0
    then have "\<not> clock t (clock_reads t) - clock t i < 50" by simp
    then show ?case by (subst poll_until.simps) (simp add: timer_ticks_def settles_def)
  next
    case (Suc m)
    define t1 where "t1 = t\<lparr>clock_reads := Suc (clock_reads t)\<rparr>"
    have tt: "timer_ticks t = (clock t (clock_reads t), t1)" by (simp add: timer_ticks_def t1_def)
    show ?case
    proof (cases "clock t (clock_reads t) - clock t i < 50")
      case False
      then show ?thesis by (subst poll_until.simps) (simp add: tt settles_def t1_def)
    next
      case True
      have "length (nic_rx t1) \<le> n" "ticking (clock t1)" using Suc.prems less.prems by (simp_all add: t1_def)
      then obtain t2 where p: "poll t1 = Some t2" and
        alt: "t2 = t1 \<or> length (nic_rx t2) < length (nic_rx t1) \<and> clock t2 = clock t1"
        using poll_step by blast
      obtain r t3 where ch: "check t2 = (r, t3)" by fastforce
      then have e3: "nic_rx t3 = nic_rx t2" "clock t3 = clock t2" "clock_reads t3 = clock_reads t2"
        using assms(1) [of t2] by auto
      have c3: "clock t3 = clock t" "length (nic_rx t3) \<le> length (nic_rx t)"
        using alt e3 by (auto simp: t1_def)
      have "settles t3 (map_option snd (poll_until poll check (clock t3 i) 50 t3))"
      proof (cases "t2 = t1")
        case True
        have "Suc (clock_reads t) \<le> k" using Suc.hyps(2) by simp
        then show ?thesis
          using True Suc.hyps(2) Suc.prems e3 by (intro Suc.hyps(1)) (auto simp: t1_def)
      next
        case False
        then show ?thesis using alt e3 Suc.prems less.prems by (intro outer) (auto simp: t1_def)
      qed
      then show ?thesis
        using True p ch c3
        by (subst poll_until.simps) (cases r; auto simp: tt settles_def)
    qed
  qed
  moreover obtain k where "clock_reads s \<le> k" "\<not> clock s k - clock s i < 50"
    using less.prems(2) by (auto simp: ticking_def)
  ultimately show ?case using less.prems by blast
qed

end


section \<open>Interpretations on the stack\<close>

lemma resolver_settles_arp_resolve: "resolver_settles d (arp_resolve d)"
proof (induction d)
  case 0
  then show ?case by (simp add: resolver_settles_def)
next
  case (Suc d)
  have np: "net_poller (net_poll_once (arp_resolve d)) d"
    by unfold_locales (rule net_poll_once_settles [OF Suc])
  have tries: "settles s (map_option snd (arp_try (net_poll_once (arp_resolve d)) ip pkt n s))"
    if "length (nic_rx s) \<le> d" "ticking (clock s)" for n ip pkt s
    using that
  proof (induction n arbitrary: s)
    case 0
    then show ?case by (simp add: settles_def)
  next
    case (Suc n)
    let ?s = "eth_send g_eth_broadcast ETH_TYPE_ARP pkt s"
    define s1 where "s1 = snd (timer_ticks ?s)"
    have ts: "timer_ticks ?s = (clock s1 (clock_reads ?s), s1)" and env: "nic_rx s1 = nic_rx s" "clock s1 = clock s"
      by (simp_all add: timer_ticks_def s1_def)
    have "settles s1 (map_option snd (poll_until (net_poll_once (arp_resolve d)) (arp_cache_lookup ip)
        (clock s1 (clock_reads ?s)) 50 s1))"
      using Suc.prems env by (intro net_poller.poll_until_settles [OF np]) simp_all
    then obtain r s2 where w: "poll_until (net_poll_once (arp_resolve d)) (arp_cache_lookup ip)
        (clock s1 (clock_reads ?s)) 50 s1 = Some (r, s2)"
      and s2: "length (nic_rx s2) \<le> length (nic_rx s)" "clock s2 = clock s"
      using env by (auto simp: settles_def)
    have "settles s2 (map_option snd (arp_try (net_poll_once (arp_resolve d)) ip pkt n s2))"
      using Suc.prems s2 by (intro Suc.IH) simp_all
    then show ?case using w s2 by (cases r) (auto simp: ts Let_def settles_def ARP_TIMEOUT_MS_def)
  qed
  show ?case
    unfolding resolver_settles_def
  proof (intro allI impI)
    fix ip and s :: net
    assume a: "length (nic_rx s) < Suc d" "ticking (clock s)"
    obtain r s1 where lk: "arp_cache_lookup ip s = (r, s1)" by fastforce
    have env: "nic_rx s1 = nic_rx s" "clock s1 = clock s"
      using env_arp(3,4) [of ip s] lk by simp_all
    show "settles s (map_option snd (arp_resolve (Suc d) ip s))"
      using tries [of s1 ip "arp_request ip s1" ARP_RETRIES] a env lk by (auto simp: settles_def)
  qed
qed

interpretation poller: net_poller "net_poll_once (arp_resolve d)" d for d
  by unfold_locales (rule net_poll_once_settles [OF resolver_settles_arp_resolve])

text \<open>The receive buffer keeps its size and its length stays inside it.\<close>

definition conn_ok :: "tcp_conn_t \<Rightarrow> bool" where
  "conn_ok c \<longleftrightarrow> length (recv_buf c) = TCP_RECV_BUF_SIZE \<and> unat (recv_len c) \<le> TCP_RECV_BUF_SIZE"

text \<open>The received bytes that are waiting for \<open>tcp_recv\<close>.\<close>

definition pending :: "tcp_conn_t \<Rightarrow> bytes" where
  "pending c = take (unat (recv_len c)) (recv_buf c)"




interpretation conn_endpoint: conn_evolution
  "\<lambda>c c'. local_ip c' = local_ip c \<and> remote_ip c' = remote_ip c \<and> local_port c' = local_port c \<and>
     remote_port c' = remote_port c \<and> retries c' = retries c"
  by unfold_locales auto

section \<open>Properties\<close>



text \<open>
  Property C8. Resolving an address always returns when the timer ticks on: with \<open>n\<close> frames waiting
  in the card, the calls nest at most \<open>n\<close> times, and every waiting loop runs into its time limit.
\<close>

theorem arp_resolve_returns:
  assumes "ticking (clock s)" and "length (nic_rx s) < d"
  shows "\<exists>r s'. arp_resolve d ip s = Some (r, s') \<and> length (nic_rx s') \<le> length (nic_rx s)"
  using resolver_settles_arp_resolve [of d] assms by (fastforce simp: resolver_settles_def settles_def)

lemma ticking_word: "ticking (\<lambda>n. word_of_nat n)"
  unfolding ticking_def
proof (intro allI)
  fix i j :: nat
  have "(word_of_nat (2 ^ 32 * Suc j) :: u32) = 0"
    unfolding word_of_nat_eq_0_iff by (simp only: len_num1 len_bit0) simp
  moreover define k where "k = i + 2 ^ 32 * Suc j + 50"
  ultimately have "(word_of_nat k :: u32) - word_of_nat i = 50"
    by (simp only: of_nat_add) simp
  moreover have "j \<le> k" by (simp add: k_def)
  ultimately show "\<exists>k \<ge> j. \<not> (word_of_nat k :: u32) - word_of_nat i < 50"
    by (intro exI [of _ k]) simp
qed

theorem arp_resolve_returns_witness: "\<exists>r s'. arp_resolve 1 0x0A000202 net_boot = Some (r, s')"
proof -
  have "ticking (clock net_boot)" "length (nic_rx net_boot) < 1"
    using ticking_word by (simp_all add: net_boot_def)
  from arp_resolve_returns [OF this] show ?thesis by blast
qed

text \<open>
  The receive buffer is a queue: what \<open>tcp_recv\<close> copies out followed by what stays
  pending is what was pending before, it copies at most the caller's length, and something whenever
  something is pending.
\<close>

theorem tcp_take_fifo:
  assumes "conn_ok c"
  shows "fst (tcp_take len c) @ pending (snd (tcp_take len c)) = pending c \<and>
    length (fst (tcp_take len c)) = min len (unat (recv_len c)) \<and> conn_ok (snd (tcp_take len c))"
proof -
  define n where "n = min (unat (recv_len c)) len"
  define k where "k = unat (recv_len c) - n"
  have b: "length (recv_buf c) = 2048" "unat (recv_len c) \<le> 2048"
    using assms by (simp_all add: conn_ok_def TCP_RECV_BUF_SIZE_def)
  have nk: "n + k = unat (recv_len c)" "n \<le> 2048" "k \<le> 2048" using b by (simp_all add: n_def k_def)
  have uk: "unat (word_of_nat k :: u16) = k" using nk by (simp add: unsigned_of_nat take_bit_nat_eq_self)
  have tk: "tcp_take len c = (take n (recv_buf c), if k > 0
      then c\<lparr>recv_buf := take k (drop n (recv_buf c)) @ drop k (recv_buf c), recv_len := word_of_nat k\<rparr>
      else c\<lparr>recv_len := 0\<rparr>)"
    by (simp add: tcp_take_def Let_def n_def k_def)
  have "take n (recv_buf c) @ take k (drop n (recv_buf c)) = take (unat (recv_len c)) (recv_buf c)"
    using nk(1) by (metis take_add)
  then show ?thesis
    using b nk uk by (auto simp: tk pending_def conn_ok_def TCP_RECV_BUF_SIZE_def n_def)
qed

theorem tcp_take_fifo_witness:
  "fst (tcp_take 2 (g_tcp_conn net_boot\<lparr>recv_buf := [7, 8, 9] @ replicate 2045 0, recv_len := 3\<rparr>)) @
   pending (snd (tcp_take 2 (g_tcp_conn net_boot\<lparr>recv_buf := [7, 8, 9] @ replicate 2045 0, recv_len := 3\<rparr>))) = [7, 8, 9]"
proof -
  let ?c = "g_tcp_conn net_boot\<lparr>recv_buf := [7, 8, 9] @ replicate 2045 0, recv_len := 3\<rparr>"
  have ok: "conn_ok ?c" by (simp add: conn_ok_def TCP_RECV_BUF_SIZE_def)
  have "pending ?c = [7, 8, 9]" by (simp add: pending_def)
  then show ?thesis using tcp_take_fifo [OF ok, of 2] by simp
qed

text \<open>Sending a segment returns, and leaves everything but the state machine's fields alone.\<close>

lemma tcp_send_segment_settles:
  assumes "length (nic_rx s) < d" and "ticking (clock s)" and "length p \<le> TCP_MSS"
  shows "\<exists>s'. tcp_send_segment (arp_resolve d) fl p s = Some (0, s') \<and>
    length (nic_rx s') \<le> length (nic_rx s) \<and> clock s' = clock s \<and>
    retries (g_tcp_conn s') = retries (g_tcp_conn s)"
proof -
  have "settles s (ip_send (arp_resolve d) (remote_ip (g_tcp_conn s)) IP_PROTO_TCP (tcp_segment (g_tcp_conn s) fl p) s)"
    using ip_send_settles [OF resolver_settles_arp_resolve assms(1,2)] .
  then show ?thesis
    using conn_endpoint.ip_send_keeps [OF conn_endpoint.arp_resolve_keeps, of s d] assms(3)
    by (fastforce simp: settles_def keeps_conn_def tcp_send_segment_def)
qed

lemma timer_ticks_env:
  "timer_ticks s = (t, s1) \<Longrightarrow>
     t = clock s1 (clock_reads s) \<and> nic_rx s1 = nic_rx s \<and> clock s1 = clock s \<and> g_tcp_conn s1 = g_tcp_conn s"
  by (auto simp: timer_ticks_def)

text \<open>Waiting for the answer to a SYN.\<close>

lemma syn_wait_settles:
  assumes "length (nic_rx s) \<le> d" and "ticking (clock s)"
  shows "\<exists>r s'. poll_until (net_poll_once (arp_resolve d)) syn_check (clock s i) TCP_RTO_TICKS s = Some (r, s') \<and>
    length (nic_rx s') \<le> length (nic_rx s) \<and> clock s' = clock s \<and> retries (g_tcp_conn s') = retries (g_tcp_conn s)"
proof -
  have ck: "nic_rx (snd (syn_check s)) = nic_rx s \<and> clock (snd (syn_check s)) = clock s \<and>
      clock_reads (snd (syn_check s)) = clock_reads s" for s
    by (simp add: syn_check_def)
  obtain r s' where w: "poll_until (net_poll_once (arp_resolve d)) syn_check (clock s i) 50 s = Some (r, s')"
    and s': "length (nic_rx s') \<le> length (nic_rx s)" "clock s' = clock s"
    using poller.poll_until_settles [OF ck assms, of i] by (auto simp: settles_def)
  have "retries (g_tcp_conn s') = retries (g_tcp_conn s)"
    using conn_endpoint.poll_until_keeps [OF conn_endpoint.net_poll_once_keeps [OF conn_endpoint.arp_resolve_keeps] _ w]
    by (simp add: syn_check_def)
  then show ?thesis using w s' by (auto simp: TCP_RTO_TICKS_def)
qed

lemma syn_wait_result:
  assumes "poll_until poll syn_check start limit s = Some (Some v, s')"
  shows "v = 0 \<and> cstate (g_tcp_conn s') = TCP_ESTABLISHED \<or> v = - 1 \<and> cstate (g_tcp_conn s') = TCP_CLOSED"
proof -
  define Q where "Q x \<longleftrightarrow> (case x of (None, _) \<Rightarrow> True
     | (Some v, s) \<Rightarrow> v = 0 \<and> cstate (g_tcp_conn s) = TCP_ESTABLISHED \<or> v = - 1 \<and> cstate (g_tcp_conn s) = TCP_CLOSED)"
    for x :: "int option \<times> net"
  have syn: "Q (syn_check s)" for s by (simp add: Q_def syn_check_def)
  have "check = syn_check \<longrightarrow> Q x" if "poll_until poll check start limit s = Some x" for check x
  proof (rule poll_until.raw_induct [OF _ that, of "\<lambda>poll check start limit s x. check = syn_check \<longrightarrow> Q x"], goal_cases)
    case (1 pu poll check start limit s x)
    obtain v s1 where ts: "timer_ticks s = (v, s1)" by fastforce
    show ?case
    proof (cases "v - start < limit")
      case False
      then show ?thesis using 1(2) ts by (auto simp: Q_def)
    next
      case True
      then obtain s2 where more: "(case check s2 of (Some r, s3) \<Rightarrow> Some (Some r, s3)
          | (None, s3) \<Rightarrow> pu poll check start limit s3) = Some x"
        using 1(2) ts by (auto simp: bind_eq_Some_conv)
      obtain r s3 where "check s2 = (r, s3)" by fastforce
      then show ?thesis using more 1(1) [of poll check start limit s3 x] syn [of s2] by (cases r) auto
    qed
  qed
  then have "Q (Some v, s')" using assms by blast
  then show ?thesis by (simp add: Q_def)
qed

lemma tcp_connect_loop_decides:
  assumes "length (nic_rx s) < d" and "ticking (clock s)"
  shows "\<exists>v s'. tcp_connect_loop (arp_resolve d) q s = Some (v, s') \<and> length (nic_rx s') \<le> length (nic_rx s) \<and> clock s' = clock s \<and>
    (v = 0 \<and> cstate (g_tcp_conn s') = TCP_ESTABLISHED \<or> v = - 1 \<and> cstate (g_tcp_conn s') = TCP_CLOSED)"
  using assms
proof (induction "3 - unat (retries (g_tcp_conn s))" arbitrary: s rule: less_induct)
  case less
  show ?case
  proof (cases "cstate (g_tcp_conn s) = TCP_SYN_SENT \<and> unat (retries (g_tcp_conn s)) < TCP_MAX_RETRIES")
    case False
    then show ?thesis by (subst tcp_connect_loop.simps) (auto simp: tcp_connect_failed_def)
  next
    case True
    then have u: "unat (retries (g_tcp_conn s)) < 3" by (simp add: TCP_MAX_RETRIES_def)
    let ?s = "upd_conn (\<lambda>c. c\<lparr>seq_num := q\<rparr>) s"
    obtain s1 where s1: "tcp_send_segment (arp_resolve d) TCP_SYN [] ?s = Some (0, s1)"
      and e1: "length (nic_rx s1) \<le> length (nic_rx s)" "clock s1 = clock s" "retries (g_tcp_conn s1) = retries (g_tcp_conn s)"
      using tcp_send_segment_settles [of ?s d "[]" TCP_SYN] less.prems by auto
    obtain start s2 where ts: "timer_ticks s1 = (start, s2)" by fastforce
    note e2 = timer_ticks_env [OF ts]
    obtain r s3 where w: "poll_until (net_poll_once (arp_resolve d)) syn_check start TCP_RTO_TICKS s2 = Some (r, s3)"
      and e3: "length (nic_rx s3) \<le> length (nic_rx s2)" "clock s3 = clock s2" "retries (g_tcp_conn s3) = retries (g_tcp_conn s2)"
      using syn_wait_settles [of s2 d "clock_reads s1"] less.prems e1 e2 by auto
    show ?thesis
    proof (cases r)
      case (Some v)
      then show ?thesis
        using True s1 ts w e1 e2 e3 syn_wait_result [of _ _ _ s2 v s3] by (subst tcp_connect_loop.simps) (simp add: Let_def)
    next
      case None
      let ?s3 = "upd_conn (\<lambda>c. c\<lparr>retries := retries c + 1\<rparr>) s3"
      have "retries (g_tcp_conn s3) = retries (g_tcp_conn s)" using e1 e2 e3 by simp
      then have "unat (retries (g_tcp_conn ?s3)) = Suc (unat (retries (g_tcp_conn s)))"
        using u by (simp add: unat_add_nowrap)
      then have "\<exists>v s'. tcp_connect_loop (arp_resolve d) q ?s3 = Some (v, s') \<and> length (nic_rx s') \<le> length (nic_rx ?s3) \<and> clock s' = clock ?s3 \<and>
          (v = 0 \<and> cstate (g_tcp_conn s') = TCP_ESTABLISHED \<or> v = - 1 \<and> cstate (g_tcp_conn s') = TCP_CLOSED)"
        using u e1 e2 e3 less.prems by (intro less.hyps) auto
      then show ?thesis
        using True None s1 ts w e1 e2 e3 by (subst tcp_connect_loop.simps) (auto simp: Let_def)
    qed
  qed
qed

lemma tcp_connect_settles:
  assumes "ticking (clock s)" and "length (nic_rx s) < d"
  shows "\<exists>v s'. tcp_connect (arp_resolve d) ip port s = Some (v, s') \<and> length (nic_rx s') \<le> length (nic_rx s) \<and> clock s' = clock s"
proof (cases "cstate (g_tcp_conn s) = TCP_CLOSED")
  case True
  let ?s = "upd_conn (\<lambda>c. c\<lparr>local_ip := OUR_IP_ADDR, remote_ip := ip, local_port := 12345, remote_port := port,
    cstate := TCP_SYN_SENT, retries := 0, waiting_for_ack := True, ack_received := False\<rparr>) s"
  show ?thesis
    using tcp_connect_loop_decides [of ?s d "seq_num (g_tcp_conn ?s)"] assms True by (auto simp: tcp_connect_def Let_def)
qed (simp add: tcp_connect_def)



text \<open>A resolver that finds every address in the cache: it answers at once and handles no frame.\<close>

definition resolver_quiet :: "resolver \<Rightarrow> bool" where
  "resolver_quiet resolve \<longleftrightarrow>
     (\<forall>ip s. \<exists>r s'. resolve ip s = Some (r, s') \<and> g_tcp_conn s' = g_tcp_conn s)"

lemma tcp_ack_quiet:
  assumes "resolver_quiet resolve"
  shows "\<exists>s'. tcp_ack resolve s = Some s' \<and> g_tcp_conn s' = g_tcp_conn s"
proof -
  obtain r s' where r: "resolve (remote_ip (g_tcp_conn s)) (s\<lparr>g_ip_id := g_ip_id s + 1\<rparr>) = Some (r, s')"
    "g_tcp_conn s' = g_tcp_conn s"
    using assms unfolding resolver_quiet_def by fastforce
  then show ?thesis
    unfolding tcp_ack_ip_send
    by (cases r) (auto simp: ip_send_def Let_def eth_send_def rtl8139_send_def)
qed


lemma quiet_example: "resolver_quiet (\<lambda>ip s. Some (None, s))"
  by (simp add: resolver_quiet_def)


text \<open>
  The field \<open>ack_num\<close> holds both the next sequence number expected from the peer and the
  highest acknowledgement received. A segment in order whose acknowledgement is above its sequence
  number (a peer that started counting below our own number) is refused, and its acknowledgement
  replaces the expected number, so that its retransmission is refused as well.
\<close>

theorem tcp_data_refused_by_ack:
  assumes "resolver_quiet resolve" and "recv_len (g_tcp_conn s) = 0" and "payload \<noteq> []"
    and "sq = ack_num (g_tcp_conn s)" and "sq < ak" and "flag_set flags TCP_ACK"
    and "\<not> flag_set flags TCP_RST"
  shows "\<exists>s'. tcp_on_established resolve flags sq ak payload s = Some s' \<and>
    pending (g_tcp_conn s') = [] \<and> ack_num (g_tcp_conn s') = ak \<and>
    (\<exists>s''. tcp_on_established resolve flags sq ak payload s' = Some s'' \<and> pending (g_tcp_conn s'') = [])"
proof -
  have refuse: "\<exists>s'. tcp_on_established resolve flags sq ak payload t = Some s' \<and>
      recv_len (g_tcp_conn s') = 0 \<and> ack_num (g_tcp_conn s') = ak"
    if "recv_len (g_tcp_conn t) = 0" "ack_num (g_tcp_conn t) \<le> ak" for t
  proof -
    obtain s' where "tcp_ack resolve (tcp_note_ack flags ak t) = Some s'"
      "g_tcp_conn s' = g_tcp_conn (tcp_note_ack flags ak t)"
      using tcp_ack_quiet [OF assms(1)] by blast
    moreover have "sq \<noteq> ak" using assms(5) by simp
    ultimately show ?thesis
      using assms(3,6,7) that by (simp add: tcp_on_established_def tcp_on_payload_def tcp_note_ack_def)
  qed
  obtain s' where s': "tcp_on_established resolve flags sq ak payload s = Some s'"
    "recv_len (g_tcp_conn s') = 0" "ack_num (g_tcp_conn s') = ak"
    using refuse [of s] assms(2,4) less_imp_le [OF assms(5)] by blast
  then show ?thesis using refuse [of s'] by (auto simp: pending_def)
qed

theorem tcp_data_refused_by_ack_witness:
  "\<exists>s'. tcp_on_established (\<lambda>ip s. Some (None, s)) TCP_ACK 0 1001 [65] net_boot = Some s' \<and>
     pending (g_tcp_conn s') = []"
proof -
  have h: "recv_len (g_tcp_conn net_boot) = 0" "0 = ack_num (g_tcp_conn net_boot)"
    by (simp_all add: net_boot_def)
  have f: "flag_set TCP_ACK TCP_ACK" "\<not> flag_set TCP_ACK TCP_RST"
    by (simp_all add: flag_set_def tcp_consts)
  show ?thesis
    using tcp_data_refused_by_ack [OF quiet_example h(1) _ h(2) _ f, of "[65]" 1001] by auto
qed

text \<open>
  For the same reason \<open>tcp_send\<close> reports success without an acknowledgement: with a peer
  whose numbers lie above ours, sending three bytes while no frame at all arrives returns 3 after
  one transmission.
\<close>

declare poll_until.simps [code]

theorem tcp_send_without_ack:
  "map_option (\<lambda>(v, s). (v, length (nic_tx s), seq_num (g_tcp_conn s)))
     (tcp_send (arp_resolve 1) [1, 2, 3]
       (arp_cache_add 0x0A000202 [1, 2, 3, 4, 5, 6] (upd_conn (\<lambda>c. c\<lparr>cstate := TCP_ESTABLISHED,
          local_ip := OUR_IP_ADDR, remote_ip := 0x0A000202, local_port := 12345, remote_port := 80,
          seq_num := 1001, ack_num := 5001\<rparr>) net_boot))) = Some (3, 1, 1004)"
  by code_simp

end
