(* ===== verification/Fat12.thy ===== *)
theory Fat12
  imports Heap
begin

text \<open>
  The FAT12 file system (\<open>Kernel/fs/fat12.c\<close>). The mounted volume is the record \<open>fat12_fs_t\<close>, with
  the in-memory copies of the FAT and of the root directory as byte lists; the block driver is an
  argument (\<open>blk_ops\<close>, the operations of \<open>driver_ops_t\<close> that the file system calls), with its own
  state. Buffers come from the kernel heap (theory \<open>Heap\<close>): the model allocates and frees them there
  and keeps their contents as separate lists.

  The result \<open>None\<close> of an operation means that the C code has no defined result: an access outside a
  buffer, or a division by zero. Integer expressions of type \<open>int\<close> are natural numbers (on overflow C
  defines nothing); \<open>uint32_t\<close> and \<open>uint16_t\<close> expressions are words and wrap around. File names are
  byte lists without the final NUL.
\<close>

section \<open>Data\<close>

text \<open>
  The driver operations: \<open>ioctl\<close> with \<open>ATA_IOCTL_SEEK\<close> (true for result 0), \<open>read\<close> and \<open>write\<close> with
  the number of bytes transferred as result.
\<close>

record 'd blk_ops =
  drv_seek :: "u32 \<Rightarrow> 'd \<Rightarrow> bool \<times> 'd"
  drv_read :: "nat \<Rightarrow> 'd \<Rightarrow> int \<times> bytes \<times> 'd"
  drv_write :: "bytes \<Rightarrow> 'd \<Rightarrow> int \<times> 'd"

record file_info_t =
  fi_name :: bytes
  fi_attributes :: u8
  fi_first_cluster :: u16
  fi_size :: u32

record fat12_fs_t =
  bytes_per_sector :: u16
  sectors_per_cluster :: u8
  reserved_sectors :: u16
  num_fats :: u8
  sectors_per_fat :: u16
  root_entry_count :: u16
  root_dir_sectors :: u32
  first_data_sector :: u32
  total_sectors :: u32
  fat :: bytes
  root_dir :: bytes

definition ATA_SECTOR_SIZE :: nat where "ATA_SECTOR_SIZE = 512"
definition SIZEOF_FS :: u32 where "SIZEOF_FS = 36"

text \<open>The size of the loaded FAT in bytes (the products of two \<open>uint16_t\<close> are \<open>int\<close>).\<close>

definition fat_bytes :: "fat12_fs_t \<Rightarrow> nat" where
  "fat_bytes fs = unat (sectors_per_fat fs) * unat (bytes_per_sector fs)"

section \<open>Names\<close>

definition fs_toupper :: "u8 \<Rightarrow> u8" where
  "fs_toupper c = (if 97 \<le> c \<and> c \<le> 122 then c - 97 + 65 else c)"

text \<open>The position of the first dot, as \<open>fs_strchr\<close> finds it; \<open>None\<close> for \<open>NULL\<close>.\<close>

definition fs_strchr :: "bytes \<Rightarrow> u8 \<Rightarrow> nat option" where
  "fs_strchr s c = find (\<lambda>i. s ! i = c) [0 ..< length s]"

definition fat12_format_name :: "bytes \<Rightarrow> bytes" where
  "fat12_format_name name =
     (let (base, ext) = (case fs_strchr name 46 of
                           None \<Rightarrow> (name, [])
                         | Some i \<Rightarrow> (take i name, drop (Suc i) name));
          b = map fs_toupper (take 8 base); e = map fs_toupper (take 3 ext)
      in b @ replicate (8 - length b) 32 @ e @ replicate (3 - length e) 32)"

text \<open>
  Both arguments are 11 bytes. (The code calls \<open>fs_strlen\<close> on the second, which is not terminated;
  whatever length it finds there is at least 11, for a formatted name holds no zero byte.)
\<close>

definition name_match :: "bytes \<Rightarrow> bytes \<Rightarrow> bool" where
  "name_match e target \<longleftrightarrow> map fs_toupper (take 11 e) = map fs_toupper (take 11 target)"

section \<open>Sectors\<close>

definition read_sector :: "'d blk_ops \<Rightarrow> u32 \<Rightarrow> 'd \<Rightarrow> bytes option \<times> 'd" where
  "read_sector drv sector d =
     (let (ok, d1) = drv_seek drv sector d in
      if \<not> ok then (None, d1)
      else (let (res, bs, d2) = drv_read drv ATA_SECTOR_SIZE d1 in
            if res = int ATA_SECTOR_SIZE then (Some bs, d2) else (None, d2)))"

definition write_sector :: "'d blk_ops \<Rightarrow> u32 \<Rightarrow> bytes \<Rightarrow> 'd \<Rightarrow> bool \<times> 'd" where
  "write_sector drv sector buf d =
     (let (ok, d1) = drv_seek drv sector d in
      if \<not> ok then (False, d1)
      else (let (res, d2) = drv_write drv buf d1 in (res = int ATA_SECTOR_SIZE, d2)))"

section \<open>The file allocation table\<close>

definition get_fat_entry :: "fat12_fs_t \<Rightarrow> u16 \<Rightarrow> u16 option" where
  "get_fat_entry fs cluster =
     (let offset = unat cluster * 3 div 2 in
      if offset + 1 \<ge> fat_bytes fs then Some 0xFFF
      else do { b0 \<leftarrow> arr_get (fat fs) offset;
                b1 \<leftarrow> arr_get (fat fs) (offset + 1);
                Some ((if cluster AND 1 \<noteq> 0
                       then drop_bit 4 (ucast b0) OR push_bit 4 (ucast b1)
                       else ucast b0 OR push_bit 8 (ucast (b1 AND 0x0F))) AND 0x0FFF) })"

definition set_fat_entry :: "u16 \<Rightarrow> u16 \<Rightarrow> fat12_fs_t \<Rightarrow> fat12_fs_t option" where
  "set_fat_entry cluster v fs =
     (let offset = unat cluster * 3 div 2 in
      do { b0 \<leftarrow> arr_get (fat fs) offset;
           b1 \<leftarrow> arr_get (fat fs) (offset + 1);
           (let (c0, c1) =
              (if cluster AND 1 \<noteq> 0
               then ((b0 AND 0x0F) OR push_bit 4 (ucast (v AND 0x0F)), ucast (drop_bit 4 v AND 0xFF))
               else (ucast (v AND 0xFF), (b1 AND 0xF0) OR ucast (drop_bit 8 v AND 0x0F)))
            in Some (fs\<lparr>fat := (fat fs)[offset := c0, offset + 1 := c1]\<rparr>)) })"

definition cluster_to_sector :: "fat12_fs_t \<Rightarrow> u16 \<Rightarrow> u32" where
  "cluster_to_sector fs cluster =
     first_data_sector fs + (ucast cluster - 2) * ucast (sectors_per_cluster fs)"

text \<open>Division by \<open>sectors_per_cluster\<close> is undefined for 0.\<close>

definition fat12_max_cluster :: "fat12_fs_t \<Rightarrow> u16 option" where
  "fat12_max_cluster fs =
     (if sectors_per_cluster fs = 0 then None
      else
        (let data_sectors = total_sectors fs - first_data_sector fs;
             data_clusters = data_sectors div ucast (sectors_per_cluster fs);
             mc = 2 + data_clusters
         in Some (if mc \<ge> 0xFF0 then 0xFEF else ucast mc)))"

text \<open>The first free cluster in a list of candidates, tried in order.\<close>

fun first_free :: "fat12_fs_t \<Rightarrow> nat list \<Rightarrow> u16 option" where
  "first_free fs [] = Some 0"
| "first_free fs (c # cs) =
     do { v \<leftarrow> get_fat_entry fs (word_of_nat c);
          if v = 0 then Some (word_of_nat c) else first_free fs cs }"

definition fat12_find_free_cluster :: "fat12_fs_t \<Rightarrow> u16 \<Rightarrow> u16 option" where
  "fat12_find_free_cluster fs start0 =
     do { mx \<leftarrow> fat12_max_cluster fs;
          let start = (if start0 < 2 then 2 else start0);
          first_free fs [unat start ..< unat mx] }"

text \<open>
  Freeing a chain. Every step reads an entry and clears it; that the loop ends is shown in theory
  \<open>Fat12_Chain\<close>.
\<close>

partial_function (option) fat12_free_chain :: "u16 \<Rightarrow> fat12_fs_t \<Rightarrow> fat12_fs_t option" where
  "fat12_free_chain c fs =
     (if c \<ge> 2 \<and> c < 0xFF0
      then do { nx \<leftarrow> get_fat_entry fs c;
                fs1 \<leftarrow> set_fat_entry c 0 fs;
                fat12_free_chain nx fs1 }
      else Some fs)"

text \<open>The loop of \<open>fat12_alloc_chain\<close> with \<open>n\<close> clusters to go.\<close>

fun alloc_loop :: "nat \<Rightarrow> u16 \<Rightarrow> u16 \<Rightarrow> fat12_fs_t \<Rightarrow> (u16 \<times> fat12_fs_t) option" where
  "alloc_loop 0 first prev fs = Some (first, fs)"
| "alloc_loop (Suc n) first prev fs =
     do { cl \<leftarrow> fat12_find_free_cluster fs (if prev \<noteq> 0 then prev + 1 else 2);
          if cl = 0
          then do { fs1 \<leftarrow> (if first \<noteq> 0 then fat12_free_chain first fs else Some fs); Some (0, fs1) }
          else do { fs1 \<leftarrow> (if prev \<noteq> 0 then set_fat_entry prev cl fs else Some fs);
                    fs2 \<leftarrow> set_fat_entry cl 0xFFF fs1;
                    alloc_loop n (if prev \<noteq> 0 then first else cl) cl fs2 } }"

definition fat12_alloc_chain :: "nat \<Rightarrow> fat12_fs_t \<Rightarrow> (u16 \<times> fat12_fs_t) option" where
  "fat12_alloc_chain n fs = (if n = 0 then Some (0, fs) else alloc_loop n 0 0 fs)"

section \<open>Writing back\<close>

text \<open>The 512 bytes at an offset of a buffer that \<open>write_sector\<close> transfers.\<close>

fun write_range :: "'d blk_ops \<Rightarrow> bytes \<Rightarrow> nat \<Rightarrow> u32 \<Rightarrow> nat list \<Rightarrow> 'd \<Rightarrow> (bool \<times> 'd) option" where
  "write_range drv buf bps base [] d = Some (True, d)"
| "write_range drv buf bps base (i # is) d =
     do { bs \<leftarrow> arr_slice buf (i * bps) ATA_SECTOR_SIZE;
          let (ok, d1) = write_sector drv (base + word_of_nat i) bs d;
          if ok then write_range drv buf bps base is d1 else Some (False, d1) }"

definition flush_root :: "'d blk_ops \<Rightarrow> fat12_fs_t \<Rightarrow> 'd \<Rightarrow> (bool \<times> 'd) option" where
  "flush_root drv fs d =
     (let root_start = word_of_nat (unat (reserved_sectors fs) + unat (num_fats fs) * unat (sectors_per_fat fs))
      in write_range drv (root_dir fs) (unat (bytes_per_sector fs)) root_start
           [0 ..< unat (root_dir_sectors fs)] d)"

fun flush_fats :: "'d blk_ops \<Rightarrow> fat12_fs_t \<Rightarrow> nat list \<Rightarrow> 'd \<Rightarrow> (bool \<times> 'd) option" where
  "flush_fats drv fs [] d = Some (True, d)"
| "flush_fats drv fs (k # ks) d =
     do { (ok, d1) \<leftarrow> write_range drv (fat fs) (unat (bytes_per_sector fs))
            (word_of_nat (unat (reserved_sectors fs) + k * unat (sectors_per_fat fs)))
            [0 ..< unat (sectors_per_fat fs)] d;
          if ok then flush_fats drv fs ks d1 else Some (False, d1) }"

definition fat12_flush_fat :: "'d blk_ops \<Rightarrow> fat12_fs_t \<Rightarrow> 'd \<Rightarrow> (bool \<times> 'd) option" where
  "fat12_flush_fat drv fs d = flush_fats drv fs [0 ..< unat (num_fats fs)] d"

section \<open>Mounting\<close>

definition le16 :: "bytes \<Rightarrow> nat \<Rightarrow> u16" where
  "le16 bs i = ucast (bs ! i) OR push_bit 8 (ucast (bs ! (i + 1)))"

definition le32 :: "bytes \<Rightarrow> nat \<Rightarrow> u32" where
  "le32 bs i = ucast (bs ! i) OR push_bit 8 (ucast (bs ! (i + 1))) OR
     push_bit 16 (ucast (bs ! (i + 2))) OR push_bit 24 (ucast (bs ! (i + 3)))"

text \<open>The BIOS parameter block of the boot sector; division by zero sector size is undefined.\<close>

definition parse_bpb :: "bytes \<Rightarrow> fat12_fs_t option" where
  "parse_bpb boot =
     (let bps = le16 boot 11; rec = le16 boot 17; res = le16 boot 14; nf = boot ! 16; spf = le16 boot 22;
          tot16 = le16 boot 19; tot = (if tot16 = 0 then le32 boot 32 else ucast tot16)
      in if bps = 0 then None
         else
           (let rds = (unat rec * 32 + (unat bps - 1)) div unat bps in
            Some \<lparr>bytes_per_sector = bps, sectors_per_cluster = boot ! 13, reserved_sectors = res,
                  num_fats = nf, sectors_per_fat = spf, root_entry_count = rec,
                  root_dir_sectors = word_of_nat rds,
                  first_data_sector = word_of_nat (unat res + unat nf * unat spf) + word_of_nat rds,
                  total_sectors = tot, fat = [], root_dir = []\<rparr>))"

text \<open>Reading sectors into a buffer, each 512 bytes at its offset.\<close>

fun read_range :: "'d blk_ops \<Rightarrow> nat \<Rightarrow> u32 \<Rightarrow> nat list \<Rightarrow> bytes \<Rightarrow> 'd \<Rightarrow> (bytes option \<times> 'd) option" where
  "read_range drv bps base [] buf d = Some (Some buf, d)"
| "read_range drv bps base (i # is) buf d =
     (case read_sector drv (base + word_of_nat i) d of
        (None, d1) \<Rightarrow> Some (None, d1)
      | (Some bs, d1) \<Rightarrow> do { buf1 \<leftarrow> arr_write buf (i * bps) bs;
                             read_range drv bps base is buf1 d1 })"

text \<open>
  The heap blocks a mount takes: the context, the boot sector, the FAT and the root directory, freed
  again in the order of the code on every failure. The result carries the blocks of the context, the
  FAT and the directory, which \<open>fat12_unmount\<close> frees. Argument \<open>blk\<close>: whether the driver was found
  under its name and is a block device.
\<close>

definition free_all :: "u32 list \<Rightarrow> heap_t \<Rightarrow> heap_t option" where
  "free_all ps h = foldl (\<lambda>m p. Option.bind m (kfree p)) (Some h) ps"

definition fat12_mount ::
  "bool \<Rightarrow> 'd blk_ops \<Rightarrow> heap_t \<Rightarrow> 'd \<Rightarrow> ((fat12_fs_t \<times> u32 \<times> u32 \<times> u32) option \<times> heap_t \<times> 'd) option" where
  "fat12_mount blk drv h d =
     (if \<not> blk then Some (None, h, d)
      else do {
        (pfs, h1) \<leftarrow> kmalloc SIZEOF_FS h;
        if pfs = 0 then Some (None, h1, d)
        else do {
          (pboot, h2) \<leftarrow> kmalloc 512 h1;
          if pboot = 0 then do { h3 \<leftarrow> free_all [pfs] h2; Some (None, h3, d) }
          else (case read_sector drv 0 d of
            (None, d1) \<Rightarrow> do { h3 \<leftarrow> free_all [pboot, pfs] h2; Some (None, h3, d1) }
          | (Some boot, d1) \<Rightarrow> do {
              fs \<leftarrow> parse_bpb boot;
              (pfat, h3) \<leftarrow> kmalloc (word_of_nat (fat_bytes fs)) h2;
              if pfat = 0 then do { h4 \<leftarrow> free_all [pboot, pfs] h3; Some (None, h4, d1) }
              else do {
                (rf, d2) \<leftarrow> read_range drv (unat (bytes_per_sector fs)) (ucast (reserved_sectors fs))
                  [0 ..< unat (sectors_per_fat fs)] (replicate (fat_bytes fs) 0) d1;
                case rf of
                  None \<Rightarrow> do { h4 \<leftarrow> free_all [pfat, pboot, pfs] h3; Some (None, h4, d2) }
                | Some fb \<Rightarrow> (let root_size = root_dir_sectors fs * ucast (bytes_per_sector fs) in do {
                    (proot, h4) \<leftarrow> kmalloc root_size h3;
                    if proot = 0 then do { h5 \<leftarrow> free_all [pfat, pboot, pfs] h4; Some (None, h5, d2) }
                    else do {
                      (rr, d3) \<leftarrow> read_range drv (unat (bytes_per_sector fs))
                        (word_of_nat (unat (reserved_sectors fs) + unat (num_fats fs) * unat (sectors_per_fat fs)))
                        [0 ..< unat (root_dir_sectors fs)] (replicate (unat root_size) 0) d2;
                      case rr of
                        None \<Rightarrow> do { h5 \<leftarrow> free_all [proot, pfat, pboot, pfs] h4; Some (None, h5, d3) }
                      | Some rb \<Rightarrow> do {
                          h5 \<leftarrow> free_all [pboot] h4;
                          Some (Some (fs\<lparr>fat := fb, root_dir := rb\<rparr>, pfs, pfat, proot), h5, d3) } } }) } }) } })"

definition fat12_unmount :: "u32 \<times> u32 \<times> u32 \<Rightarrow> heap_t \<Rightarrow> heap_t option" where
  "fat12_unmount blks h = (case blks of (pfs, pfat, proot) \<Rightarrow>
     free_all ((if pfat \<noteq> 0 then [pfat] else []) @ (if proot \<noteq> 0 then [proot] else []) @ [pfs]) h)"

section \<open>The root directory\<close>

text \<open>The offset of the first slot, in order, that is unused or deleted.\<close>

fun free_slot :: "bytes \<Rightarrow> nat list \<Rightarrow> nat option option" where
  "free_slot dir [] = Some None"
| "free_slot dir (i # is) =
     do { b \<leftarrow> arr_get dir (i * 32);
          if b = 0x00 \<or> b = 0xE5 then Some (Some (i * 32)) else free_slot dir is }"

definition find_free_dir_slot :: "fat12_fs_t \<Rightarrow> nat option option" where
  "find_free_dir_slot fs = free_slot (root_dir fs) [0 ..< unat (root_entry_count fs)]"

text \<open>The offset of the entry with a formatted name; the search ends at an unused slot.\<close>

fun dir_entry :: "bytes \<Rightarrow> bytes \<Rightarrow> nat list \<Rightarrow> nat option option" where
  "dir_entry dir fname [] = Some None"
| "dir_entry dir fname (i # is) =
     do { e \<leftarrow> arr_slice dir (i * 32) 32;
          if e ! 0 = 0x00 then Some None
          else if e ! 0 = 0xE5 \<or> e ! 11 = 0x0F then dir_entry dir fname is
          else if name_match e fname then Some (Some (i * 32))
          else dir_entry dir fname is }"

definition find_dir_entry :: "fat12_fs_t \<Rightarrow> bytes \<Rightarrow> nat option option" where
  "find_dir_entry fs fname = dir_entry (root_dir fs) fname [0 ..< unat (root_entry_count fs)]"

definition fat12_find_file :: "fat12_fs_t \<Rightarrow> bytes \<Rightarrow> file_info_t option option" where
  "fat12_find_file fs name =
     do { o1 \<leftarrow> dir_entry (root_dir fs) (fat12_format_name name) [0 ..< unat (root_entry_count fs)];
          Some (map_option (\<lambda>off. (let e = take 32 (drop off (root_dir fs)) in
             \<lparr>fi_name = take 11 e, fi_attributes = e ! 11, fi_first_cluster = le16 e 26,
              fi_size = le32 e 28\<rparr>)) o1) }"

section \<open>File contents\<close>

text \<open>
  The sectors of one cluster, from sector \<open>s\<close> on: \<open>copy\<close> bytes of the sector buffer, which has 512.
  The result is the buffer filled so far, or \<open>None\<close> for a failed transfer.
\<close>

fun read_cluster ::
  "'d blk_ops \<Rightarrow> fat12_fs_t \<Rightarrow> u32 \<Rightarrow> nat \<Rightarrow> nat list \<Rightarrow> bytes \<Rightarrow> 'd \<Rightarrow> (bytes option \<times> 'd) option" where
  "read_cluster drv fs sector sz [] acc d = Some (Some acc, d)"
| "read_cluster drv fs sector sz (s # ss) acc d =
     (if length acc \<ge> sz then Some (Some acc, d)
      else
        (case read_sector drv (sector + word_of_nat s) d of
           (None, d1) \<Rightarrow> Some (None, d1)
         | (Some buf, d1) \<Rightarrow>
             (let bps = unat (bytes_per_sector fs); spc = unat (sectors_per_cluster fs);
                  copy = min (bps * spc - s * bps) (sz - length acc)
              in do { part \<leftarrow> arr_slice buf 0 copy;
                      read_cluster drv fs sector sz ss (acc @ part) d1 })))"

partial_function (option) read_chain ::
  "'d blk_ops \<Rightarrow> fat12_fs_t \<Rightarrow> nat \<Rightarrow> u16 \<Rightarrow> bytes \<Rightarrow> 'd \<Rightarrow> (bytes option \<times> 'd) option" where
  "read_chain drv fs sz cluster acc d =
     (if cluster < 0xFF8 \<and> length acc < sz
      then do { (r, d1) \<leftarrow> read_cluster drv fs (cluster_to_sector fs cluster) sz
                            [0 ..< unat (sectors_per_cluster fs)] acc d;
                case r of
                  None \<Rightarrow> Some (None, d1)
                | Some acc1 \<Rightarrow> do { nx \<leftarrow> get_fat_entry fs cluster;
                                    read_chain drv fs sz nx acc1 d1 } }
      else Some (Some acc, d))"

text \<open>
  The result: the buffer's address and the bytes written into it (a chain that ends early leaves the
  rest of the buffer as \<open>kmalloc\<close> returned it), or \<open>None\<close> for \<open>NULL\<close>.
\<close>

definition fat12_read_file ::
  "'d blk_ops \<Rightarrow> fat12_fs_t \<Rightarrow> file_info_t \<Rightarrow> heap_t \<Rightarrow> 'd \<Rightarrow> ((u32 \<times> bytes) option \<times> heap_t \<times> 'd) option" where
  "fat12_read_file drv fs info h d =
     (if fi_size info = 0 then Some (None, h, d)
      else do {
        (p, h1) \<leftarrow> kmalloc (fi_size info) h;
        if p = 0 then Some (None, h1, d)
        else do {
          (r, d1) \<leftarrow> read_chain drv fs (unat (fi_size info)) (fi_first_cluster info) [] d;
          case r of
            None \<Rightarrow> do { h2 \<leftarrow> kfree p h1; Some (None, h2, d1) }
          | Some bs \<Rightarrow> Some (Some (p, bs), h1, d1) } })"

text \<open>The sectors of one cluster of a file being written; \<open>chunk\<close> holds the cluster's bytes.\<close>

fun write_cluster ::
  "'d blk_ops \<Rightarrow> fat12_fs_t \<Rightarrow> u32 \<Rightarrow> nat list \<Rightarrow> bytes \<Rightarrow> 'd \<Rightarrow> (bool \<times> 'd) option" where
  "write_cluster drv fs sector [] chunk d = Some (True, d)"
| "write_cluster drv fs sector (s # ss) chunk d =
     (let copy = min (length chunk) (unat (bytes_per_sector fs)) in
      if copy = 0 then Some (True, d)
      else if copy > 512 then None
      else
        (let (ok, d1) = write_sector drv (sector + word_of_nat s)
                          (take copy chunk @ replicate (512 - copy) 0) d
         in if ok then write_cluster drv fs sector ss (drop copy chunk) d1 else Some (False, d1)))"

partial_function (option) write_data_to_clusters ::
  "'d blk_ops \<Rightarrow> fat12_fs_t \<Rightarrow> u16 \<Rightarrow> bytes \<Rightarrow> 'd \<Rightarrow> (bool \<times> 'd) option" where
  "write_data_to_clusters drv fs cluster p d =
     (if cluster \<ge> 2 \<and> cluster < 0xFF0 \<and> p \<noteq> []
      then
        (let bpc = unat (bytes_per_sector fs) * unat (sectors_per_cluster fs);
             chunk = take bpc p in
         do { (ok, d1) \<leftarrow> write_cluster drv fs (cluster_to_sector fs cluster)
                            [0 ..< unat (sectors_per_cluster fs)] chunk d;
              if \<not> ok then Some (False, d1)
              else do { nx \<leftarrow> get_fat_entry fs cluster;
                        write_data_to_clusters drv fs nx (drop bpc p) d1 } })
      else Some (True, d))"

section \<open>Changing files\<close>

text \<open>Bytes of an entry: cluster and size fields, and a fresh entry.\<close>

definition entry_tail :: "u16 \<Rightarrow> u32 \<Rightarrow> bytes" where
  "entry_tail first sz =
     [ucast (first AND 0xFF), ucast (drop_bit 8 first AND 0xFF),
      ucast (sz AND 0xFF), ucast (drop_bit 8 sz AND 0xFF),
      ucast (drop_bit 16 sz AND 0xFF), ucast (drop_bit 24 sz AND 0xFF)]"

definition put_entry :: "nat \<Rightarrow> nat \<Rightarrow> bytes \<Rightarrow> fat12_fs_t \<Rightarrow> fat12_fs_t option" where
  "put_entry off k bs fs = do { dir \<leftarrow> arr_write (root_dir fs) (off + k) bs; Some (fs\<lparr>root_dir := dir\<rparr>) }"

definition flush_both :: "'d blk_ops \<Rightarrow> fat12_fs_t \<Rightarrow> 'd \<Rightarrow> (bool \<times> fat12_fs_t \<times> 'd) option" where
  "flush_both drv fs d =
     do { (ok1, d1) \<leftarrow> fat12_flush_fat drv fs d;
          if \<not> ok1 then Some (False, fs, d1)
          else do { (ok2, d2) \<leftarrow> flush_root drv fs d1; Some (ok2, fs, d2) } }"

text \<open>
  The commit of \<open>fat12_write_file\<close>: the cluster and size fields, the release of the old chain, the
  rest of a new entry, and both write-backs.
\<close>

definition write_commit ::
  "'d blk_ops \<Rightarrow> nat \<Rightarrow> bool \<Rightarrow> bytes \<Rightarrow> u16 \<Rightarrow> u16 \<Rightarrow> u32 \<Rightarrow> fat12_fs_t \<Rightarrow> 'd \<Rightarrow> (bool \<times> fat12_fs_t \<times> 'd) option" where
  "write_commit drv off created fname old_first first sz fs d =
     do { fs1 \<leftarrow> put_entry off 26 (entry_tail first sz) fs;
          fs2 \<leftarrow> (if old_first \<ge> 2 \<and> old_first \<noteq> first then fat12_free_chain old_first fs1 else Some fs1);
          fs3 \<leftarrow> (if created then put_entry off 0 (fname @ [0x20] @ replicate 14 0 @ replicate 6 0) fs2
                  else Some fs2);
          fs4 \<leftarrow> put_entry off 26 (entry_tail first sz) fs3;
          flush_both drv fs4 d }"

definition fat12_write_file ::
  "'d blk_ops \<Rightarrow> bytes \<Rightarrow> bytes \<Rightarrow> fat12_fs_t \<Rightarrow> 'd \<Rightarrow> (bool \<times> fat12_fs_t \<times> 'd) option" where
  "fat12_write_file drv name data fs d =
     (let fname = fat12_format_name name; sz = word_of_nat (length data) :: u32 in
      do { o1 \<leftarrow> find_dir_entry fs fname;
           o2 \<leftarrow> (case o1 of Some off \<Rightarrow> Some (Some off) | None \<Rightarrow> find_free_dir_slot fs);
           case o2 of
             None \<Rightarrow> Some (False, fs, d)
           | Some off \<Rightarrow>
               do { e \<leftarrow> arr_slice (root_dir fs) off 32;
                    let old_first = le16 e 26;
                    let created = (o1 = None);
                    if sz = 0 then write_commit drv off created fname old_first 0 sz fs d
                    else
                      (let bpc = word_of_nat (unat (bytes_per_sector fs) * unat (sectors_per_cluster fs)) :: u32 in
                       if bpc = 0 then None
                       else do {
                         (first, fs1) \<leftarrow> fat12_alloc_chain (unat ((sz + bpc - 1) div bpc)) fs;
                         if first = 0 then Some (False, fs1, d)
                         else do {
                           (ok, d1) \<leftarrow> write_data_to_clusters drv fs1 first data d;
                           if \<not> ok
                           then do { fs2 \<leftarrow> fat12_free_chain first fs1;
                                     (_, d2) \<leftarrow> fat12_flush_fat drv fs2 d1;
                                     Some (False, fs2, d2) }
                           else write_commit drv off created fname old_first first sz fs1 d1 } }) } })"

definition fat12_create_file ::
  "'d blk_ops \<Rightarrow> bytes \<Rightarrow> fat12_fs_t \<Rightarrow> 'd \<Rightarrow> (bool \<times> fat12_fs_t \<times> 'd) option" where
  "fat12_create_file drv name fs d =
     do { fi \<leftarrow> fat12_find_file fs name;
          if fi \<noteq> None then Some (False, fs, d)
          else do {
            o1 \<leftarrow> find_free_dir_slot fs;
            case o1 of
              None \<Rightarrow> Some (False, fs, d)
            | Some off \<Rightarrow>
                do { fs1 \<leftarrow> put_entry off 0 (fat12_format_name name @ [0x20] @ replicate 20 0) fs;
                     (ok, d1) \<leftarrow> flush_root drv fs1 d;
                     Some (ok, fs1, d1) } } }"

text \<open>The first sector of a new directory: the entries \<open>.\<close> and \<open>..\<close>.\<close>

definition dir_body :: "u16 \<Rightarrow> bytes" where
  "dir_body cluster =
     [46] @ replicate 10 32 @ [0x10] @ replicate 14 0 @
       [ucast (cluster AND 0xFF), ucast (drop_bit 8 cluster AND 0xFF)] @ replicate 4 0 @
     [46, 46] @ replicate 9 32 @ [0x10] @ replicate 20 0 @ replicate 448 0"

definition fat12_create_dir ::
  "'d blk_ops \<Rightarrow> bytes \<Rightarrow> fat12_fs_t \<Rightarrow> 'd \<Rightarrow> (bool \<times> fat12_fs_t \<times> 'd) option" where
  "fat12_create_dir drv name fs d =
     do { fi \<leftarrow> fat12_find_file fs name;
          if fi \<noteq> None then Some (False, fs, d)
          else do {
            o1 \<leftarrow> find_free_dir_slot fs;
            case o1 of
              None \<Rightarrow> Some (False, fs, d)
            | Some off \<Rightarrow>
                do { (cluster, fs1) \<leftarrow> fat12_alloc_chain 1 fs;
                     if cluster = 0 then Some (False, fs1, d)
                     else
                       (let (ok, d1) = write_sector drv (cluster_to_sector fs1 cluster) (dir_body cluster) d in
                        if \<not> ok then do { fs2 \<leftarrow> fat12_free_chain cluster fs1; Some (False, fs2, d1) }
                        else do {
                          fs2 \<leftarrow> put_entry off 0 (fat12_format_name name @ [0x10] @ replicate 14 0 @
                            entry_tail cluster 0) fs1;
                          flush_both drv fs2 d1 }) } } }"

definition fat12_delete_file ::
  "'d blk_ops \<Rightarrow> bytes \<Rightarrow> fat12_fs_t \<Rightarrow> 'd \<Rightarrow> (bool \<times> fat12_fs_t \<times> 'd) option" where
  "fat12_delete_file drv name fs d =
     do { o1 \<leftarrow> find_dir_entry fs (fat12_format_name name);
          case o1 of
            None \<Rightarrow> Some (False, fs, d)
          | Some off \<Rightarrow>
              do { e \<leftarrow> arr_slice (root_dir fs) off 32;
                   fs1 \<leftarrow> (if le16 e 26 \<ge> 2 then fat12_free_chain (le16 e 26) fs else Some fs);
                   fs2 \<leftarrow> put_entry off 0 [0xE5] fs1;
                   flush_both drv fs2 d } }"

end
