(* ===== verification/Fat12_Chain.thy ===== *)
theory Fat12_Chain
  imports Fat12
begin

text \<open>
  The file allocation table: its 12-bit entries as an abstract function from cluster numbers, what
  setting one entry does to it, and the allocation and release of chains on top of that.
\<close>

section \<open>Packing two entries into three bytes\<close>

lemma masks8: "(0x0F :: u8) = mask 4" "(0xF0 :: u8) = push_bit 4 (mask 4)"
  by (simp_all add: mask_eq_exp_minus_1)

lemma masks16: "(0x0F :: u16) = mask 4" "(0xFF :: u16) = mask 8" "(0x0FFF :: u16) = mask 12"
  by (simp_all add: mask_eq_exp_minus_1)

definition low_entry :: "u8 \<Rightarrow> u8 \<Rightarrow> u16" where
  "low_entry b0 b1 = (ucast b0 OR push_bit 8 (ucast (b1 AND 0x0F))) AND 0x0FFF"

definition high_entry :: "u8 \<Rightarrow> u8 \<Rightarrow> u16" where
  "high_entry b0 b1 = (drop_bit 4 (ucast b0) OR push_bit 4 (ucast b1)) AND 0x0FFF"

lemma low_entry_set:
  "low_entry (ucast (v AND 0xFF)) ((b1 AND 0xF0) OR ucast (drop_bit 8 v AND 0x0F)) = v AND 0x0FFF"
  unfolding low_entry_def masks8 masks16
  by (rule bit_word_eqI) (auto simp: bit_simps)

lemma high_entry_set:
  "high_entry ((b0 AND 0x0F) OR push_bit 4 (ucast (v AND 0x0F))) (ucast (drop_bit 4 v AND 0xFF)) = v AND 0x0FFF"
  unfolding high_entry_def masks8 masks16
proof (rule bit_word_eqI)
  fix n :: nat
  assume "n < LENGTH(16)"
  then show "bit ((drop_bit 4 (ucast ((b0 AND mask 4) OR push_bit 4 (ucast (v AND mask 4)))) OR
      push_bit 4 (ucast (ucast (drop_bit 4 v AND mask 8) :: u8))) AND mask 12 :: u16) n = bit (v AND mask 12) n"
    by (cases "n < 4") (auto simp: bit_simps)
qed

lemma low_entry_keep: "low_entry b0 ((b1 AND 0x0F) OR push_bit 4 x) = low_entry b0 b1"
  unfolding low_entry_def masks8 masks16
  by (rule bit_word_eqI) (auto simp: bit_simps)

lemma high_entry_keep: "high_entry ((b0 AND 0xF0) OR ucast (w AND 0x0F :: u16)) b1 = high_entry b0 b1"
  unfolding high_entry_def masks8 masks16
  by (rule bit_word_eqI) (auto simp: bit_simps dest: bit_imp_le_length)

lemma word_odd: "(c AND 1 \<noteq> 0) = odd (unat (c :: u16))"
proof -
  have "c AND 1 = take_bit 1 c" by (simp add: take_bit_eq_mask mask_eq_decr_exp)
  then have "unat (c AND 1) = unat c mod 2" by (simp add: take_bit_eq_mod unat_mod_distrib)
  then show ?thesis by (metis odd_iff_mod_2_eq_one unat_0 unat_eq_zero even_iff_mod_2_eq_zero)
qed

section \<open>Entries\<close>

text \<open>The loaded table has the size the geometry gives it; a cluster whose entry lies inside it.\<close>

definition fat_ok :: "fat12_fs_t \<Rightarrow> bool" where "fat_ok fs \<longleftrightarrow> length (fat fs) = fat_bytes fs"

definition in_fat :: "fat12_fs_t \<Rightarrow> u16 \<Rightarrow> bool" where
  "in_fat fs c \<longleftrightarrow> unat c * 3 div 2 + 1 < fat_bytes fs"

definition entry :: "fat12_fs_t \<Rightarrow> u16 \<Rightarrow> u16" where
  "entry fs c =
     (let k = unat c * 3 div 2 in
      if odd (unat c) then high_entry (fat fs ! k) (fat fs ! (k + 1))
      else low_entry (fat fs ! k) (fat fs ! (k + 1)))"

lemma get_fat_entry_eq:
  assumes "fat_ok fs"
  shows "get_fat_entry fs c = Some (if in_fat fs c then entry fs c else 0xFFF)"
proof -
  have g: "arr_get (fat fs) i = Some (fat fs ! i)" if "i < fat_bytes fs" for i
    using assms that by (simp add: arr_get_def fat_ok_def)
  show ?thesis
    using g [of "unat c * 3 div 2"] g [of "Suc (unat c * 3 div 2)"]
    unfolding get_fat_entry_def word_odd
    by (simp add: Let_def in_fat_def entry_def low_entry_def high_entry_def)
qed

text \<open>The bytes of two different entries overlap in one byte at most, shared by neighbours.\<close>

lemma entry_overlap:
  assumes "(x :: nat) \<noteq> y"
  shows "x * 3 div 2 \<noteq> y * 3 div 2 \<and> x * 3 div 2 \<noteq> Suc (y * 3 div 2) \<and> Suc (x * 3 div 2) \<noteq> y * 3 div 2 \<or>
     x * 3 div 2 = Suc (y * 3 div 2) \<and> odd x \<and> even y \<or> Suc (x * 3 div 2) = y * 3 div 2 \<and> even x \<and> odd y"
proof -
  have e: "(2 * a) * 3 div 2 = 3 * a" and o: "(2 * a + 1) * 3 div 2 = 3 * a + 1" for a :: nat by auto
  obtain a b where "x = 2 * a \<or> x = 2 * a + 1" "y = 2 * b \<or> y = 2 * b + 1"
    by (metis evenE oddE)
  then show ?thesis using assms e [of a] o [of a] e [of b] o [of b] by auto
qed

text \<open>The entry after an update, in terms of the two bytes written.\<close>

lemma set_fat_entry_eq:
  assumes "fat_ok fs" and "in_fat fs c"
  shows "\<exists>fs'. set_fat_entry c v fs = Some fs' \<and> fat_ok fs' \<and> fat_bytes fs' = fat_bytes fs \<and>
    (\<exists>f. fs' = fs\<lparr>fat := f\<rparr>) \<and> entry fs' c = v AND 0x0FFF \<and> (\<forall>c'. c' \<noteq> c \<longrightarrow> in_fat fs c' \<longrightarrow> entry fs' c' = entry fs c')"
proof -
  let ?k = "unat c * 3 div 2"
  let ?F = "fat fs"
  have k: "Suc ?k < length ?F" using assms by (simp add: fat_ok_def in_fat_def)
  define c0 where "c0 = (if odd (unat c) then (?F ! ?k AND 0x0F) OR push_bit 4 (ucast (v AND 0x0F)) else ucast (v AND 0xFF))"
  define c1 where "c1 = (if odd (unat c) then ucast (drop_bit 4 v AND 0xFF) else (?F ! Suc ?k AND 0xF0) OR ucast (drop_bit 8 v AND 0x0F))"
  define fs' where "fs' = fs\<lparr>fat := ?F[?k := c0, Suc ?k := c1]\<rparr>"
  have set: "set_fat_entry c v fs = Some fs'"
    using k by (simp add: set_fat_entry_def Let_def arr_get_def word_odd c0_def c1_def fs'_def)
  have fb: "fat_bytes fs' = fat_bytes fs" by (simp add: fat_bytes_def fs'_def)
  have ok: "fat_ok fs'" using assms(1) by (simp add: fat_ok_def fb) (simp add: fs'_def)
  have same: "entry fs' c = v AND 0x0FFF"
    using k low_entry_set high_entry_set
    by (auto simp: entry_def Let_def fs'_def c0_def c1_def nth_list_update)
  have other: "entry fs' c' = entry fs c'" if ne: "c' \<noteq> c" and i: "in_fat fs c'" for c'
  proof -
    let ?j = "unat c' * 3 div 2"
    have j: "Suc ?j < length ?F" using assms(1) i by (simp add: fat_ok_def in_fat_def)
    have un: "unat c' \<noteq> unat c" using ne by (simp add: word_unat_eq_iff)
    consider (far) "?j \<noteq> ?k" "?j \<noteq> Suc ?k" "Suc ?j \<noteq> ?k"
      | (above) "?j = Suc ?k" "odd (unat c')" "even (unat c)"
      | (below) "Suc ?j = ?k" "even (unat c')" "odd (unat c)"
      using entry_overlap [OF un] by blast
    then show ?thesis
    proof cases
      case far
      then show ?thesis using j k by (simp add: entry_def Let_def fs'_def nth_list_update)
    next
      case above
      then show ?thesis using j k high_entry_keep
        by (simp add: entry_def Let_def fs'_def c1_def nth_list_update)
    next
      case below
      then show ?thesis using j k low_entry_keep
        by (simp add: entry_def Let_def fs'_def c0_def nth_list_update flip: below(1))
    qed
  qed
  show ?thesis using set ok fb same other by (auto simp: fs'_def)
qed

section \<open>Updates of the table\<close>

text \<open>Two volumes that differ in their tables only.\<close>

definition same_volume :: "fat12_fs_t \<Rightarrow> fat12_fs_t \<Rightarrow> bool" where
  "same_volume fs fs' \<longleftrightarrow> (\<exists>f. length f = length (fat fs) \<and> fs' = fs\<lparr>fat := f\<rparr>)"

lemma same_volume_refl: "same_volume fs fs"
  unfolding same_volume_def by (rule exI [of _ "fat fs"]) simp

lemma same_volume_trans: "same_volume a b \<Longrightarrow> same_volume b c \<Longrightarrow> same_volume a c"
  by (auto simp: same_volume_def)

lemma same_volume_simps:
  assumes "same_volume fs fs'"
  shows "fat_ok fs' = fat_ok fs" "in_fat fs' c = in_fat fs c" "fat_bytes fs' = fat_bytes fs"
    "fat12_max_cluster fs' = fat12_max_cluster fs" "root_dir fs' = root_dir fs"
    "sectors_per_cluster fs' = sectors_per_cluster fs" "bytes_per_sector fs' = bytes_per_sector fs"
    "first_data_sector fs' = first_data_sector fs" "root_entry_count fs' = root_entry_count fs"
    "cluster_to_sector fs' c = cluster_to_sector fs c"
  using assms by (auto simp: same_volume_def fat_ok_def in_fat_def fat_bytes_def fat12_max_cluster_def cluster_to_sector_def)

lemma set_fat_entry_ok:
  assumes "fat_ok fs" and "in_fat fs c"
  obtains fs' where "set_fat_entry c v fs = Some fs'" and "same_volume fs fs'"
    and "entry fs' c = v AND 0x0FFF" and "\<And>c'. c' \<noteq> c \<Longrightarrow> in_fat fs c' \<Longrightarrow> entry fs' c' = entry fs c'"
proof -
  obtain fs' where fs': "set_fat_entry c v fs = Some fs'" "fat_ok fs'" "fat_bytes fs' = fat_bytes fs"
    "\<exists>f. fs' = fs\<lparr>fat := f\<rparr>" "entry fs' c = v AND 0x0FFF"
    "\<forall>c'. c' \<noteq> c \<longrightarrow> in_fat fs c' \<longrightarrow> entry fs' c' = entry fs c'"
    using set_fat_entry_eq [OF assms] by blast
  moreover from fs' assms(1) have "same_volume fs fs'" by (auto simp: same_volume_def fat_ok_def)
  ultimately show thesis using that by blast
qed

lemma entry_bound: "entry fs c AND 0x0FFF = entry fs c"
  by (simp add: entry_def Let_def low_entry_def high_entry_def and.assoc)

section \<open>Chains\<close>

text \<open>The clusters a data area of this size has: 2 up to, and without, the limit.\<close>

definition data_cluster :: "fat12_fs_t \<Rightarrow> u16 \<Rightarrow> bool" where
  "data_cluster fs c \<longleftrightarrow> 2 \<le> c \<and> c < 0xFF0 \<and> in_fat fs c"

fun linked :: "fat12_fs_t \<Rightarrow> u16 list \<Rightarrow> bool" where
  "linked fs [] = True"
| "linked fs [c] = (entry fs c = 0xFFF)"
| "linked fs (c # c' # cs) = (entry fs c = c' \<and> linked fs (c' # cs))"

lemma linked_cong: "(\<And>c. c \<in> set cs \<Longrightarrow> entry fs' c = entry fs c) \<Longrightarrow> linked fs' cs = linked fs cs"
  by (induction fs cs rule: linked.induct) auto

lemma linked_snoc:
  "cs \<noteq> [] \<Longrightarrow> linked fs cs \<Longrightarrow> distinct (cs @ [c]) \<Longrightarrow>
     (\<And>x. x \<in> set (butlast cs) \<Longrightarrow> entry fs' x = entry fs x) \<Longrightarrow> entry fs' (last cs) = c \<Longrightarrow> entry fs' c = 0xFFF \<Longrightarrow>
     linked fs' (cs @ [c])"
  by (induction fs cs rule: linked.induct) auto

text \<open>Freeing the clusters of a chain.\<close>

lemma free_chain_linked:
  assumes "fat_ok fs" and "linked fs cs" and "distinct cs" and "\<And>c. c \<in> set cs \<Longrightarrow> data_cluster fs c"
    and "cs \<noteq> []"
  shows "\<exists>fs'. fat12_free_chain (hd cs) fs = Some fs' \<and> same_volume fs fs' \<and>
    (\<forall>c. in_fat fs c \<longrightarrow> entry fs' c = (if c \<in> set cs then 0 else entry fs c))"
  using assms
proof (induction cs arbitrary: fs rule: induct_list012)
  case (2 c)
  then have dc: "data_cluster fs c" by simp
  obtain fs' where fs': "set_fat_entry c 0 fs = Some fs'" "same_volume fs fs'" "entry fs' c = 0 AND 0x0FFF"
    "\<And>c'. c' \<noteq> c \<Longrightarrow> in_fat fs c' \<Longrightarrow> entry fs' c' = entry fs c'"
    using set_fat_entry_ok [OF 2(1), of c 0] dc by (auto simp: data_cluster_def)
  have "fat12_free_chain c fs = fat12_free_chain 0xFFF fs'"
    using dc 2(2) fs'(1) get_fat_entry_eq [OF 2(1), of c]
    by (subst fat12_free_chain.simps) (simp add: data_cluster_def)
  also have "\<dots> = Some fs'" by (subst fat12_free_chain.simps) simp
  finally show ?case using fs' by auto
next
  case (3 c c' cs)
  then have dc: "data_cluster fs c" and nx: "entry fs c = c'" by simp_all
  obtain fs1 where fs1: "set_fat_entry c 0 fs = Some fs1" "same_volume fs fs1" "entry fs1 c = 0 AND 0x0FFF"
    "\<And>x. x \<noteq> c \<Longrightarrow> in_fat fs x \<Longrightarrow> entry fs1 x = entry fs x"
    using set_fat_entry_ok [OF "3.prems"(1), of c 0] dc by (auto simp: data_cluster_def)
  note sv = same_volume_simps [OF fs1(2)]
  have same: "entry fs1 x = entry fs x" if "x \<in> set (c' # cs)" for x
  proof -
    have "data_cluster fs x" using "3.prems"(4) that by auto
    moreover have "x \<noteq> c" using "3.prems"(3) that by auto
    ultimately show ?thesis using fs1(4) by (auto simp: data_cluster_def)
  qed
  have "linked fs1 (c' # cs)" using linked_cong [of "c' # cs" fs1 fs, OF same] "3.prems"(2) by simp
  then obtain fs' where fs': "fat12_free_chain c' fs1 = Some fs'" "same_volume fs1 fs'"
    "\<forall>x. in_fat fs1 x \<longrightarrow> entry fs' x = (if x \<in> set (c' # cs) then 0 else entry fs1 x)"
    using "3.IH"(2) [of fs1] "3.prems" sv by (auto simp: data_cluster_def)
  have "fat12_free_chain c fs = Some fs'"
    using dc nx fs1(1) fs'(1) get_fat_entry_eq [OF "3.prems"(1), of c]
    by (subst fat12_free_chain.simps) (simp add: data_cluster_def)
  moreover have "entry fs' x = (if x \<in> set (c # c' # cs) then 0 else entry fs x)" if "in_fat fs x" for x
    using fs'(3) that sv(2) fs1(3,4) "3.prems"(3) by (cases "x = c") auto
  ultimately show ?case using same_volume_trans [OF fs1(2) fs'(2)] by (intro exI [of _ fs']) auto
qed simp


text \<open>Finding a free cluster.\<close>

lemma first_free_spec:
  assumes "fat_ok fs" and "\<And>c. c \<in> set cs \<Longrightarrow> c < 65536 \<and> in_fat fs (word_of_nat c) \<and> c \<noteq> 0"
  shows "\<exists>r. first_free fs cs = Some r \<and>
    (r = 0 \<and> (\<forall>c \<in> set cs. entry fs (word_of_nat c) \<noteq> 0) \<or> r \<noteq> 0 \<and> unat r \<in> set cs \<and> entry fs r = 0)"
  using assms(2)
proof (induction cs)
  case Nil
  then show ?case by simp
next
  case (Cons c cs)
  have c: "c < 65536" "in_fat fs (word_of_nat c)" "c \<noteq> 0" using Cons.prems by auto
  have u: "unat (word_of_nat c :: u16) = c" using c(1) by (simp add: unsigned_of_nat take_bit_nat_eq_self)
  have nz: "(word_of_nat c :: u16) \<noteq> 0" using u c(3) by (metis unat_0)
  show ?case
    using Cons get_fat_entry_eq [OF assms(1), of "word_of_nat c"] c(2) u nz by auto
qed

text \<open>Every data cluster has its entry inside the table.\<close>

definition vol_ok :: "fat12_fs_t \<Rightarrow> bool" where
  "vol_ok fs \<longleftrightarrow> fat_ok fs \<and>
     (\<exists>mx. fat12_max_cluster fs = Some mx \<and> (\<forall>c. 2 \<le> c \<longrightarrow> c < mx \<longrightarrow> in_fat fs c))"

lemma fat12_max_cluster_le: "fat12_max_cluster fs = Some mx \<Longrightarrow> mx \<le> 0xFEF"
proof (auto simp: fat12_max_cluster_def Let_def split: if_splits)
  assume "\<not> 0xFF0 \<le> 2 + (total_sectors fs - first_data_sector fs) div ucast (sectors_per_cluster fs)"
  then have "unat (2 + (total_sectors fs - first_data_sector fs) div ucast (sectors_per_cluster fs)) \<le> 0xFEF"
    by (simp add: word_le_nat_alt)
  then show "(ucast (2 + (total_sectors fs - first_data_sector fs) div ucast (sectors_per_cluster fs)) :: u16) \<le> 0xFEF"
    by (simp add: word_le_nat_alt unsigned_ucast_eq take_bit_nat_eq_self)
qed

lemma vol_ok_same: "same_volume fs fs' \<Longrightarrow> vol_ok fs' = vol_ok fs"
  by (simp add: vol_ok_def same_volume_simps)

lemma find_free_spec:
  assumes "vol_ok fs"
  shows "\<exists>r. fat12_find_free_cluster fs start = Some r \<and>
    (r = 0 \<or> data_cluster fs r \<and> start \<le> r \<and> entry fs r = 0)"
proof -
  obtain mx where mx: "fat12_max_cluster fs = Some mx" and cov: "\<And>c. 2 \<le> c \<Longrightarrow> c < mx \<Longrightarrow> in_fat fs c"
    and ok: "fat_ok fs" using assms by (auto simp: vol_ok_def)
  have lim: "unat mx \<le> 0xFEF" using fat12_max_cluster_le [OF mx] by (simp add: word_le_nat_alt)
  define st where "st = (if start < 2 then 2 else start)"
  have st: "2 \<le> unat st" "unat start \<le> unat st" by (auto simp: st_def word_less_nat_alt word_le_nat_alt)
  have u: "unat (word_of_nat c :: u16) = c" if "c < unat mx" for c
    using that lim by (simp add: unsigned_of_nat take_bit_nat_eq_self)
  have "\<exists>r. first_free fs [unat st ..< unat mx] = Some r \<and>
    (r = 0 \<and> (\<forall>c \<in> set [unat st ..< unat mx]. entry fs (word_of_nat c) \<noteq> 0) \<or>
     r \<noteq> 0 \<and> unat r \<in> set [unat st ..< unat mx] \<and> entry fs r = 0)"
    using st lim u by (intro first_free_spec [OF ok]) (auto intro!: cov simp: word_le_nat_alt word_less_nat_alt)
  then obtain r where r: "first_free fs [unat st ..< unat mx] = Some r"
    "r = 0 \<or> r \<noteq> 0 \<and> unat st \<le> unat r \<and> unat r < unat mx \<and> entry fs r = 0" by auto
  have "data_cluster fs r \<and> start \<le> r" if "unat st \<le> unat r" "unat r < unat mx"
    using that st lim cov [of r] by (auto simp: data_cluster_def word_le_nat_alt word_less_nat_alt)
  then show ?thesis using r mx by (auto simp: fat12_find_free_cluster_def st_def)
qed

text \<open>
  The chain built so far is \<open>cs\<close>, taken from free clusters of the original table \<open>fs0\<close>, in ascending
  order.
\<close>

definition taken :: "fat12_fs_t \<Rightarrow> fat12_fs_t \<Rightarrow> u16 list \<Rightarrow> bool" where
  "taken fs0 fs cs \<longleftrightarrow> same_volume fs0 fs \<and> linked fs cs \<and> sorted_wrt (<) cs \<and>
     (\<forall>c \<in> set cs. data_cluster fs0 c \<and> entry fs0 c = 0) \<and>
     (\<forall>c. in_fat fs0 c \<longrightarrow> c \<notin> set cs \<longrightarrow> entry fs c = entry fs0 c)"

lemma taken_distinct: "taken fs0 fs cs \<Longrightarrow> distinct cs"
  by (simp add: taken_def strict_sorted_iff)

lemma taken_snoc:
  assumes t: "taken fs0 fs cs" and dc: "data_cluster fs0 cl" "entry fs0 cl = 0" and above: "\<forall>c \<in> set cs. c < cl"
    and ok: "fat_ok fs0"
  shows "\<exists>fs2. (do { fs1 \<leftarrow> (if cs \<noteq> [] then set_fat_entry (last cs) cl fs else Some fs);
      set_fat_entry cl 0xFFF fs1 }) = Some fs2 \<and> taken fs0 fs2 (cs @ [cl])"
proof -
  have sv: "same_volume fs0 fs" and lk: "linked fs cs" and inv: "\<And>c. c \<in> set cs \<Longrightarrow> data_cluster fs0 c \<and> entry fs0 c = 0"
    and oth: "\<And>c. in_fat fs0 c \<Longrightarrow> c \<notin> set cs \<Longrightarrow> entry fs c = entry fs0 c"
    using t by (auto simp: taken_def)
  note s0 = same_volume_simps [OF sv]
  have okf: "fat_ok fs" using ok s0 by simp
  have small: "cl AND 0x0FFF = cl"
  proof -
    have "unat cl < 0xFF0" using dc(1) by (simp add: data_cluster_def word_less_nat_alt)
    then have "unat (take_bit 12 cl) = unat cl" by (simp add: take_bit_eq_mod unat_mod_distrib)
    then have "take_bit 12 cl = cl" by (simp only: word_unat_eq_iff)
    then show ?thesis by (simp add: take_bit_eq_mask mask_eq_decr_exp)
  qed
  obtain fs1 where fs1: "(if cs \<noteq> [] then set_fat_entry (last cs) cl fs else Some fs) = Some fs1" "same_volume fs fs1"
    "cs \<noteq> [] \<Longrightarrow> entry fs1 (last cs) = cl"
    "\<And>c. cs = [] \<or> c \<noteq> last cs \<Longrightarrow> in_fat fs0 c \<Longrightarrow> entry fs1 c = entry fs c"
  proof (cases "cs = []")
    case True
    then show thesis using that [of fs] same_volume_refl by simp
  next
    case False
    then have "in_fat fs (last cs)" using inv s0 by (simp add: data_cluster_def)
    from set_fat_entry_ok [OF okf this, of cl] show thesis
      using that False small s0(2) by (metis (no_types, lifting))
  qed
  note s1 = same_volume_simps [OF fs1(2)]
  have "in_fat fs1 cl" using dc s0 s1 by (simp add: data_cluster_def)
  then obtain fs2 where fs2: "set_fat_entry cl 0xFFF fs1 = Some fs2" "same_volume fs1 fs2"
    "entry fs2 cl = 0xFFF" "\<And>c. c \<noteq> cl \<Longrightarrow> in_fat fs1 c \<Longrightarrow> entry fs2 c = entry fs1 c"
    using set_fat_entry_ok [of fs1 cl "0xFFF"] okf s1(1) by auto
  have ncl: "cl \<notin> set cs" using above by auto
  have e2: "entry fs2 c = entry fs1 c" if "c \<in> set cs \<or> c \<noteq> cl \<and> in_fat fs0 c" for c
    using that fs2(4) [of c] ncl inv s0 s1 by (auto simp: data_cluster_def)
  have dist: "distinct cs" using t by (rule taken_distinct)
  have "linked fs2 (cs @ [cl])"
  proof (cases "cs = []")
    case False
    have "entry fs2 x = entry fs x" if "x \<in> set (butlast cs)" for x
    proof -
      have x: "x \<in> set cs" using that by (rule in_set_butlastD)
      have "distinct (butlast cs @ [last cs])" using dist False by simp
      then have "x \<noteq> last cs" using that by auto
      then show ?thesis using e2 [of x] fs1(4) [of x] x inv by (auto simp: data_cluster_def)
    qed
    then show ?thesis
      using False lk dist ncl fs1(3) fs2(3) e2 [of "last cs"] by (intro linked_snoc) auto
  qed (simp add: fs2(3))
  moreover have "same_volume fs0 fs2" using sv fs1(2) fs2(2) same_volume_trans by blast
  moreover have "entry fs2 c = entry fs0 c" if "in_fat fs0 c" "c \<notin> set (cs @ [cl])" for c
  proof -
    have "cs = [] \<or> c \<noteq> last cs" using that(2) by auto
    then show ?thesis using e2 [of c] fs1(4) [of c] oth [of c] that by auto
  qed
  moreover have "sorted_wrt (<) (cs @ [cl])" using t above by (simp add: taken_def sorted_wrt_append)
  ultimately show ?thesis
    using fs1(1) fs2(1) inv dc by (intro exI [of _ fs2]) (auto simp: taken_def)
qed

lemma alloc_loop_spec:
  assumes "vol_ok fs0" and "taken fs0 fs cs"
  shows "\<exists>r fs'. alloc_loop n (if cs = [] then 0 else hd cs) (if cs = [] then 0 else last cs) fs = Some (r, fs') \<and>
    same_volume fs0 fs' \<and>
    (r = 0 \<and> (\<forall>c. in_fat fs0 c \<longrightarrow> entry fs' c = entry fs0 c) \<or>
     r \<noteq> 0 \<and> (\<exists>cs'. length cs' = length cs + n \<and> taken fs0 fs' cs' \<and> cs' \<noteq> [] \<and> r = hd cs'))"
  using assms(2)
proof (induction n arbitrary: fs cs)
  case 0
  have "data_cluster fs0 (hd cs)" if "cs \<noteq> []" using 0 that by (auto simp: taken_def)
  then have "hd cs \<noteq> 0" if "cs \<noteq> []" using that by (auto simp: data_cluster_def)
  then show ?case using 0 by (cases "cs = []") (auto simp: taken_def)
next
  case (Suc n)
  have sv: "same_volume fs0 fs" using Suc.prems by (simp add: taken_def)
  note s0 = same_volume_simps [OF sv]
  have okf: "fat_ok fs0" using assms(1) by (simp add: vol_ok_def)
  let ?start = "if (if cs = [] then 0 else last cs) \<noteq> 0 then (if cs = [] then 0 else last cs) + 1 else 2"
  obtain cl where cl: "fat12_find_free_cluster fs ?start = Some cl"
    "cl = 0 \<or> data_cluster fs cl \<and> ?start \<le> cl \<and> entry fs cl = 0"
    using find_free_spec [of fs ?start] assms(1) vol_ok_same [OF sv] by blast
  have lastd: "data_cluster fs0 (last cs)" if "cs \<noteq> []" using Suc.prems that by (auto simp: taken_def)
  have last0: "last cs \<noteq> 0" if "cs \<noteq> []" using lastd [OF that] by (auto simp: data_cluster_def)
  show ?case
  proof (cases "cl = 0")
    case True
    have dist: "distinct cs" using Suc.prems by (rule taken_distinct)
    have "\<exists>fs1. (if cs \<noteq> [] then fat12_free_chain (hd cs) fs else Some fs) = Some fs1 \<and> same_volume fs fs1 \<and>
        (\<forall>c. in_fat fs c \<longrightarrow> entry fs1 c = (if c \<in> set cs then 0 else entry fs c))"
    proof (cases "cs = []")
      case False
      then show ?thesis
        using Suc.prems dist okf s0 free_chain_linked [of fs cs] by (auto simp: taken_def data_cluster_def)
    qed (simp add: same_volume_refl)
    then obtain fs1 where fs1: "(if cs \<noteq> [] then fat12_free_chain (hd cs) fs else Some fs) = Some fs1"
      "same_volume fs fs1" "\<And>c. in_fat fs c \<Longrightarrow> entry fs1 c = (if c \<in> set cs then 0 else entry fs c)" by blast
    have "data_cluster fs0 (hd cs)" if "cs \<noteq> []" using Suc.prems that by (auto simp: taken_def)
    then have hd0: "hd cs \<noteq> 0" if "cs \<noteq> []" using that by (auto simp: data_cluster_def)
    have "\<forall>c. in_fat fs0 c \<longrightarrow> entry fs1 c = entry fs0 c"
      using fs1(3) s0(2) Suc.prems by (auto simp: taken_def)
    moreover have "same_volume fs0 fs1" using sv fs1(2) by (rule same_volume_trans)
    moreover have "alloc_loop (Suc n) (if cs = [] then 0 else hd cs) (if cs = [] then 0 else last cs) fs = Some (0, fs1)"
      using cl(1) True fs1(1) hd0 last0 by (cases "cs = []") simp_all
    ultimately show ?thesis by blast
  next
    case False
    then have cl': "data_cluster fs cl" "?start \<le> cl" "entry fs cl = 0" using cl(2) by auto
    have above: "c < cl" if "c \<in> set cs" for c
    proof -
      have ne: "cs \<noteq> []" using that by auto
      have "unat (last cs) < 0xFF0" using lastd [OF ne] by (simp add: data_cluster_def word_less_nat_alt)
      then have "unat (last cs + 1) = unat (last cs) + 1" by (subst unat_add_nowrap) simp_all
      then have "last cs < cl" using cl'(2) ne last0 by (simp add: word_less_nat_alt word_le_nat_alt)
      moreover have "c \<le> last cs"
      proof -
        have "sorted cs" using Suc.prems by (simp add: taken_def strict_sorted_iff)
        moreover obtain i where "i < length cs" "c = cs ! i" using \<open>c \<in> set cs\<close> by (metis in_set_conv_nth)
        ultimately show ?thesis using sorted_nth_mono [of cs i "length cs - 1"] ne by (simp add: last_conv_nth)
      qed
      ultimately show ?thesis by simp
    qed
    have dc: "data_cluster fs0 cl" "entry fs0 cl = 0"
      using cl' above Suc.prems s0 by (auto simp: data_cluster_def taken_def)
    obtain fs2 where fs2: "(do { fs1 \<leftarrow> (if cs \<noteq> [] then set_fat_entry (last cs) cl fs else Some fs);
        set_fat_entry cl 0xFFF fs1 }) = Some fs2" "taken fs0 fs2 (cs @ [cl])"
      using taken_snoc [OF Suc.prems dc _ okf] above by blast
    have "alloc_loop (Suc n) (if cs = [] then 0 else hd cs) (if cs = [] then 0 else last cs) fs =
        alloc_loop n (hd (cs @ [cl])) cl fs2"
      using cl(1) False fs2(1) last0 by (cases "cs = []") (simp_all add: bind_eq_Some_conv, force?)
    then show ?thesis using Suc.IH [OF fs2(2)] by simp
  qed
qed

section \<open>Freeing ends on every table\<close>

lemma data_cluster_same: "same_volume fs fs' \<Longrightarrow> data_cluster fs' c = data_cluster fs c"
  by (simp add: data_cluster_def same_volume_simps)

lemma free_chain_any:
  assumes "fat_ok fs" and "\<And>c. 2 \<le> c \<Longrightarrow> c < 0xFF0 \<Longrightarrow> in_fat fs c"
  shows "\<exists>fs'. fat12_free_chain c fs = Some fs' \<and> same_volume fs fs' \<and>
    (\<forall>x. in_fat fs x \<longrightarrow> entry fs' x = entry fs x \<or> entry fs' x = 0)"
  using assms
proof (induction "card {x. data_cluster fs x \<and> entry fs x \<noteq> 0}" arbitrary: c fs rule: less_induct)
  case less
  show ?case
  proof (cases "c \<ge> 2 \<and> c < 0xFF0")
    case False
    then have "fat12_free_chain c fs = Some fs" by (subst fat12_free_chain.simps) auto
    then show ?thesis using same_volume_refl by (intro exI [of _ fs]) simp
  next
    case True
    then have i: "in_fat fs c" using less.prems by simp
    obtain fs1 where fs1: "set_fat_entry c 0 fs = Some fs1" "same_volume fs fs1" "entry fs1 c = 0"
      "\<And>x. x \<noteq> c \<Longrightarrow> in_fat fs x \<Longrightarrow> entry fs1 x = entry fs x"
      using set_fat_entry_ok [OF less.prems(1) i, of 0] by auto
    note sv = same_volume_simps [OF fs1(2)]
    have step: "fat12_free_chain c fs = fat12_free_chain (entry fs c) fs1"
      using True i fs1(1) get_fat_entry_eq [OF less.prems(1), of c] by (subst fat12_free_chain.simps) simp
    show ?thesis
    proof (cases "entry fs c = 0")
      case True
      then have "fat12_free_chain c fs = Some fs1"
        unfolding step by (subst fat12_free_chain.simps) simp
      then show ?thesis using fs1 by (intro exI [of _ fs1]) metis
    next
      case False
      have "{x. data_cluster fs1 x \<and> entry fs1 x \<noteq> 0} \<subset> {x. data_cluster fs x \<and> entry fs x \<noteq> 0}"
        using fs1 False True i data_cluster_same [OF fs1(2)] by (auto simp: data_cluster_def) metis
      then have "card {x. data_cluster fs1 x \<and> entry fs1 x \<noteq> 0} < card {x. data_cluster fs x \<and> entry fs x \<noteq> 0}"
        by (rule psubset_card_mono [rotated]) simp
      then obtain fs' where fs': "fat12_free_chain (entry fs c) fs1 = Some fs'" "same_volume fs1 fs'"
        "\<forall>x. in_fat fs1 x \<longrightarrow> entry fs' x = entry fs1 x \<or> entry fs' x = 0"
        using less.hyps [of fs1 "entry fs c"] less.prems sv by auto
      have "entry fs' x = entry fs x \<or> entry fs' x = 0" if "in_fat fs x" for x
        using fs'(3) fs1(3,4) that sv(2) by (cases "x = c") auto
      then show ?thesis
        using fs' step same_volume_trans [OF fs1(2) fs'(2)] by (intro exI [of _ fs']) auto
    qed
  qed
qed

section \<open>Properties\<close>

text \<open>A volume with the geometry of a 1.44 MB floppy disk.\<close>

definition floppy :: fat12_fs_t where
  "floppy = \<lparr>bytes_per_sector = 512, sectors_per_cluster = 1, reserved_sectors = 1, num_fats = 2,
     sectors_per_fat = 9, root_entry_count = 224, root_dir_sectors = 14, first_data_sector = 33,
     total_sectors = 2880, fat = replicate 4608 0, root_dir = replicate 7168 0\<rparr>"

lemma floppy_bytes: "fat_bytes floppy = 4608" "fat_ok floppy"
  by (simp_all add: floppy_def fat_bytes_def fat_ok_def)

lemma floppy_in_fat: "unat c < 0xBFF \<Longrightarrow> in_fat floppy c"
  by (simp add: in_fat_def floppy_bytes)

lemma floppy_vol_ok: "vol_ok floppy"
proof -
  have "fat12_max_cluster floppy = Some 2849"
    by (simp add: fat12_max_cluster_def floppy_def)
  moreover have "in_fat floppy c" if "c < 2849" for c
    using that by (intro floppy_in_fat) (simp add: word_less_nat_alt)
  ultimately show ?thesis by (simp add: vol_ok_def floppy_bytes)
qed

text \<open>
  Property C11. Writing an entry of the table and reading it back gives the value (12 bits of it), and
  no other entry changes, although two neighbours share a byte.
\<close>

theorem fat_entry_roundtrip:
  assumes "fat_ok fs" and "in_fat fs c" and "v < 0x1000"
  shows "\<exists>fs'. set_fat_entry c v fs = Some fs' \<and> get_fat_entry fs' c = Some v \<and>
    (\<forall>c'. c' \<noteq> c \<longrightarrow> get_fat_entry fs' c' = get_fat_entry fs c')"
proof -
  obtain fs' where fs': "set_fat_entry c v fs = Some fs'" "same_volume fs fs'" "entry fs' c = v AND 0x0FFF"
    "\<And>c'. c' \<noteq> c \<Longrightarrow> in_fat fs c' \<Longrightarrow> entry fs' c' = entry fs c'"
    using set_fat_entry_ok [OF assms(1,2)] by metis
  have "unat v < 0x1000" using assms(3) by (simp add: word_less_nat_alt)
  then have "unat (take_bit 12 v) = unat v" by (simp add: take_bit_eq_mod unat_mod_distrib)
  then have "take_bit 12 v = v" by (simp only: word_unat_eq_iff)
  then have "v AND 0x0FFF = v" by (simp add: take_bit_eq_mask mask_eq_decr_exp)
  then show ?thesis
    using fs' assms same_volume_simps [OF fs'(2)] by (auto simp: get_fat_entry_eq)
qed

theorem fat_entry_roundtrip_witness:
  "\<exists>fs'. set_fat_entry 5 0xABC floppy = Some fs' \<and> get_fat_entry fs' 5 = Some 0xABC \<and>
     get_fat_entry fs' 4 = Some 0 \<and> get_fat_entry fs' 6 = Some 0"
proof -
  have i: "in_fat floppy 5" by (rule floppy_in_fat) simp
  have g: "get_fat_entry floppy 4 = Some 0" "get_fat_entry floppy 6 = Some 0"
    by (simp_all add: get_fat_entry_def floppy_def fat_bytes_def arr_get_def)
  obtain fs' where "set_fat_entry 5 0xABC floppy = Some fs'" "get_fat_entry fs' 5 = Some 0xABC"
    "\<forall>c'. c' \<noteq> 5 \<longrightarrow> get_fat_entry fs' c' = get_fat_entry floppy c'"
    using fat_entry_roundtrip [OF floppy_bytes(2) i, of "0xABC"] by auto
  then show ?thesis using g by auto
qed

lemma alloc_chain_spec:
  assumes "vol_ok fs" and "n \<noteq> 0"
  shows "\<exists>first fs'. fat12_alloc_chain n fs = Some (first, fs') \<and> same_volume fs fs' \<and>
    (first = 0 \<and> (\<forall>c. in_fat fs c \<longrightarrow> entry fs' c = entry fs c) \<or>
     first \<noteq> 0 \<and> (\<exists>cs. length cs = n \<and> hd cs = first \<and> linked fs' cs \<and> sorted_wrt (<) cs \<and>
       (\<forall>c \<in> set cs. data_cluster fs c \<and> entry fs c = 0) \<and>
       (\<forall>c. in_fat fs c \<longrightarrow> c \<notin> set cs \<longrightarrow> entry fs' c = entry fs c)))"
proof -
  have "taken fs fs []" by (simp add: taken_def same_volume_refl)
  from alloc_loop_spec [OF assms(1) this, of n] show ?thesis
    using assms(2) by (auto simp: fat12_alloc_chain_def taken_def)
qed

text \<open>
  Property C10. Allocating a chain always returns. It yields a chain of exactly the requested number of
  different clusters, all free before and linked in ascending order, without touching any other
  entry; or it fails, with all entries as they were.
\<close>

theorem fat12_alloc_chain_sound:
  assumes "vol_ok fs" and "n \<noteq> 0"
  shows "\<exists>first fs'. fat12_alloc_chain n fs = Some (first, fs') \<and> same_volume fs fs' \<and>
    (first = 0 \<and> (\<forall>c. in_fat fs c \<longrightarrow> entry fs' c = entry fs c) \<or>
     first \<noteq> 0 \<and> (\<exists>cs. length cs = n \<and> hd cs = first \<and> linked fs' cs \<and> sorted_wrt (<) cs \<and>
       (\<forall>c \<in> set cs. data_cluster fs c \<and> entry fs c = 0) \<and>
       (\<forall>c. in_fat fs c \<longrightarrow> c \<notin> set cs \<longrightarrow> entry fs' c = entry fs c)))"
  by (rule alloc_chain_spec [OF assms])

definition tiny :: fat12_fs_t where
  "tiny = floppy\<lparr>bytes_per_sector := 32, sectors_per_fat := 1, total_sectors := 40,
     fat := replicate 32 0, root_dir := []\<rparr>"

lemma tiny_vol_ok: "vol_ok tiny"
proof -
  have "fat12_max_cluster tiny = Some 9" by (simp add: fat12_max_cluster_def tiny_def floppy_def)
  moreover have "in_fat tiny c" if "c < 9" for c
    using that by (simp add: in_fat_def tiny_def floppy_def fat_bytes_def word_less_nat_alt)
  ultimately show ?thesis by (simp add: vol_ok_def fat_ok_def) (simp add: tiny_def floppy_def fat_bytes_def)
qed

theorem fat12_alloc_chain_sound_witness:
  "\<exists>fs' cs. fat12_alloc_chain 3 tiny = Some (2, fs') \<and> length cs = 3 \<and> hd cs = 2 \<and> linked fs' cs"
proof -
  have "map_option fst (fat12_alloc_chain 3 tiny) = Some 2" by code_simp
  then obtain fs' where f: "fat12_alloc_chain 3 tiny = Some (2, fs')" by auto
  then show ?thesis using fat12_alloc_chain_sound [OF tiny_vol_ok, of 3] by auto
qed

text \<open>
  Freeing a chain returns for every content of the table, cyclic chains included, when
  the table has an entry for every cluster number below 0xFF0; it only ever clears entries.
\<close>

theorem fat12_free_chain_returns:
  assumes "fat_ok fs" and "0xFF0 * 3 div 2 < fat_bytes fs"
  shows "\<exists>fs'. fat12_free_chain c fs = Some fs' \<and> same_volume fs fs' \<and>
    (\<forall>x. in_fat fs x \<longrightarrow> entry fs' x = entry fs x \<or> entry fs' x = 0)"
proof -
  have "in_fat fs c" if "c < 0xFF0" for c
    using that assms(2) by (simp add: in_fat_def word_less_nat_alt)
  then show ?thesis by (intro free_chain_any assms(1))
qed

theorem fat12_free_chain_returns_witness:
  "\<exists>fs'. fat12_free_chain 7 (floppy\<lparr>sectors_per_fat := 12, fat := replicate 6144 0x77\<rparr>) = Some fs'"
proof -
  have "fat_ok (floppy\<lparr>sectors_per_fat := 12, fat := replicate 6144 0x77\<rparr>)"
    "0xFF0 * 3 div 2 < fat_bytes (floppy\<lparr>sectors_per_fat := 12, fat := replicate 6144 0x77\<rparr>)"
    by (simp_all add: fat_ok_def fat_bytes_def floppy_def)
  from fat12_free_chain_returns [OF this] show ?thesis by blast
qed

text \<open>
  On a volume whose table is smaller, as on a floppy disk, a damaged chain that leads to a
  cluster beyond the table makes \<open>set_fat_entry\<close> write outside the table's buffer: unlike
  \<open>get_fat_entry\<close>, it does not check its bounds.
\<close>

theorem fat12_free_chain_out_of_bounds:
  "get_fat_entry floppy 0xF00 = Some 0xFFF \<and> set_fat_entry 0xF00 0 floppy = None \<and>
   fat12_free_chain 0xF00 floppy = None"
proof -
  have "get_fat_entry floppy 0xF00 = Some 0xFFF" "set_fat_entry 0xF00 0 floppy = None"
    by (simp_all add: get_fat_entry_def set_fat_entry_def floppy_def fat_bytes_def arr_get_def)
  then show ?thesis by (subst fat12_free_chain.simps) simp
qed

end
