(* ===== verification/Fat12_File.thy ===== *)
theory Fat12_File
  imports Fat12_Chain
begin

text \<open>
  File contents. The file system relies on a block driver; what it needs of it is the locale
  \<open>block_device\<close>, interpreted on the disk driver in theory \<open>Ata\<close>. Proved here: data written to a chain
  of clusters is read back, on volumes with one 512-byte sector per cluster; with more sectors per
  cluster reading runs over its buffer.
\<close>

section \<open>The contract of the block driver\<close>

text \<open>Sector numbers are those of 28-bit addressing.\<close>

definition lba28 :: "u32 \<Rightarrow> bool" where "lba28 s \<longleftrightarrow> s < 0x10000000"

locale block_device =
  fixes drv :: "'d blk_ops" and ok :: "'d \<Rightarrow> bool" and content :: "'d \<Rightarrow> u32 \<Rightarrow> bytes"
  assumes sector_size: "ok d \<Longrightarrow> lba28 s \<Longrightarrow> length (content d s) = 512"
    and read_law: "ok d \<Longrightarrow> lba28 s \<Longrightarrow>
      \<exists>d'. read_sector drv s d = (Some (content d s), d') \<and> ok d' \<and> (\<forall>x. lba28 x \<longrightarrow> content d' x = content d x)"
    and write_law: "ok d \<Longrightarrow> lba28 s \<Longrightarrow> length bs = 512 \<Longrightarrow>
      \<exists>d'. write_sector drv s bs d = (True, d') \<and> ok d' \<and>
        (\<forall>x. lba28 x \<longrightarrow> content d' x = (if x = s then bs else content d x))"
begin

text \<open>The bytes a chain of sectors holds, and a chain that holds given data, the last sector padded.\<close>

fun holds :: "'d \<Rightarrow> u32 list \<Rightarrow> bytes \<Rightarrow> bool" where
  "holds d ss [] = True"
| "holds d [] (b # bs) = False"
| "holds d (s # ss) (b # bs) \<longleftrightarrow>
     take (min 512 (length (b # bs))) (content d s) = take 512 (b # bs) \<and> holds d ss (drop 512 (b # bs))"

lemma holds_cong: "(\<And>s. s \<in> set ss \<Longrightarrow> content d' s = content d s) \<Longrightarrow> holds d' ss bs = holds d ss bs"
  by (induction d ss bs rule: holds.induct) auto

lemma holds_step:
  "p \<noteq> [] \<Longrightarrow> holds d (s # ss) p \<longleftrightarrow>
     take (min 512 (length p)) (content d s) = take 512 p \<and> holds d ss (drop 512 p)"
  by (cases p) auto

end

section \<open>Volumes with one sector per cluster\<close>

definition simple_volume :: "fat12_fs_t \<Rightarrow> bool" where
  "simple_volume fs \<longleftrightarrow> bytes_per_sector fs = 512 \<and> sectors_per_cluster fs = 1 \<and>
     unat (first_data_sector fs) + 0x1000 \<le> 0x10000000"

lemma cluster_to_sector_simple:
  assumes "simple_volume fs" and "data_cluster fs c"
  shows "unat (cluster_to_sector fs c) = unat (first_data_sector fs) + unat c - 2" "lba28 (cluster_to_sector fs c)"
proof -
  have f: "unat (first_data_sector fs) + 0x1000 \<le> 0x10000000" "sectors_per_cluster fs = 1"
    using assms(1) by (auto simp: simple_volume_def)
  have c: "2 \<le> unat c" "unat c < 0xFF0"
    using assms(2) by (auto simp: data_cluster_def word_le_nat_alt word_less_nat_alt)
  have u: "unat (ucast c :: u32) = unat c" using c by (simp add: unsigned_ucast_eq take_bit_nat_eq_self)
  then have "unat (ucast c - 2 :: u32) = unat c - 2" using c by (simp add: unat_sub_nowrap)
  then show *: "unat (cluster_to_sector fs c) = unat (first_data_sector fs) + unat c - 2"
    using f c by (simp add: cluster_to_sector_def unat_add_nowrap)
  then show "lba28 (cluster_to_sector fs c)" using f c by (simp add: lba28_def word_less_nat_alt)
qed

lemma cluster_to_sector_inj:
  assumes "simple_volume fs" and "data_cluster fs c" "data_cluster fs c'" and "c \<noteq> c'"
  shows "cluster_to_sector fs c \<noteq> cluster_to_sector fs c'"
proof -
  have "2 \<le> unat c" "2 \<le> unat c'" using assms(2,3) by (auto simp: data_cluster_def word_le_nat_alt)
  moreover have "unat c \<noteq> unat c'" using assms(4) by (simp add: word_unat_eq_iff)
  ultimately have "unat (cluster_to_sector fs c) \<noteq> unat (cluster_to_sector fs c')"
    using cluster_to_sector_simple(1) [OF assms(1,2)] cluster_to_sector_simple(1) [OF assms(1,3)] by simp
  then show ?thesis by auto
qed

lemma get_entry_linked:
  assumes "fat_ok fs" and "linked fs (c # cs)" and "data_cluster fs c"
  shows "get_fat_entry fs c = Some (case cs of [] \<Rightarrow> 0xFFF | c' # _ \<Rightarrow> c')"
  using assms by (cases cs) (auto simp: get_fat_entry_eq data_cluster_def)

context block_device
begin

lemma write_one:
  assumes "ok d" and "simple_volume fs" and "data_cluster fs c" and "p \<noteq> []"
  shows "\<exists>d'. write_cluster drv fs (cluster_to_sector fs c) [0 ..< unat (sectors_per_cluster fs)] (take 512 p) d = Some (True, d') \<and>
    ok d' \<and> (\<forall>x. lba28 x \<longrightarrow> content d' x =
      (if x = cluster_to_sector fs c then take 512 p @ replicate (512 - length p) 0 else content d x))"
proof -
  let ?bs = "take 512 p @ replicate (512 - length p) 0"
  have v: "unat (bytes_per_sector fs) = 512" "unat (sectors_per_cluster fs) = Suc 0"
    using assms(2) by (auto simp: simple_volume_def)
  have "length ?bs = 512" by (simp add: min_def)
  then obtain d' where d': "write_sector drv (cluster_to_sector fs c) ?bs d = (True, d')" "ok d'"
    "\<forall>x. lba28 x \<longrightarrow> content d' x = (if x = cluster_to_sector fs c then ?bs else content d x)"
    using write_law [OF assms(1) cluster_to_sector_simple(2) [OF assms(2,3)]] by blast
  have m: "min (length (take 512 p)) 512 = min (length p) 512" "512 - min (length p) 512 = 512 - length p"
    "take (min (length p) 512) (take 512 p) = take 512 p" "drop (min (length p) 512) (take 512 p) = []"
    "min (length p) 512 \<noteq> 0" "\<not> 512 < min (length p) 512"
    using assms(4) by (auto simp: min_def)
  then have "write_cluster drv fs (cluster_to_sector fs c) [0 ..< unat (sectors_per_cluster fs)] (take 512 p) d = Some (True, d')"
    using d'(1) v m by (simp add: Let_def del: length_take) (auto simp: min_def split: if_splits)
  then show ?thesis using d' by blast
qed

lemma write_chain:
  assumes "fat_ok fs" and "simple_volume fs" and "linked fs cs" and "distinct cs"
    and "\<And>c. c \<in> set cs \<Longrightarrow> data_cluster fs c" and "ok d" and "p \<noteq> []" and "length p \<le> 512 * length cs"
  shows "\<exists>d'. write_data_to_clusters drv fs (hd cs) p d = Some (True, d') \<and> ok d' \<and>
    holds d' (map (cluster_to_sector fs) cs) p \<and>
    (\<forall>x. lba28 x \<longrightarrow> x \<notin> cluster_to_sector fs ` set cs \<longrightarrow> content d' x = content d x)"
  using assms(3-8)
proof (induction cs arbitrary: p d)
  case Nil
  then show ?case by simp
next
  case (Cons c cs)
  let ?s = "cluster_to_sector fs c"
  have dc: "data_cluster fs c" using Cons.prems(3) by simp
  obtain d1 where d1: "write_cluster drv fs ?s [0 ..< unat (sectors_per_cluster fs)] (take 512 p) d = Some (True, d1)"
    "ok d1" "\<forall>x. lba28 x \<longrightarrow> content d1 x = (if x = ?s then take 512 p @ replicate (512 - length p) 0 else content d x)"
    using write_one [OF Cons.prems(4) assms(2) dc Cons.prems(5)] by blast
  have bpc: "unat (bytes_per_sector fs) * unat (sectors_per_cluster fs) = 512"
    using assms(2) by (simp add: simple_volume_def)
  have step: "write_data_to_clusters drv fs c p d =
      write_data_to_clusters drv fs (case cs of [] \<Rightarrow> 0xFFF | c' # _ \<Rightarrow> c') (drop 512 p) d1"
    using dc Cons.prems(5) d1(1) get_entry_linked [OF assms(1) Cons.prems(1) dc] bpc
    by (subst write_data_to_clusters.simps) (simp add: data_cluster_def Let_def del: write_cluster.simps)
  have here: "take (min 512 (length p)) (content d1 ?s) = take 512 p"
    using d1(3) cluster_to_sector_simple(2) [OF assms(2) dc] by (simp add: min_def)
  have other: "cluster_to_sector fs x \<noteq> ?s" if "x \<in> set cs" for x
    using that Cons.prems(2,3) by (intro cluster_to_sector_inj [OF assms(2)]) auto
  show ?case
  proof (cases "drop 512 p = []")
    case True
    then have "write_data_to_clusters drv fs c p d = Some (True, d1)"
      unfolding step by (subst write_data_to_clusters.simps) simp
    moreover have "holds d1 (?s # map (cluster_to_sector fs) cs) p"
      using here True Cons.prems(5) by (simp add: holds_step)
    ultimately show ?thesis using d1 by auto
  next
    case False
    then have ne: "cs \<noteq> []" using Cons.prems(6) by auto
    then have hd: "(case cs of [] \<Rightarrow> 0xFFF | c' # _ \<Rightarrow> c') = hd cs" by (simp split: list.split)
    have "linked fs cs" "length (drop 512 p) \<le> 512 * length cs" using Cons.prems(1,6) ne by (cases cs; simp)+
    then obtain d' where d': "write_data_to_clusters drv fs (hd cs) (drop 512 p) d1 = Some (True, d')" "ok d'"
      "holds d' (map (cluster_to_sector fs) cs) (drop 512 p)"
      "\<forall>x. lba28 x \<longrightarrow> x \<notin> cluster_to_sector fs ` set cs \<longrightarrow> content d' x = content d1 x"
      using Cons.IH [of d1 "drop 512 p"] Cons.prems(2,3) d1(2) False by auto
    have "content d' ?s = content d1 ?s"
      using d'(4) cluster_to_sector_simple(2) [OF assms(2) dc] other by force
    then have "holds d' (?s # map (cluster_to_sector fs) cs) p"
      using here d'(3) Cons.prems(5) by (simp add: holds_step)
    then show ?thesis using d' d1(3) step hd by auto
  qed
qed

lemma read_chain_holds:
  assumes "fat_ok fs" and "simple_volume fs" and "linked fs cs" and "\<And>c. c \<in> set cs \<Longrightarrow> data_cluster fs c"
    and "ok d" and "holds d (map (cluster_to_sector fs) cs) p" and "p \<noteq> []"
  shows "\<exists>d'. read_chain drv fs (length acc + length p) (hd cs) acc d = Some (Some (acc @ p), d') \<and> ok d' \<and>
    (\<forall>x. lba28 x \<longrightarrow> content d' x = content d x)"
  using assms(3-7)
proof (induction cs arbitrary: p d acc)
  case Nil
  then show ?case by (cases p) auto
next
  case (Cons c cs)
  let ?s = "cluster_to_sector fs c" and ?n = "length acc + length p"
  have dc: "data_cluster fs c" using Cons.prems(2) by simp
  have l28: "lba28 ?s" by (rule cluster_to_sector_simple(2) [OF assms(2) dc])
  obtain d1 where d1: "read_sector drv ?s d = (Some (content d ?s), d1)" "ok d1" "\<forall>x. lba28 x \<longrightarrow> content d1 x = content d x"
    using read_law [OF Cons.prems(3) l28] by blast
  have v: "unat (bytes_per_sector fs) = 512" "unat (sectors_per_cluster fs) = Suc 0"
    using assms(2) by (auto simp: simple_volume_def)
  have h: "take (min 512 (length p)) (content d ?s) = take 512 p" "holds d (map (cluster_to_sector fs) cs) (drop 512 p)"
    using Cons.prems(4,5) by (simp_all add: holds_step)
  have "read_cluster drv fs ?s ?n [0 ..< unat (sectors_per_cluster fs)] acc d = Some (Some (acc @ take 512 p), d1)"
    using d1(1) v h(1) sector_size [OF Cons.prems(3) l28] Cons.prems(5) by (simp add: Let_def arr_slice_def)
  moreover have "c < 0xFF8" using dc by (simp add: data_cluster_def word_less_nat_alt)
  ultimately have step: "read_chain drv fs ?n c acc d =
      read_chain drv fs ?n (case cs of [] \<Rightarrow> 0xFFF | c' # _ \<Rightarrow> c') (acc @ take 512 p) d1"
    using dc get_entry_linked [OF assms(1) Cons.prems(1) dc] Cons.prems(5)
    by (subst read_chain.simps) (auto simp: data_cluster_def)
  have n: "?n = length (acc @ take 512 p) + length (drop 512 p)" by simp
  show ?case
  proof (cases "drop 512 p = []")
    case True
    then have "read_chain drv fs ?n c acc d = Some (Some (acc @ p), d1)"
      unfolding step by (subst read_chain.simps) simp
    then show ?thesis using d1 by auto
  next
    case False
    then have ne: "cs \<noteq> []" using h(2) by (cases cs; cases "drop 512 p") auto
    then have hd: "(case cs of [] \<Rightarrow> 0xFFF | c' # _ \<Rightarrow> c') = hd cs" by (simp split: list.split)
    have "linked fs cs" using Cons.prems(1) ne by (cases cs) auto
    moreover have "holds d1 (map (cluster_to_sector fs) cs) (drop 512 p)"
    proof -
      have "content d1 s = content d s" if "s \<in> set (map (cluster_to_sector fs) cs)" for s
        using that d1(3) Cons.prems(2) cluster_to_sector_simple(2) [OF assms(2)] by auto
      then show ?thesis using h(2) holds_cong by blast
    qed
    ultimately have "\<exists>d'. read_chain drv fs (length (acc @ take 512 p) + length (drop 512 p)) (hd cs) (acc @ take 512 p) d1 =
        Some (Some ((acc @ take 512 p) @ drop 512 p), d') \<and> ok d' \<and> (\<forall>x. lba28 x \<longrightarrow> content d' x = content d1 x)"
      using Cons.prems(2) d1(2) False by (intro Cons.IH) simp_all
    then obtain d' where d': "read_chain drv fs ?n (hd cs) (acc @ take 512 p) d1 = Some (Some (acc @ p), d')" "ok d'"
      "\<forall>x. lba28 x \<longrightarrow> content d' x = content d1 x"
      unfolding n [symmetric] append_assoc append_take_drop_id by blast
    show ?thesis using step hd d' d1(3) by (intro exI [of _ d']) simp
  qed
qed

text \<open>A chain that was allocated, written and read.\<close>

theorem data_roundtrip:
  assumes "vol_ok fs" and "simple_volume fs" and "ok d" and "data \<noteq> []" and "length data \<le> 512 * n"
    and alloc: "fat12_alloc_chain n fs = Some (first, fs1)" "first \<noteq> 0"
  shows "\<exists>d1 d2. write_data_to_clusters drv fs1 first data d = Some (True, d1) \<and>
    read_chain drv fs1 (length data) first [] d1 = Some (Some data, d2) \<and> ok d2 \<and>
    (\<forall>c. data_cluster fs c \<longrightarrow> entry fs c \<noteq> 0 \<longrightarrow>
      content d2 (cluster_to_sector fs c) = content d (cluster_to_sector fs c))"
proof -
  have n: "n \<noteq> 0" using assms(4,5) by (cases n) auto
  obtain cs where sv: "same_volume fs fs1" and cs: "length cs = n" "hd cs = first" "linked fs1 cs" "sorted_wrt (<) cs"
    "\<forall>c \<in> set cs. data_cluster fs c \<and> entry fs c = 0"
    using alloc_chain_spec [OF assms(1) n] alloc by auto
  note s = same_volume_simps [OF sv]
  have ok1: "fat_ok fs1" using assms(1) s by (simp add: vol_ok_def)
  have sv1: "simple_volume fs1" using assms(2) s by (simp add: simple_volume_def)
  have dc: "data_cluster fs1 c" if "c \<in> set cs" for c using cs(5) that s by (simp add: data_cluster_def)
  have dist: "distinct cs" using cs(4) by (simp add: strict_sorted_iff)
  have len: "length data \<le> 512 * length cs" using assms(5) cs(1) by simp
  obtain d1 where d1: "write_data_to_clusters drv fs1 first data d = Some (True, d1)" "ok d1"
    "holds d1 (map (cluster_to_sector fs1) cs) data"
    "\<forall>x. lba28 x \<longrightarrow> x \<notin> cluster_to_sector fs1 ` set cs \<longrightarrow> content d1 x = content d x"
    using write_chain [OF ok1 sv1 cs(3) dist dc assms(3,4) len] cs(2) by auto
  obtain d2 where d2: "read_chain drv fs1 (length data) first [] d1 = Some (Some data, d2)" "ok d2"
    "\<forall>x. lba28 x \<longrightarrow> content d2 x = content d1 x"
    using read_chain_holds [OF ok1 sv1 cs(3) dc d1(2,3) assms(4), of "[]"] cs(2) by auto
  have "content d2 (cluster_to_sector fs c) = content d (cluster_to_sector fs c)"
    if c: "data_cluster fs c" "entry fs c \<noteq> 0" for c
  proof -
    have "cluster_to_sector fs c \<noteq> cluster_to_sector fs x" if "x \<in> set cs" for x
      using c cs(5) that by (intro cluster_to_sector_inj [OF assms(2)]) auto
    then have "cluster_to_sector fs c \<notin> cluster_to_sector fs1 ` set cs" using s(10) by auto
    moreover have "lba28 (cluster_to_sector fs c)" by (rule cluster_to_sector_simple(2) [OF assms(2) c(1)])
    ultimately show ?thesis using d1(4) d2(3) by auto
  qed
  then show ?thesis using d1 d2 by auto
qed

end

section \<open>More than one sector per cluster\<close>

text \<open>A driver without a medium, for the runs below: all transfers succeed, all sectors read as zero.\<close>

definition null_drv :: "unit blk_ops" where
  "null_drv = \<lparr>drv_seek = (\<lambda>_ d. (True, d)), drv_read = (\<lambda>_ d. (512, replicate 512 0, d)),
     drv_write = (\<lambda>_ d. (512, d))\<rparr>"

text \<open>
  On a volume with two or more sectors of 512 bytes per cluster, reading a file of more than
  512 bytes copies the bytes of a whole cluster out of a buffer that holds one sector: the read runs
  over the end of the buffer.
\<close>

theorem fat12_read_overruns_sector:
  assumes "bytes_per_sector fs = 512" and "2 \<le> sectors_per_cluster fs" and "512 < sz" and "cluster < 0xFF8"
    and sect: "read_sector drv (cluster_to_sector fs cluster) d = (Some buf, d1)" "length buf = 512"
  shows "read_chain drv fs sz cluster [] d = None"
proof -
  have "2 \<le> unat (sectors_per_cluster fs)" using assms(2) by (simp add: word_le_nat_alt)
  then have up: "[0 ..< unat (sectors_per_cluster fs)] = 0 # [1 ..< unat (sectors_per_cluster fs)]"
    and big: "512 < unat (bytes_per_sector fs) * unat (sectors_per_cluster fs)"
    using assms(1) by (simp_all add: upt_conv_Cons)
  have "arr_slice buf 0 (min (unat (bytes_per_sector fs) * unat (sectors_per_cluster fs)) sz) = None"
    using big assms(3) sect(2) by (simp add: arr_slice_def)
  then have "read_cluster drv fs (cluster_to_sector fs cluster) sz [0 ..< unat (sectors_per_cluster fs)] [] d = None"
    using sect(1) assms(3) unfolding up by (simp add: Let_def)
  then show ?thesis using assms(3,4) by (subst read_chain.simps) simp
qed

theorem fat12_read_overruns_sector_witness:
  "read_chain null_drv (floppy\<lparr>sectors_per_cluster := 2\<rparr>) 600 2 [] () = None"
  by (rule fat12_read_overruns_sector [where buf = "replicate 512 0" and ?d1.0 = "()"])
    (simp_all add: floppy_def read_sector_def null_drv_def ATA_SECTOR_SIZE_def)

end
