(* ===== verification/Fat12_Stale.thy ===== *)
theory Fat12_Stale
  imports Fat12_File
begin

text \<open>
  A run of the file system that ends with a file whose second cluster is free: the directory entry of
  a deleted file is reused together with its old cluster number.
\<close>

section \<open>A stale first cluster\<close>

declare fat12_free_chain.simps [code] write_data_to_clusters.simps [code]

definition small :: fat12_fs_t where
  "small = floppy\<lparr>num_fats := 1, sectors_per_fat := 1, root_entry_count := 16, root_dir_sectors := 1,
     first_data_sector := 3, total_sectors := 20, fat := replicate 512 0, root_dir := replicate 512 0\<rparr>"

text \<open>
  A deleted directory slot keeps the number of its first cluster, and writing a new file
  into such a slot frees the chain that starts there. When that cluster has meanwhile been given to
  another file, this takes it away from it: A and B of one cluster are written and deleted, C
  of two clusters is written over both, then D is written, and the second cluster of C is free
  while C is still listed with its size of 600 bytes.
\<close>

theorem fat12_write_frees_other_file:
  "do { (k1, fs1, d1) \<leftarrow> fat12_write_file null_drv [65] [1] small ();
        (k2, fs2, d2) \<leftarrow> fat12_write_file null_drv [66] [1] fs1 d1;
        (k3, fs3, d3) \<leftarrow> fat12_delete_file null_drv [65] fs2 d2;
        (k4, fs4, d4) \<leftarrow> fat12_delete_file null_drv [66] fs3 d3;
        (k5, fs5, d5) \<leftarrow> fat12_write_file null_drv [67] (replicate 600 1) fs4 d4;
        (k6, fs6, d6) \<leftarrow> fat12_write_file null_drv [68] [1] fs5 d5;
        i \<leftarrow> fat12_find_file fs6 [67];
        Some (k1 \<and> k2 \<and> k3 \<and> k4 \<and> k5 \<and> k6, map_option (\<lambda>i. (fi_first_cluster i, fi_size i)) i,
          get_fat_entry fs5 2, get_fat_entry fs5 3, get_fat_entry fs6 2, get_fat_entry fs6 3) } =
   Some (True, Some (2, 600), Some 3, Some 0xFFF, Some 3, Some 0)"
  by code_simp

end
