(* ===== verification/Ipc.thy ===== *)
theory Ipc
  imports Kernel_Prelude
begin

text \<open>
  Drivers and messages (\<open>Kernel/drivers/driver.c\<close> with \<open>Kernel/ipc/ipc.c\<close>, and the freestanding
  \<open>Kernel/drivers/driver_fs.c\<close>). Both files keep a fixed pool of messages, four singly linked queues
  through it, one per priority, and a list of registered drivers.

  A pointer into the pool is the index of the message, with \<open>None\<close> for \<open>NULL\<close>; the \<open>next\<close> fields of the
  pool are a list of their own, beside the messages. The walks along \<open>next\<close> are
  \<open>partial_function (option)\<close>: \<open>None\<close> for a walk that does not end. Log output is not modelled.
\<close>

section \<open>The message pool, shared by both files\<close>

record 'm mpool =
  mp_msgs :: "'m list"
  mp_next :: "nat option list"
  mp_used :: "bool list"
  mp_queues :: "nat option list"
  mp_count :: u64

definition NUM_QUEUES :: nat where "NUM_QUEUES = 4"

text \<open>The first free message of the pool; it is marked as used.\<close>

definition pool_alloc :: "'m mpool \<Rightarrow> (nat \<times> 'm mpool) option" where
  "pool_alloc s =
     (case find (\<lambda>i. \<not> mp_used s ! i) [0 ..< length (mp_used s)] of
        None \<Rightarrow> None
      | Some i \<Rightarrow> Some (i, s\<lparr>mp_used := (mp_used s)[i := True]\<rparr>))"

partial_function (option) last_in :: "nat option list \<Rightarrow> nat \<Rightarrow> nat option" where
  "last_in nx i = (case nx ! i of None \<Rightarrow> Some i | Some j \<Rightarrow> last_in nx j)"

definition pool_enqueue :: "nat \<Rightarrow> nat \<Rightarrow> 'm mpool \<Rightarrow> 'm mpool option" where
  "pool_enqueue p i s =
     (let nx = (mp_next s)[i := None] in
      case mp_queues s ! p of
        None \<Rightarrow> Some (s\<lparr>mp_next := nx, mp_queues := (mp_queues s)[p := Some i], mp_count := mp_count s + 1\<rparr>)
      | Some h \<Rightarrow> do { t \<leftarrow> last_in nx h;
                       Some (s\<lparr>mp_next := nx[t := Some i], mp_count := mp_count s + 1\<rparr>) })"

text \<open>The head of the first non-empty queue, from the highest priority down.\<close>

definition pool_dequeue :: "'m mpool \<Rightarrow> (nat \<times> 'm mpool) option" where
  "pool_dequeue s =
     (case find (\<lambda>p. mp_queues s ! p \<noteq> None) (rev [0 ..< NUM_QUEUES]) of
        None \<Rightarrow> None
      | Some p \<Rightarrow>
          (let i = the (mp_queues s ! p) in
           Some (i, s\<lparr>mp_queues := (mp_queues s)[p := mp_next s ! i],
                      mp_next := (mp_next s)[i := None],
                      mp_count := (if mp_count s > 0 then mp_count s - 1 else mp_count s)\<rparr>)))"

definition pool_free :: "nat \<Rightarrow> 'm mpool \<Rightarrow> 'm mpool" where
  "pool_free i s = (if i < length (mp_used s) then s\<lparr>mp_used := (mp_used s)[i := False]\<rparr> else s)"

section \<open>Messages of the hosted kernel\<close>

definition MAX_MESSAGES :: nat where "MAX_MESSAGES = 64"
definition IPC_MAX_PAYLOAD :: nat where "IPC_MAX_PAYLOAD = 256"

record ipc_message_t =
  msg_id :: u64
  src_pid :: u64
  dst_pid :: u64
  priority :: u8
  timestamp :: u64
  payload_size :: nat
  payload :: bytes

record ipc_state =
  kernel_msg_queue :: "ipc_message_t mpool"
  next_msg_id :: u64

definition zero_message :: ipc_message_t where
  "zero_message = \<lparr>msg_id = 0, src_pid = 0, dst_pid = 0, priority = 0, timestamp = 0, payload_size = 0,
     payload = replicate IPC_MAX_PAYLOAD 0\<rparr>"

text \<open>What \<open>drivers_init\<close> resets: the used marks and the queues, not the counter of identifiers.\<close>

definition msg_queue_init :: "'m mpool \<Rightarrow> 'm mpool" where
  "msg_queue_init q = q\<lparr>mp_queues := replicate NUM_QUEUES None, mp_count := 0\<rparr>"

definition ipc_reset :: "ipc_state \<Rightarrow> ipc_state" where
  "ipc_reset s = s\<lparr>kernel_msg_queue := msg_queue_init ((kernel_msg_queue s)
     \<lparr>mp_used := replicate (length (mp_used (kernel_msg_queue s))) False\<rparr>)\<rparr>"

definition allocate_message :: "ipc_state \<Rightarrow> (nat \<times> ipc_state) option" where
  "allocate_message s =
     (case pool_alloc (kernel_msg_queue s) of
        None \<Rightarrow> None
      | Some (i, q) \<Rightarrow>
          Some (i, s\<lparr>kernel_msg_queue := q\<lparr>mp_msgs := (mp_msgs q)[i := zero_message\<lparr>msg_id := next_msg_id s\<rparr>],
                                            mp_next := (mp_next q)[i := None]\<rparr>,
                     next_msg_id := next_msg_id s + 1\<rparr>))"

text \<open>\<open>True\<close> for result 0, \<open>False\<close> for -1; \<open>me\<close> and \<open>now\<close>: the current process and the tick count.\<close>

definition msg_send :: "u64 \<Rightarrow> u64 \<Rightarrow> u64 \<Rightarrow> bytes \<Rightarrow> u8 \<Rightarrow> ipc_state \<Rightarrow> (bool \<times> ipc_state) option" where
  "msg_send me now dst data prio s =
     (if data = [] \<or> prio > 3 \<or> length data > IPC_MAX_PAYLOAD then Some (False, s)
      else
        (case allocate_message s of
           None \<Rightarrow> Some (False, s)
         | Some (i, s1) \<Rightarrow>
             (let q = kernel_msg_queue s1;
                  m = (mp_msgs q ! i)\<lparr>src_pid := me, dst_pid := dst, priority := prio, timestamp := now,
                        payload_size := length data,
                        payload := data @ drop (length data) (payload (mp_msgs q ! i))\<rparr>
              in do { q1 \<leftarrow> pool_enqueue (unat prio) i (q\<lparr>mp_msgs := (mp_msgs q)[i := m]\<rparr>);
                      Some (True, s1\<lparr>kernel_msg_queue := q1\<rparr>) })))"

definition msg_recv :: "ipc_state \<Rightarrow> (nat \<times> ipc_state) option" where
  "msg_recv s = map_option (\<lambda>(i, q). (i, s\<lparr>kernel_msg_queue := q\<rparr>)) (pool_dequeue (kernel_msg_queue s))"

definition msg_free :: "nat \<Rightarrow> ipc_state \<Rightarrow> ipc_state" where
  "msg_free i s = s\<lparr>kernel_msg_queue := pool_free i (kernel_msg_queue s)\<rparr>"

definition ipc_pending_count :: "ipc_state \<Rightarrow> u64" where
  "ipc_pending_count s = mp_count (kernel_msg_queue s)"

section \<open>Chess messages\<close>

definition CHESS_MSG_MOVE :: u8 where "CHESS_MSG_MOVE = 0x01"
definition CHESS_MSG_RESIGN :: u8 where "CHESS_MSG_RESIGN = 0x02"
definition CHESS_MSG_RESIGN_ACCEPT :: u8 where "CHESS_MSG_RESIGN_ACCEPT = 0x04"
definition CHESS_MSG_DRAW_OFFER :: u8 where "CHESS_MSG_DRAW_OFFER = 0x05"
definition CHESS_MSG_DRAW_ACCEPT :: u8 where "CHESS_MSG_DRAW_ACCEPT = 0x06"
definition CHESS_MSG_STATE :: u8 where "CHESS_MSG_STATE = 0x0F"

lemmas chess_consts = CHESS_MSG_MOVE_def CHESS_MSG_RESIGN_def CHESS_MSG_RESIGN_ACCEPT_def
  CHESS_MSG_DRAW_OFFER_def CHESS_MSG_DRAW_ACCEPT_def CHESS_MSG_STATE_def

text \<open>The 67 bytes of \<open>chess_message_t\<close>: type, 64 bytes of text (cut at 63), promotion and score.\<close>

definition chess_bytes :: "u8 \<Rightarrow> bytes \<Rightarrow> u8 \<Rightarrow> u8 \<Rightarrow> bytes" where
  "chess_bytes typ txt promotion score =
     [typ] @ (let t = take 63 txt in t @ replicate (64 - length t) 0) @ [promotion, score]"

definition score_move :: "bytes \<Rightarrow> u8" where
  "score_move move = word_of_int (int (sum_list (map unat move) mod 101) - 50)"

definition chess_send_move :: "u64 \<Rightarrow> u64 \<Rightarrow> u64 \<Rightarrow> bytes \<Rightarrow> u8 \<Rightarrow> ipc_state \<Rightarrow> ipc_state option" where
  "chess_send_move me now dst move promotion s =
     map_option snd (msg_send me now dst (chess_bytes CHESS_MSG_MOVE move promotion (score_move move)) 2 s)"

definition chess_send_state :: "u64 \<Rightarrow> u64 \<Rightarrow> u64 \<Rightarrow> bytes \<Rightarrow> ipc_state \<Rightarrow> ipc_state option" where
  "chess_send_state me now dst fen s =
     map_option snd (msg_send me now dst (chess_bytes CHESS_MSG_STATE fen 0 0) 1 s)"

definition chess_send_draw_offer :: "u64 \<Rightarrow> u64 \<Rightarrow> u64 \<Rightarrow> ipc_state \<Rightarrow> ipc_state option" where
  "chess_send_draw_offer me now dst s =
     map_option snd (msg_send me now dst (chess_bytes CHESS_MSG_DRAW_OFFER [] 0 0) 2 s)"

definition chess_send_draw_accept :: "u64 \<Rightarrow> u64 \<Rightarrow> u64 \<Rightarrow> ipc_state \<Rightarrow> ipc_state option" where
  "chess_send_draw_accept me now dst s =
     map_option snd (msg_send me now dst (chess_bytes CHESS_MSG_DRAW_ACCEPT [] 0 0) 2 s)"

definition chess_send_resign :: "u64 \<Rightarrow> u64 \<Rightarrow> u64 \<Rightarrow> ipc_state \<Rightarrow> ipc_state option" where
  "chess_send_resign me now dst s =
     map_option snd (msg_send me now dst (chess_bytes CHESS_MSG_RESIGN [] 0 0) 0 s)"

definition chess_send_resign_accept :: "u64 \<Rightarrow> u64 \<Rightarrow> u64 \<Rightarrow> ipc_state \<Rightarrow> ipc_state option" where
  "chess_send_resign_accept me now dst s =
     map_option snd (msg_send me now dst (chess_bytes CHESS_MSG_RESIGN_ACCEPT [] 0 0) 2 s)"

definition chess_known :: "u8 \<Rightarrow> bool" where
  "chess_known t \<longleftrightarrow> t \<in> {CHESS_MSG_MOVE, CHESS_MSG_STATE, CHESS_MSG_DRAW_OFFER, CHESS_MSG_DRAW_ACCEPT,
     CHESS_MSG_RESIGN, CHESS_MSG_RESIGN_ACCEPT}"

definition ipc_process_message :: "ipc_message_t \<Rightarrow> bool" where
  "ipc_process_message m \<longleftrightarrow> payload_size m = 67 \<and> chess_known (payload m ! 0)"

text \<open>Receiving and handling until the limit is reached or no message is left.\<close>

partial_function (option) ipc_poll_loop :: "u64 \<Rightarrow> u64 \<Rightarrow> ipc_state \<Rightarrow> (u64 \<times> ipc_state) option" where
  "ipc_poll_loop mx handled s =
     (if handled < mx
      then (case msg_recv s of
              None \<Rightarrow> Some (handled, s)
            | Some (i, s1) \<Rightarrow>
                ipc_poll_loop mx (if ipc_process_message (mp_msgs (kernel_msg_queue s1) ! i) then handled + 1 else handled)
                  (msg_free i s1))
      else Some (handled, s))"

definition ipc_poll :: "u64 \<Rightarrow> ipc_state \<Rightarrow> (u64 \<times> ipc_state) option" where
  "ipc_poll mx s = ipc_poll_loop mx 0 s"

section \<open>Messages of the freestanding kernel\<close>

definition MAX_MESSAGES_FS :: nat where "MAX_MESSAGES_FS = 16"

record chess_message_t =
  cm_type :: u8
  cm_move :: bytes
  cm_promotion :: u8
  cm_score :: u8

record ipc_fs_msg_t =
  fm_id :: u64
  fm_src :: u64
  fm_dst :: u64
  fm_priority :: u8
  fm_payload :: chess_message_t

record ipc_fs_state =
  g_pool :: "ipc_fs_msg_t mpool"
  g_next_id :: u64

definition msg_pool_init :: "ipc_fs_state \<Rightarrow> ipc_fs_state" where
  "msg_pool_init s = s\<lparr>g_pool := (g_pool s)\<lparr>mp_used := replicate MAX_MESSAGES_FS False,
     mp_queues := replicate NUM_QUEUES None, mp_count := 0\<rparr>, g_next_id := 0\<rparr>"

definition alloc_msg :: "ipc_fs_state \<Rightarrow> (nat \<times> ipc_fs_state) option" where
  "alloc_msg s =
     (case pool_alloc (g_pool s) of
        None \<Rightarrow> None
      | Some (i, q) \<Rightarrow>
          (let k = g_next_id s + 1 in
           Some (i, s\<lparr>g_pool := q\<lparr>mp_msgs := (mp_msgs q)[i := \<lparr>fm_id = k, fm_src = 0, fm_dst = 0, fm_priority = 0,
                        fm_payload = \<lparr>cm_type = 0, cm_move = [], cm_promotion = 0, cm_score = 0\<rparr>\<rparr>],
                        mp_next := (mp_next q)[i := None]\<rparr>, g_next_id := k\<rparr>)))"

definition enqueue_fs :: "nat \<Rightarrow> ipc_fs_state \<Rightarrow> ipc_fs_state option" where
  "enqueue_fs i s =
     (let p = unat (fm_priority (mp_msgs (g_pool s) ! i)) in
      if p \<ge> NUM_QUEUES then Some s
      else do { q \<leftarrow> pool_enqueue p i (g_pool s); Some (s\<lparr>g_pool := q\<rparr>) })"

definition dequeue_highest :: "ipc_fs_state \<Rightarrow> (nat \<times> ipc_fs_state) option" where
  "dequeue_highest s = map_option (\<lambda>(i, q). (i, s\<lparr>g_pool := q\<rparr>)) (pool_dequeue (g_pool s))"

definition free_msg :: "nat \<Rightarrow> ipc_fs_state \<Rightarrow> ipc_fs_state" where
  "free_msg i s = s\<lparr>g_pool := pool_free i (g_pool s)\<rparr>"

definition send_chess :: "u64 \<Rightarrow> chess_message_t \<Rightarrow> u8 \<Rightarrow> ipc_fs_state \<Rightarrow> ipc_fs_state option" where
  "send_chess dst pl prio s =
     (case alloc_msg s of
        None \<Rightarrow> Some s
      | Some (i, s1) \<Rightarrow>
          (let q = g_pool s1;
               m = (mp_msgs q ! i)\<lparr>fm_src := 1, fm_dst := dst, fm_priority := prio, fm_payload := pl\<rparr>
           in enqueue_fs i (s1\<lparr>g_pool := q\<lparr>mp_msgs := (mp_msgs q)[i := m]\<rparr>\<rparr>)))"

definition ipc_chess_send_move :: "u64 \<Rightarrow> bytes \<Rightarrow> u8 \<Rightarrow> ipc_fs_state \<Rightarrow> ipc_fs_state option" where
  "ipc_chess_send_move dst move promotion =
     send_chess dst \<lparr>cm_type = CHESS_MSG_MOVE, cm_move = take 63 move, cm_promotion = promotion,
       cm_score = score_move move\<rparr> 2"

definition ipc_chess_send_state :: "u64 \<Rightarrow> bytes \<Rightarrow> ipc_fs_state \<Rightarrow> ipc_fs_state option" where
  "ipc_chess_send_state dst fen =
     send_chess dst \<lparr>cm_type = CHESS_MSG_STATE, cm_move = take 63 fen, cm_promotion = 0, cm_score = 0\<rparr> 1"

definition chess_plain :: "u8 \<Rightarrow> chess_message_t" where
  "chess_plain t = \<lparr>cm_type = t, cm_move = [], cm_promotion = 0, cm_score = 0\<rparr>"

definition ipc_chess_send_draw_offer :: "u64 \<Rightarrow> ipc_fs_state \<Rightarrow> ipc_fs_state option" where
  "ipc_chess_send_draw_offer dst = send_chess dst (chess_plain CHESS_MSG_DRAW_OFFER) 2"

definition ipc_chess_send_draw_accept :: "u64 \<Rightarrow> ipc_fs_state \<Rightarrow> ipc_fs_state option" where
  "ipc_chess_send_draw_accept dst = send_chess dst (chess_plain CHESS_MSG_DRAW_ACCEPT) 2"

definition ipc_chess_send_resign :: "u64 \<Rightarrow> ipc_fs_state \<Rightarrow> ipc_fs_state option" where
  "ipc_chess_send_resign dst = send_chess dst (chess_plain CHESS_MSG_RESIGN) 0"

definition ipc_chess_send_resign_accept :: "u64 \<Rightarrow> ipc_fs_state \<Rightarrow> ipc_fs_state option" where
  "ipc_chess_send_resign_accept dst = send_chess dst (chess_plain CHESS_MSG_RESIGN_ACCEPT) 2"

definition dispatch :: "chess_message_t \<Rightarrow> bool" where "dispatch m = chess_known (cm_type m)"

partial_function (option) ipc_fs_poll_loop :: "u64 \<Rightarrow> u64 \<Rightarrow> ipc_fs_state \<Rightarrow> (u64 \<times> ipc_fs_state) option" where
  "ipc_fs_poll_loop mx handled s =
     (if handled < mx
      then (case dequeue_highest s of
              None \<Rightarrow> Some (handled, s)
            | Some (i, s1) \<Rightarrow>
                ipc_fs_poll_loop mx (if dispatch (fm_payload (mp_msgs (g_pool s1) ! i)) then handled + 1 else handled)
                  (free_msg i s1))
      else Some (handled, s))"

definition ipc_fs_poll :: "u64 \<Rightarrow> ipc_fs_state \<Rightarrow> (u64 \<times> ipc_fs_state) option" where
  "ipc_fs_poll mx s = ipc_fs_poll_loop mx 0 s"

section \<open>The driver list\<close>

text \<open>
  Drivers are static objects, named by a number; \<open>drv_name\<close> is the name field, \<open>drv_next\<close> the link.
\<close>

record driver_reg =
  drv_name :: "nat \<Rightarrow> bytes"
  drv_next :: "nat \<Rightarrow> nat option"
  driver_list :: "nat option"

definition driver_register :: "nat \<Rightarrow> driver_reg \<Rightarrow> driver_reg" where
  "driver_register d s = s\<lparr>drv_next := (drv_next s)(d := driver_list s), driver_list := Some d\<rparr>"

partial_function (option) driver_lookup_from :: "driver_reg \<Rightarrow> bytes \<Rightarrow> nat option \<Rightarrow> nat option option" where
  "driver_lookup_from s name p =
     (case p of
        None \<Rightarrow> Some None
      | Some d \<Rightarrow> if drv_name s d = name then Some (Some d) else driver_lookup_from s name (drv_next s d))"

definition driver_lookup :: "bytes \<Rightarrow> driver_reg \<Rightarrow> nat option option" where
  "driver_lookup name s = driver_lookup_from s name (driver_list s)"

definition driver_get_list_head :: "driver_reg \<Rightarrow> nat option" where
  "driver_get_list_head s = driver_list s"

end
