(* ===== verification/Port_Io.thy ===== *)
theory Port_Io
  imports Kernel_Prelude
begin

text \<open>
  Port input and output (\<open>Kernel/arch/io.h\<close>). The devices behind the ports are hardware: the accesses are an
  argument of every driver that makes them, with the state \<open>'h\<close> of the devices.
\<close>

record 'h ports =
  p_inb :: "u16 \<Rightarrow> 'h \<Rightarrow> u8 \<times> 'h"
  p_outb :: "u16 \<Rightarrow> u8 \<Rightarrow> 'h \<Rightarrow> 'h"
  p_inw :: "u16 \<Rightarrow> 'h \<Rightarrow> u16 \<times> 'h"
  p_outw :: "u16 \<Rightarrow> u16 \<Rightarrow> 'h \<Rightarrow> 'h"

text \<open>Devices that only record what is written to them.\<close>

definition log_ports :: "(u16 \<times> u8) list ports" where
  "log_ports = \<lparr>p_inb = (\<lambda>r h. (0, h)), p_outb = (\<lambda>r v h. h @ [(r, v)]), p_inw = (\<lambda>r h. (0, h)), p_outw = (\<lambda>r v h. h)\<rparr>"

end
