(* ===== verification/Ata.thy ===== *)
theory Ata
  imports Fat12_File Ipc Port_Io
begin

text \<open>
  The disk driver (\<open>Kernel/drivers/ata.c\<close>): transfer of single sectors by polling, with 28-bit
  addressing. The controller is hardware: its port accesses are an argument, \<open>ports\<close>, with the state \<open>'h\<close>
  of the controller behind them. Its documented behaviour is the locale \<open>ide_controller\<close>.
\<close>

section \<open>Registers\<close>

definition ATA_REG_DATA :: u16 where "ATA_REG_DATA = 0x1F0"
definition ATA_REG_SECT_COUNT :: u16 where "ATA_REG_SECT_COUNT = 0x1F2"
definition ATA_REG_LBA_LO :: u16 where "ATA_REG_LBA_LO = 0x1F3"
definition ATA_REG_LBA_MID :: u16 where "ATA_REG_LBA_MID = 0x1F4"
definition ATA_REG_LBA_HI :: u16 where "ATA_REG_LBA_HI = 0x1F5"
definition ATA_REG_DRIVE :: u16 where "ATA_REG_DRIVE = 0x1F6"
definition ATA_REG_COMMAND :: u16 where "ATA_REG_COMMAND = 0x1F7"
definition ATA_CMD_READ_SECTORS :: u8 where "ATA_CMD_READ_SECTORS = 0x20"
definition ATA_CMD_WRITE_SECTORS :: u8 where "ATA_CMD_WRITE_SECTORS = 0x30"
definition ATA_DRIVE_MASTER :: u8 where "ATA_DRIVE_MASTER = 0xE0"
definition ATA_SR_BSY :: u8 where "ATA_SR_BSY = 0x80"
definition ATA_SR_ERR :: u8 where "ATA_SR_ERR = 0x01"
definition ATA_SR_DRQ :: u8 where "ATA_SR_DRQ = 0x08"
definition ATA_SPINS :: nat where "ATA_SPINS = 1000000"

lemmas ata_consts = ATA_REG_DATA_def ATA_REG_SECT_COUNT_def ATA_REG_LBA_LO_def ATA_REG_LBA_MID_def ATA_REG_LBA_HI_def
  ATA_REG_DRIVE_def ATA_REG_COMMAND_def ATA_CMD_READ_SECTORS_def ATA_CMD_WRITE_SECTORS_def ATA_DRIVE_MASTER_def
  ATA_SR_BSY_def ATA_SR_ERR_def ATA_SR_DRQ_def

section \<open>Polling and transfer\<close>

text \<open>The loops with \<open>n\<close> rounds to go.\<close>

fun poll_bsy :: "'h ports \<Rightarrow> nat \<Rightarrow> 'h \<Rightarrow> 'h" where
  "poll_bsy io 0 h = h"
| "poll_bsy io (Suc n) h =
     (let (st, h1) = p_inb io ATA_REG_COMMAND h in if st AND ATA_SR_BSY = 0 then h1 else poll_bsy io n h1)"

definition ata_poll_bsy :: "'h ports \<Rightarrow> 'h \<Rightarrow> 'h" where
  "ata_poll_bsy io = poll_bsy io ATA_SPINS"

fun poll_drq :: "'h ports \<Rightarrow> nat \<Rightarrow> 'h \<Rightarrow> bool \<times> 'h" where
  "poll_drq io 0 h = (False, h)"
| "poll_drq io (Suc n) h =
     (let (st, h1) = p_inb io ATA_REG_COMMAND h in
      if st AND ATA_SR_BSY \<noteq> 0 then poll_drq io n h1
      else if st AND ATA_SR_ERR \<noteq> 0 then (False, h1)
      else if st AND ATA_SR_DRQ \<noteq> 0 then (True, h1)
      else poll_drq io n h1)"

definition ata_poll_drq :: "'h ports \<Rightarrow> 'h \<Rightarrow> bool \<times> 'h" where
  "ata_poll_drq io = poll_drq io ATA_SPINS"

fun read_words :: "'h ports \<Rightarrow> nat \<Rightarrow> 'h \<Rightarrow> u16 list \<times> 'h" where
  "read_words io 0 h = ([], h)"
| "read_words io (Suc n) h =
     (let (w, h1) = p_inw io ATA_REG_DATA h; (ws, h2) = read_words io n h1 in (w # ws, h2))"

text \<open>Words in memory are little endian.\<close>

definition word_bytes :: "u16 \<Rightarrow> bytes" where "word_bytes w = [ucast w, ucast (drop_bit 8 w)]"

fun bytes_words :: "bytes \<Rightarrow> u16 list" where
  "bytes_words (a # b # bs) = (ucast a OR push_bit 8 (ucast b)) # bytes_words bs"
| "bytes_words bs = []"

definition ata_read_256_words :: "'h ports \<Rightarrow> 'h \<Rightarrow> bytes \<times> 'h" where
  "ata_read_256_words io h = (let (ws, h1) = read_words io 256 h in (concat (map word_bytes ws), h1))"

definition ata_write_256_words :: "'h ports \<Rightarrow> bytes \<Rightarrow> 'h \<Rightarrow> 'h" where
  "ata_write_256_words io buf h = fold (p_outw io ATA_REG_DATA) (take 256 (bytes_words buf)) h"

section \<open>Single sectors\<close>

definition ata_start :: "'h ports \<Rightarrow> u32 \<Rightarrow> u8 \<Rightarrow> 'h \<Rightarrow> 'h" where
  "ata_start io lba command h =
     (let h0 = ata_poll_bsy io h;
          h1 = p_outb io ATA_REG_DRIVE (ATA_DRIVE_MASTER OR ucast (drop_bit 24 lba AND 0x0F)) h0;
          h2 = p_outb io ATA_REG_SECT_COUNT 1 h1;
          h3 = p_outb io ATA_REG_LBA_LO (ucast (lba AND 0xFF)) h2;
          h4 = p_outb io ATA_REG_LBA_MID (ucast (drop_bit 8 lba AND 0xFF)) h3;
          h5 = p_outb io ATA_REG_LBA_HI (ucast (drop_bit 16 lba AND 0xFF)) h4
      in p_outb io ATA_REG_COMMAND command h5)"

definition ata_read_sector :: "'h ports \<Rightarrow> u32 \<Rightarrow> 'h \<Rightarrow> bytes option \<times> 'h" where
  "ata_read_sector io lba h =
     (let h1 = ata_start io lba ATA_CMD_READ_SECTORS h; (ok, h2) = ata_poll_drq io h1 in
      if \<not> ok then (None, h2)
      else (let (bs, h3) = ata_read_256_words io h2 in (Some bs, ata_poll_bsy io h3)))"

definition ata_write_sector :: "'h ports \<Rightarrow> u32 \<Rightarrow> bytes \<Rightarrow> 'h \<Rightarrow> bool \<times> 'h" where
  "ata_write_sector io lba buf h =
     (let h1 = ata_start io lba ATA_CMD_WRITE_SECTORS h; (ok, h2) = ata_poll_drq io h1 in
      if \<not> ok then (False, h2) else (True, ata_poll_bsy io (ata_write_256_words io buf h2)))"

section \<open>The driver operations\<close>

record 'h ata_device_t =
  cur_lba :: u32
  bus :: 'h

fun read_sectors :: "'h ports \<Rightarrow> u32 \<Rightarrow> nat \<Rightarrow> 'h \<Rightarrow> nat \<times> bytes \<times> 'h" where
  "read_sectors io lba 0 h = (0, [], h)"
| "read_sectors io lba (Suc n) h =
     (case ata_read_sector io lba h of
        (None, h1) \<Rightarrow> (0, [], h1)
      | (Some bs, h1) \<Rightarrow> (let (k, bs2, h2) = read_sectors io (lba + 1) n h1 in (Suc k, bs @ bs2, h2)))"

text \<open>The number of bytes transferred, the bytes, and the device; the position moves on full success only.\<close>

definition ata_drv_read :: "'h ports \<Rightarrow> nat \<Rightarrow> 'h ata_device_t \<Rightarrow> int \<times> bytes \<times> 'h ata_device_t" where
  "ata_drv_read io count dev =
     (let n_sectors = count div ATA_SECTOR_SIZE in
      if n_sectors = 0 then (0, [], dev)
      else (let (k, bs, h) = read_sectors io (cur_lba dev) n_sectors (bus dev) in
            if k < n_sectors then (int (k * ATA_SECTOR_SIZE), bs, dev\<lparr>bus := h\<rparr>)
            else (int (n_sectors * ATA_SECTOR_SIZE), bs, \<lparr>cur_lba = cur_lba dev + of_nat n_sectors, bus = h\<rparr>)))"

fun write_sectors :: "'h ports \<Rightarrow> u32 \<Rightarrow> nat \<Rightarrow> bytes \<Rightarrow> 'h \<Rightarrow> nat \<times> 'h" where
  "write_sectors io lba 0 p h = (0, h)"
| "write_sectors io lba (Suc n) p h =
     (let (ok, h1) = ata_write_sector io lba (take ATA_SECTOR_SIZE p) h in
      if \<not> ok then (0, h1)
      else (let (k, h2) = write_sectors io (lba + 1) n (drop ATA_SECTOR_SIZE p) h1 in (Suc k, h2)))"

definition ata_drv_write :: "'h ports \<Rightarrow> bytes \<Rightarrow> 'h ata_device_t \<Rightarrow> int \<times> 'h ata_device_t" where
  "ata_drv_write io buf dev =
     (let n_sectors = length buf div ATA_SECTOR_SIZE in
      if n_sectors = 0 then (0, dev)
      else (let (k, h) = write_sectors io (cur_lba dev) n_sectors buf (bus dev) in
            if k < n_sectors then (int (k * ATA_SECTOR_SIZE), dev\<lparr>bus := h\<rparr>)
            else (int (n_sectors * ATA_SECTOR_SIZE), \<lparr>cur_lba = cur_lba dev + of_nat n_sectors, bus = h\<rparr>)))"

text \<open>\<open>ata_drv_ioctl\<close> for its one request, \<open>ATA_IOCTL_SEEK\<close>.\<close>

definition ata_drv_ioctl :: "u32 \<Rightarrow> 'h ata_device_t \<Rightarrow> bool \<times> 'h ata_device_t" where
  "ata_drv_ioctl lba dev = (True, dev\<lparr>cur_lba := lba\<rparr>)"

definition ata_ops :: "'h ports \<Rightarrow> 'h ata_device_t blk_ops" where
  "ata_ops io = \<lparr>drv_seek = ata_drv_ioctl, drv_read = ata_drv_read io, drv_write = ata_drv_write io\<rparr>"

text \<open>Whether a drive answers.\<close>

definition ata_probe :: "'h ports \<Rightarrow> 'h ata_device_t \<Rightarrow> bool \<times> 'h ata_device_t" where
  "ata_probe io dev = (let (r, h) = ata_read_sector io 0 (bus dev) in (r \<noteq> None, \<lparr>cur_lba = 0, bus = h\<rparr>))"

text \<open>\<open>ready\<close> is \<open>g_ata_ready\<close>, \<open>drv\<close> the driver object that is registered.\<close>

definition ata_init ::
  "'h ports \<Rightarrow> nat \<Rightarrow> bool \<times> driver_reg \<times> 'h ata_device_t \<Rightarrow> bool \<times> bool \<times> driver_reg \<times> 'h ata_device_t" where
  "ata_init io drv s =
     (case s of (ready, reg, dev) \<Rightarrow>
        (let (ok, dev1) = ata_probe io dev in
         if \<not> ok then (False, ready, reg, dev1) else (True, True, driver_register drv reg, dev1)))"

definition ata_drv_init :: "bool \<Rightarrow> int" where "ata_drv_init ready = (if ready then 0 else - 1)"
definition ata_drv_open :: "bool \<Rightarrow> int" where "ata_drv_open ready = (if ready then 0 else - 1)"

end
