(* ===== verification/Ata_Drive.thy ===== *)
theory Ata_Drive
  imports Ata
begin

text \<open>
  The disk driver on a working controller implements the contract \<open>block_device\<close> of the file system.
  The controller's behaviour is the locale \<open>ide_controller\<close>: it follows the ATA protocol for
  reading and writing one sector with programmed transfers. A controller that
  satisfies it, with a busy phase after every command, is given as its interpretation.
\<close>

section \<open>The registers select the sector\<close>

lemma drive_byte:
  "(ATA_DRIVE_MASTER OR ucast (drop_bit 24 (lba :: u32) AND 0x0F)) AND 0xF0 = 0xE0"
  "(ATA_DRIVE_MASTER OR ucast (drop_bit 24 (lba :: u32) AND 0x0F)) AND 0x0F = ucast (drop_bit 24 lba AND 0x0F)"
proof -
  have m: "drop_bit 24 lba AND 0x0F = take_bit 4 (drop_bit 24 lba)"
    by (simp add: take_bit_eq_mask mask_eq_decr_exp and.commute)
  have n: "(0x0F :: u8) = mask 4" "(0xF0 :: u8) = push_bit 4 (mask 4)" "(0xE0 :: u8) = push_bit 5 (mask 3)"
    by (simp_all add: mask_eq_decr_exp push_bit_eq_mult)
  show "(ATA_DRIVE_MASTER OR ucast (drop_bit 24 lba AND 0x0F)) AND 0xF0 = 0xE0"
    unfolding ATA_DRIVE_MASTER_def m n by (rule bit_word_eqI) (auto simp: bit_simps)
  show "(ATA_DRIVE_MASTER OR ucast (drop_bit 24 lba AND 0x0F)) AND 0x0F = ucast (drop_bit 24 lba AND 0x0F)"
    unfolding ATA_DRIVE_MASTER_def m n by (rule bit_word_eqI) (auto simp: bit_simps)
qed

lemma lba_bytes:
  fixes lba :: u32
  shows "unat (ucast (lba AND 0xFF) :: u8) + 2 ^ 8 * unat (ucast (drop_bit 8 lba AND 0xFF) :: u8) +
     2 ^ 16 * unat (ucast (drop_bit 16 lba AND 0xFF) :: u8) + 2 ^ 24 * unat (ucast (drop_bit 24 lba AND 0x0F) :: u8) =
     unat lba mod 2 ^ 28"
proof -
  have a: "x AND 0xFF = take_bit 8 x" "x AND 0x0F = take_bit 4 x" for x :: u32
    by (simp_all add: take_bit_eq_mask mask_eq_decr_exp and.commute)
  have len8: "LENGTH(8) = 8" by simp
  have u: "unat (ucast (take_bit k (drop_bit n lba)) :: u8) = unat lba div 2 ^ n mod 2 ^ k" if "k \<le> 8" for n k
  proof -
    have "(2 :: nat) ^ k \<le> 2 ^ 8" using that by (rule power_increasing) simp
    moreover have "unat lba div 2 ^ n mod 2 ^ k < 2 ^ k" by simp
    ultimately have "unat lba div 2 ^ n mod 2 ^ k < 2 ^ 8" by (rule less_le_trans [rotated])
    then have "unat lba div 2 ^ n mod 2 ^ k mod 2 ^ 8 = unat lba div 2 ^ n mod 2 ^ k" by (rule mod_less)
    then show ?thesis unfolding unat_ucast_mod unat_take_bit_mod unat_drop_bit_div len8 .
  qed
  have "unat (ucast (take_bit 8 lba) :: u8) = unat lba mod 2 ^ 8" using u [of 8 0] by simp
  moreover have "x mod 2 ^ 28 = x mod 2 ^ 8 + 2 ^ 8 * (x div 2 ^ 8 mod 2 ^ 8) + 2 ^ 16 * (x div 2 ^ 16 mod 2 ^ 8) +
      2 ^ 24 * (x div 2 ^ 24 mod 2 ^ 4)" for x :: nat
    using mod_mult2_eq [of x "2 ^ 24" "2 ^ 4"] mod_mult2_eq [of x "2 ^ 16" "2 ^ 8"] mod_mult2_eq [of x "2 ^ 8" "2 ^ 8"]
    by simp
  ultimately show ?thesis unfolding a using u [of 8 8] u [of 8 16] u [of 4 24] by simp
qed

section \<open>The protocol of the controller\<close>

datatype ide_phase = Ready | Reading "u16 list" | Writing nat "u16 list"

definition lba_of :: "(u16 \<Rightarrow> u8) \<Rightarrow> nat" where
  "lba_of rg = unat (rg ATA_REG_LBA_LO) + 2 ^ 8 * unat (rg ATA_REG_LBA_MID) + 2 ^ 16 * unat (rg ATA_REG_LBA_HI) +
     2 ^ 24 * unat (rg ATA_REG_DRIVE AND 0x0F)"

definition selected :: "(u16 \<Rightarrow> u8) \<Rightarrow> bool" where
  "selected rg \<longleftrightarrow> rg ATA_REG_SECT_COUNT = 1 \<and> rg ATA_REG_DRIVE AND 0xF0 = 0xE0"

definition task_reg :: "u16 \<Rightarrow> bool" where
  "task_reg r \<longleftrightarrow> r \<in> {ATA_REG_SECT_COUNT, ATA_REG_LBA_LO, ATA_REG_LBA_MID, ATA_REG_LBA_HI, ATA_REG_DRIVE}"

text \<open>
  \<open>ph\<close>: the phase of a transfer; \<open>rg\<close>: the registers; \<open>disk\<close>: the words of each sector; \<open>lag\<close>: for
  how many more reads of the status register the drive reports that it is busy.
\<close>

locale ide_controller =
  fixes io :: "'h ports" and ph :: "'h \<Rightarrow> ide_phase" and rg :: "'h \<Rightarrow> u16 \<Rightarrow> u8"
    and disk :: "'h \<Rightarrow> nat \<Rightarrow> u16 list" and lag :: "'h \<Rightarrow> nat" and good :: "'h \<Rightarrow> bool"
  assumes sector_words: "good h \<Longrightarrow> length (disk h a) = 256"
    and status: "good h \<Longrightarrow> p_inb io ATA_REG_COMMAND h = (st, h') \<Longrightarrow>
      good h' \<and> ph h' = ph h \<and> rg h' = rg h \<and> disk h' = disk h \<and> lag h' = lag h - 1 \<and>
      (0 < lag h \<longrightarrow> st AND ATA_SR_BSY \<noteq> 0) \<and>
      (lag h = 0 \<longrightarrow> st AND ATA_SR_BSY = 0 \<and> st AND ATA_SR_ERR = 0 \<and> (ph h \<noteq> Ready \<longrightarrow> st AND ATA_SR_DRQ \<noteq> 0))"
    and register: "good h \<Longrightarrow> ph h = Ready \<Longrightarrow> lag h = 0 \<Longrightarrow> task_reg r \<Longrightarrow> h' = p_outb io r v h \<Longrightarrow>
      good h' \<and> ph h' = Ready \<and> rg h' = (rg h)(r := v) \<and> disk h' = disk h \<and> lag h' = 0"
    and command_read: "good h \<Longrightarrow> ph h = Ready \<Longrightarrow> lag h = 0 \<Longrightarrow> selected (rg h) \<Longrightarrow>
      h' = p_outb io ATA_REG_COMMAND ATA_CMD_READ_SECTORS h \<Longrightarrow>
      good h' \<and> ph h' = Reading (disk h (lba_of (rg h))) \<and> disk h' = disk h \<and> lag h' < ATA_SPINS"
    and command_write: "good h \<Longrightarrow> ph h = Ready \<Longrightarrow> lag h = 0 \<Longrightarrow> selected (rg h) \<Longrightarrow>
      h' = p_outb io ATA_REG_COMMAND ATA_CMD_WRITE_SECTORS h \<Longrightarrow>
      good h' \<and> ph h' = Writing (lba_of (rg h)) [] \<and> disk h' = disk h \<and> lag h' < ATA_SPINS"
    and data_in: "good h \<Longrightarrow> ph h = Reading (w # ws) \<Longrightarrow> lag h = 0 \<Longrightarrow> p_inw io ATA_REG_DATA h = (u, h') \<Longrightarrow>
      u = w \<and> good h' \<and> disk h' = disk h \<and>
      (if ws = [] then ph h' = Ready \<and> lag h' < ATA_SPINS else ph h' = Reading ws \<and> lag h' = 0)"
    and data_out: "good h \<Longrightarrow> ph h = Writing a ws \<Longrightarrow> lag h = 0 \<Longrightarrow> length ws < 256 \<Longrightarrow> h' = p_outw io ATA_REG_DATA u h \<Longrightarrow>
      good h' \<and>
      (if length ws = 255
       then ph h' = Ready \<and> disk h' = (disk h)(a := ws @ [u]) \<and> lag h' < ATA_SPINS
       else ph h' = Writing a (ws @ [u]) \<and> disk h' = disk h \<and> lag h' = 0)"
begin

definition idle :: "'h \<Rightarrow> bool" where "idle h \<longleftrightarrow> good h \<and> ph h = Ready \<and> lag h < ATA_SPINS"

lemma poll_bsy_done:
  "good h \<Longrightarrow> lag h < n \<Longrightarrow> good (poll_bsy io n h) \<and> lag (poll_bsy io n h) = 0 \<and> ph (poll_bsy io n h) = ph h \<and>
    rg (poll_bsy io n h) = rg h \<and> disk (poll_bsy io n h) = disk h"
proof (induction n arbitrary: h)
  case 0
  then show ?case by simp
next
  case (Suc n)
  obtain st h1 where in1: "p_inb io ATA_REG_COMMAND h = (st, h1)" by fastforce
  note s = status [OF Suc.prems(1) in1]
  show ?case
  proof (cases "lag h = 0")
    case True
    then show ?thesis using s in1 by simp
  next
    case False
    then show ?thesis using s in1 Suc.IH [of h1] Suc.prems(2) by simp
  qed
qed

lemma poll_drq_done:
  "good h \<Longrightarrow> lag h < n \<Longrightarrow> ph h \<noteq> Ready \<Longrightarrow> \<exists>h'. poll_drq io n h = (True, h') \<and> good h' \<and> lag h' = 0 \<and> ph h' = ph h \<and>
    disk h' = disk h"
proof (induction n arbitrary: h)
  case 0
  then show ?case by simp
next
  case (Suc n)
  obtain st h1 where in1: "p_inb io ATA_REG_COMMAND h = (st, h1)" by fastforce
  note s = status [OF Suc.prems(1) in1]
  show ?case
  proof (cases "lag h = 0")
    case True
    then show ?thesis using s in1 Suc.prems(3) by simp
  next
    case False
    then have "\<exists>h'. poll_drq io n h1 = (True, h') \<and> good h' \<and> lag h' = 0 \<and> ph h' = ph h1 \<and> disk h' = disk h1"
      using s Suc.prems by (intro Suc.IH) simp_all
    then show ?thesis using s in1 False by simp
  qed
qed

lemma read_words_all:
  "good h \<Longrightarrow> ph h = Reading ws \<Longrightarrow> lag h = 0 \<Longrightarrow> ws \<noteq> [] \<Longrightarrow>
     \<exists>h'. read_words io (length ws) h = (ws, h') \<and> idle h' \<and> disk h' = disk h"
proof (induction ws arbitrary: h)
  case Nil
  then show ?case by simp
next
  case (Cons w ws)
  obtain v h1 where in1: "p_inw io ATA_REG_DATA h = (v, h1)" by fastforce
  note s = data_in [OF Cons.prems(1,2,3) in1]
  show ?case
  proof (cases "ws = []")
    case True
    then show ?thesis using s in1 by (simp add: idle_def)
  next
    case False
    then obtain h' where "read_words io (length ws) h1 = (ws, h')" "idle h'" "disk h' = disk h1"
      using Cons.IH [of h1] s by auto
    then show ?thesis using s in1 by simp
  qed
qed

lemma write_words_all:
  "good h \<Longrightarrow> ph h = Writing a done \<Longrightarrow> lag h = 0 \<Longrightarrow> ws \<noteq> [] \<Longrightarrow> length done + length ws = 256 \<Longrightarrow>
     idle (fold (p_outw io ATA_REG_DATA) ws h) \<and> disk (fold (p_outw io ATA_REG_DATA) ws h) = (disk h)(a := done @ ws)"
proof (induction ws arbitrary: h "done")
  case Nil
  then show ?case by simp
next
  case (Cons w ws)
  have "length done < 256" using Cons.prems(5) by simp
  note s = data_out [OF Cons.prems(1,2,3) this refl, of w]
  show ?case
  proof (cases "ws = []")
    case True
    then show ?thesis using s Cons.prems(5) by (simp add: idle_def)
  next
    case False
    then have "length done \<noteq> 255" using Cons.prems(5) by auto
    then show ?thesis
      using s Cons.prems(5) False Cons.IH [of "p_outw io ATA_REG_DATA w h" "done @ [w]"] by simp
  qed
qed

lemma start_selects:
  assumes "idle h"
  shows "\<exists>h'. ata_start io lba cmd h = p_outb io ATA_REG_COMMAND cmd h' \<and> good h' \<and> ph h' = Ready \<and> lag h' = 0 \<and>
    selected (rg h') \<and> lba_of (rg h') = unat lba mod 2 ^ 28 \<and> disk h' = disk h"
proof -
  let ?dr = "ATA_DRIVE_MASTER OR ucast (drop_bit 24 lba AND 0x0F)"
  have task: "task_reg ATA_REG_DRIVE" "task_reg ATA_REG_SECT_COUNT" "task_reg ATA_REG_LBA_LO" "task_reg ATA_REG_LBA_MID"
    "task_reg ATA_REG_LBA_HI" by (simp_all add: task_reg_def)
  define h0 where "h0 = ata_poll_bsy io h"
  have 0: "good h0" "ph h0 = Ready" "lag h0 = 0" "disk h0 = disk h"
    using poll_bsy_done [of h ATA_SPINS] assms by (auto simp: h0_def ata_poll_bsy_def idle_def)
  define h1 where "h1 = p_outb io ATA_REG_DRIVE ?dr h0"
  note 1 = register [OF 0(1,2,3) task(1) h1_def]
  define h2 where "h2 = p_outb io ATA_REG_SECT_COUNT 1 h1"
  note 2 = register [OF _ _ _ task(2) h2_def]
  define h3 where "h3 = p_outb io ATA_REG_LBA_LO (ucast (lba AND 0xFF)) h2"
  note 3 = register [OF _ _ _ task(3) h3_def]
  define h4 where "h4 = p_outb io ATA_REG_LBA_MID (ucast (drop_bit 8 lba AND 0xFF)) h3"
  note 4 = register [OF _ _ _ task(4) h4_def]
  define h5 where "h5 = p_outb io ATA_REG_LBA_HI (ucast (drop_bit 16 lba AND 0xFF)) h4"
  note 5 = register [OF _ _ _ task(5) h5_def]
  have st: "ata_start io lba cmd h = p_outb io ATA_REG_COMMAND cmd h5"
    by (simp add: ata_start_def h0_def h1_def h2_def h3_def h4_def h5_def)
  have rgs: "rg h5 = (rg h0)(ATA_REG_DRIVE := ?dr, ATA_REG_SECT_COUNT := 1, ATA_REG_LBA_LO := ucast (lba AND 0xFF),
      ATA_REG_LBA_MID := ucast (drop_bit 8 lba AND 0xFF), ATA_REG_LBA_HI := ucast (drop_bit 16 lba AND 0xFF))"
    and all: "good h5" "ph h5 = Ready" "lag h5 = 0" "disk h5 = disk h"
    using 0 1 2 3 4 5 by simp_all
  have ne: "ATA_REG_DRIVE \<noteq> ATA_REG_SECT_COUNT" "ATA_REG_DRIVE \<noteq> ATA_REG_LBA_LO" "ATA_REG_DRIVE \<noteq> ATA_REG_LBA_MID"
    "ATA_REG_DRIVE \<noteq> ATA_REG_LBA_HI" "ATA_REG_SECT_COUNT \<noteq> ATA_REG_LBA_LO" "ATA_REG_SECT_COUNT \<noteq> ATA_REG_LBA_MID"
    "ATA_REG_SECT_COUNT \<noteq> ATA_REG_LBA_HI" "ATA_REG_LBA_LO \<noteq> ATA_REG_LBA_MID" "ATA_REG_LBA_LO \<noteq> ATA_REG_LBA_HI"
    "ATA_REG_LBA_MID \<noteq> ATA_REG_LBA_HI" by (simp_all add: ata_consts)
  have "selected (rg h5)" using ne drive_byte(1) [of lba] by (simp add: selected_def rgs)
  moreover have "lba_of (rg h5) = unat lba mod 2 ^ 28"
    using ne lba_bytes [of lba] drive_byte(2) [of lba] by (simp add: lba_of_def rgs)
  ultimately show ?thesis using st all by blast
qed

lemma read_sector_disk:
  assumes "idle h"
  shows "\<exists>h'. ata_read_sector io lba h = (Some (concat (map word_bytes (disk h (unat lba mod 2 ^ 28)))), h') \<and> idle h' \<and>
    disk h' = disk h"
proof -
  let ?ws = "disk h (unat lba mod 2 ^ 28)"
  obtain h0 where h0: "ata_start io lba ATA_CMD_READ_SECTORS h = p_outb io ATA_REG_COMMAND ATA_CMD_READ_SECTORS h0" "good h0"
    "ph h0 = Ready" "lag h0 = 0" "selected (rg h0)" "lba_of (rg h0) = unat lba mod 2 ^ 28" "disk h0 = disk h"
    using start_selects [OF assms, of lba ATA_CMD_READ_SECTORS] by blast
  define h1 where "h1 = p_outb io ATA_REG_COMMAND ATA_CMD_READ_SECTORS h0"
  have 1: "good h1" "ph h1 = Reading ?ws" "disk h1 = disk h" "lag h1 < ATA_SPINS"
    using command_read [OF h0(2-5) h1_def] h0(6,7) by simp_all
  obtain h2 where 2: "ata_poll_drq io h1 = (True, h2)" "good h2" "lag h2 = 0" "ph h2 = Reading ?ws" "disk h2 = disk h"
    using poll_drq_done [OF 1(1,4)] 1(2,3) by (auto simp: ata_poll_drq_def)
  have len: "length ?ws = 256" using sector_words [of h] assms by (simp add: idle_def)
  then have "?ws \<noteq> []" by auto
  then obtain h3 where 3: "read_words io 256 h2 = (?ws, h3)" "idle h3" "disk h3 = disk h"
    using read_words_all [OF 2(2,4,3)] len 2(5) by auto
  have "idle (ata_poll_bsy io h3)" "disk (ata_poll_bsy io h3) = disk h"
    using 3(2,3) poll_bsy_done [of h3 ATA_SPINS] by (auto simp: idle_def ata_poll_bsy_def)
  then show ?thesis
    using h0(1) 2(1) 3(1) by (simp add: ata_read_sector_def ata_read_256_words_def h1_def)
qed

lemma write_sector_disk:
  assumes "idle h" and "length (bytes_words buf) = 256"
  shows "\<exists>h'. ata_write_sector io lba buf h = (True, h') \<and> idle h' \<and>
    disk h' = (disk h)(unat lba mod 2 ^ 28 := bytes_words buf)"
proof -
  obtain h0 where h0: "ata_start io lba ATA_CMD_WRITE_SECTORS h = p_outb io ATA_REG_COMMAND ATA_CMD_WRITE_SECTORS h0" "good h0"
    "ph h0 = Ready" "lag h0 = 0" "selected (rg h0)" "lba_of (rg h0) = unat lba mod 2 ^ 28" "disk h0 = disk h"
    using start_selects [OF assms(1), of lba ATA_CMD_WRITE_SECTORS] by blast
  define h1 where "h1 = p_outb io ATA_REG_COMMAND ATA_CMD_WRITE_SECTORS h0"
  have 1: "good h1" "ph h1 = Writing (unat lba mod 2 ^ 28) []" "disk h1 = disk h" "lag h1 < ATA_SPINS"
    using command_write [OF h0(2-5) h1_def] h0(6,7) by simp_all
  obtain h2 where 2: "ata_poll_drq io h1 = (True, h2)" "good h2" "lag h2 = 0" "ph h2 = Writing (unat lba mod 2 ^ 28) []"
    "disk h2 = disk h"
    using poll_drq_done [OF 1(1,4)] 1(2,3) by (auto simp: ata_poll_drq_def)
  have "bytes_words buf \<noteq> []" using assms(2) by auto
  then have 3: "idle (ata_write_256_words io buf h2)"
    "disk (ata_write_256_words io buf h2) = (disk h)(unat lba mod 2 ^ 28 := bytes_words buf)"
    using write_words_all [OF 2(2,4,3), of "bytes_words buf"] assms(2) 2(5) by (simp_all add: ata_write_256_words_def)
  then have "idle (ata_poll_bsy io (ata_write_256_words io buf h2))"
    "disk (ata_poll_bsy io (ata_write_256_words io buf h2)) = (disk h)(unat lba mod 2 ^ 28 := bytes_words buf)"
    using poll_bsy_done [of "ata_write_256_words io buf h2" ATA_SPINS] by (auto simp: idle_def ata_poll_bsy_def)
  then show ?thesis using h0(1) 2(1) by (simp add: ata_write_sector_def h1_def)
qed

end

section \<open>The driver as a block device\<close>

lemma words_bytes: "even (length bs) \<Longrightarrow> concat (map word_bytes (bytes_words bs)) = bs"
proof (induction bs rule: bytes_words.induct)
  case (1 a b bs)
  have "ucast (ucast a OR push_bit 8 (ucast b) :: u16) = a" "ucast (drop_bit 8 (ucast a OR push_bit 8 (ucast b) :: u16)) = b"
    by (rule bit_word_eqI; auto simp: bit_simps dest: bit_imp_le_length)+
  then show ?case using 1 by (simp add: word_bytes_def)
qed auto

lemma length_bytes_words: "length (bytes_words bs) = length bs div 2"
  by (induction bs rule: bytes_words.induct) auto

lemma length_word_bytes: "length (concat (map word_bytes ws)) = 2 * length ws"
  by (induction ws) (auto simp: word_bytes_def)

definition disk_bytes :: "(nat \<Rightarrow> u16 list) \<Rightarrow> u32 \<Rightarrow> bytes" where
  "disk_bytes dk s = concat (map word_bytes (dk (unat s)))"

lemma lba28_mod: "lba28 s \<Longrightarrow> unat s mod 2 ^ 28 = unat s"
  by (simp add: lba28_def word_less_nat_alt)

sublocale ide_controller \<subseteq> dev: block_device "ata_ops io" "\<lambda>d. idle (bus d)" "\<lambda>d. disk_bytes (disk (bus d))"
proof (unfold_locales, goal_cases)
  case (1 d s)
  then show ?case using sector_words [of "bus d"] by (simp add: disk_bytes_def length_word_bytes idle_def)
next
  case (2 d s)
  obtain h where h: "ata_read_sector io s (bus d) = (Some (disk_bytes (disk (bus d)) s), h)" "idle h" "disk h = disk (bus d)"
    using read_sector_disk [OF 2(1), of s] lba28_mod [OF 2(2)] by (auto simp: disk_bytes_def)
  then have "read_sector (ata_ops io) s d = (Some (disk_bytes (disk (bus d)) s), \<lparr>cur_lba = s + 1, bus = h\<rparr>)"
    by (simp add: read_sector_def ata_ops_def ata_drv_ioctl_def ata_drv_read_def ATA_SECTOR_SIZE_def)
  then show ?case using h by simp
next
  case (3 d s bs)
  have w: "length (bytes_words bs) = 256" using 3(3) by (simp add: length_bytes_words)
  obtain h where h: "ata_write_sector io s bs (bus d) = (True, h)" "idle h" "disk h = (disk (bus d))(unat s := bytes_words bs)"
    using write_sector_disk [OF 3(1) w, of s] lba28_mod [OF 3(2)] by auto
  have "write_sector (ata_ops io) s bs d = (True, \<lparr>cur_lba = s + 1, bus = h\<rparr>)"
    using h(1) 3(3) by (simp add: write_sector_def ata_ops_def ata_drv_ioctl_def ata_drv_write_def ATA_SECTOR_SIZE_def)
  moreover have "disk_bytes (disk h) x = (if x = s then bs else disk_bytes (disk (bus d)) x)" for x
    using h(3) 3(3) words_bytes [of bs] by (auto simp: disk_bytes_def word_unat_eq_iff)
  ultimately show ?case using h(2) by simp
qed

context ide_controller
begin

lemmas file_roundtrip = dev.data_roundtrip

end

section \<open>A controller\<close>

text \<open>
  A controller of the protocol, busy for three reads of the status register after every command and
  after a finished transfer.
\<close>

record ide =
  i_ph :: ide_phase
  i_rg :: "u16 \<Rightarrow> u8"
  i_disk :: "nat \<Rightarrow> u16 list"
  i_lag :: nat

definition ide_ports :: "ide ports" where
  "ide_ports = \<lparr>
     p_inb = (\<lambda>r h. if i_lag h > 0 then (0x80, h\<lparr>i_lag := i_lag h - 1\<rparr>) else (if i_ph h = Ready then 0x40 else 0x48, h)),
     p_outb = (\<lambda>r v h.
       if r = ATA_REG_COMMAND
       then (if v = ATA_CMD_READ_SECTORS then h\<lparr>i_ph := Reading (i_disk h (lba_of (i_rg h))), i_lag := 3\<rparr>
             else if v = ATA_CMD_WRITE_SECTORS then h\<lparr>i_ph := Writing (lba_of (i_rg h)) [], i_lag := 3\<rparr>
             else h)
       else h\<lparr>i_rg := (i_rg h)(r := v)\<rparr>),
     p_inw = (\<lambda>r h. case i_ph h of
         Reading (w # ws) \<Rightarrow> (w, if ws = [] then h\<lparr>i_ph := Ready, i_lag := 3\<rparr> else h\<lparr>i_ph := Reading ws\<rparr>)
       | _ \<Rightarrow> (0xFFFF, h)),
     p_outw = (\<lambda>r w h. case i_ph h of
         Writing a ws \<Rightarrow> if length ws = 255 then h\<lparr>i_ph := Ready, i_disk := (i_disk h)(a := ws @ [w]), i_lag := 3\<rparr>
                          else h\<lparr>i_ph := Writing a (ws @ [w])\<rparr>
       | _ \<Rightarrow> h)\<rparr>"

definition ide_good :: "ide \<Rightarrow> bool" where "ide_good h \<longleftrightarrow> (\<forall>a. length (i_disk h a) = 256)"

interpretation ide: ide_controller ide_ports i_ph i_rg i_disk i_lag ide_good
proof (unfold_locales, goal_cases)
  case (1 h a)
  then show ?case by (simp add: ide_good_def)
next
  case (2 h st h')
  then show ?case by (auto simp: ide_ports_def ide_good_def ata_consts split: if_splits)
next
  case (3 h r h' v)
  then show ?case by (auto simp: ide_ports_def ide_good_def ata_consts task_reg_def)
next
  case (4 h h')
  then show ?case by (simp add: ide_ports_def ide_good_def ATA_SPINS_def)
next
  case (5 h h')
  then show ?case by (simp add: ide_ports_def ide_good_def ATA_SPINS_def ata_consts)
next
  case (6 h w ws u h')
  then show ?case by (auto simp: ide_ports_def ide_good_def ATA_SPINS_def split: if_splits)
next
  case (7 h a ws h' u)
  then show ?case by (simp add: ide_ports_def ide_good_def ATA_SPINS_def)
qed

section \<open>Properties\<close>

text \<open>
  On every controller that follows the protocol, a sector written through the ports is read
  back as it was written, and reading any other sector gives what was there before: the driver neither
  fails nor transfers the wrong sector, for all addresses of 28 bits.
\<close>

theorem ata_sector_roundtrip:
  assumes "ide_controller io ph rg disk lag good" and "good h" and "ph h = Ready" and "lag h < ATA_SPINS"
    and "lba28 s" and "lba28 t" and "length bs = 512"
  shows "\<exists>h1 h2. ata_write_sector io s bs h = (True, h1) \<and>
    ata_read_sector io t h1 = (Some (if t = s then bs else disk_bytes (disk h) t), h2) \<and>
    good h2 \<and> ph h2 = Ready \<and> lag h2 < ATA_SPINS"
proof -
  note idle_def = ide_controller.idle_def [OF assms(1)]
  have i: "ide_controller.idle ph lag good h" using assms(2-4) by (simp add: idle_def)
  have w: "length (bytes_words bs) = 256" using assms(7) by (simp add: length_bytes_words)
  obtain h1 where h1: "ata_write_sector io s bs h = (True, h1)" "ide_controller.idle ph lag good h1"
    "disk h1 = (disk h)(unat s := bytes_words bs)"
    using ide_controller.write_sector_disk [OF assms(1) i w, of s] lba28_mod [OF assms(5)] by auto
  obtain h2 where "ata_read_sector io t h1 = (Some (concat (map word_bytes (disk h1 (unat t)))), h2)"
    "ide_controller.idle ph lag good h2"
    using ide_controller.read_sector_disk [OF assms(1) h1(2), of t] lba28_mod [OF assms(6)] by auto
  moreover have "concat (map word_bytes (disk h1 (unat t))) = (if t = s then bs else disk_bytes (disk h) t)"
    using h1(3) words_bytes [of bs] assms(7) by (auto simp: disk_bytes_def word_unat_eq_iff)
  ultimately show ?thesis using h1(1) by (simp add: idle_def)
qed

definition blank :: ide where
  "blank = \<lparr>i_ph = Ready, i_rg = (\<lambda>_. 0), i_disk = (\<lambda>_. replicate 256 0), i_lag = 0\<rparr>"

theorem ata_sector_roundtrip_witness:
  "\<exists>h1 h2. ata_write_sector ide_ports 0x1234567 (replicate 512 7) blank = (True, h1) \<and>
    ata_read_sector ide_ports 0x1234567 h1 = (Some (replicate 512 7), h2)"
  using ata_sector_roundtrip [OF ide.ide_controller_axioms, of blank "0x1234567" "0x1234567" "replicate 512 7"]
  by (auto simp: blank_def ide_good_def lba28_def ATA_SPINS_def)

text \<open>
  Property C13. File contents survive the way through the file system, the disk driver and the controller:
  the clusters of an allocated chain are written, and reading the chain returns exactly the
  bytes written, while every cluster that was in use before keeps its contents. (One 512-byte sector
  per cluster.)
\<close>

theorem fat12_data_over_ata:
  assumes "ide_controller io ph rg disk lag good" and "good (bus d)" "ph (bus d) = Ready" "lag (bus d) < ATA_SPINS"
    and "vol_ok fs" and "simple_volume fs" and "data \<noteq> []" and "length data \<le> 512 * n"
    and "fat12_alloc_chain n fs = Some (first, fs1)" "first \<noteq> 0"
  shows "\<exists>d1 d2. write_data_to_clusters (ata_ops io) fs1 first data d = Some (True, d1) \<and>
    read_chain (ata_ops io) fs1 (length data) first [] d1 = Some (Some data, d2) \<and>
    (\<forall>c. data_cluster fs c \<longrightarrow> entry fs c \<noteq> 0 \<longrightarrow>
      disk_bytes (disk (bus d2)) (cluster_to_sector fs c) = disk_bytes (disk (bus d)) (cluster_to_sector fs c))"
proof -
  have "ide_controller.idle ph lag good (bus d)"
    using assms(2-4) by (simp add: ide_controller.idle_def [OF assms(1)])
  then show ?thesis
    using ide_controller.file_roundtrip [OF assms(1) assms(5,6) _ assms(7-10)]
    by blast
qed

definition small_floppy :: fat12_fs_t where
  "small_floppy = floppy\<lparr>sectors_per_fat := 1, total_sectors := 40, fat := replicate 512 0, root_dir := []\<rparr>"

lemma small_floppy_ok: "vol_ok small_floppy" "simple_volume small_floppy"
proof -
  have "fat12_max_cluster small_floppy = Some 9" by (simp add: fat12_max_cluster_def small_floppy_def floppy_def)
  moreover have "in_fat small_floppy c" if "c < 9" for c
    using that by (simp add: in_fat_def small_floppy_def floppy_def fat_bytes_def word_less_nat_alt)
  ultimately show "vol_ok small_floppy"
    by (simp add: vol_ok_def fat_ok_def) (simp add: small_floppy_def floppy_def fat_bytes_def)
  show "simple_volume small_floppy" by (simp add: simple_volume_def small_floppy_def floppy_def)
qed

theorem fat12_data_over_ata_witness:
  "\<exists>first fs1 d1 d2. fat12_alloc_chain 2 small_floppy = Some (first, fs1) \<and>
    write_data_to_clusters (ata_ops ide_ports) fs1 first (replicate 600 7) \<lparr>cur_lba = 0, bus = blank\<rparr> = Some (True, d1) \<and>
    read_chain (ata_ops ide_ports) fs1 600 first [] d1 = Some (Some (replicate 600 7), d2)"
proof -
  have "map_option fst (fat12_alloc_chain 2 small_floppy) = Some 2" by code_simp
  then obtain fs1 where f: "fat12_alloc_chain 2 small_floppy = Some (2, fs1)" by auto
  have b: "ide_good blank" "i_ph blank = Ready" "i_lag blank < ATA_SPINS"
    by (simp_all add: blank_def ide_good_def ATA_SPINS_def)
  show ?thesis
    using fat12_data_over_ata [OF ide.ide_controller_axioms _ _ _ small_floppy_ok, of "\<lparr>cur_lba = 0, bus = blank\<rparr>"
        "replicate 600 7" 2 2 fs1] f b by auto
qed

text \<open>
  Property C14. A drive that stays busy for ever does not hang the kernel: every transfer returns with
  failure after its bounded polling, and \<open>ata_init\<close> fails without registering the driver.
\<close>

theorem ata_dead_drive:
  assumes "\<And>h. fst (p_inb io ATA_REG_COMMAND h) AND ATA_SR_BSY \<noteq> 0"
  shows "fst (ata_read_sector io lba h) = None \<and> fst (ata_write_sector io lba bs h) = False \<and>
    (\<exists>dev'. ata_init io drv (ready, reg, dev) = (False, ready, reg, dev'))"
proof -
  have p: "fst (poll_drq io n h) = False" for n h
    using assms by (induction n arbitrary: h) (simp_all add: case_prod_beta)
  have r: "fst (ata_read_sector io l k) = None" for l k
    using p [of ATA_SPINS "ata_start io l ATA_CMD_READ_SECTORS k"]
    by (simp add: ata_read_sector_def ata_poll_drq_def case_prod_beta)
  moreover have "fst (ata_write_sector io lba bs h) = False"
    using p [of ATA_SPINS "ata_start io lba ATA_CMD_WRITE_SECTORS h"]
    by (simp add: ata_write_sector_def ata_poll_drq_def case_prod_beta)
  moreover have "fst (ata_probe io dev) = False" using r by (simp add: ata_probe_def case_prod_beta)
  ultimately show ?thesis by (simp add: ata_init_def case_prod_beta)
qed

theorem ata_dead_drive_witness:
  "fst (ata_read_sector (ide_ports\<lparr>p_inb := \<lambda>r h. (0xFF, h)\<rparr>) 5 blank) = None"
  using ata_dead_drive [of "ide_ports\<lparr>p_inb := \<lambda>r h. (0xFF, h)\<rparr>" 5 blank] by (simp add: ata_consts)

end
