(* ===== verification/Ipc_Queue.thy ===== *)
theory Ipc_Queue
  imports Ipc
begin

text \<open>
  The message queues of both kernels refine an abstract mailbox with four first-in first-out boxes,
  one per priority. The contract is the locale \<open>priority_mailbox\<close>; it is interpreted on the hosted
  and on the freestanding implementation.
\<close>

section \<open>The contract\<close>

definition in_order :: "(nat \<Rightarrow> 'm list) \<Rightarrow> 'm list" where
  "in_order boxes = boxes 3 @ boxes 2 @ boxes 1 @ boxes 0"

fun recv_seq :: "('s \<Rightarrow> ('m \<times> 's) option) \<Rightarrow> nat \<Rightarrow> 's \<Rightarrow> 'm list \<times> 's" where
  "recv_seq recv 0 s = ([], s)"
| "recv_seq recv (Suc n) s =
     (case recv s of
        None \<Rightarrow> ([], s)
      | Some (m, s1) \<Rightarrow> (let (ms, s2) = recv_seq recv n s1 in (m # ms, s2)))"

locale priority_mailbox =
  fixes inv :: "'s \<Rightarrow> bool"
    and boxes :: "'s \<Rightarrow> nat \<Rightarrow> 'm list"
    and recv :: "'s \<Rightarrow> ('m \<times> 's) option"
  assumes recv_empty: "inv s \<Longrightarrow> (\<And>p. p < 4 \<Longrightarrow> boxes s p = []) \<Longrightarrow> recv s = None"
    and recv_highest: "inv s \<Longrightarrow> p < 4 \<Longrightarrow> boxes s p = m # ms \<Longrightarrow>
      (\<And>q. p < q \<Longrightarrow> q < 4 \<Longrightarrow> boxes s q = []) \<Longrightarrow>
      \<exists>s'. recv s = Some (m, s') \<and> inv s' \<and> (\<forall>q < 4. boxes s' q = (if q = p then ms else boxes s q))"
begin

lemma recv_none: "inv s \<Longrightarrow> in_order (boxes s) = [] \<Longrightarrow> recv s = None"
  by (rule recv_empty) (auto simp: in_order_def less_Suc_eq numeral_eq_Suc)

lemma recv_first:
  assumes "inv s" and "in_order (boxes s) = m # ms"
  shows "\<exists>s'. recv s = Some (m, s') \<and> inv s' \<and> in_order (boxes s') = ms"
proof -
  have "boxes s 3 \<noteq> [] \<or> boxes s 2 \<noteq> [] \<or> boxes s 1 \<noteq> [] \<or> boxes s 0 \<noteq> []"
    using assms(2) by (auto simp: in_order_def)
  then consider "boxes s 3 \<noteq> []" | "boxes s 3 = []" "boxes s 2 \<noteq> []"
    | "boxes s 3 = []" "boxes s 2 = []" "boxes s 1 \<noteq> []"
    | "boxes s 3 = []" "boxes s 2 = []" "boxes s 1 = []" "boxes s 0 \<noteq> []"
    by blast
  then obtain p k ks where p: "p < 4" "boxes s p = k # ks" "\<And>q. p < q \<Longrightarrow> q < 4 \<Longrightarrow> boxes s q = []"
  proof cases
    case 1
    then show thesis using that [of 3] by (cases "boxes s 3") auto
  next
    case 2
    then show thesis using that [of 2] by (cases "boxes s 2") (auto simp: less_Suc_eq numeral_eq_Suc)
  next
    case 3
    then show thesis using that [of 1] by (cases "boxes s 1") (auto simp: less_Suc_eq numeral_eq_Suc)
  next
    case 4
    then show thesis using that [of 0] by (cases "boxes s 0") (auto simp: less_Suc_eq numeral_eq_Suc)
  qed
  obtain s' where s': "recv s = Some (k, s')" "inv s'" "\<forall>q < 4. boxes s' q = (if q = p then ks else boxes s q)"
    using recv_highest [OF assms(1) p] by blast
  have "p = 0 \<or> p = 1 \<or> p = 2 \<or> p = 3" using p(1) by auto
  then have "in_order (boxes s) = k # in_order (boxes s')"
    using p s'(3) by (elim disjE) (simp_all add: in_order_def)
  then show ?thesis using s' assms(2) by auto
qed

theorem recv_all: "inv s \<Longrightarrow> \<exists>s'. recv_seq recv (length (in_order (boxes s))) s = (in_order (boxes s), s') \<and> inv s'"
proof (induction "in_order (boxes s)" arbitrary: s)
  case Nil
  then show ?case by (metis list.size(3) recv_seq.simps(1))
next
  case (Cons m ms)
  obtain s1 where s1: "recv s = Some (m, s1)" "inv s1" "in_order (boxes s1) = ms"
    using recv_first [OF Cons.prems, of m ms] Cons.hyps(2) by auto
  obtain s' where "recv_seq recv (length ms) s1 = (ms, s')" "inv s'"
    using Cons.hyps(1) [of s1] s1 by auto
  then show ?case using s1 Cons.hyps(2) [symmetric] by (auto simp: Let_def)
qed

end

section \<open>Lists through the pool\<close>

fun mlist :: "nat option list \<Rightarrow> nat option \<Rightarrow> nat list \<Rightarrow> bool" where
  "mlist nx h [] = (h = None)"
| "mlist nx h (i # is) = (h = Some i \<and> i < length nx \<and> mlist nx (nx ! i) is)"

lemma mlist_update: "i \<notin> set js \<Longrightarrow> mlist (nx[i := v]) h js = mlist nx h js"
  by (induction js arbitrary: h) auto

lemma mlist_less: "mlist nx h js \<Longrightarrow> i \<in> set js \<Longrightarrow> i < length nx"
  by (induction js arbitrary: h) auto

lemma last_in_mlist: "mlist nx (Some h) js \<Longrightarrow> last_in nx h = Some (last js)"
proof (induction js arbitrary: h)
  case Nil
  then show ?case by simp
next
  case (Cons j js)
  then show ?case
  proof (cases js)
    case Nil
    then show ?thesis using Cons.prems by (subst last_in.simps) simp
  next
    case (Cons k ks)
    then show ?thesis using Cons.prems Cons.IH [of k] by (subst last_in.simps) auto
  qed
qed

lemma mlist_snoc:
  "mlist nx h js \<Longrightarrow> js \<noteq> [] \<Longrightarrow> distinct js \<Longrightarrow> i \<notin> set js \<Longrightarrow> i < length nx \<Longrightarrow> nx ! i = None \<Longrightarrow>
     mlist (nx[last js := Some i]) h (js @ [i])"
proof (induction js arbitrary: h)
  case (Cons j js)
  show ?case
  proof (cases js)
    case Nil
    then show ?thesis using Cons.prems by auto
  next
    case (Cons k ks)
    have "mlist (nx[last js := Some i]) (nx ! j) (js @ [i])"
      using Cons.prems Cons by (intro Cons.IH) auto
    moreover have "j \<noteq> last js" using Cons.prems Cons by auto
    ultimately show ?thesis using Cons.prems Cons by auto
  qed
qed simp

section \<open>The invariant of the pool\<close>

text \<open>\<open>qs p\<close>: the indices in the queue of priority \<open>p\<close>.\<close>

definition pool_ok :: "'m mpool \<Rightarrow> (nat \<Rightarrow> nat list) \<Rightarrow> bool" where
  "pool_ok s qs \<longleftrightarrow>
     length (mp_next s) = length (mp_msgs s) \<and> length (mp_used s) = length (mp_msgs s) \<and>
     length (mp_queues s) = 4 \<and>
     (\<forall>p < 4. mlist (mp_next s) (mp_queues s ! p) (qs p)) \<and>
     (\<forall>p < 4. distinct (qs p)) \<and>
     (\<forall>p < 4. \<forall>q < 4. p \<noteq> q \<longrightarrow> set (qs p) \<inter> set (qs q) = {}) \<and>
     (\<forall>p < 4. \<forall>i \<in> set (qs p). mp_used s ! i)"

lemma pool_okD:
  assumes "pool_ok s qs" and "p < 4"
  shows "mlist (mp_next s) (mp_queues s ! p) (qs p)" "distinct (qs p)"
    "\<And>i. i \<in> set (qs p) \<Longrightarrow> i < length (mp_msgs s)" "\<And>i. i \<in> set (qs p) \<Longrightarrow> mp_used s ! i"
    "\<And>q. q < 4 \<Longrightarrow> q \<noteq> p \<Longrightarrow> set (qs p) \<inter> set (qs q) = {}"
  using assms mlist_less unfolding pool_ok_def by metis+

lemma pool_alloc_ok:
  assumes "pool_ok s qs"
  shows "case pool_alloc s of
      None \<Rightarrow> (\<forall>i < length (mp_msgs s). mp_used s ! i)
    | Some (i, s') \<Rightarrow> i < length (mp_msgs s) \<and> \<not> mp_used s ! i \<and> s' = s\<lparr>mp_used := (mp_used s)[i := True]\<rparr> \<and>
        (\<forall>p < 4. i \<notin> set (qs p)) \<and> pool_ok s' qs"
proof -
  have len: "length (mp_used s) = length (mp_msgs s)" using assms by (simp add: pool_ok_def)
  show ?thesis
  proof (cases "find (\<lambda>i. \<not> mp_used s ! i) [0 ..< length (mp_used s)]")
    case None
    then have "\<forall>i < length (mp_msgs s). mp_used s ! i" using len by (auto simp: find_None_iff)
    then show ?thesis using None by (simp add: pool_alloc_def)
  next
    case (Some i)
    then have i: "i < length (mp_msgs s)" "\<not> mp_used s ! i" using len by (auto simp: find_Some_iff)
    then have out: "\<forall>p < 4. i \<notin> set (qs p)" using pool_okD(4) [OF assms] by blast
    have "pool_ok (s\<lparr>mp_used := (mp_used s)[i := True]\<rparr>) qs"
      using assms i by (auto simp: pool_ok_def nth_list_update)
    then show ?thesis using Some i out by (simp add: pool_alloc_def)
  qed
qed

lemma pool_enqueue_ok:
  assumes ok: "pool_ok s qs" and p: "p < 4" and i: "i < length (mp_msgs s)" "mp_used s ! i"
    and out: "\<And>q. q < 4 \<Longrightarrow> i \<notin> set (qs q)"
  shows "\<exists>s'. pool_enqueue p i s = Some s' \<and> pool_ok s' (qs(p := qs p @ [i])) \<and> mp_msgs s' = mp_msgs s \<and>
    mp_used s' = mp_used s"
proof -
  let ?nx = "(mp_next s)[i := None]"
  have len: "length (mp_next s) = length (mp_msgs s)" "length (mp_queues s) = 4" using ok by (simp_all add: pool_ok_def)
  have ml: "mlist ?nx (mp_queues s ! q) (qs q)" if "q < 4" for q
    using pool_okD(1) [OF ok that] out [OF that] by (simp add: mlist_update)
  have disj: "\<And>q. q < 4 \<Longrightarrow> q \<noteq> p \<Longrightarrow> set (qs p) \<inter> set (qs q) = {}" using pool_okD(5) [OF ok p] .
  have rest: "(\<forall>q < 4. distinct ((qs(p := qs p @ [i])) q)) \<and>
      (\<forall>q < 4. \<forall>r < 4. q \<noteq> r \<longrightarrow> set ((qs(p := qs p @ [i])) q) \<inter> set ((qs(p := qs p @ [i])) r) = {}) \<and>
      (\<forall>q < 4. \<forall>j \<in> set ((qs(p := qs p @ [i])) q). mp_used s ! j)"
    using ok out i(2) p by (auto simp: pool_ok_def split: if_splits)
  show ?thesis
  proof (cases "mp_queues s ! p")
    case None
    then have e: "qs p = []" using ml [OF p] by (cases "qs p") auto
    have "mlist ?nx ((mp_queues s)[p := Some i] ! q) ((qs(p := qs p @ [i])) q)" if "q < 4" for q
      using that ml [OF that] e i len by (auto simp: nth_list_update)
    moreover have "length (mp_used s) = length (mp_msgs s)" using ok by (simp add: pool_ok_def)
    ultimately show ?thesis using None rest len unfolding pool_enqueue_def pool_ok_def by simp
  next
    case (Some h)
    then have ne: "qs p \<noteq> []" using ml [OF p] by auto
    have "mlist ?nx (Some h) (qs p)" using ml [OF p] Some by simp
    then have la: "last_in ?nx h = Some (last (qs p))" by (rule last_in_mlist)
    have "mlist (?nx[last (qs p) := Some i]) (mp_queues s ! q) ((qs(p := qs p @ [i])) q)" if "q < 4" for q
    proof (cases "q = p")
      case True
      then show ?thesis
        using ml [OF p] ne pool_okD(2) [OF ok p] out [OF p] i len by (simp add: mlist_snoc)
    next
      case False
      then have "last (qs p) \<notin> set (qs q)" using disj [OF that False] ne last_in_set by blast
      then show ?thesis using False ml [OF that] by (simp add: mlist_update)
    qed
    moreover have "length (mp_used s) = length (mp_msgs s)" using ok by (simp add: pool_ok_def)
    ultimately show ?thesis using Some la rest len unfolding pool_enqueue_def pool_ok_def by simp
  qed
qed


lemma pool_dequeue_ok:
  assumes ok: "pool_ok s qs" and p: "p < 4" "qs p = i # is" and top: "\<And>q. p < q \<Longrightarrow> q < 4 \<Longrightarrow> qs q = []"
  shows "\<exists>s'. pool_dequeue s = Some (i, s') \<and> pool_ok s' (qs(p := is)) \<and> mp_msgs s' = mp_msgs s \<and>
    mp_used s' = mp_used s"
proof -
  have len: "length (mp_next s) = length (mp_msgs s)" "length (mp_queues s) = 4"
    "length (mp_used s) = length (mp_msgs s)" using ok by (simp_all add: pool_ok_def)
  have head: "mp_queues s ! p = Some i" "mlist (mp_next s) (mp_next s ! i) is" "i \<notin> set is"
    using pool_okD(1,2) [OF ok p(1)] p(2) by auto
  have none: "mp_queues s ! q = None" if "p < q" "q < 4" for q
    using pool_okD(1) [OF ok that(2)] top [OF that] by simp
  have "p = 0 \<or> p = 1 \<or> p = 2 \<or> p = 3" using p(1) by auto
  then have f: "find (\<lambda>p. mp_queues s ! p \<noteq> None) (rev [0 ..< NUM_QUEUES]) = Some p"
    using head(1) none by (elim disjE) (simp_all add: NUM_QUEUES_def upt_rec numeral_eq_Suc)
  let ?s = "s\<lparr>mp_queues := (mp_queues s)[p := mp_next s ! i], mp_next := (mp_next s)[i := None],
    mp_count := (if mp_count s > 0 then mp_count s - 1 else mp_count s)\<rparr>"
  have "mlist ((mp_next s)[i := None]) ((mp_queues s)[p := mp_next s ! i] ! q) ((qs(p := is)) q)" if "q < 4" for q
  proof (cases "q = p")
    case True
    then show ?thesis using head len p(1) by (simp add: mlist_update)
  next
    case False
    then have "i \<notin> set (qs q)" using pool_okD(5) [OF ok p(1) that] p(2) by auto
    then show ?thesis using False pool_okD(1) [OF ok that] by (simp add: mlist_update)
  qed
  moreover have "(\<forall>q < 4. distinct ((qs(p := is)) q)) \<and>
      (\<forall>q < 4. \<forall>r < 4. q \<noteq> r \<longrightarrow> set ((qs(p := is)) q) \<inter> set ((qs(p := is)) r) = {}) \<and>
      (\<forall>q < 4. \<forall>j \<in> set ((qs(p := is)) q). mp_used s ! j)"
  proof -
    have sub: "set ((qs(p := is)) q) \<subseteq> set (qs q)" for q using p(2) by auto
    have "distinct ((qs(p := is)) q)" if "q < 4" for q
      using pool_okD(2) [OF ok that] p(2) by (cases "q = p") auto
    moreover have "set ((qs(p := is)) q) \<inter> set ((qs(p := is)) r) = {}" if "q < 4" "r < 4" "q \<noteq> r" for q r
      using pool_okD(5) [OF ok that(1,2)] that(3) sub [of q] sub [of r] by blast
    ultimately show ?thesis using pool_okD(4) [OF ok] sub by blast
  qed
  ultimately have "pool_ok ?s (qs(p := is))" using len unfolding pool_ok_def by simp
  moreover have "pool_dequeue s = Some (i, ?s)" using f head(1) by (simp add: pool_dequeue_def Let_def)
  ultimately show ?thesis by auto
qed

lemma pool_free_ok:
  assumes "pool_ok s qs" and "\<And>p. p < 4 \<Longrightarrow> i \<notin> set (qs p)"
  shows "pool_ok (pool_free i s) qs"
  using assms by (auto simp: pool_ok_def pool_free_def nth_list_update)

lemma pool_ok_msgs:
  "length ms = length (mp_msgs s) \<Longrightarrow> pool_ok (s\<lparr>mp_msgs := ms\<rparr>) qs = pool_ok s qs"
  by (simp add: pool_ok_def)

lemma pool_ok_next:
  assumes "pool_ok s qs" and "\<And>p. p < 4 \<Longrightarrow> i \<notin> set (qs p)"
  shows "pool_ok (s\<lparr>mp_next := (mp_next s)[i := v]\<rparr>) qs"
  using assms by (simp add: pool_ok_def mlist_update)

section \<open>The boxes of a pool\<close>

text \<open>Following the links from the head of a queue, at most \<open>n\<close> times.\<close>

fun walk :: "nat \<Rightarrow> nat option list \<Rightarrow> nat option \<Rightarrow> nat list" where
  "walk 0 nx h = []"
| "walk (Suc n) nx h = (case h of None \<Rightarrow> [] | Some i \<Rightarrow> i # walk n nx (nx ! i))"

definition pool_inv :: "'m mpool \<Rightarrow> bool" where "pool_inv s \<longleftrightarrow> (\<exists>qs. pool_ok s qs)"

definition pool_boxes :: "'m mpool \<Rightarrow> nat \<Rightarrow> 'm list" where
  "pool_boxes s p = map (nth (mp_msgs s)) (walk (length (mp_msgs s)) (mp_next s) (mp_queues s ! p))"

lemma walk_mlist: "mlist nx h js \<Longrightarrow> length js \<le> n \<Longrightarrow> walk n nx h = js"
proof (induction n arbitrary: h js)
  case 0
  then show ?case by simp
next
  case (Suc n)
  then show ?case by (cases js) auto
qed

lemma pool_boxes_ok:
  assumes "pool_ok s qs" and "p < 4"
  shows "pool_boxes s p = map (nth (mp_msgs s)) (qs p)"
proof -
  have "set (qs p) \<subseteq> {..< length (mp_msgs s)}" using pool_okD(3) [OF assms] by auto
  then have "card (set (qs p)) \<le> length (mp_msgs s)" by (metis card_lessThan card_mono finite_lessThan)
  then have "length (qs p) \<le> length (mp_msgs s)" using pool_okD(2) [OF assms] by (simp add: distinct_card)
  then show ?thesis using walk_mlist [OF pool_okD(1) [OF assms]] by (simp add: pool_boxes_def)
qed

text \<open>Receiving one message and giving its slot back.\<close>

definition pool_take :: "'m mpool \<Rightarrow> ('m \<times> 'm mpool) option" where
  "pool_take s = map_option (\<lambda>(i, s1). (mp_msgs s1 ! i, pool_free i s1)) (pool_dequeue s)"

lemma pool_take_empty:
  assumes "pool_inv s" and "\<And>p. p < 4 \<Longrightarrow> pool_boxes s p = []"
  shows "pool_take s = None"
proof -
  obtain qs where ok: "pool_ok s qs" using assms(1) by (auto simp: pool_inv_def)
  have "mp_queues s ! p = None" if "p < 4" for p
    using assms(2) [OF that] pool_boxes_ok [OF ok that] pool_okD(1) [OF ok that] by simp
  then have "find (\<lambda>p. mp_queues s ! p \<noteq> None) (rev [0 ..< NUM_QUEUES]) = None"
    by (auto simp: find_None_iff NUM_QUEUES_def)
  then show ?thesis by (simp add: pool_take_def pool_dequeue_def)
qed

lemma pool_take_highest:
  assumes "pool_inv s" and p: "p < 4" and box: "pool_boxes s p = m # ms"
    and top: "\<And>q. p < q \<Longrightarrow> q < 4 \<Longrightarrow> pool_boxes s q = []"
  shows "\<exists>s'. pool_take s = Some (m, s') \<and> pool_inv s' \<and>
    (\<forall>q < 4. pool_boxes s' q = (if q = p then ms else pool_boxes s q))"
proof -
  obtain qs where ok: "pool_ok s qs" using assms(1) by (auto simp: pool_inv_def)
  note pb = pool_boxes_ok [OF ok]
  obtain i js where q: "qs p = i # js" and m: "m = mp_msgs s ! i" "ms = map (nth (mp_msgs s)) js"
    using box pb [OF p] by auto
  have "\<And>q. p < q \<Longrightarrow> q < 4 \<Longrightarrow> qs q = []" using top pb by force
  then obtain s1 where s1: "pool_dequeue s = Some (i, s1)" "pool_ok s1 (qs(p := js))" "mp_msgs s1 = mp_msgs s"
    using pool_dequeue_ok [OF ok p q] by blast
  have "i \<notin> set ((qs(p := js)) r)" if "r < 4" for r
    using pool_okD(2,5) [OF ok p] q that by (cases "r = p") auto
  then have ok2: "pool_ok (pool_free i s1) (qs(p := js))" using s1(2) by (rule pool_free_ok [rotated])
  have ms2: "mp_msgs (pool_free i s1) = mp_msgs s" using s1(3) by (simp add: pool_free_def)
  have "pool_boxes (pool_free i s1) r = (if r = p then ms else pool_boxes s r)" if "r < 4" for r
    using pool_boxes_ok [OF ok2 that] pb [OF that] m ms2 by simp
  then show ?thesis using s1 ok2 m by (auto simp: pool_take_def pool_inv_def)
qed

interpretation pool: priority_mailbox pool_inv pool_boxes pool_take
proof (unfold_locales, goal_cases)
  case (1 s)
  then show ?case by (rule pool_take_empty)
next
  case (2 s p m ms)
  then show ?case by (rule pool_take_highest)
qed

section \<open>Adding a message\<close>

text \<open>What the two senders do with a slot \<open>i\<close> that was free: fill it and link it in.\<close>

lemma pool_send_ok:
  assumes "pool_inv s" and alloc: "pool_alloc s = Some (i, s1)" and p: "p < 4"
  shows "\<exists>s'. pool_enqueue p i (s1\<lparr>mp_msgs := (mp_msgs s1)[i := m], mp_next := (mp_next s1)[i := None]\<rparr>) = Some s' \<and>
    pool_inv s' \<and> length (mp_msgs s') = length (mp_msgs s) \<and> mp_used s' = (mp_used s)[i := True] \<and>
    (\<forall>q < 4. pool_boxes s' q = (if q = p then pool_boxes s q @ [m] else pool_boxes s q))"
proof -
  obtain qs where ok: "pool_ok s qs" using assms(1) by (auto simp: pool_inv_def)
  have a: "i < length (mp_msgs s)" "s1 = s\<lparr>mp_used := (mp_used s)[i := True]\<rparr>" "\<forall>p < 4. i \<notin> set (qs p)" "pool_ok s1 qs"
    using pool_alloc_ok [OF ok] alloc by auto
  let ?t = "s1\<lparr>mp_msgs := (mp_msgs s1)[i := m], mp_next := (mp_next s1)[i := None]\<rparr>"
  have "pool_ok ((s1\<lparr>mp_msgs := (mp_msgs s1)[i := m]\<rparr>)\<lparr>mp_next := (mp_next s1)[i := None]\<rparr>) qs"
    using a pool_ok_next [of "s1\<lparr>mp_msgs := (mp_msgs s1)[i := m]\<rparr>" qs i None]
      pool_ok_msgs [of "(mp_msgs s1)[i := m]" s1 qs] by simp
  then have okt: "pool_ok ?t qs" by simp
  have i: "i < length (mp_msgs ?t)" "mp_used ?t ! i"
    using a ok by (simp_all add: pool_ok_def)
  obtain s' where s': "pool_enqueue p i ?t = Some s'" "pool_ok s' (qs(p := qs p @ [i]))" "mp_msgs s' = mp_msgs ?t"
    "mp_used s' = mp_used ?t"
    using pool_enqueue_ok [OF okt p i] a(3) by blast
  have "pool_boxes s' q = (if q = p then pool_boxes s q @ [m] else pool_boxes s q)" if "q < 4" for q
  proof -
    have "i \<notin> set (qs q)" using a(3) that by blast
    then have "map ((!) (mp_msgs s')) (qs q) = map ((!) (mp_msgs s)) (qs q)"
      using s'(3) a(2) by (auto intro!: nth_list_update_neq)
    moreover have "mp_msgs s' ! i = m" using s'(3) i(1) by simp
    ultimately show ?thesis using pool_boxes_ok [OF s'(2) that] pool_boxes_ok [OF ok that]
      by (cases "q = p") auto
  qed
  then show ?thesis using s' a by (auto simp: pool_inv_def)
qed

lemma pool_alloc_none: "pool_alloc s = None \<longleftrightarrow> (\<forall>i < length (mp_used s). mp_used s ! i)"
proof -
  have "pool_alloc s = None \<longleftrightarrow> find (\<lambda>i. \<not> mp_used s ! i) [0 ..< length (mp_used s)] = None"
    by (simp add: pool_alloc_def split: option.splits)
  then show ?thesis by (simp add: find_None_iff)
qed

text \<open>The slots in use, and that a free one is found as long as there are fewer of them than slots.\<close>

definition pool_load :: "'m mpool \<Rightarrow> nat" where "pool_load s = length (filter id (mp_used s))"

lemma filter_id_update:
  "i < length us \<Longrightarrow> \<not> us ! i \<Longrightarrow> length (filter id (us[i := True])) = Suc (length (filter id us))"
  by (induction us arbitrary: i) (auto split: nat.splits)

lemma filter_id_full: "length us \<le> length (filter id us) \<longleftrightarrow> (\<forall>i < length us. us ! i)"
  by (metis filter_True filter_id_conv in_set_conv_nth length_filter_le length_filter_less id_apply not_le order_refl)

lemma pool_alloc_load:
  assumes "pool_load s < length (mp_used s)"
  shows "\<exists>i s'. pool_alloc s = Some (i, s') \<and> length (filter id ((mp_used s)[i := True])) = Suc (pool_load s)"
proof -
  have "pool_alloc s \<noteq> None"
    using assms filter_id_full [of "mp_used s"] by (simp add: pool_alloc_none pool_load_def)
  then obtain i where "find (\<lambda>i. \<not> mp_used s ! i) [0 ..< length (mp_used s)] = Some i"
    by (auto simp: pool_alloc_def split: option.splits)
  moreover from this have "i < length (mp_used s)" "\<not> mp_used s ! i" by (auto simp: find_Some_iff)
  ultimately show ?thesis by (simp add: pool_alloc_def pool_load_def filter_id_update)
qed

end
