(* ===== verification/Ipc_Mail.thy ===== *)
theory Ipc_Mail
  imports Ipc_Queue
begin

text \<open>
  The message services of both kernels: sending and receiving is delivery by priority and, within a
  priority, in the order of sending; polling ends and handles what is pending; the driver list finds
  the driver registered last under a name.
\<close>

section \<open>Polling a mailbox\<close>

text \<open>
  The loop both kernels use: take messages until \<open>mx\<close> were handled or none is left. It takes a prefix of
  the pending messages.
\<close>

locale mailbox_poll = priority_mailbox inv boxes recv
  for inv :: "'s \<Rightarrow> bool" and boxes :: "'s \<Rightarrow> nat \<Rightarrow> 'm list" and recv :: "'s \<Rightarrow> ('m \<times> 's) option" +
  fixes handles :: "'m \<Rightarrow> bool"
    and poll :: "u64 \<Rightarrow> u64 \<Rightarrow> 's \<Rightarrow> (u64 \<times> 's) option"
  assumes poll_eq: "poll mx h s =
    (if h < mx
     then (case recv s of None \<Rightarrow> Some (h, s) | Some (m, s1) \<Rightarrow> poll mx (if handles m then h + 1 else h) s1)
     else Some (h, s))"
begin

lemma poll_prefix:
  assumes "inv s" and "h \<le> mx"
  shows "\<exists>k s'. poll mx h s = Some (h + of_nat (length (filter handles (take k (in_order (boxes s))))), s') \<and> inv s' \<and>
    in_order (boxes s') = drop k (in_order (boxes s)) \<and> k \<le> length (in_order (boxes s)) \<and>
    unat h + length (filter handles (take k (in_order (boxes s)))) \<le> unat mx \<and>
    (unat h + length (filter handles (take k (in_order (boxes s)))) = unat mx \<or> k = length (in_order (boxes s)))"
  using assms
proof (induction "in_order (boxes s)" arbitrary: s h)
  case Nil
  then have "recv s = None" using recv_none [of s] by simp
  then show ?case using Nil poll_eq [of mx h s]
    by (intro exI [of _ 0] exI [of _ s]) (simp add: word_le_nat_alt)
next
  case (Cons m ms)
  show ?case
  proof (cases "h < mx")
    case False
    then have "h = mx" using Cons.prems by simp
    then show ?thesis using Cons.prems poll_eq [of mx h s]
      by (intro exI [of _ 0] exI [of _ s]) simp
  next
    case True
    obtain s1 where s1: "recv s = Some (m, s1)" "inv s1" "in_order (boxes s1) = ms"
      using recv_first [OF Cons.prems(1), of m ms] Cons.hyps(2) by auto
    let ?h = "if handles m then h + 1 else h"
    have "unat h < unat mx" "unat mx < 2 ^ 64" using True unsigned_less [of mx] by (simp_all add: word_less_nat_alt)
    then have u: "unat (h + 1) = Suc (unat h)" and "?h \<le> mx"
      by (simp_all add: unat_word_ariths word_le_nat_alt)
    from this(2) obtain k s' where k: "poll mx ?h s1 = Some (?h + of_nat (length (filter handles (take k ms))), s')" "inv s'"
      "in_order (boxes s') = drop k ms" "k \<le> length ms"
      "unat ?h + length (filter handles (take k ms)) \<le> unat mx"
      "unat ?h + length (filter handles (take k ms)) = unat mx \<or> k = length ms"
      using Cons.hyps(1) [of s1 ?h] s1 by auto
    have "poll mx h s = poll mx ?h s1" using poll_eq [of mx h s] True s1(1) by simp
    then show ?thesis using k u Cons.hyps(2) [symmetric]
      by (intro exI [of _ "Suc k"] exI [of _ s']) (auto simp: algebra_simps)
  qed
qed

end

section \<open>The hosted kernel\<close>

definition ipc_inv :: "ipc_state \<Rightarrow> bool" where
  "ipc_inv s \<longleftrightarrow> pool_inv (kernel_msg_queue s) \<and> length (mp_msgs (kernel_msg_queue s)) = MAX_MESSAGES"

definition ipc_boxes :: "ipc_state \<Rightarrow> nat \<Rightarrow> ipc_message_t list" where
  "ipc_boxes s = pool_boxes (kernel_msg_queue s)"

text \<open>A client that frees what it received, as \<open>ipc_poll\<close> does.\<close>

definition ipc_take :: "ipc_state \<Rightarrow> (ipc_message_t \<times> ipc_state) option" where
  "ipc_take s = map_option (\<lambda>(i, s1). (mp_msgs (kernel_msg_queue s1) ! i, msg_free i s1)) (msg_recv s)"

lemma ipc_take_pool:
  "ipc_take s = map_option (\<lambda>(m, q). (m, s\<lparr>kernel_msg_queue := q\<rparr>)) (pool_take (kernel_msg_queue s))"
  by (cases "pool_dequeue (kernel_msg_queue s)") (auto simp: ipc_take_def pool_take_def msg_recv_def msg_free_def)

lemma pool_take_length: "pool_take q = Some (m, q') \<Longrightarrow> length (mp_msgs q') = length (mp_msgs q)"
  by (auto simp: pool_take_def pool_dequeue_def pool_free_def Let_def split: option.splits if_splits)

lemma ipc_poll_take:
  "ipc_poll_loop mx h s =
    (if h < mx
     then (case ipc_take s of None \<Rightarrow> Some (h, s)
           | Some (m, s1) \<Rightarrow> ipc_poll_loop mx (if ipc_process_message m then h + 1 else h) s1)
     else Some (h, s))"
  by (subst ipc_poll_loop.simps) (auto simp: ipc_take_def split: option.split)

interpretation ipc: mailbox_poll ipc_inv ipc_boxes ipc_take ipc_process_message ipc_poll_loop
proof (unfold_locales, goal_cases)
  case (1 s)
  then have "pool_take (kernel_msg_queue s) = None"
    unfolding ipc_inv_def ipc_boxes_def by (blast intro: pool_take_empty)
  then show ?case by (simp add: ipc_take_pool)
next
  case (2 s p m ms)
  then obtain q where "pool_take (kernel_msg_queue s) = Some (m, q)" "pool_inv q"
    "\<forall>r < 4. pool_boxes q r = (if r = p then ms else pool_boxes (kernel_msg_queue s) r)"
    using pool_take_highest [of "kernel_msg_queue s" p m ms] unfolding ipc_inv_def ipc_boxes_def by blast
  then show ?case using 2(1) by (auto simp: ipc_take_pool ipc_inv_def ipc_boxes_def pool_take_length)
next
  case (3 mx h s)
  then show ?case by (rule ipc_poll_take)
qed

text \<open>The state after \<open>drivers_init\<close> at boot, with all of the static storage zero.\<close>

definition ipc_boot :: ipc_state where
  "ipc_boot = ipc_reset \<lparr>kernel_msg_queue = \<lparr>mp_msgs = replicate MAX_MESSAGES zero_message,
     mp_next = replicate MAX_MESSAGES None, mp_used = replicate MAX_MESSAGES False,
     mp_queues = replicate NUM_QUEUES None, mp_count = 0\<rparr>, next_msg_id = 1\<rparr>"

definition ipc_load :: "ipc_state \<Rightarrow> nat" where "ipc_load s = pool_load (kernel_msg_queue s)"

text \<open>The message that \<open>msg_send\<close> queues.\<close>

definition sent_message :: "u64 \<Rightarrow> u64 \<Rightarrow> u64 \<Rightarrow> bytes \<Rightarrow> u8 \<Rightarrow> ipc_state \<Rightarrow> ipc_message_t" where
  "sent_message me now dst data prio s =
     \<lparr>msg_id = next_msg_id s, src_pid = me, dst_pid = dst, priority = prio, timestamp = now,
      payload_size = length data, payload = data @ replicate (IPC_MAX_PAYLOAD - length data) 0\<rparr>"

lemma ipc_boot_ok: "ipc_inv ipc_boot" "p < 4 \<Longrightarrow> ipc_boxes ipc_boot p = []" "ipc_load ipc_boot = 0"
proof -
  have ok: "pool_ok (kernel_msg_queue ipc_boot) (\<lambda>_. [])"
    by (simp add: pool_ok_def ipc_boot_def ipc_reset_def msg_queue_init_def NUM_QUEUES_def)
  then show "ipc_inv ipc_boot"
    by (auto simp: ipc_inv_def pool_inv_def ipc_boot_def ipc_reset_def msg_queue_init_def)
  show "p < 4 \<Longrightarrow> ipc_boxes ipc_boot p = []"
    using pool_boxes_ok [OF ok] by (simp add: ipc_boxes_def)
  show "ipc_load ipc_boot = 0"
    by (simp add: ipc_load_def pool_load_def ipc_boot_def ipc_reset_def msg_queue_init_def)
qed


lemma mpool_swap: "q\<lparr>mp_next := a, mp_msgs := b\<rparr> = q\<lparr>mp_msgs := b, mp_next := a\<rparr>"
  by simp

lemma msg_send_grants:
  assumes "ipc_inv s" and load: "ipc_load s < MAX_MESSAGES"
    and args: "data \<noteq> []" "length data \<le> IPC_MAX_PAYLOAD" "prio \<le> 3"
  shows "\<exists>s'. msg_send me now dst data prio s = Some (True, s') \<and> ipc_inv s' \<and> ipc_load s' = Suc (ipc_load s) \<and>
    (\<forall>p < 4. ipc_boxes s' p =
      (if p = unat prio then ipc_boxes s p @ [sent_message me now dst data prio s] else ipc_boxes s p))"
proof -
  let ?q = "kernel_msg_queue s"
  have inv: "pool_inv ?q" and len: "length (mp_msgs ?q) = MAX_MESSAGES" "length (mp_used ?q) = MAX_MESSAGES"
    using assms(1) by (auto simp: ipc_inv_def pool_inv_def pool_ok_def)
  obtain i q1 where al: "pool_alloc ?q = Some (i, q1)"
    and ld: "length (filter id ((mp_used ?q)[i := True])) = Suc (pool_load ?q)"
    using pool_alloc_load [of ?q] load len by (auto simp: ipc_load_def)
  have i: "i < length (mp_msgs q1)" "i < length (mp_next q1)"
    using pool_alloc_ok [of ?q] al inv by (auto simp: pool_inv_def pool_ok_def)
  have p: "unat prio < 4" using args(3) by (simp add: word_le_nat_alt)
  obtain q' where q': "pool_enqueue (unat prio) i (q1\<lparr>mp_msgs := (mp_msgs q1)[i := sent_message me now dst data prio s],
      mp_next := (mp_next q1)[i := None]\<rparr>) = Some q'" "pool_inv q'" "length (mp_msgs q') = length (mp_msgs ?q)"
    "mp_used q' = (mp_used ?q)[i := True]"
    "\<forall>r < 4. pool_boxes q' r = (if r = unat prio then pool_boxes ?q r @ [sent_message me now dst data prio s] else pool_boxes ?q r)"
    using pool_send_ok [OF inv al p] by blast
  have "msg_send me now dst data prio s = Some (True, s\<lparr>next_msg_id := next_msg_id s + 1, kernel_msg_queue := q'\<rparr>)"
    using args al q'(1) i
    by (simp add: msg_send_def allocate_message_def sent_message_def zero_message_def Let_def not_less mpool_swap)
  then show ?thesis using q' ld len by (auto simp: ipc_inv_def ipc_load_def pool_load_def ipc_boxes_def)
qed

lemma msg_send_refuses:
  assumes "ipc_inv s" and "ipc_load s = MAX_MESSAGES \<or> data = [] \<or> IPC_MAX_PAYLOAD < length data \<or> 3 < prio"
  shows "msg_send me now dst data prio s = Some (False, s)"
proof -
  have "length (mp_used (kernel_msg_queue s)) = MAX_MESSAGES"
    using assms(1) by (auto simp: ipc_inv_def pool_inv_def pool_ok_def)
  then have "ipc_load s = MAX_MESSAGES \<Longrightarrow> pool_alloc (kernel_msg_queue s) = None"
    using filter_id_full [of "mp_used (kernel_msg_queue s)"] by (simp add: pool_alloc_none ipc_load_def pool_load_def)
  then show ?thesis using assms(2) by (auto simp: msg_send_def allocate_message_def)
qed

lemma ipc_load_le: "ipc_inv s \<Longrightarrow> ipc_load s \<le> MAX_MESSAGES"
  by (auto simp: ipc_inv_def pool_inv_def pool_ok_def ipc_load_def pool_load_def intro: order_trans [OF length_filter_le])

text \<open>A run of sends: source, time, destination, data and priority of each.\<close>

type_synonym request = "u64 \<times> u64 \<times> u64 \<times> bytes \<times> u8"

definition valid_request :: "request \<Rightarrow> bool" where
  "valid_request = (\<lambda>(me, now, dst, data, prio). data \<noteq> [] \<and> length data \<le> IPC_MAX_PAYLOAD \<and> prio \<le> 3)"

definition prio_of :: "request \<Rightarrow> nat" where "prio_of = (\<lambda>(me, now, dst, data, prio). unat prio)"

fun send_all :: "request list \<Rightarrow> ipc_state \<Rightarrow> ipc_state option" where
  "send_all [] s = Some s"
| "send_all ((me, now, dst, data, prio) # rs) s =
     do { (ok, s1) \<leftarrow> msg_send me now dst data prio s; send_all rs s1 }"

text \<open>What the receiver sees of a message: the request it was sent with.\<close>

definition view :: "ipc_message_t \<Rightarrow> request" where
  "view m = (src_pid m, timestamp m, dst_pid m, take (payload_size m) (payload m), priority m)"

lemma view_sent: "view (sent_message me now dst data prio s) = (me, now, dst, data, prio)"
  by (simp add: view_def sent_message_def)

lemma send_all_boxes:
  assumes "ipc_inv s" and "ipc_load s + length rs \<le> MAX_MESSAGES" and "\<forall>r \<in> set rs. valid_request r"
  shows "\<exists>s'. send_all rs s = Some s' \<and> ipc_inv s' \<and>
    (\<forall>p < 4. map view (ipc_boxes s' p) = map view (ipc_boxes s p) @ filter (\<lambda>r. prio_of r = p) rs)"
  using assms
proof (induction rs arbitrary: s)
  case Nil
  then show ?case by simp
next
  case (Cons r rs)
  obtain me now dst data prio where r: "r = (me, now, dst, data, prio)" by (cases r)
  obtain s1 where s1: "msg_send me now dst data prio s = Some (True, s1)" "ipc_inv s1" "ipc_load s1 = Suc (ipc_load s)"
    "\<forall>p < 4. ipc_boxes s1 p =
      (if p = unat prio then ipc_boxes s p @ [sent_message me now dst data prio s] else ipc_boxes s p)"
    using msg_send_grants [of s data prio me now dst] Cons.prems r by (auto simp: valid_request_def)
  obtain s' where s': "send_all rs s1 = Some s'" "ipc_inv s'"
    "\<forall>p < 4. map view (ipc_boxes s' p) = map view (ipc_boxes s1 p) @ filter (\<lambda>r. prio_of r = p) rs"
    using Cons.IH [of s1] s1 Cons.prems by auto
  have "map view (ipc_boxes s' p) = map view (ipc_boxes s p) @ filter (\<lambda>r. prio_of r = p) (r # rs)" if "p < 4" for p
    using s'(3) s1(4) that r by (auto simp: prio_of_def view_sent)
  then show ?case using s1(1) s'(1,2) r by simp
qed

lemma map_in_order: "(\<And>p. p < 4 \<Longrightarrow> map f (b p) = c p) \<Longrightarrow> map f (in_order b) = in_order c"
  by (simp add: in_order_def)

lemma in_order_partition:
  "\<forall>r \<in> set rs. f r < 4 \<Longrightarrow> length (in_order (\<lambda>p. filter (\<lambda>r. f r = p) rs)) = length rs"
proof (induction rs)
  case (Cons r rs)
  then have "f r = 0 \<or> f r = 1 \<or> f r = 2 \<or> f r = 3" by auto
  then show ?case using Cons by (auto simp: in_order_def)
qed (simp add: in_order_def)

text \<open>
  Property C12. Messages are delivered by priority and, within a priority, in the order of sending: after
  any run of valid \<open>msg_send\<close> calls that fits into the pool, receiving gives back first the messages that
  were waiting and were sent with priority 3, then those of priority 2, 1 and 0, each with the source,
  destination, time and exactly the data it was sent with.
\<close>

theorem msg_send_recv_order:
  assumes "ipc_inv s" and "ipc_load s + length rs \<le> MAX_MESSAGES" and "\<forall>r \<in> set rs. valid_request r"
  shows "\<exists>s1 ms s2. send_all rs s = Some s1 \<and>
    recv_seq ipc_take (length (in_order (ipc_boxes s)) + length rs) s1 = (ms, s2) \<and> ipc_inv s2 \<and>
    map view ms = in_order (\<lambda>p. map view (ipc_boxes s p) @ filter (\<lambda>r. prio_of r = p) rs)"
proof -
  obtain s1 where s1: "send_all rs s = Some s1" "ipc_inv s1"
    "\<forall>p < 4. map view (ipc_boxes s1 p) = map view (ipc_boxes s p) @ filter (\<lambda>r. prio_of r = p) rs"
    using send_all_boxes [OF assms] by blast
  have view: "map view (in_order (ipc_boxes s1)) = in_order (\<lambda>p. map view (ipc_boxes s p) @ filter (\<lambda>r. prio_of r = p) rs)"
    using s1(3) by (intro map_in_order) simp
  have "\<forall>r \<in> set rs. prio_of r < 4"
    using assms(3) by (auto simp: valid_request_def prio_of_def word_le_nat_alt)
  then have "length (in_order (\<lambda>p. filter (\<lambda>r. prio_of r = p) rs)) = length rs" by (rule in_order_partition)
  moreover have "length (in_order (ipc_boxes s1)) = length (map view (in_order (ipc_boxes s1)))" by simp
  ultimately have len: "length (in_order (ipc_boxes s1)) = length (in_order (ipc_boxes s)) + length rs"
    unfolding view by (simp add: in_order_def)
  obtain s2 where "recv_seq ipc_take (length (in_order (ipc_boxes s1))) s1 = (in_order (ipc_boxes s1), s2)" "ipc_inv s2"
    using ipc.recv_all [OF s1(2)] by blast
  then show ?thesis using s1(1) view len by auto
qed

lemma msg_send_recv_order_witness:
  "\<exists>s1 ms s2. send_all [(1, 5, 2, [7], 0), (1, 6, 2, [8, 9], 3), (4, 7, 2, [1], 0), (4, 8, 2, [2], 2)] ipc_boot = Some s1 \<and>
     recv_seq ipc_take 4 s1 = (ms, s2) \<and>
     map view ms = [(1, 6, 2, [8, 9], 3), (4, 8, 2, [2], 2), (1, 5, 2, [7], 0), (4, 7, 2, [1], 0)]"
proof -
  let ?rs = "[(1, 5, 2, [7], 0), (1, 6, 2, [8, 9], 3), (4, 7, 2, [1], 0), (4, 8, 2, [2], 2)] :: request list"
  have n: "length (in_order (ipc_boxes ipc_boot)) + length ?rs = 4"
    using ipc_boot_ok(2) by (simp add: in_order_def)
  have o: "in_order (\<lambda>p. map view (ipc_boxes ipc_boot p) @ filter (\<lambda>r. prio_of r = p) ?rs) =
      [(1, 6, 2, [8, 9], 3), (4, 8, 2, [2], 2), (1, 5, 2, [7], 0), (4, 7, 2, [1], 0)]"
    using ipc_boot_ok(2) by (simp add: in_order_def prio_of_def)
  have "\<forall>r \<in> set ?rs. valid_request r" by (simp add: valid_request_def IPC_MAX_PAYLOAD_def)
  then show ?thesis
    using msg_send_recv_order [of ipc_boot ?rs] ipc_boot_ok(1,3) unfolding n o
    by (auto simp: MAX_MESSAGES_def simp del: send_all.simps)
qed

text \<open>
  \<open>msg_send\<close> always returns. It accepts a message exactly when the data is not empty and at most
  256 bytes long, the priority is at most 3 and a slot of the pool is free; then it appends exactly one
  message to the queue of its priority, and otherwise it changes nothing.
\<close>

theorem msg_send_decides:
  assumes "ipc_inv s"
  shows "let ok = (data \<noteq> [] \<and> length data \<le> IPC_MAX_PAYLOAD \<and> prio \<le> 3 \<and> ipc_load s < MAX_MESSAGES) in
    \<exists>s'. msg_send me now dst data prio s = Some (ok, s') \<and> ipc_inv s' \<and>
      (if ok then ipc_load s' = Suc (ipc_load s) \<and>
         (\<forall>p < 4. ipc_boxes s' p = ipc_boxes s p @ (if p = unat prio then [sent_message me now dst data prio s] else []))
       else s' = s)"
proof (cases "data \<noteq> [] \<and> length data \<le> IPC_MAX_PAYLOAD \<and> prio \<le> 3 \<and> ipc_load s < MAX_MESSAGES")
  case True
  then obtain s' where s': "msg_send me now dst data prio s = Some (True, s')" "ipc_inv s'" "ipc_load s' = Suc (ipc_load s)"
    "\<forall>p < 4. ipc_boxes s' p =
      (if p = unat prio then ipc_boxes s p @ [sent_message me now dst data prio s] else ipc_boxes s p)"
    using msg_send_grants [OF assms, of data prio me now dst] by auto
  have "ipc_boxes s' p = ipc_boxes s p @ (if p = unat prio then [sent_message me now dst data prio s] else [])" if "p < 4" for p
    using s'(4) that by simp
  then show ?thesis using True s' by (simp add: Let_def)
next
  case False
  then have "ipc_load s = MAX_MESSAGES \<or> data = [] \<or> IPC_MAX_PAYLOAD < length data \<or> 3 < prio"
    using ipc_load_le [OF assms] by (auto simp: not_le)
  then show ?thesis using False msg_send_refuses [OF assms] assms unfolding Let_def by auto
qed

lemma msg_send_decides_witness:
  "msg_send 1 5 2 [] 0 ipc_boot = Some (False, ipc_boot) \<and>
   (\<exists>s'. msg_send 1 5 2 [7] 2 ipc_boot = Some (True, s') \<and> ipc_boxes s' 2 = [sent_message 1 5 2 [7] 2 ipc_boot])"
  using msg_send_decides [OF ipc_boot_ok(1), of "[]" 0 1 5 2] msg_send_decides [OF ipc_boot_ok(1), of "[7]" 2 1 5 2]
    ipc_boot_ok(2,3)
  by (auto simp: Let_def MAX_MESSAGES_def IPC_MAX_PAYLOAD_def)

text \<open>
  \<open>ipc_poll\<close> returns from every state of the queues. It takes the pending messages in their
  order of delivery until the limit of handled messages is reached or none is left, counts exactly those
  taken that \<open>ipc_process_message\<close> handles, and leaves the others pending.
\<close>

theorem ipc_poll_returns:
  assumes "ipc_inv s"
  shows "\<exists>k s'. let pending = in_order (ipc_boxes s); n = length (filter ipc_process_message (take k pending)) in
    ipc_poll mx s = Some (of_nat n, s') \<and> ipc_inv s' \<and> in_order (ipc_boxes s') = drop k pending \<and>
    n \<le> unat mx \<and> (n = unat mx \<or> k = length pending)"
  using ipc.poll_prefix [OF assms, of 0 mx] by (auto simp: ipc_poll_def Let_def)

lemma ipc_poll_returns_witness:
  "\<exists>s'. ipc_poll 8 ipc_boot = Some (0, s') \<and> in_order (ipc_boxes s') = []"
  using ipc_poll_returns [OF ipc_boot_ok(1), of 8] ipc_boot_ok(2) by (auto simp: Let_def in_order_def)


section \<open>The freestanding kernel\<close>

definition fs_inv :: "ipc_fs_state \<Rightarrow> bool" where
  "fs_inv s \<longleftrightarrow> pool_inv (g_pool s) \<and> length (mp_msgs (g_pool s)) = MAX_MESSAGES_FS"

definition fs_boxes :: "ipc_fs_state \<Rightarrow> nat \<Rightarrow> chess_message_t list" where
  "fs_boxes s p = map fm_payload (pool_boxes (g_pool s) p)"

definition fs_load :: "ipc_fs_state \<Rightarrow> nat" where "fs_load s = pool_load (g_pool s)"

text \<open>The payload of the next message, whose slot is freed.\<close>

definition fs_take :: "ipc_fs_state \<Rightarrow> (chess_message_t \<times> ipc_fs_state) option" where
  "fs_take s = map_option (\<lambda>(i, s1). (fm_payload (mp_msgs (g_pool s1) ! i), free_msg i s1)) (dequeue_highest s)"

lemma fs_take_pool:
  "fs_take s = map_option (\<lambda>(m, q). (fm_payload m, s\<lparr>g_pool := q\<rparr>)) (pool_take (g_pool s))"
  by (cases "pool_dequeue (g_pool s)") (auto simp: fs_take_def pool_take_def dequeue_highest_def free_msg_def)

interpretation ipc_fs: mailbox_poll fs_inv fs_boxes fs_take dispatch ipc_fs_poll_loop
proof (unfold_locales, goal_cases)
  case (1 s)
  then have "pool_boxes (g_pool s) p = []" if "p < 4" for p using that by (simp add: fs_boxes_def)
  then have "pool_take (g_pool s) = None" using 1(1) by (auto simp: fs_inv_def intro: pool_take_empty)
  then show ?case by (simp add: fs_take_pool)
next
  case (2 s p m ms)
  obtain k ks where k: "pool_boxes (g_pool s) p = k # ks" "m = fm_payload k" "ms = map fm_payload ks"
    using 2(3) by (auto simp: fs_boxes_def)
  have "pool_boxes (g_pool s) q = []" if "p < q" "q < 4" for q using 2(4) [OF that] by (simp add: fs_boxes_def)
  then obtain q where "pool_take (g_pool s) = Some (k, q)" "pool_inv q"
    "\<forall>r < 4. pool_boxes q r = (if r = p then ks else pool_boxes (g_pool s) r)"
    using pool_take_highest [of "g_pool s" p k ks] 2(1,2) k(1) unfolding fs_inv_def by blast
  then show ?case using 2(1) k by (auto simp: fs_take_pool fs_inv_def fs_boxes_def pool_take_length)
next
  case (3 mx h s)
  then show ?case by (subst ipc_fs_poll_loop.simps) (auto simp: fs_take_def split: option.split)
qed

lemma enqueue_fs_filled:
  "i < length (mp_msgs q) \<Longrightarrow> mp_msgs q ! i = m \<Longrightarrow> unat (fm_priority m) < 4 \<Longrightarrow>
     enqueue_fs i (s\<lparr>g_pool := q\<rparr>) = map_option (\<lambda>q. s\<lparr>g_pool := q\<rparr>) (pool_enqueue (unat (fm_priority m)) i q)"
  by (cases "pool_enqueue (unat (fm_priority m)) i q") (simp_all add: enqueue_fs_def Let_def NUM_QUEUES_def)

lemma send_chess_grants:
  assumes "fs_inv s" and load: "fs_load s < MAX_MESSAGES_FS" and prio: "prio \<le> 3"
  shows "\<exists>s'. send_chess dst pl prio s = Some s' \<and> fs_inv s' \<and> fs_load s' = Suc (fs_load s) \<and>
    (\<forall>p < 4. fs_boxes s' p = fs_boxes s p @ (if p = unat prio then [pl] else []))"
proof -
  let ?q = "g_pool s"
  let ?m = "\<lparr>fm_id = g_next_id s + 1, fm_src = 1, fm_dst = dst, fm_priority = prio, fm_payload = pl\<rparr>"
  have inv: "pool_inv ?q" and len: "length (mp_msgs ?q) = MAX_MESSAGES_FS" "length (mp_used ?q) = MAX_MESSAGES_FS"
    using assms(1) by (auto simp: fs_inv_def pool_inv_def pool_ok_def)
  obtain i q1 where al: "pool_alloc ?q = Some (i, q1)"
    and ld: "length (filter id ((mp_used ?q)[i := True])) = Suc (pool_load ?q)"
    using pool_alloc_load [of ?q] load len by (auto simp: fs_load_def)
  have i: "i < length (mp_msgs q1)" using pool_alloc_ok [of ?q] al inv by (auto simp: pool_inv_def pool_ok_def)
  have p: "unat prio < 4" using prio by (simp add: word_le_nat_alt)
  let ?q1 = "q1\<lparr>mp_msgs := (mp_msgs q1)[i := ?m], mp_next := (mp_next q1)[i := None]\<rparr>"
  obtain q' where q': "pool_enqueue (unat prio) i ?q1 = Some q'" "pool_inv q'" "length (mp_msgs q') = length (mp_msgs ?q)"
    "mp_used q' = (mp_used ?q)[i := True]"
    "\<forall>r < 4. pool_boxes q' r = (if r = unat prio then pool_boxes ?q r @ [?m] else pool_boxes ?q r)"
    using pool_send_ok [OF inv al p] by blast
  have "send_chess dst pl prio s = enqueue_fs i (s\<lparr>g_next_id := g_next_id s + 1, g_pool := ?q1\<rparr>)"
    using al i by (simp add: send_chess_def alloc_msg_def Let_def mpool_swap)
  then have "send_chess dst pl prio s = Some (s\<lparr>g_next_id := g_next_id s + 1, g_pool := q'\<rparr>)"
    using enqueue_fs_filled [of i ?q1 ?m "s\<lparr>g_next_id := g_next_id s + 1\<rparr>"] q'(1) p i by simp
  moreover have "fs_boxes (s\<lparr>g_next_id := g_next_id s + 1, g_pool := q'\<rparr>) p = fs_boxes s p @ (if p = unat prio then [pl] else [])"
    if "p < 4" for p using q'(5) that by (auto simp: fs_boxes_def)
  ultimately show ?thesis using q'(2-4) ld len by (auto simp: fs_inv_def fs_load_def pool_load_def)
qed

lemma send_chess_full:
  assumes "fs_inv s" and "fs_load s = MAX_MESSAGES_FS"
  shows "send_chess dst pl prio s = Some s"
proof -
  have "length (mp_used (g_pool s)) = MAX_MESSAGES_FS"
    using assms(1) by (auto simp: fs_inv_def pool_inv_def pool_ok_def)
  then have "pool_alloc (g_pool s) = None"
    using assms(2) filter_id_full [of "mp_used (g_pool s)"] by (simp add: pool_alloc_none fs_load_def pool_load_def)
  then show ?thesis by (simp add: send_chess_def alloc_msg_def)
qed

text \<open>The state after \<open>drivers_init_fs\<close>, with all of the static storage zero.\<close>

definition ipc_fs_boot :: ipc_fs_state where
  "ipc_fs_boot = msg_pool_init \<lparr>g_pool = \<lparr>mp_msgs = replicate MAX_MESSAGES_FS
       \<lparr>fm_id = 0, fm_src = 0, fm_dst = 0, fm_priority = 0, fm_payload = chess_plain 0\<rparr>,
     mp_next = replicate MAX_MESSAGES_FS None, mp_used = [], mp_queues = [], mp_count = 0\<rparr>, g_next_id = 0\<rparr>"

lemma ipc_fs_boot_ok: "fs_inv ipc_fs_boot" "p < 4 \<Longrightarrow> fs_boxes ipc_fs_boot p = []" "fs_load ipc_fs_boot = 0"
proof -
  have ok: "pool_ok (g_pool ipc_fs_boot) (\<lambda>_. [])"
    by (simp add: pool_ok_def ipc_fs_boot_def msg_pool_init_def NUM_QUEUES_def)
  then show "fs_inv ipc_fs_boot" by (auto simp: fs_inv_def pool_inv_def ipc_fs_boot_def msg_pool_init_def)
  show "p < 4 \<Longrightarrow> fs_boxes ipc_fs_boot p = []" using pool_boxes_ok [OF ok] by (simp add: fs_boxes_def)
  show "fs_load ipc_fs_boot = 0" by (simp add: fs_load_def pool_load_def ipc_fs_boot_def msg_pool_init_def)
qed

text \<open>Any run of sends, by payload and priority; what does not fit into the pool is dropped.\<close>

fun send_chess_all :: "(chess_message_t \<times> u8) list \<Rightarrow> ipc_fs_state \<Rightarrow> ipc_fs_state option" where
  "send_chess_all [] s = Some s"
| "send_chess_all ((pl, prio) # rs) s = do { s1 \<leftarrow> send_chess 2 pl prio s; send_chess_all rs s1 }"

lemma send_chess_all_boxes:
  assumes "fs_inv s" and "fs_load s \<le> MAX_MESSAGES_FS" and "\<forall>r \<in> set rs. snd r \<le> 3"
  shows "\<exists>s'. send_chess_all rs s = Some s' \<and> fs_inv s' \<and> (\<forall>p < 4. fs_boxes s' p =
    fs_boxes s p @ map fst (filter (\<lambda>r. unat (snd r) = p) (take (MAX_MESSAGES_FS - fs_load s) rs)))"
  using assms
proof (induction rs arbitrary: s)
  case Nil
  then show ?case by simp
next
  case (Cons r rs)
  obtain pl prio where r: "r = (pl, prio)" by (cases r)
  show ?case
  proof (cases "fs_load s = MAX_MESSAGES_FS")
    case True
    then show ?thesis using Cons.IH [of s] Cons.prems send_chess_full [OF Cons.prems(1) True] r by simp
  next
    case False
    then have lt: "fs_load s < MAX_MESSAGES_FS" using Cons.prems(2) by simp
    obtain s1 where s1: "send_chess 2 pl prio s = Some s1" "fs_inv s1" "fs_load s1 = Suc (fs_load s)"
      "\<forall>p < 4. fs_boxes s1 p = fs_boxes s p @ (if p = unat prio then [pl] else [])"
      using send_chess_grants [OF Cons.prems(1) lt, of prio 2 pl] Cons.prems(3) r by auto
    obtain s' where s': "send_chess_all rs s1 = Some s'" "fs_inv s'" "\<forall>p < 4. fs_boxes s' p =
        fs_boxes s1 p @ map fst (filter (\<lambda>r. unat (snd r) = p) (take (MAX_MESSAGES_FS - fs_load s1) rs))"
      using Cons.IH [of s1] s1 Cons.prems lt by auto
    have "take (MAX_MESSAGES_FS - fs_load s) (r # rs) = r # take (MAX_MESSAGES_FS - fs_load s1) rs"
      using lt s1(3) by (simp add: Suc_diff_Suc take_Cons')
    then have "fs_boxes s' p = fs_boxes s p @ map fst (filter (\<lambda>r. unat (snd r) = p) (take (MAX_MESSAGES_FS - fs_load s) (r # rs)))"
      if "p < 4" for p using s'(3) s1(4) that r by auto
    then show ?thesis using s'(1,2) s1(1) r by simp
  qed
qed


text \<open>
  The freestanding mailbox of 16 messages: after any run of chess messages of known types,
  the first 16 were queued and one \<open>ipc_fs_poll\<close> with room for them handles exactly those, returns their
  number and leaves nothing pending.
\<close>

theorem ipc_fs_poll_drains:
  assumes known: "\<forall>r \<in> set rs. snd r \<le> 3 \<and> chess_known (cm_type (fst r))" and mx: "16 \<le> mx"
  shows "\<exists>s1 s2. send_chess_all rs ipc_fs_boot = Some s1 \<and>
    ipc_fs_poll mx s1 = Some (of_nat (min 16 (length rs)), s2) \<and> fs_inv s2 \<and> in_order (fs_boxes s2) = []"
proof -
  let ?k = "take 16 rs"
  let ?box = "\<lambda>p. map fst (filter (\<lambda>r. unat (snd r) = p) ?k)"
  obtain s1 where s1: "send_chess_all rs ipc_fs_boot = Some s1" "fs_inv s1" "\<forall>p < 4. fs_boxes s1 p = ?box p"
    using send_chess_all_boxes [OF ipc_fs_boot_ok(1), of rs] known ipc_fs_boot_ok(2,3) by (auto simp: MAX_MESSAGES_FS_def)
  have o: "in_order (fs_boxes s1) = in_order ?box" using s1(3) by (simp add: in_order_def)
  have "\<forall>r \<in> set ?k. unat (snd r) < 4"
    using known by (auto dest!: in_set_takeD simp: word_le_nat_alt)
  then have "length (in_order (\<lambda>p. filter (\<lambda>r. unat (snd r) = p) ?k)) = length ?k" by (rule in_order_partition)
  then have len: "length (in_order ?box) = length ?k" by (simp add: in_order_def)
  have all: "\<forall>m \<in> set (in_order ?box). dispatch m"
    using known by (auto simp: in_order_def dispatch_def dest: in_set_takeD)
  obtain k s2 where k: "ipc_fs_poll mx s1 = Some (of_nat (length (filter dispatch (take k (in_order ?box)))), s2)" "fs_inv s2"
    "in_order (fs_boxes s2) = drop k (in_order ?box)" "k \<le> length (in_order ?box)"
    "length (filter dispatch (take k (in_order ?box))) = unat mx \<or> k = length (in_order ?box)"
    using ipc_fs.poll_prefix [OF s1(2), of 0 mx] o by (auto simp: ipc_fs_poll_def)
  have f: "filter dispatch (take k (in_order ?box)) = take k (in_order ?box)"
    using all by (auto simp: filter_id_conv dest: in_set_takeD)
  have "length (in_order ?box) \<le> unat mx" using len mx by (simp add: word_le_nat_alt)
  then have "k = length (in_order ?box)" using k(4,5) f by auto
  then show ?thesis using s1(1) k f len by (auto simp: min.commute)
qed

lemma ipc_fs_poll_drains_witness:
  "\<exists>s1 s2. send_chess_all (replicate 20 (chess_plain CHESS_MSG_RESIGN, 0)) ipc_fs_boot = Some s1 \<and>
    ipc_fs_poll 64 s1 = Some (16, s2) \<and> in_order (fs_boxes s2) = []"
  using ipc_fs_poll_drains [of "replicate 20 (chess_plain CHESS_MSG_RESIGN, 0)" 64]
  by (auto simp: chess_known_def chess_plain_def)

section \<open>The driver list\<close>

fun drv_chain :: "driver_reg \<Rightarrow> nat option \<Rightarrow> nat list \<Rightarrow> bool" where
  "drv_chain s p [] = (p = None)"
| "drv_chain s p (d # ds) = (p = Some d \<and> drv_chain s (drv_next s d) ds)"

lemma drv_chain_register:
  "d \<notin> set ds \<Longrightarrow> drv_chain (driver_register d s) p ds = drv_chain s p ds"
  by (induction ds arbitrary: p) (auto simp: driver_register_def)

lemma driver_lookup_chain:
  "drv_chain s p ds \<Longrightarrow> driver_lookup_from s name p = Some (find (\<lambda>d. drv_name s d = name) ds)"
  by (induction ds arbitrary: p) (subst driver_lookup_from.simps; simp)+

lemma register_all:
  "distinct ds \<Longrightarrow> drv_chain (fold driver_register ds (s\<lparr>driver_list := None\<rparr>))
     (driver_list (fold driver_register ds (s\<lparr>driver_list := None\<rparr>))) (rev ds) \<and>
   drv_name (fold driver_register ds (s\<lparr>driver_list := None\<rparr>)) = drv_name s"
proof (induction ds rule: rev_induct)
  case (snoc d ds)
  then show ?case by (simp add: drv_chain_register) (simp add: driver_register_def)
qed simp

text \<open>
  After registering any drivers, each once, \<open>driver_lookup\<close> returns, and finds the one that was
  registered last under the name, or none when the name was never registered.
\<close>

theorem driver_lookup_latest:
  assumes "distinct ds"
  shows "driver_lookup name (fold driver_register ds (reg\<lparr>driver_list := None\<rparr>)) =
    Some (find (\<lambda>d. drv_name reg d = name) (rev ds))"
  using driver_lookup_chain [OF conjunct1 [OF register_all [OF assms, of reg]], of name] register_all [OF assms, of reg]
  by (simp add: driver_lookup_def)

lemma driver_lookup_latest_witness:
  "driver_lookup [2] (fold driver_register [0, 1, 2] \<lparr>drv_name = (\<lambda>d. [of_nat (d div 2)]), drv_next = (\<lambda>_. None),
     driver_list = None\<rparr>) = Some None"
  using driver_lookup_latest [of "[0, 1, 2]" "[2]"
      "\<lparr>drv_name = (\<lambda>d. [of_nat (d div 2)]), drv_next = (\<lambda>_. None), driver_list = None\<rparr>"] by simp

lemma lookup_own_next:
  assumes "driver_lookup_from s name p = Some r" and "drv_next s d = Some d" and "drv_name s d \<noteq> name"
  shows "p \<noteq> Some d"
proof -
  have "drv_next s d = Some d \<longrightarrow> drv_name s d \<noteq> name \<longrightarrow> p \<noteq> Some d"
  proof (rule driver_lookup_from.raw_induct [OF _ assms(1), of "\<lambda>s name p r. drv_next s d = Some d \<longrightarrow> drv_name s d \<noteq> name \<longrightarrow> p \<noteq> Some d"],
      goal_cases)
    case (1 lookup s name p r)
    show ?case
    proof (intro impI notI)
      assume own: "drv_next s d = Some d" "drv_name s d \<noteq> name" "p = Some d"
      then have "lookup s name (Some d) = Some r" using 1(2) by simp
      then show False using 1(1) own by blast
    qed
  qed
  then show ?thesis using assms(2,3) by simp
qed

text \<open>
  Registering a driver twice in a row makes the list of drivers a cycle: from then on the lookup
  of every other name never returns.
\<close>

theorem driver_register_twice_hangs:
  assumes "drv_name reg d \<noteq> name"
  shows "driver_lookup name (driver_register d (driver_register d reg)) = None"
proof -
  have "drv_next (driver_register d (driver_register d reg)) d = Some d" "drv_name (driver_register d (driver_register d reg)) d \<noteq> name"
    using assms by (simp_all add: driver_register_def)
  moreover have "driver_list (driver_register d (driver_register d reg)) = Some d" by (simp add: driver_register_def)
  ultimately show ?thesis
    using lookup_own_next unfolding driver_lookup_def by (metis option.exhaust)
qed

lemma driver_register_twice_hangs_witness:
  "driver_lookup [9] (driver_register 0 (driver_register 0 \<lparr>drv_name = (\<lambda>d. [of_nat d]), drv_next = (\<lambda>_. None),
     driver_list = None\<rparr>)) = None"
  by (rule driver_register_twice_hangs) simp

end
