(* ===== verification/Scheduler.thy ===== *)
theory Scheduler
  imports Kernel_Prelude
begin

text \<open>
  The process scheduler of the hosted kernel (\<open>Kernel/sched/scheduler.c\<close>). Processes are objects in
  memory, named by their address; \<open>procs\<close> maps the address of every allocated process to its contents.
  A null pointer is \<open>None\<close>. The ready queue is a ring, linked in both directions through \<open>next\<close> and \<open>prev\<close>,
  the sleep queue a list through \<open>sleep_next\<close>.

  The result \<open>None\<close> of an operation stands for an access to a process that is not allocated (or to a null
  pointer) and for a walk that does not end. Allocation is the kernel heap's: \<open>create_process\<close> has the
  results of its two calls as arguments, and freeing a process takes it out of \<open>procs\<close>. The code a process
  runs, its entry point, is an argument of \<open>scheduler_run\<close>. The calls of \<open>setjmp\<close> there have no effect: the
  saved contexts are never jumped to, the condition of the \<open>longjmp\<close> demands that a field is zero and
  not zero. Log output is not modelled.
\<close>

section \<open>Data\<close>

datatype proc_state = READY | RUNNING | SLEEPING | ZOMBIE

record process_t =
  pid :: u64
  ppid :: u64
  state :: proc_state
  prio :: u8
  cpu_time :: u64
  wake_tick :: u64
  entry_point :: "nat option"
  has_stack :: bool
  nxt :: "nat option"
  prv :: "nat option"
  sleep_nxt :: "nat option"
  pname :: bytes

record scheduler_stats_t =
  context_switches :: u64
  scheduler_ticks :: u64
  processes_created :: u64
  processes_terminated :: u64
  idle_time :: u64
  total_process_time :: u64

record sched =
  procs :: "nat \<rightharpoonup> process_t"
  current_process :: "nat option"
  ready_queue :: "nat option"
  sleep_queue :: "nat option"
  next_pid :: u64
  stats :: scheduler_stats_t
  scheduling_policy :: u8

text \<open>The address of the static \<open>idle_process\<close>.\<close>

definition IDLE :: nat where "IDLE = 0"

definition put :: "nat \<Rightarrow> process_t \<Rightarrow> sched \<Rightarrow> sched" where
  "put p v s = s\<lparr>procs := (procs s)(p \<mapsto> v)\<rparr>"

text \<open>An assignment to a field of a process.\<close>

definition upd :: "nat \<Rightarrow> (process_t \<Rightarrow> process_t) \<Rightarrow> sched \<Rightarrow> sched option" where
  "upd p f s = (case procs s p of None \<Rightarrow> None | Some v \<Rightarrow> Some (put p (f v) s))"

definition copy_name :: "bytes \<Rightarrow> bytes" where
  "copy_name src = take 31 (if src = [] then [112, 114, 111, 99, 101, 115, 115] else src)"

section \<open>The ready ring\<close>

definition ready_insert_tail :: "nat \<Rightarrow> sched \<Rightarrow> sched option" where
  "ready_insert_tail p s =
     (case ready_queue s of
        None \<Rightarrow> do { s1 \<leftarrow> upd p (\<lambda>v. v\<lparr>nxt := Some p, prv := Some p\<rparr>) s; Some (s1\<lparr>ready_queue := Some p\<rparr>) }
      | Some h \<Rightarrow> do { hv \<leftarrow> procs s h;
                       t \<leftarrow> prv hv;
                       s1 \<leftarrow> upd p (\<lambda>v. v\<lparr>nxt := Some h, prv := Some t\<rparr>) s;
                       s2 \<leftarrow> upd t (\<lambda>v. v\<lparr>nxt := Some p\<rparr>) s1;
                       upd h (\<lambda>v. v\<lparr>prv := Some p\<rparr>) s2 })"

text \<open>The walk around the ring with head \<open>h\<close>, looking for \<open>p\<close>.\<close>

partial_function (option) ring_find :: "(nat \<rightharpoonup> process_t) \<Rightarrow> nat \<Rightarrow> nat \<Rightarrow> nat \<Rightarrow> bool option" where
  "ring_find m h p c =
     (if c = p then Some True
      else do { v \<leftarrow> m c; c1 \<leftarrow> nxt v; if c1 = h then Some False else ring_find m h p c1 })"

definition in_ready_queue :: "nat \<Rightarrow> sched \<Rightarrow> bool option" where
  "in_ready_queue p s = (case ready_queue s of None \<Rightarrow> Some False | Some h \<Rightarrow> ring_find (procs s) h p h)"

definition ready_unlink :: "nat \<Rightarrow> sched \<Rightarrow> sched option" where
  "ready_unlink p s =
     do { found \<leftarrow> in_ready_queue p s;
          if \<not> found then Some s
          else do {
            v \<leftarrow> procs s p;
            s3 \<leftarrow> (if nxt v = Some p then Some (s\<lparr>ready_queue := None\<rparr>)
                   else do { a \<leftarrow> prv v; b \<leftarrow> nxt v;
                             s1 \<leftarrow> upd a (\<lambda>v. v\<lparr>nxt := Some b\<rparr>) s;
                             s2 \<leftarrow> upd b (\<lambda>v. v\<lparr>prv := Some a\<rparr>) s1;
                             Some (if ready_queue s2 = Some p then s2\<lparr>ready_queue := Some b\<rparr> else s2) });
            upd p (\<lambda>v. v\<lparr>nxt := None, prv := None\<rparr>) s3 } }"

definition scheduler_add_process :: "nat \<Rightarrow> sched \<Rightarrow> sched option" where
  "scheduler_add_process p s =
     (if p = IDLE then Some s
      else do { r \<leftarrow> in_ready_queue p s;
                if r then Some s
                else do { s1 \<leftarrow> upd p (\<lambda>v. v\<lparr>state := READY\<rparr>) s; ready_insert_tail p s1 } })"

definition scheduler_remove_process :: "nat \<Rightarrow> sched \<Rightarrow> sched option" where
  "scheduler_remove_process p s = (if p = IDLE then Some s else ready_unlink p s)"

section \<open>Creating and destroying\<close>

definition zero_stats :: scheduler_stats_t where
  "zero_stats = \<lparr>context_switches = 0, scheduler_ticks = 0, processes_created = 0, processes_terminated = 0,
     idle_time = 0, total_process_time = 0\<rparr>"

definition zero_process :: process_t where
  "zero_process = \<lparr>pid = 0, ppid = 0, state = READY, prio = 0, cpu_time = 0, wake_tick = 0, entry_point = None,
     has_stack = False, nxt = None, prv = None, sleep_nxt = None, pname = []\<rparr>"

text \<open>Entry point number 0 is \<open>idle_entry\<close>, which only writes to the log.\<close>

definition scheduler_init :: "sched \<Rightarrow> sched" where
  "scheduler_init s =
     s\<lparr>procs := (procs s)(IDLE \<mapsto> zero_process\<lparr>entry_point := Some 0, has_stack := True, pname := copy_name [105, 100, 108, 101]\<rparr>),
       current_process := Some IDLE, ready_queue := None, sleep_queue := None,
       stats := zero_stats\<lparr>processes_created := 1\<rparr>\<rparr>"

text \<open>
  \<open>mem\<close>: the address \<open>kcalloc\<close> returned; \<open>stack\<close>: whether the stack was allocated; \<open>entry\<close>: the entry point, \<open>None\<close> for
  a null pointer.
\<close>

definition create_process ::
  "nat option \<Rightarrow> bool \<Rightarrow> nat option \<Rightarrow> bytes \<Rightarrow> u8 \<Rightarrow> sched \<Rightarrow> (nat option \<times> sched) option" where
  "create_process mem stack entry name priority s =
     (case (if entry = None then None else mem) of
        None \<Rightarrow> Some (None, s)
      | Some p \<Rightarrow>
          if \<not> stack then Some (None, s)
          else do {
            parent \<leftarrow> (case current_process s of None \<Rightarrow> Some 0 | Some c \<Rightarrow> map_option pid (procs s c));
            s1 \<leftarrow> scheduler_add_process p (put p (zero_process\<lparr>pid := next_pid s, ppid := parent, prio := priority,
                    entry_point := entry, has_stack := True, pname := copy_name name\<rparr>) (s\<lparr>next_pid := next_pid s + 1\<rparr>));
            Some (Some p, s1\<lparr>stats := (stats s1)\<lparr>processes_created := processes_created (stats s1) + 1\<rparr>\<rparr>) })"

definition destroy_process :: "nat \<Rightarrow> sched \<Rightarrow> sched option" where
  "destroy_process p s =
     (if p = IDLE then Some s
      else do {
        s1 \<leftarrow> scheduler_remove_process p s;
        v \<leftarrow> procs s1 p;
        Some (s1\<lparr>procs := (procs s1)(p := None),
                 stats := (stats s1)\<lparr>processes_terminated := processes_terminated (stats s1) + 1\<rparr>\<rparr>) })"

section \<open>Choosing the next process\<close>

text \<open>The two walks of \<open>pick_next\<close>: the highest priority, then the least CPU time among those.\<close>

partial_function (option) ring_best :: "(nat \<rightharpoonup> process_t) \<Rightarrow> nat \<Rightarrow> nat \<Rightarrow> u8 \<Rightarrow> u8 option" where
  "ring_best m h c best =
     do { v \<leftarrow> m c; c1 \<leftarrow> nxt v;
          let b = (if prio v > best then prio v else best);
          if c1 = h then Some b else ring_best m h c1 b }"

partial_function (option) ring_select :: "(nat \<rightharpoonup> process_t) \<Rightarrow> nat \<Rightarrow> u8 \<Rightarrow> nat \<Rightarrow> nat option \<Rightarrow> nat option option" where
  "ring_select m h best c sel =
     do { v \<leftarrow> m c; c1 \<leftarrow> nxt v;
          better \<leftarrow> (if prio v = best
                     then (case sel of None \<Rightarrow> Some True | Some q \<Rightarrow> do { w \<leftarrow> m q; Some (cpu_time v < cpu_time w) })
                     else Some False);
          let sel1 = (if better then Some c else sel);
          if c1 = h then Some sel1 else ring_select m h best c1 sel1 }"

definition pick_next :: "sched \<Rightarrow> (nat \<times> sched) option" where
  "pick_next s =
     (case ready_queue s of
        None \<Rightarrow> Some (IDLE, s\<lparr>stats := (stats s)\<lparr>idle_time := idle_time (stats s) + 1\<rparr>\<rparr>)
      | Some h \<Rightarrow> do {
          sel \<leftarrow> (if scheduling_policy s = 1
                  then do { best \<leftarrow> ring_best (procs s) h h 0; ring_select (procs s) h best h None }
                  else Some (Some h));
          p \<leftarrow> sel;
          s1 \<leftarrow> ready_unlink p s;
          Some (p, s1\<lparr>stats := (stats s1)\<lparr>context_switches := context_switches (stats s1) + 1\<rparr>\<rparr>) })"

section \<open>Yielding, sleeping, waking\<close>

definition scheduler_yield :: "sched \<Rightarrow> sched option" where
  "scheduler_yield s =
     (case current_process s of
        None \<Rightarrow> Some s
      | Some c \<Rightarrow> if c = IDLE then Some s
                  else do { s1 \<leftarrow> upd c (\<lambda>v. v\<lparr>state := READY\<rparr>) s; scheduler_add_process c s1 })"

definition scheduler_sleep :: "u64 \<Rightarrow> sched \<Rightarrow> sched option" where
  "scheduler_sleep ticks s =
     (case current_process s of
        None \<Rightarrow> Some s
      | Some c \<Rightarrow> if c = IDLE then Some s
                  else do {
                    s1 \<leftarrow> scheduler_remove_process c s;
                    s2 \<leftarrow> upd c (\<lambda>v. v\<lparr>state := SLEEPING, wake_tick := scheduler_ticks (stats s1) + ticks,
                            sleep_nxt := sleep_queue s1\<rparr>) s1;
                    Some (s2\<lparr>sleep_queue := Some c\<rparr>) })"

text \<open>
  The search of \<open>scheduler_wakeup\<close> for the link that points to \<open>p\<close>: the queue's head when \<open>l\<close> is \<open>None\<close>, the
  link of process \<open>q\<close> when \<open>l = Some q\<close>. The result says which link it is and what it holds.
\<close>

partial_function (option) sleep_link ::
  "(nat \<rightharpoonup> process_t) \<Rightarrow> nat \<Rightarrow> nat option \<Rightarrow> nat option \<Rightarrow> (nat option \<times> nat option) option" where
  "sleep_link m p l target =
     (if target = None \<or> target = Some p then Some (l, target)
      else do { q \<leftarrow> target; v \<leftarrow> m q; sleep_link m p (Some q) (sleep_nxt v) })"

definition set_link :: "nat option \<Rightarrow> nat option \<Rightarrow> sched \<Rightarrow> sched option" where
  "set_link l v s =
     (case l of None \<Rightarrow> Some (s\<lparr>sleep_queue := v\<rparr>) | Some q \<Rightarrow> upd q (\<lambda>x. x\<lparr>sleep_nxt := v\<rparr>) s)"

definition scheduler_wakeup :: "nat \<Rightarrow> sched \<Rightarrow> sched option" where
  "scheduler_wakeup p s =
     do { v \<leftarrow> procs s p;
          if state v \<noteq> SLEEPING then Some s
          else do {
            (l, t) \<leftarrow> sleep_link (procs s) p None (sleep_queue s);
            s1 \<leftarrow> (if t = Some p then set_link l (sleep_nxt v) s else Some s);
            s2 \<leftarrow> upd p (\<lambda>v. v\<lparr>sleep_nxt := None\<rparr>) s1;
            scheduler_add_process p s2 } }"

partial_function (option) tick_loop :: "nat option \<Rightarrow> sched \<Rightarrow> sched option" where
  "tick_loop c s =
     (case c of
        None \<Rightarrow> Some s
      | Some p \<Rightarrow> do {
          v \<leftarrow> procs s p;
          s1 \<leftarrow> (if wake_tick v \<le> scheduler_ticks (stats s) then scheduler_wakeup p s else Some s);
          tick_loop (sleep_nxt v) s1 })"

definition scheduler_tick :: "sched \<Rightarrow> sched option" where
  "scheduler_tick s =
     tick_loop (sleep_queue s) (s\<lparr>stats := (stats s)\<lparr>scheduler_ticks := scheduler_ticks (stats s) + 1\<rparr>\<rparr>)"

section \<open>Ending\<close>

partial_function (option) reparent :: "u64 \<Rightarrow> u64 \<Rightarrow> nat \<Rightarrow> nat \<Rightarrow> sched \<Rightarrow> sched option" where
  "reparent old new h c s =
     do { v \<leftarrow> procs s c;
          let s1 = (if ppid v = old then put c (v\<lparr>ppid := new\<rparr>) s else s);
          c1 \<leftarrow> nxt v;
          if c1 = h then Some s1 else reparent old new h c1 s1 }"

definition process_exit :: "nat \<Rightarrow> sched \<Rightarrow> sched option" where
  "process_exit p s =
     (if p = IDLE then Some s
      else do {
        s1 \<leftarrow> scheduler_remove_process p s;
        s2 \<leftarrow> upd p (\<lambda>v. v\<lparr>state := ZOMBIE\<rparr>) s1;
        v \<leftarrow> procs s2 p;
        idle \<leftarrow> procs s2 IDLE;
        case ready_queue s2 of None \<Rightarrow> Some s2 | Some h \<Rightarrow> reparent (pid v) (pid idle) h h s2 })"

partial_function (option) reap_loop :: "nat \<Rightarrow> sched \<Rightarrow> sched option" where
  "reap_loop c s =
     do { v \<leftarrow> procs s c;
          s1 \<leftarrow> (if state v = ZOMBIE then destroy_process c s else Some s);
          case nxt v of
            None \<Rightarrow> Some s1
          | Some c1 \<Rightarrow> if ready_queue s1 = Some c1 then Some s1 else reap_loop c1 s1 }"

definition process_reap_zombies :: "sched \<Rightarrow> sched option" where
  "process_reap_zombies s = (case ready_queue s of None \<Rightarrow> Some s | Some h \<Rightarrow> reap_loop h s)"

text \<open>\<open>True\<close> for result 0; \<open>n\<close> rounds are left.\<close>

fun join_loop :: "nat \<Rightarrow> nat \<Rightarrow> sched \<Rightarrow> (bool \<times> sched) option" where
  "join_loop p 0 s = Some (False, s)"
| "join_loop p (Suc n) s =
     do { v \<leftarrow> procs s p;
          if state v = ZOMBIE
          then Some (True, s\<lparr>procs := (procs s)(p := None),
                 stats := (stats s)\<lparr>processes_terminated := processes_terminated (stats s) + 1\<rparr>\<rparr>)
          else do { s1 \<leftarrow> scheduler_tick s; join_loop p n s1 } }"

definition process_join :: "nat \<Rightarrow> u64 \<Rightarrow> sched \<Rightarrow> (bool \<times> sched) option" where
  "process_join p timeout s = (if p = IDLE then Some (False, s) else join_loop p (unat timeout) s)"

section \<open>Running\<close>

text \<open>
  One round of \<open>scheduler_run\<close>; \<open>body\<close> is the code behind an entry point. The process that ran before is
  accessed (its field \<open>pc\<close>) after the next one was chosen.
\<close>

definition run_round :: "(nat \<Rightarrow> sched \<Rightarrow> sched option) \<Rightarrow> sched \<Rightarrow> sched option" where
  "run_round body s =
     do { s1 \<leftarrow> scheduler_tick s;
          (p, s2) \<leftarrow> pick_next s1;
          s3 \<leftarrow> upd p (\<lambda>v. v\<lparr>state := RUNNING, cpu_time := cpu_time v + 1\<rparr>) (s2\<lparr>current_process := Some p\<rparr>);
          u \<leftarrow> (case current_process s2 of None \<Rightarrow> Some zero_process | Some old \<Rightarrow> procs s3 old);
          v \<leftarrow> procs s3 p;
          s4 \<leftarrow> (case entry_point v of None \<Rightarrow> Some s3 | Some e \<Rightarrow> body e s3);
          c \<leftarrow> current_process s4;
          if c = IDLE then Some s4
          else do {
            let s5 = s4\<lparr>stats := (stats s4)\<lparr>total_process_time := total_process_time (stats s4) + 1\<rparr>\<rparr>;
            w \<leftarrow> procs s5 c;
            if state w = RUNNING then process_exit c s5 else Some s5 } }"

fun scheduler_run :: "(nat \<Rightarrow> sched \<Rightarrow> sched option) \<Rightarrow> nat \<Rightarrow> sched \<Rightarrow> sched option" where
  "scheduler_run body 0 s = Some s"
| "scheduler_run body (Suc n) s = do { s1 \<leftarrow> run_round body s; scheduler_run body n s1 }"

definition scheduler_get_current :: "sched \<Rightarrow> nat option" where "scheduler_get_current s = current_process s"
definition scheduler_get_ready_head :: "sched \<Rightarrow> nat option" where "scheduler_get_ready_head s = ready_queue s"
definition process_get_next :: "nat \<Rightarrow> sched \<Rightarrow> nat option option" where
  "process_get_next p s = map_option nxt (procs s p)"
definition scheduler_get_idle_pid :: "sched \<Rightarrow> u64 option" where
  "scheduler_get_idle_pid s = map_option pid (procs s IDLE)"

end
