(* ===== verification/Scheduler_Ring.thy ===== *)
theory Scheduler_Ring
  imports Scheduler
begin

text \<open>
  Rings and lists of processes: the abstraction of the ready ring to a list, and what linking and
  unlinking do to it.
\<close>

section \<open>Paths and rings\<close>

fun path :: "(nat \<rightharpoonup> nat) \<Rightarrow> nat \<Rightarrow> nat list \<Rightarrow> nat \<Rightarrow> bool" where
  "path f a [] b = (a = b)"
| "path f a (x # xs) b = (a = x \<and> (\<exists>y. f x = Some y \<and> path f y xs b))"

lemma path_append: "path f a (xs @ ys) b \<longleftrightarrow> (\<exists>c. path f a xs c \<and> path f c ys b)"
  by (induction xs arbitrary: a) auto

lemma path_update: "p \<notin> set xs \<Longrightarrow> path (f(p := v)) a xs b = path f a xs b"
  by (induction xs arbitrary: a) auto

lemma path_redirect: "path f a xs b \<Longrightarrow> xs \<noteq> [] \<Longrightarrow> distinct xs \<Longrightarrow> path (f(last xs \<mapsto> c)) a xs c"
proof (induction xs arbitrary: a)
  case (Cons x xs)
  then show ?case
  proof (cases "xs = []")
    case False
    then have "x \<noteq> last xs" using Cons.prems by auto
    then show ?thesis using Cons False by auto
  qed simp
qed simp

lemma path_hd: "path f a xs b \<Longrightarrow> xs \<noteq> [] \<Longrightarrow> a = hd xs"
  by (cases xs) auto

definition ring :: "(nat \<rightharpoonup> nat) \<Rightarrow> (nat \<rightharpoonup> nat) \<Rightarrow> nat list \<Rightarrow> bool" where
  "ring nx pv xs \<longleftrightarrow> distinct xs \<and>
     (xs \<noteq> [] \<longrightarrow> path nx (hd xs) xs (hd xs) \<and> path pv (last xs) (rev xs) (last xs))"

lemma path_rotate: "path f (hd (as @ bs)) (as @ bs) (hd (as @ bs)) \<Longrightarrow> path f (hd (bs @ as)) (bs @ as) (hd (bs @ as))"
  by (cases as; cases bs) (auto simp: path_append)

lemma ring_rotate: "ring nx pv (as @ bs) \<Longrightarrow> ring nx pv (bs @ as)"
proof (cases "as = [] \<or> bs = []")
  case True
  then show "ring nx pv (as @ bs) \<Longrightarrow> ring nx pv (bs @ as)" by auto
next
  case False
  assume r: "ring nx pv (as @ bs)"
  have ne: "as @ bs \<noteq> []" using False by simp
  have d: "distinct (as @ bs)" and n: "path nx (hd (as @ bs)) (as @ bs) (hd (as @ bs))"
    and v: "path pv (last (as @ bs)) (rev (as @ bs)) (last (as @ bs))" using r ne unfolding ring_def by blast+
  have l: "last (xs @ ys) = hd (rev ys @ rev xs)" if "ys \<noteq> []" for xs ys :: "nat list"
    using that by (simp add: hd_rev)
  have "path pv (hd (rev as @ rev bs)) (rev as @ rev bs) (hd (rev as @ rev bs))"
  proof (rule path_rotate)
    show "path pv (hd (rev bs @ rev as)) (rev bs @ rev as) (hd (rev bs @ rev as))"
      using v l [of bs as] False by simp
  qed
  then have "path pv (last (bs @ as)) (rev (bs @ as)) (last (bs @ as))"
    using l [of as bs] False by simp
  moreover have "distinct (bs @ as)" using d by auto
  ultimately show "ring nx pv (bs @ as)" using path_rotate [OF n] unfolding ring_def by blast
qed

lemma ring_insert:
  assumes r: "ring nx pv xs" and p: "p \<notin> set xs" and ne: "xs \<noteq> []"
  shows "ring (nx(p \<mapsto> hd xs, last xs \<mapsto> p)) (pv(p \<mapsto> last xs, hd xs \<mapsto> p)) (xs @ [p])"
proof -
  have d: "distinct xs" and n: "path nx (hd xs) xs (hd xs)" and v: "path pv (last xs) (rev xs) (last xs)"
    using r ne by (simp_all add: ring_def)
  have n': "path (nx(p \<mapsto> hd xs, last xs \<mapsto> p)) (hd xs) xs p"
    using n ne d p by (intro path_redirect) (simp_all add: path_update)
  have "last (rev xs) = hd xs" using ne by (simp add: last_rev)
  then have v': "path (pv(p \<mapsto> last xs, hd xs \<mapsto> p)) (last xs) (rev xs) p"
    using v ne d p path_redirect [of "pv(p \<mapsto> last xs)" "last xs" "rev xs" "last xs" p] by (simp add: path_update)
  have "p \<noteq> last xs" "p \<noteq> hd xs" using p ne by auto
  then show ?thesis using n' v' d p ne by (auto simp: ring_def path_append)
qed

lemma ring_single: "nx p = Some p \<Longrightarrow> pv p = Some p \<Longrightarrow> ring nx pv [p]"
  by (simp add: ring_def)

lemma ring_next_self: "ring nx pv (p # xs) \<Longrightarrow> nx p = Some p \<longleftrightarrow> xs = []"
  by (cases xs) (auto simp: ring_def)

lemma ring_remove_front:
  assumes r: "ring nx pv (p # ys)" and ne: "ys \<noteq> []"
  shows "nx p = Some (hd ys)" "pv p = Some (last ys)"
    "ring (nx(last ys \<mapsto> hd ys)) (pv(hd ys \<mapsto> last ys)) ys"
proof -
  have d: "distinct ys" "p \<notin> set ys" and n: "path nx p (p # ys) p"
    and v: "path pv (last ys) (rev ys @ [p]) (last ys)"
    using r ne by (simp_all add: ring_def)
  obtain y where y: "nx p = Some y" "path nx y ys p" using n by auto
  then show "nx p = Some (hd ys)" using path_hd [OF y(2) ne] by simp
  have v2: "path pv (last ys) (rev ys) p" "pv p = Some (last ys)" using v by (auto simp: path_append)
  then show "pv p = Some (last ys)" by simp
  have "path (nx(last ys \<mapsto> hd ys)) (hd ys) ys (hd ys)"
    using path_redirect [OF y(2) ne d(1)] path_hd [OF y(2) ne] by simp
  moreover have "path (pv(hd ys \<mapsto> last ys)) (last ys) (rev ys) (last ys)"
    using path_redirect [OF v2(1), of "last ys"] ne d(1) by (simp add: last_rev)
  ultimately show "ring (nx(last ys \<mapsto> hd ys)) (pv(hd ys \<mapsto> last ys)) ys" using d by (simp add: ring_def)
qed

lemma ring_cong:
  assumes "\<And>x. x \<in> set xs \<Longrightarrow> nx x = nx' x" and "\<And>x. x \<in> set xs \<Longrightarrow> pv x = pv' x"
  shows "ring nx pv xs = ring nx' pv' xs"
proof -
  have p: "path f a ys b = path f' a ys b" if "\<And>x. x \<in> set ys \<Longrightarrow> f x = f' x" for f f' a ys b
    using that by (induction ys arbitrary: a) auto
  show ?thesis using p [of xs nx nx'] p [of "rev xs" pv pv'] assms by (simp add: ring_def)
qed

section \<open>The walk around the ring\<close>

lemma ring_find_path:
  assumes "path (\<lambda>x. Option.bind (m x) nxt) c ys h" and "ys \<noteq> []" and "h \<notin> set (tl ys)"
  shows "ring_find m h p c = Some (p \<in> set ys)"
  using assms
proof (induction ys arbitrary: c)
  case Nil
  then show ?case by simp
next
  case (Cons y ys)
  obtain c1 where c1: "c = y" "Option.bind (m y) nxt = Some c1" "path (\<lambda>x. Option.bind (m x) nxt) c1 ys h"
    using Cons.prems(1) by auto
  obtain v where v: "m y = Some v" "nxt v = Some c1" using c1(2) by (auto split: bind_splits)
  show ?case
  proof (cases "ys = []")
    case True
    then show ?thesis using c1 v by (subst ring_find.simps) auto
  next
    case False
    then have "c1 \<noteq> h" using path_hd [OF c1(3) False] Cons.prems(3) by auto
    moreover have "h \<notin> set (tl ys)" using Cons.prems(3) False by (auto dest: list.set_sel(2))
    ultimately show ?thesis using c1 v Cons.IH [OF c1(3) False] by (subst ring_find.simps) auto
  qed
qed

section \<open>The ready queue of a state\<close>

definition nx_of :: "sched \<Rightarrow> nat \<rightharpoonup> nat" where "nx_of s x = Option.bind (procs s x) nxt"
definition pv_of :: "sched \<Rightarrow> nat \<rightharpoonup> nat" where "pv_of s x = Option.bind (procs s x) prv"

definition ready_list :: "sched \<Rightarrow> nat list \<Rightarrow> bool" where
  "ready_list s rs \<longleftrightarrow> ring (nx_of s) (pv_of s) rs \<and> ready_queue s = (case rs of [] \<Rightarrow> None | r # _ \<Rightarrow> Some r)"

text \<open>What a process is apart from its place in the ring; two states that differ in the ring only.\<close>

definition core :: "sched \<Rightarrow> nat \<rightharpoonup> process_t" where
  "core s x = map_option (\<lambda>v. v\<lparr>nxt := None, prv := None\<rparr>) (procs s x)"

definition relinked :: "sched \<Rightarrow> sched \<Rightarrow> bool" where
  "relinked s s' \<longleftrightarrow> core s' = core s \<and> current_process s' = current_process s \<and> sleep_queue s' = sleep_queue s \<and>
     stats s' = stats s \<and> next_pid s' = next_pid s \<and> scheduling_policy s' = scheduling_policy s"

lemma relinked_refl: "relinked s s"
  by (simp add: relinked_def)

lemma relinked_trans: "relinked a b \<Longrightarrow> relinked b c \<Longrightarrow> relinked a c"
  by (simp add: relinked_def)

lemma relinked_simps:
  assumes "relinked s s'"
  shows "current_process s' = current_process s" "sleep_queue s' = sleep_queue s" "stats s' = stats s"
    "next_pid s' = next_pid s" "scheduling_policy s' = scheduling_policy s" "procs s' p = None \<longleftrightarrow> procs s p = None"
proof -
  show "current_process s' = current_process s" "sleep_queue s' = sleep_queue s" "stats s' = stats s"
    "next_pid s' = next_pid s" "scheduling_policy s' = scheduling_policy s"
    using assms by (auto simp: relinked_def)
  have "core s' p = core s p" using assms by (simp add: relinked_def)
  then show "procs s' p = None \<longleftrightarrow> procs s p = None" by (auto simp: core_def)
qed

text \<open>The fields that relinking keeps.\<close>

lemma relinked_proc:
  assumes "relinked s s'" and "procs s p = Some v"
  shows "\<exists>a b. procs s' p = Some (v\<lparr>nxt := a, prv := b\<rparr>)"
proof -
  have "core s' p = core s p" using assms(1) by (simp add: relinked_def)
  then obtain w where "procs s' p = Some w" "w\<lparr>nxt := None, prv := None\<rparr> = v\<lparr>nxt := None, prv := None\<rparr>"
    using assms(2) by (auto simp: core_def)
  then have "procs s' p = Some (v\<lparr>nxt := nxt w, prv := prv w\<rparr>)" by (cases v; cases w) simp
  then show ?thesis by blast
qed

lemma upd_Some: "procs s p = Some v \<Longrightarrow> upd p f s = Some (put p (f v) s)"
  by (simp add: upd_def)

lemma put_simps [simp]:
  "procs (put p v s) = (procs s)(p \<mapsto> v)" "ready_queue (put p v s) = ready_queue s"
  "current_process (put p v s) = current_process s" "sleep_queue (put p v s) = sleep_queue s"
  "stats (put p v s) = stats s" "next_pid (put p v s) = next_pid s" "scheduling_policy (put p v s) = scheduling_policy s"
  by (simp_all add: put_def)

lemma links_put: "nx_of (put p v s) = (nx_of s)(p := nxt v)" "pv_of (put p v s) = (pv_of s)(p := prv v)"
  by (auto simp: nx_of_def pv_of_def fun_eq_iff)

lemma links_other:
  "nx_of (s\<lparr>ready_queue := q\<rparr>) = nx_of s" "pv_of (s\<lparr>ready_queue := q\<rparr>) = pv_of s"
  by (auto simp: nx_of_def pv_of_def)

lemma relinked_put:
  "procs s p = Some v \<Longrightarrow> w\<lparr>nxt := None, prv := None\<rparr> = v\<lparr>nxt := None, prv := None\<rparr> \<Longrightarrow> relinked s (put p w s)"
  by (simp add: relinked_def core_def fun_eq_iff)

lemma relinked_queue: "relinked s (s\<lparr>ready_queue := q\<rparr>)"
  by (simp add: relinked_def core_def fun_eq_iff)

lemma ready_list_alloc:
  assumes "ready_list s rs" and "p \<in> set rs"
  shows "\<exists>v. procs s p = Some v \<and> nxt v \<noteq> None \<and> prv v \<noteq> None"
proof -
  have "\<exists>y. f x = Some y" if "path f a xs b" "x \<in> set xs" for f a b x xs
    using that by (induction xs arbitrary: a) auto
  then obtain y z where "nx_of s p = Some y" "pv_of s p = Some z"
    using assms unfolding ready_list_def ring_def by (metis empty_iff empty_set set_rev)
  then show ?thesis by (auto simp: nx_of_def pv_of_def split: bind_splits)
qed

lemma in_ready_queue_eq:
  assumes "ready_list s rs"
  shows "in_ready_queue p s = Some (p \<in> set rs)"
proof (cases rs)
  case Nil
  then show ?thesis using assms by (simp add: in_ready_queue_def ready_list_def)
next
  case (Cons r rest)
  then have "path (\<lambda>x. Option.bind (procs s x) nxt) r rs r" "r \<notin> set (tl rs)" "ready_queue s = Some r"
    using assms by (auto simp: ready_list_def ring_def nx_of_def [abs_def])
  then show ?thesis using ring_find_path [of "procs s" r rs r p] Cons by (simp add: in_ready_queue_def)
qed

lemma ready_insert_tail_ok:
  assumes rl: "ready_list s rs" and p: "p \<notin> set rs" "procs s p = Some v"
  shows "\<exists>s'. ready_insert_tail p s = Some s' \<and> ready_list s' (rs @ [p]) \<and> relinked s s'"
proof (cases rs)
  case Nil
  let ?s = "(put p (v\<lparr>nxt := Some p, prv := Some p\<rparr>) s)\<lparr>ready_queue := Some p\<rparr>"
  have "ready_insert_tail p s = Some ?s"
    using rl Nil p by (simp add: ready_insert_tail_def ready_list_def upd_Some)
  moreover have "ready_list ?s [p]" by (simp add: ready_list_def links_other links_put ring_single)
  moreover have "relinked s ?s" by (rule relinked_trans [OF relinked_put relinked_queue]) (use p in auto)
  ultimately show ?thesis using Nil by auto
next
  case (Cons h rest)
  then have ne: "rs \<noteq> []" and h: "h = hd rs" by auto
  obtain hv where hv: "procs s h = Some hv" using ready_list_alloc [OF rl, of h] Cons by auto
  let ?t = "last rs"
  obtain tv where tv: "procs s ?t = Some tv" using ready_list_alloc [OF rl, of ?t] ne by auto
  have prvh: "prv hv = Some ?t"
  proof -
    have "path (pv_of s) ?t (rev rs) ?t" using rl ne by (simp add: ready_list_def ring_def)
    then have "pv_of s h = Some ?t" using Cons by (auto simp: path_append)
    then show ?thesis using hv by (simp add: pv_of_def)
  qed
  have ph: "p \<noteq> h" "p \<noteq> ?t" using p(1) Cons ne by auto
  define s1 where "s1 = put p (v\<lparr>nxt := Some h, prv := Some ?t\<rparr>) s"
  define s2 where "s2 = put ?t (tv\<lparr>nxt := Some p\<rparr>) s1"
  obtain hv2 where hv2: "procs s2 h = Some hv2" "nxt hv2 = (nx_of s2) h" "hv2\<lparr>prv := None, nxt := None\<rparr> = hv\<lparr>prv := None, nxt := None\<rparr>"
    using hv ph tv by (cases "h = ?t") (auto simp: s2_def s1_def nx_of_def)
  define s3 where "s3 = put h (hv2\<lparr>prv := Some p\<rparr>) s2"
  have u: "upd p (\<lambda>v. v\<lparr>nxt := Some h, prv := Some ?t\<rparr>) s = Some s1" "upd ?t (\<lambda>v. v\<lparr>nxt := Some p\<rparr>) s1 = Some s2"
    "upd h (\<lambda>v. v\<lparr>prv := Some p\<rparr>) s2 = Some s3"
    using p(2) tv ph hv2(1) by (simp_all add: upd_def s1_def s3_def) (simp add: s2_def s1_def)
  have "ready_queue s = Some h" using rl Cons by (simp add: ready_list_def)
  then have "ready_insert_tail p s = Some s3"
    using hv prvh u by (simp add: ready_insert_tail_def)
  moreover have "nx_of s3 = (nx_of s)(p \<mapsto> h, ?t \<mapsto> p)"
    using hv2(2) ph by (auto simp: s3_def s2_def s1_def links_put fun_eq_iff)
  moreover have "pv_of s3 = (pv_of s)(p \<mapsto> ?t, h \<mapsto> p)"
    using tv ph by (auto simp: s3_def s2_def s1_def links_put fun_eq_iff pv_of_def)
  moreover have "relinked s s3"
  proof -
    have "relinked s s1" unfolding s1_def using p(2) by (rule relinked_put) simp
    moreover have "relinked s1 s2" unfolding s2_def by (rule relinked_put [of _ _ tv]) (use tv ph in \<open>auto simp: s1_def\<close>)
    moreover have "relinked s2 s3" unfolding s3_def using hv2(1) by (rule relinked_put) simp
    ultimately show ?thesis by (blast intro: relinked_trans)
  qed
  moreover have "ready_queue s3 = Some h" using rl Cons by (simp add: s3_def s2_def s1_def ready_list_def)
  moreover have "ring ((nx_of s)(p \<mapsto> h, ?t \<mapsto> p)) ((pv_of s)(p \<mapsto> ?t, h \<mapsto> p)) (rs @ [p])"
    unfolding h using rl p(1) ne by (intro ring_insert) (simp_all add: ready_list_def)
  ultimately have "ready_list s3 (rs @ [p])" unfolding ready_list_def by (simp add: Cons)
  then show ?thesis using \<open>ready_insert_tail p s = Some s3\<close> \<open>relinked s s3\<close> by blast
qed

lemma ready_unlink_absent: "ready_list s rs \<Longrightarrow> p \<notin> set rs \<Longrightarrow> ready_unlink p s = Some s"
  by (simp add: ready_unlink_def in_ready_queue_eq)

lemma unlink_single:
  assumes rl: "ready_list s [p]" and v: "procs s p = Some v"
  shows "\<exists>s'. ready_unlink p s = Some s' \<and> ready_list s' [] \<and> relinked s s'"
proof -
  let ?s = "put p (v\<lparr>nxt := None, prv := None\<rparr>) (s\<lparr>ready_queue := None\<rparr>)"
  have "nxt v = Some p" using rl v by (simp add: ready_list_def ring_def nx_of_def)
  then have "ready_unlink p s = Some ?s"
    using v in_ready_queue_eq [OF rl, of p] by (simp add: ready_unlink_def upd_def)
  moreover have "relinked s ?s"
    by (rule relinked_trans [OF relinked_queue relinked_put]) (use v in auto)
  ultimately show ?thesis by (simp add: ready_list_def ring_def)
qed

lemma unlink_links:
  assumes v: "procs s p = Some v" "nxt v = Some b" "prv v = Some a" and ab: "a \<noteq> p" "b \<noteq> p"
    and alloc: "procs s a \<noteq> None" "procs s b \<noteq> None" and inq: "in_ready_queue p s = Some True"
  shows "\<exists>s'. ready_unlink p s = Some s' \<and> nx_of s' = (nx_of s)(a \<mapsto> b, p := None) \<and>
    pv_of s' = (pv_of s)(b \<mapsto> a, p := None) \<and>
    ready_queue s' = (if ready_queue s = Some p then Some b else ready_queue s) \<and> relinked s s'"
proof -
  obtain av where av: "procs s a = Some av" using alloc(1) by auto
  define s1 where "s1 = put a (av\<lparr>nxt := Some b\<rparr>) s"
  obtain bv where bv: "procs s1 b = Some bv" using alloc(2) by (cases "b = a") (auto simp: s1_def)
  define s2 where "s2 = put b (bv\<lparr>prv := Some a\<rparr>) s1"
  define s3 where "s3 = (if ready_queue s2 = Some p then s2\<lparr>ready_queue := Some b\<rparr> else s2)"
  define s4 where "s4 = put p (v\<lparr>nxt := None, prv := None\<rparr>) s3"
  have pv3: "procs s3 p = Some v" using v(1) ab by (simp add: s3_def s2_def s1_def)
  have u: "upd a (\<lambda>v. v\<lparr>nxt := Some b\<rparr>) s = Some s1" "upd b (\<lambda>v. v\<lparr>prv := Some a\<rparr>) s1 = Some s2"
    "upd p (\<lambda>v. v\<lparr>nxt := None, prv := None\<rparr>) s3 = Some s4"
    using av bv pv3 by (simp_all add: upd_def s1_def s2_def s4_def)
  have "ready_unlink p s = Some s4"
    using inq v ab u by (simp add: ready_unlink_def s3_def [symmetric])
  moreover have "nx_of s4 = (nx_of s)(a \<mapsto> b, p := None)"
  proof -
    have "nxt bv = nx_of s1 b" using bv by (simp add: nx_of_def)
    then have "nx_of s2 = (nx_of s)(a \<mapsto> b)" by (auto simp: s2_def s1_def links_put fun_eq_iff)
    then show ?thesis by (simp add: s4_def s3_def links_put links_other)
  qed
  moreover have "pv_of s4 = (pv_of s)(b \<mapsto> a, p := None)"
  proof -
    have "prv av = pv_of s a" using av by (simp add: pv_of_def)
    then have "pv_of s2 = (pv_of s)(b \<mapsto> a)" by (auto simp: s2_def s1_def links_put fun_eq_iff)
    then show ?thesis by (simp add: s4_def s3_def links_put links_other)
  qed
  moreover have "relinked s s4"
  proof -
    have "relinked s s1" unfolding s1_def using av by (rule relinked_put) simp
    moreover have "relinked s1 s2" unfolding s2_def using bv by (rule relinked_put) simp
    moreover have "relinked s2 s3" unfolding s3_def by (simp add: relinked_queue relinked_refl)
    moreover have "relinked s3 s4" unfolding s4_def using pv3 by (rule relinked_put) simp
    ultimately show ?thesis by (blast intro: relinked_trans)
  qed
  ultimately show ?thesis by (auto simp: s4_def s3_def s2_def s1_def)
qed

lemma ready_unlink_ok:
  assumes rl: "ready_list s rs" and p: "p \<in> set rs"
  shows "\<exists>s'. ready_unlink p s = Some s' \<and> ready_list s' (remove1 p rs) \<and> relinked s s'"
proof -
  obtain as bs where rs: "rs = as @ p # bs" "p \<notin> set as" using split_list_first [OF p] by blast
  have d: "distinct rs" using rl by (simp add: ready_list_def ring_def)
  let ?ys = "bs @ as"
  have rot: "ring (nx_of s) (pv_of s) (p # ?ys)"
    using rl ring_rotate [of "nx_of s" "pv_of s" as "p # bs"] rs by (simp add: ready_list_def)
  have rem: "remove1 p rs = as @ bs" using rs by (simp add: remove1_append)
  obtain v where v: "procs s p = Some v" using ready_list_alloc [OF rl p] by auto
  show ?thesis
  proof (cases "?ys = []")
    case True
    then show ?thesis using unlink_single [of s p v] rl rs v rem by simp
  next
    case False
    note f = ring_remove_front [OF rot False]
    have pn: "p \<notin> set ?ys" using d rs by auto
    have in_ys: "last ?ys \<in> set ?ys" "hd ?ys \<in> set ?ys" using False by (simp_all only: last_in_set hd_in_set not_False_eq_True)
    have alloc: "procs s x \<noteq> None" if "x \<in> set ?ys" for x
      using ready_list_alloc [OF rl, of x] that rs by auto
    have nv: "nxt v = Some (hd ?ys)" "prv v = Some (last ?ys)" using f(1,2) v by (simp_all add: nx_of_def pv_of_def)
    have ne: "last ?ys \<noteq> p" "hd ?ys \<noteq> p" using pn in_ys by metis+
    have inq: "in_ready_queue p s = Some True" using in_ready_queue_eq [OF rl, of p] p by simp
    obtain s' where s': "ready_unlink p s = Some s'" "nx_of s' = (nx_of s)(last ?ys \<mapsto> hd ?ys, p := None)"
      "pv_of s' = (pv_of s)(hd ?ys \<mapsto> last ?ys, p := None)"
      "ready_queue s' = (if ready_queue s = Some p then Some (hd ?ys) else ready_queue s)" "relinked s s'"
      using unlink_links [OF v nv ne alloc [OF in_ys(1)] alloc [OF in_ys(2)] inq] by blast
    have "ring (nx_of s') (pv_of s') ?ys"
    proof (rule iffD1 [OF ring_cong f(3)])
      show "((nx_of s)(last ?ys \<mapsto> hd ?ys)) x = nx_of s' x" "((pv_of s)(hd ?ys \<mapsto> last ?ys)) x = pv_of s' x" if "x \<in> set ?ys" for x
        using that pn s'(2,3) by auto
    qed
    then have "ring (nx_of s') (pv_of s') (as @ bs)" by (rule ring_rotate)
    moreover have "ready_queue s' = (case as @ bs of [] \<Rightarrow> None | r # _ \<Rightarrow> Some r)"
    proof (cases as)
      case Nil
      then show ?thesis using s'(4) rl rs False by (cases bs) (auto simp: ready_list_def)
    next
      case (Cons a as')
      then show ?thesis using s'(4) rl rs by (auto simp: ready_list_def)
    qed
    ultimately show ?thesis using s'(1,5) rem by (auto simp: ready_list_def)
  qed
qed

end
