(* ===== verification/Scheduler_Inv.thy ===== *)
theory Scheduler_Inv
  imports Scheduler_Ring
begin

text \<open>
  The invariant of the scheduler and what every operation does to it. A state is described by the list
  of ready processes and the list of sleeping ones.
\<close>

section \<open>The sleep list\<close>

fun slist :: "(nat \<Rightarrow> nat option option) \<Rightarrow> nat option \<Rightarrow> nat list \<Rightarrow> bool" where
  "slist f h [] = (h = None)"
| "slist f h (p # ps) = (h = Some p \<and> (\<exists>q. f p = Some q \<and> slist f q ps))"

definition sn_of :: "sched \<Rightarrow> nat \<Rightarrow> nat option option" where "sn_of s x = map_option sleep_nxt (procs s x)"
definition st_of :: "sched \<Rightarrow> nat \<rightharpoonup> proc_state" where "st_of s x = map_option state (procs s x)"

lemma slist_cong: "(\<And>x. x \<in> set ss \<Longrightarrow> f x = g x) \<Longrightarrow> slist f h ss = slist g h ss"
  by (induction ss arbitrary: h) auto

lemma slist_update: "p \<notin> set ss \<Longrightarrow> slist (f(p := v)) h ss = slist f h ss"
  by (rule slist_cong) auto

lemma slist_append:
  "slist f h (as @ p # bs) \<Longrightarrow> \<exists>q. f p = Some q \<and> slist f q bs"
  by (induction as arbitrary: h) auto

lemma slist_relink:
  "slist f h (as @ p # bs) \<Longrightarrow> distinct (as @ p # bs) \<Longrightarrow> as \<noteq> [] \<Longrightarrow> f p = Some q \<Longrightarrow>
     slist (f(last as \<mapsto> q)) h (as @ bs)"
proof (induction as arbitrary: h)
  case (Cons a as)
  show ?case
  proof (cases "as = []")
    case True
    then have "slist (f(a \<mapsto> q)) q bs" using Cons.prems slist_update [of a bs f "Some q" q] by auto
    then show ?thesis using True Cons.prems by (simp del: fun_upd_apply) (simp add: fun_upd_def)
  next
    case False
    then have "a \<noteq> last as" using Cons.prems(2) by auto
    then show ?thesis using Cons False by auto
  qed
qed simp

lemma sleep_link_find:
  assumes "slist (\<lambda>x. map_option sleep_nxt (m x)) h (as @ p # bs)" and "p \<notin> set as"
  shows "sleep_link m p l h = Some (if as = [] then l else Some (last as), Some p)"
  using assms
proof (induction as arbitrary: l h)
  case Nil
  then show ?case by (subst sleep_link.simps) simp
next
  case (Cons a as)
  then obtain v where v: "h = Some a" "m a = Some v" "slist (\<lambda>x. map_option sleep_nxt (m x)) (sleep_nxt v) (as @ p # bs)" by auto
  have "sleep_link m p l h = sleep_link m p (Some a) (sleep_nxt v)"
    using v Cons.prems(2) by (subst sleep_link.simps) auto
  then show ?case using Cons.IH [OF v(3)] Cons.prems(2) by auto
qed

section \<open>The invariant\<close>

definition sched_ok :: "sched \<Rightarrow> nat list \<Rightarrow> nat list \<Rightarrow> bool" where
  "sched_ok s rs ss \<longleftrightarrow>
     ready_list s rs \<and> slist (sn_of s) (sleep_queue s) ss \<and> distinct ss \<and>
     procs s IDLE \<noteq> None \<and> IDLE \<notin> set rs \<and> IDLE \<notin> set ss \<and>
     (\<forall>p \<in> set rs. st_of s p = Some READY) \<and>
     (\<forall>p. st_of s p = Some SLEEPING \<longleftrightarrow> p \<in> set ss) \<and>
     (\<forall>c. current_process s = Some c \<longrightarrow> procs s c \<noteq> None)"

lemma sched_okD:
  assumes "sched_ok s rs ss"
  shows "ready_list s rs" "slist (sn_of s) (sleep_queue s) ss" "distinct ss" "procs s IDLE \<noteq> None"
    "IDLE \<notin> set rs" "IDLE \<notin> set ss" "\<And>p. p \<in> set rs \<Longrightarrow> st_of s p = Some READY"
    "\<And>p. st_of s p = Some SLEEPING \<longleftrightarrow> p \<in> set ss"
    "\<And>c. current_process s = Some c \<Longrightarrow> procs s c \<noteq> None"
  using assms unfolding sched_ok_def by metis+

lemma sched_ok_disjoint: "sched_ok s rs ss \<Longrightarrow> p \<in> set ss \<Longrightarrow> p \<notin> set rs"
  using sched_okD(7) [of s rs ss p] sched_okD(8) [of s rs ss p] by auto

text \<open>What a process is apart from its queues and its state; what queue operations leave alone.\<close>

definition ident :: "sched \<Rightarrow> nat \<rightharpoonup> process_t" where
  "ident s x = map_option (\<lambda>v. v\<lparr>state := READY, nxt := None, prv := None, sleep_nxt := None\<rparr>) (procs s x)"

definition frame :: "sched \<Rightarrow> sched \<Rightarrow> bool" where
  "frame s s' \<longleftrightarrow> ident s' = ident s \<and> current_process s' = current_process s \<and> stats s' = stats s \<and>
     next_pid s' = next_pid s \<and> scheduling_policy s' = scheduling_policy s"

lemma frame_refl: "frame s s" by (simp add: frame_def)
lemma frame_trans: "frame a b \<Longrightarrow> frame b c \<Longrightarrow> frame a c" by (simp add: frame_def)

lemma ident_proc: "ident s' x = ident s x \<Longrightarrow> procs s x = Some v \<Longrightarrow>
  \<exists>a b c d. procs s' x = Some (v\<lparr>state := a, nxt := b, prv := c, sleep_nxt := d\<rparr>)"
proof -
  assume "ident s' x = ident s x" "procs s x = Some v"
  then obtain w where "procs s' x = Some w" "w\<lparr>state := READY, nxt := None, prv := None, sleep_nxt := None\<rparr> =
      v\<lparr>state := READY, nxt := None, prv := None, sleep_nxt := None\<rparr>"
    by (auto simp: ident_def)
  then have "procs s' x = Some (v\<lparr>state := state w, nxt := nxt w, prv := prv w, sleep_nxt := sleep_nxt w\<rparr>)"
    by (cases v; cases w) simp
  then show ?thesis by blast
qed

lemma frame_proc: "frame s s' \<Longrightarrow> procs s x = Some v \<Longrightarrow>
  \<exists>a b c d. procs s' x = Some (v\<lparr>state := a, nxt := b, prv := c, sleep_nxt := d\<rparr>)"
  by (rule ident_proc) (simp_all add: frame_def)

lemma frame_alloc: "frame s s' \<Longrightarrow> procs s' x = None \<longleftrightarrow> procs s x = None"
proof -
  assume "frame s s'"
  then have "ident s' x = ident s x" by (simp add: frame_def)
  then show ?thesis by (auto simp: ident_def)
qed

lemma relinked_frame:
  assumes "relinked s s'"
  shows "frame s s'" "sn_of s' = sn_of s" "st_of s' = st_of s"
proof -
  have c: "core s' x = core s x" for x using assms by (simp add: relinked_def)
  have *: "map_option f (procs s' x) = map_option f (procs s x)" if "\<And>v. f v = g (v\<lparr>nxt := None, prv := None\<rparr>)"
    for f :: "process_t \<Rightarrow> 'a" and g x
    using c [of x] that by (auto simp: core_def map_option_case split: option.splits)
  show "sn_of s' = sn_of s" "st_of s' = st_of s"
    using * [of sleep_nxt sleep_nxt] * [of state state] by (auto simp: sn_of_def st_of_def fun_eq_iff)
  have "ident s' = ident s"
    using * [of "\<lambda>v. v\<lparr>state := READY, nxt := None, prv := None, sleep_nxt := None\<rparr>" "\<lambda>v. v\<lparr>state := READY, sleep_nxt := None\<rparr>"]
    by (auto simp: ident_def fun_eq_iff)
  then show "frame s s'" using relinked_simps [OF assms] by (simp add: frame_def)
qed

lemma views_put:
  "sn_of (put p v s) = (sn_of s)(p \<mapsto> sleep_nxt v)" "st_of (put p v s) = (st_of s)(p \<mapsto> state v)"
  by (auto simp: sn_of_def st_of_def fun_eq_iff)

lemma ready_list_cong:
  "nx_of s' = nx_of s \<Longrightarrow> pv_of s' = pv_of s \<Longrightarrow> ready_queue s' = ready_queue s \<Longrightarrow> ready_list s' rs = ready_list s rs"
  by (simp add: ready_list_def)

lemma ready_list_put:
  assumes "procs s p = Some v" and "nxt w = nxt v" "prv w = prv v"
  shows "ready_list (put p w s) rs = ready_list s rs"
  by (rule ready_list_cong) (use assms in \<open>auto simp: links_put nx_of_def pv_of_def fun_eq_iff\<close>)

lemma frame_put:
  "procs s p = Some v \<Longrightarrow> w\<lparr>state := READY, nxt := None, prv := None, sleep_nxt := None\<rparr> =
     v\<lparr>state := READY, nxt := None, prv := None, sleep_nxt := None\<rparr> \<Longrightarrow> frame s (put p w s)"
  by (simp add: frame_def ident_def fun_eq_iff)

section \<open>Ready and asleep\<close>

text \<open>
  Making a process ready that waits in no queue: the state may hold any value before, also \<open>SLEEPING\<close> (as
  during a wake-up).
\<close>

lemma add_core:
  assumes rl: "ready_list s rs" and p: "p \<noteq> IDLE" "procs s p = Some v" "p \<notin> set rs"
  shows "\<exists>s'. scheduler_add_process p s = Some s' \<and> ready_list s' (rs @ [p]) \<and> sn_of s' = sn_of s \<and>
    st_of s' = (st_of s)(p \<mapsto> READY) \<and> sleep_queue s' = sleep_queue s \<and> frame s s'"
proof -
  let ?s = "put p (v\<lparr>state := READY\<rparr>) s"
  have "ready_list ?s rs" using rl p(2) by (simp add: ready_list_put)
  then obtain s' where s': "ready_insert_tail p ?s = Some s'" "ready_list s' (rs @ [p])" "relinked ?s s'"
    using ready_insert_tail_ok [of ?s rs p "v\<lparr>state := READY\<rparr>"] p(3) by auto
  have "scheduler_add_process p s = Some s'"
    using p in_ready_queue_eq [OF rl, of p] s'(1) by (simp add: scheduler_add_process_def upd_Some)
  moreover have "frame s ?s" using p(2) by (rule frame_put) simp
  ultimately show ?thesis
    using s' relinked_frame [OF s'(3)] relinked_simps(2) [OF s'(3)] p(2)
    by (auto simp: views_put sn_of_def fun_eq_iff intro: frame_trans)
qed

lemma add_ok:
  assumes ok: "sched_ok s rs ss" and p: "p \<noteq> IDLE" "procs s p \<noteq> None" "p \<notin> set ss"
  shows "\<exists>s'. scheduler_add_process p s = Some s' \<and> sched_ok s' (if p \<in> set rs then rs else rs @ [p]) ss \<and> frame s s'"
proof (cases "p \<in> set rs")
  case True
  then have "scheduler_add_process p s = Some s"
    using in_ready_queue_eq [OF sched_okD(1) [OF ok], of p] p(1) by (simp add: scheduler_add_process_def)
  then show ?thesis using True ok by (simp add: frame_refl)
next
  case False
  obtain v where v: "procs s p = Some v" using p(2) by auto
  obtain s' where s': "scheduler_add_process p s = Some s'" "ready_list s' (rs @ [p])" "sn_of s' = sn_of s"
    "st_of s' = (st_of s)(p \<mapsto> READY)" "sleep_queue s' = sleep_queue s" "frame s s'"
    using add_core [OF sched_okD(1) [OF ok] p(1) v False] by blast
  have "sched_ok s' (rs @ [p]) ss"
    using ok s' p frame_alloc [OF s'(6)] by (auto simp: sched_ok_def frame_def)
  then show ?thesis using s' False by auto
qed

lemma remove_ok:
  assumes ok: "sched_ok s rs ss"
  shows "\<exists>s'. scheduler_remove_process p s = Some s' \<and> sched_ok s' (remove1 p rs) ss \<and> relinked s s'"
proof (cases "p \<in> set rs")
  case True
  then have "p \<noteq> IDLE" using sched_okD(5) [OF ok] by auto
  obtain s' where s': "ready_unlink p s = Some s'" "ready_list s' (remove1 p rs)" "relinked s s'"
    using ready_unlink_ok [OF sched_okD(1) [OF ok] True] by blast
  note f = relinked_frame [OF s'(3)] and r = relinked_simps [OF s'(3)]
  have "set (remove1 p rs) \<subseteq> set rs" by (rule set_remove1_subset)
  then have "sched_ok s' (remove1 p rs) ss" using ok s'(2) f r by (auto simp: sched_ok_def)
  then show ?thesis using s' \<open>p \<noteq> IDLE\<close> by (auto simp: scheduler_remove_process_def)
next
  case False
  then show ?thesis using ok ready_unlink_absent [OF sched_okD(1) [OF ok] False]
    by (auto simp: scheduler_remove_process_def remove1_idem relinked_refl)
qed

text \<open>Waking a sleeper takes it out of the sleep list and appends it to the ready list.\<close>

lemma set_link_ok:
  assumes sl: "slist (sn_of s) (sleep_queue s) (as @ p # bs)" and d: "distinct (as @ p # bs)" and q: "sn_of s p = Some q"
  shows "\<exists>s1. set_link (if as = [] then None else Some (last as)) q s = Some s1 \<and>
    slist (sn_of s1) (sleep_queue s1) (as @ bs) \<and> nx_of s1 = nx_of s \<and> pv_of s1 = pv_of s \<and>
    ready_queue s1 = ready_queue s \<and> st_of s1 = st_of s \<and> frame s s1"
proof (cases "as = []")
  case True
  let ?s = "s\<lparr>sleep_queue := q\<rparr>"
  have "sn_of ?s = sn_of s" "nx_of ?s = nx_of s" "pv_of ?s = pv_of s" "st_of ?s = st_of s" "frame s ?s"
    by (simp_all add: sn_of_def nx_of_def pv_of_def st_of_def frame_def ident_def fun_eq_iff)
  then show ?thesis using True sl q by (auto simp: set_link_def)
next
  case False
  let ?a = "last as"
  have "\<exists>r. sn_of s x = Some r" if "slist (sn_of s) h ys" "x \<in> set ys" for x h ys
    using that by (induction ys arbitrary: h) auto
  then obtain v where v: "procs s ?a = Some v" using sl False by (fastforce simp: sn_of_def)
  let ?s = "put ?a (v\<lparr>sleep_nxt := q\<rparr>) s"
  have "slist (sn_of ?s) (sleep_queue ?s) (as @ bs)"
    using slist_relink [OF sl d False q] by (simp add: views_put)
  moreover have "nx_of ?s = nx_of s" "pv_of ?s = pv_of s" "st_of ?s = st_of s"
    using v by (auto simp: links_put views_put nx_of_def pv_of_def st_of_def fun_eq_iff)
  moreover have "frame s ?s" using v by (rule frame_put) simp
  ultimately show ?thesis using False v by (auto simp: set_link_def upd_def)
qed

lemma wakeup_ok:
  assumes ok: "sched_ok s rs (as @ p # bs)"
  shows "\<exists>s'. scheduler_wakeup p s = Some s' \<and> sched_ok s' (rs @ [p]) (as @ bs) \<and> frame s s'"
proof -
  note D = sched_okD [OF ok]
  have d: "distinct (as @ p # bs)" and pI: "p \<noteq> IDLE" and pr: "p \<notin> set rs"
    using D(3,6) sched_ok_disjoint [OF ok, of p] by auto
  obtain v where v: "procs s p = Some v" "state v = SLEEPING"
    using D(8) [of p] by (auto simp: st_of_def)
  have q: "sn_of s p = Some (sleep_nxt v)" using v(1) by (simp add: sn_of_def)
  have sl: "sleep_link (procs s) p None (sleep_queue s) = Some (if as = [] then None else Some (last as), Some p)"
    using sleep_link_find [of "procs s" "sleep_queue s" as p bs None] D(2) d by (simp add: sn_of_def [abs_def])
  obtain s1 where s1: "set_link (if as = [] then None else Some (last as)) (sleep_nxt v) s = Some s1"
    "slist (sn_of s1) (sleep_queue s1) (as @ bs)" "nx_of s1 = nx_of s" "pv_of s1 = pv_of s" "ready_queue s1 = ready_queue s"
    "st_of s1 = st_of s" "frame s s1"
    using set_link_ok [OF D(2) d q] by blast
  obtain w where w: "procs s1 p = Some w" using frame_alloc [OF s1(7), of p] v(1) by auto
  let ?s2 = "put p (w\<lparr>sleep_nxt := None\<rparr>) s1"
  have rl: "ready_list ?s2 rs" using w D(1) ready_list_cong [OF s1(3-5)] by (simp add: ready_list_put)
  obtain s' where s': "scheduler_add_process p ?s2 = Some s'" "ready_list s' (rs @ [p])" "sn_of s' = sn_of ?s2"
    "st_of s' = (st_of ?s2)(p \<mapsto> READY)" "sleep_queue s' = sleep_queue ?s2" "frame ?s2 s'"
    using add_core [OF rl pI _ pr, of "w\<lparr>sleep_nxt := None\<rparr>"] by auto
  have run: "scheduler_wakeup p s = Some s'"
    using v sl s1(1) w s'(1) by (simp add: scheduler_wakeup_def upd_def)
  have fr: "frame s s'"
  proof -
    have "frame s1 ?s2" using w by (rule frame_put) simp
    then show ?thesis using s1(7) s'(6) by (blast intro: frame_trans)
  qed
  have st: "st_of s' = (st_of s)(p \<mapsto> READY)" using s'(4) s1(6) by (simp add: views_put)
  have "slist (sn_of s') (sleep_queue s') (as @ bs)"
    using s1(2) s'(3,5) d by (simp add: views_put slist_update)
  then have "sched_ok s' (rs @ [p]) (as @ bs)"
    using D s'(2) st pI d frame_alloc [OF fr] fr unfolding sched_ok_def by (auto simp: frame_def)
  then show ?thesis using run fr by blast
qed

definition due :: "sched \<Rightarrow> u64 \<Rightarrow> nat \<Rightarrow> bool" where
  "due s now p \<longleftrightarrow> (case procs s p of None \<Rightarrow> False | Some v \<Rightarrow> wake_tick v \<le> now)"

lemma due_frame: "frame s s' \<Longrightarrow> due s' now p = due s now p"
  using frame_proc [of s s' p] frame_alloc [of s s' p] by (cases "procs s p") (fastforce simp: due_def)+

lemma tick_loop_ok:
  assumes "sched_ok s rs (as @ cs)" and "slist (sn_of s) h cs"
  shows "\<exists>s'. tick_loop h s = Some s' \<and> frame s s' \<and>
    sched_ok s' (rs @ filter (due s (scheduler_ticks (stats s))) cs) (as @ filter (\<lambda>p. \<not> due s (scheduler_ticks (stats s)) p) cs)"
  using assms
proof (induction cs arbitrary: s rs as h)
  case Nil
  then show ?case by (subst tick_loop.simps) (simp add: frame_refl)
next
  case (Cons c cs)
  let ?now = "scheduler_ticks (stats s)"
  obtain v where v: "procs s c = Some v" "h = Some c" "slist (sn_of s) (sleep_nxt v) cs"
    using Cons.prems(2) by (auto simp: sn_of_def [of s c])
  show ?case
  proof (cases "wake_tick v \<le> ?now")
    case False
    have "\<exists>s'. tick_loop (sleep_nxt v) s = Some s' \<and> frame s s' \<and>
        sched_ok s' (rs @ filter (due s ?now) cs) ((as @ [c]) @ filter (\<lambda>p. \<not> due s ?now p) cs)"
      using Cons.prems(1) v(3) by (intro Cons.IH) simp_all
    then show ?thesis using v False by (subst tick_loop.simps) (simp add: due_def)
  next
    case True
    obtain s1 where s1: "scheduler_wakeup c s = Some s1" "sched_ok s1 (rs @ [c]) (as @ cs)" "frame s s1"
      using wakeup_ok [OF Cons.prems(1)] by blast
    have now: "scheduler_ticks (stats s1) = ?now" using s1(3) by (simp add: frame_def)
    have "slist (sn_of s1) (sleep_nxt v) cs"
    proof (cases cs)
      case Nil
      then show ?thesis using v(3) by simp
    next
      case (Cons b bs)
      have "slist (sn_of s1) (sleep_queue s1) (as @ b # bs)" using sched_okD(2) [OF s1(2)] Cons by simp
      from slist_append [OF this] show ?thesis using v(3) Cons by auto
    qed
    then obtain s' where s': "tick_loop (sleep_nxt v) s1 = Some s'" "frame s1 s'"
      "sched_ok s' ((rs @ [c]) @ filter (due s1 ?now) cs) (as @ filter (\<lambda>p. \<not> due s1 ?now p) cs)"
      using Cons.IH [OF s1(2)] now by auto
    have "tick_loop h s = Some s'" using v True s1(1) s'(1) by (subst tick_loop.simps) simp
    moreover have "due s1 ?now = due s ?now" using due_frame [OF s1(3)] by (simp add: fun_eq_iff)
    moreover have "due s ?now c" using v True by (simp add: due_def)
    ultimately show ?thesis using s' frame_trans [OF s1(3)] by auto
  qed
qed

end
