(* ===== verification/Scheduler_Ops.thy ===== *)
theory Scheduler_Ops
  imports Scheduler_Inv
begin

text \<open>
  The operations of the scheduler on a well-formed state: the clock, creation and destruction, the choice
  of the next process, yielding, sleeping and ending.
\<close>

section \<open>The clock\<close>

lemma tick_ok:
  assumes ok: "sched_ok s rs ss"
  defines "now \<equiv> scheduler_ticks (stats s) + 1"
  shows "\<exists>s'. scheduler_tick s = Some s' \<and> sched_ok s' (rs @ filter (due s now) ss) (filter (\<lambda>p. \<not> due s now p) ss) \<and>
    ident s' = ident s \<and> current_process s' = current_process s \<and> stats s' = (stats s)\<lparr>scheduler_ticks := now\<rparr> \<and>
    scheduling_policy s' = scheduling_policy s \<and> next_pid s' = next_pid s"
proof -
  let ?t = "s\<lparr>stats := (stats s)\<lparr>scheduler_ticks := now\<rparr>\<rparr>"
  have same: "nx_of ?t = nx_of s" "pv_of ?t = pv_of s" "sn_of ?t = sn_of s" "st_of ?t = st_of s" "ident ?t = ident s"
    by (simp_all add: nx_of_def pv_of_def sn_of_def st_of_def ident_def fun_eq_iff)
  have "sched_ok ?t rs ([] @ ss)" using ok same by (simp add: sched_ok_def ready_list_def)
  moreover have "slist (sn_of ?t) (sleep_queue s) ss" using sched_okD(2) [OF ok] same by simp
  ultimately obtain s' where s': "tick_loop (sleep_queue s) ?t = Some s'" "frame ?t s'"
    "sched_ok s' (rs @ filter (due ?t now) ss) ([] @ filter (\<lambda>p. \<not> due ?t now p) ss)"
    using tick_loop_ok [of ?t rs "[]" ss "sleep_queue s"] by auto
  have "due ?t now = due s now" by (simp add: due_def fun_eq_iff)
  then show ?thesis using s' same by (auto simp: scheduler_tick_def now_def frame_def)
qed

section \<open>Creating and destroying\<close>

lemma fresh_absent:
  assumes "sched_ok s rs ss" and "procs s p = None"
  shows "p \<noteq> IDLE" "p \<notin> set rs" "p \<notin> set ss" "current_process s \<noteq> Some p"
  using sched_okD(4,9) [OF assms(1)] sched_okD(7) [OF assms(1), of p] sched_okD(8) [OF assms(1), of p] assms(2)
  by (auto simp: st_of_def)

lemma sched_ok_fresh:
  assumes ok: "sched_ok s rs ss" and p: "procs s p = None" and v: "state v = READY"
  shows "sched_ok (put p v (s\<lparr>next_pid := k\<rparr>)) rs ss"
proof -
  let ?t = "put p v (s\<lparr>next_pid := k\<rparr>)"
  note a = fresh_absent [OF ok p]
  have f: "nx_of ?t = (nx_of s)(p := nxt v)" "pv_of ?t = (pv_of s)(p := prv v)" "sn_of ?t = (sn_of s)(p \<mapsto> sleep_nxt v)"
    "st_of ?t = (st_of s)(p \<mapsto> READY)"
    using v by (auto simp: nx_of_def pv_of_def sn_of_def st_of_def fun_eq_iff)
  have "ring (nx_of ?t) (pv_of ?t) rs = ring (nx_of s) (pv_of s) rs"
    using a(2) f by (intro ring_cong) auto
  then have "ready_list ?t rs" using sched_okD(1) [OF ok] by (simp add: ready_list_def)
  moreover have "slist (sn_of ?t) (sleep_queue ?t) ss" using sched_okD(2) [OF ok] a(3) f by (simp add: slist_update)
  ultimately show ?thesis using sched_okD [OF ok] a f(4) unfolding sched_ok_def by auto
qed

lemma create_ok:
  assumes ok: "sched_ok s rs ss" and p: "procs s p = None"
  shows "\<exists>s' v. create_process (Some p) True (Some entry) name priority s = Some (Some p, s') \<and> sched_ok s' (rs @ [p]) ss \<and>
    procs s' p = Some v \<and> pid v = next_pid s \<and> prio v = priority \<and> entry_point v = Some entry \<and> next_pid s' = next_pid s + 1 \<and>
    current_process s' = current_process s"
proof -
  obtain parent where par: "(case current_process s of None \<Rightarrow> Some 0 | Some c \<Rightarrow> map_option pid (procs s c)) = Some parent"
    using sched_okD(9) [OF ok] by (cases "current_process s") auto
  define v where "v = zero_process\<lparr>pid := next_pid s, ppid := parent, prio := priority, entry_point := Some entry, has_stack := True,
    pname := copy_name name\<rparr>"
  let ?t = "put p v (s\<lparr>next_pid := next_pid s + 1\<rparr>)"
  note a = fresh_absent [OF ok p]
  have "sched_ok ?t rs ss" using sched_ok_fresh [OF ok p] by (simp add: v_def zero_process_def)
  then obtain s1 where s1: "scheduler_add_process p ?t = Some s1" "sched_ok s1 (rs @ [p]) ss" "frame ?t s1"
    using add_ok [of ?t rs ss p] a by auto
  let ?s = "s1\<lparr>stats := (stats s1)\<lparr>processes_created := processes_created (stats s1) + 1\<rparr>\<rparr>"
  have "sched_ok ?s (rs @ [p]) ss"
    using s1(2) by (simp add: sched_ok_def ready_list_def nx_of_def [abs_def] pv_of_def [abs_def] sn_of_def [abs_def] st_of_def)
  moreover have "create_process (Some p) True (Some entry) name priority s = Some (Some p, ?s)"
    using par s1(1) by (simp add: create_process_def v_def)
  moreover obtain w where "procs s1 p = Some w" "pid w = pid v" "prio w = prio v" "entry_point w = entry_point v"
    using frame_proc [OF s1(3), of p v] by auto
  moreover have "next_pid s1 = next_pid s + 1" "current_process s1 = current_process s" using s1(3) by (simp_all add: frame_def)
  ultimately show ?thesis by (intro exI [of _ ?s] exI [of _ w]) (simp add: v_def)
qed

lemma destroy_ok:
  assumes ok: "sched_ok s rs ss" and p: "procs s p \<noteq> None" "p \<notin> set ss" "current_process s \<noteq> Some p" "p \<noteq> IDLE"
  shows "\<exists>s'. destroy_process p s = Some s' \<and> sched_ok s' (remove1 p rs) ss \<and> procs s' p = None \<and>
    current_process s' = current_process s"
proof -
  obtain s1 where s1: "scheduler_remove_process p s = Some s1" "sched_ok s1 (remove1 p rs) ss" "relinked s s1"
    using remove_ok [OF ok] by blast
  note r = relinked_simps [OF s1(3)]
  let ?s = "s1\<lparr>procs := (procs s1)(p := None), stats := (stats s1)\<lparr>processes_terminated := processes_terminated (stats s1) + 1\<rparr>\<rparr>"
  have run: "destroy_process p s = Some ?s"
    using s1(1) p(1,4) r(6) [of p] by (auto simp: destroy_process_def)
  have "distinct rs" using sched_okD(1) [OF ok] by (simp add: ready_list_def ring_def)
  then have pr: "p \<notin> set (remove1 p rs)" by simp
  have f: "nx_of ?s = (nx_of s1)(p := None)" "pv_of ?s = (pv_of s1)(p := None)" "sn_of ?s = (sn_of s1)(p := None)"
    "st_of ?s = (st_of s1)(p := None)"
    by (auto simp: nx_of_def pv_of_def sn_of_def st_of_def fun_eq_iff)
  have "ring (nx_of ?s) (pv_of ?s) (remove1 p rs) = ring (nx_of s1) (pv_of s1) (remove1 p rs)"
    using pr f by (intro ring_cong) auto
  then have "ready_list ?s (remove1 p rs)" using sched_okD(1) [OF s1(2)] by (simp add: ready_list_def)
  moreover have "slist (sn_of ?s) (sleep_queue ?s) ss" using sched_okD(2) [OF s1(2)] p(2) f by (simp add: slist_update)
  ultimately have "sched_ok ?s (remove1 p rs) ss"
    using sched_okD [OF s1(2)] p r(1) pr f(4) unfolding sched_ok_def by auto
  then show ?thesis using run r(1) by auto
qed

section \<open>The choice of the next process\<close>

lemma ring_best_fold:
  assumes "path (\<lambda>x. Option.bind (m x) nxt) c ys h" and "ys \<noteq> []" and "h \<notin> set (tl ys)"
  shows "ring_best m h c b = Some (fold (\<lambda>x b. max (prio (the (m x))) b) ys b)"
  using assms
proof (induction ys arbitrary: c b)
  case Nil
  then show ?case by simp
next
  case (Cons y ys)
  obtain c1 v where v: "c = y" "m y = Some v" "nxt v = Some c1" "path (\<lambda>x. Option.bind (m x) nxt) c1 ys h"
    using Cons.prems(1) by (auto split: bind_splits)
  have mx: "(if b < prio v then prio v else b) = max (prio v) b" by (auto simp: max_def)
  show ?case
  proof (cases "ys = []")
    case True
    then show ?thesis using v mx by (subst ring_best.simps) (auto simp: Let_def)
  next
    case False
    then have "c1 \<noteq> h" using path_hd [OF v(4) False] Cons.prems(3) by auto
    moreover have "h \<notin> set (tl ys)" using Cons.prems(3) False by (auto dest: list.set_sel(2))
    ultimately show ?thesis using v mx Cons.IH [OF v(4) False] by (subst ring_best.simps) (auto simp: Let_def)
  qed
qed

lemma fold_max: "fold (\<lambda>x b. max (f x) b) ys (b :: u8) = Max (insert b (f ` set ys))"
proof (induction ys arbitrary: b)
  case (Cons y ys)
  have "Max (insert (max (f y) b) (f ` set ys)) = Max (insert b (insert (f y) (f ` set ys)))"
    by (cases "ys = []") (simp_all add: ac_simps)
  then show ?case using Cons by simp
qed simp

text \<open>The choice among the processes seen so far.\<close>

definition better_of :: "(nat \<rightharpoonup> process_t) \<Rightarrow> u8 \<Rightarrow> nat \<Rightarrow> nat option \<Rightarrow> nat option" where
  "better_of m best c sel =
     (if prio (the (m c)) = best
      then (case sel of None \<Rightarrow> Some c | Some q \<Rightarrow> if cpu_time (the (m c)) < cpu_time (the (m q)) then Some c else Some q)
      else sel)"

lemma ring_select_fold:
  assumes "path (\<lambda>x. Option.bind (m x) nxt) c ys h" and "ys \<noteq> []" and "h \<notin> set (tl ys)"
    and "\<forall>q. sel = Some q \<longrightarrow> m q \<noteq> None"
  shows "ring_select m h best c sel = Some (fold (better_of m best) ys sel)"
  using assms
proof (induction ys arbitrary: c sel)
  case Nil
  then show ?case by simp
next
  case (Cons y ys)
  obtain c1 v where v: "c = y" "m y = Some v" "nxt v = Some c1" "path (\<lambda>x. Option.bind (m x) nxt) c1 ys h"
    using Cons.prems(1) by (auto split: bind_splits)
  have step: "ring_select m h best c sel =
      (if c1 = h then Some (better_of m best y sel) else ring_select m h best c1 (better_of m best y sel))"
    using v Cons.prems(4) by (subst ring_select.simps) (auto simp: Let_def better_of_def split: option.splits)
  have al: "\<forall>q. better_of m best y sel = Some q \<longrightarrow> m q \<noteq> None"
    using v(2) Cons.prems(4) by (auto simp: better_of_def split: option.splits if_splits)
  show ?case
  proof (cases "ys = []")
    case True
    then show ?thesis using v step by simp
  next
    case False
    then have "c1 \<noteq> h" using path_hd [OF v(4) False] Cons.prems(3) by auto
    moreover have "h \<notin> set (tl ys)" using Cons.prems(3) False by (auto dest: list.set_sel(2))
    ultimately show ?thesis using step Cons.IH [OF v(4) False _ al] by simp
  qed
qed

lemma fold_better_of:
  assumes "\<forall>q. sel = Some q \<longrightarrow> prio (the (m q)) = best"
  shows "case fold (better_of m best) ys sel of
      None \<Rightarrow> sel = None \<and> (\<forall>y \<in> set ys. prio (the (m y)) \<noteq> best)
    | Some q \<Rightarrow> (q \<in> set ys \<or> sel = Some q) \<and> prio (the (m q)) = best \<and>
        (\<forall>y \<in> set ys. prio (the (m y)) = best \<longrightarrow> cpu_time (the (m q)) \<le> cpu_time (the (m y))) \<and>
        (\<forall>r. sel = Some r \<longrightarrow> cpu_time (the (m q)) \<le> cpu_time (the (m r)))"
  using assms
proof (induction ys arbitrary: sel)
  case Nil
  then show ?case by (auto split: option.splits)
next
  case (Cons y ys)
  have pre: "\<forall>q. better_of m best y sel = Some q \<longrightarrow> prio (the (m q)) = best"
    using Cons.prems by (auto simp: better_of_def split: option.splits if_splits)
  show ?case using Cons.IH [OF pre] Cons.prems
    by (auto simp: better_of_def split: option.splits if_splits)
qed

lemma sched_ok_stats: "sched_ok (s\<lparr>stats := x\<rparr>) rs ss = sched_ok s rs ss"
  by (simp add: sched_ok_def ready_list_def nx_of_def [abs_def] pv_of_def [abs_def] sn_of_def [abs_def] st_of_def)

text \<open>The highest priority among the ready processes and, among those of it, the least CPU time.\<close>

definition preferred :: "sched \<Rightarrow> nat list \<Rightarrow> nat \<Rightarrow> bool" where
  "preferred s rs p \<longleftrightarrow>
     (\<forall>q \<in> set rs. prio (the (procs s q)) \<le> prio (the (procs s p)) \<and>
        (prio (the (procs s q)) = prio (the (procs s p)) \<longrightarrow> cpu_time (the (procs s p)) \<le> cpu_time (the (procs s q))))"

lemma select_preferred:
  assumes rl: "ready_list s rs" and ne: "rs \<noteq> []"
  shows "\<exists>p. do { best \<leftarrow> ring_best (procs s) (hd rs) (hd rs) 0; ring_select (procs s) (hd rs) best (hd rs) None } = Some (Some p) \<and>
    p \<in> set rs \<and> preferred s rs p"
proof -
  let ?P = "\<lambda>x. prio (the (procs s x))"
  have path: "path (\<lambda>x. Option.bind (procs s x) nxt) (hd rs) rs (hd rs)" and d: "distinct rs"
    using rl ne by (simp_all add: ready_list_def ring_def nx_of_def [abs_def])
  have h: "hd rs \<notin> set (tl rs)" using d ne by (cases rs) auto
  let ?best = "Max (insert 0 (?P ` set rs))"
  have b: "ring_best (procs s) (hd rs) (hd rs) 0 = Some ?best"
    using ring_best_fold [OF path ne h] by (simp only: fold_max)
  have sel: "ring_select (procs s) (hd rs) ?best (hd rs) None = Some (fold (better_of (procs s) ?best) rs None)"
    using ring_select_fold [OF path ne h, of None] by simp
  have hit: "\<exists>y \<in> set rs. ?P y = ?best"
  proof -
    have "?best = Max (?P ` set rs)" using ne by (simp add: Max_insert)
    moreover have "Max (?P ` set rs) \<in> ?P ` set rs" using ne by (intro Max_in) auto
    ultimately show ?thesis by auto
  qed
  obtain p where p: "fold (better_of (procs s) ?best) rs None = Some p"
    using fold_better_of [of None "procs s" ?best rs] hit by (cases "fold (better_of (procs s) ?best) rs None") auto
  then have q: "p \<in> set rs" "?P p = ?best" "\<forall>y \<in> set rs. ?P y = ?best \<longrightarrow> cpu_time (the (procs s p)) \<le> cpu_time (the (procs s y))"
    using fold_better_of [of None "procs s" ?best rs] by auto
  moreover have "?P y \<le> ?best" if "y \<in> set rs" for y using that by (intro Max_ge) auto
  ultimately show ?thesis using b sel p by (auto simp: preferred_def)
qed

lemma pick_idle:
  assumes "sched_ok s [] ss"
  shows "pick_next s = Some (IDLE, s\<lparr>stats := (stats s)\<lparr>idle_time := idle_time (stats s) + 1\<rparr>\<rparr>)"
  using sched_okD(1) [OF assms] by (simp add: pick_next_def ready_list_def)

lemma pick_ok:
  assumes ok: "sched_ok s rs ss" and ne: "rs \<noteq> []"
  shows "\<exists>p s'. pick_next s = Some (p, s') \<and> p \<in> set rs \<and> sched_ok s' (remove1 p rs) ss \<and>
    (if scheduling_policy s = 1 then preferred s rs p else p = hd rs) \<and>
    ident s' = ident s \<and> st_of s' = st_of s \<and> current_process s' = current_process s \<and>
    stats s' = (stats s)\<lparr>context_switches := context_switches (stats s) + 1\<rparr> \<and> scheduling_policy s' = scheduling_policy s"
proof -
  have rl: "ready_list s rs" and rq: "ready_queue s = Some (hd rs)"
    using sched_okD(1) [OF ok] ne by (auto simp: ready_list_def split: list.splits)
  obtain p where p: "(if scheduling_policy s = 1
      then do { best \<leftarrow> ring_best (procs s) (hd rs) (hd rs) 0; ring_select (procs s) (hd rs) best (hd rs) None }
      else Some (Some (hd rs))) = Some (Some p)" "p \<in> set rs"
    "if scheduling_policy s = 1 then preferred s rs p else p = hd rs"
    using select_preferred [OF rl ne] ne by (cases "scheduling_policy s = 1") auto
  obtain s1 where s1: "ready_unlink p s = Some s1" "relinked s s1" "sched_ok s1 (remove1 p rs) ss"
    using remove_ok [OF ok, of p] sched_okD(5) [OF ok] p(2) by (auto simp: scheduler_remove_process_def split: if_splits)
  let ?s = "s1\<lparr>stats := (stats s1)\<lparr>context_switches := context_switches (stats s1) + 1\<rparr>\<rparr>"
  have "pick_next s = Some (p, ?s)" using rq p(1) s1(1) by (simp add: pick_next_def)
  moreover have "ident ?s = ident s1" "st_of ?s = st_of s1" by (simp_all add: ident_def st_of_def fun_eq_iff)
  ultimately show ?thesis
    using p(2,3) s1(3) relinked_frame [OF s1(2)] relinked_simps [OF s1(2)]
    by (intro exI [of _ p] exI [of _ ?s]) (simp add: sched_ok_stats frame_def)
qed

section \<open>Yielding, sleeping, ending\<close>

text \<open>A change of state that keeps a process out of both queues.\<close>

lemma sched_ok_state:
  assumes ok: "sched_ok s rs ss" and p: "procs s p = Some v" "p \<notin> set rs" "p \<notin> set ss"
    and w: "state w \<noteq> SLEEPING" "nxt w = nxt v" "prv w = prv v"
  shows "sched_ok (put p w s) rs ss"
proof -
  note D = sched_okD [OF ok]
  have "ready_list (put p w s) rs" using D(1) p(1) w by (simp add: ready_list_put)
  moreover have "slist (sn_of (put p w s)) (sleep_queue s) ss" using D(2) p(3) by (simp add: views_put slist_update)
  ultimately show ?thesis using D p w(1) unfolding sched_ok_def by (auto simp: views_put)
qed

lemma yield_ok:
  assumes ok: "sched_ok s rs ss" and c: "\<And>c. current_process s = Some c \<Longrightarrow> c \<notin> set ss"
  shows "\<exists>s' rs'. scheduler_yield s = Some s' \<and> sched_ok s' rs' ss \<and> frame s s' \<and>
    (\<forall>c. current_process s = Some c \<longrightarrow> c \<noteq> IDLE \<longrightarrow> rs' = (if c \<in> set rs then rs else rs @ [c]))"
proof (cases "current_process s = None \<or> current_process s = Some IDLE")
  case True
  then show ?thesis using ok by (intro exI [of _ s] exI [of _ rs]) (auto simp: scheduler_yield_def frame_refl)
next
  case False
  then obtain c where cc: "current_process s = Some c" "c \<noteq> IDLE" by auto
  obtain v where v: "procs s c = Some v" using sched_okD(9) [OF ok cc(1)] by auto
  let ?t = "put c (v\<lparr>state := READY\<rparr>) s"
  have okt: "sched_ok ?t rs ss"
  proof (cases "c \<in> set rs")
    case True
    then have "state v = READY" using sched_okD(7) [OF ok True] v by (simp add: st_of_def)
    then have "?t = s" using v by (simp add: put_def fun_upd_idem)
    then show ?thesis using ok by simp
  next
    case False
    then show ?thesis using sched_ok_state [OF ok v False c [OF cc(1)]] by simp
  qed
  obtain s' where s': "scheduler_add_process c ?t = Some s'" "sched_ok s' (if c \<in> set rs then rs else rs @ [c]) ss" "frame ?t s'"
    using add_ok [OF okt cc(2), of] c [OF cc(1)] by auto
  have "frame s ?t" using v by (rule frame_put) simp
  then show ?thesis using s' cc v frame_trans [OF _ s'(3)]
    by (intro exI [of _ s'] exI [of _ "if c \<in> set rs then rs else rs @ [c]"]) (auto simp: scheduler_yield_def upd_def)
qed

lemma sleep_ok:
  assumes ok: "sched_ok s rs ss" and c: "current_process s = Some c" "c \<noteq> IDLE" "c \<notin> set ss"
  shows "\<exists>s' v. scheduler_sleep ticks s = Some s' \<and> sched_ok s' (remove1 c rs) (c # ss) \<and>
    procs s' c = Some v \<and> wake_tick v = scheduler_ticks (stats s) + ticks \<and> current_process s' = current_process s"
proof -
  obtain s1 where s1: "scheduler_remove_process c s = Some s1" "sched_ok s1 (remove1 c rs) ss" "relinked s s1"
    using remove_ok [OF ok] by blast
  note D = sched_okD [OF s1(2)] and r = relinked_simps [OF s1(3)]
  obtain v where v: "procs s1 c = Some v" using sched_okD(9) [OF ok c(1)] r(6) [of c] by auto
  let ?w = "v\<lparr>state := SLEEPING, wake_tick := scheduler_ticks (stats s1) + ticks, sleep_nxt := sleep_queue s1\<rparr>"
  let ?s = "(put c ?w s1)\<lparr>sleep_queue := Some c\<rparr>"
  have run: "scheduler_sleep ticks s = Some ?s" using c s1(1) v by (simp add: scheduler_sleep_def upd_def)
  have "distinct rs" using sched_okD(1) [OF ok] by (simp add: ready_list_def ring_def)
  then have cr: "c \<notin> set (remove1 c rs)" by simp
  have f: "nx_of ?s = nx_of s1" "pv_of ?s = pv_of s1" "sn_of ?s = (sn_of s1)(c \<mapsto> sleep_queue s1)" "st_of ?s = (st_of s1)(c \<mapsto> SLEEPING)"
    using v by (auto simp: nx_of_def pv_of_def sn_of_def st_of_def fun_eq_iff)
  have rl: "ready_list ?s (remove1 c rs)" using D(1) f by (simp add: ready_list_def)
  have "slist (sn_of ?s) (Some c) (c # ss)" using D(2) c(3) f(3) slist_update [of c ss "sn_of s1"] by simp
  then have "sched_ok ?s (remove1 c rs) (c # ss)"
    using D rl cr c f(4) unfolding sched_ok_def by auto
  then show ?thesis using run r(1,3) by auto
qed

text \<open>The walk that hands the children of a process over.\<close>

definition adopt :: "u64 \<Rightarrow> u64 \<Rightarrow> process_t \<Rightarrow> process_t" where
  "adopt old new v = (if ppid v = old then v\<lparr>ppid := new\<rparr> else v)"

definition adopt_all :: "u64 \<Rightarrow> u64 \<Rightarrow> nat list \<Rightarrow> sched \<Rightarrow> sched" where
  "adopt_all old new ys s =
     s\<lparr>procs := (\<lambda>x. if x \<in> set ys then map_option (adopt old new) (procs s x) else procs s x)\<rparr>"

lemma adopt_keeps [simp]:
  "nxt (adopt old new v) = nxt v" "prv (adopt old new v) = prv v" "sleep_nxt (adopt old new v) = sleep_nxt v"
  "state (adopt old new v) = state v"
  by (simp_all add: adopt_def)

lemma adopt_views:
  "nx_of (adopt_all old new ys s) = nx_of s" "pv_of (adopt_all old new ys s) = pv_of s"
  "sn_of (adopt_all old new ys s) = sn_of s" "st_of (adopt_all old new ys s) = st_of s"
  by (auto simp: adopt_all_def nx_of_def pv_of_def sn_of_def st_of_def fun_eq_iff map_option_case split: option.splits)

lemma adopt_nobody: "adopt_all old new [] s = s"
  by (simp add: adopt_all_def)

lemma sched_ok_adopt: "sched_ok s rs ss \<Longrightarrow> sched_ok (adopt_all old new ys s) rs ss"
  by (auto simp: sched_ok_def ready_list_def adopt_views) (auto simp: adopt_all_def)

lemma reparent_eq:
  assumes "path (nx_of s) c ys h" and "ys \<noteq> []" and "distinct ys" and "h \<notin> set (tl ys)"
  shows "reparent old new h c s = Some (adopt_all old new ys s)"
  using assms
proof (induction ys arbitrary: c s)
  case Nil
  then show ?case by simp
next
  case (Cons y ys)
  obtain c1 v where v: "c = y" "procs s y = Some v" "nxt v = Some c1" "path (nx_of s) c1 ys h"
    using Cons.prems(1) by (auto simp: nx_of_def [of s y] split: bind_splits)
  have s1: "(if ppid v = old then put y (v\<lparr>ppid := new\<rparr>) s else s) = adopt_all old new [y] s"
    using v(2) by (auto simp: adopt_all_def adopt_def put_def fun_eq_iff intro: arg_cong [of _ _ "\<lambda>m. s\<lparr>procs := m\<rparr>"])
  have step: "reparent old new h c s = (if c1 = h then Some (adopt_all old new [y] s) else reparent old new h c1 (adopt_all old new [y] s))"
    using v(1-3) by (subst reparent.simps) (simp add: Let_def s1 [symmetric])
  show ?case
  proof (cases "ys = []")
    case True
    then show ?thesis using v step by simp
  next
    case False
    then have "c1 \<noteq> h" using path_hd [OF v(4) False] Cons.prems(4) by auto
    moreover have "h \<notin> set (tl ys)" using Cons.prems(4) False by (auto dest: list.set_sel(2))
    moreover have "adopt_all old new ys (adopt_all old new [y] s) = adopt_all old new (y # ys) s"
      using Cons.prems(3) by (auto simp: adopt_all_def fun_eq_iff intro!: arg_cong [of _ _ "\<lambda>m. s\<lparr>procs := m\<rparr>"])
    ultimately show ?thesis
      using step Cons.IH [of "adopt_all old new [y] s" c1] v(4) Cons.prems(3) False by (simp add: adopt_views)
  qed
qed

lemma exit_ok:
  assumes ok: "sched_ok s rs ss" and p: "p \<noteq> IDLE" "procs s p \<noteq> None" "p \<notin> set ss"
  shows "\<exists>s' v. process_exit p s = Some s' \<and> sched_ok s' (remove1 p rs) ss \<and> procs s' p = Some v \<and> state v = ZOMBIE \<and>
    current_process s' = current_process s \<and> stats s' = stats s \<and>
    (\<forall>q u. q \<in> set (remove1 p rs) \<longrightarrow> procs s' q = Some u \<longrightarrow> ppid u = pid v \<longrightarrow> pid v = pid (the (procs s' IDLE)))"
proof -
  obtain s1 where s1: "scheduler_remove_process p s = Some s1" "sched_ok s1 (remove1 p rs) ss" "relinked s s1"
    using remove_ok [OF ok] by blast
  note r = relinked_simps [OF s1(3)]
  obtain v where v: "procs s1 p = Some v" using p(2) r(6) [of p] by auto
  have "distinct rs" using sched_okD(1) [OF ok] by (simp add: ready_list_def ring_def)
  then have pr: "p \<notin> set (remove1 p rs)" by simp
  let ?z = "v\<lparr>state := ZOMBIE\<rparr>"
  let ?s2 = "put p ?z s1"
  have ok2: "sched_ok ?s2 (remove1 p rs) ss" using sched_ok_state [OF s1(2) v pr p(3), of ?z] by simp
  obtain idle where idle: "procs ?s2 IDLE = Some idle" using sched_okD(4) [OF ok2] by auto
  let ?rs = "remove1 p rs"
  let ?s3 = "adopt_all (pid v) (pid idle) ?rs ?s2"
  have q: "ready_queue ?s2 = (case ?rs of [] \<Rightarrow> None | q # _ \<Rightarrow> Some q)" and rg: "ring (nx_of ?s2) (pv_of ?s2) ?rs"
    using sched_okD(1) [OF ok2] unfolding ready_list_def by auto
  have walk: "(case ready_queue ?s2 of None \<Rightarrow> Some ?s2 | Some h \<Rightarrow> reparent (pid v) (pid idle) h h ?s2) = Some ?s3"
  proof (cases "?rs")
    case Nil
    then have "?s3 = ?s2" using adopt_nobody by metis
    then show ?thesis using q Nil by simp
  next
    case (Cons h rest)
    then have "path (nx_of ?s2) h ?rs h" "distinct ?rs" "h \<notin> set (tl ?rs)" using rg by (auto simp: ring_def)
    then have "reparent (pid v) (pid idle) h h ?s2 = Some ?s3" using Cons by (intro reparent_eq) auto
    moreover have "ready_queue ?s2 = Some h" using q unfolding Cons by simp
    ultimately show ?thesis by simp
  qed
  have run: "process_exit p s = Some ?s3"
    using p(1) s1(1) v idle walk by (cases "ready_queue s1") (simp_all add: process_exit_def upd_def)
  have I: "procs ?s3 IDLE = Some idle" using idle sched_okD(5) [OF ok2] by (simp add: adopt_all_def)
  have "pid v = pid (the (procs ?s3 IDLE))" if a: "q \<in> set ?rs" "procs ?s3 q = Some u" "ppid u = pid v" for q u
  proof -
    obtain w where "procs ?s2 q = Some w" "u = adopt (pid v) (pid idle) w" using a(1,2) by (auto simp: adopt_all_def)
    then show ?thesis using a(3) I by (auto simp: adopt_def split: if_splits)
  qed
  moreover have "procs ?s3 p = Some ?z" using pr by (simp add: adopt_all_def)
  ultimately show ?thesis
    using run sched_ok_adopt [OF ok2] r(1,3) by (intro exI [of _ ?s3] exI [of _ ?z]) (auto simp: adopt_all_def)
qed

section \<open>Zombies\<close>

lemma reap_loop_idle:
  assumes "path (nx_of s) c ys h" and "ys \<noteq> []" and "ready_queue s = Some h"
    and "\<And>y. y \<in> set ys \<Longrightarrow> st_of s y = Some READY" and "h \<notin> set (tl ys)"
  shows "reap_loop c s = Some s"
  using assms
proof (induction ys arbitrary: c)
  case (Cons y ys)
  obtain c1 v where v: "c = y" "procs s y = Some v" "nxt v = Some c1" "path (nx_of s) c1 ys h"
    using Cons.prems(1) by (auto simp: nx_of_def [of s y] split: bind_splits)
  have st: "state v = READY" using Cons.prems(4) [of y] v(2) by (simp add: st_of_def)
  show ?case
  proof (cases "ys = []")
    case True
    then show ?thesis using v st Cons.prems(3) by (subst reap_loop.simps) simp
  next
    case False
    then have "c1 \<noteq> h" using path_hd [OF v(4) False] Cons.prems(5) by auto
    moreover have "h \<notin> set (tl ys)" using Cons.prems(5) False by (auto dest: list.set_sel(2))
    ultimately show ?thesis
      using v st Cons.prems Cons.IH [OF v(4) False] by (subst reap_loop.simps) simp
  qed
qed simp

lemma reap_nothing:
  assumes ok: "sched_ok s rs ss"
  shows "process_reap_zombies s = Some s"
proof (cases rs)
  case Nil
  then show ?thesis using sched_okD(1) [OF ok] by (simp add: process_reap_zombies_def ready_list_def)
next
  case (Cons h rest)
  then have "path (nx_of s) h rs h" "ready_queue s = Some h" "h \<notin> set (tl rs)"
    using sched_okD(1) [OF ok] by (auto simp: ready_list_def ring_def)
  then show ?thesis using reap_loop_idle [of s h rs h] sched_okD(7) [OF ok] Cons by (simp add: process_reap_zombies_def)
qed

end
