(* ===== verification/Scheduler_Props.thy ===== *)
theory Scheduler_Props
  imports Scheduler_Ops
begin

text \<open>
  The properties of the scheduler: every state that callers can reach is well formed and no
  call faults or hangs there, the ready queue is first-in first-out, the clock wakes exactly the
  sleepers that are due; and the calls that break it.
\<close>

section \<open>Calls and reachable states\<close>

definition sched_inv :: "sched \<Rightarrow> bool" where "sched_inv s \<longleftrightarrow> (\<exists>rs ss. sched_ok s rs ss)"

datatype sched_call =
    Create "nat option" bool "nat option" bytes u8
  | Destroy nat | Add nat | Remove nat | Yield | Sleep u64 | Wakeup nat | Tick | Exit nat | Reap | Join nat u64

fun exec_call :: "sched_call \<Rightarrow> sched \<Rightarrow> sched option" where
  "exec_call (Create mem stack entry name priority) s = map_option snd (create_process mem stack entry name priority s)"
| "exec_call (Destroy p) s = destroy_process p s"
| "exec_call (Add p) s = scheduler_add_process p s"
| "exec_call (Remove p) s = scheduler_remove_process p s"
| "exec_call Yield s = scheduler_yield s"
| "exec_call (Sleep t) s = scheduler_sleep t s"
| "exec_call (Wakeup p) s = scheduler_wakeup p s"
| "exec_call Tick s = scheduler_tick s"
| "exec_call (Exit p) s = process_exit p s"
| "exec_call Reap s = process_reap_zombies s"
| "exec_call (Join p t) s = map_option snd (process_join p t s)"

text \<open>
  What the scheduler relies on: pointers to allocated processes; a process that sleeps is not destroyed,
  made ready, put to sleep again or ended behind the scheduler's back; the current process is not freed;
  the allocator returns unused memory.
\<close>

definition awake :: "nat \<Rightarrow> sched \<Rightarrow> bool" where
  "awake p s \<longleftrightarrow> procs s p \<noteq> None \<and> st_of s p \<noteq> Some SLEEPING"

fun call_ok :: "sched_call \<Rightarrow> sched \<Rightarrow> bool" where
  "call_ok (Create mem stack entry name priority) s = (case mem of None \<Rightarrow> True | Some p \<Rightarrow> procs s p = None)"
| "call_ok (Destroy p) s = (p = IDLE \<or> awake p s \<and> current_process s \<noteq> Some p)"
| "call_ok (Add p) s = (p = IDLE \<or> awake p s)"
| "call_ok (Remove p) s = True"
| "call_ok Yield s = (case current_process s of None \<Rightarrow> True | Some c \<Rightarrow> awake c s)"
| "call_ok (Sleep t) s = (case current_process s of None \<Rightarrow> True | Some c \<Rightarrow> awake c s)"
| "call_ok (Wakeup p) s = (procs s p \<noteq> None)"
| "call_ok Tick s = True"
| "call_ok (Exit p) s = (p = IDLE \<or> awake p s)"
| "call_ok Reap s = True"
| "call_ok (Join p t) s = (p = IDLE \<or> procs s p \<noteq> None \<and> current_process s \<noteq> Some p)"

lemma awakeD: "sched_ok s rs ss \<Longrightarrow> awake p s \<Longrightarrow> procs s p \<noteq> None \<and> p \<notin> set ss"
  using sched_okD(8) [of s rs ss p] by (simp add: awake_def)

lemma wakeup_any:
  assumes ok: "sched_ok s rs ss" and p: "procs s p \<noteq> None"
  shows "\<exists>s'. scheduler_wakeup p s = Some s' \<and> sched_inv s'"
proof (cases "p \<in> set ss")
  case True
  then obtain as bs where "ss = as @ p # bs" by (meson split_list)
  then show ?thesis using wakeup_ok [of s rs as p bs] ok by (auto simp: sched_inv_def)
next
  case False
  then obtain v where "procs s p = Some v" "state v \<noteq> SLEEPING" using p sched_okD(8) [OF ok, of p] by (auto simp: st_of_def)
  then show ?thesis using ok by (auto simp: scheduler_wakeup_def sched_inv_def)
qed

lemma tick_inv: "sched_inv s \<Longrightarrow> \<exists>s'. scheduler_tick s = Some s' \<and> sched_inv s' \<and>
    current_process s' = current_process s \<and> (\<forall>p. procs s' p = None \<longleftrightarrow> procs s p = None)"
proof -
  assume "sched_inv s"
  then obtain rs ss where ok: "sched_ok s rs ss" by (auto simp: sched_inv_def)
  obtain s' where s': "scheduler_tick s = Some s'" "sched_inv s'" "ident s' = ident s" "current_process s' = current_process s"
    using tick_ok [OF ok] by (auto simp: sched_inv_def)
  have "procs s' p = None \<longleftrightarrow> procs s p = None" for p
    using fun_cong [OF s'(3), of p] by (auto simp: ident_def)
  then show ?thesis using s' by blast
qed

lemma free_zombie:
  assumes ok: "sched_ok s rs ss" and p: "procs s p = Some v" "state v = ZOMBIE" "p \<noteq> IDLE" "current_process s \<noteq> Some p"
  shows "sched_ok (s\<lparr>procs := (procs s)(p := None), stats := x\<rparr>) rs ss"
proof -
  let ?s = "s\<lparr>procs := (procs s)(p := None), stats := x\<rparr>"
  note D = sched_okD [OF ok]
  have st: "st_of s p = Some ZOMBIE" using p by (simp add: st_of_def)
  have out: "p \<notin> set rs" "p \<notin> set ss" using D(7) [of p] D(8) [of p] st by auto
  have f: "nx_of ?s = (nx_of s)(p := None)" "pv_of ?s = (pv_of s)(p := None)" "sn_of ?s = (sn_of s)(p := None)"
    "st_of ?s = (st_of s)(p := None)"
    by (auto simp: nx_of_def pv_of_def sn_of_def st_of_def fun_eq_iff)
  have "ring (nx_of ?s) (pv_of ?s) rs = ring (nx_of s) (pv_of s) rs" using out f by (intro ring_cong) auto
  then have "ready_list ?s rs" using D(1) by (simp add: ready_list_def)
  moreover have "slist (sn_of ?s) (sleep_queue ?s) ss" using D(2) out f by (simp add: slist_update)
  ultimately show ?thesis using D p out f(4) unfolding sched_ok_def by auto
qed

lemma join_inv:
  "sched_inv s \<Longrightarrow> p \<noteq> IDLE \<Longrightarrow> procs s p \<noteq> None \<Longrightarrow> current_process s \<noteq> Some p \<Longrightarrow>
     \<exists>r s'. join_loop p n s = Some (r, s') \<and> sched_inv s'"
proof (induction n arbitrary: s)
  case 0
  then show ?case by auto
next
  case (Suc n)
  then obtain v where v: "procs s p = Some v" by auto
  show ?case
  proof (cases "state v = ZOMBIE")
    case True
    then show ?thesis using v Suc.prems free_zombie [of s _ _ p v] by (fastforce simp: sched_inv_def)
  next
    case False
    obtain s1 where s1: "scheduler_tick s = Some s1" "sched_inv s1" "current_process s1 = current_process s"
      "procs s1 p = None \<longleftrightarrow> procs s p = None"
      using tick_inv [OF Suc.prems(1)] by blast
    then show ?thesis using v False Suc.IH [OF s1(2)] Suc.prems by simp
  qed
qed

lemma exec_call_inv:
  assumes "sched_inv s" and "call_ok c s"
  shows "\<exists>s'. exec_call c s = Some s' \<and> sched_inv s'"
proof -
  obtain rs ss where ok: "sched_ok s rs ss" using assms(1) by (auto simp: sched_inv_def)
  show ?thesis
  proof (cases c)
    case (Create mem stack entry name priority)
    show ?thesis
    proof (cases "mem = None \<or> \<not> stack \<or> entry = None")
      case True
      then show ?thesis using Create assms(1) by (cases mem; cases entry) (auto simp: create_process_def)
    next
      case False
      then obtain p e where p: "mem = Some p" "stack" "procs s p = None" "entry = Some e" using Create assms(2) by auto
      obtain s' where "create_process (Some p) True (Some e) name priority s = Some (Some p, s')" "sched_ok s' (rs @ [p]) ss"
        using create_ok [OF ok p(3), of e name priority] by blast
      then show ?thesis using Create p by (auto simp: sched_inv_def)
    qed
  next
    case (Destroy p)
    then show ?thesis using destroy_ok [OF ok, of p] awakeD [OF ok, of p] assms
      by (cases "p = IDLE") (auto simp: sched_inv_def destroy_process_def)
  next
    case (Add p)
    then show ?thesis using add_ok [OF ok, of p] awakeD [OF ok, of p] assms
      by (cases "p = IDLE") (auto simp: sched_inv_def scheduler_add_process_def)
  next
    case (Remove p)
    then show ?thesis using remove_ok [OF ok, of p] by (auto simp: sched_inv_def)
  next
    case Yield
    then have "c' \<notin> set ss" if "current_process s = Some c'" for c' using that awakeD [OF ok, of c'] assms(2) by simp
    then show ?thesis using Yield yield_ok [OF ok] by (auto simp: sched_inv_def)
  next
    case (Sleep t)
    show ?thesis
    proof (cases "current_process s = None \<or> current_process s = Some IDLE")
      case True
      then show ?thesis using Sleep assms(1) by (auto simp: scheduler_sleep_def)
    next
      case False
      then obtain c' where "current_process s = Some c'" "c' \<noteq> IDLE" by auto
      then show ?thesis using Sleep sleep_ok [OF ok, of c' t] awakeD [OF ok, of c'] assms(2) by (auto simp: sched_inv_def)
    qed
  next
    case (Wakeup p)
    then show ?thesis using wakeup_any [OF ok, of p] assms by simp
  next
    case Tick
    then show ?thesis using tick_inv [OF assms(1)] by auto
  next
    case (Exit p)
    then show ?thesis using exit_ok [OF ok, of p] awakeD [OF ok, of p] assms
      by (cases "p = IDLE") (auto simp: sched_inv_def process_exit_def)
  next
    case Reap
    then show ?thesis using reap_nothing [OF ok] assms(1) by simp
  next
    case (Join p t)
    then show ?thesis using join_inv [OF assms(1), of p "unat t"] assms
      by (cases "p = IDLE") (auto simp: process_join_def)
  qed
qed

text \<open>The states reached from the start of the scheduler by such calls.\<close>

definition sched_boot :: sched where
  "sched_boot = scheduler_init \<lparr>procs = Map.empty, current_process = None, ready_queue = None, sleep_queue = None,
     next_pid = 1, stats = zero_stats, scheduling_policy = 0\<rparr>"

inductive sched_reach :: "sched \<Rightarrow> bool" where
  start: "sched_reach sched_boot"
| call: "sched_reach s \<Longrightarrow> call_ok c s \<Longrightarrow> exec_call c s = Some s' \<Longrightarrow> sched_reach s'"

lemma sched_boot_ok: "sched_ok sched_boot [] []"
  by (auto simp: sched_ok_def sched_boot_def scheduler_init_def ready_list_def ring_def st_of_def zero_process_def
      zero_stats_def)

lemma sched_reach_inv: "sched_reach s \<Longrightarrow> sched_inv s"
proof (induction rule: sched_reach.induct)
  case start
  then show ?case using sched_boot_ok by (auto simp: sched_inv_def)
next
  case (call s c s')
  then show ?case using exec_call_inv [of s c] by auto
qed

section \<open>The contract of a first-in first-out queue\<close>

fun add_all :: "('a \<Rightarrow> 's \<Rightarrow> 's option) \<Rightarrow> 'a list \<Rightarrow> 's \<Rightarrow> 's option" where
  "add_all add [] s = Some s"
| "add_all add (x # xs) s = do { s1 \<leftarrow> add x s; add_all add xs s1 }"

fun take_n :: "('s \<Rightarrow> ('a \<times> 's) option) \<Rightarrow> nat \<Rightarrow> 's \<Rightarrow> ('a list \<times> 's) option" where
  "take_n nxt_of 0 s = Some ([], s)"
| "take_n nxt_of (Suc n) s = do { (x, s1) \<leftarrow> nxt_of s; (xs, s2) \<leftarrow> take_n nxt_of n s1; Some (x # xs, s2) }"

locale fifo =
  fixes rep :: "'s \<Rightarrow> 'a list \<Rightarrow> bool" and fit :: "'a \<Rightarrow> 's \<Rightarrow> bool"
    and add :: "'a \<Rightarrow> 's \<Rightarrow> 's option" and next_of :: "'s \<Rightarrow> ('a \<times> 's) option"
  assumes add_law: "rep s xs \<Longrightarrow> fit x s \<Longrightarrow> x \<notin> set xs \<Longrightarrow>
      \<exists>s'. add x s = Some s' \<and> rep s' (xs @ [x]) \<and> (\<forall>y. fit y s \<longrightarrow> fit y s')"
    and next_law: "rep s (x # xs) \<Longrightarrow> \<exists>s'. next_of s = Some (x, s') \<and> rep s' xs"
begin

lemma add_all_rep:
  "rep s xs \<Longrightarrow> distinct (xs @ ys) \<Longrightarrow> (\<And>y. y \<in> set ys \<Longrightarrow> fit y s) \<Longrightarrow> \<exists>s'. add_all add ys s = Some s' \<and> rep s' (xs @ ys)"
proof (induction ys arbitrary: s xs)
  case (Cons y ys)
  obtain s1 where s1: "add y s = Some s1" "rep s1 (xs @ [y])" "\<forall>z. fit z s \<longrightarrow> fit z s1"
    using add_law [of s xs y] Cons.prems by auto
  have "\<exists>s'. add_all add ys s1 = Some s' \<and> rep s' ((xs @ [y]) @ ys)"
    using s1 Cons.prems(2,3) by (intro Cons.IH) auto
  then show ?case using s1(1) by simp
qed simp

lemma take_all: "rep s xs \<Longrightarrow> \<exists>s'. take_n next_of (length xs) s = Some (xs, s') \<and> rep s' []"
proof (induction xs arbitrary: s)
  case (Cons x xs)
  obtain s1 where "next_of s = Some (x, s1)" "rep s1 xs" using next_law [OF Cons.prems] by blast
  then show ?case using Cons.IH [of s1] by auto
qed simp

theorem first_in_first_out:
  assumes "rep s xs" and "distinct (xs @ ys)" and "\<And>y. y \<in> set ys \<Longrightarrow> fit y s"
  shows "\<exists>s1 s2. add_all add ys s = Some s1 \<and> take_n next_of (length (xs @ ys)) s1 = Some (xs @ ys, s2) \<and> rep s2 []"
  using add_all_rep [OF assms] take_all by blast

end

definition ready_rep :: "sched \<Rightarrow> nat list \<Rightarrow> bool" where
  "ready_rep s rs \<longleftrightarrow> scheduling_policy s \<noteq> 1 \<and> (\<exists>ss. sched_ok s rs ss)"

lemma st_of_frame_add:
  assumes ok: "sched_ok s rs ss" and p: "p \<noteq> IDLE" "awake p s"
  shows "\<exists>s'. scheduler_add_process p s = Some s' \<and> sched_ok s' (if p \<in> set rs then rs else rs @ [p]) ss \<and> frame s s' \<and>
    (\<forall>y. awake y s \<longrightarrow> awake y s')"
proof -
  obtain s' where s': "scheduler_add_process p s = Some s'" "sched_ok s' (if p \<in> set rs then rs else rs @ [p]) ss" "frame s s'"
    using add_ok [OF ok p(1)] awakeD [OF ok p(2)] by blast
  have "awake y s'" if "awake y s" for y
    using that frame_alloc [OF s'(3), of y] sched_okD(8) [OF ok, of y] sched_okD(8) [OF s'(2), of y] by (simp add: awake_def)
  then show ?thesis using s' by blast
qed

interpretation ready: fifo ready_rep "\<lambda>p s. p \<noteq> IDLE \<and> awake p s" scheduler_add_process pick_next
proof (unfold_locales, goal_cases)
  case (1 s xs x)
  then obtain ss where ok: "sched_ok s xs ss" "scheduling_policy s \<noteq> 1" by (auto simp: ready_rep_def)
  obtain s' where "scheduler_add_process x s = Some s'" "sched_ok s' (xs @ [x]) ss" "frame s s'" "\<forall>y. awake y s \<longrightarrow> awake y s'"
    using st_of_frame_add [OF ok(1), of x] 1(2,3) by auto
  then show ?case using ok(2) by (auto simp: ready_rep_def frame_def)
next
  case (2 s x xs)
  then obtain ss where ok: "sched_ok s (x # xs) ss" "scheduling_policy s \<noteq> 1" by (auto simp: ready_rep_def)
  obtain s' where "pick_next s = Some (x, s')" "sched_ok s' xs ss" "scheduling_policy s' = scheduling_policy s"
    using pick_ok [OF ok(1)] ok(2) by auto
  then show ?case using ok(2) by (auto simp: ready_rep_def)
qed

section \<open>Properties\<close>



text \<open>
  Property C16. Under the default policy the ready queue is first-in first-out: processes are chosen
  in the order in which they became ready.
\<close>

theorem ready_queue_fifo:
  assumes "ready_rep s rs" and "distinct (rs @ ps)" and "\<And>p. p \<in> set ps \<Longrightarrow> p \<noteq> IDLE \<and> awake p s"
  shows "\<exists>s1 s2. add_all scheduler_add_process ps s = Some s1 \<and>
    take_n pick_next (length (rs @ ps)) s1 = Some (rs @ ps, s2) \<and> ready_rep s2 []"
  by (rule ready.first_in_first_out [OF assms])

definition sched_two :: sched where
  "sched_two = sched_boot\<lparr>procs := (procs sched_boot)(1 \<mapsto> zero_process, 2 \<mapsto> zero_process)\<rparr>"

lemma sched_two_ok: "sched_ok sched_two [] []" "scheduling_policy sched_two \<noteq> 1" "awake 1 sched_two" "awake 2 sched_two"
  by (auto simp: sched_two_def sched_ok_def sched_boot_def scheduler_init_def ready_list_def ring_def st_of_def zero_process_def
      zero_stats_def awake_def IDLE_def)

lemma ready_queue_fifo_witness:
  "\<exists>s1 s2. add_all scheduler_add_process [2, 1] sched_two = Some s1 \<and> take_n pick_next 2 s1 = Some ([2, 1], s2)"
proof -
  have "ready_rep sched_two []" using sched_two_ok(1,2) by (auto simp: ready_rep_def)
  moreover have "p \<noteq> IDLE \<and> awake p sched_two" if "p \<in> set [2, 1]" for p
    using that sched_two_ok(3,4) by (auto simp: IDLE_def)
  ultimately have "\<exists>s1 s2. add_all scheduler_add_process [2, 1] sched_two = Some s1 \<and>
      take_n pick_next (length ([] @ [2, 1 :: nat])) s1 = Some ([] @ [2, 1], s2) \<and> ready_rep s2 []"
    by (intro ready_queue_fifo) simp_all
  moreover have "length ([] @ [2, 1 :: nat]) = 2" by simp
  ultimately show ?thesis by (metis append_Nil)
qed

text \<open>
  Under the priority policy the process chosen has the highest priority among the ready ones,
  and no other ready process of that priority has used less CPU time; it leaves the ready queue and the
  others stay in it in their order.
\<close>

theorem pick_next_preferred:
  assumes "sched_ok s rs ss" and "rs \<noteq> []" and "scheduling_policy s = 1"
  shows "\<exists>p s'. pick_next s = Some (p, s') \<and> p \<in> set rs \<and> preferred s rs p \<and> sched_ok s' (remove1 p rs) ss"
  using pick_ok [OF assms(1,2)] assms(3) by auto

lemma pick_next_preferred_witness:
  "\<exists>s rs p s'. sched_ok s rs [] \<and> rs = [1] \<and> pick_next s = Some (p, s') \<and> preferred s rs p"
proof -
  obtain s1 where s1: "scheduler_add_process 1 (sched_two\<lparr>scheduling_policy := 1\<rparr>) = Some s1" "sched_ok s1 [1] []"
    "frame (sched_two\<lparr>scheduling_policy := 1\<rparr>) s1"
  proof -
    have "sched_ok (sched_two\<lparr>scheduling_policy := 1\<rparr>) [] []"
      using sched_two_ok(1) by (simp add: sched_ok_def ready_list_def nx_of_def [abs_def] pv_of_def [abs_def] sn_of_def [abs_def] st_of_def)
    from add_ok [OF this, of 1] show thesis using that by (auto simp: sched_two_def IDLE_def)
  qed
  have "scheduling_policy s1 = 1" using s1(3) by (simp add: frame_def)
  then show ?thesis using pick_next_preferred [OF s1(2)] s1(2) by (intro exI [of _ s1] exI [of _ "[1]"]) auto
qed

text \<open>
  A clock tick wakes exactly the sleepers whose time has come: they are appended to the ready
  queue in the order of the sleep list, the others go on sleeping, and nothing else of any process changes.
\<close>

theorem scheduler_tick_wakes_due:
  assumes "sched_ok s rs ss"
  shows "\<exists>s'. scheduler_tick s = Some s' \<and>
    sched_ok s' (rs @ filter (due s (scheduler_ticks (stats s) + 1)) ss)
      (filter (\<lambda>p. \<not> due s (scheduler_ticks (stats s) + 1) p) ss) \<and>
    ident s' = ident s \<and> stats s' = (stats s)\<lparr>scheduler_ticks := scheduler_ticks (stats s) + 1\<rparr>"
  using tick_ok [OF assms] by blast

lemma scheduler_tick_wakes_due_witness:
  "\<exists>s' s''. scheduler_sleep 1 (sched_two\<lparr>current_process := Some 1\<rparr>) = Some s' \<and> scheduler_tick s' = Some s'' \<and>
    sched_ok s'' [1] []"
proof -
  have ok: "sched_ok (sched_two\<lparr>current_process := Some 1\<rparr>) [] []"
    using sched_two_ok(1) unfolding sched_ok_def ready_list_def
    by (auto simp: nx_of_def [abs_def] pv_of_def [abs_def] sn_of_def [abs_def] st_of_def sched_two_def)
  obtain s' v where s': "scheduler_sleep 1 (sched_two\<lparr>current_process := Some 1\<rparr>) = Some s'" "sched_ok s' [] [1]"
    "procs s' 1 = Some v" "wake_tick v = 1"
    using sleep_ok [OF ok, of 1 1] by (auto simp: IDLE_def sched_two_def sched_boot_def scheduler_init_def zero_stats_def)
  have "scheduler_ticks (stats s') = 0"
    using s'(1) sched_two_ok(1) by (auto simp: scheduler_sleep_def sched_two_def sched_boot_def scheduler_init_def zero_stats_def
        IDLE_def scheduler_remove_process_def ready_unlink_def in_ready_queue_def upd_def put_def)
  then have "due s' (scheduler_ticks (stats s') + 1) 1" using s'(3,4) by (simp add: due_def)
  then show ?thesis using scheduler_tick_wakes_due [OF s'(2)] s'(1) by auto
qed

section \<open>Running\<close>


lemma sched_ok_current:
  "sched_ok s rs ss \<Longrightarrow> procs s p \<noteq> None \<Longrightarrow> sched_ok (s\<lparr>current_process := Some p\<rparr>) rs ss"
  by (auto simp: sched_ok_def ready_list_def nx_of_def [abs_def] pv_of_def [abs_def] sn_of_def [abs_def] st_of_def)





section \<open>Calls that break the scheduler\<close>

text \<open>
  Zombies are never reaped: \<open>process_exit\<close> takes a process out of the ready ring, and
  \<open>process_reap_zombies\<close> looks for zombies in the ready ring only. In no reachable state does it change anything.
\<close>

theorem zombies_never_reaped:
  assumes "sched_reach s"
  shows "process_reap_zombies s = Some s"
  using sched_reach_inv [OF assms] reap_nothing by (auto simp: sched_inv_def)

lemma zombies_never_reaped_witness:
  "\<exists>s1 s2. exec_call (Create (Some 4) True (Some 7) [] 5) sched_boot = Some s1 \<and> exec_call (Exit 4) s1 = Some s2 \<and>
     st_of s2 4 = Some ZOMBIE \<and> process_reap_zombies s2 = Some s2"
proof -
  have c1: "call_ok (Create (Some 4) True (Some 7) [] 5) sched_boot" by (simp add: sched_boot_def scheduler_init_def IDLE_def)
  have f: "procs sched_boot 4 = None" by (simp add: sched_boot_def scheduler_init_def IDLE_def)
  obtain s1 v where s1: "create_process (Some 4) True (Some 7) [] 5 sched_boot = Some (Some 4, s1)" "sched_ok s1 [4] []" "procs s1 4 = Some v"
    using create_ok [OF sched_boot_ok f, of 7 "[]" 5] by auto
  have e1: "exec_call (Create (Some 4) True (Some 7) [] 5) sched_boot = Some s1" using s1(1) by simp
  obtain s2 w where s2: "process_exit 4 s1 = Some s2" "procs s2 4 = Some w" "state w = ZOMBIE"
    using exit_ok [OF s1(2), of 4] s1(3) by (auto simp: IDLE_def)
  have e2: "exec_call (Exit 4) s1 = Some s2" using s2(1) by simp
  have "awake 4 s1" using s1(3) sched_okD(8) [OF s1(2), of 4] by (simp add: awake_def)
  then have "sched_reach s2"
    using sched_reach.call [OF sched_reach.call [OF sched_reach.start c1 e1] _ e2] by simp
  then have "process_reap_zombies s2 = Some s2" by (rule zombies_never_reaped)
  then show ?thesis using e1 e2 s2 by (auto simp: st_of_def)
qed

lemma tick_loop_own_next:
  assumes "tick_loop h s = Some r" and "procs s c = Some v" "sleep_nxt v = Some c" "\<not> wake_tick v \<le> scheduler_ticks (stats s)"
  shows "h \<noteq> Some c"
proof -
  let ?P = "\<lambda>h s r. procs s c = Some v \<longrightarrow> \<not> wake_tick v \<le> scheduler_ticks (stats s) \<longrightarrow> h \<noteq> Some c"
  have "?P h s r"
  proof (rule tick_loop.raw_induct [OF _ assms(1), of ?P], goal_cases)
    case (1 loop h s r)
    show ?case
    proof (intro impI notI)
      assume own: "procs s c = Some v" "\<not> wake_tick v \<le> scheduler_ticks (stats s)" "h = Some c"
      then have "loop (Some c) s = Some r" using 1(2) assms(3) by simp
      then show False using 1(1) own by blast
    qed
  qed
  then show ?thesis using assms(2,4) by simp
qed

text \<open>
  Putting the current process to sleep twice makes the sleep list a cycle: the process
  becomes its own successor, and the next tick before it is due never returns.
\<close>

theorem double_sleep_hangs:
  assumes ok: "sched_ok s rs ss" and c: "current_process s = Some c" "c \<noteq> IDLE" "c \<notin> set ss"
    and late: "\<not> scheduler_ticks (stats s) + t2 \<le> scheduler_ticks (stats s) + 1"
  shows "do { s1 \<leftarrow> scheduler_sleep t1 s; s2 \<leftarrow> scheduler_sleep t2 s1; scheduler_tick s2 } = None"
proof -
  obtain s1 where s1: "scheduler_sleep t1 s = Some s1" "sched_ok s1 (remove1 c rs) (c # ss)" "current_process s1 = Some c"
    using sleep_ok [OF ok c, of t1] c(1) by auto
  have st1: "stats s1 = stats s" "sleep_queue s1 = Some c"
  proof -
    obtain u where u: "scheduler_remove_process c s = Some u" "relinked s u" using remove_ok [OF ok, of c] by blast
    then show "stats s1 = stats s" "sleep_queue s1 = Some c"
      using s1(1) c(1,2) relinked_simps(3) [OF u(2)] by (auto simp: scheduler_sleep_def upd_def split: option.splits)
  qed
  have "distinct rs" using sched_okD(1) [OF ok] by (simp add: ready_list_def ring_def)
  then have rm: "scheduler_remove_process c s1 = Some s1"
    using ready_unlink_absent [OF sched_okD(1) [OF s1(2)], of c] by (simp add: scheduler_remove_process_def)
  obtain v where v: "procs s1 c = Some v" using sched_okD(9) [OF s1(2,3)] by auto
  define w where "w = v\<lparr>state := SLEEPING, wake_tick := scheduler_ticks (stats s) + t2, sleep_nxt := Some c\<rparr>"
  have s2: "scheduler_sleep t2 s1 = Some ((put c w s1)\<lparr>sleep_queue := Some c\<rparr>)"
    using s1(3) c(2) rm v st1 by (simp add: scheduler_sleep_def upd_def w_def)
  have "scheduler_tick ((put c w s1)\<lparr>sleep_queue := Some c\<rparr>) = None"
  proof (rule ccontr)
    assume "scheduler_tick ((put c w s1)\<lparr>sleep_queue := Some c\<rparr>) \<noteq> None"
    then obtain r where r: "tick_loop (Some c) ((put c w s1)\<lparr>sleep_queue := Some c, stats := (stats s)\<lparr>scheduler_ticks := scheduler_ticks (stats s) + 1\<rparr>\<rparr>) = Some r"
      using st1 by (auto simp: scheduler_tick_def)
    show False using tick_loop_own_next [OF r, of c w] late by (simp add: w_def)
  qed
  then show ?thesis using s1(1) s2 by simp
qed

lemma double_sleep_hangs_witness:
  "do { s1 \<leftarrow> scheduler_sleep 5 (sched_two\<lparr>current_process := Some 1\<rparr>); s2 \<leftarrow> scheduler_sleep 9 s1; scheduler_tick s2 } = None"
proof (rule double_sleep_hangs [where rs = "[]" and ss = "[]" and c = 1])
  show "sched_ok (sched_two\<lparr>current_process := Some 1\<rparr>) [] []"
    by (rule sched_ok_current [OF sched_two_ok(1)]) (simp add: sched_two_def)
qed (simp_all add: IDLE_def sched_two_def sched_boot_def scheduler_init_def zero_stats_def word_le_nat_alt)

text \<open>
  Destroying a process that sleeps leaves a dangling pointer in the sleep list: the next tick
  reads freed memory.
\<close>

theorem destroy_sleeping_dangles:
  assumes ok: "sched_ok s rs (p # ss)"
  shows "do { s1 \<leftarrow> destroy_process p s; scheduler_tick s1 } = None"
proof -
  obtain s1 where s1: "scheduler_remove_process p s = Some s1" "sched_ok s1 (remove1 p rs) (p # ss)"
    using remove_ok [OF ok] by blast
  have pI: "p \<noteq> IDLE" using sched_okD(6) [OF ok] by auto
  have q: "sleep_queue s1 = Some p" "procs s1 p \<noteq> None"
    using sched_okD(2) [OF s1(2)] by (auto simp: sn_of_def)
  let ?s = "s1\<lparr>procs := (procs s1)(p := None), stats := (stats s1)\<lparr>processes_terminated := processes_terminated (stats s1) + 1\<rparr>\<rparr>"
  have "destroy_process p s = Some ?s" using pI s1(1) q(2) by (auto simp: destroy_process_def)
  moreover have "scheduler_tick ?s = None" unfolding scheduler_tick_def using q(1) by (subst tick_loop.simps) simp
  ultimately show ?thesis by simp
qed

lemma destroy_sleeping_dangles_witness:
  "\<exists>s. scheduler_sleep 5 (sched_two\<lparr>current_process := Some 1\<rparr>) = Some s \<and>
     do { s1 \<leftarrow> destroy_process 1 s; scheduler_tick s1 } = None"
proof -
  have "sched_ok (sched_two\<lparr>current_process := Some 1\<rparr>) [] []"
    by (rule sched_ok_current [OF sched_two_ok(1)]) (simp add: sched_two_def)
  from sleep_ok [OF this, of 1 5] obtain s where "scheduler_sleep 5 (sched_two\<lparr>current_process := Some 1\<rparr>) = Some s" "sched_ok s [] [1]"
    by (auto simp: IDLE_def)
  then show ?thesis using destroy_sleeping_dangles [of s "[]" 1 "[]"] by auto
qed

end
