(* ===== verification/Sched_Fs.thy ===== *)
theory Sched_Fs
  imports Port_Io
begin

text \<open>
  The scheduler of the freestanding kernel (\<open>Kernel/sched/sched_fs.c\<close>) and the timer interrupt that drives
  it (\<open>Kernel/drivers/timer.c\<close>): up to four processes in a table, switched round robin when the time slice
  of the current one is used up. A context switch exchanges the saved stack pointers; the stack
  frames that \<open>setup_frame\<close> writes are a store from addresses to frames. The register CR3 is part of the
  state. Process 0 is the kernel's own thread.
\<close>

section \<open>Data\<close>

definition TIME_SLICE :: u32 where "TIME_SLICE = 10"
definition MAX_PROCS :: nat where "MAX_PROCS = 4"
definition STACK_SIZE :: u32 where "STACK_SIZE = 4096"
definition SIZEOF_FRAME :: u32 where "SIZEOF_FRAME = 68"

record switch_frame_t =
  f_gs :: u32
  f_fs :: u32
  f_es :: u32
  f_ds :: u32
  f_edi :: u32
  f_esi :: u32
  f_ebp :: u32
  f_esp :: u32
  f_ebx :: u32
  f_edx :: u32
  f_ecx :: u32
  f_eax :: u32
  f_int_no :: u32
  f_err_code :: u32
  f_eip :: u32
  f_cs :: u32
  f_eflags :: u32

record proc_fs =
  esp :: u32
  stack_base :: u32
  entry_fs :: u32
  name_fs :: bytes
  has_frame :: bool
  cr3_of :: u32

record sched_fs =
  g_procs :: "proc_fs list"
  g_stacks :: u32
  g_current :: "nat option"
  g_nprocs :: nat
  g_sched_ticks :: u32
  g_switches :: u32
  g_slice_left :: u32
  g_need_switch :: bool
  g_preempt_enabled :: bool
  g_kernel_cr3 :: u32
  cr3_reg :: u32
  frames :: "u32 \<Rightarrow> switch_frame_t"
  g_ticks :: u32

section \<open>Processes\<close>

text \<open>\<open>None\<close> for a null name.\<close>

definition copy_name_fs :: "bytes option \<Rightarrow> bytes" where
  "copy_name_fs src = take 15 (case src of None \<Rightarrow> [63] | Some n \<Rightarrow> n)"

definition first_frame :: "u32 \<Rightarrow> switch_frame_t" where
  "first_frame entry = \<lparr>f_gs = 0x10, f_fs = 0x10, f_es = 0x10, f_ds = 0x10, f_edi = 0, f_esi = 0, f_ebp = 0, f_esp = 0,
     f_ebx = 0, f_edx = 0, f_ecx = 0, f_eax = 0, f_int_no = 32, f_err_code = 0, f_eip = entry, f_cs = 0x08, f_eflags = 0x202\<rparr>"

definition frame_addr :: "u32 \<Rightarrow> u32" where
  "frame_addr base = ((base + STACK_SIZE) AND NOT 0xF) - SIZEOF_FRAME"

definition setup_frame :: "nat \<Rightarrow> sched_fs \<Rightarrow> sched_fs" where
  "setup_frame i s =
     (let p = g_procs s ! i; a = frame_addr (stack_base p) in
      s\<lparr>frames := (frames s)(a := first_frame (entry_fs p)),
        g_procs := (g_procs s)[i := p\<lparr>esp := a, has_frame := True\<rparr>]\<rparr>)"

text \<open>The index of the new process, or \<open>None\<close> when the table is full.\<close>

definition create_process_fs :: "bytes option \<Rightarrow> u32 \<Rightarrow> bool \<Rightarrow> sched_fs \<Rightarrow> nat option \<times> sched_fs" where
  "create_process_fs name entry bootstrap s =
     (if g_nprocs s \<ge> MAX_PROCS then (None, s)
      else
        (let i = g_nprocs s;
             s1 = s\<lparr>g_procs := (g_procs s)[i := \<lparr>esp = 0, stack_base = g_stacks s + of_nat i * STACK_SIZE, entry_fs = entry,
                    name_fs = copy_name_fs name, has_frame = False, cr3_of = g_kernel_cr3 s\<rparr>]\<rparr>;
             s2 = (if \<not> bootstrap then setup_frame i s1 else s1)
         in (Some i, s2\<lparr>g_nprocs := i + 1\<rparr>)))"

definition sched_fs_init :: "sched_fs \<Rightarrow> sched_fs" where
  "sched_fs_init s =
     (let s1 = s\<lparr>g_nprocs := 0, g_sched_ticks := 0, g_switches := 0, g_slice_left := TIME_SLICE, g_need_switch := False,
               g_kernel_cr3 := cr3_reg s\<rparr>;
          (c, s2) = create_process_fs (Some [105, 100, 108, 101]) 0 True s1
      in s2\<lparr>g_current := c\<rparr>)"

definition sched_fs_create_process :: "bytes option \<Rightarrow> u32 \<Rightarrow> u8 \<Rightarrow> sched_fs \<Rightarrow> sched_fs" where
  "sched_fs_create_process name entry priority s = snd (create_process_fs name entry False s)"

section \<open>Ticks and switches\<close>

definition sched_fs_on_tick :: "sched_fs \<Rightarrow> sched_fs" where
  "sched_fs_on_tick s =
     (let left = (if g_slice_left s > 0 then g_slice_left s - 1 else g_slice_left s);
          s1 = s\<lparr>g_sched_ticks := g_sched_ticks s + 1, g_slice_left := left\<rparr>
      in if left = 0 \<and> g_nprocs s > 1 then s1\<lparr>g_slice_left := TIME_SLICE, g_need_switch := True\<rparr> else s1)"

text \<open>The stack pointer to continue with, 0 for no switch.\<close>

definition sched_fs_maybe_switch :: "u32 \<Rightarrow> sched_fs \<Rightarrow> u32 \<times> sched_fs" where
  "sched_fs_maybe_switch current_esp s =
     (case g_current s of
        None \<Rightarrow> (0, s)
      | Some c \<Rightarrow>
          if \<not> g_need_switch s \<or> g_nprocs s < 2 \<or> \<not> g_preempt_enabled s then (0, s)
          else
            (let procs = (g_procs s)[c := (g_procs s ! c)\<lparr>esp := current_esp, has_frame := True\<rparr>];
                 idx = (c + 1) mod g_nprocs s
             in (esp (procs ! idx),
                 s\<lparr>g_need_switch := False, g_procs := procs, g_current := Some idx, cr3_reg := cr3_of (procs ! idx),
                   g_switches := g_switches s + 1\<rparr>)))"

definition sched_fs_preempt_enable :: "bool \<Rightarrow> sched_fs \<Rightarrow> sched_fs" where
  "sched_fs_preempt_enable enable s =
     (let s1 = (if enable then s\<lparr>g_slice_left := TIME_SLICE, g_need_switch := False\<rparr> else s)
      in s1\<lparr>g_preempt_enabled := enable\<rparr>)"

definition sched_fs_restore_kernel_cr3 :: "sched_fs \<Rightarrow> sched_fs" where
  "sched_fs_restore_kernel_cr3 s = s\<lparr>cr3_reg := g_kernel_cr3 s\<rparr>"

definition sched_fs_current_name :: "sched_fs \<Rightarrow> bytes" where
  "sched_fs_current_name s = (case g_current s of None \<Rightarrow> [63] | Some c \<Rightarrow> name_fs (g_procs s ! c))"

section \<open>The timer\<close>

definition timer_init :: "'h ports \<Rightarrow> u32 \<Rightarrow> sched_fs \<Rightarrow> 'h \<Rightarrow> sched_fs \<times> 'h" where
  "timer_init io hz0 s h =
     (let hz = (if hz0 = 0 then 100 else hz0); divisor = 1193182 div hz;
          h1 = p_outb io 0x43 0x34 h;
          h2 = p_outb io 0x40 (ucast (divisor AND 0xFF)) h1;
          h3 = p_outb io 0x40 (ucast (drop_bit 8 divisor AND 0xFF)) h2
      in (s\<lparr>g_ticks := 0\<rparr>, h3))"

definition timer_irq :: "sched_fs \<Rightarrow> sched_fs" where
  "timer_irq s = sched_fs_on_tick (s\<lparr>g_ticks := g_ticks s + 1\<rparr>)"

definition sched_fs_ticks :: "sched_fs \<Rightarrow> u32" where
  "sched_fs_ticks s = g_sched_ticks s"

definition sched_fs_switches :: "sched_fs \<Rightarrow> u32" where
  "sched_fs_switches s = g_switches s"

text \<open>
  The wait for a number of ticks. What happens while the processor is halted, until the next interrupt has
  been handled and the thread runs again, is the argument \<open>hlt\<close>.
\<close>

partial_function (option) run_wait :: "(sched_fs \<Rightarrow> sched_fs) \<Rightarrow> u32 \<Rightarrow> u32 \<Rightarrow> sched_fs \<Rightarrow> sched_fs option" where
  "run_wait hlt start ticks s = (if g_ticks s - start < ticks then run_wait hlt start ticks (hlt s) else Some s)"

definition sched_fs_run :: "(sched_fs \<Rightarrow> sched_fs) \<Rightarrow> u32 \<Rightarrow> sched_fs \<Rightarrow> sched_fs option" where
  "sched_fs_run hlt ticks s = run_wait hlt (g_ticks s) ticks s"

text \<open>
  One timer interrupt as the interrupt entry handles it: the tick, then the switch with the stack pointer of
  the interrupted code; the result is the stack pointer to return with.
\<close>

definition timer_interrupt :: "u32 \<Rightarrow> sched_fs \<Rightarrow> u32 \<times> sched_fs" where
  "timer_interrupt cur s =
     (let (new, s1) = sched_fs_maybe_switch cur (timer_irq s) in (if new \<noteq> 0 then new else cur, s1))"

end
