(* ===== verification/Sched_Fs_Props.thy ===== *)
theory Sched_Fs_Props
  imports Sched_Fs
begin

text \<open>
  Round robin, saved contexts, address spaces and time slices of the freestanding scheduler.
\<close>

section \<open>The invariant\<close>

definition fs_ok :: "sched_fs \<Rightarrow> bool" where
  "fs_ok s \<longleftrightarrow> length (g_procs s) = MAX_PROCS \<and> 0 < g_nprocs s \<and> g_nprocs s \<le> MAX_PROCS \<and>
     (\<exists>c. g_current s = Some c \<and> c < g_nprocs s) \<and>
     (\<forall>i < g_nprocs s. cr3_of (g_procs s ! i) = g_kernel_cr3 s) \<and> g_slice_left s \<le> TIME_SLICE"

lemma fs_ok_init: "length (g_procs s) = MAX_PROCS \<Longrightarrow> fs_ok (sched_fs_init s)"
  by (simp add: fs_ok_def sched_fs_init_def create_process_fs_def MAX_PROCS_def Let_def)

lemma fs_ok_create: "fs_ok s \<Longrightarrow> fs_ok (snd (create_process_fs name entry False s))"
  by (auto simp: fs_ok_def create_process_fs_def setup_frame_def Let_def nth_list_update MAX_PROCS_def)

lemma fs_ok_tick: "fs_ok s \<Longrightarrow> fs_ok (timer_irq s)"
proof -
  assume ok: "fs_ok s"
  have "unat (g_slice_left s) \<le> unat TIME_SLICE" using ok by (simp add: fs_ok_def word_le_nat_alt)
  then have "g_slice_left s - 1 \<le> TIME_SLICE" if "0 < g_slice_left s"
    using that by (simp add: word_le_nat_alt word_less_nat_alt unat_sub_nowrap)
  then show ?thesis using ok by (auto simp: fs_ok_def timer_irq_def sched_fs_on_tick_def Let_def)
qed

lemma maybe_switch_cases:
  assumes ok: "fs_ok s" and c: "g_current s = Some c"
  shows "sched_fs_maybe_switch e s =
    (if g_need_switch s \<and> 2 \<le> g_nprocs s \<and> g_preempt_enabled s
     then (let procs = (g_procs s)[c := (g_procs s ! c)\<lparr>esp := e, has_frame := True\<rparr>]; idx = (c + 1) mod g_nprocs s in
       (esp (procs ! idx), s\<lparr>g_need_switch := False, g_procs := procs, g_current := Some idx, cr3_reg := g_kernel_cr3 s,
          g_switches := g_switches s + 1\<rparr>))
     else (0, s))"
proof -
  let ?procs = "(g_procs s)[c := (g_procs s ! c)\<lparr>esp := e, has_frame := True\<rparr>]"
  have "cr3_of (?procs ! ((c + 1) mod g_nprocs s)) = g_kernel_cr3 s"
  proof -
    have "(c + 1) mod g_nprocs s < g_nprocs s" using ok by (simp add: fs_ok_def)
    moreover have "c < length (g_procs s)" using ok c by (auto simp: fs_ok_def)
    ultimately show ?thesis using ok by (auto simp: fs_ok_def nth_list_update)
  qed
  then show ?thesis using c by (auto simp: sched_fs_maybe_switch_def Let_def not_less)
qed

lemma fs_ok_switch: "fs_ok s \<Longrightarrow> fs_ok (snd (sched_fs_maybe_switch e s))"
proof -
  assume ok: "fs_ok s"
  then obtain c where c: "g_current s = Some c" "c < g_nprocs s" by (auto simp: fs_ok_def)
  then show ?thesis using ok by (auto simp: maybe_switch_cases [OF ok c(1)] fs_ok_def Let_def nth_list_update)
qed

section \<open>Timer interrupts\<close>

text \<open>The state after a tick that uses up the slice, and after one that does not.\<close>

definition ticked :: "u32 \<Rightarrow> sched_fs \<Rightarrow> sched_fs" where
  "ticked left s = s\<lparr>g_ticks := g_ticks s + 1, g_sched_ticks := g_sched_ticks s + 1, g_slice_left := left\<rparr>"

definition switched :: "u32 \<Rightarrow> nat \<Rightarrow> sched_fs \<Rightarrow> sched_fs" where
  "switched e c s = (ticked TIME_SLICE s)\<lparr>g_need_switch := False,
     g_procs := (g_procs s)[c := (g_procs s ! c)\<lparr>esp := e, has_frame := True\<rparr>],
     g_current := Some ((c + 1) mod g_nprocs s), cr3_reg := g_kernel_cr3 s, g_switches := g_switches s + 1\<rparr>"

text \<open>A state in which the current process \<open>c\<close> has had \<open>p\<close> ticks of its slice.\<close>

definition running :: "nat \<Rightarrow> nat \<Rightarrow> sched_fs \<Rightarrow> bool" where
  "running c p s \<longleftrightarrow> fs_ok s \<and> g_current s = Some c \<and> 2 \<le> g_nprocs s \<and> g_preempt_enabled s \<and> \<not> g_need_switch s \<and>
     p < 10 \<and> unat (g_slice_left s) = 10 - p"

lemma running_init:
  assumes "length (g_procs s) = MAX_PROCS" and "g_preempt_enabled s"
  shows "running 0 0 (sched_fs_create_process name entry pr (sched_fs_init s))"
  using assms fs_ok_create [OF fs_ok_init [OF assms(1)], of name entry]
  by (simp add: running_def sched_fs_create_process_def sched_fs_init_def create_process_fs_def setup_frame_def
      MAX_PROCS_def TIME_SLICE_def Let_def)

lemma interrupt_in_slice:
  assumes "running c p s" and "p < 9"
  shows "timer_interrupt e s = (e, ticked (g_slice_left s - 1) s)" "running c (Suc p) (ticked (g_slice_left s - 1) s)"
proof -
  have u: "unat (g_slice_left s - 1) = 9 - p" using assms by (simp add: running_def unat_sub_nowrap)
  then have nz: "g_slice_left s - 1 \<noteq> 0" "0 < g_slice_left s" using assms by (auto simp: running_def word_less_nat_alt)
  then show eq: "timer_interrupt e s = (e, ticked (g_slice_left s - 1) s)"
    using assms(1) by (simp add: timer_interrupt_def timer_irq_def sched_fs_on_tick_def sched_fs_maybe_switch_def
        running_def ticked_def Let_def)
  have "timer_irq s = ticked (g_slice_left s - 1) s"
    using nz by (simp add: timer_irq_def sched_fs_on_tick_def ticked_def Let_def)
  then have "fs_ok (ticked (g_slice_left s - 1) s)" using assms(1) fs_ok_tick [of s] by (simp add: running_def)
  then show "running c (Suc p) (ticked (g_slice_left s - 1) s)"
    using assms u by (simp add: running_def ticked_def)
qed

lemma interrupt_at_end:
  assumes "running c 9 s"
  shows "sched_fs_maybe_switch e (timer_irq s) = (esp (g_procs (switched e c s) ! ((c + 1) mod g_nprocs s)), switched e c s)"
    "running ((c + 1) mod g_nprocs s) 0 (switched e c s)"
proof -
  have "g_slice_left s = 1" using assms by (simp add: running_def word_unat_eq_iff)
  then have tick: "timer_irq s = (ticked TIME_SLICE s)\<lparr>g_need_switch := True\<rparr>"
    using assms by (simp add: timer_irq_def sched_fs_on_tick_def ticked_def running_def Let_def)
  have ok: "fs_ok (timer_irq s)" "g_current (timer_irq s) = Some c"
    using assms fs_ok_tick [of s] unfolding tick by (auto simp: running_def ticked_def)
  show eq: "sched_fs_maybe_switch e (timer_irq s) = (esp (g_procs (switched e c s) ! ((c + 1) mod g_nprocs s)), switched e c s)"
    unfolding maybe_switch_cases [OF ok] using assms by (simp add: tick running_def ticked_def switched_def Let_def)
  have "fs_ok (switched e c s)" using fs_ok_switch [OF ok(1), of e] unfolding eq by simp
  then show "running ((c + 1) mod g_nprocs s) 0 (switched e c s)"
    using assms by (simp add: running_def switched_def ticked_def TIME_SLICE_def)
qed

section \<open>Runs of interrupts\<close>

text \<open>Interrupts in a row, each with the stack pointer of the code it interrupts; the stack pointers returned to.\<close>

fun interrupts :: "u32 list \<Rightarrow> sched_fs \<Rightarrow> u32 list \<times> sched_fs" where
  "interrupts [] s = ([], s)"
| "interrupts (e # es) s = (let (r, s1) = timer_interrupt e s; (rs, s2) = interrupts es s1 in (r # rs, s2))"

text \<open>
  The stack pointer the \<open>k\<close>-th interrupt returns to, from \<open>p\<close> ticks into a slice of process \<open>c\<close> of \<open>n\<close>: the
  interrupted one within a slice; at the end of a slice the first stack pointer of a process that has not
  run yet, and the one it was interrupted with last of a process that has.
\<close>

definition resumed :: "nat \<Rightarrow> nat \<Rightarrow> sched_fs \<Rightarrow> u32 list \<Rightarrow> nat \<Rightarrow> u32" where
  "resumed c p s es k =
     (let n = g_nprocs s; j = (p + k) div 10 in
      if (p + k) mod 10 \<noteq> 9 then es ! k
      else if j + 1 < n then esp (g_procs s ! ((c + j + 1) mod n))
      else es ! (k + 10 - 10 * n))"

lemma mod_other:
  fixes c :: nat
  assumes "c < n" and "0 < d" and "d < n"
  shows "(c + d) mod n \<noteq> c"
proof
  assume "(c + d) mod n = c"
  then have "(c + d) mod n = (c + 0) mod n" using assms by simp
  then have "n dvd d" by (metis add_diff_cancel_left' diff_zero le_add1 mod_eq_dvd_iff_nat add_0_right)
  then show False using assms by (auto dest: dvd_imp_le)
qed

lemma resumed_in_slice: "p < 9 \<Longrightarrow> resumed c p s (e # es) (Suc k) = resumed c (Suc p) (ticked l s) es k"
proof -
  assume "p < 9"
  have "(e # es) ! (Suc k + 10 - 10 * g_nprocs s) = es ! (k + 10 - 10 * g_nprocs s)"
    if "(p + Suc k) mod 10 = 9" "\<not> (p + Suc k) div 10 + 1 < g_nprocs s"
  proof -
    have "p + Suc k = 10 * ((p + Suc k) div 10) + 9" using that(1) by (metis mult_div_mod_eq)
    then have "10 * g_nprocs s \<le> k + 10" using that(2) \<open>p < 9\<close> by linarith
    then have "Suc k + 10 - 10 * g_nprocs s = Suc (k + 10 - 10 * g_nprocs s)" by linarith
    then show ?thesis by simp
  qed
  then show ?thesis by (simp add: resumed_def ticked_def Let_def)
qed

lemma resumed_at_end:
  assumes "running c 9 s"
  shows "resumed c 9 s (e # es) (Suc k) = resumed ((c + 1) mod g_nprocs s) 0 (switched e c s) es k"
proof -
  let ?n = "g_nprocs s" and ?j = "k div 10"
  have c: "c < ?n" "c < length (g_procs s)" using assms by (auto simp: running_def fs_ok_def)
  have P: "\<And>i. esp (g_procs (switched e c s) ! i) = (if i = c then e else esp (g_procs s ! i))"
    using c(2) by (simp add: switched_def nth_list_update)
  have m: "((c + 1) mod ?n + ?j + 1) mod ?n = (c + (?j + 2)) mod ?n"
    by (metis (no_types, lifting) add.assoc add.commute mod_add_left_eq one_add_one)
  have d: "(9 + Suc k) div 10 = ?j + 1" "(9 + Suc k) mod 10 = k mod 10" by simp_all
  show ?thesis
  proof (cases "k mod 10 = 9")
    case False then show ?thesis unfolding resumed_def Let_def d by simp
  next
    case True
    then have k: "k = 10 * ?j + 9" by (metis mult_div_mod_eq)
    consider "?j + 2 < ?n" | "?j + 2 = ?n" | "?j + 1 \<ge> ?n" by linarith
    then show ?thesis
    proof cases
      case 1
      then have "(c + (?j + 2)) mod ?n \<noteq> c" by (intro mod_other [OF c(1)]) auto
      then show ?thesis using 1 True m P unfolding resumed_def Let_def d by (simp add: switched_def ticked_def add.assoc)
    next
      case 2
      then have "(c + (?j + 2)) mod ?n = c" using c(1) by simp
      moreover have "Suc k + 10 - 10 * ?n = 0" using 2 k by linarith
      ultimately show ?thesis using 2 c(1) True m P unfolding resumed_def Let_def d by (simp add: switched_def ticked_def)
    next
      case 3
      then have "Suc k + 10 - 10 * ?n = Suc (k + 10 - 10 * ?n)" using k by linarith
      then have "(e # es) ! (Suc k + 10 - 10 * ?n) = es ! (k + 10 - 10 * ?n)" by simp
      then show ?thesis using 3 True unfolding resumed_def Let_def d by (simp add: switched_def ticked_def)
    qed
  qed
qed

lemma interrupts_run:
  assumes "running c p s" and "0 \<notin> set es" and "\<forall>j < g_nprocs s. j \<noteq> c \<longrightarrow> esp (g_procs s ! j) \<noteq> 0"
  shows "fst (interrupts es s) = map (resumed c p s es) [0..<length es] \<and>
    running ((c + (p + length es) div 10) mod g_nprocs s) ((p + length es) mod 10) (snd (interrupts es s)) \<and>
    (10 \<le> p + length es \<or> cr3_reg s = g_kernel_cr3 s \<longrightarrow> cr3_reg (snd (interrupts es s)) = g_kernel_cr3 s) \<and>
    g_nprocs (snd (interrupts es s)) = g_nprocs s \<and> g_kernel_cr3 (snd (interrupts es s)) = g_kernel_cr3 s"
  using assms
proof (induction es arbitrary: s c p)
  case Nil
  then have "c < g_nprocs s" "p < 10" by (auto simp: running_def fs_ok_def)
  then show ?case using Nil by simp
next
  case (Cons e es)
  have e: "e \<noteq> 0" "0 \<notin> set es" using Cons.prems(2) by auto
  have ups: "map f [0..<length (e # es)] = f 0 # map (\<lambda>k. f (Suc k)) [0..<length es]" for f :: "nat \<Rightarrow> u32"
    by (simp add: upt_rec [of 0] map_Suc_upt [symmetric] comp_def del: upt_Suc)
  show ?case
  proof (cases "p < 9")
    case True
    let ?s = "ticked (g_slice_left s - 1) s"
    note st = interrupt_in_slice [OF Cons.prems(1) True]
    have f: "g_nprocs ?s = g_nprocs s" "g_procs ?s = g_procs s" "g_kernel_cr3 ?s = g_kernel_cr3 s" "cr3_reg ?s = cr3_reg s"
      by (simp_all add: ticked_def)
    have "\<forall>j < g_nprocs ?s. j \<noteq> c \<longrightarrow> esp (g_procs ?s ! j) \<noteq> 0" using Cons.prems(3) by (simp add: f)
    note IH = Cons.IH [OF st(2) e(2) this, unfolded f]
    have "resumed c p s (e # es) 0 = e" using True by (simp add: resumed_def)
    then show ?thesis using IH unfolding ups
      by (simp add: st(1) Let_def case_prod_beta resumed_in_slice [OF True, of _ _ _ _ _ "g_slice_left s - 1"])
  next
    case False
    then have p: "p = 9" using Cons.prems(1) by (simp add: running_def)
    let ?s = "switched e c s" and ?n = "g_nprocs s"
    note run = Cons.prems(1) [unfolded p]
    note st = interrupt_at_end [OF run, of e]
    have c: "c < ?n" "c < length (g_procs s)" "2 \<le> ?n" using run by (auto simp: running_def fs_ok_def)
    have f: "g_nprocs ?s = ?n" "g_kernel_cr3 ?s = g_kernel_cr3 s" "cr3_reg ?s = g_kernel_cr3 s" by (simp_all add: switched_def ticked_def)
    have P: "\<And>i. esp (g_procs ?s ! i) = (if i = c then e else esp (g_procs s ! i))"
      using c(2) by (simp add: switched_def nth_list_update)
    have nz: "\<forall>j < g_nprocs ?s. esp (g_procs ?s ! j) \<noteq> 0" using Cons.prems(3) e(1) by (simp add: f P)
    then have "\<forall>j < g_nprocs ?s. j \<noteq> (c + 1) mod ?n \<longrightarrow> esp (g_procs ?s ! j) \<noteq> 0" by blast
    note IH = Cons.IH [OF st(2) e(2) this, unfolded f]
    have ne: "(c + 1) mod ?n \<noteq> c" using mod_other [OF c(1), of 1] c(3) by simp
    have idx: "(c + 1) mod ?n < ?n" using c(1) by simp
    have i1: "timer_interrupt e s = (esp (g_procs s ! ((c + 1) mod ?n)), ?s)"
      using st(1) nz [rule_format, of "(c + 1) mod ?n"] idx ne by (simp add: timer_interrupt_def f P Let_def)
    have r0: "resumed c p s (e # es) 0 = esp (g_procs s ! ((c + 1) mod ?n))" using c(3) by (simp add: resumed_def p Let_def)
    have "(9 + length (e # es)) div 10 = Suc (length es div 10)" by simp
    then have m: "((c + 1) mod ?n + length es div 10) mod ?n = (c + (9 + length (e # es)) div 10) mod ?n"
      by (simp only:) (simp add: mod_simps)
    show ?thesis using IH m r0 unfolding ups p
      by (simp add: i1 Let_def case_prod_beta resumed_at_end [OF run] f)
  qed
qed

text \<open>
  Property C18. Round robin with saved contexts: over any run of timer interrupts, each with the stack pointer of
  the code it interrupts, ten ticks make a slice; the \<open>k\<close>-th interrupt returns to the code it interrupted within
  a slice, and at the end of a slice to the next process of the table, at its first stack pointer or at the
  one it was interrupted with when it ran last. The processor ends on the process whose turn it is, in the
  kernel's address space once a switch was made.
\<close>

theorem round_robin:
  assumes "running c p s" and "0 \<notin> set es" and "\<forall>j < g_nprocs s. j \<noteq> c \<longrightarrow> esp (g_procs s ! j) \<noteq> 0"
    and "k < length es"
  shows "fst (interrupts es s) ! k =
      (let n = g_nprocs s; j = (p + k) div 10 in
       if (p + k) mod 10 \<noteq> 9 then es ! k
       else if j + 1 < n then esp (g_procs s ! ((c + j + 1) mod n))
       else es ! (k + 10 - 10 * n)) \<and>
    g_current (snd (interrupts es s)) = Some ((c + (p + length es) div 10) mod g_nprocs s) \<and>
    (10 \<le> p + length es \<longrightarrow> cr3_reg (snd (interrupts es s)) = g_kernel_cr3 s)"
  using interrupts_run [OF assms(1-3)] assms(4) by (simp add: resumed_def running_def)

text \<open>Boot: an idle thread and one process, whose first stack frame is at the top of its stack.\<close>

definition boot_fs :: sched_fs where
  "boot_fs = sched_fs_create_process (Some [97]) 0x105000 1 (sched_fs_init
     \<lparr>g_procs = replicate 4 \<lparr>esp = 0, stack_base = 0, entry_fs = 0, name_fs = [], has_frame = False, cr3_of = 0\<rparr>,
      g_stacks = 0x200000, g_current = None, g_nprocs = 0, g_sched_ticks = 0, g_switches = 0, g_slice_left = 0,
      g_need_switch = False, g_preempt_enabled = True, g_kernel_cr3 = 0, cr3_reg = 0x1000, frames = (\<lambda>_. first_frame 0),
      g_ticks = 0\<rparr>)"

lemma boot_fs_running: "running 0 0 boot_fs"
  unfolding boot_fs_def by (rule running_init) (simp_all add: MAX_PROCS_def)

lemma boot_fs_stacks: "\<forall>j < g_nprocs boot_fs. j \<noteq> 0 \<longrightarrow> esp (g_procs boot_fs ! j) \<noteq> 0"
proof -
  have "g_nprocs boot_fs = 2" "esp (g_procs boot_fs ! 1) \<noteq> 0" by code_simp+
  then show ?thesis by (auto simp: less_Suc_eq numeral_2_eq_2)
qed

theorem round_robin_witness:
  "fst (interrupts (replicate 20 7) boot_fs) ! 19 = 7 \<and> g_current (snd (interrupts (replicate 20 7) boot_fs)) = Some 0 \<and>
   cr3_reg (snd (interrupts (replicate 20 7) boot_fs)) = 0x1000"
proof -
  have "g_nprocs boot_fs = 2" "g_kernel_cr3 boot_fs = 0x1000" by code_simp+
  then show ?thesis using round_robin [OF boot_fs_running _ boot_fs_stacks, of "replicate 20 7" 19] by simp
qed

section \<open>The timer\<close>

text \<open>
  The interval timer is programmed with the divisor \<open>1193182 div hz\<close>, low byte first, for every
  rate from 19 Hz on (100 Hz for 0); below that the divisor does not fit in the 16 bits of the counter
  and only its remainder modulo 65536 is programmed.
\<close>

theorem timer_init_programs:
  "\<exists>lo hi. snd (timer_init log_ports hz s h) = h @ [(0x43, 0x34), (0x40, lo), (0x40, hi)] \<and>
     unat lo + 256 * unat hi = (1193182 div (if hz = 0 then 100 else unat hz)) mod 65536 \<and>
     ((0 < hz \<and> hz < 19) \<noteq> (unat lo + 256 * unat hi = 1193182 div (if hz = 0 then 100 else unat hz)))"
proof -
  define d :: u32 where "d = 1193182 div (if hz = 0 then 100 else hz)"
  define D where "D = 1193182 div (if hz = 0 then 100 else unat hz)"
  have ud: "unat d = D" by (simp add: d_def D_def unat_div)
  have m: "(0xFF :: u32) = mask 8" by (simp add: mask_eq_exp_minus_1)
  have b: "unat (ucast (w AND 0xFF) :: u8) = unat w mod 256" for w :: u32
    unfolding m take_bit_eq_mask [symmetric] by (simp add: unat_ucast_mod unat_take_bit_mod)
  define lo hi :: u8 where "lo = ucast (d AND 0xFF)" and "hi = ucast (drop_bit 8 d AND 0xFF)"
  have out: "snd (timer_init log_ports hz s h) = h @ [(0x43, 0x34), (0x40, lo), (0x40, hi)]"
    by (simp add: timer_init_def log_ports_def d_def lo_def hi_def Let_def)
  have sum: "unat lo + 256 * unat hi = D mod 65536"
    using mod_mult2_eq [of D 256 256] by (simp add: lo_def hi_def b ud unat_drop_bit_div)
  have "(0 < hz \<and> hz < 19) \<noteq> (D < 65536)"
  proof (cases "0 < hz \<and> hz < 19")
    case True
    then have "0 < unat hz" "unat hz \<le> 18" by (simp_all add: word_less_nat_alt)
    then have "1193182 div 18 \<le> D" using div_le_mono2 [of "unat hz" 18 1193182] True by (auto simp: D_def)
    then show ?thesis using True by simp
  next
    case False
    then have "(if hz = 0 then 100 else unat hz) \<ge> 19" by (auto simp: word_less_nat_alt unat_gt_0)
    then have "D \<le> 1193182 div 19" unfolding D_def by (rule div_le_mono2 [rotated]) simp
    then show ?thesis using False by simp
  qed
  moreover have "(D mod 65536 = D) = (D < 65536)" by (metis mod_less mod_less_divisor zero_less_numeral)
  ultimately show ?thesis using out sum by (auto simp: D_def)
qed

section \<open>Waiting\<close>

lemma run_wait_ticks:
  "g_ticks s - start = ticks - of_nat n \<Longrightarrow> n \<le> unat ticks \<Longrightarrow>
   run_wait timer_irq start ticks s = Some ((timer_irq ^^ n) s)"
proof (induction n arbitrary: s)
  case 0
  then show ?case by (subst run_wait.simps) simp
next
  case (Suc n)
  have len: "unat ticks < 2 ^ 32" using unat_less_len [of ticks] by simp
  have "Suc n \<le> unat ticks" by (rule Suc.prems)
  then have u: "unat (of_nat (Suc n) :: u32) = Suc n" using len by (simp add: unat_of_nat del: of_nat_Suc)
  have "unat (ticks - of_nat (Suc n)) = unat ticks - unat (of_nat (Suc n) :: u32)"
    using Suc.prems(2) by (intro unat_sub_nowrap) (simp only: u)
  then have "unat (ticks - of_nat (Suc n)) = unat ticks - Suc n" by (simp only: u)
  then have "g_ticks s - start < ticks" using Suc.prems by (simp add: word_less_nat_alt)
  moreover have "g_ticks (timer_irq s) - start = ticks - of_nat n"
    using Suc.prems(1) by (simp add: timer_irq_def sched_fs_on_tick_def Let_def algebra_simps)
  ultimately show ?case using Suc.IH [of "timer_irq s"] Suc.prems(2)
    by (subst run_wait.simps) (simp add: funpow_swap1)
qed

text \<open>
  \<open>sched_fs_run\<close> returns after exactly the requested number of timer ticks, also when the tick counter
  wraps around meanwhile.
\<close>

theorem sched_fs_run_exact:
  "sched_fs_run timer_irq ticks s = Some ((timer_irq ^^ unat ticks) s) \<and>
   g_ticks ((timer_irq ^^ unat ticks) s) = g_ticks s + ticks"
proof -
  have "g_ticks ((timer_irq ^^ n) s) = g_ticks s + of_nat n" for n
    by (induction n) (simp_all add: timer_irq_def sched_fs_on_tick_def Let_def)
  then show ?thesis using run_wait_ticks [of s "g_ticks s" ticks "unat ticks"]
    by (simp add: sched_fs_run_def)
qed

end
