(* ===== verification/Paging.thy ===== *)
theory Paging
  imports Heap_Inv
begin

text \<open>
  Address spaces (\<open>Kernel/arch/paging.c\<close>, \<open>paging.h\<close>): page directories and page tables of the 32-bit x86 and the
  checked copies between kernel and user memory.

  Memory is the byte store \<open>hmem\<close> of the kernel heap, indexed by the kernel's addresses: the boot code maps
  physical memory at \<open>PAGING_HIGHER_HALF_OFFSET\<close>, so physical address \<open>p\<close> is kernel address \<open>paging_virt_addr p\<close>.
  Page directories and tables are 4-byte words in this memory, little endian. The walk that the
  processor makes for a user address is \<open>mmu\<close>; CR3 is an argument of the operations that read it. The
  translation is looked up anew at every access, so \<open>invlpg\<close> has no effect in the model. An access through
  an address without a translation is a page fault, the result \<open>None\<close>. Log output is not modelled.
\<close>

section \<open>Constants and words in memory\<close>

definition PAGING_PAGE_SIZE :: u32 where "PAGING_PAGE_SIZE = 4096"
definition PAGING_PDE_COUNT :: nat where "PAGING_PDE_COUNT = 1024"
definition PAGING_PTE_COUNT :: nat where "PAGING_PTE_COUNT = 1024"
definition PAGING_FLAG_PRESENT :: u32 where "PAGING_FLAG_PRESENT = 0x001"
definition PAGING_FLAG_WRITABLE :: u32 where "PAGING_FLAG_WRITABLE = 0x002"
definition PAGING_FLAG_USER :: u32 where "PAGING_FLAG_USER = 0x004"
definition PAGING_FLAG_PS :: u32 where "PAGING_FLAG_PS = 0x080"
definition PAGING_HIGHER_HALF_OFFSET :: u32 where "PAGING_HIGHER_HALF_OFFSET = 0xC0000000"
definition PAGING_PDE_HIGHER :: nat where "PAGING_PDE_HIGHER = 768"
definition PAGING_USER_VADDR_MIN :: u32 where "PAGING_USER_VADDR_MIN = 0x00001000"
definition PAGING_USER_VADDR_MAX :: u32 where "PAGING_USER_VADDR_MAX = 0xC0000000"

lemmas paging_consts = PAGING_PAGE_SIZE_def PAGING_PDE_COUNT_def PAGING_PTE_COUNT_def PAGING_FLAG_PRESENT_def
  PAGING_FLAG_WRITABLE_def PAGING_FLAG_USER_def PAGING_FLAG_PS_def PAGING_HIGHER_HALF_OFFSET_def PAGING_PDE_HIGHER_def
  PAGING_USER_VADDR_MIN_def PAGING_USER_VADDR_MAX_def

definition paging_phys_addr :: "u32 \<Rightarrow> u32" where
  "paging_phys_addr vaddr = vaddr - PAGING_HIGHER_HALF_OFFSET"

definition paging_virt_addr :: "u32 \<Rightarrow> u32" where
  "paging_virt_addr phys = phys + PAGING_HIGHER_HALF_OFFSET"

type_synonym memory = "u32 \<Rightarrow> u8"

definition rd32 :: "memory \<Rightarrow> u32 \<Rightarrow> u32" where
  "rd32 m a = ucast (m a) OR push_bit 8 (ucast (m (a + 1))) OR push_bit 16 (ucast (m (a + 2))) OR
     push_bit 24 (ucast (m (a + 3)))"

definition wr32 :: "u32 \<Rightarrow> u32 \<Rightarrow> memory \<Rightarrow> memory" where
  "wr32 a v m = m(a := ucast v, a + 1 := ucast (drop_bit 8 v), a + 2 := ucast (drop_bit 16 v), a + 3 := ucast (drop_bit 24 v))"

text \<open>Entry \<open>i\<close> of the table at \<open>t\<close> (\<open>uint32_t *\<close>), and a loop that sets all entries.\<close>

definition entry_at :: "memory \<Rightarrow> u32 \<Rightarrow> u32 \<Rightarrow> u32" where
  "entry_at m t i = rd32 m (t + 4 * i)"

definition set_entry :: "u32 \<Rightarrow> u32 \<Rightarrow> u32 \<Rightarrow> memory \<Rightarrow> memory" where
  "set_entry t i v m = wr32 (t + 4 * i) v m"

definition clear_table :: "u32 \<Rightarrow> memory \<Rightarrow> memory" where
  "clear_table t m = fold (\<lambda>i. set_entry t (word_of_nat i) 0) [0 ..< PAGING_PDE_COUNT] m"

definition pde_idx :: "u32 \<Rightarrow> u32" where "pde_idx v = drop_bit 22 v"
definition pte_idx :: "u32 \<Rightarrow> u32" where "pte_idx v = drop_bit 12 v AND 0x3FF"

section \<open>The processor's page walk\<close>

text \<open>The physical address of \<open>v\<close>, whether user code may access it, and whether it may be written.\<close>

definition mmu :: "memory \<Rightarrow> u32 \<Rightarrow> u32 \<Rightarrow> (u32 \<times> bool \<times> bool) option" where
  "mmu m cr3 v =
     (let pde = entry_at m (paging_virt_addr (cr3 AND 0xFFFFF000)) (pde_idx v) in
      if pde AND PAGING_FLAG_PRESENT = 0 then None
      else if pde AND PAGING_FLAG_PS \<noteq> 0
      then Some ((pde AND 0xFFC00000) OR (v AND 0x3FFFFF), pde AND PAGING_FLAG_USER \<noteq> 0, pde AND PAGING_FLAG_WRITABLE \<noteq> 0)
      else
        (let pte = entry_at m (paging_virt_addr (pde AND 0xFFFFF000)) (pte_idx v) in
         if pte AND PAGING_FLAG_PRESENT = 0 then None
         else Some ((pte AND 0xFFFFF000) OR (v AND 0xFFF),
                pde AND PAGING_FLAG_USER \<noteq> 0 \<and> pte AND PAGING_FLAG_USER \<noteq> 0,
                pde AND PAGING_FLAG_WRITABLE \<noteq> 0 \<and> pte AND PAGING_FLAG_WRITABLE \<noteq> 0)))"

text \<open>
  Kernel accesses through a user address. In ring 0 the user and writable flags are not looked at (the boot
  code does not set CR0.WP).
\<close>

definition vread :: "u32 \<Rightarrow> memory \<Rightarrow> u32 \<Rightarrow> u8 option" where
  "vread cr3 m v = map_option (\<lambda>(p, _). m (paging_virt_addr p)) (mmu m cr3 v)"

definition vwrite :: "u32 \<Rightarrow> u32 \<Rightarrow> u8 \<Rightarrow> memory \<Rightarrow> memory option" where
  "vwrite cr3 v b m = map_option (\<lambda>(p, _). m(paging_virt_addr p := b)) (mmu m cr3 v)"

section \<open>Directories and tables\<close>

definition paging_current_cr3 :: "u32 \<Rightarrow> u32" where
  "paging_current_cr3 cr3 = cr3 AND 0xFFFFF000"

text \<open>0 for \<open>NULL\<close>.\<close>

definition paging_current_pd :: "u32 \<Rightarrow> u32" where
  "paging_current_pd cr3 = (if paging_current_cr3 cr3 = 0 then 0 else paging_virt_addr (paging_current_cr3 cr3))"

definition paging_user_page_accessible :: "memory \<Rightarrow> u32 \<Rightarrow> u32 \<Rightarrow> bool \<Rightarrow> bool" where
  "paging_user_page_accessible m pd vaddr writable =
     (if pd = 0 then False
      else
        (let pde = entry_at m pd (pde_idx vaddr) in
         if pde AND PAGING_FLAG_PRESENT = 0 \<or> pde AND PAGING_FLAG_USER = 0 then False
         else if pde AND PAGING_FLAG_PS \<noteq> 0 then False
         else if writable \<and> pde AND PAGING_FLAG_WRITABLE = 0 then False
         else
           (let pt_phys = pde AND 0xFFFFF000 in
            if pt_phys = 0 then False
            else
              (let pte = entry_at m (paging_virt_addr pt_phys) (pte_idx vaddr) in
               if pte AND PAGING_FLAG_PRESENT = 0 \<or> pte AND PAGING_FLAG_USER = 0 then False
               else if writable \<and> pte AND PAGING_FLAG_WRITABLE = 0 then False
               else True))))"

text \<open>The page-aligned address inside a block of two pages.\<close>

definition page_align :: "u32 \<Rightarrow> u32" where
  "page_align raw = (raw + PAGING_PAGE_SIZE - 1) AND NOT (PAGING_PAGE_SIZE - 1)"

text \<open>\<open>kpd\<close> is the address of the kernel's \<open>page_directory\<close>.\<close>

definition paging_create_pd :: "u32 \<Rightarrow> heap_t \<Rightarrow> (u32 \<times> heap_t) option" where
  "paging_create_pd kpd h =
     do { (raw, h1) \<leftarrow> kmalloc (PAGING_PAGE_SIZE * 2) h;
          if raw = 0 then Some (0, h1)
          else
            (let pd = page_align raw;
                 m1 = clear_table pd (hmem h1);
                 m2 = fold (\<lambda>i m. set_entry pd (word_of_nat i) (entry_at m kpd (word_of_nat i) AND NOT PAGING_FLAG_USER) m)
                        [PAGING_PDE_HIGHER ..< PAGING_PDE_COUNT] m1
             in Some (pd, h1\<lparr>hmem := m2\<rparr>)) }"

text \<open>
  The page table for a directory entry: the one that is there, or a new one. The entry with which the
  mapping goes on, \<open>None\<close> for the result \<open>-1\<close>.
\<close>

definition map_table :: "u32 \<Rightarrow> u32 \<Rightarrow> u32 \<Rightarrow> heap_t \<Rightarrow> (u32 option \<times> heap_t) option" where
  "map_table pd idx flags h =
     (let pde = entry_at (hmem h) pd idx in
      if pde AND PAGING_FLAG_PRESENT = 0
      then do {
        (raw, h1) \<leftarrow> kmalloc (PAGING_PAGE_SIZE * 2) h;
        if raw = 0 then Some (None, h1)
        else
          (let pt = page_align raw;
               m1 = clear_table pt (hmem h1);
               m2 = set_entry pd idx (paging_phys_addr pt OR PAGING_FLAG_PRESENT OR PAGING_FLAG_WRITABLE OR
                      (flags AND PAGING_FLAG_USER)) m1
           in Some (Some (entry_at m2 pd idx), h1\<lparr>hmem := m2\<rparr>)) }
      else if flags AND PAGING_FLAG_USER \<noteq> 0 \<and> pde AND PAGING_FLAG_USER = 0 then Some (None, h)
      else Some (Some pde, h))"

text \<open>\<open>True\<close> for the result 0.\<close>

definition paging_map_page :: "u32 \<Rightarrow> u32 \<Rightarrow> u32 \<Rightarrow> u32 \<Rightarrow> heap_t \<Rightarrow> (bool \<times> heap_t) option" where
  "paging_map_page pd vaddr phys flags0 h =
     (if pd = 0 then Some (False, h)
      else if vaddr AND (PAGING_PAGE_SIZE - 1) \<noteq> 0 \<or> phys AND (PAGING_PAGE_SIZE - 1) \<noteq> 0 then Some (False, h)
      else if flags0 AND NOT (PAGING_FLAG_PRESENT OR PAGING_FLAG_WRITABLE OR PAGING_FLAG_USER) \<noteq> 0 then Some (False, h)
      else
        (let flags = flags0 AND NOT PAGING_FLAG_PRESENT in
         if entry_at (hmem h) pd (pde_idx vaddr) AND PAGING_FLAG_PS \<noteq> 0 then Some (False, h)
         else do {
           (r, h1) \<leftarrow> map_table pd (pde_idx vaddr) flags h;
           case r of
             None \<Rightarrow> Some (False, h1)
           | Some pde \<Rightarrow>
               if pde AND PAGING_FLAG_PS \<noteq> 0 then Some (False, h1)
               else if pde AND 0xFFFFF000 = 0 then Some (False, h1)
               else Some (True, h1\<lparr>hmem := set_entry (paging_virt_addr (pde AND 0xFFFFF000)) (pte_idx vaddr)
                      ((phys AND 0xFFFFF000) OR flags OR PAGING_FLAG_PRESENT) (hmem h1)\<rparr>) }))"

section \<open>Checked copies\<close>

text \<open>The loop over the pages of a range.\<close>

partial_function (option) validate_loop :: "(u32 \<Rightarrow> bool) \<Rightarrow> u32 \<Rightarrow> u32 \<Rightarrow> bool option" where
  "validate_loop acc page lst =
     (if \<not> acc page then Some False
      else if page = lst then Some True
      else validate_loop acc (page + PAGING_PAGE_SIZE) lst)"

declare validate_loop.simps [code]

text \<open>\<open>Some True\<close> for the result 0, \<open>Some False\<close> for \<open>-1\<close>.\<close>

definition paging_validate_user_range :: "u32 \<Rightarrow> memory \<Rightarrow> u32 \<Rightarrow> u32 \<Rightarrow> bool \<Rightarrow> bool option" where
  "paging_validate_user_range cr3 m vaddr len writable =
     (if len = 0 then Some True
      else if vaddr < PAGING_USER_VADDR_MIN \<or> vaddr \<ge> PAGING_USER_VADDR_MAX \<or> len > PAGING_USER_VADDR_MAX - vaddr
      then Some False
      else
        (let end = vaddr + len;
             page = vaddr AND NOT (PAGING_PAGE_SIZE - 1);
             lst = (end - 1) AND NOT (PAGING_PAGE_SIZE - 1);
             pd = paging_current_pd cr3
         in if pd = 0 then Some False
            else validate_loop (\<lambda>p. paging_user_page_accessible m pd p writable) page lst))"

text \<open>
  Kernel buffers are lists, apart from user memory; \<open>None\<close> for a null pointer. The results hold the
  buffer or the memory after the copy.
\<close>

fun copy_in :: "u32 \<Rightarrow> memory \<Rightarrow> u32 \<Rightarrow> nat list \<Rightarrow> bytes \<Rightarrow> bytes option" where
  "copy_in cr3 m src [] d = Some d"
| "copy_in cr3 m src (i # is) d =
     do { b \<leftarrow> vread cr3 m (src + word_of_nat i); d1 \<leftarrow> arr_set d i b; copy_in cr3 m src is d1 }"

definition paging_copy_from_user :: "u32 \<Rightarrow> memory \<Rightarrow> bytes option \<Rightarrow> u32 \<Rightarrow> u32 \<Rightarrow> (bool \<times> bytes option) option" where
  "paging_copy_from_user cr3 m dst src len =
     (if dst = None \<and> len \<noteq> 0 then Some (False, dst)
      else do {
        v \<leftarrow> paging_validate_user_range cr3 m src len False;
        if \<not> v then Some (False, dst)
        else (case dst of
                None \<Rightarrow> Some (True, dst)
              | Some d \<Rightarrow> do { d1 \<leftarrow> copy_in cr3 m src [0 ..< unat len] d; Some (True, Some d1) }) })"

fun copy_out :: "u32 \<Rightarrow> u32 \<Rightarrow> bytes \<Rightarrow> nat list \<Rightarrow> memory \<Rightarrow> memory option" where
  "copy_out cr3 dst s [] m = Some m"
| "copy_out cr3 dst s (i # is) m =
     do { b \<leftarrow> arr_get s i; m1 \<leftarrow> vwrite cr3 (dst + word_of_nat i) b m; copy_out cr3 dst s is m1 }"

definition paging_copy_to_user :: "u32 \<Rightarrow> u32 \<Rightarrow> bytes option \<Rightarrow> u32 \<Rightarrow> memory \<Rightarrow> (bool \<times> memory) option" where
  "paging_copy_to_user cr3 dst src len m =
     (if src = None \<and> len \<noteq> 0 then Some (False, m)
      else do {
        v \<leftarrow> paging_validate_user_range cr3 m dst len True;
        if \<not> v then Some (False, m)
        else (case src of
                None \<Rightarrow> Some (True, m)
              | Some s \<Rightarrow> do { m1 \<leftarrow> copy_out cr3 dst s [0 ..< unat len] m; Some (True, m1) }) })"

fun copy_str :: "u32 \<Rightarrow> memory \<Rightarrow> u32 \<Rightarrow> nat list \<Rightarrow> bytes \<Rightarrow> (bool \<times> bytes) option" where
  "copy_str cr3 m src [] d = do { d1 \<leftarrow> arr_set d (length d - 1) 0; Some (False, d1) }"
| "copy_str cr3 m src (i # is) d =
     do { v \<leftarrow> paging_validate_user_range cr3 m (src + word_of_nat i) 1 False;
          if \<not> v then Some (False, d)
          else do {
            c \<leftarrow> vread cr3 m (src + word_of_nat i);
            d1 \<leftarrow> arr_set d i c;
            if c = 0 then Some (True, d1) else copy_str cr3 m src is d1 } }"

text \<open>The buffer has exactly \<open>max_len\<close> bytes at every call.\<close>

definition paging_copy_user_string :: "u32 \<Rightarrow> memory \<Rightarrow> bytes option \<Rightarrow> u32 \<Rightarrow> (bool \<times> bytes option) option" where
  "paging_copy_user_string cr3 m dst src =
     (case dst of
        None \<Rightarrow> Some (False, dst)
      | Some d \<Rightarrow>
          if length d = 0 then Some (False, dst)
          else do { (r, d1) \<leftarrow> copy_str cr3 m src [0 ..< length d] d; Some (r, Some d1) })"

end
