(* ===== verification/Elf.thy ===== *)
theory Elf
  imports Paging Pmm Sched_Fs Fat12
begin

text \<open>
  The program loader (\<open>Kernel/fs/elf.c\<close>): it reads an ELF executable from the file system, checks it, builds an
  address space with its segments and a stack, and runs it in ring 3.

  A file is the list of its bytes, as \<open>fat12_read_file\<close> delivers it; the buffer it lies in is allocated and
  freed on the kernel heap. Frames come from the frame allocator and are filled through the kernel's
  window on physical memory. The result \<open>None\<close> stands for an access outside the file, a division by zero
  and whatever has no defined result in the functions that are called. The user program itself is the
  argument \<open>launch\<close> of \<open>user_prog_exec\<close>: what happens from the entry into ring 3 (\<open>launch_ring3\<close>) until the
  program makes its exit call. Log output is not modelled.
\<close>

section \<open>Headers\<close>

definition USER_VADDR_MIN :: u32 where "USER_VADDR_MIN = 0x00001000"
definition USER_VADDR_MAX :: u32 where "USER_VADDR_MAX = 0xC0000000"
definition USER_STACK_TOP :: u32 where "USER_STACK_TOP = 0xBFC00000"
definition USER_STACK_PAGES :: u32 where "USER_STACK_PAGES = 4"
definition USER_STACK_SIZE :: u32 where "USER_STACK_SIZE = USER_STACK_PAGES * PAGING_PAGE_SIZE"
definition USER_STACK_BASE :: u32 where "USER_STACK_BASE = USER_STACK_TOP - USER_STACK_SIZE"
definition EM_386 :: u16 where "EM_386 = 3"
definition ET_EXEC :: u16 where "ET_EXEC = 2"
definition PT_LOAD :: u32 where "PT_LOAD = 1"
definition PF_X :: u32 where "PF_X = 1"
definition PF_W :: u32 where "PF_W = 2"

lemmas elf_consts = USER_VADDR_MIN_def USER_VADDR_MAX_def USER_STACK_TOP_def USER_STACK_PAGES_def USER_STACK_SIZE_def
  USER_STACK_BASE_def EM_386_def ET_EXEC_def PT_LOAD_def PF_X_def PF_W_def

record elf32_ehdr_t =
  e_ident :: bytes
  e_type :: u16
  e_machine :: u16
  e_version :: u32
  e_entry :: u32
  e_phoff :: u32
  e_ehsize :: u16
  e_phentsize :: u16
  e_phnum :: u16

record elf32_phdr_t =
  p_type :: u32
  p_offset :: u32
  p_vaddr :: u32
  p_filesz :: u32
  p_memsz :: u32
  p_flags :: u32
  p_align :: u32

text \<open>The headers as they lie in the file, 52 and 32 bytes long; fields the loader does not read are left out.\<close>

definition ehdr_at :: "bytes \<Rightarrow> elf32_ehdr_t option" where
  "ehdr_at file =
     (if 52 \<le> length file
      then Some \<lparr>e_ident = take 16 file, e_type = le16 file 16, e_machine = le16 file 18, e_version = le32 file 20,
        e_entry = le32 file 24, e_phoff = le32 file 28, e_ehsize = le16 file 40, e_phentsize = le16 file 42, e_phnum = le16 file 44\<rparr>
      else None)"

definition phdr_at :: "bytes \<Rightarrow> nat \<Rightarrow> elf32_phdr_t option" where
  "phdr_at file off =
     (if off + 32 \<le> length file
      then Some \<lparr>p_type = le32 file off, p_offset = le32 file (off + 4), p_vaddr = le32 file (off + 8),
        p_filesz = le32 file (off + 16), p_memsz = le32 file (off + 20), p_flags = le32 file (off + 24), p_align = le32 file (off + 28)\<rparr>
      else None)"

text \<open>\<open>Some None\<close> for \<open>NULL\<close>.\<close>

definition elf_phdr :: "bytes \<Rightarrow> u32 \<Rightarrow> u16 \<Rightarrow> elf32_phdr_t option option" where
  "elf_phdr file filesize idx =
     do { eh \<leftarrow> ehdr_at file;
          if idx \<ge> e_phnum eh then Some None
          else do {
            let idx_size = (ucast idx * ucast (e_phentsize eh) :: u32);
            bad \<leftarrow> (if idx = 0 then Some False
                    else if e_phentsize eh = 0 then None
                    else Some (idx_size div ucast (e_phentsize eh) \<noteq> ucast idx));
            if bad then Some None
            else if e_phoff eh > filesize then Some None
            else if idx_size > filesize - e_phoff eh then Some None
            else
              (let off = e_phoff eh + idx_size in
               if e_phentsize eh < 32 then Some None
               else if 32 > filesize - off then Some None
               else map_option Some (phdr_at file (unat off))) } }"

section \<open>Checks of a segment\<close>

definition elf_validate_segment :: "elf32_phdr_t \<Rightarrow> u32 \<Rightarrow> bool" where
  "elf_validate_segment ph filesize =
     (if p_memsz ph = 0 then True
      else if p_filesz ph > p_memsz ph then False
      else if p_offset ph > filesize \<or> p_filesz ph > filesize - p_offset ph then False
      else if p_vaddr ph < USER_VADDR_MIN \<or> p_vaddr ph \<ge> USER_VADDR_MAX \<or> p_memsz ph > USER_VADDR_MAX - p_vaddr ph then False
      else if p_vaddr ph < USER_STACK_TOP \<and> p_vaddr ph + p_memsz ph > USER_STACK_BASE then False
      else if p_align ph \<noteq> 0 \<and> p_align ph \<noteq> 1 \<and>
         (p_align ph AND (p_align ph - 1) \<noteq> 0 \<or> p_offset ph AND (p_align ph - 1) \<noteq> p_vaddr ph AND (p_align ph - 1)) then False
      else True)"

definition elf_segment_page_range :: "elf32_phdr_t \<Rightarrow> (u32 \<times> u32) option" where
  "elf_segment_page_range ph =
     (if p_memsz ph = 0 then None
      else
        (let page_start = p_vaddr ph AND NOT (PAGING_PAGE_SIZE - 1);
             segment_end = p_vaddr ph + p_memsz ph
         in if segment_end < p_vaddr ph then None
            else
              (let page_end = (segment_end + PAGING_PAGE_SIZE - 1) AND NOT (PAGING_PAGE_SIZE - 1)
               in if page_end < segment_end then None else Some (page_start, page_end))))"

definition elf_segments_overlap :: "elf32_phdr_t \<Rightarrow> elf32_phdr_t \<Rightarrow> bool" where
  "elf_segments_overlap a b =
     (case (elf_segment_page_range a, elf_segment_page_range b) of
        (Some (a_start, a_end), Some (b_start, b_end)) \<Rightarrow> a_start < b_end \<and> b_start < a_end
      | _ \<Rightarrow> True)"

section \<open>Loading a segment\<close>

definition elf_memcpy :: "u32 \<Rightarrow> bytes \<Rightarrow> memory \<Rightarrow> memory" where
  "elf_memcpy d s m = fold (\<lambda>i m. m(d + word_of_nat i := s ! i)) [0 ..< length s] m"

definition elf_memset :: "u32 \<Rightarrow> u8 \<Rightarrow> nat \<Rightarrow> memory \<Rightarrow> memory" where
  "elf_memset d c n m = fold (\<lambda>i m. m(d + word_of_nat i := c)) [0 ..< n] m"

text \<open>The loops that map consecutive pages to consecutive frames; they stop at the first failure.\<close>

fun map_pages :: "(u32 \<Rightarrow> u32 \<Rightarrow> 'h \<Rightarrow> (bool \<times> 'h) option) \<Rightarrow> u32 \<Rightarrow> u32 \<Rightarrow> nat list \<Rightarrow> 'h \<Rightarrow> (bool \<times> 'h) option" where
  "map_pages mp v p [] h = Some (True, h)"
| "map_pages mp v p (i # is) h =
     do { (ok, h1) \<leftarrow> mp (v + word_of_nat i * PAGING_PAGE_SIZE) (p + word_of_nat i * PAGING_PAGE_SIZE) h;
          if \<not> ok then Some (False, h1) else map_pages mp v p is h1 }"

text \<open>Filling the frames: the bytes of the file, then zeros.\<close>

definition fill_segment :: "bytes \<Rightarrow> elf32_phdr_t \<Rightarrow> u32 \<Rightarrow> memory \<Rightarrow> memory option" where
  "fill_segment file ph frm m =
     (let dest = paging_virt_addr frm; off = p_vaddr ph AND (PAGING_PAGE_SIZE - 1) in
      do { m1 \<leftarrow> (if p_filesz ph \<noteq> 0
                  then do { bs \<leftarrow> arr_slice file (unat (p_offset ph)) (unat (p_filesz ph)); Some (elf_memcpy (dest + off) bs m) }
                  else Some m);
           Some (if p_memsz ph > p_filesz ph
                 then elf_memset (dest + off + p_filesz ph) 0 (unat (p_memsz ph - p_filesz ph)) m1 else m1) })"

definition elf_load_segment ::
  "u32 \<Rightarrow> bytes \<Rightarrow> u32 \<Rightarrow> elf32_phdr_t \<Rightarrow> heap_t \<Rightarrow> pmm_state \<Rightarrow> (bool \<times> heap_t \<times> pmm_state) option" where
  "elf_load_segment pd file filesize ph h pm =
     (if pd = 0 then Some (False, h, pm)
      else if \<not> elf_validate_segment ph filesize then Some (False, h, pm)
      else if p_memsz ph = 0 then Some (True, h, pm)
      else
        (case elf_segment_page_range ph of
           None \<Rightarrow> Some (False, h, pm)
         | Some (page_start, page_end) \<Rightarrow>
             (let pages = (page_end - page_start) div PAGING_PAGE_SIZE in
              if pages = 0 then Some (False, h, pm)
              else
                (let (frm, pm1) = pmm_alloc_frames pages pm in
                 if frm = 0 then Some (False, h, pm1)
                 else
                   (let flags = PAGING_FLAG_USER OR (if p_flags ph AND PF_W \<noteq> 0 then PAGING_FLAG_WRITABLE else 0) in
                    do { (ok, h1) \<leftarrow> map_pages (\<lambda>v p. paging_map_page pd v p flags) page_start frm [0 ..< unat pages] h;
                         if \<not> ok then Some (False, h1, pm1)
                         else do { m \<leftarrow> fill_segment file ph frm (hmem h1); Some (True, h1\<lparr>hmem := m\<rparr>, pm1) } })))))"

section \<open>Checking a file\<close>

definition elf_ident_ok :: "elf32_ehdr_t \<Rightarrow> bool" where
  "elf_ident_ok eh \<longleftrightarrow> take 6 (e_ident eh) = [0x7F, 69, 76, 70, 1, 1] \<and> e_machine eh = EM_386 \<and> e_type eh = ET_EXEC \<and> e_version eh = 1"

definition elf_table_ok :: "elf32_ehdr_t \<Rightarrow> u32 \<Rightarrow> bool" where
  "elf_table_ok eh filesize \<longleftrightarrow>
     \<not> (e_ehsize eh < 52 \<or> e_phentsize eh < 32 \<or> e_phnum eh = 0) \<and> \<not> e_phoff eh > filesize \<and>
     (let ph_table_size = ucast (e_phnum eh) * ucast (e_phentsize eh) :: u32 in
      \<not> (e_phnum eh \<noteq> 0 \<and> ph_table_size div ucast (e_phnum eh) \<noteq> ucast (e_phentsize eh)) \<and>
      \<not> ph_table_size > filesize - e_phoff eh)"

text \<open>The inner loop of the first pass: whether one of the headers \<open>js\<close> overlaps \<open>ph\<close>.\<close>

fun overlaps_one :: "bytes \<Rightarrow> u32 \<Rightarrow> elf32_phdr_t \<Rightarrow> nat list \<Rightarrow> bool option" where
  "overlaps_one file filesize ph [] = Some False"
| "overlaps_one file filesize ph (j # js) =
     do { r \<leftarrow> elf_phdr file filesize (word_of_nat j);
          let skip = (case r of None \<Rightarrow> True | Some prev \<Rightarrow> p_type prev \<noteq> PT_LOAD \<or> p_memsz prev = 0);
          if \<not> skip \<and> elf_segments_overlap ph (the r) then Some True else overlaps_one file filesize ph js }"

text \<open>
  The first pass over the headers \<open>is\<close>; \<open>entry\<close> says whether the entry point was seen in an executable segment,
  \<open>loads\<close> how many segments are to be loaded. The result \<open>Some None\<close> is the failure of the check.
\<close>

fun first_pass :: "bytes \<Rightarrow> u32 \<Rightarrow> u32 \<Rightarrow> nat list \<Rightarrow> bool \<Rightarrow> nat \<Rightarrow> (bool \<times> nat) option option" where
  "first_pass file filesize e_ent [] entry loads = Some (Some (entry, loads))"
| "first_pass file filesize e_ent (i # is) entry loads =
     do { r \<leftarrow> elf_phdr file filesize (word_of_nat i);
          case r of
            None \<Rightarrow> Some None
          | Some ph \<Rightarrow>
              if p_type ph \<noteq> PT_LOAD then first_pass file filesize e_ent is entry loads
              else if \<not> elf_validate_segment ph filesize then Some None
              else if p_memsz ph = 0 then first_pass file filesize e_ent is entry loads
              else
                (let entry1 = (entry \<or> (e_ent \<ge> p_vaddr ph \<and> e_ent - p_vaddr ph < p_memsz ph \<and> p_flags ph AND PF_X \<noteq> 0))
                 in do { bad \<leftarrow> overlaps_one file filesize ph [0 ..< i];
                         if bad then Some None else first_pass file filesize e_ent is entry1 (loads + 1) }) }"

definition elf_check :: "bytes \<Rightarrow> u32 \<Rightarrow> bool option" where
  "elf_check file filesize =
     (if filesize < 52 then Some False
      else do {
        eh \<leftarrow> ehdr_at file;
        if \<not> elf_ident_ok eh \<or> \<not> elf_table_ok eh filesize then Some False
        else do {
          r \<leftarrow> first_pass file filesize (e_entry eh) [0 ..< unat (e_phnum eh)] False 0;
          case r of
            None \<Rightarrow> Some False
          | Some (entry, loads) \<Rightarrow>
              Some (loads \<noteq> 0 \<and> \<not> (e_entry eh < USER_VADDR_MIN \<or> e_entry eh \<ge> USER_STACK_BASE \<or> \<not> entry)) } })"

section \<open>Building the address space\<close>

fun second_pass ::
  "u32 \<Rightarrow> bytes \<Rightarrow> u32 \<Rightarrow> nat list \<Rightarrow> heap_t \<Rightarrow> pmm_state \<Rightarrow> (bool \<times> heap_t \<times> pmm_state) option" where
  "second_pass pd file filesize [] h pm = Some (True, h, pm)"
| "second_pass pd file filesize (i # is) h pm =
     do { r \<leftarrow> elf_phdr file filesize (word_of_nat i);
          case r of
            None \<Rightarrow> second_pass pd file filesize is h pm
          | Some ph \<Rightarrow>
              if p_type ph \<noteq> PT_LOAD then second_pass pd file filesize is h pm
              else do { (ok, h1, pm1) \<leftarrow> elf_load_segment pd file filesize ph h pm;
                        if \<not> ok then Some (False, h1, pm1) else second_pass pd file filesize is h1 pm1 } }"

definition map_stack :: "u32 \<Rightarrow> heap_t \<Rightarrow> pmm_state \<Rightarrow> (bool \<times> heap_t \<times> pmm_state) option" where
  "map_stack pd h pm =
     (let (sframes, pm1) = pmm_alloc_frames USER_STACK_PAGES pm in
      if sframes = 0 then Some (False, h, pm1)
      else do { (ok, h1) \<leftarrow> map_pages (\<lambda>v p. paging_map_page pd v p (PAGING_FLAG_WRITABLE OR PAGING_FLAG_USER))
                              USER_STACK_BASE sframes [0 ..< unat USER_STACK_PAGES] h;
                Some (ok, h1, pm1) })"

text \<open>The directory of the new address space, 0 when one of the steps fails.\<close>

definition elf_build :: "u32 \<Rightarrow> bytes \<Rightarrow> u32 \<Rightarrow> heap_t \<Rightarrow> pmm_state \<Rightarrow> (u32 \<times> heap_t \<times> pmm_state) option" where
  "elf_build kpd file filesize h pm =
     do { (pd, h1) \<leftarrow> paging_create_pd kpd h;
          if pd = 0 then Some (0, h1, pm)
          else do {
            eh \<leftarrow> ehdr_at file;
            (ok, h2, pm2) \<leftarrow> second_pass pd file filesize [0 ..< unat (e_phnum eh)] h1 pm;
            if \<not> ok then Some (0, h2, pm2)
            else do { (ok3, h3, pm3) \<leftarrow> map_stack pd h2 pm2; Some (if ok3 then pd else 0, h3, pm3) } } }"

section \<open>Running a program\<close>

record 'd exec_state =
  xfs :: "fat12_fs_t option"
  xdev :: 'd
  xheap :: heap_t
  xpmm :: pmm_state
  xsched :: sched_fs
  tss_esp0 :: u32

definition tss_set_kernel_stack :: "u32 \<Rightarrow> 'd exec_state \<Rightarrow> 'd exec_state" where
  "tss_set_kernel_stack e s = s\<lparr>tss_esp0 := e\<rparr>"

text \<open>The bytes of a file buffer: what was read, the rest as the heap left it.\<close>

definition buffer_bytes :: "memory \<Rightarrow> u32 \<Rightarrow> bytes \<Rightarrow> nat \<Rightarrow> bytes" where
  "buffer_bytes m p bs n = bs @ map (\<lambda>k. m (p + word_of_nat k)) [length bs ..< n]"

definition free_file :: "u32 \<Rightarrow> 'd exec_state \<Rightarrow> (bool \<times> 'd exec_state) option" where
  "free_file p s = do { h \<leftarrow> kfree p (xheap s); Some (False, s\<lparr>xheap := h\<rparr>) }"

text \<open>From the finished address space on.\<close>

definition elf_run :: "(u32 \<Rightarrow> u32 \<Rightarrow> 'd exec_state \<Rightarrow> 'd exec_state option) \<Rightarrow> u32 \<Rightarrow> u32 \<Rightarrow> u32 \<Rightarrow> 'd exec_state \<Rightarrow> (bool \<times> 'd exec_state) option" where
  "elf_run launch p pd entry s =
     do { (kstack, h) \<leftarrow> kmalloc 4096 (xheap s);
          let s1 = s\<lparr>xheap := h\<rparr>;
          if kstack = 0 then free_file p s1
          else do {
            (_, s2) \<leftarrow> free_file p (tss_set_kernel_stack (kstack + 4096) s1);
            let s3 = s2\<lparr>xsched := (sched_fs_preempt_enable False (xsched s2))\<lparr>cr3_reg := paging_phys_addr pd\<rparr>\<rparr>;
            s4 \<leftarrow> launch entry USER_STACK_TOP s3;
            let s5 = s4\<lparr>xsched := sched_fs_restore_kernel_cr3 (xsched s4)\<rparr>;
            h6 \<leftarrow> kfree kstack (xheap s5);
            Some (True, s5\<lparr>xheap := h6, xsched := sched_fs_preempt_enable True (xsched s5)\<rparr>) } }"

text \<open>\<open>True\<close> for the result 0; \<open>None\<close> as name for a null pointer.\<close>

definition user_prog_exec ::
  "'d blk_ops \<Rightarrow> (u32 \<Rightarrow> u32 \<Rightarrow> 'd exec_state \<Rightarrow> 'd exec_state option) \<Rightarrow> u32 \<Rightarrow> bytes option \<Rightarrow> 'd exec_state \<Rightarrow>
   (bool \<times> 'd exec_state) option" where
  "user_prog_exec drv launch kpd name s =
     (case (xfs s, name) of
        (Some fs, Some nm) \<Rightarrow>
          do { fi \<leftarrow> fat12_find_file fs nm;
               case fi of
                 None \<Rightarrow> Some (False, s)
               | Some info \<Rightarrow>
                   do { (r, h1, d1) \<leftarrow> fat12_read_file drv fs info (xheap s) (xdev s);
                        let s1 = s\<lparr>xheap := h1, xdev := d1\<rparr>;
                        case r of
                          None \<Rightarrow> Some (False, s1)
                        | Some (p, bs) \<Rightarrow>
                            (let file = buffer_bytes (hmem h1) p bs (unat (fi_size info)) in
                             do { ok \<leftarrow> elf_check file (fi_size info);
                                  if \<not> ok then free_file p s1
                                  else do {
                                    eh \<leftarrow> ehdr_at file;
                                    (pd, h2, pm2) \<leftarrow> elf_build kpd file (fi_size info) h1 (xpmm s1);
                                    let s2 = s1\<lparr>xheap := h2, xpmm := pm2\<rparr>;
                                    if pd = 0 then free_file p s2 else elf_run launch p pd (e_entry eh) s2 } }) } }
      | _ \<Rightarrow> Some (False, s))"

end
