(* ===== verification/Paging_Mem.thy ===== *)
theory Paging_Mem
  imports Paging
begin

text \<open>
  Words and tables in memory: reading what was written, the layout of aligned tables, the fields of
  directory and table entries, page numbers.
\<close>

section \<open>Words\<close>

lemma word_small_neq:
  assumes "k < 4" and "j < 4" and "k \<noteq> j"
  shows "(word_of_nat k :: u32) \<noteq> word_of_nat j"
proof -
  have "unat (word_of_nat k :: u32) = k" "unat (word_of_nat j :: u32) = j" using assms by (simp_all add: unat_of_nat)
  then show ?thesis using assms(3) by metis
qed

lemma wr32_at:
  "wr32 a v m a = ucast v" "wr32 a v m (a + 1) = ucast (drop_bit 8 v)"
  "wr32 a v m (a + 2) = ucast (drop_bit 16 v)" "wr32 a v m (a + 3) = ucast (drop_bit 24 v)"
  by (simp_all add: wr32_def)

lemma rd32_wr32_same [simp]: "rd32 (wr32 a v m) a = v"
proof (rule bit_word_eqI)
  fix n assume n: "n < LENGTH(32)"
  consider "n < 8" | "8 \<le> n" "n < 16" | "16 \<le> n" "n < 24" | "24 \<le> n" by linarith
  then show "bit (rd32 (wr32 a v m) a) n = bit v n"
    using n by cases (auto simp: rd32_def wr32_at bit_simps)
qed

lemma rd32_cong:
  assumes "\<And>k. k < 4 \<Longrightarrow> m (a + word_of_nat k) = m' (a + word_of_nat k)"
  shows "rd32 m a = rd32 m' a"
  using assms [of 0] assms [of 1] assms [of 2] assms [of 3] by (simp add: rd32_def)

text \<open>The bytes of a word that does not wrap around.\<close>

lemma wr32_outside:
  assumes "unat a + 4 \<le> 2 ^ 32" and "unat x < unat a \<or> unat a + 4 \<le> unat x"
  shows "wr32 a v m x = m x"
proof -
  have "unat (a + 1) = unat a + 1" "unat (a + 2) = unat a + 2" "unat (a + 3) = unat a + 3"
    using assms(1) by (simp_all add: unat_add_nowrap)
  then have "x \<noteq> a" "x \<noteq> a + 1" "x \<noteq> a + 2" "x \<noteq> a + 3" using assms(2) by auto
  then show ?thesis by (simp add: wr32_def)
qed

lemma rd32_wr32_other:
  assumes "unat a + 4 \<le> 2 ^ 32" and "unat b + 4 \<le> 2 ^ 32" and "unat b + 4 \<le> unat a \<or> unat a + 4 \<le> unat b"
  shows "rd32 (wr32 a v m) b = rd32 m b"
proof (rule rd32_cong)
  fix k :: nat assume k: "k < 4"
  then have "unat (word_of_nat k :: u32) = k" by (simp add: unat_of_nat)
  then have "unat (b + word_of_nat k) = unat b + k" using assms(2) k by (simp add: unat_add_nowrap)
  then show "wr32 a v m (b + word_of_nat k) = m (b + word_of_nat k)"
    using assms k by (intro wr32_outside) auto
qed

section \<open>Tables\<close>

text \<open>The number of the page an address lies in.\<close>

definition page_no :: "u32 \<Rightarrow> nat" where "page_no a = unat a div 4096"

definition page_aligned :: "u32 \<Rightarrow> bool" where "page_aligned a \<longleftrightarrow> unat a mod 4096 = 0"

lemma page_no_less: "page_no a < 2 ^ 20"
  using unat_less_len [of a] by (simp add: page_no_def less_mult_imp_div_less)

lemma page_aligned_unat: "page_aligned a \<Longrightarrow> unat a = 4096 * page_no a"
  unfolding page_aligned_def page_no_def by (metis mult_div_mod_eq add_0_right)

lemma page_aligned_inj: "page_aligned a \<Longrightarrow> page_aligned b \<Longrightarrow> (page_no a = page_no b) = (a = b)"
  using page_aligned_unat [of a] page_aligned_unat [of b] by (metis word_unat_eq_iff)

lemma entry_addr:
  assumes "page_aligned t" and "i < 1024"
  shows "unat (t + 4 * i) = 4096 * page_no t + 4 * unat i" "unat i < 1024" "page_no t < 2 ^ 20"
proof -
  show i: "unat i < 1024" using assms(2) by (simp add: word_less_nat_alt)
  show t: "page_no t < 2 ^ 20" by (rule page_no_less)
  have "unat (4 * i) = 4 * unat i" using i by (simp add: unat_mult_nowrap)
  then show "unat (t + 4 * i) = 4096 * page_no t + 4 * unat i"
    using page_aligned_unat [OF assms(1)] i t by (simp add: unat_add_nowrap)
qed

lemma entry_at_set_entry:
  assumes "page_aligned t" and "i < 1024" and "page_aligned t'" and "i' < 1024"
  shows "entry_at (set_entry t i v m) t' i' = (if t = t' \<and> i = i' then v else entry_at m t' i')"
proof (cases "t = t' \<and> i = i'")
  case True
  then show ?thesis by (simp add: entry_at_def set_entry_def)
next
  case False
  note e = entry_addr [OF assms(1,2)] entry_addr [OF assms(3,4)]
  have "page_no t \<noteq> page_no t' \<or> unat i \<noteq> unat i'"
    using False page_aligned_inj [OF assms(1,3)] by (auto simp: word_unat_eq_iff)
  then have "4096 * page_no t' + 4 * unat i' + 4 \<le> 4096 * page_no t + 4 * unat i \<or>
    4096 * page_no t + 4 * unat i + 4 \<le> 4096 * page_no t' + 4 * unat i'"
  proof
    assume "page_no t \<noteq> page_no t'"
    then show ?thesis using e(2,5) by (cases "page_no t < page_no t'") linarith+
  next
    assume i: "unat i \<noteq> unat i'"
    consider "page_no t < page_no t'" | "page_no t' < page_no t" | "page_no t = page_no t'" by linarith
    then show ?thesis using e(2,5) i by cases linarith+
  qed
  then have "rd32 (wr32 (t + 4 * i) v m) (t' + 4 * i') = rd32 m (t' + 4 * i')"
    using e by (intro rd32_wr32_other) auto
  then show ?thesis using False by (auto simp: entry_at_def set_entry_def)
qed

lemma set_entry_outside:
  assumes "page_aligned t" and "i < 1024" and "page_no a \<noteq> page_no t"
  shows "set_entry t i v m a = m a"
proof -
  note e = entry_addr [OF assms(1,2)]
  have "unat a < 4096 * page_no t \<or> 4096 * page_no t + 4096 \<le> unat a"
    using assms(3) unfolding page_no_def by linarith
  then show ?thesis unfolding set_entry_def using e by (intro wr32_outside) auto
qed

lemma less_1024_of_nat: "i < 1024 \<Longrightarrow> (word_of_nat i :: u32) < 1024"
  by (simp add: word_less_nat_alt unat_of_nat)

text \<open>Memories that agree outside one page, and a loop that sets entries of one table.\<close>

definition agree_off :: "u32 \<Rightarrow> memory \<Rightarrow> memory \<Rightarrow> bool" where
  "agree_off t m m' \<longleftrightarrow> (\<forall>x. page_no x \<noteq> page_no t \<longrightarrow> m x = m' x)"

lemma agree_off_set_entry: "page_aligned t \<Longrightarrow> i < 1024 \<Longrightarrow> agree_off t m m' \<Longrightarrow> agree_off t (set_entry t i v m) m'"
  by (simp add: agree_off_def set_entry_outside)

lemma entry_at_cong:
  assumes "page_aligned t'" and "i < 1024" and "\<And>a. page_no a = page_no t' \<Longrightarrow> m a = m' a"
  shows "entry_at m t' i = entry_at m' t' i"
  unfolding entry_at_def
proof (rule rd32_cong)
  fix k :: nat assume k: "k < 4"
  note e = entry_addr [OF assms(1,2)]
  have "unat (word_of_nat k :: u32) = k" using k by (simp add: unat_of_nat)
  then have "unat (t' + 4 * i + word_of_nat k) = 4096 * page_no t' + 4 * unat i + k" using e k by (simp add: unat_add_nowrap)
  then have "page_no (t' + 4 * i + word_of_nat k) = page_no t'" using e(2) k unfolding page_no_def [of "t' + 4 * i + word_of_nat k"] by simp
  then show "m (t' + 4 * i + word_of_nat k) = m' (t' + 4 * i + word_of_nat k)" by (rule assms(3))
qed

lemma entry_at_agree:
  assumes "agree_off t m m'" and "page_aligned t'" and "i < 1024" and "page_no t' \<noteq> page_no t"
  shows "entry_at m t' i = entry_at m' t' i"
  by (rule entry_at_cong [OF assms(2,3)]) (use assms(1,4) in \<open>auto simp: agree_off_def\<close>)

lemma fold_set_entry:
  assumes "page_aligned t" and "page_aligned t'" and "i' < 1024" and "\<forall>i \<in> set is. i < 1024" and "distinct is"
    and "\<And>i m. i \<in> set is \<Longrightarrow> agree_off t m m0 \<Longrightarrow> f i m = g i" and "agree_off t m m0"
  shows "entry_at (fold (\<lambda>i m. set_entry t (word_of_nat i) (f i m) m) is m) t' i' =
      (if t = t' \<and> unat i' \<in> set is then g (unat i') else entry_at m t' i') \<and>
    agree_off t (fold (\<lambda>i m. set_entry t (word_of_nat i) (f i m) m) is m) m0"
  using assms(4-7)
proof (induction "is" arbitrary: m)
  case Nil
  then show ?case by simp
next
  case (Cons i "is")
  let ?m = "set_entry t (word_of_nat i) (f i m) m"
  have i: "(word_of_nat i :: u32) < 1024" "i < 1024" using Cons.prems(1) less_1024_of_nat by auto
  have out: "agree_off t ?m m0" by (rule agree_off_set_entry [OF assms(1) i(1) Cons.prems(4)])
  have fi: "f i m = g i" using Cons.prems(3) [of i m] Cons.prems(4) by simp
  have eq: "(word_of_nat i = i') = (unat i' = i)" using i(2) by (auto simp: unat_of_nat)
  have e: "entry_at ?m t' i' = (if t = t' \<and> unat i' = i then g i else entry_at m t' i')"
    using entry_at_set_entry [OF assms(1) i(1) assms(2,3), of "f i m" m] unfolding fi eq by simp
  have "entry_at (fold (\<lambda>i m. set_entry t (word_of_nat i) (f i m) m) is ?m) t' i' =
      (if t = t' \<and> unat i' \<in> set is then g (unat i') else entry_at ?m t' i') \<and>
    agree_off t (fold (\<lambda>i m. set_entry t (word_of_nat i) (f i m) m) is ?m) m0"
    by (rule Cons.IH) (use Cons.prems out in auto)
  then show ?case unfolding e by auto
qed

lemma clear_table_entry:
  assumes "page_aligned t" and "page_aligned t'" and "i < 1024"
  shows "entry_at (clear_table t m) t' i = (if t = t' then 0 else entry_at m t' i)"
proof -
  have "unat i < 1024" using assms(3) by (simp add: word_less_nat_alt)
  then show ?thesis
    using fold_set_entry [OF assms, of "[0 ..< 1024]" m "\<lambda>_ _. 0" "\<lambda>_. 0" m]
    by (simp add: clear_table_def PAGING_PDE_COUNT_def agree_off_def)
qed

lemma clear_table_outside: "page_aligned t \<Longrightarrow> page_no a \<noteq> page_no t \<Longrightarrow> clear_table t m a = m a"
  using fold_set_entry [of t t 0 "[0 ..< 1024]" m "\<lambda>_ _. 0" "\<lambda>_. 0" m]
  by (simp add: clear_table_def PAGING_PDE_COUNT_def agree_off_def)

section \<open>Entries\<close>

lemma and_low_mask: "(v :: u32) AND 0xFFF = take_bit 12 v"
  by (simp add: take_bit_eq_mask mask_eq_exp_minus_1)

lemma page_aligned_and: "page_aligned v \<longleftrightarrow> v AND 0xFFF = 0"
  unfolding and_low_mask page_aligned_def by (simp add: word_unat_eq_iff unat_take_bit_mod)

lemma page_part: "(v :: u32) AND 0xFFFFF000 = v - (v AND 0xFFF)"
proof -
  have "(0xFFFFF000 :: u32) = NOT 0xFFF" by simp
  then show ?thesis by (simp only: word_and_not_minus)
qed

lemma bit_FFF: "bit (0xFFF :: u32) n = (n < 12)"
proof -
  have m: "(0xFFF :: u32) = mask 12" by (simp add: mask_eq_exp_minus_1)
  show ?thesis unfolding m bit_mask_iff by auto
qed

lemma bit_FFFFF000: "bit (0xFFFFF000 :: u32) n = (12 \<le> n \<and> n < 32)"
proof -
  have m: "(0xFFFFF000 :: u32) = NOT (mask 12)" by (simp add: mask_eq_exp_minus_1)
  show ?thesis unfolding m bit_not_iff bit_mask_iff by auto
qed

text \<open>An entry composed of a page address and flags.\<close>

lemma entry_fields:
  assumes "page_aligned p" and "f AND 0xFFFFF000 = 0"
  shows "(p OR f) AND 0xFFFFF000 = p" "b AND 0xFFFFF000 = 0 \<Longrightarrow> (p OR f) AND b = f AND b"
proof -
  have p: "\<not> bit p n" if "n < 12" for n
    using assms(1) that unfolding page_aligned_and by (metis bit_FFF bit_and_iff bit_0_eq bot_apply bot_bool_def)
  have f: "\<not> bit f n" if "12 \<le> n" for n
  proof
    assume "bit f n"
    then have "n < 32" using bit_imp_le_length by fastforce
    then have "bit (f AND 0xFFFFF000) n" using \<open>bit f n\<close> that unfolding bit_and_iff bit_FFFFF000 by blast
    then show False using assms(2) by simp
  qed
  show "(p OR f) AND 0xFFFFF000 = p"
  proof (rule bit_word_eqI)
    fix n assume "n < LENGTH(32)"
    then show "bit ((p OR f) AND 0xFFFFF000) n = bit p n"
      unfolding bit_and_iff bit_or_iff bit_FFFFF000 using p [of n] f [of n] by (cases "n < 12") auto
  qed
  show "(p OR f) AND b = f AND b" if b: "b AND 0xFFFFF000 = 0"
  proof (rule bit_word_eqI)
    fix n assume "n < LENGTH(32)"
    then have "bit (b AND 0xFFFFF000) n = bit b n" if "12 \<le> n" using that unfolding bit_and_iff bit_FFFFF000 by simp
    then have "\<not> bit b n" if "12 \<le> n" using b that by simp
    then show "bit ((p OR f) AND b) n = bit (f AND b) n" using p [of n] unfolding bit_and_iff bit_or_iff by (cases "n < 12") auto
  qed
qed

lemma page_aligned_offset: "page_aligned (paging_virt_addr p) = page_aligned p"
    "page_aligned (paging_phys_addr p) = page_aligned p"
proof -
  have *: "page_aligned (paging_virt_addr q) = page_aligned q" for q
  proof -
    have u: "unat (paging_virt_addr q) = (unat q + 3221225472) mod 4294967296"
      by (simp add: paging_virt_addr_def PAGING_HIGHER_HALF_OFFSET_def unat_word_ariths)
    have "(unat q + 3221225472) mod 4294967296 mod 4096 = (unat q + 3221225472) mod 4096"
      by (rule mod_mod_cancel) simp
    also have "\<dots> = unat q mod 4096" using mod_mult_self1 [of "unat q" 786432 4096] by simp
    finally show ?thesis by (simp add: page_aligned_def u)
  qed
  then show "page_aligned (paging_virt_addr p) = page_aligned p" .
  have "paging_virt_addr (paging_phys_addr p) = p" by (simp add: paging_virt_addr_def paging_phys_addr_def)
  then show "page_aligned (paging_phys_addr p) = page_aligned p" using * [of "paging_phys_addr p"] by simp
qed

lemma virt_phys [simp]: "paging_virt_addr (paging_phys_addr p) = p" "paging_phys_addr (paging_virt_addr p) = p"
  by (simp_all add: paging_virt_addr_def paging_phys_addr_def)

lemma page_aligned_mask: "page_aligned (v AND 0xFFFFF000)"
  unfolding page_aligned_and by (simp add: and.assoc)

lemma idx_less: "pde_idx v < 1024" "pte_idx v < 1024"
proof -
  have "unat (drop_bit 22 v) < 1024" using unat_less_len [of v] by (simp add: unat_drop_bit_div less_mult_imp_div_less)
  then show "pde_idx v < 1024" by (simp add: pde_idx_def word_less_nat_alt)
  have "pte_idx v = take_bit 10 (drop_bit 12 v)" by (simp add: pte_idx_def take_bit_eq_mask mask_eq_exp_minus_1)
  then have "unat (pte_idx v) = unat (drop_bit 12 v) mod 1024" by (simp add: unat_take_bit_mod)
  then show "pte_idx v < 1024" by (simp add: word_less_nat_alt)
qed

lemma idx_unat: "unat (pde_idx v) = page_no v div 1024" "unat (pte_idx v) = page_no v mod 1024"
proof -
  show "unat (pde_idx v) = page_no v div 1024" by (simp add: pde_idx_def page_no_def unat_drop_bit_div div_mult2_eq [symmetric])
  have "pte_idx v = take_bit 10 (drop_bit 12 v)" by (simp add: pte_idx_def take_bit_eq_mask mask_eq_exp_minus_1)
  then show "unat (pte_idx v) = page_no v mod 1024" by (simp add: unat_take_bit_mod page_no_def unat_drop_bit_div)
qed

lemma idx_eq: "pde_idx v = pde_idx w \<and> pte_idx v = pte_idx w \<longleftrightarrow> page_no v = page_no w"
  unfolding word_unat_eq_iff idx_unat by (metis mult_div_mod_eq)

text \<open>An address inside a page.\<close>

lemma page_or_offset:
  assumes "page_aligned q"
  shows "q OR (x AND 0xFFF) = q + (x AND 0xFFF)"
proof -
  have q: "\<not> bit q n" if "n < 12" for n
    using assms that unfolding page_aligned_and by (metis bit_FFF bit_and_iff bit_0_eq bot_apply bot_bool_def)
  show ?thesis
  proof (rule disjunctive_add [symmetric])
    show "\<not> bit q n \<or> \<not> bit (x AND 0xFFF) n" for n unfolding bit_and_iff bit_FFF using q [of n] by blast
  qed
qed

lemma unat_page_offset:
  assumes "page_aligned q"
  shows "unat (q + (x AND 0xFFF)) = 4096 * page_no q + unat x mod 4096" "page_no (q + (x AND 0xFFF)) = page_no q"
proof -
  have a: "unat (x AND 0xFFF) = unat x mod 4096" by (simp add: and_low_mask unat_take_bit_mod)
  have "unat x mod 4096 < 4096" by simp
  then have "4096 * page_no q + unat x mod 4096 < 2 ^ 32" using page_no_less [of q] by simp
  then show u: "unat (q + (x AND 0xFFF)) = 4096 * page_no q + unat x mod 4096"
    using page_aligned_unat [OF assms] a by (subst unat_add_nowrap) simp_all
  show "page_no (q + (x AND 0xFFF)) = page_no q" unfolding page_no_def [of "q + (x AND 0xFFF)"] u by simp
qed

lemma virt_page_offset:
  assumes "page_aligned q"
  shows "paging_virt_addr (q OR (x AND 0xFFF)) = paging_virt_addr q + (x AND 0xFFF)"
    "page_no (paging_virt_addr (q OR (x AND 0xFFF))) = page_no (paging_virt_addr q)"
proof -
  show e: "paging_virt_addr (q OR (x AND 0xFFF)) = paging_virt_addr q + (x AND 0xFFF)"
    unfolding page_or_offset [OF assms] by (simp add: paging_virt_addr_def)
  show "page_no (paging_virt_addr (q OR (x AND 0xFFF))) = page_no (paging_virt_addr q)"
    unfolding e by (rule unat_page_offset(2)) (simp add: page_aligned_offset assms)
qed

end
