(* ===== verification/Paging_Space.thy ===== *)
theory Paging_Space
  imports Paging_Mem
begin

text \<open>
  Address spaces: the pages that hold tables belong to live blocks of the heap, and mapping a page changes
  the translation of exactly that page.
\<close>

section \<open>Pages of the heap\<close>

lemma kmalloc_hmem:
  assumes "kmalloc n h = Some (p, h')" and "block_list h \<noteq> 0"
  shows "hmem h' = hmem h"
proof -
  have scan: "hmem g' = hmem g" if "kmalloc_scan sz g = Some (p, g')" for sz g g'
    using that by (auto simp: kmalloc_scan_def bind_eq_Some_conv split: if_splits)
  show ?thesis
  proof (cases "if align16 n \<le> size_classes ! (NUM_SIZE_CLASSES - 1) then size_class_index (align16 n) else None")
    case None
    then show ?thesis using assms scan by (cases "n = 0") (simp_all add: kmalloc_def Let_def)
  next
    case (Some c)
    obtain b g1 where fp: "free_list_pop c h = (b, g1)" by fastforce
    then have "hmem g1 = hmem h" by (metis list_op_stats(8) snd_conv)
    then show ?thesis
      using assms Some fp scan by (cases "n = 0"; cases "b = 0") (auto simp: kmalloc_def Let_def)
  qed
qed

text \<open>The pages \<open>P\<close> lie in live blocks of a well-formed heap, of which at least one is live.\<close>

definition page_bytes :: "nat \<Rightarrow> nat set" where "page_bytes p = {4096 * p ..< 4096 * p + 4096}"

definition owns :: "heap_t \<Rightarrow> nat set \<Rightarrow> bool" where
  "owns h P \<longleftrightarrow> (\<exists>ms fl. heap_ok h ms fl \<and> live h ms \<noteq> {} \<and>
     (\<forall>p \<in> P. page_bytes p \<subseteq> (\<Union>b \<in> live h ms. extent (blocks h) b)))"

lemma owns_hmem: "owns (h\<lparr>hmem := m\<rparr>) P = owns h P"
proof -
  have "heap_ok (h\<lparr>hmem := m\<rparr>) ms fl = heap_ok h ms fl" for ms fl
    using heap_ok_stats(3) [of h ms fl m] heap_ok_stats(3) [of "h\<lparr>hmem := m\<rparr>" ms fl "hmem h"] by auto
  moreover have "live (h\<lparr>hmem := m\<rparr>) ms = live h ms" for ms by (simp add: live_def)
  ultimately show ?thesis by (simp add: owns_def)
qed

lemma owns_range:
  assumes "owns h P" and "p \<in> P"
  shows "page_bytes p \<subseteq> {unat (heap_storage h) ..< unat (heap_storage h) + 0x100000}"
proof -
  obtain ms fl where ok: "heap_ok h ms fl" "page_bytes p \<subseteq> (\<Union>b \<in> live h ms. extent (blocks h) b)"
    using assms unfolding owns_def by blast
  have "extent (blocks h) b \<subseteq> {unat (heap_storage h) ..< unat (heap_storage h) + 0x100000}" if "b \<in> live h ms" for b
    by (rule heap_ok_extent [OF ok(1)]) (use that in \<open>auto simp: live_def all_blocks_def\<close>)
  then show ?thesis using ok(2) by blast
qed

lemma page_align_props:
  assumes "unat raw + 8192 < 2 ^ 32"
  shows "page_aligned (page_align raw)" "unat raw \<le> unat (page_align raw)" "unat (page_align raw) + 4096 \<le> unat raw + 8192"
proof -
  define u where "u = raw + 0xFFF"
  have u: "unat u = unat raw + 4095" unfolding u_def using assms by (simp add: unat_add_nowrap)
  have al: "page_align raw = u - (u AND 0xFFF)"
    by (simp add: page_align_def paging_consts word_and_not_minus [symmetric] u_def add.commute)
  have a: "unat (u AND 0xFFF) = unat u mod 4096" by (simp add: and_low_mask unat_take_bit_mod)
  then have e: "unat (page_align raw) = unat u - unat u mod 4096"
    unfolding al by (subst unat_sub_nowrap) (simp_all add: a)
  then have "unat (page_align raw) = 4096 * (unat u div 4096)" by (simp add: minus_mod_eq_mult_div)
  then show "page_aligned (page_align raw)" by (simp add: page_aligned_def)
  have "unat u mod 4096 < 4096" by simp
  then show "unat raw \<le> unat (page_align raw)" "unat (page_align raw) + 4096 \<le> unat raw + 8192" using e u by linarith+
qed

lemma kmalloc_page:
  assumes "owns h P"
  shows "\<exists>raw h'. kmalloc (PAGING_PAGE_SIZE * 2) h = Some (raw, h') \<and> hmem h' = hmem h \<and> heap_storage h' = heap_storage h \<and>
    (if raw = 0 then owns h' P
     else page_aligned (page_align raw) \<and> page_no (page_align raw) \<notin> P \<and> owns h' (insert (page_no (page_align raw)) P))"
proof -
  obtain ms fl where ok: "heap_ok h ms fl" and ne: "live h ms \<noteq> {}"
    and P: "\<forall>p \<in> P. page_bytes p \<subseteq> (\<Union>b \<in> live h ms. extent (blocks h) b)"
    using assms by (auto simp: owns_def)
  obtain raw h' where res: "kmalloc 8192 h = Some (raw, h')" using kmalloc_returns [OF ok] by blast
  obtain ms' fl' where g: "granted h ms raw h' ms' fl'" using kmalloc_ok [OF ok res] by blast
  have g': "heap_ok h' ms' fl'" "heap_storage h' = heap_storage h" "\<forall>x \<in> live h ms. bsize (blocks h' x) = bsize (blocks h x)"
    using g by (auto simp: granted_def)
  have "block_list h \<noteq> 0" using ok ne by (cases ms) (auto simp: heap_ok_def live_def)
  then have hm: "hmem h' = hmem h" by (rule kmalloc_hmem [OF res])
  have same: "extent (blocks h') x = extent (blocks h) x" if "x \<in> live h ms" for x using g'(3) that by (simp add: extent_def)
  show ?thesis
  proof (cases "raw = 0")
    case True
    then have "live h' ms' = live h ms" using g by (simp add: granted_def)
    then have "owns h' P" unfolding owns_def using g'(1) ne P same by (intro exI [of _ ms'] exI [of _ fl']) auto
    then show ?thesis using res hm g'(2) True by (simp add: paging_consts)
  next
    case False
    let ?b = "raw - 16" and ?q = "page_align raw"
    have lv: "live h' ms' = insert ?b (live h ms)" using g False by (simp add: granted_def SIZEOF_BLOCK_def)
    have sz: "8192 \<le> unat (bsize (blocks h' ?b))"
      using kmalloc_large [OF ok _ _ res False] by (simp add: word_le_nat_alt)
    have rng: "extent (blocks h') ?b \<subseteq> {unat (heap_storage h) ..< unat (heap_storage h) + 0x100000}"
      using heap_ok_extent [OF g'(1), of ?b] lv g'(2) by (auto simp: live_def all_blocks_def)
    have hs: "unat (heap_storage h) + 0x100000 < 2 ^ 32" using ok by (simp add: heap_ok_def)
    have "unat ?b + 16 + unat (bsize (blocks h' ?b)) \<le> unat (heap_storage h) + 0x100000"
    proof -
      have "unat ?b + 15 + unat (bsize (blocks h' ?b)) \<in> extent (blocks h') ?b" by (simp add: extent_def)
      then show ?thesis using rng by force
    qed
    then have b: "unat ?b + 16 + 8192 < 2 ^ 32" using sz hs by linarith
    have "?b + 16 = raw" by simp
    then have r: "unat raw = unat ?b + 16" using b unat_add_nowrap [of ?b 16] by simp
    note al = page_align_props [of raw, unfolded r, OF b]
    have "page_bytes (page_no ?q) \<subseteq> extent (blocks h') ?b"
      using al sz page_aligned_unat [OF al(1)] by (auto simp: page_bytes_def extent_def)
    moreover have "page_no ?q \<notin> P"
    proof
      assume "page_no ?q \<in> P"
      moreover have "4096 * page_no ?q \<in> page_bytes (page_no ?q)" by (simp add: page_bytes_def)
      ultimately obtain x where "x \<in> live h ms" "4096 * page_no ?q \<in> extent (blocks h) x" using P by blast
      then show False using granted_disjoint [OF g False, of x] \<open>page_bytes (page_no ?q) \<subseteq> _\<close>
        \<open>4096 * page_no ?q \<in> page_bytes (page_no ?q)\<close> by (auto simp: SIZEOF_BLOCK_def)
    qed
    moreover have "owns h' (insert (page_no ?q) P)"
      unfolding owns_def using g'(1) lv P same calculation(1) by (intro exI [of _ ms'] exI [of _ fl']) fastforce
    ultimately show ?thesis using res hm g'(2) False al(1) by (simp add: paging_consts)
  qed
qed

section \<open>Well-formed address spaces\<close>

text \<open>The heap lies in the kernel's window on physical memory, below the frames of the frame allocator.\<close>

definition low_heap :: "heap_t \<Rightarrow> bool" where
  "low_heap h \<longleftrightarrow> 0xC0000000 < unat (heap_storage h) \<and> unat (heap_storage h) + 0x100000 \<le> 0xC0200000"

definition table_of :: "u32 \<Rightarrow> u32" where "table_of e = paging_virt_addr (e AND 0xFFFFF000)"

definition pde_present :: "memory \<Rightarrow> u32 \<Rightarrow> u32 \<Rightarrow> bool" where
  "pde_present m pd i \<longleftrightarrow> entry_at m pd i AND PAGING_FLAG_PRESENT \<noteq> 0"

text \<open>
  The directory at \<open>pd\<close> and the tables its entries for user addresses point to are different pages among
  \<open>P\<close>; those entries are no 4 MiB pages and allow writing.
\<close>

definition tables_ok :: "memory \<Rightarrow> u32 \<Rightarrow> nat set \<Rightarrow> bool" where
  "tables_ok m pd P \<longleftrightarrow>
     (\<forall>i < 768. entry_at m pd i AND PAGING_FLAG_PS = 0) \<and>
     (\<forall>i < 768. pde_present m pd i \<longrightarrow>
        entry_at m pd i AND PAGING_FLAG_WRITABLE \<noteq> 0 \<and>
        page_no (table_of (entry_at m pd i)) \<in> P \<and> table_of (entry_at m pd i) \<noteq> pd) \<and>
     (\<forall>i < 768. \<forall>j < 768. pde_present m pd i \<longrightarrow> pde_present m pd j \<longrightarrow>
        table_of (entry_at m pd i) = table_of (entry_at m pd j) \<longrightarrow> i = j)"

definition space_ok :: "heap_t \<Rightarrow> u32 \<Rightarrow> nat set \<Rightarrow> bool" where
  "space_ok h pd P \<longleftrightarrow> owns h P \<and> low_heap h \<and> page_aligned pd \<and> page_no pd \<in> P \<and> tables_ok (hmem h) pd P"

lemma table_of_aligned [simp]: "page_aligned (table_of e)"
  by (simp add: table_of_def page_aligned_offset page_aligned_mask)

lemma owned_nonzero:
  assumes "owns h P" and "low_heap h" and "page_no a \<in> P"
  shows "a \<noteq> 0" "page_no a < page_no 0xC0200000" "page_no 0xC0000000 \<le> page_no a" "a \<noteq> 0xC0000000"
proof -
  have r: "page_bytes (page_no a) \<subseteq> {unat (heap_storage h) ..< unat (heap_storage h) + 0x100000}"
    by (rule owns_range [OF assms(1,3)])
  have "4096 * page_no a \<in> page_bytes (page_no a)" by (simp add: page_bytes_def)
  then have b: "unat (heap_storage h) \<le> 4096 * page_no a" "4096 * page_no a < unat (heap_storage h) + 0x100000"
    using r by auto
  have c: "page_no 0xC0000000 = 0xC0000" "page_no 0xC0200000 = 0xC0200" by (simp_all add: page_no_def)
  show "page_no a < page_no 0xC0200000" "page_no 0xC0000000 \<le> page_no a" using b assms(2) unfolding c by (auto simp: low_heap_def)
  have "page_no a \<noteq> page_no 0xC0000000" using b assms(2) unfolding c by (auto simp: low_heap_def)
  then show "a \<noteq> 0xC0000000" by auto
  show "a \<noteq> 0" using b assms(2) by (auto simp: low_heap_def page_no_def)
qed

text \<open>The processor's walk through such a directory.\<close>

lemma pde_idx_user: "v < 0xC0000000 \<Longrightarrow> pde_idx v < 768"
  using idx_unat(1) [of v] by (simp add: word_less_nat_alt page_no_def less_mult_imp_div_less)

lemma cr3_of_pd: "page_aligned pd \<Longrightarrow> paging_virt_addr (paging_phys_addr pd AND 0xFFFFF000) = pd"
  using entry_fields(1) [of "paging_phys_addr pd" 0] by (simp add: page_aligned_offset)

lemma mmu_walk:
  assumes "tables_ok m pd P" and "page_aligned pd" and "v < 0xC0000000"
  shows "mmu m (paging_phys_addr pd) v =
    (let pde = entry_at m pd (pde_idx v); pte = entry_at m (table_of pde) (pte_idx v) in
     if pde AND 1 = 0 \<or> pte AND 1 = 0 then None
     else Some ((pte AND 0xFFFFF000) OR (v AND 0xFFF), pde AND 4 \<noteq> 0 \<and> pte AND 4 \<noteq> 0, pte AND 2 \<noteq> 0))"
proof -
  have i: "pde_idx v < 768" by (rule pde_idx_user [OF assms(3)])
  show ?thesis
    using assms(1) i cr3_of_pd [OF assms(2)]
    by (auto simp: mmu_def tables_ok_def pde_present_def table_of_def Let_def paging_consts)
qed

text \<open>Small flag sets.\<close>

lemma flags_small:
  assumes "(f :: u32) AND NOT 7 = 0"
  shows "f \<in> {0, 1, 2, 3, 4, 5, 6, 7}"
proof -
  have "(7 :: u32) = mask 3" by (simp add: mask_eq_exp_minus_1)
  then have "f AND 7 = take_bit 3 f" by (simp only: take_bit_eq_mask)
  moreover have "f = f AND 7" using assms word_and_not_minus [of f 7] by simp
  ultimately have "unat f = unat (take_bit 3 f)" by simp
  then have "unat f = unat f mod 8" by (simp add: unat_take_bit_mod)
  then have "unat f < 8" by (metis mod_less_divisor zero_less_numeral)
  then have "unat f \<in> {0, 1, 2, 3, 4, 5, 6, 7}" by auto
  then show ?thesis by (auto simp: word_unat_eq_iff)
qed

section \<open>Mapping\<close>

text \<open>What mapping keeps: the space stays well formed, memory off its tables and the translations.\<close>

definition grows :: "u32 \<Rightarrow> heap_t \<Rightarrow> nat set \<Rightarrow> heap_t \<Rightarrow> nat set \<Rightarrow> bool" where
  "grows pd h P h' P' \<longleftrightarrow> space_ok h' pd P' \<and> P \<subseteq> P' \<and> heap_storage h' = heap_storage h \<and>
     (\<forall>a. page_no a \<notin> P' \<longrightarrow> hmem h' a = hmem h a)"

definition same_walk :: "u32 \<Rightarrow> heap_t \<Rightarrow> heap_t \<Rightarrow> bool" where
  "same_walk pd h h' \<longleftrightarrow> (\<forall>x < 0xC0000000. mmu (hmem h') (paging_phys_addr pd) x = mmu (hmem h) (paging_phys_addr pd) x)"

lemma new_table:
  assumes ok: "tables_ok m pd P" and pd: "page_aligned pd" "page_no pd \<in> P" and i: "i < 768" "\<not> pde_present m pd i"
    and pt: "page_aligned pt" "page_no pt \<notin> P" and f: "f \<in> {0, 4}"
    and m': "m' = set_entry pd i (paging_phys_addr pt OR 1 OR 2 OR f) (clear_table pt m)"
  shows "tables_ok m' pd (insert (page_no pt) P)" "\<forall>a. page_no a \<notin> insert (page_no pt) P \<longrightarrow> m' a = m a"
    "entry_at m' pd i = paging_phys_addr pt OR 1 OR 2 OR f" "entry_at m' pd i AND 1 \<noteq> 0" "entry_at m' pd i AND 4 = f"
    "\<forall>x < 0xC0000000. mmu m' (paging_phys_addr pd) x = mmu m (paging_phys_addr pd) x"
proof -
  let ?v = "paging_phys_addr pt OR 1 OR 2 OR f"
  have lt: "j < 1024" if "j < 768" for j :: u32 using that by (simp add: word_less_nat_alt)
  have ne: "pt \<noteq> pd" using pd(2) pt(2) by auto
  have E: "entry_at m' t j = (if t = pd \<and> j = i then ?v else if t = pt then 0 else entry_at m t j)"
    if "page_aligned t" "j < 1024" for t j
    unfolding m' using entry_at_set_entry [OF pd(1) lt [OF i(1)] that] clear_table_entry [OF pt(1) that] ne by auto
  note F = entry_fields [of "paging_phys_addr pt" "1 OR 2 OR f"]
  have v: "?v AND 0xFFFFF000 = paging_phys_addr pt" "?v AND 1 \<noteq> 0" "?v AND 4 = f" "?v AND 2 \<noteq> 0" "?v AND 0x80 = 0"
    using F pt(1) f by (auto simp: page_aligned_offset or.assoc)
  have tv: "table_of ?v = pt" by (simp add: table_of_def v(1))
  show e: "entry_at m' pd i = ?v" using E [OF pd(1) lt [OF i(1)]] by simp
  show "entry_at m' pd i AND 1 \<noteq> 0" "entry_at m' pd i AND 4 = f" using v unfolding e by auto
  have old: "entry_at m' pd j = entry_at m pd j" if "j < 768" "j \<noteq> i" for j using E [OF pd(1) lt [OF that(1)]] that ne by simp
  have tab: "page_no (table_of (entry_at m pd j)) \<in> P" "table_of (entry_at m pd j) \<noteq> pd" "table_of (entry_at m pd j) \<noteq> pt"
    if "j < 768" "pde_present m pd j" for j
    using ok that pt(2) by (auto simp: tables_ok_def)
  show "tables_ok m' pd (insert (page_no pt) P)"
    unfolding tables_ok_def
  proof (intro conjI allI impI)
    fix j :: u32 assume j: "j < 768"
    show "entry_at m' pd j AND PAGING_FLAG_PS = 0"
      using ok j old [OF j] v(5) e by (cases "j = i") (auto simp: tables_ok_def paging_consts)
    assume p: "pde_present m' pd j"
    show "entry_at m' pd j AND PAGING_FLAG_WRITABLE \<noteq> 0" "page_no (table_of (entry_at m' pd j)) \<in> insert (page_no pt) P"
        "table_of (entry_at m' pd j) \<noteq> pd"
      using ok j old [OF j] v(4) e p tv ne tab [OF j] by (cases "j = i"; auto simp: tables_ok_def pde_present_def paging_consts)+
    fix k :: u32 assume k: "k < 768" "pde_present m' pd k"
    assume eq: "table_of (entry_at m' pd j) = table_of (entry_at m' pd k)"
    have other: "table_of (entry_at m' pd l) \<noteq> pt" if "l < 768" "pde_present m' pd l" "l \<noteq> i" for l
      using tab(3) [OF that(1)] that(2) old [OF that(1,3)] by (simp add: pde_present_def)
    have one: "table_of (entry_at m' pd i) = pt" by (simp add: e tv)
    have inj: "j = k" if "j \<noteq> i" "k \<noteq> i"
    proof -
      have "pde_present m pd j" "pde_present m pd k" "table_of (entry_at m pd j) = table_of (entry_at m pd k)"
        using p k(2) eq old [OF j that(1)] old [OF k(1) that(2)] by (simp_all add: pde_present_def)
      then show ?thesis using ok j k(1) unfolding tables_ok_def by blast
    qed
    show "j = k" using inj other [OF j p] other [OF k] one eq by metis
  qed
  note ok' = this
  show "\<forall>a. page_no a \<notin> insert (page_no pt) P \<longrightarrow> m' a = m a"
  proof (intro allI impI)
    fix a assume a: "page_no a \<notin> insert (page_no pt) P"
    then have "page_no a \<noteq> page_no pd" using pd(2) by auto
    then show "m' a = m a" using a by (simp add: m' set_entry_outside [OF pd(1) lt [OF i(1)]] clear_table_outside [OF pt(1)])
  qed
  show "\<forall>x < 0xC0000000. mmu m' (paging_phys_addr pd) x = mmu m (paging_phys_addr pd) x"
  proof (intro allI impI)
    fix x :: u32 assume x: "x < 0xC0000000"
    have ix: "pde_idx x < 768" by (rule pde_idx_user [OF x])
    show "mmu m' (paging_phys_addr pd) x = mmu m (paging_phys_addr pd) x"
    proof (cases "pde_idx x = i")
      case True
      then have "entry_at m' (table_of ?v) (pte_idx x) = 0" unfolding tv using E [OF pt(1) idx_less(2)] ne by simp
      then show ?thesis unfolding mmu_walk [OF ok' pd(1) x] mmu_walk [OF ok pd(1) x]
        using True i(2) e by (simp add: pde_present_def paging_consts)
    next
      case False
      have "entry_at m' (table_of (entry_at m pd (pde_idx x))) (pte_idx x) = entry_at m (table_of (entry_at m pd (pde_idx x))) (pte_idx x)"
        if "pde_present m pd (pde_idx x)"
        using E [OF table_of_aligned idx_less(2)] tab [OF ix that] by simp
      then show ?thesis unfolding mmu_walk [OF ok' pd(1) x] mmu_walk [OF ok pd(1) x]
        using old [OF ix False] by (auto simp: pde_present_def paging_consts Let_def)
    qed
  qed
qed

text \<open>Why a mapping may be refused: no memory for a table, or a table that is there is not for user code.\<close>

definition refused :: "u32 \<Rightarrow> u32 \<Rightarrow> u32 \<Rightarrow> heap_t \<Rightarrow> bool" where
  "refused pd i flags h \<longleftrightarrow>
     (if pde_present (hmem h) pd i then flags AND PAGING_FLAG_USER \<noteq> 0 \<and> entry_at (hmem h) pd i AND PAGING_FLAG_USER = 0
      else \<exists>h1. kmalloc (PAGING_PAGE_SIZE * 2) h = Some (0, h1))"

lemma map_table_ok:
  assumes sp: "space_ok h pd P" and i: "i < 768" and f: "flags \<in> {0, 2, 4, 6}"
  shows "\<exists>r h1 P1. map_table pd i flags h = Some (r, h1) \<and> grows pd h P h1 P1 \<and> same_walk pd h h1 \<and>
    (\<forall>e. r = Some e \<longrightarrow> e = entry_at (hmem h1) pd i \<and> e AND 1 \<noteq> 0 \<and> (flags AND 4 \<noteq> 0 \<longrightarrow> e AND 4 \<noteq> 0)) \<and>
    (r = None \<longrightarrow> refused pd i flags h)"
proof (cases "pde_present (hmem h) pd i")
  case True
  have "grows pd h P h P" "same_walk pd h h" using sp by (simp_all add: grows_def same_walk_def)
  then show ?thesis using True by (auto simp: map_table_def refused_def pde_present_def paging_consts Let_def)
next
  case False
  note s = sp [unfolded space_ok_def]
  obtain raw h1 where k: "kmalloc (PAGING_PAGE_SIZE * 2) h = Some (raw, h1)" "hmem h1 = hmem h" "heap_storage h1 = heap_storage h"
    "if raw = 0 then owns h1 P
     else page_aligned (page_align raw) \<and> page_no (page_align raw) \<notin> P \<and> owns h1 (insert (page_no (page_align raw)) P)"
    using kmalloc_page [of h P] s by blast
  have low: "low_heap h1" using s k(3) by (simp add: low_heap_def)
  show ?thesis
  proof (cases "raw = 0")
    case True
    then have "space_ok h1 pd P" using k s low by (simp add: space_ok_def)
    then have "grows pd h P h1 P" "same_walk pd h h1" using k by (simp_all add: grows_def same_walk_def)
    moreover have "map_table pd i flags h = Some (None, h1)"
      using k(1) True False by (simp add: map_table_def pde_present_def Let_def)
    moreover have "refused pd i flags h" using k(1) True False by (auto simp: refused_def)
    ultimately show ?thesis by blast
  next
    case nz: False
    let ?pt = "page_align raw" and ?P = "insert (page_no (page_align raw)) P"
    define m2 where "m2 = set_entry pd i (paging_phys_addr ?pt OR 1 OR 2 OR (flags AND 4)) (clear_table ?pt (hmem h))"
    have pt: "page_aligned ?pt" "page_no ?pt \<notin> P" "owns h1 ?P" using k(4) nz by simp_all
    have f4: "flags AND 4 \<in> {0, 4}" using f by auto
    have tp: "tables_ok (hmem h) pd P" "page_aligned pd" "page_no pd \<in> P" using s by auto
    note N = new_table [OF tp i False pt(1,2) f4 m2_def]
    have "map_table pd i flags h = Some (Some (entry_at m2 pd i), h1\<lparr>hmem := m2\<rparr>)"
      using k(1,2) nz False by (simp add: map_table_def pde_present_def Let_def m2_def paging_consts)
    moreover have "space_ok (h1\<lparr>hmem := m2\<rparr>) pd ?P"
      using N(1) pt(3) low s by (simp add: space_ok_def owns_hmem low_heap_def)
    then have "grows pd h P (h1\<lparr>hmem := m2\<rparr>) ?P" "same_walk pd h (h1\<lparr>hmem := m2\<rparr>)"
      using N(2,6) k(2,3) by (auto simp: grows_def same_walk_def)
    ultimately show ?thesis using N(4,5) by (intro exI conjI) auto
  qed
qed

text \<open>The last step: the entry of the page in its table.\<close>

lemma set_pte:
  assumes ok: "tables_ok m pd P" and pd: "page_aligned pd" "page_no pd \<in> P" and v: "v < 0xC0000000"
    and e: "e = entry_at m pd (pde_idx v)" "e AND 1 \<noteq> 0"
    and m': "m' = set_entry (table_of e) (pte_idx v) w m"
  shows "tables_ok m' pd P" "\<forall>a. page_no a \<notin> P \<longrightarrow> m' a = m a"
    "\<forall>x < 0xC0000000. mmu m' (paging_phys_addr pd) x =
      (if page_no x = page_no v
       then (if w AND 1 = 0 then None else Some ((w AND 0xFFFFF000) OR (x AND 0xFFF), e AND 4 \<noteq> 0 \<and> w AND 4 \<noteq> 0, w AND 2 \<noteq> 0))
       else mmu m (paging_phys_addr pd) x)"
proof -
  let ?t = "table_of e"
  have iv: "pde_idx v < 768" by (rule pde_idx_user [OF v])
  have pv: "pde_present m pd (pde_idx v)" using e by (simp add: pde_present_def paging_consts)
  have t: "page_no ?t \<in> P" "?t \<noteq> pd" using ok iv pv e by (auto simp: tables_ok_def)
  have E: "entry_at m' t j = (if t = ?t \<and> j = pte_idx v then w else entry_at m t j)" if "page_aligned t" "j < 1024" for t j
    unfolding m' using entry_at_set_entry [OF table_of_aligned idx_less(2) that] by auto
  have D: "entry_at m' pd j = entry_at m pd j" if "j < 768" for j
  proof -
    have "j < 1024" using that by (simp add: word_less_nat_alt)
    then show ?thesis using E [OF pd(1)] t(2) by simp
  qed
  show ok': "tables_ok m' pd P" using ok D by (simp add: tables_ok_def pde_present_def)
  show "\<forall>a. page_no a \<notin> P \<longrightarrow> m' a = m a"
    using set_entry_outside [OF table_of_aligned idx_less(2)] t(1) unfolding m' by metis
  show "\<forall>x < 0xC0000000. mmu m' (paging_phys_addr pd) x =
      (if page_no x = page_no v
       then (if w AND 1 = 0 then None else Some ((w AND 0xFFFFF000) OR (x AND 0xFFF), e AND 4 \<noteq> 0 \<and> w AND 4 \<noteq> 0, w AND 2 \<noteq> 0))
       else mmu m (paging_phys_addr pd) x)"
  proof (intro allI impI)
    fix x :: u32 assume x: "x < 0xC0000000"
    let ?e = "entry_at m pd (pde_idx x)"
    have ix: "pde_idx x < 768" by (rule pde_idx_user [OF x])
    have one: "?e AND 1 \<noteq> 0 \<Longrightarrow> (table_of ?e = ?t) = (pde_idx x = pde_idx v)"
      using ok ix iv pv e by (auto simp: tables_ok_def pde_present_def paging_consts)
    have pte: "entry_at m' (table_of ?e) (pte_idx x) =
      (if table_of ?e = ?t \<and> pte_idx x = pte_idx v then w else entry_at m (table_of ?e) (pte_idx x))"
      by (rule E [OF table_of_aligned idx_less(2)])
    show "mmu m' (paging_phys_addr pd) x =
      (if page_no x = page_no v
       then (if w AND 1 = 0 then None else Some ((w AND 0xFFFFF000) OR (x AND 0xFFF), e AND 4 \<noteq> 0 \<and> w AND 4 \<noteq> 0, w AND 2 \<noteq> 0))
       else mmu m (paging_phys_addr pd) x)"
      unfolding mmu_walk [OF ok' pd(1) x] mmu_walk [OF ok pd(1) x] D [OF ix] pte idx_eq [symmetric] Let_def
      using e one by (cases "?e AND 1 = 0"; cases "pde_idx x = pde_idx v"; cases "pte_idx x = pte_idx v") auto
  qed
qed

end
