(* ===== verification/Paging_Props.thy ===== *)
theory Paging_Props
  imports Paging_Space
begin

text \<open>
  Properties of address spaces: mapping a page, creating a directory, validation of user ranges and the
  checked copies.
\<close>

section \<open>Mapping a page\<close>

lemma map_page_ok:
  assumes sp: "space_ok h pd P" and v: "v < 0xC0000000" "page_aligned v" and p: "page_aligned p"
    and f: "flags AND NOT 7 = 0"
  shows "\<exists>r h' P'. paging_map_page pd v p flags h = Some (r, h') \<and> grows pd h P h' P' \<and>
    (\<forall>x < 0xC0000000. mmu (hmem h') (paging_phys_addr pd) x =
      (if r \<and> page_no x = page_no v then Some (p OR (x AND 0xFFF), flags AND 4 \<noteq> 0, flags AND 2 \<noteq> 0)
       else mmu (hmem h) (paging_phys_addr pd) x)) \<and>
    (r \<noteq> refused pd (pde_idx v) (flags AND NOT 1) h)"
proof -
  note s = sp [unfolded space_ok_def]
  define g where "g = flags AND NOT 1"
  have fl: "flags \<in> {0, 1, 2, 3, 4, 5, 6, 7}" by (rule flags_small [OF f])
  then have g: "g \<in> {0, 2, 4, 6}" by (auto simp: g_def)
  have iv: "pde_idx v < 768" by (rule pde_idx_user [OF v(1)])
  obtain r h1 P1 where mt: "map_table pd (pde_idx v) g h = Some (r, h1)" "grows pd h P h1 P1" "same_walk pd h h1"
    "\<And>e. r = Some e \<Longrightarrow> e = entry_at (hmem h1) pd (pde_idx v) \<and> e AND 1 \<noteq> 0 \<and> (g AND 4 \<noteq> 0 \<longrightarrow> e AND 4 \<noteq> 0)"
    "r = None \<longrightarrow> refused pd (pde_idx v) g h"
    using map_table_ok [OF sp iv g] by blast
  have s1: "owns h1 P1" "low_heap h1" "page_aligned pd" "page_no pd \<in> P1" "tables_ok (hmem h1) pd P1"
    using mt(2) by (auto simp: grows_def space_ok_def)
  have ps: "entry_at (hmem h) pd (pde_idx v) AND PAGING_FLAG_PS = 0" using s iv by (auto simp: tables_ok_def)
  have pd0: "pd \<noteq> 0" using owned_nonzero(1) [of h P pd] s by blast
  have al: "v AND (PAGING_PAGE_SIZE - 1) = 0" "p AND (PAGING_PAGE_SIZE - 1) = 0"
    using v(2) p by (simp_all add: page_aligned_and paging_consts)
  have head: "paging_map_page pd v p flags h =
     (case r of None \<Rightarrow> Some (False, h1)
      | Some e \<Rightarrow> if e AND PAGING_FLAG_PS \<noteq> 0 then Some (False, h1)
          else if e AND 0xFFFFF000 = 0 then Some (False, h1)
          else Some (True, h1\<lparr>hmem := set_entry (table_of e) (pte_idx v) ((p AND 0xFFFFF000) OR g OR 1) (hmem h1)\<rparr>))"
    using pd0 al ps f mt(1) by (cases r) (simp_all add: paging_map_page_def paging_consts g_def table_of_def Let_def)
  show ?thesis
  proof (cases r)
    case None
    then show ?thesis using head mt(2,3,5) by (auto simp: same_walk_def g_def)
  next
    case (Some e)
    note e = mt(4) [OF Some]
    let ?w = "p OR (g OR 1)"
    have pm: "p AND 0xFFFFF000 = p" using entry_fields(1) [OF p, of 0] by simp
    have nps: "e AND PAGING_FLAG_PS = 0" using s1(5) iv e by (auto simp: tables_ok_def)
    have tP: "page_no (table_of e) \<in> P1" using s1(5) iv e by (auto simp: tables_ok_def pde_present_def paging_consts)
    have nz: "e AND 0xFFFFF000 \<noteq> 0"
      using owned_nonzero(4) [OF s1(1,2) tP] by (auto simp: table_of_def paging_virt_addr_def paging_consts)
    have gm: "(g OR 1) AND 0xFFFFF000 = 0" using g by auto
    have w: "?w AND 0xFFFFF000 = p" "?w AND 1 \<noteq> 0" "(?w AND 4 \<noteq> 0) = (flags AND 4 \<noteq> 0)" "(?w AND 2 \<noteq> 0) = (flags AND 2 \<noteq> 0)"
      using entry_fields [OF p gm] fl by (auto simp: g_def)
    define m' where "m' = set_entry (table_of e) (pte_idx v) ?w (hmem h1)"
    note S = set_pte [OF s1(5,3,4) v(1) conjunct1 [OF e] conjunct1 [OF conjunct2 [OF e]] m'_def]
    have res: "paging_map_page pd v p flags h = Some (True, h1\<lparr>hmem := m'\<rparr>)"
      using head Some nps nz pm by (simp add: m'_def or.assoc)
    have "space_ok (h1\<lparr>hmem := m'\<rparr>) pd P1" using s1 S(1) by (simp add: space_ok_def owns_hmem low_heap_def)
    then have gr: "grows pd h P (h1\<lparr>hmem := m'\<rparr>) P1" using mt(2) S(2) by (auto simp: grows_def)
    have e4: "(e AND 4 \<noteq> 0 \<and> flags AND 4 \<noteq> 0) = (flags AND 4 \<noteq> 0)" using e fl by (auto simp: g_def)
    have nr: "\<not> refused pd (pde_idx v) g h"
    proof
      assume "refused pd (pde_idx v) g h"
      then have "r = None" using mt(1) ps by (auto simp: refused_def map_table_def pde_present_def Let_def split: if_splits)
      then show False using Some by simp
    qed
    have "mmu m' (paging_phys_addr pd) x =
      (if page_no x = page_no v then Some (p OR (x AND 0xFFF), flags AND 4 \<noteq> 0, flags AND 2 \<noteq> 0)
       else mmu (hmem h) (paging_phys_addr pd) x)" if "x < 0xC0000000" for x
      using S(3) that w e4 mt(3) by (simp add: same_walk_def)
    then show ?thesis using res gr nr by (intro exI [of _ True] exI [of _ "h1\<lparr>hmem := m'\<rparr>"] exI [of _ P1]) (simp add: g_def)
  qed
qed

section \<open>Creating a directory\<close>

lemma pde_idx_kernel: "\<not> v < 0xC0000000 \<Longrightarrow> 768 \<le> unat (pde_idx v)"
  unfolding idx_unat(1) by (simp add: word_less_nat_alt page_no_def not_less div_le_mono [of 3221225472 "unat v" 4194304, simplified] div_mult2_eq [symmetric])

text \<open>A new directory at \<open>pd\<close>, beside the pages \<open>P\<close> in use.\<close>

definition fresh_pd :: "u32 \<Rightarrow> heap_t \<Rightarrow> nat set \<Rightarrow> u32 \<Rightarrow> heap_t \<Rightarrow> bool" where
  "fresh_pd kpd h P pd h' \<longleftrightarrow>
     page_no pd \<notin> P \<and> space_ok h' pd (insert (page_no pd) P) \<and>
     (\<forall>a. page_no a \<noteq> page_no pd \<longrightarrow> hmem h' a = hmem h a) \<and>
     (\<forall>i < 768. entry_at (hmem h') pd i = 0) \<and>
     (\<forall>x. mmu (hmem h') (paging_phys_addr pd) x =
        (if x < 0xC0000000 then None else map_option (\<lambda>(p, u, w). (p, False, w)) (mmu (hmem h') (paging_phys_addr kpd) x)))"

lemma create_pd_ok:
  assumes own: "owns h P" "low_heap h" and k: "page_aligned kpd"
    and kh: "unat kpd + 4096 \<le> unat (heap_storage h) \<or> unat (heap_storage h) + 0x100000 \<le> unat kpd"
  shows "\<exists>pd h'. paging_create_pd kpd h = Some (pd, h') \<and> heap_storage h' = heap_storage h \<and>
    (pd = 0 \<longrightarrow> owns h' P \<and> hmem h' = hmem h) \<and> (pd \<noteq> 0 \<longrightarrow> fresh_pd kpd h P pd h')"
proof -
  obtain raw h1 where km: "kmalloc (PAGING_PAGE_SIZE * 2) h = Some (raw, h1)" "hmem h1 = hmem h" "heap_storage h1 = heap_storage h"
    "if raw = 0 then owns h1 P
     else page_aligned (page_align raw) \<and> page_no (page_align raw) \<notin> P \<and> owns h1 (insert (page_no (page_align raw)) P)"
    using kmalloc_page [OF own(1)] by blast
  show ?thesis
  proof (cases "raw = 0")
    case True
    then show ?thesis using km by (intro exI [of _ 0] exI [of _ h1]) (simp add: paging_create_pd_def)
  next
    case False
    let ?pd = "page_align raw" and ?m = "hmem h"
    have pd: "page_aligned ?pd" "page_no ?pd \<notin> P" "owns h1 (insert (page_no ?pd) P)" using km(4) False by simp_all
    have low: "low_heap h1" using own(2) km(3) by (simp add: low_heap_def)
    have pd0: "?pd \<noteq> 0" using owned_nonzero(1) [OF pd(3) low] by simp
    have kn: "page_no kpd \<noteq> page_no ?pd"
    proof
      assume e: "page_no kpd = page_no ?pd"
      have "page_bytes (page_no ?pd) \<subseteq> {unat (heap_storage h) ..< unat (heap_storage h) + 0x100000}"
        using owns_range [OF pd(3)] km(3) by simp
      moreover have "unat kpd \<in> page_bytes (page_no ?pd)" using page_aligned_unat [OF k] e by (simp add: page_bytes_def)
      ultimately show False using kh by auto
    qed
    define m1 where "m1 = clear_table ?pd ?m"
    define m2 where "m2 = fold (\<lambda>i m. set_entry ?pd (word_of_nat i) (entry_at m kpd (word_of_nat i) AND NOT PAGING_FLAG_USER) m) [768 ..< 1024] m1"
    have a1: "agree_off ?pd m1 ?m" using clear_table_outside [OF pd(1)] by (simp add: agree_off_def m1_def)
    have step: "entry_at m kpd (word_of_nat i) AND NOT PAGING_FLAG_USER = entry_at ?m kpd (word_of_nat i) AND NOT 4"
      if "i \<in> set [768 ..< 1024]" "agree_off ?pd m ?m" for i m
    proof -
      have "i < 1024" using that(1) unfolding set_upt by simp
      then have "entry_at m kpd (word_of_nat i) = entry_at ?m kpd (word_of_nat i)"
        by (rule entry_at_agree [OF that(2) k less_1024_of_nat kn])
      then show ?thesis by (simp add: paging_consts)
    qed
    have F: "entry_at m2 ?pd i = (if 768 \<le> unat i then entry_at ?m kpd i AND NOT 4 else 0)" "agree_off ?pd m2 ?m"
      if "i < 1024" for i :: u32
    proof -
      have ui: "unat i < 1024" using that by (simp add: word_less_nat_alt)
      have "entry_at m2 ?pd i = (if ?pd = ?pd \<and> unat i \<in> set [768 ..< 1024] then entry_at ?m kpd (word_of_nat (unat i)) AND NOT 4
          else entry_at m1 ?pd i) \<and> agree_off ?pd m2 ?m"
        unfolding m2_def
      proof (rule fold_set_entry [OF pd(1) pd(1) that _ _ step a1])
        show "\<forall>i \<in> set [768 ..< 1024 :: nat]. i < 1024" unfolding set_upt by simp
        show "distinct [768 ..< 1024 :: nat]" by (rule distinct_upt)
      qed
      then show "entry_at m2 ?pd i = (if 768 \<le> unat i then entry_at ?m kpd i AND NOT 4 else 0)" "agree_off ?pd m2 ?m"
        using clear_table_entry [OF pd(1) pd(1) that] ui unfolding set_upt by (auto simp: m1_def)
    qed
    have ag: "agree_off ?pd m2 ?m" by (rule F(2) [of 0]) simp
    have Z: "entry_at m2 ?pd i = 0" if "i < 768" for i :: u32
      using F(1) [of i] that by (simp add: word_less_nat_alt)
    have tok: "tables_ok m2 ?pd (insert (page_no ?pd) P)" using Z by (simp add: tables_ok_def pde_present_def)
    have res: "paging_create_pd kpd h = Some (?pd, h1\<lparr>hmem := m2\<rparr>)"
      using km(1,2) False by (simp add: paging_create_pd_def m2_def m1_def Let_def PAGING_PDE_HIGHER_def PAGING_PDE_COUNT_def
        del: upt_rec_numeral)
    have sp: "space_ok (h1\<lparr>hmem := m2\<rparr>) ?pd (insert (page_no ?pd) P)"
      using pd tok low by (simp add: space_ok_def owns_hmem low_heap_def)
    have W: "mmu m2 (paging_phys_addr ?pd) x =
        (if x < 0xC0000000 then None else map_option (\<lambda>(p, u, w). (p, False, w)) (mmu m2 (paging_phys_addr kpd) x))" for x
    proof (cases "x < 0xC0000000")
      case True
      then show ?thesis using mmu_walk [OF tok pd(1) True] Z [OF pde_idx_user [OF True]] by simp
    next
      case False
      have "entry_at m2 ?pd (pde_idx x) = entry_at m2 kpd (pde_idx x) AND NOT 4"
        using F(1) [OF idx_less(1), of x] pde_idx_kernel [OF False] entry_at_agree [OF ag k idx_less(1) kn, of x] by simp
      then show ?thesis using False
        by (simp add: mmu_def cr3_of_pd [OF pd(1)] cr3_of_pd [OF k] and.assoc Let_def paging_consts)
    qed
    have out: "\<forall>a. page_no a \<noteq> page_no ?pd \<longrightarrow> m2 a = ?m a" using ag by (simp add: agree_off_def)
    show ?thesis
      using res pd0 km(3) pd(2) sp Z W out by (intro exI [of _ ?pd] exI [of _ "h1\<lparr>hmem := m2\<rparr>"]) (simp add: fresh_pd_def)
  qed
qed

end
