(* ===== verification/Paging_Copy.thy ===== *)
theory Paging_Copy
  imports Paging_Props
begin

text \<open>
  The checks of user ranges and the copies between kernel and user memory: the check is exact, and the
  copies that pass it cause no page fault and move exactly the bytes of the range.
\<close>

section \<open>Validation\<close>

text \<open>
  What user code may do with address \<open>x\<close>, as the processor decides it, and the two cases that the check
  refuses on top: 4 MiB pages, and a table at physical address 0.
\<close>

definition user_ok :: "memory \<Rightarrow> u32 \<Rightarrow> bool \<Rightarrow> u32 \<Rightarrow> bool" where
  "user_ok m cr3 wr x \<longleftrightarrow> (\<exists>p w. mmu m cr3 x = Some (p, True, w) \<and> (wr \<longrightarrow> w))"

definition small_page :: "memory \<Rightarrow> u32 \<Rightarrow> u32 \<Rightarrow> bool" where
  "small_page m cr3 x \<longleftrightarrow>
     (let pde = entry_at m (paging_virt_addr (cr3 AND 0xFFFFF000)) (pde_idx x) in pde AND 0x80 = 0 \<and> pde AND 0xFFFFF000 \<noteq> 0)"

lemma current_pd: "paging_current_pd cr3 \<noteq> 0 \<Longrightarrow> paging_current_pd cr3 = paging_virt_addr (cr3 AND 0xFFFFF000)"
  by (auto simp: paging_current_pd_def paging_current_cr3_def split: if_splits)

lemma accessible_iff:
  assumes "paging_current_pd cr3 \<noteq> 0"
  shows "paging_user_page_accessible m (paging_current_pd cr3) x wr \<longleftrightarrow> user_ok m cr3 wr x \<and> small_page m cr3 x"
  using assms unfolding paging_user_page_accessible_def current_pd [OF assms]
  by (auto simp: user_ok_def small_page_def mmu_def Let_def paging_consts)

lemma accessible_page:
  assumes "page_no x = page_no y"
  shows "paging_user_page_accessible m pd x wr = paging_user_page_accessible m pd y wr"
proof -
  have "pde_idx x = pde_idx y" "pte_idx x = pte_idx y" using idx_eq [of x y] assms by auto
  then show ?thesis by (simp add: paging_user_page_accessible_def)
qed

lemma page_floor:
  "page_aligned (v AND NOT (PAGING_PAGE_SIZE - 1))" "page_no (v AND NOT (PAGING_PAGE_SIZE - 1)) = page_no v"
proof -
  have e: "v AND NOT (PAGING_PAGE_SIZE - 1) = v - (v AND 0xFFF)"
    unfolding word_and_not_minus by (simp add: paging_consts)
  have a: "unat (v AND 0xFFF) = unat v mod 4096" by (simp add: and_low_mask unat_take_bit_mod)
  have "unat (v - (v AND 0xFFF)) = unat v - unat v mod 4096" by (subst unat_sub_nowrap) (simp_all add: a)
  then have u: "unat (v AND NOT (PAGING_PAGE_SIZE - 1)) = 4096 * (unat v div 4096)" unfolding e by (simp add: minus_mod_eq_mult_div)
  show "page_aligned (v AND NOT (PAGING_PAGE_SIZE - 1))" unfolding page_aligned_def u by simp
  show "page_no (v AND NOT (PAGING_PAGE_SIZE - 1)) = page_no v" unfolding page_no_def u by simp
qed

lemma next_page:
  assumes "page_aligned p" and "Suc (page_no p) < 2 ^ 20"
  shows "page_aligned (p + PAGING_PAGE_SIZE)" "page_no (p + PAGING_PAGE_SIZE) = Suc (page_no p)"
proof -
  have u: "unat (p + PAGING_PAGE_SIZE) = 4096 * Suc (page_no p)"
    using assms page_aligned_unat [OF assms(1)] by (simp add: unat_add_nowrap paging_consts)
  then show "page_aligned (p + PAGING_PAGE_SIZE)" by (simp add: page_aligned_def)
  show "page_no (p + PAGING_PAGE_SIZE) = Suc (page_no p)" using u by (simp add: page_no_def)
qed

lemma validate_loop_all:
  assumes "page_aligned page" and "page_aligned lst" and "page_no page + n = page_no lst"
    and "\<And>x y. page_no x = page_no y \<Longrightarrow> acc x = acc y"
  shows "validate_loop acc page lst = Some (\<forall>x. page_no page \<le> page_no x \<and> page_no x \<le> page_no lst \<longrightarrow> acc x)"
  using assms(1,3)
proof (induction n arbitrary: page)
  case 0
  then have eq: "page = lst" using page_aligned_inj [OF 0(1) assms(2)] by simp
  have one: "validate_loop acc lst lst = Some (acc lst)" by (subst validate_loop.simps) simp
  have "acc lst = (\<forall>x. page_no lst \<le> page_no x \<and> page_no x \<le> page_no lst \<longrightarrow> acc x)"
    using assms(4) by (metis order_antisym order_refl)
  then show ?case unfolding eq one by simp
next
  case (Suc n)
  have ne: "page \<noteq> lst" using Suc.prems(2) by auto
  have less: "Suc (page_no page) < 2 ^ 20" using Suc.prems(2) page_no_less [of lst] by linarith
  note nx = next_page [OF Suc.prems(1) less]
  have IH: "validate_loop acc (page + PAGING_PAGE_SIZE) lst =
      Some (\<forall>x. page_no (page + PAGING_PAGE_SIZE) \<le> page_no x \<and> page_no x \<le> page_no lst \<longrightarrow> acc x)"
    by (rule Suc.IH [OF nx(1)]) (use Suc.prems(2) nx(2) in simp)
  have all: "(\<forall>x. page_no page \<le> page_no x \<and> page_no x \<le> page_no lst \<longrightarrow> acc x) \<longleftrightarrow>
    acc page \<and> (\<forall>x. Suc (page_no page) \<le> page_no x \<and> page_no x \<le> page_no lst \<longrightarrow> acc x)"
    using assms(4) [of _ page] Suc.prems(2) by (metis Suc_leI le_add1 le_neq_implies_less order_refl Suc_leD)
  have "validate_loop acc page lst = (if acc page then validate_loop acc (page + PAGING_PAGE_SIZE) lst else Some False)"
    using ne by (subst validate_loop.simps) simp
  then show ?case unfolding IH nx(2) all by simp
qed

text \<open>The range as a set of addresses.\<close>

definition user_range :: "memory \<Rightarrow> u32 \<Rightarrow> bool \<Rightarrow> u32 \<Rightarrow> u32 \<Rightarrow> bool" where
  "user_range m cr3 wr v len \<longleftrightarrow> len = 0 \<or>
     (0x1000 \<le> unat v \<and> unat v + unat len \<le> 0xC0000000 \<and> paging_current_pd cr3 \<noteq> 0 \<and>
      (\<forall>k < unat len. user_ok m cr3 wr (v + word_of_nat k) \<and> small_page m cr3 (v + word_of_nat k)))"

lemma unat_offset:
  assumes "unat (v :: u32) + k < 2 ^ 32"
  shows "unat (v + word_of_nat k) = unat v + k"
proof -
  have "unat (word_of_nat k :: u32) = k" using assms by (simp add: unat_of_nat)
  then show ?thesis using assms by (simp add: unat_add_nowrap)
qed

lemma pages_of_range:
  assumes len: "0 < unat len" "unat v + unat len \<le> 0xC0000000" and acc: "\<And>x y. page_no x = page_no y \<Longrightarrow> acc x = acc y"
  shows "(\<forall>x. page_no v \<le> page_no x \<and> page_no x \<le> page_no (v + len - 1) \<longrightarrow> acc x) =
    (\<forall>k < unat len. acc (v + word_of_nat k))"
proof -
  have le: "unat (v + len - 1) = unat v + unat len - 1"
  proof -
    have "unat (v + len) = unat v + unat len" using len by (intro unat_add_nowrap) simp
    then show ?thesis using len by (subst unat_sub_nowrap) simp_all
  qed
  show ?thesis
  proof (intro iffI allI impI)
    fix k assume all: "\<forall>x. page_no v \<le> page_no x \<and> page_no x \<le> page_no (v + len - 1) \<longrightarrow> acc x" and k: "k < unat len"
    have "unat (v + word_of_nat k) = unat v + k" using k len by (intro unat_offset) simp
    then have "page_no v \<le> page_no (v + word_of_nat k)" "page_no (v + word_of_nat k) \<le> page_no (v + len - 1)"
      using k le by (auto simp: page_no_def intro: div_le_mono)
    then show "acc (v + word_of_nat k)" using all by blast
  next
    fix x assume all: "\<forall>k < unat len. acc (v + word_of_nat k)" and x: "page_no v \<le> page_no x \<and> page_no x \<le> page_no (v + len - 1)"
    define k where "k = max (unat v) (4096 * page_no x) - unat v"
    have "4096 * page_no x \<le> unat v + unat len - 1" using x le by (simp add: page_no_def)
      (metis div_times_less_eq_dividend mult.commute order.trans mult_le_mono2)
    then have k: "k < unat len" "unat v + k = max (unat v) (4096 * page_no x)" using len by (auto simp: k_def)
    have u: "unat (v + word_of_nat k) = unat v + k" using k(1) len by (intro unat_offset) simp
    have "page_no (v + word_of_nat k) = page_no x"
    proof (cases "unat v \<le> 4096 * page_no x")
      case True
      then show ?thesis using u k(2) by (simp add: page_no_def)
    next
      case False
      then have "unat v div 4096 \<ge> page_no x" by simp
      then show ?thesis using False u k(2) x by (simp add: page_no_def)
    qed
    then show "acc x" using all k(1) acc by blast
  qed
qed

lemma validate_exact: "paging_validate_user_range cr3 m v len wr = Some (user_range m cr3 wr v len)"
proof (cases "len = 0 \<or> v < 0x1000 \<or> v \<ge> 0xC0000000 \<or> len > 0xC0000000 - v \<or> paging_current_pd cr3 = 0")
  case True
  have sub: "unat (0xC0000000 - v) = 0xC0000000 - unat v" if "v < 0xC0000000"
    using that by (subst unat_sub_nowrap) (simp_all add: word_less_nat_alt)
  have pos: "len \<noteq> 0 \<Longrightarrow> 0 < unat len" by (simp add: unat_gt_0)
  show ?thesis
    using True sub pos by (auto simp: paging_validate_user_range_def user_range_def paging_consts word_less_nat_alt word_le_nat_alt Let_def)
next
  case False
  have v: "0x1000 \<le> unat v" "unat v < 0xC0000000" "0 < unat len" using False by (auto simp: word_less_nat_alt word_le_nat_alt unat_gt_0)
  have sub: "unat (0xC0000000 - v) = 0xC0000000 - unat v" using v by (subst unat_sub_nowrap) simp_all
  have l: "unat v + unat len \<le> 0xC0000000" using False v sub by (auto simp: word_less_nat_alt word_le_nat_alt)
  let ?pd = "paging_current_pd cr3" and ?acc = "\<lambda>x. paging_user_page_accessible m (paging_current_pd cr3) x wr"
  have pd: "?pd \<noteq> 0" using False by simp
  have acc: "\<And>x y. page_no x = page_no y \<Longrightarrow> ?acc x = ?acc y" by (rule accessible_page)
  have "page_no v \<le> page_no (v + len - 1)"
  proof -
    have "unat (v + len) = unat v + unat len" using l by (intro unat_add_nowrap) simp
    then have "unat (v + len - 1) = unat v + unat len - 1" using v by (subst unat_sub_nowrap) simp_all
    then show ?thesis using v(3) by (auto simp: page_no_def intro: div_le_mono)
  qed
  then obtain n where n: "page_no v + n = page_no (v + len - 1)" by (auto simp: le_iff_add)
  have "paging_validate_user_range cr3 m v len wr =
    validate_loop ?acc (v AND NOT (PAGING_PAGE_SIZE - 1)) ((v + len - 1) AND NOT (PAGING_PAGE_SIZE - 1))"
    using False by (simp add: paging_validate_user_range_def PAGING_USER_VADDR_MIN_def PAGING_USER_VADDR_MAX_def Let_def)
  also have "\<dots> = Some (\<forall>x. page_no v \<le> page_no x \<and> page_no x \<le> page_no (v + len - 1) \<longrightarrow> ?acc x)"
    using validate_loop_all [where acc = ?acc and n = n, OF page_floor(1) page_floor(1) _ acc, of v "v + len - 1"] n unfolding page_floor(2) by blast
  also have "\<dots> = Some (\<forall>k < unat len. ?acc (v + word_of_nat k))"
    by (rule arg_cong [OF pages_of_range [where acc = ?acc, OF v(3) l acc]])
  finally show ?thesis using v l pd False unfolding accessible_iff [OF pd] by (simp add: user_range_def)
qed

section \<open>Copies\<close>

lemma user_ok_read: "user_ok m cr3 wr x \<Longrightarrow> \<exists>b. vread cr3 m x = Some b"
  by (auto simp: user_ok_def vread_def)

lemma user_range_ok: "user_range m cr3 wr v len \<Longrightarrow> k < unat len \<Longrightarrow> user_ok m cr3 wr (v + word_of_nat k)"
  by (auto simp: user_range_def)

lemma copy_in_all:
  assumes "\<forall>k < n. \<exists>b. vread cr3 m (src + word_of_nat k) = Some b" and "n \<le> length d" and "i \<le> n"
  shows "copy_in cr3 m src [i ..< n] d =
    Some (take i d @ map (\<lambda>k. the (vread cr3 m (src + word_of_nat k))) [i ..< n] @ drop n d)"
  using assms
proof (induction "n - i" arbitrary: i d)
  case 0
  then have "i = n" by simp
  then show ?case by simp
next
  case (Suc c)
  have i: "i < n" "[i ..< n] = i # [Suc i ..< n]" using Suc.hyps(2) by (auto simp: upt_conv_Cons)
  obtain b where b: "vread cr3 m (src + word_of_nat i) = Some b" using Suc.prems(1) i(1) by auto
  have "copy_in cr3 m src [Suc i ..< n] (d[i := b]) =
    Some (take (Suc i) (d[i := b]) @ map (\<lambda>k. the (vread cr3 m (src + word_of_nat k))) [Suc i ..< n] @ drop n (d[i := b]))"
    using Suc.hyps(2) Suc.prems i(1) by (intro Suc.hyps(1)) auto
  moreover have "take (Suc i) (d[i := b]) = take i d @ [b]" "drop n (d[i := b]) = drop n d"
    using i(1) Suc.prems(2) by (auto simp: take_Suc_conv_app_nth)
  ultimately show ?case unfolding i(2) using b i(1) Suc.prems(2) by (simp add: arr_rules)
qed

lemma copy_from_user_ok:
  assumes "unat len \<le> length d"
  shows "paging_copy_from_user cr3 m (Some d) src len =
    Some (user_range m cr3 False src len,
      Some (if user_range m cr3 False src len
            then map (\<lambda>k. the (vread cr3 m (src + word_of_nat k))) [0 ..< unat len] @ drop (unat len) d else d))"
proof (cases "user_range m cr3 False src len")
  case True
  have "\<forall>k < unat len. \<exists>b. vread cr3 m (src + word_of_nat k) = Some b" using user_range_ok [OF True] user_ok_read by blast
  then show ?thesis using copy_in_all [of "unat len" cr3 m src d 0] assms True
    by (simp add: paging_copy_from_user_def validate_exact)
next
  case False
  then show ?thesis by (simp add: paging_copy_from_user_def validate_exact)
qed

text \<open>
  The pages \<open>T\<close> hold the directory and the tables for user addresses, and no user address reaches them.
\<close>

definition isolated :: "memory \<Rightarrow> u32 \<Rightarrow> nat set \<Rightarrow> bool" where
  "isolated m cr3 T \<longleftrightarrow> page_no (paging_virt_addr (cr3 AND 0xFFFFF000)) \<in> T \<and>
     (\<forall>x < 0xC0000000. entry_at m (paging_virt_addr (cr3 AND 0xFFFFF000)) (pde_idx x) AND 1 \<noteq> 0 \<longrightarrow>
        page_no (table_of (entry_at m (paging_virt_addr (cr3 AND 0xFFFFF000)) (pde_idx x))) \<in> T) \<and>
     (\<forall>x < 0xC0000000. \<forall>p w. mmu m cr3 x = Some (p, True, w) \<longrightarrow> page_no (paging_virt_addr p) \<notin> T)"

lemma isolated_write:
  assumes iso: "isolated m cr3 T" and y: "y < 0xC0000000" "mmu m cr3 y = Some (p, True, w)"
    and m': "m' = m(paging_virt_addr p := b)"
  shows "\<forall>x < 0xC0000000. mmu m' cr3 x = mmu m cr3 x" "isolated m' cr3 T" "\<forall>a. page_no a \<in> T \<longrightarrow> m' a = m a"
proof -
  let ?pd = "paging_virt_addr (cr3 AND 0xFFFFF000)"
  have off: "page_no (paging_virt_addr p) \<notin> T" using iso y by (auto simp: isolated_def)
  have E: "entry_at m' t i = entry_at m t i" if "page_no t \<in> T" "page_aligned t" "i < 1024" for t i
    by (rule entry_at_cong [OF that(2,3)]) (use that(1) off in \<open>auto simp: m'\<close>)
  have pd: "page_no ?pd \<in> T" "page_aligned ?pd" using iso by (auto simp: isolated_def page_aligned_offset page_aligned_mask)
  have D: "entry_at m' ?pd (pde_idx x) = entry_at m ?pd (pde_idx x)" for x by (rule E [OF pd idx_less(1)])
  have P: "entry_at m' (table_of (entry_at m ?pd (pde_idx x))) (pte_idx x) = entry_at m (table_of (entry_at m ?pd (pde_idx x))) (pte_idx x)"
    if "x < 0xC0000000" "entry_at m ?pd (pde_idx x) AND 1 \<noteq> 0" for x
    by (rule E [OF _ table_of_aligned idx_less(2)]) (use iso that in \<open>auto simp: isolated_def\<close>)
  show W: "\<forall>x < 0xC0000000. mmu m' cr3 x = mmu m cr3 x"
    using D P by (auto simp: mmu_def table_of_def Let_def paging_consts)
  show "isolated m' cr3 T" using iso W D by (simp add: isolated_def)
  show "\<forall>a. page_no a \<in> T \<longrightarrow> m' a = m a" using off by (auto simp: m')
qed

text \<open>A run of writes to user addresses: the translation stays, and the bytes are there afterwards.\<close>

definition phys_of :: "memory \<Rightarrow> u32 \<Rightarrow> u32 \<Rightarrow> u32" where
  "phys_of m cr3 x = fst (the (mmu m cr3 x))"

lemma copy_out_all:
  assumes "isolated m cr3 T" and "\<forall>k < n. dst + word_of_nat k < 0xC0000000 \<and> user_ok m cr3 True (dst + word_of_nat k)"
    and "n \<le> length s" and "i \<le> n" and "inj_on (\<lambda>k. phys_of m cr3 (dst + word_of_nat k)) {..<n}"
  shows "\<exists>m'. copy_out cr3 dst s [i ..< n] m = Some m' \<and> isolated m' cr3 T \<and> (\<forall>a. page_no a \<in> T \<longrightarrow> m' a = m a) \<and>
    (\<forall>x < 0xC0000000. mmu m' cr3 x = mmu m cr3 x) \<and>
    (\<forall>k. i \<le> k \<and> k < n \<longrightarrow> m' (paging_virt_addr (phys_of m cr3 (dst + word_of_nat k))) = s ! k) \<and>
    (\<forall>a. (\<forall>k. i \<le> k \<and> k < n \<longrightarrow> a \<noteq> paging_virt_addr (phys_of m cr3 (dst + word_of_nat k))) \<longrightarrow> m' a = m a)"
  using assms
proof (induction "n - i" arbitrary: i m)
  case 0
  then have "i = n" by simp
  then show ?case using 0 by auto
next
  case (Suc c)
  let ?x = "dst + word_of_nat i"
  have i: "i < n" "[i ..< n] = i # [Suc i ..< n]" using Suc.hyps(2) by (auto simp: upt_conv_Cons)
  obtain p w where x: "?x < 0xC0000000" "mmu m cr3 ?x = Some (p, True, w)" using Suc.prems(2) i(1) by (auto simp: user_ok_def)
  define m1 where "m1 = m(paging_virt_addr p := s ! i)"
  note W = isolated_write [OF Suc.prems(1) x m1_def]
  have ph: "phys_of m1 cr3 (dst + word_of_nat k) = phys_of m cr3 (dst + word_of_nat k)" if "k < n" for k
    using W(1) Suc.prems(2) that by (simp add: phys_of_def)
  have "\<exists>m'. copy_out cr3 dst s [Suc i ..< n] m1 = Some m' \<and> isolated m' cr3 T \<and> (\<forall>a. page_no a \<in> T \<longrightarrow> m' a = m1 a) \<and>
    (\<forall>x < 0xC0000000. mmu m' cr3 x = mmu m1 cr3 x) \<and>
    (\<forall>k. Suc i \<le> k \<and> k < n \<longrightarrow> m' (paging_virt_addr (phys_of m1 cr3 (dst + word_of_nat k))) = s ! k) \<and>
    (\<forall>a. (\<forall>k. Suc i \<le> k \<and> k < n \<longrightarrow> a \<noteq> paging_virt_addr (phys_of m1 cr3 (dst + word_of_nat k))) \<longrightarrow> m' a = m1 a)"
  proof (rule Suc.hyps(1))
    show "c = n - Suc i" using Suc.hyps(2) by simp
    show "\<forall>k < n. dst + word_of_nat k < 0xC0000000 \<and> user_ok m1 cr3 True (dst + word_of_nat k)"
      using Suc.prems(2) W(1) by (simp add: user_ok_def)
    show "inj_on (\<lambda>k. phys_of m1 cr3 (dst + word_of_nat k)) {..<n}"
      using Suc.prems(5) ph by (simp add: inj_on_def)
  qed (use W(2) Suc.prems(3) i(1) in auto)
  then obtain m' where m': "copy_out cr3 dst s [Suc i ..< n] m1 = Some m'" "isolated m' cr3 T"
    "\<forall>x < 0xC0000000. mmu m' cr3 x = mmu m1 cr3 x"
    "\<And>k. Suc i \<le> k \<Longrightarrow> k < n \<Longrightarrow> m' (paging_virt_addr (phys_of m cr3 (dst + word_of_nat k))) = s ! k"
    "\<And>a. (\<And>k. Suc i \<le> k \<Longrightarrow> k < n \<Longrightarrow> a \<noteq> paging_virt_addr (phys_of m cr3 (dst + word_of_nat k))) \<Longrightarrow> m' a = m1 a"
    "\<forall>a. page_no a \<in> T \<longrightarrow> m' a = m1 a"
    using ph by auto
  have pi: "phys_of m cr3 ?x = p" using x(2) by (simp add: phys_of_def)
  have "copy_out cr3 dst s [i ..< n] m = Some m'"
    unfolding i(2) using x(2) m'(1) i(1) Suc.prems(3) by (simp add: vwrite_def m1_def arr_rules)
  moreover have "m' (paging_virt_addr p) = s ! i"
  proof -
    have "p \<noteq> phys_of m cr3 (dst + word_of_nat k)" if "Suc i \<le> k" "k < n" for k
      using inj_onD [OF Suc.prems(5), of i k] that i(1) unfolding pi by fastforce
    then have "m' (paging_virt_addr p) = m1 (paging_virt_addr p)"
      by (intro m'(5)) (auto simp: paging_virt_addr_def)
    then show ?thesis by (simp add: m1_def)
  qed
  moreover have "m' a = m a" if a: "\<forall>k. i \<le> k \<and> k < n \<longrightarrow> a \<noteq> paging_virt_addr (phys_of m cr3 (dst + word_of_nat k))" for a
  proof -
    have "a \<noteq> paging_virt_addr p" using a i(1) pi by auto
    moreover have "m' a = m1 a" using a by (intro m'(5)) auto
    ultimately show ?thesis by (simp add: m1_def)
  qed
  moreover have "m' (paging_virt_addr (phys_of m cr3 (dst + word_of_nat k))) = s ! k" if "i \<le> k" "k < n" for k
    using calculation(2) m'(4) [of k] that pi by (cases "k = i") simp_all
  ultimately show ?case using m'(2,3,6) W(1,3) by (intro exI [of _ m']) simp
qed

text \<open>No two addresses of the range share a byte of memory.\<close>

definition unshared :: "memory \<Rightarrow> u32 \<Rightarrow> u32 \<Rightarrow> nat \<Rightarrow> bool" where
  "unshared m cr3 v n \<longleftrightarrow> inj_on (\<lambda>k. phys_of m cr3 (v + word_of_nat k)) {..<n}"

lemma user_range_below:
  assumes "user_range m cr3 wr v len" and "k < unat len"
  shows "v + word_of_nat k < 0xC0000000"
proof -
  have l: "unat v + unat len \<le> 0xC0000000" using assms by (auto simp: user_range_def)
  have "unat (v + word_of_nat k) = unat v + k" using l assms(2) by (intro unat_offset) simp
  then show ?thesis using l assms(2) by (simp add: word_less_nat_alt)
qed

lemma copy_to_user_ok:
  assumes iso: "isolated m cr3 T" and len: "unat len \<le> length s" and un: "unshared m cr3 dst (unat len)"
  shows "\<exists>m'. paging_copy_to_user cr3 dst (Some s) len m = Some (user_range m cr3 True dst len, m') \<and>
    isolated m' cr3 T \<and> (\<forall>a. page_no a \<in> T \<longrightarrow> m' a = m a) \<and> (\<forall>x < 0xC0000000. mmu m' cr3 x = mmu m cr3 x) \<and>
    (if user_range m cr3 True dst len
     then (\<forall>k < unat len. vread cr3 m' (dst + word_of_nat k) = Some (s ! k)) \<and>
       (\<forall>a. (\<forall>k < unat len. a \<noteq> paging_virt_addr (phys_of m cr3 (dst + word_of_nat k))) \<longrightarrow> m' a = m a)
     else m' = m)"
proof (cases "user_range m cr3 True dst len")
  case True
  have "\<forall>k < unat len. dst + word_of_nat k < 0xC0000000 \<and> user_ok m cr3 True (dst + word_of_nat k)"
    using user_range_below [OF True] user_range_ok [OF True] by blast
  from copy_out_all [OF iso this len _ un [unfolded unshared_def], of 0] obtain m' where
    m': "copy_out cr3 dst s [0 ..< unat len] m = Some m'" "isolated m' cr3 T" "\<forall>x < 0xC0000000. mmu m' cr3 x = mmu m cr3 x"
    "\<And>k. k < unat len \<Longrightarrow> m' (paging_virt_addr (phys_of m cr3 (dst + word_of_nat k))) = s ! k"
    "\<And>a. \<forall>k < unat len. a \<noteq> paging_virt_addr (phys_of m cr3 (dst + word_of_nat k)) \<Longrightarrow> m' a = m a"
    "\<forall>a. page_no a \<in> T \<longrightarrow> m' a = m a"
    by auto
  have "vread cr3 m' (dst + word_of_nat k) = Some (s ! k)" if k: "k < unat len" for k
  proof -
    obtain p w where "mmu m cr3 (dst + word_of_nat k) = Some (p, True, w)"
      using user_range_ok [OF True k] by (auto simp: user_ok_def)
    then show ?thesis using m'(3) m'(4) [OF k] user_range_below [OF True k] by (simp add: vread_def phys_of_def)
  qed
  then show ?thesis using m' True by (simp add: paging_copy_to_user_def validate_exact)
next
  case False
  then show ?thesis using iso by (simp add: paging_copy_to_user_def validate_exact)
qed

lemma user_range_mono: "user_range m cr3 True v len \<Longrightarrow> user_range m cr3 False v len"
  unfolding user_range_def user_ok_def by blast

lemma user_range_same:
  assumes "isolated m cr3 T" and "\<forall>x < 0xC0000000. mmu m' cr3 x = mmu m cr3 x" and "\<forall>a. page_no a \<in> T \<longrightarrow> m' a = m a"
  shows "user_range m' cr3 wr v len = user_range m cr3 wr v len"
proof (cases "len = 0 \<or> \<not> unat v + unat len \<le> 0xC0000000")
  case False
  have b: "v + word_of_nat k < 0xC0000000" if "k < unat len" for k
  proof -
    have "unat (v + word_of_nat k) = unat v + k" using False that by (intro unat_offset) simp
    then show ?thesis using False that by (simp add: word_less_nat_alt)
  qed
  let ?pd = "paging_virt_addr (cr3 AND 0xFFFFF000)"
  have "entry_at m' ?pd (pde_idx x) = entry_at m ?pd (pde_idx x)" for x
    by (rule entry_at_cong [OF _ idx_less(1)])
      (use assms(1,3) in \<open>auto simp: isolated_def page_aligned_offset page_aligned_mask\<close>)
  then have "small_page m' cr3 x = small_page m cr3 x" for x by (simp add: small_page_def)
  then show ?thesis using assms(2) b by (simp add: user_range_def user_ok_def)
qed (auto simp: user_range_def)

text \<open>Strings.\<close>

definition user_byte :: "memory \<Rightarrow> u32 \<Rightarrow> u32 \<Rightarrow> u8 option" where
  "user_byte m cr3 x = (if user_range m cr3 False x 1 then vread cr3 m x else None)"

text \<open>The first NUL is at offset \<open>n\<close>, and user code may read all bytes up to it.\<close>

definition user_string :: "memory \<Rightarrow> u32 \<Rightarrow> u32 \<Rightarrow> nat \<Rightarrow> nat \<Rightarrow> bool" where
  "user_string m cr3 src i n \<longleftrightarrow> i \<le> n \<and> user_byte m cr3 (src + word_of_nat n) = Some 0 \<and>
     (\<forall>k. i \<le> k \<and> k < n \<longrightarrow> (\<exists>b. user_byte m cr3 (src + word_of_nat k) = Some b \<and> b \<noteq> 0))"

lemma user_string_step:
  "user_string m cr3 src i n \<longleftrightarrow>
     (user_byte m cr3 (src + word_of_nat i) = Some 0 \<and> n = i) \<or>
     ((\<exists>b. user_byte m cr3 (src + word_of_nat i) = Some b \<and> b \<noteq> 0) \<and> user_string m cr3 src (Suc i) n)"
proof (cases "i < n")
  case True
  have "(\<forall>k. i \<le> k \<and> k < n \<longrightarrow> Q k) \<longleftrightarrow> Q i \<and> (\<forall>k. Suc i \<le> k \<and> k < n \<longrightarrow> Q k)" for Q
    using True by (metis Suc_leD Suc_leI le_neq_implies_less order_refl)
  then show ?thesis using True by (auto simp: user_string_def)
next
  case False
  then show ?thesis by (auto simp: user_string_def)
qed

lemma user_byte_read: "user_range m cr3 False x 1 \<Longrightarrow> \<exists>b. user_byte m cr3 x = Some b \<and> vread cr3 m x = Some b"
  using user_range_ok [of m cr3 False x 1 0] user_ok_read [of m cr3 False x] by (auto simp: user_byte_def)

lemma copy_str_ok:
  assumes "d \<noteq> []" and "i \<le> length d"
  shows "\<exists>r d'. copy_str cr3 m src [i ..< length d] d = Some (r, d') \<and> length d' = length d \<and>
    (r \<longleftrightarrow> (\<exists>n < length d. user_string m cr3 src i n)) \<and>
    (\<forall>n < length d. user_string m cr3 src i n \<longrightarrow> take i d' = take i d \<and>
      (\<forall>k. i \<le> k \<and> k \<le> n \<longrightarrow> user_byte m cr3 (src + word_of_nat k) = Some (d' ! k)))"
  using assms
proof (induction "length d - i" arbitrary: i d)
  case 0
  then have "i = length d" by simp
  then show ?case using 0 by (auto simp: arr_rules user_string_def)
next
  case (Suc c)
  let ?x = "src + word_of_nat i"
  have i: "i < length d" "[i ..< length d] = i # [Suc i ..< length d]" using Suc.hyps(2) by (auto simp: upt_conv_Cons)
  show ?case
  proof (cases "user_range m cr3 False ?x 1")
    case False
    then have "user_byte m cr3 ?x = None" by (simp add: user_byte_def)
    then have "\<not> user_string m cr3 src i n" for n by (subst user_string_step) simp
    then show ?thesis unfolding i(2) using False by (intro exI [of _ False] exI [of _ d]) (simp add: validate_exact)
  next
    case True
    obtain b where b: "user_byte m cr3 ?x = Some b" "vread cr3 m ?x = Some b" using user_byte_read [OF True] by blast
    show ?thesis
    proof (cases "b = 0")
      case z: True
      have "user_string m cr3 src i n \<longleftrightarrow> n = i" for n using b(1) z by (subst user_string_step) simp
      then show ?thesis unfolding i(2) using True b z i(1) by (simp add: validate_exact arr_rules) (metis le_antisym nth_list_update_eq)
    next
      case nz: False
      let ?d = "d[i := b]"
      have st: "user_string m cr3 src i n \<longleftrightarrow> user_string m cr3 src (Suc i) n" for n
        using b(1) nz by (subst user_string_step) simp
      have "\<exists>r d'. copy_str cr3 m src [Suc i ..< length ?d] ?d = Some (r, d') \<and> length d' = length ?d \<and>
        (r \<longleftrightarrow> (\<exists>n < length ?d. user_string m cr3 src (Suc i) n)) \<and>
        (\<forall>n < length ?d. user_string m cr3 src (Suc i) n \<longrightarrow> take (Suc i) d' = take (Suc i) ?d \<and>
          (\<forall>k. Suc i \<le> k \<and> k \<le> n \<longrightarrow> user_byte m cr3 (src + word_of_nat k) = Some (d' ! k)))"
        by (rule Suc.hyps(1)) (use Suc.hyps(2) Suc.prems i(1) in auto)
      then obtain r d' where r: "copy_str cr3 m src [Suc i ..< length d] ?d = Some (r, d')" "length d' = length d"
        "r \<longleftrightarrow> (\<exists>n < length d. user_string m cr3 src (Suc i) n)"
        "\<And>n. n < length d \<Longrightarrow> user_string m cr3 src (Suc i) n \<Longrightarrow> take (Suc i) d' = take (Suc i) ?d \<and>
          (\<forall>k. Suc i \<le> k \<and> k \<le> n \<longrightarrow> user_byte m cr3 (src + word_of_nat k) = Some (d' ! k))"
        by auto
      have cp: "copy_str cr3 m src [i ..< length d] d = Some (r, d')"
        unfolding i(2) using True b(2) nz i(1) r(1) by (simp add: validate_exact arr_rules)
      have "take i d' = take i d \<and> (\<forall>k. i \<le> k \<and> k \<le> n \<longrightarrow> user_byte m cr3 (src + word_of_nat k) = Some (d' ! k))"
        if "n < length d" "user_string m cr3 src (Suc i) n" for n
      proof -
        have t: "take (Suc i) d' = take (Suc i) ?d" using r(4) [OF that] by blast
        then have "take i d' = take i d" by (metis lessI less_imp_le_nat min_absorb1 take_take take_update_cancel order_refl)
        moreover have "d' ! i = b" using t i(1) by (metis lessI nth_list_update_eq nth_take)
        ultimately show ?thesis using r(4) [OF that] b(1) by (metis Suc_leI le_neq_implies_less)
      qed
      then show ?thesis using cp r(2,3) unfolding st by (intro exI [of _ r] exI [of _ d']) simp
    qed
  qed
qed

section \<open>Properties\<close>

text \<open>A kernel heap above the kernel image, and an address space on it.\<close>

definition kheap :: heap_t where
  "kheap = init_memory \<lparr>heap_storage = 0xC0100000, blocks = (\<lambda>_. zero_block), hmem = (\<lambda>_. 0), block_list = 0,
     free_lists = replicate 6 0, stats = Heap.zero_stats\<rparr>"

lemma kheap_owns: "\<exists>p h. kmalloc 64 kheap = Some (p, h) \<and> owns h {} \<and> low_heap h \<and> heap_storage h = 0xC0100000"
proof -
  have ok: "heap_ok kheap [0xC0100000] (\<lambda>_. [])"
    unfolding kheap_def by (rule heap_ok_init [of "\<lparr>heap_storage = 0xC0100000, blocks = (\<lambda>_. zero_block), hmem = (\<lambda>_. 0),
      block_list = 0, free_lists = replicate 6 0, stats = Heap.zero_stats\<rparr>", simplified])
  have "map_option fst (kmalloc 64 kheap) = Some 0xC0100010" by code_simp
  then obtain h where h: "kmalloc 64 kheap = Some (0xC0100010, h)" by (auto simp: map_option_eq_Some)
  obtain ms fl where g: "granted kheap [0xC0100000] 0xC0100010 h ms fl" using kmalloc_ok [OF ok h] by blast
  then have "heap_ok h ms fl" "live h ms \<noteq> {}" "heap_storage h = 0xC0100000"
    by (auto simp: granted_def kheap_def init_memory_def)
  then show ?thesis using h by (auto simp: owns_def low_heap_def)
qed

text \<open>Which block is granted does not depend on the payload bytes.\<close>

lemma kmalloc_fst_hmem:
  assumes "block_list g \<noteq> 0"
  shows "map_option fst (kmalloc n (g\<lparr>hmem := m\<rparr>)) = map_option fst (kmalloc n g)"
proof -
  have scan: "map_option fst (kmalloc_scan sz (g\<lparr>hmem := m\<rparr>)) = map_option fst (kmalloc_scan sz g)" for sz g
    by (cases "first_fit (blocks g) sz (block_list g)") (simp_all add: kmalloc_scan_def)
  have pop: "free_list_pop c (g\<lparr>hmem := m\<rparr>) = (fst (free_list_pop c g), (snd (free_list_pop c g))\<lparr>hmem := m\<rparr>)" for c g
    by (simp add: free_list_pop_def upd_block_def Let_def)
  show ?thesis
    using assms scan pop by (cases "if align16 n \<le> size_classes ! (NUM_SIZE_CLASSES - 1) then size_class_index (align16 n) else None")
      (auto simp: kmalloc_def Let_def case_prod_beta)
qed

text \<open>A space with one page, mapped for user code to read and write.\<close>

lemma space_exists:
  "\<exists>h pd P. space_ok h pd P \<and> (\<forall>x < 0xC0000000. mmu (hmem h) (paging_phys_addr pd) x =
     (if page_no x = 1 then Some (0x200000 OR (x AND 0xFFF), True, True) else None))"
proof -
  obtain p h where h: "kmalloc 64 kheap = Some (p, h)" "owns h {}" "low_heap h" using kheap_owns by blast
  have run: "do { (p, h) \<leftarrow> kmalloc 64 kheap; (q, h1) \<leftarrow> kmalloc 8192 h; (r, h2) \<leftarrow> kmalloc 8192 h1; Some (q, r, block_list h1, heap_storage h) } =
    Some (0xC0100060, 0xC0102070, 0xC0100000, 0xC0100000)" by code_simp
  obtain h1 where h1: "kmalloc 8192 h = Some (0xC0100060, h1)" "map_option fst (kmalloc 8192 h1) = Some 0xC0102070" "block_list h1 \<noteq> 0"
    "heap_storage h = 0xC0100000"
    using run h(1) by (cases "kmalloc 8192 h") (auto simp: bind_eq_Some_conv map_option_eq_Some)
  have kp: "page_aligned 0xC0011000" by (simp add: page_aligned_def)
  obtain pd h' where c: "paging_create_pd 0xC0011000 h = Some (pd, h')"
    "pd \<noteq> 0 \<longrightarrow> fresh_pd 0xC0011000 h {} pd h'"
    using create_pd_ok [OF h(2,3) kp] h1(4) by auto
  have pd: "pd = page_align 0xC0100060" "\<exists>m. h' = h1\<lparr>hmem := m\<rparr>"
  proof -
    have "kmalloc (PAGING_PAGE_SIZE * 2) h = Some (0xC0100060, h1)" using h1(1) by (simp add: PAGING_PAGE_SIZE_def)
    then show "pd = page_align 0xC0100060" "\<exists>m. h' = h1\<lparr>hmem := m\<rparr>" using c(1) by (auto simp: paging_create_pd_def Let_def)
  qed
  have pd0: "pd \<noteq> 0" unfolding pd(1) by (simp add: page_align_def paging_consts)
  have f: "space_ok h' pd {page_no pd}" "\<forall>i < 768. entry_at (hmem h') pd i = 0"
    "\<forall>x < 0xC0000000. mmu (hmem h') (paging_phys_addr pd) x = None"
    using c(2) pd0 by (simp_all add: fresh_pd_def)
  have "map_option fst (kmalloc (PAGING_PAGE_SIZE * 2) h') = Some 0xC0102070"
  proof -
    obtain m where "h' = h1\<lparr>hmem := m\<rparr>" using pd(2) by blast
    then have "map_option fst (kmalloc 8192 h') = map_option fst (kmalloc 8192 h1)" by (simp only: kmalloc_fst_hmem [OF h1(3)])
    then show ?thesis using h1(2) by (simp add: PAGING_PAGE_SIZE_def)
  qed
  then have nr: "\<not> refused pd (pde_idx 0x1000) 6 h'"
    using f(2) pde_idx_user [of "0x1000"] by (auto simp: refused_def pde_present_def)
  obtain r h2 P where "paging_map_page pd 0x1000 0x200000 6 h' = Some (r, h2)" "grows pd h' {page_no pd} h2 P"
    "\<forall>x < 0xC0000000. mmu (hmem h2) (paging_phys_addr pd) x =
      (if r \<and> page_no x = page_no 0x1000 then Some (0x200000 OR (x AND 0xFFF), (6 :: u32) AND 4 \<noteq> 0, (6 :: u32) AND 2 \<noteq> 0)
       else mmu (hmem h') (paging_phys_addr pd) x)" "r \<noteq> refused pd (pde_idx 0x1000) (6 AND NOT 1) h'"
    using map_page_ok [where v = "0x1000" and p = "0x200000" and flags = 6, OF f(1)] by (auto simp: page_aligned_def)
  then show ?thesis using nr f(3) by (intro exI [of _ h2] exI [of _ pd] exI [of _ P]) (auto simp: grows_def page_no_def)
qed

text \<open>
  Property C19. Mapping a page changes the translation of exactly that page: after \<open>paging_map_page\<close> the
  processor translates every user address as before, except that the addresses of the mapped page, when
  the call succeeds, lead to the given frame with the given permissions. Only memory of the tables of
  the address space changes, the space stays well formed, and the call fails exactly when there is no
  memory for a new table or an existing table is closed to user code.
\<close>

theorem paging_map_page_exact:
  assumes "space_ok h pd P" and "v < 0xC0000000" "page_aligned v" "page_aligned p" and "flags AND NOT 7 = 0"
  shows "\<exists>r h' P'. paging_map_page pd v p flags h = Some (r, h') \<and> space_ok h' pd P' \<and> P \<subseteq> P' \<and>
    (\<forall>a. page_no a \<notin> P' \<longrightarrow> hmem h' a = hmem h a) \<and>
    (\<forall>x < 0xC0000000. mmu (hmem h') (paging_phys_addr pd) x =
      (if r \<and> page_no x = page_no v then Some (p OR (x AND 0xFFF), flags AND 4 \<noteq> 0, flags AND 2 \<noteq> 0)
       else mmu (hmem h) (paging_phys_addr pd) x)) \<and>
    (r \<noteq> refused pd (pde_idx v) (flags AND NOT 1) h)"
  using map_page_ok [OF assms] by (auto simp: grows_def)

theorem paging_map_page_exact_witness:
  "\<exists>h pd P r h' P'. space_ok h pd P \<and> paging_map_page pd 0x2000 0x201000 4 h = Some (r, h') \<and> space_ok h' pd P' \<and>
     mmu (hmem h') (paging_phys_addr pd) 0x1234 = Some (0x200234, True, True)"
proof -
  obtain h pd P where s: "space_ok h pd P" "\<forall>x < 0xC0000000. mmu (hmem h) (paging_phys_addr pd) x =
     (if page_no x = 1 then Some (0x200000 OR (x AND 0xFFF), True, True) else None)"
    using space_exists by blast
  have "page_aligned 0x2000" "page_aligned 0x201000" by (simp_all add: page_aligned_def)
  with paging_map_page_exact [where v = "0x2000" and p = "0x201000" and flags = 4, OF s(1)] obtain r h' P' where
    r: "paging_map_page pd 0x2000 0x201000 4 h = Some (r, h')" "space_ok h' pd P'"
    "\<forall>x < 0xC0000000. mmu (hmem h') (paging_phys_addr pd) x =
      (if r \<and> page_no x = page_no 0x2000 then Some (0x201000 OR (x AND 0xFFF), (4 :: u32) AND 4 \<noteq> 0, (4 :: u32) AND 2 \<noteq> 0)
       else mmu (hmem h) (paging_phys_addr pd) x)" by auto
  have "mmu (hmem h') (paging_phys_addr pd) 0x1234 = Some (0x200234, True, True)"
    using r(3) s(2) by (simp add: page_no_def)
  then show ?thesis using s(1) r(1,2) by blast
qed

text \<open>
  Property C20. A new directory maps no user address, and it translates the kernel's half exactly as the
  kernel's own directory does, but never for user code; no other page of memory changes.
\<close>

theorem paging_create_pd_isolates:
  assumes "owns h P" "low_heap h" and "page_aligned kpd"
    and "unat kpd + 4096 \<le> unat (heap_storage h) \<or> unat (heap_storage h) + 0x100000 \<le> unat kpd"
  shows "\<exists>pd h'. paging_create_pd kpd h = Some (pd, h') \<and>
    (pd \<noteq> 0 \<longrightarrow> space_ok h' pd (insert (page_no pd) P) \<and> (\<forall>a. page_no a \<noteq> page_no pd \<longrightarrow> hmem h' a = hmem h a) \<and>
       (\<forall>x. mmu (hmem h') (paging_phys_addr pd) x =
          (if x < 0xC0000000 then None else map_option (\<lambda>(p, u, w). (p, False, w)) (mmu (hmem h') (paging_phys_addr kpd) x))))"
proof -
  obtain pd h' where "paging_create_pd kpd h = Some (pd, h')" "pd \<noteq> 0 \<longrightarrow> fresh_pd kpd h P pd h'"
    using create_pd_ok [OF assms] by blast
  then show ?thesis by (intro exI [of _ pd] exI [of _ h']) (simp add: fresh_pd_def)
qed

theorem paging_create_pd_isolates_witness:
  "\<exists>h pd h'. owns h {} \<and> paging_create_pd 0xC0011000 h = Some (pd, h') \<and>
     (pd \<noteq> 0 \<longrightarrow> mmu (hmem h') (paging_phys_addr pd) 0x1000 = None)"
proof -
  obtain h where h: "owns h {}" "low_heap h" "heap_storage h = 0xC0100000" using kheap_owns by blast
  have "page_aligned 0xC0011000" by (simp add: page_aligned_def)
  then show ?thesis using paging_create_pd_isolates [where kpd = "0xC0011000", OF h(1,2)] h by (auto; fastforce)
qed

text \<open>
  Property C21. The check of a user range always ends, and it is exact: it accepts a range if and only if it
  is empty, or lies between \<open>PAGING_USER_VADDR_MIN\<close> and \<open>PAGING_USER_VADDR_MAX\<close> without wrapping around and
  the processor would let user code access (and write, where asked) every byte of it, through 4 KiB
  pages with a table that is not at physical address 0.
\<close>

theorem paging_validate_exact:
  "paging_validate_user_range cr3 m v len wr =
     Some (len = 0 \<or>
       (0x1000 \<le> unat v \<and> unat v + unat len \<le> 0xC0000000 \<and> paging_current_pd cr3 \<noteq> 0 \<and>
        (\<forall>k < unat len. user_ok m cr3 wr (v + word_of_nat k) \<and> small_page m cr3 (v + word_of_nat k))))"
  by (simp add: validate_exact user_range_def)

text \<open>
  Property C22. Copies to and from user memory cause no page fault, whatever address user code passes. What is
  copied out to a range that the check accepts is read back by a copy in from the same range; a range
  that is refused changes nothing. (The tables are not reachable from user code, and no two addresses
  of the range share memory.)
\<close>

theorem user_copy_roundtrip:
  assumes "isolated m cr3 T" and "unat len \<le> length s" "unat len \<le> length d" and "unshared m cr3 dst (unat len)"
  shows "\<exists>m' d'. paging_copy_to_user cr3 dst (Some s) len m = Some (user_range m cr3 True dst len, m') \<and>
    paging_copy_from_user cr3 m' (Some d) dst len = Some (user_range m cr3 False dst len, Some d') \<and>
    (if user_range m cr3 True dst len then d' = take (unat len) s @ drop (unat len) d else m' = m)"
proof -
  obtain m' where m': "paging_copy_to_user cr3 dst (Some s) len m = Some (user_range m cr3 True dst len, m')"
    "\<forall>a. page_no a \<in> T \<longrightarrow> m' a = m a" "\<forall>x < 0xC0000000. mmu m' cr3 x = mmu m cr3 x"
    "if user_range m cr3 True dst len
     then (\<forall>k < unat len. vread cr3 m' (dst + word_of_nat k) = Some (s ! k)) \<and>
       (\<forall>a. (\<forall>k < unat len. a \<noteq> paging_virt_addr (phys_of m cr3 (dst + word_of_nat k))) \<longrightarrow> m' a = m a)
     else m' = m"
    using copy_to_user_ok [OF assms(1,2,4)] by blast
  have same: "user_range m' cr3 False dst len = user_range m cr3 False dst len"
    by (rule user_range_same [OF assms(1) m'(3,2)])
  show ?thesis
  proof (cases "user_range m cr3 True dst len")
    case True
    have "map (\<lambda>k. the (vread cr3 m' (dst + word_of_nat k))) [0 ..< unat len] = take (unat len) s"
      using m'(4) True assms(2) by (intro nth_equalityI) auto
    then show ?thesis using m'(1) True user_range_mono [OF True] same copy_from_user_ok [OF assms(3), of cr3 m' dst] by simp
  next
    case False
    then show ?thesis using m'(1,4) same copy_from_user_ok [OF assms(3), of cr3 m' dst] by (intro exI [of _ m'] exI) auto
  qed
qed

lemma space_current:
  assumes "space_ok h pd P"
  shows "paging_current_pd (paging_phys_addr pd) = pd" "pd \<noteq> 0"
proof -
  have s: "owns h P" "low_heap h" "page_aligned pd" "page_no pd \<in> P" using assms by (auto simp: space_ok_def)
  note n = owned_nonzero [OF s(1,2,4)]
  have "paging_phys_addr pd AND 0xFFFFF000 = paging_phys_addr pd"
    using entry_fields(1) [of "paging_phys_addr pd" 0] s(3) by (simp add: page_aligned_offset)
  moreover have "paging_phys_addr pd \<noteq> 0" using n(4) by (auto simp: paging_phys_addr_def paging_consts)
  ultimately show "paging_current_pd (paging_phys_addr pd) = pd" by (simp add: paging_current_pd_def paging_current_cr3_def)
  show "pd \<noteq> 0" by (rule n(1))
qed

lemma space_small:
  assumes "space_ok h pd P" and "x < 0xC0000000" and "mmu (hmem h) (paging_phys_addr pd) x \<noteq> None"
  shows "small_page (hmem h) (paging_phys_addr pd) x"
proof -
  have s: "owns h P" "low_heap h" "page_aligned pd" "page_no pd \<in> P" "tables_ok (hmem h) pd P" using assms by (auto simp: space_ok_def)
  let ?e = "entry_at (hmem h) pd (pde_idx x)"
  have pr: "?e AND 1 \<noteq> 0" using assms(3) mmu_walk [OF s(5,3) assms(2)] by (auto simp: Let_def)
  then have e: "?e AND 0x80 = 0" "page_no (table_of ?e) \<in> P"
    using s(5) pde_idx_user [OF assms(2)] by (auto simp: tables_ok_def pde_present_def paging_consts)
  have "?e AND 0xFFFFF000 \<noteq> 0" using owned_nonzero(4) [OF s(1,2) e(2)] by (auto simp: table_of_def paging_virt_addr_def paging_consts)
  then show ?thesis using e(1) by (simp add: small_page_def cr3_of_pd [OF s(3)])
qed

lemma space_isolated:
  assumes "space_ok h pd P" and "\<forall>x < 0xC0000000. \<forall>p u w. mmu (hmem h) (paging_phys_addr pd) x = Some (p, u, w) \<longrightarrow> page_no (paging_virt_addr p) \<notin> P"
  shows "isolated (hmem h) (paging_phys_addr pd) P"
proof -
  have s: "page_aligned pd" "page_no pd \<in> P" "tables_ok (hmem h) pd P" using assms(1) by (auto simp: space_ok_def)
  show ?thesis
    unfolding isolated_def cr3_of_pd [OF s(1)]
  proof (intro conjI allI impI)
    show "page_no pd \<in> P" by (rule s(2))
  next
    fix x :: u32 assume "x < 0xC0000000" "entry_at (hmem h) pd (pde_idx x) AND 1 \<noteq> 0"
    then show "page_no (table_of (entry_at (hmem h) pd (pde_idx x))) \<in> P"
      using s(3) pde_idx_user [of x] by (simp add: tables_ok_def pde_present_def paging_consts)
  next
    fix x p w assume "x < 0xC0000000" "mmu (hmem h) (paging_phys_addr pd) x = Some (p, True, w)"
    then show "page_no (paging_virt_addr p) \<notin> P" using assms(2) by blast
  qed
qed

lemma one_page_space:
  "\<exists>m cr3 T. isolated m cr3 T \<and> mmu m cr3 0x1FF0 = Some (0x200FF0, True, True) \<and> mmu m cr3 0x1FF1 = Some (0x200FF1, True, True) \<and>
     mmu m cr3 0x2000 = None \<and> (\<forall>wr. user_range m cr3 wr 0x1FF0 2)"
proof -
  obtain h pd P where s: "space_ok h pd P" "\<forall>x < 0xC0000000. mmu (hmem h) (paging_phys_addr pd) x =
     (if page_no x = 1 then Some (0x200000 OR (x AND 0xFFF), True, True) else None)"
    using space_exists by blast
  let ?m = "hmem h" and ?c = "paging_phys_addr pd"
  have sp: "owns h P" "low_heap h" "page_aligned pd" "page_no pd \<in> P" "tables_ok ?m pd P" using s(1) by (auto simp: space_ok_def)
  have iso: "isolated ?m ?c P"
  proof (rule space_isolated [OF s(1)], intro allI impI)
    fix x p u w assume "x < 0xC0000000" "mmu ?m ?c x = Some (p, u, w)"
    then have p: "p = 0x200000 OR (x AND 0xFFF)" using s(2) by (auto split: if_splits)
    have "page_no (paging_virt_addr p) = page_no (paging_virt_addr 0x200000)"
      unfolding p by (rule virt_page_offset(2)) (simp add: page_aligned_def)
    then have "page_no (paging_virt_addr p) = page_no 0xC0200000" by (simp add: paging_virt_addr_def paging_consts)
    then show "page_no (paging_virt_addr p) \<notin> P" using owned_nonzero(2) [OF sp(1,2)] by (metis less_irrefl)
  qed
  have x: "mmu ?m ?c 0x1FF0 = Some (0x200FF0, True, True)" "mmu ?m ?c 0x1FF1 = Some (0x200FF1, True, True)"
    using s(2) by (simp_all add: page_no_def)
  have y: "mmu ?m ?c 0x2000 = None" using s(2) by (simp add: page_no_def)
  have "small_page ?m ?c 0x1FF0" "small_page ?m ?c 0x1FF1" by (rule space_small [OF s(1)]; simp add: x)+
  then have ur: "user_range ?m ?c wr 0x1FF0 2" for wr
    using space_current [OF s(1)] by (auto simp: user_range_def user_ok_def less_2_cases_iff x)
  then show ?thesis using iso x y by blast
qed

theorem paging_validate_exact_witness:
  "\<exists>m cr3. paging_validate_user_range cr3 m 0x1FF0 2 True = Some True \<and> paging_validate_user_range cr3 m 0x2000 2 True = Some False"
proof -
  obtain m cr3 where m: "mmu m cr3 0x2000 = None" "user_range m cr3 True 0x1FF0 2" using one_page_space by blast
  have "\<not> user_ok m cr3 True (0x2000 + word_of_nat 0)" by (simp add: user_ok_def m(1))
  then have "\<not> (\<forall>k < unat (2 :: u32). user_ok m cr3 True (0x2000 + word_of_nat k) \<and> small_page m cr3 (0x2000 + word_of_nat k))"
    by (auto intro: exI [of _ 0])
  then show ?thesis
    using paging_validate_exact [of cr3 m "0x1FF0" 2 True] paging_validate_exact [of cr3 m "0x2000" 2 True] m(2)
    by (intro exI [of _ m] exI [of _ cr3]) (auto simp: user_range_def)
qed

theorem user_copy_roundtrip_witness:
  "\<exists>m cr3 m' d'. user_range m cr3 True 0x1FF0 2 \<and> paging_copy_to_user cr3 0x1FF0 (Some [65, 66]) 2 m = Some (True, m') \<and>
     paging_copy_from_user cr3 m' (Some [0, 0, 0]) 0x1FF0 2 = Some (True, Some [65, 66, 0])"
proof -
  obtain m cr3 T where s: "isolated m cr3 T" "mmu m cr3 0x1FF0 = Some (0x200FF0, True, True)" "mmu m cr3 0x1FF1 = Some (0x200FF1, True, True)"
    "\<And>wr. user_range m cr3 wr 0x1FF0 2" using one_page_space by blast
  have un: "unshared m cr3 0x1FF0 (unat (2 :: u32))"
  proof -
    have "phys_of m cr3 (0x1FF0 + word_of_nat 0) \<noteq> phys_of m cr3 (0x1FF0 + word_of_nat 1)" by (simp add: phys_of_def s(2,3))
    then show ?thesis unfolding unshared_def inj_on_def by (auto simp: less_2_cases_iff)
  qed
  have "\<exists>m'. paging_copy_to_user cr3 0x1FF0 (Some [65, 66]) 2 m = Some (True, m') \<and>
     paging_copy_from_user cr3 m' (Some [0, 0, 0]) 0x1FF0 2 = Some (True, Some [65, 66, 0])"
    using user_copy_roundtrip [where len = 2 and s = "[65, 66]" and d = "[0, 0, 0]", OF s(1) _ _ un] s(4) by auto
  then show ?thesis using s(4) by blast
qed

text \<open>
  \<open>paging_copy_user_string\<close> causes no page fault and ends. It succeeds if and only if user code
  may read a string that ends within the length of the buffer, and then the buffer holds it with its
  NUL; the buffer keeps its size in every case.
\<close>

theorem copy_user_string_exact:
  assumes "d \<noteq> []"
  shows "\<exists>r d'. paging_copy_user_string cr3 m (Some d) src = Some (r, Some d') \<and> length d' = length d \<and>
    (r \<longleftrightarrow> (\<exists>n < length d. user_string m cr3 src 0 n)) \<and>
    (\<forall>n < length d. user_string m cr3 src 0 n \<longrightarrow>
      (\<forall>k \<le> n. user_byte m cr3 (src + word_of_nat k) = Some (d' ! k)))"
  using copy_str_ok [OF assms, of 0 cr3 m src] assms by (auto simp: paging_copy_user_string_def)

theorem copy_user_string_exact_witness:
  "\<exists>r d'. paging_copy_user_string 0x5000 (\<lambda>_. 0) (Some [7, 7]) 0x1000 = Some (r, Some d') \<and> length d' = 2"
  using copy_user_string_exact [of "[7, 7]" "0x5000" "\<lambda>_. 0" "0x1000"] by auto

end
