(* ===== verification/Elf_Check.thy ===== *)
theory Elf_Check
  imports Elf Paging_Copy
begin

text \<open>
  The checks of the program loader: they read no byte outside the file, whatever it contains, and what
  they accept are segments in the user's half of the address space, on separate pages, apart from the
  stack, with an entry point in an executable segment.
\<close>

section \<open>Reading headers\<close>

lemma ehdr_in: "52 \<le> length file \<Longrightarrow> \<exists>eh. ehdr_at file = Some eh"
  by (simp add: ehdr_at_def)

lemma unat_ucast_small: "unat (ucast (w :: u16) :: u32) = unat w"
proof -
  have "unat w < 2 ^ 16" using unat_less_len [of w] by simp
  then show ?thesis by (simp add: unat_ucast_mod)
qed

lemma unat_mult16: "unat (ucast (a :: u16) * ucast (b :: u16) :: u32) = unat a * unat b"
proof -
  have "unat a * unat b \<le> 65535 * 65535"
    using unat_less_len [of a] unat_less_len [of b] by (intro mult_le_mono) simp_all
  then show ?thesis by (subst unat_mult_nowrap) (simp_all add: unat_ucast_small)
qed

lemma elf_phdr_total:
  assumes "ehdr_at file = Some eh" and "unat filesize = length file" and "e_phentsize eh \<noteq> 0"
  shows "\<exists>r. elf_phdr file filesize idx = Some r"
proof -
  let ?sz = "ucast idx * ucast (e_phentsize eh) :: u32" and ?off = "e_phoff eh + ucast idx * ucast (e_phentsize eh) :: u32"
  have "\<exists>ph. phdr_at file (unat ?off) = Some ph"
    if a: "\<not> e_phoff eh > filesize" "\<not> ?sz > filesize - e_phoff eh" "\<not> 32 > filesize - ?off"
  proof -
    have u: "unat (filesize - e_phoff eh) = length file - unat (e_phoff eh)" "unat (e_phoff eh) \<le> length file"
      using a(1) assms(2) by (auto simp: word_less_nat_alt unat_sub_nowrap)
    then have s: "unat (e_phoff eh) + unat ?sz \<le> length file" using a(2) by (simp add: word_less_nat_alt)
    have "length file < 2 ^ 32" using unat_less_len [of filesize] assms(2) by simp
    then have o: "unat ?off = unat (e_phoff eh) + unat ?sz" using s by (intro unat_add_nowrap) simp
    have "unat (filesize - ?off) = length file - unat ?off" using s o assms(2) by (subst unat_sub_nowrap) simp_all
    then show ?thesis using a(3) s o by (simp add: phdr_at_def word_less_nat_alt)
  qed
  then show ?thesis using assms by (auto simp: elf_phdr_def Let_def)
qed

lemma overlaps_one_total:
  assumes "ehdr_at file = Some eh" and "unat filesize = length file" and "e_phentsize eh \<noteq> 0"
  shows "\<exists>b. overlaps_one file filesize ph js = Some b"
proof (induction js)
  case (Cons j js)
  obtain r where "elf_phdr file filesize (word_of_nat j) = Some r" using elf_phdr_total [OF assms] by blast
  then show ?case using Cons by (auto simp: Let_def)
qed auto

lemma first_pass_total:
  assumes "ehdr_at file = Some eh" and "unat filesize = length file" and "e_phentsize eh \<noteq> 0"
  shows "\<exists>r. first_pass file filesize ent is entry loads = Some r"
proof (induction "is" arbitrary: entry loads)
  case (Cons i "is")
  obtain r where r: "elf_phdr file filesize (word_of_nat i) = Some r" using elf_phdr_total [OF assms] by blast
  show ?case
  proof (cases r)
    case (Some ph)
    obtain b where "overlaps_one file filesize ph [0 ..< i] = Some b" using overlaps_one_total [OF assms] by blast
    then show ?thesis using Cons r Some by (simp add: Let_def)
  qed (simp add: r)
qed simp

lemma elf_check_returns:
  assumes "unat filesize = length file"
  shows "\<exists>b. elf_check file filesize = Some b"
proof (cases "filesize < 52")
  case False
  then have "52 \<le> length file" using assms by (simp add: word_less_nat_alt)
  then obtain eh where eh: "ehdr_at file = Some eh" using ehdr_in by blast
  show ?thesis
  proof (cases "elf_table_ok eh filesize")
    case True
    then have "e_phentsize eh \<noteq> 0" by (auto simp: elf_table_ok_def)
    then obtain r where "first_pass file filesize (e_entry eh) [0 ..< unat (e_phnum eh)] False 0 = Some r"
      using first_pass_total [OF eh assms] by blast
    then show ?thesis using eh False by (cases r) (auto simp: elf_check_def)
  qed (use eh False in \<open>auto simp: elf_check_def\<close>)
qed (auto simp: elf_check_def)

section \<open>What an accepted file holds\<close>

definition loadable :: "elf32_phdr_t \<Rightarrow> bool" where
  "loadable ph \<longleftrightarrow> p_type ph = PT_LOAD \<and> p_memsz ph \<noteq> 0"

lemma overlaps_one_False:
  "overlaps_one file filesize ph js = Some False \<Longrightarrow> j \<in> set js \<Longrightarrow>
   elf_phdr file filesize (word_of_nat j) = Some (Some pv) \<Longrightarrow> loadable pv \<Longrightarrow> \<not> elf_segments_overlap ph pv"
proof (induction js)
  case (Cons i js)
  then show ?case by (cases "elf_phdr file filesize (word_of_nat i)")
    (auto simp: Let_def loadable_def split: if_splits option.splits)
qed simp

text \<open>The segments that the first pass accepts.\<close>

definition segments_ok :: "bytes \<Rightarrow> u32 \<Rightarrow> nat \<Rightarrow> bool" where
  "segments_ok file filesize n \<longleftrightarrow>
     (\<forall>i < n. \<exists>ph. elf_phdr file filesize (word_of_nat i) = Some (Some ph) \<and>
        (loadable ph \<longrightarrow> elf_validate_segment ph filesize \<and>
           (\<forall>j < i. \<forall>pv. elf_phdr file filesize (word_of_nat j) = Some (Some pv) \<longrightarrow> loadable pv \<longrightarrow> \<not> elf_segments_overlap ph pv)))"

lemma first_pass_ok:
  assumes "first_pass file filesize ent [i ..< n] entry loads = Some (Some r)"
  shows "\<forall>k. i \<le> k \<and> k < n \<longrightarrow> (\<exists>ph. elf_phdr file filesize (word_of_nat k) = Some (Some ph) \<and>
        (loadable ph \<longrightarrow> elf_validate_segment ph filesize \<and>
           (\<forall>j < k. \<forall>pv. elf_phdr file filesize (word_of_nat j) = Some (Some pv) \<longrightarrow> loadable pv \<longrightarrow> \<not> elf_segments_overlap ph pv)))"
    and "fst r \<longrightarrow> entry \<or> (\<exists>k ph. i \<le> k \<and> k < n \<and> elf_phdr file filesize (word_of_nat k) = Some (Some ph) \<and> loadable ph \<and>
       ent \<ge> p_vaddr ph \<and> ent - p_vaddr ph < p_memsz ph \<and> p_flags ph AND PF_X \<noteq> 0)"
proof -
  have "(\<forall>k. i \<le> k \<and> k < n \<longrightarrow> (\<exists>ph. elf_phdr file filesize (word_of_nat k) = Some (Some ph) \<and>
        (loadable ph \<longrightarrow> elf_validate_segment ph filesize \<and>
           (\<forall>j < k. \<forall>pv. elf_phdr file filesize (word_of_nat j) = Some (Some pv) \<longrightarrow> loadable pv \<longrightarrow> \<not> elf_segments_overlap ph pv)))) \<and>
     (fst r \<longrightarrow> entry \<or> (\<exists>k ph. i \<le> k \<and> k < n \<and> elf_phdr file filesize (word_of_nat k) = Some (Some ph) \<and> loadable ph \<and>
       ent \<ge> p_vaddr ph \<and> ent - p_vaddr ph < p_memsz ph \<and> p_flags ph AND PF_X \<noteq> 0))"
    (is "?A i \<and> ?B entry i")
    using assms
  proof (induction "n - i" arbitrary: i entry loads)
    case 0
    then have "n \<le> i" by simp
    then show ?case using 0 by auto
  next
    case (Suc c)
    have i: "i < n" "[i ..< n] = i # [Suc i ..< n]" using Suc.hyps(2) by (auto simp: upt_conv_Cons)
    have c: "c = n - Suc i" using Suc.hyps(2) by simp
    have split: "(\<forall>k. i \<le> k \<and> k < n \<longrightarrow> Q k) \<longleftrightarrow> Q i \<and> (\<forall>k. Suc i \<le> k \<and> k < n \<longrightarrow> Q k)" for Q
      using i(1) by (metis Suc_leD Suc_leI le_neq_implies_less order_refl)
    obtain ph where ph: "elf_phdr file filesize (word_of_nat i) = Some (Some ph)"
      using Suc.prems unfolding i(2) by (auto simp: bind_eq_Some_conv split: option.splits)
    note IH = Suc.hyps(1) [OF c]
    show ?case
    proof (cases "loadable ph")
      case False
      then have "first_pass file filesize ent [Suc i ..< n] entry loads = Some (Some r)"
        using Suc.prems ph unfolding i(2) by (auto simp: loadable_def split: if_splits)
      note r = IH [OF this]
      then have "?A i" unfolding split using ph False by blast
      moreover have "?B entry i" using r by (meson Suc_leD)
      ultimately show ?thesis by blast
    next
      case True
      let ?e = "ent \<ge> p_vaddr ph \<and> ent - p_vaddr ph < p_memsz ph \<and> p_flags ph AND PF_X \<noteq> 0"
      have v: "elf_validate_segment ph filesize" "overlaps_one file filesize ph [0 ..< i] = Some False"
        "first_pass file filesize ent [Suc i ..< n] (entry \<or> ?e) (loads + 1) = Some (Some r)"
        using Suc.prems ph True unfolding i(2) by (auto simp: loadable_def Let_def bind_eq_Some_conv split: if_splits)
      note r = IH [OF v(3)]
      have "\<not> elf_segments_overlap ph pv" if "j < i" "elf_phdr file filesize (word_of_nat j) = Some (Some pv)" "loadable pv" for j pv
        using overlaps_one_False [OF v(2) _ that(2,3)] that(1) by simp
      then have "?A i" unfolding split using ph True v(1) r by blast
      moreover have "?B entry i" using r ph True i(1) by (meson Suc_leD order_refl)
      ultimately show ?thesis by blast
    qed
  qed
  then show "?A i" "?B entry i" by blast+
qed

lemma elf_check_segments:
  assumes "elf_check file filesize = Some True"
  shows "\<exists>eh. ehdr_at file = Some eh \<and> 0 < unat (e_phnum eh) \<and> e_phentsize eh \<noteq> 0 \<and> segments_ok file filesize (unat (e_phnum eh)) \<and>
    0x1000 \<le> e_entry eh \<and> e_entry eh < USER_STACK_BASE \<and>
    (\<exists>k < unat (e_phnum eh). \<exists>ph. elf_phdr file filesize (word_of_nat k) = Some (Some ph) \<and> loadable ph \<and>
       e_entry eh \<ge> p_vaddr ph \<and> e_entry eh - p_vaddr ph < p_memsz ph \<and> p_flags ph AND PF_X \<noteq> 0)"
proof -
  obtain eh where eh: "ehdr_at file = Some eh" "elf_table_ok eh filesize"
    "\<exists>entry loads. first_pass file filesize (e_entry eh) [0 ..< unat (e_phnum eh)] False 0 = Some (Some (entry, loads)) \<and>
       loads \<noteq> 0 \<and> \<not> (e_entry eh < USER_VADDR_MIN \<or> e_entry eh \<ge> USER_STACK_BASE \<or> \<not> entry)"
    using assms by (auto simp: elf_check_def bind_eq_Some_conv split: if_splits option.splits)
  then obtain entry loads where f: "first_pass file filesize (e_entry eh) [0 ..< unat (e_phnum eh)] False 0 = Some (Some (entry, loads))"
    "entry" "\<not> e_entry eh < USER_VADDR_MIN" "\<not> e_entry eh \<ge> USER_STACK_BASE" by blast
  note P = first_pass_ok [OF f(1)]
  have "segments_ok file filesize (unat (e_phnum eh))" using P(1) by (simp add: segments_ok_def)
  moreover have "0 < unat (e_phnum eh)" "e_phentsize eh \<noteq> 0" using eh(2) by (auto simp: elf_table_ok_def unat_gt_0)
  moreover have "0x1000 \<le> e_entry eh" "e_entry eh < USER_STACK_BASE" using f(3,4) by (auto simp: USER_VADDR_MIN_def)
  ultimately show ?thesis using eh(1) P(2) f(2) by auto
qed

section \<open>Segments in numbers\<close>

text \<open>The pages of a segment, and that an accepted segment lies below the kernel's half and off the stack.\<close>

definition first_page :: "elf32_phdr_t \<Rightarrow> nat" where "first_page ph = page_no (p_vaddr ph)"

definition end_page :: "elf32_phdr_t \<Rightarrow> nat" where
  "end_page ph = (unat (p_vaddr ph) + unat (p_memsz ph) + 4095) div 4096"

lemma valid_segment:
  assumes "elf_validate_segment ph filesize" and "p_memsz ph \<noteq> 0"
  shows "0x1000 \<le> unat (p_vaddr ph)" "unat (p_vaddr ph) + unat (p_memsz ph) \<le> 0xC0000000" "unat (p_filesz ph) \<le> unat (p_memsz ph)"
    "unat (p_offset ph) + unat (p_filesz ph) \<le> unat filesize" "0 < unat (p_memsz ph)"
    "unat (p_vaddr ph) + unat (p_memsz ph) \<le> 0xBFBFC000 \<or> 0xBFC00000 \<le> unat (p_vaddr ph)"
proof -
  have v: "\<not> p_filesz ph > p_memsz ph" "\<not> p_offset ph > filesize" "\<not> p_filesz ph > filesize - p_offset ph"
    "\<not> p_vaddr ph < 0x1000" "\<not> p_vaddr ph \<ge> 0xC0000000" "\<not> p_memsz ph > 0xC0000000 - p_vaddr ph"
    "\<not> (p_vaddr ph < 0xBFC00000 \<and> p_vaddr ph + p_memsz ph > 0xBFBFC000)"
    using assms by (auto simp: elf_validate_segment_def elf_consts paging_consts split: if_splits)
  show a: "0x1000 \<le> unat (p_vaddr ph)" "unat (p_filesz ph) \<le> unat (p_memsz ph)" "0 < unat (p_memsz ph)"
    using v assms(2) by (auto simp: word_less_nat_alt unat_gt_0)
  have "unat (p_vaddr ph) < 0xC0000000" using v(5) by (simp add: word_le_nat_alt)
  then have "unat (0xC0000000 - p_vaddr ph) = 0xC0000000 - unat (p_vaddr ph)" by (subst unat_sub_nowrap) simp_all
  then show b: "unat (p_vaddr ph) + unat (p_memsz ph) \<le> 0xC0000000" using v(6) \<open>unat (p_vaddr ph) < _\<close> by (simp add: word_less_nat_alt)
  have "unat (filesize - p_offset ph) = unat filesize - unat (p_offset ph)" "unat (p_offset ph) \<le> unat filesize"
    using v(2) by (auto simp: word_less_nat_alt unat_sub_nowrap)
  then show "unat (p_offset ph) + unat (p_filesz ph) \<le> unat filesize" using v(3) by (simp add: word_less_nat_alt)
  have "unat (p_vaddr ph + p_memsz ph) = unat (p_vaddr ph) + unat (p_memsz ph)" using b by (intro unat_add_nowrap) simp
  then show "unat (p_vaddr ph) + unat (p_memsz ph) \<le> 0xBFBFC000 \<or> 0xBFC00000 \<le> unat (p_vaddr ph)"
    using v(7) by (auto simp: word_less_nat_alt)
qed

lemma round_up:
  assumes "unat (e :: u32) \<le> 0xC0000000"
  shows "unat ((e + PAGING_PAGE_SIZE - 1) AND NOT (PAGING_PAGE_SIZE - 1)) = 4096 * ((unat e + 4095) div 4096)"
proof -
  have u: "unat (e + PAGING_PAGE_SIZE - 1) = unat e + 4095"
  proof -
    have e: "e + PAGING_PAGE_SIZE - 1 = e + 4095" by (simp add: paging_consts)
    show ?thesis unfolding e using assms by (simp add: unat_add_nowrap)
  qed
  note f = page_floor [of "e + PAGING_PAGE_SIZE - 1"]
  show ?thesis using page_aligned_unat [OF f(1)] unfolding f(2) by (simp add: page_no_def u)
qed

lemma page_range:
  assumes "elf_validate_segment ph filesize" and "p_memsz ph \<noteq> 0"
  shows "\<exists>s e. elf_segment_page_range ph = Some (s, e) \<and> page_aligned s \<and> page_no s = first_page ph \<and> unat s = 4096 * first_page ph \<and>
    unat e = 4096 * end_page ph" "first_page ph < end_page ph" "end_page ph \<le> 0xC0000"
proof -
  note v = valid_segment [OF assms]
  let ?e = "p_vaddr ph + p_memsz ph" and ?s = "p_vaddr ph AND NOT (PAGING_PAGE_SIZE - 1)"
  have u: "unat ?e = unat (p_vaddr ph) + unat (p_memsz ph)" using v(2) by (intro unat_add_nowrap) simp
  have pe: "unat ((?e + PAGING_PAGE_SIZE - 1) AND NOT (PAGING_PAGE_SIZE - 1)) = 4096 * end_page ph"
    using round_up [of ?e] u v(2) by (simp add: end_page_def)
  have "unat ?e \<le> 4096 * end_page ph" unfolding u end_page_def by simp
  then have r: "elf_segment_page_range ph = Some (?s, (?e + PAGING_PAGE_SIZE - 1) AND NOT (PAGING_PAGE_SIZE - 1))"
    using assms(2) u pe v(5) by (simp add: elf_segment_page_range_def Let_def word_less_nat_alt)
  have ps: "page_aligned ?s" "page_no ?s = first_page ph" "unat ?s = 4096 * first_page ph"
    using page_floor [of "p_vaddr ph"] page_aligned_unat [OF page_floor(1), of "p_vaddr ph"] by (simp_all add: first_page_def)
  show "\<exists>s e. elf_segment_page_range ph = Some (s, e) \<and> page_aligned s \<and> page_no s = first_page ph \<and> unat s = 4096 * first_page ph \<and>
    unat e = 4096 * end_page ph" using r ps pe by blast
  have "unat (p_vaddr ph) < unat ?e" using u v(5) by simp
  then show "first_page ph < end_page ph" unfolding first_page_def end_page_def page_no_def u by simp
  show "end_page ph \<le> 0xC0000" unfolding end_page_def using v(2) by simp
qed

lemma segment_pages:
  assumes "elf_validate_segment ph filesize" and "p_memsz ph \<noteq> 0" and "k < unat (p_memsz ph)"
  shows "unat (p_vaddr ph + word_of_nat k) = unat (p_vaddr ph) + k" "p_vaddr ph + word_of_nat k < 0xC0000000"
    "first_page ph \<le> page_no (p_vaddr ph + word_of_nat k)" "page_no (p_vaddr ph + word_of_nat k) < end_page ph"
proof -
  note v = valid_segment [OF assms(1,2)]
  show u: "unat (p_vaddr ph + word_of_nat k) = unat (p_vaddr ph) + k" using v(2) assms(3) by (intro unat_offset) simp
  then show "p_vaddr ph + word_of_nat k < 0xC0000000" using v(2) assms(3) by (simp add: word_less_nat_alt)
  show "first_page ph \<le> page_no (p_vaddr ph + word_of_nat k)" unfolding first_page_def page_no_def u by (simp add: div_le_mono)
  show "page_no (p_vaddr ph + word_of_nat k) < end_page ph" unfolding end_page_def page_no_def u using assms(3) by simp
qed

lemma no_overlap:
  assumes "elf_validate_segment a filesize" "p_memsz a \<noteq> 0" and "elf_validate_segment b filesize" "p_memsz b \<noteq> 0"
    and "\<not> elf_segments_overlap a b"
  shows "end_page b \<le> first_page a \<or> end_page a \<le> first_page b"
proof -
  obtain s e s' e' where r: "elf_segment_page_range a = Some (s, e)" "unat s = 4096 * first_page a" "unat e = 4096 * end_page a"
    "elf_segment_page_range b = Some (s', e')" "unat s' = 4096 * first_page b" "unat e' = 4096 * end_page b"
    using page_range(1) [OF assms(1,2)] page_range(1) [OF assms(3,4)] by blast
  then show ?thesis using assms(5) by (auto simp: elf_segments_overlap_def word_less_nat_alt)
qed

end
