(* ===== verification/Elf_Load.thy ===== *)
theory Elf_Load
  imports Elf_Check
begin

text \<open>
  Loading: what the loader needs of the code that maps pages is the locale \<open>page_mapper\<close>, interpreted on
  \<open>paging_map_page\<close>; frames come from the frame allocator by its contract \<open>frame_allocator\<close>. The image in memory
  is the one the file describes.
\<close>

section \<open>The contract for mapping pages\<close>

locale page_mapper =
  fixes mp :: "u32 \<Rightarrow> u32 \<Rightarrow> 'h \<Rightarrow> (bool \<times> 'h) option" and ok :: "'h \<Rightarrow> bool" and step :: "'h \<Rightarrow> 'h \<Rightarrow> bool"
    and look :: "'h \<Rightarrow> u32 \<Rightarrow> 'a option" and img :: "u32 \<Rightarrow> u32 \<Rightarrow> 'a"
  assumes map_law: "ok h \<Longrightarrow> v < 0xC0000000 \<Longrightarrow> page_aligned v \<Longrightarrow> page_aligned p \<Longrightarrow>
      \<exists>r h'. mp v p h = Some (r, h') \<and> ok h' \<and> step h h' \<and>
        (\<forall>x < 0xC0000000. look h' x = (if r \<and> page_no x = page_no v then Some (img p x) else look h x))"
    and step_refl: "step h h"
    and step_trans: "step h h1 \<Longrightarrow> step h1 h2 \<Longrightarrow> step h h2"
begin

lemma map_pages_all:
  assumes "ok h" and "page_aligned v" "page_aligned p" and "page_no v + n \<le> 0xC0000" "page_no p + n \<le> 2 ^ 20" and "i \<le> n"
  shows "\<exists>r h'. map_pages mp v p [i ..< n] h = Some (r, h') \<and> ok h' \<and> step h h' \<and>
    (r \<longrightarrow> (\<forall>x < 0xC0000000. look h' x =
       (if page_no v + i \<le> page_no x \<and> page_no x < page_no v + n
        then Some (img (p + word_of_nat (page_no x - page_no v) * PAGING_PAGE_SIZE) x) else look h x)))"
  using assms(1,6)
proof (induction "n - i" arbitrary: i h)
  case 0
  then have "i = n" by simp
  have none: "(page_no v + n \<le> page_no x \<and> page_no x < page_no v + n) = False" for x by auto
  show ?case unfolding \<open>i = n\<close> using 0(2) by (intro exI [of _ True] exI [of _ h]) (simp only: none, simp add: step_refl)
next
  case (Suc c)
  have i: "i < n" "[i ..< n] = i # [Suc i ..< n]" using Suc.hyps(2) by (auto simp: upt_conv_Cons)
  let ?v = "v + word_of_nat i * PAGING_PAGE_SIZE" and ?p = "p + word_of_nat i * PAGING_PAGE_SIZE"
  have at: "page_aligned (a + word_of_nat i * PAGING_PAGE_SIZE)" "page_no (a + word_of_nat i * PAGING_PAGE_SIZE) = page_no a + i"
    if "page_aligned a" "page_no a + n \<le> 2 ^ 20" for a
  proof -
    have w: "unat (word_of_nat i * PAGING_PAGE_SIZE :: u32) = 4096 * i"
    proof -
      have "i < 2 ^ 20" using that(2) i(1) by linarith
      then have "unat (word_of_nat i :: u32) = i" by (simp add: unat_of_nat)
      then show ?thesis using \<open>i < 2 ^ 20\<close> by (simp add: unat_mult_nowrap paging_consts)
    qed
    have "4096 * (page_no a + i) < 2 ^ 32" using that(2) i(1) by simp
    then have u: "unat (a + word_of_nat i * PAGING_PAGE_SIZE) = 4096 * (page_no a + i)"
      using page_aligned_unat [OF that(1)] w by (subst unat_add_nowrap) simp_all
    show "page_aligned (a + word_of_nat i * PAGING_PAGE_SIZE)" unfolding page_aligned_def u by simp
    show "page_no (a + word_of_nat i * PAGING_PAGE_SIZE) = page_no a + i" unfolding page_no_def [of "a + _"] u by simp
  qed
  have v: "page_aligned ?v" "page_no ?v = page_no v + i" using at [OF assms(2)] assms(4) by simp_all
  have p: "page_aligned ?p" using at(1) [OF assms(3,5)] .
  have vl: "?v < 0xC0000000"
  proof -
    have "unat ?v = 4096 * (page_no v + i)" using page_aligned_unat [OF v(1)] v(2) by simp
    then show ?thesis using assms(4) i(1) by (simp add: word_less_nat_alt)
  qed
  obtain r h1 where m: "mp ?v ?p h = Some (r, h1)" "ok h1" "step h h1"
    "\<forall>x < 0xC0000000. look h1 x = (if r \<and> page_no x = page_no ?v then Some (img ?p x) else look h x)"
    using map_law [OF Suc.prems(1) vl v(1) p] by blast
  show ?case
  proof (cases r)
    case False
    then show ?thesis unfolding i(2) using m by auto
  next
    case True
    have "\<exists>r' h'. map_pages mp v p [Suc i ..< n] h1 = Some (r', h') \<and> ok h' \<and> step h1 h' \<and>
      (r' \<longrightarrow> (\<forall>x < 0xC0000000. look h' x =
       (if page_no v + Suc i \<le> page_no x \<and> page_no x < page_no v + n
        then Some (img (p + word_of_nat (page_no x - page_no v) * PAGING_PAGE_SIZE) x) else look h1 x)))"
      by (rule Suc.hyps(1)) (use Suc.hyps(2) m(2) i(1) in auto)
    then obtain r' h' where r': "map_pages mp v p [Suc i ..< n] h1 = Some (r', h')" "ok h'" "step h1 h'"
      "r' \<Longrightarrow> \<forall>x < 0xC0000000. look h' x =
       (if page_no v + Suc i \<le> page_no x \<and> page_no x < page_no v + n
        then Some (img (p + word_of_nat (page_no x - page_no v) * PAGING_PAGE_SIZE) x) else look h1 x)" by blast
    have "look h' x = (if page_no v + i \<le> page_no x \<and> page_no x < page_no v + n
        then Some (img (p + word_of_nat (page_no x - page_no v) * PAGING_PAGE_SIZE) x) else look h x)"
      if "r'" "x < 0xC0000000" for x
      using r'(4) [OF that(1)] m(4) that(2) True v(2) i(1) by (cases "page_no x = page_no v + i") auto
    then show ?thesis unfolding i(2) using m(1) True r' step_trans [OF m(3) r'(3)] by auto
  qed
qed

end

text \<open>Changes that stay in the heap.\<close>

definition in_heap :: "heap_t \<Rightarrow> u32 \<Rightarrow> bool" where
  "in_heap h a \<longleftrightarrow> unat (heap_storage h) \<le> unat a \<and> unat a < unat (heap_storage h) + 0x100000"

definition heap_only :: "heap_t \<Rightarrow> heap_t \<Rightarrow> bool" where
  "heap_only h h' \<longleftrightarrow> heap_storage h' = heap_storage h \<and> (\<forall>a. \<not> in_heap h a \<longrightarrow> hmem h' a = hmem h a)"

lemma owned_in_heap:
  assumes "owns h P" and "page_no a \<in> P"
  shows "in_heap h a"
proof -
  have "unat a \<in> page_bytes (page_no a)" using mult_div_mod_eq [of 4096 "unat a"] by (simp add: page_bytes_def page_no_def)
  then show ?thesis using owns_range [OF assms] by (auto simp: in_heap_def)
qed

lemma grows_heap_only: "grows pd h P h' P' \<Longrightarrow> heap_only h h'"
  using owned_in_heap [of h' P'] by (auto simp: grows_def heap_only_def space_ok_def in_heap_def)

interpretation pages: page_mapper "\<lambda>v p. paging_map_page pd v p flags" "\<lambda>h. flags AND NOT 7 = 0 \<and> (\<exists>P. space_ok h pd P)"
  heap_only "\<lambda>h. mmu (hmem h) (paging_phys_addr pd)" "\<lambda>p x. (p OR (x AND 0xFFF), flags AND 4 \<noteq> 0, flags AND 2 \<noteq> 0)" for pd flags
proof (unfold_locales, goal_cases)
  case (1 h v p)
  then obtain P where "space_ok h pd P" "flags AND NOT 7 = 0" by blast
  then obtain r h' P' where "paging_map_page pd v p flags h = Some (r, h')" "grows pd h P h' P'"
    "\<forall>x < 0xC0000000. mmu (hmem h') (paging_phys_addr pd) x =
      (if r \<and> page_no x = page_no v then Some (p OR (x AND 0xFFF), flags AND 4 \<noteq> 0, flags AND 2 \<noteq> 0)
       else mmu (hmem h) (paging_phys_addr pd) x)"
    using map_page_ok [OF _ 1(2,3,4)] by blast
  then show ?case using 1(1) grows_heap_only by (auto simp: grows_def)
next
  case (2 h)
  then show ?case by (simp add: heap_only_def)
next
  case (3 h h1 h2)
  then show ?case by (auto simp: heap_only_def in_heap_def)
qed

section \<open>Filling frames\<close>

lemma fold_bytes:
  assumes "n \<le> 2 ^ 32"
  shows "fold (\<lambda>i m. m((d :: u32) + word_of_nat i := f i)) [0 ..< n] m a = (if unat (a - d) < n then f (unat (a - d)) else m a)"
  using assms
proof (induction n)
  case 0
  then show ?case by simp
next
  case (Suc n)
  have "(a = d + word_of_nat n) = (unat (a - d) = n)"
  proof
    assume "a = d + word_of_nat n"
    then show "unat (a - d) = n" using Suc.prems by (simp add: unat_of_nat)
  next
    assume "unat (a - d) = n"
    then have "word_of_nat n = a - d" by auto
    then show "a = d + word_of_nat n" by simp
  qed
  then show ?case using Suc by (auto simp: less_Suc_eq)
qed

lemma fill_segment_ok:
  assumes v: "elf_validate_segment ph filesize" "p_memsz ph \<noteq> 0" and len: "unat filesize = length file"
  shows "\<exists>m'. fill_segment file ph frm m = Some m' \<and>
    (\<forall>a. m' a = (let k = unat (a - (paging_virt_addr frm + (p_vaddr ph AND 0xFFF))) in
       if k < unat (p_filesz ph) then file ! (unat (p_offset ph) + k) else if k < unat (p_memsz ph) then 0 else m a))"
proof -
  let ?d = "paging_virt_addr frm + (p_vaddr ph AND 0xFFF)" and ?f = "unat (p_filesz ph)" and ?n = "unat (p_memsz ph)"
  note s = valid_segment [OF v]
  define bs where "bs = take ?f (drop (unat (p_offset ph)) file)"
  have bs: "arr_slice file (unat (p_offset ph)) ?f = Some bs" "length bs = ?f" "\<And>k. k < ?f \<Longrightarrow> bs ! k = file ! (unat (p_offset ph) + k)"
    using s(4) len by (auto simp: bs_def arr_slice_def)
  define m1 where "m1 = elf_memcpy ?d bs m"
  have m1: "m1 a = (if unat (a - ?d) < ?f then file ! (unat (p_offset ph) + unat (a - ?d)) else m a)" for a
  proof -
    have "?f \<le> 2 ^ 32" using unat_less_len [of "p_filesz ph"] by simp
    then show ?thesis unfolding m1_def elf_memcpy_def using fold_bytes [of "length bs" ?d "\<lambda>i. bs ! i" m a] bs by simp
  qed
  have same: "p_filesz ph = 0 \<Longrightarrow> m1 = m" using bs(2) by (auto simp: m1_def elf_memcpy_def)
  define m2 where "m2 = (if p_memsz ph > p_filesz ph then elf_memset (?d + p_filesz ph) 0 (unat (p_memsz ph - p_filesz ph)) m1 else m1)"
  have "fill_segment file ph frm m = Some m2"
    using bs(1) same by (simp add: fill_segment_def m2_def m1_def Let_def PAGING_PAGE_SIZE_def)
  moreover have "m2 a = (let k = unat (a - ?d) in
       if k < ?f then file ! (unat (p_offset ph) + k) else if k < ?n then 0 else m a)" for a
  proof (cases "p_memsz ph > p_filesz ph")
    case True
    have n: "unat (p_memsz ph - p_filesz ph) = ?n - ?f" using s(3) by (rule unat_sub_nowrap)
    have "m2 a = (if unat (a - (?d + p_filesz ph)) < ?n - ?f then 0 else m1 a)"
      using True fold_bytes [of "?n - ?f" "?d + p_filesz ph" "\<lambda>_. 0" m1 a] unat_less_len [of "p_memsz ph"]
      by (simp add: m2_def elf_memset_def n)
    moreover have "(unat (a - (?d + p_filesz ph)) < ?n - ?f) = (?f \<le> unat (a - ?d) \<and> unat (a - ?d) < ?n)"
    proof -
      have e: "a - (?d + p_filesz ph) = (a - ?d) - p_filesz ph" by simp
      show ?thesis
      proof (cases "?f \<le> unat (a - ?d)")
        case True
        then have "unat (a - (?d + p_filesz ph)) = unat (a - ?d) - ?f" unfolding e by (rule unat_sub_nowrap)
        then show ?thesis using True s(3) by auto
      next
        case False
        have "unat (a - (?d + p_filesz ph)) = 2 ^ 32 + unat (a - ?d) - ?f"
          unfolding e using False unat_less_len [of "p_filesz ph"] by (subst unat_sub_if') simp
        then show ?thesis using False unat_less_len [of "p_memsz ph"] by simp
      qed
    qed
    ultimately show ?thesis using m1 [of a] by (auto simp: Let_def)
  next
    case False
    then have "?n = ?f" using s(3) by (simp add: word_less_nat_alt)
    then show ?thesis using m1 [of a] False by (simp add: m2_def Let_def)
  qed
  ultimately show ?thesis by blast
qed

end
