(* ===== verification/Elf_Image.thy ===== *)
theory Elf_Image
  imports Elf_Load
begin

text \<open>
  The address space the loader builds is the one the file describes: every segment at its address with its
  bytes and permissions, a stack, and nothing else, on frames that no two addresses share.
\<close>

section \<open>An address space under construction\<close>

text \<open>Every user address leads to a frame that the allocator gave out, and no two addresses to the same byte.\<close>

definition backed :: "memory \<Rightarrow> u32 \<Rightarrow> nat set \<Rightarrow> bool" where
  "backed m c U \<longleftrightarrow> (\<forall>x < 0xC0000000. \<forall>p u w. mmu m c x = Some (p, u, w) \<longrightarrow> unat p \<in> U \<and>
     (\<forall>y < 0xC0000000. \<forall>u' w'. mmu m c y = Some (p, u', w') \<longrightarrow> y = x))"

definition loading :: "heap_t \<Rightarrow> u32 \<Rightarrow> pmm_state \<Rightarrow> bool" where
  "loading h pd pm \<longleftrightarrow> (\<exists>P. space_ok h pd P) \<and> pmm_inv pm \<and> backed (hmem h) (paging_phys_addr pd) (pmm_used pm)"

lemma backed_same:
  assumes "\<And>x. x < 0xC0000000 \<Longrightarrow> mmu m' c x = mmu m c x"
  shows "backed m' c U = backed m c U"
  unfolding backed_def by (simp add: assms cong: imp_cong)

text \<open>What is mapped stays mapped, with the same contents.\<close>

definition keeps_mapped :: "u32 \<Rightarrow> memory \<Rightarrow> memory \<Rightarrow> bool" where
  "keeps_mapped c m m' \<longleftrightarrow> (\<forall>x < 0xC0000000. mmu m c x \<noteq> None \<longrightarrow> mmu m' c x = mmu m c x \<and> vread c m' x = vread c m x)"

lemma keeps_trans: "keeps_mapped c m m1 \<Longrightarrow> keeps_mapped c m1 m2 \<Longrightarrow> keeps_mapped c m m2"
  by (auto simp: keeps_mapped_def)

lemma pmm_used_range: "pmm_inv pm \<Longrightarrow> f \<in> pmm_used pm \<Longrightarrow> 0x200000 \<le> f \<and> f < 0x400000"
  by (auto simp: pmm_used_def pmm_inv_def word_le_nat_alt pmm_consts split: if_splits)

text \<open>Physical addresses of frames, seen through the kernel's window, are off the heap.\<close>

lemma frame_off_heap:
  assumes "low_heap h" and "0x200000 \<le> unat p" "unat p < 0x400000"
  shows "\<not> in_heap h (paging_virt_addr p)" "unat (paging_virt_addr p) = unat p + 0xC0000000"
proof -
  show u: "unat (paging_virt_addr p) = unat p + 0xC0000000"
    unfolding paging_virt_addr_def PAGING_HIGHER_HALF_OFFSET_def using assms(3) by (subst unat_add_nowrap) simp_all
  show "\<not> in_heap h (paging_virt_addr p)" using assms(1,2) by (auto simp: in_heap_def low_heap_def u)
qed

lemma off_heap_space:
  assumes "space_ok h pd P" and "\<And>a. in_heap h a \<Longrightarrow> m a = hmem h a"
  shows "space_ok (h\<lparr>hmem := m\<rparr>) pd P" "x < 0xC0000000 \<Longrightarrow> mmu m (paging_phys_addr pd) x = mmu (hmem h) (paging_phys_addr pd) x"
proof -
  have s: "owns h P" "low_heap h" "page_aligned pd" "page_no pd \<in> P" "tables_ok (hmem h) pd P" using assms(1) by (auto simp: space_ok_def)
  have e: "entry_at m t i = entry_at (hmem h) t i" if "page_aligned t" "page_no t \<in> P" "i < 1024" for t i
    by (rule entry_at_cong [OF that(1,3)]) (use assms(2) owned_in_heap [OF s(1)] that(2) in metis)
  have d: "entry_at m pd i = entry_at (hmem h) pd i" if "i < 768" for i
    by (rule e [OF s(3,4)]) (use that in \<open>simp add: word_less_nat_alt\<close>)
  have t: "tables_ok m pd P" using s(5) by (auto simp: tables_ok_def pde_present_def d)
  then show "space_ok (h\<lparr>hmem := m\<rparr>) pd P" using s by (simp add: space_ok_def owns_hmem low_heap_def)
  show "mmu m (paging_phys_addr pd) x = mmu (hmem h) (paging_phys_addr pd) x" if x: "x < 0xC0000000"
  proof (cases "pde_present (hmem h) pd (pde_idx x)")
    case True
    then have "page_no (table_of (entry_at (hmem h) pd (pde_idx x))) \<in> P" using s(5) pde_idx_user [OF x] by (simp add: tables_ok_def)
    then have "entry_at m (table_of (entry_at (hmem h) pd (pde_idx x))) (pte_idx x) =
        entry_at (hmem h) (table_of (entry_at (hmem h) pd (pde_idx x))) (pte_idx x)"
      by (intro e table_of_aligned idx_less)
    then show ?thesis unfolding mmu_walk [OF t s(3) x] mmu_walk [OF s(5,3) x] d [OF pde_idx_user [OF x]] by simp
  next
    case False
    then show ?thesis
      unfolding mmu_walk [OF t s(3) x] mmu_walk [OF s(5,3) x] d [OF pde_idx_user [OF x]] by (simp add: pde_present_def PAGING_FLAG_PRESENT_def Let_def)
  qed
qed

section \<open>Mapping an area\<close>

definition in_pages :: "nat \<Rightarrow> nat \<Rightarrow> u32 \<Rightarrow> bool" where
  "in_pages s e x \<longleftrightarrow> s \<le> page_no x \<and> page_no x < e"

lemma in_pages_below: "in_pages s e x \<Longrightarrow> e \<le> 0xC0000 \<Longrightarrow> x < 0xC0000000"
  by (auto simp: in_pages_def page_no_def word_less_nat_alt)

text \<open>The frame address that \<open>map_pages\<close> gives to an address of the area.\<close>

lemma area_address:
  assumes "page_aligned v" "page_aligned p" and "in_pages (page_no v) (page_no v + n) x" and "page_no p + n \<le> 2 ^ 20"
  shows "(p + word_of_nat (page_no x - page_no v) * PAGING_PAGE_SIZE) OR (x AND 0xFFF) = p + (x - v)"
    "unat (p + (x - v)) = unat p + (unat x - unat v)" "unat x - unat v < n * 4096" "unat v \<le> unat x"
proof -
  let ?d = "page_no x - page_no v" and ?q = "p + word_of_nat (page_no x - page_no v) * PAGING_PAGE_SIZE"
  have x: "unat x = 4096 * page_no x + unat x mod 4096" by (simp add: page_no_def)
  have v: "unat v = 4096 * page_no v" and p: "unat p = 4096 * page_no p" using assms(1,2) by (simp_all add: page_aligned_unat)
  have d: "?d < n" "page_no v \<le> page_no x" using assms(3) by (auto simp: in_pages_def)
  show le: "unat v \<le> unat x" using x v d(2) by simp
  have m: "unat x mod 4096 < 4096" by simp
  have diff: "unat x - unat v = 4096 * ?d + unat x mod 4096" using x v d(2) by (simp add: diff_mult_distrib2)
  show lt: "unat x - unat v < n * 4096" unfolding diff using d(1) m by linarith
  have w: "unat (word_of_nat ?d * PAGING_PAGE_SIZE :: u32) = 4096 * ?d"
  proof -
    have "?d < 2 ^ 20" using d(1) assms(4) by linarith
    then show ?thesis by (subst unat_mult_nowrap) (simp_all add: unat_of_nat PAGING_PAGE_SIZE_def)
  qed
  have q: "unat ?q = 4096 * (page_no p + ?d)" using p w d(1) assms(4) by (subst unat_add_nowrap) simp_all
  have qa: "page_aligned ?q" "page_no ?q = page_no p + ?d" by (simp_all add: page_aligned_def page_no_def [of ?q] q)
  have "unat (x - v) = unat x - unat v" using le by (rule unat_sub_nowrap)
  then show u: "unat (p + (x - v)) = unat p + (unat x - unat v)" using lt p assms(4) by (subst unat_add_nowrap) simp_all
  have "unat (?q OR (x AND 0xFFF)) = 4096 * (page_no p + ?d) + unat x mod 4096"
    unfolding page_or_offset [OF qa(1)] unat_page_offset(1) [OF qa(1)] qa(2) ..
  then have "unat (?q OR (x AND 0xFFF)) = unat (p + (x - v))" unfolding u diff p by simp
  then show "?q OR (x AND 0xFFF) = p + (x - v)" by (simp only: word_unat_eq_iff)
qed

definition maps_area :: "memory \<Rightarrow> memory \<Rightarrow> u32 \<Rightarrow> u32 \<Rightarrow> u32 \<Rightarrow> nat \<Rightarrow> bool \<Rightarrow> bool" where
  "maps_area m m' c v frm n wr \<longleftrightarrow> (\<forall>x < 0xC0000000. mmu m' c x =
     (if in_pages (page_no v) (page_no v + n) x then Some (frm + (x - v), True, wr) else mmu m c x))"

lemma backed_area:
  assumes bk: "backed m c U" and ma: "maps_area m m' c v frm n wr"
    and area: "\<And>x. in_pages (page_no v) (page_no v + n) x \<Longrightarrow> unat (frm + (x - v)) \<in> R" and fresh: "R \<inter> U = {}"
  shows "backed m' c (U \<union> R)"
proof -
  let ?in = "in_pages (page_no v) (page_no v + n)"
  have cases: "?in x \<and> p = frm + (x - v) \<and> unat p \<in> R \<or> \<not> ?in x \<and> mmu m c x = Some (p, u, w) \<and> unat p \<in> U \<and> unat p \<notin> R"
    if "x < 0xC0000000" "mmu m' c x = Some (p, u, w)" for x p u w
  proof (cases "?in x")
    case True
    then have "p = frm + (x - v)" using ma that by (simp add: maps_area_def)
    then show ?thesis using True area by simp
  next
    case False
    then have "mmu m c x = Some (p, u, w)" using ma that by (simp add: maps_area_def)
    then have "unat p \<in> U" using bk that(1) unfolding backed_def by blast
    then show ?thesis using False \<open>mmu m c x = _\<close> fresh by blast
  qed
  show ?thesis
    unfolding backed_def
  proof (intro allI impI conjI)
    fix x p u w assume x: "x < 0xC0000000" "mmu m' c x = Some (p, u, w)"
    show "unat p \<in> U \<union> R" using cases [OF x] by blast
    fix y u' w' assume y: "y < 0xC0000000" "mmu m' c y = Some (p, u', w')"
    show "y = x"
    proof (cases "unat p \<in> R")
      case True
      then have "p = frm + (x - v)" "p = frm + (y - v)" using cases [OF x] cases [OF y] by blast+
      then show ?thesis by simp
    next
      case False
      then have "mmu m c x = Some (p, u, w)" "mmu m c y = Some (p, u', w')" using cases [OF x] cases [OF y] by blast+
      then show ?thesis using bk x(1) y(1) unfolding backed_def by blast
    qed
  qed
qed

lemma map_area:
  assumes ld: "loading h pd pm" and v: "page_aligned v" "page_no v + unat n \<le> 0xC0000"
    and al: "pmm_alloc_frames n pm = (frm, pm1)" "frm \<noteq> 0" and fl: "flags = 4 \<or> flags = 6"
    and new: "\<And>x. in_pages (page_no v) (page_no v + unat n) x \<Longrightarrow> mmu (hmem h) (paging_phys_addr pd) x = None"
  shows "\<exists>r h1. map_pages (\<lambda>v p. paging_map_page pd v p flags) v frm [0 ..< unat n] h = Some (r, h1) \<and>
    (r \<longrightarrow> loading h1 pd pm1 \<and> keeps_mapped (paging_phys_addr pd) (hmem h) (hmem h1) \<and>
      maps_area (hmem h) (hmem h1) (paging_phys_addr pd) v frm (unat n) (flags = 6))"
proof -
  let ?c = "paging_phys_addr pd" and ?in = "in_pages (page_no v) (page_no v + unat n)"
  have pm: "pmm_inv pm" using ld by (simp add: loading_def)
  have sp: "\<exists>P. space_ok h pd P" using ld by (simp add: loading_def)
  have r: "0x200000 \<le> unat frm" "unat frm + unat n * 4096 \<le> 0x400000" "page_aligned frm"
    using pmm.alloc_range [OF pm al] by (simp_all add: pmm_consts page_aligned_def)
  have frm: "page_no frm + unat n \<le> 2 ^ 20" using r(2) by (simp add: page_no_def)
  have lh: "low_heap h" using sp by (auto simp: space_ok_def)
  have ok: "flags AND NOT 7 = 0 \<and> (\<exists>P. space_ok h pd P)" using fl sp by auto
  obtain res h1 where m: "map_pages (\<lambda>v p. paging_map_page pd v p flags) v frm [0 ..< unat n] h = Some (res, h1)"
    "\<exists>P. space_ok h1 pd P" "heap_only h h1"
    "res \<Longrightarrow> \<forall>x < 0xC0000000. mmu (hmem h1) ?c x =
       (if page_no v + 0 \<le> page_no x \<and> page_no x < page_no v + unat n
        then Some ((frm + word_of_nat (page_no x - page_no v) * PAGING_PAGE_SIZE) OR (x AND 0xFFF), flags AND 4 \<noteq> 0, flags AND 2 \<noteq> 0)
        else mmu (hmem h) ?c x)"
    using pages.map_pages_all [OF ok v(1) r(3) v(2) frm le0] by blast
  note addr = area_address [OF v(1) r(3) _ frm]
  have ma: "maps_area (hmem h) (hmem h1) ?c v frm (unat n) (flags = 6)" if res
    unfolding maps_area_def
  proof (intro allI impI)
    fix x :: u32 assume "x < 0xC0000000"
    then show "mmu (hmem h1) ?c x = (if ?in x then Some (frm + (x - v), True, flags = 6) else mmu (hmem h) ?c x)"
      using m(4) [OF that] addr(1) [of x] fl by (auto simp: in_pages_def)
  qed
  have used: "pmm_used pm1 = pmm_used pm \<union> {unat frm ..< unat frm + unat n * 4096}" "pmm_inv pm1"
    using pmm.alloc_used [OF pm al] pmm.alloc_inv [OF pm al(1)] by blast+
  have fresh: "{unat frm ..< unat frm + unat n * 4096} \<inter> pmm_used pm = {}" by (rule pmm.alloc_fresh [OF pm al])
  have bk: "backed (hmem h1) ?c (pmm_used pm1)" if res
    unfolding used(1)
  proof (rule backed_area [OF _ ma [OF that] _ fresh])
    show "backed (hmem h) ?c (pmm_used pm)" using ld by (simp add: loading_def)
    show "unat (frm + (x - v)) \<in> {unat frm ..< unat frm + unat n * 4096}" if "?in x" for x
      using addr(2,3) [OF that] by simp
  qed
  have "keeps_mapped ?c (hmem h) (hmem h1)" if res
    unfolding keeps_mapped_def
  proof (intro allI impI)
    fix x :: u32 assume x: "x < 0xC0000000" "mmu (hmem h) ?c x \<noteq> None"
    then have same: "mmu (hmem h1) ?c x = mmu (hmem h) ?c x" using ma [OF that] new [of x] by (auto simp: maps_area_def)
    obtain p u w where p: "mmu (hmem h) ?c x = Some (p, u, w)" using x(2) by auto
    have "unat p \<in> pmm_used pm" using ld x(1) p unfolding loading_def backed_def by blast
    then have "\<not> in_heap h (paging_virt_addr p)" using pmm_used_range [OF pm] frame_off_heap(1) [OF lh] by blast
    then have "hmem h1 (paging_virt_addr p) = hmem h (paging_virt_addr p)" using m(3) by (simp add: heap_only_def)
    then show "mmu (hmem h1) ?c x = mmu (hmem h) ?c x \<and> vread ?c (hmem h1) x = vread ?c (hmem h) x"
      using same p by (simp add: vread_def)
  qed
  then show ?thesis using m(1,2) ma bk used(2) by (auto simp: loading_def)
qed

section \<open>Segments\<close>

text \<open>The segment in memory: its pages for user code, writable as its header says, its bytes those of the file, then zeros.\<close>

definition seg_image :: "bytes \<Rightarrow> elf32_phdr_t \<Rightarrow> memory \<Rightarrow> u32 \<Rightarrow> bool" where
  "seg_image file ph m c \<longleftrightarrow>
     (\<forall>x. in_pages (first_page ph) (end_page ph) x \<longrightarrow> (\<exists>p. mmu m c x = Some (p, True, p_flags ph AND PF_W \<noteq> 0))) \<and>
     (\<forall>k < unat (p_memsz ph). vread c m (p_vaddr ph + word_of_nat k) =
        Some (if k < unat (p_filesz ph) then file ! (unat (p_offset ph) + k) else 0))"

lemma seg_image_keeps:
  assumes "seg_image file ph m c" "keeps_mapped c m m'" and v: "elf_validate_segment ph filesize" "p_memsz ph \<noteq> 0"
  shows "seg_image file ph m' c"
proof -
  have b: "x < 0xC0000000" if "in_pages (first_page ph) (end_page ph) x" for x
    using in_pages_below [OF that page_range(3) [OF v]] .
  have i: "in_pages (first_page ph) (end_page ph) (p_vaddr ph + word_of_nat k)" if "k < unat (p_memsz ph)" for k
    using segment_pages(3,4) [OF v that] by (simp add: in_pages_def)
  have old: "mmu m c x \<noteq> None" if "in_pages (first_page ph) (end_page ph) x" for x
    using assms(1) that by (fastforce simp: seg_image_def)
  have k: "mmu m' c x = mmu m c x" "vread c m' x = vread c m x" if "in_pages (first_page ph) (end_page ph) x" for x
    using assms(2) b [OF that] old [OF that] by (auto simp: keeps_mapped_def)
  show ?thesis using assms(1) by (simp add: seg_image_def k i)
qed

text \<open>Filling touches the frames of the segment only.\<close>

lemma fill_frames:
  assumes v: "elf_validate_segment ph filesize" "p_memsz ph \<noteq> 0"
    and frm: "page_aligned frm" "unat frm + (end_page ph - first_page ph) * 4096 \<le> 0x400000"
    and k: "unat (a - (paging_virt_addr frm + (p_vaddr ph AND 0xFFF))) < unat (p_memsz ph)"
  shows "unat frm \<le> unat (paging_phys_addr a)" "unat (paging_phys_addr a) < unat frm + (end_page ph - first_page ph) * 4096"
proof -
  let ?k = "a - (paging_virt_addr frm + (p_vaddr ph AND 0xFFF))" and ?o = "unat (p_vaddr ph) mod 4096"
  note s = valid_segment [OF v]
  have o: "unat (p_vaddr ph AND 0xFFF) = ?o" by (simp add: and_low_mask unat_take_bit_mod)
  have "unat (p_vaddr ph) + unat (p_memsz ph) \<le> 4096 * end_page ph" by (simp add: end_page_def)
  moreover have "unat (p_vaddr ph) = 4096 * first_page ph + ?o" by (simp add: first_page_def page_no_def)
  ultimately have n: "?o + unat (p_memsz ph) \<le> (end_page ph - first_page ph) * 4096" by (simp add: diff_mult_distrib)
  have "paging_phys_addr a = frm + ((p_vaddr ph AND 0xFFF) + ?k)" by (simp add: paging_phys_addr_def paging_virt_addr_def)
  moreover have "unat (frm + ((p_vaddr ph AND 0xFFF) + ?k)) = unat frm + (?o + unat ?k)"
    using k n frm(2) o by (subst unat_add_nowrap; (subst unat_add_nowrap)?) simp_all
  ultimately have u: "unat (paging_phys_addr a) = unat frm + (?o + unat ?k)" by simp
  show "unat frm \<le> unat (paging_phys_addr a)" using u by simp
  show "unat (paging_phys_addr a) < unat frm + (end_page ph - first_page ph) * 4096" using u k n by simp
qed

lemma fill_loaded:
  assumes v: "elf_validate_segment ph filesize" "p_memsz ph \<noteq> 0" and len: "unat filesize = length file"
    and ld: "loading h pd pm" and U: "backed m0 (paging_phys_addr pd) U" "\<forall>f \<in> U. unat frm + (end_page ph - first_page ph) * 4096 \<le> f \<or> f < unat frm"
    and k0: "keeps_mapped (paging_phys_addr pd) m0 (hmem h)"
    and frm: "page_aligned frm" "0x200000 \<le> unat frm" "unat frm + (end_page ph - first_page ph) * 4096 \<le> 0x400000"
    and s: "page_aligned s" "page_no s = first_page ph"
    and ma: "maps_area m0 (hmem h) (paging_phys_addr pd) s frm (end_page ph - first_page ph) (p_flags ph AND PF_W \<noteq> 0)"
  shows "\<exists>m. fill_segment file ph frm (hmem h) = Some m \<and> loading (h\<lparr>hmem := m\<rparr>) pd pm \<and> keeps_mapped (paging_phys_addr pd) m0 m \<and>
    seg_image file ph m (paging_phys_addr pd) \<and> (\<forall>x < 0xC0000000. mmu m (paging_phys_addr pd) x = mmu (hmem h) (paging_phys_addr pd) x)"
proof -
  let ?c = "paging_phys_addr pd" and ?d = "paging_virt_addr frm + (p_vaddr ph AND 0xFFF)" and ?n = "end_page ph - first_page ph"
  note pr = page_range(2,3) [OF v]
  obtain P where P: "space_ok h pd P" using ld by (auto simp: loading_def)
  have lh: "low_heap h" using P by (simp add: space_ok_def)
  obtain m where m: "fill_segment file ph frm (hmem h) = Some m" "\<And>a. m a = (let k = unat (a - ?d) in
       if k < unat (p_filesz ph) then file ! (unat (p_offset ph) + k) else if k < unat (p_memsz ph) then 0 else hmem h a)"
    using fill_segment_ok [OF v len] by blast
  have fs: "unat (p_filesz ph) \<le> unat (p_memsz ph)" by (rule valid_segment(3) [OF v])
  have out: "m a = hmem h a" if "unat (paging_phys_addr a) < unat frm \<or> unat frm + ?n * 4096 \<le> unat (paging_phys_addr a)" for a
    using m(2) [of a] fill_frames [OF v frm(1,3), of a] that fs by (auto simp: Let_def)
  have heap: "m a = hmem h a" if "in_heap h a" for a
  proof (rule out, rule ccontr)
    assume "\<not> (unat (paging_phys_addr a) < unat frm \<or> unat frm + ?n * 4096 \<le> unat (paging_phys_addr a))"
    then have "0x200000 \<le> unat (paging_phys_addr a)" "unat (paging_phys_addr a) < 0x400000" using frm(2,3) by simp_all
    then show False using frame_off_heap(1) [OF lh, of "paging_phys_addr a"] that by simp
  qed
  have same: "mmu m ?c x = mmu (hmem h) ?c x" if "x < 0xC0000000" for x by (rule off_heap_space(2) [OF P heap that])
  have "loading (h\<lparr>hmem := m\<rparr>) pd pm"
    unfolding loading_def using ld off_heap_space(1) [OF P heap] backed_same [OF same] by (auto simp: loading_def)
  moreover have "keeps_mapped ?c m0 m"
  proof -
    have "vread ?c m x = vread ?c (hmem h) x" if x: "x < 0xC0000000" "mmu m0 ?c x = Some (p, u, w)" for x p u w
    proof -
      have "unat p \<in> U" using U(1) x unfolding backed_def by blast
      then have "m (paging_virt_addr p) = hmem h (paging_virt_addr p)" using U(2) by (intro out) auto
      moreover have "mmu (hmem h) ?c x = Some (p, u, w)" using k0 x by (simp add: keeps_mapped_def)
      ultimately show ?thesis using same [OF x(1)] by (simp add: vread_def)
    qed
    then show ?thesis using k0 by (simp add: keeps_mapped_def same) blast
  qed
  moreover have "seg_image file ph m ?c"
  proof -
    have at: "mmu m ?c x = Some (frm + (x - s), True, p_flags ph AND PF_W \<noteq> 0)" if "in_pages (first_page ph) (end_page ph) x" for x
      using ma in_pages_below [OF that pr(2)] that same pr(1) s(2) by (simp add: maps_area_def)
    have "vread ?c m (p_vaddr ph + word_of_nat k) = Some (if k < unat (p_filesz ph) then file ! (unat (p_offset ph) + k) else 0)"
      if k: "k < unat (p_memsz ph)" for k
    proof -
      let ?x = "p_vaddr ph + word_of_nat k"
      have x: "in_pages (first_page ph) (end_page ph) ?x" using segment_pages(3,4) [OF v k] by (simp add: in_pages_def)
      have "p_vaddr ph = s + (p_vaddr ph AND 0xFFF)"
      proof -
        have "unat (s + (p_vaddr ph AND 0xFFF)) = unat (p_vaddr ph)"
          unfolding unat_page_offset(1) [OF s(1)] s(2) by (simp add: first_page_def page_no_def)
        then show ?thesis by (simp only: word_unat_eq_iff)
      qed
      then have "paging_virt_addr (frm + (?x - s)) - ?d = word_of_nat k" by (simp add: paging_virt_addr_def algebra_simps)
      moreover have "unat (word_of_nat k :: u32) = k"
        using k unat_less_len [of "p_memsz ph"] by (simp add: unat_of_nat)
      ultimately show ?thesis using at [OF x] k m(2) [of "paging_virt_addr (frm + (?x - s))"] by (simp add: vread_def Let_def)
    qed
    then show ?thesis using at by (simp add: seg_image_def)
  qed
  ultimately show ?thesis using m(1) same by blast
qed

text \<open>One more area: what was there is kept, and exactly the pages from \<open>a\<close> to \<open>e\<close> are added.\<close>

definition adds :: "u32 \<Rightarrow> memory \<Rightarrow> memory \<Rightarrow> nat \<Rightarrow> nat \<Rightarrow> bool" where
  "adds c m m' a e \<longleftrightarrow> keeps_mapped c m m' \<and> (\<forall>x < 0xC0000000. mmu m' c x \<noteq> None \<longleftrightarrow> mmu m c x \<noteq> None \<or> in_pages a e x)"

lemma load_segment_ok:
  assumes ld: "loading h pd pm" and v: "elf_validate_segment ph filesize" "p_memsz ph \<noteq> 0" and len: "unat filesize = length file"
    and new: "\<And>x. in_pages (first_page ph) (end_page ph) x \<Longrightarrow> mmu (hmem h) (paging_phys_addr pd) x = None"
  shows "\<exists>r h' pm'. elf_load_segment pd file filesize ph h pm = Some (r, h', pm') \<and>
    (r \<longrightarrow> loading h' pd pm' \<and> adds (paging_phys_addr pd) (hmem h) (hmem h') (first_page ph) (end_page ph) \<and>
      seg_image file ph (hmem h') (paging_phys_addr pd))"
proof -
  let ?c = "paging_phys_addr pd" and ?n = "end_page ph - first_page ph"
  note pr = page_range(2,3) [OF v]
  have pd: "pd \<noteq> 0" using ld space_current(2) by (auto simp: loading_def)
  have pm: "pmm_inv pm" using ld by (simp add: loading_def)
  obtain s e where se: "elf_segment_page_range ph = Some (s, e)" "page_aligned s" "page_no s = first_page ph"
    "unat s = 4096 * first_page ph" "unat e = 4096 * end_page ph" using page_range(1) [OF v] by blast
  define pages where "pages = (e - s) div PAGING_PAGE_SIZE"
  have n: "unat pages = ?n"
  proof -
    have "unat (e - s) = unat e - unat s" using se pr(1) by (intro unat_sub_nowrap) simp
    then show ?thesis using se by (simp add: pages_def PAGING_PAGE_SIZE_def unat_div flip: diff_mult_distrib2)
  qed
  then have n0: "pages \<noteq> 0" using pr(1) by auto
  obtain frm pm1 where al: "pmm_alloc_frames pages pm = (frm, pm1)" by fastforce
  define flags where "flags = PAGING_FLAG_USER OR (if p_flags ph AND PF_W \<noteq> 0 then PAGING_FLAG_WRITABLE else 0)"
  have fl: "flags = 4 \<or> flags = 6" "(flags = 6) = (p_flags ph AND PF_W \<noteq> 0)" by (auto simp: flags_def paging_consts)
  have step: "elf_load_segment pd file filesize ph h pm =
    (if frm = 0 then Some (False, h, pm1)
     else do { (ok, h1) \<leftarrow> map_pages (\<lambda>v p. paging_map_page pd v p flags) s frm [0 ..< unat pages] h;
               if \<not> ok then Some (False, h1, pm1)
               else do { m \<leftarrow> fill_segment file ph frm (hmem h1); Some (True, h1\<lparr>hmem := m\<rparr>, pm1) } })"
    using pd v n0 se(1) al unfolding elf_load_segment_def Let_def pages_def flags_def by simp
  show ?thesis
  proof (cases "frm = 0")
    case False
    have r: "0x200000 \<le> unat frm" "unat frm + ?n * 4096 \<le> 0x400000" "page_aligned frm"
      using pmm.alloc_range [OF pm al False] by (simp_all add: pmm_consts page_aligned_def n)
    have np: "in_pages (page_no s) (page_no s + ?n) x = in_pages (first_page ph) (end_page ph) x" for x
      using pr(1) by (simp add: se(3))
    have new': "mmu (hmem h) ?c x = None" if "in_pages (page_no s) (page_no s + unat pages) x" for x
      using new that np by (simp add: n)
    have le: "page_no s + unat pages \<le> 0xC0000" using pr by (simp add: se(3) n)
    obtain ok h1 where m: "map_pages (\<lambda>v p. paging_map_page pd v p flags) s frm [0 ..< unat pages] h = Some (ok, h1)"
      "ok \<Longrightarrow> loading h1 pd pm1" "ok \<Longrightarrow> keeps_mapped ?c (hmem h) (hmem h1)" "ok \<Longrightarrow> maps_area (hmem h) (hmem h1) ?c s frm ?n (p_flags ph AND PF_W \<noteq> 0)"
      using map_area [OF ld se(2) le al False fl(1) new'] unfolding n fl(2) by blast
    show ?thesis
    proof (cases ok)
      case True
      have bk: "backed (hmem h) ?c (pmm_used pm)" using ld by (simp add: loading_def)
      have U: "\<forall>f \<in> pmm_used pm. unat frm + ?n * 4096 \<le> f \<or> f < unat frm"
        using pmm.alloc_fresh [OF pm al False] unfolding n by (meson atLeastLessThan_iff disjoint_iff not_le)
      obtain m' where m': "fill_segment file ph frm (hmem h1) = Some m'" "loading (h1\<lparr>hmem := m'\<rparr>) pd pm1" "keeps_mapped ?c (hmem h) m'"
        "seg_image file ph m' ?c" "\<forall>x < 0xC0000000. mmu m' ?c x = mmu (hmem h1) ?c x"
        using fill_loaded [OF v len m(2) [OF True] bk U m(3) [OF True] r(3,1,2) se(2,3) m(4) [OF True]] by blast
      have "adds ?c (hmem h) m' (first_page ph) (end_page ph)"
        using m'(3,5) m(4) [OF True] np by (auto simp: adds_def maps_area_def)
      then show ?thesis unfolding step using m(1) m' True False by auto
    qed (use step m(1) False in auto)
  qed (auto simp: step)
qed

section \<open>The second pass\<close>

definition to_load :: "bytes \<Rightarrow> u32 \<Rightarrow> nat \<Rightarrow> elf32_phdr_t \<Rightarrow> bool" where
  "to_load file filesize j ph \<longleftrightarrow> elf_phdr file filesize (word_of_nat j) = Some (Some ph) \<and> loadable ph"

text \<open>The first \<open>n\<close> headers are loaded, and nothing else is mapped.\<close>

definition loaded :: "bytes \<Rightarrow> u32 \<Rightarrow> nat \<Rightarrow> memory \<Rightarrow> u32 \<Rightarrow> bool" where
  "loaded file filesize n m c \<longleftrightarrow>
     (\<forall>j < n. \<forall>ph. to_load file filesize j ph \<longrightarrow> seg_image file ph m c) \<and>
     (\<forall>x < 0xC0000000. mmu m c x \<noteq> None \<longleftrightarrow> (\<exists>j < n. \<exists>ph. to_load file filesize j ph \<and> in_pages (first_page ph) (end_page ph) x))"

lemma segments_valid:
  assumes "segments_ok file filesize n" and "j < n" and "to_load file filesize j ph"
  shows "elf_validate_segment ph filesize" "p_memsz ph \<noteq> 0"
    "i < j \<Longrightarrow> to_load file filesize i pv \<Longrightarrow> \<not> elf_segments_overlap ph pv"
proof -
  have r: "elf_phdr file filesize (word_of_nat j) = Some (Some ph)" "loadable ph" using assms(3) by (auto simp: to_load_def)
  then have "elf_validate_segment ph filesize \<and>
      (\<forall>i < j. \<forall>pv. elf_phdr file filesize (word_of_nat i) = Some (Some pv) \<longrightarrow> loadable pv \<longrightarrow> \<not> elf_segments_overlap ph pv)"
    using assms(1,2) unfolding segments_ok_def by force
  then show "elf_validate_segment ph filesize" "i < j \<Longrightarrow> to_load file filesize i pv \<Longrightarrow> \<not> elf_segments_overlap ph pv"
    by (auto simp: to_load_def)
  show "p_memsz ph \<noteq> 0" using r(2) by (simp add: loadable_def)
qed

lemma loaded_unmapped:
  assumes "segments_ok file filesize n" "i < n" and "loaded file filesize i m c" and "to_load file filesize i ph"
    and "in_pages (first_page ph) (end_page ph) x"
  shows "mmu m c x = None"
proof (rule ccontr)
  note v = segments_valid [OF assms(1,2,4)]
  assume "mmu m c x \<noteq> None"
  moreover have "x < 0xC0000000" by (rule in_pages_below [OF assms(5) page_range(3) [OF v(1,2)]])
  ultimately obtain j pv where j: "j < i" "to_load file filesize j pv" "in_pages (first_page pv) (end_page pv) x"
    using assms(3) by (auto simp: loaded_def)
  have "j < n" using j(1) assms(2) by simp
  note w = segments_valid [OF assms(1) this j(2)]
  show False using no_overlap [OF v(1,2) w(1,2) v(3) [OF j(1,2)]] j(3) assms(5) by (auto simp: in_pages_def)
qed

lemma loaded_Suc:
  assumes "segments_ok file filesize n" "i < n" and "loaded file filesize i m c" and "to_load file filesize i ph"
    and "adds c m m' (first_page ph) (end_page ph)" "seg_image file ph m' c"
  shows "loaded file filesize (Suc i) m' c"
proof -
  have one: "pv = ph" if "to_load file filesize i pv" for pv using that assms(4) by (simp add: to_load_def)
  have "seg_image file pv m' c" if "j < i" "to_load file filesize j pv" for j pv
  proof -
    have "j < n" using that(1) assms(2) by simp
    note w = segments_valid(1,2) [OF assms(1) this that(2)]
    have "seg_image file pv m c" "keeps_mapped c m m'" using assms(3,5) that by (auto simp: loaded_def adds_def)
    then show ?thesis using w by (rule seg_image_keeps)
  qed
  then have "\<forall>j < Suc i. \<forall>pv. to_load file filesize j pv \<longrightarrow> seg_image file pv m' c" using assms(6) one by (auto simp: less_Suc_eq)
  moreover have "mmu m' c x \<noteq> None \<longleftrightarrow> (\<exists>j < Suc i. \<exists>pv. to_load file filesize j pv \<and> in_pages (first_page pv) (end_page pv) x)"
    if x: "x < 0xC0000000" for x
  proof -
    have "mmu m' c x \<noteq> None \<longleftrightarrow> mmu m c x \<noteq> None \<or> in_pages (first_page ph) (end_page ph) x"
      using assms(5) x by (simp add: adds_def)
    also have "\<dots> \<longleftrightarrow> (\<exists>j < Suc i. \<exists>pv. to_load file filesize j pv \<and> in_pages (first_page pv) (end_page pv) x)"
      using assms(3,4) x one unfolding loaded_def less_Suc_eq by blast
    finally show ?thesis .
  qed
  ultimately show ?thesis unfolding loaded_def by blast
qed

lemma loaded_skip:
  assumes "loaded file filesize i m c" and "\<And>ph. \<not> to_load file filesize i ph"
  shows "loaded file filesize (Suc i) m c"
  using assms by (simp add: loaded_def less_Suc_eq all_conj_distrib conj_disj_distribR ex_disj_distrib)

lemma second_pass_ok:
  assumes seg: "segments_ok file filesize n" and len: "unat filesize = length file"
    and "loading h pd pm" "loaded file filesize i (hmem h) (paging_phys_addr pd)" and "i \<le> n"
  shows "\<exists>r h' pm'. second_pass pd file filesize [i ..< n] h pm = Some (r, h', pm') \<and>
    (r \<longrightarrow> loading h' pd pm' \<and> loaded file filesize n (hmem h') (paging_phys_addr pd))"
  using assms(3-)
proof (induction "n - i" arbitrary: i h pm)
  case 0
  then show ?case by auto
next
  case (Suc k)
  have i: "i < n" "[i ..< n] = i # [Suc i ..< n]" using Suc.hyps(2) by (auto simp: upt_conv_Cons)
  have IH: "\<exists>r h'' pm''. second_pass pd file filesize [Suc i ..< n] h' pm' = Some (r, h'', pm'') \<and>
    (r \<longrightarrow> loading h'' pd pm'' \<and> loaded file filesize n (hmem h'') (paging_phys_addr pd))"
    if "loading h' pd pm'" "loaded file filesize (Suc i) (hmem h') (paging_phys_addr pd)" for h' pm'
    by (rule Suc.hyps(1)) (use Suc.hyps(2) that i(1) in auto)
  obtain ph where ph: "elf_phdr file filesize (word_of_nat i) = Some (Some ph)" using seg i(1) unfolding segments_ok_def by blast
  have pd: "pd \<noteq> 0" using Suc.prems(1) space_current(2) by (auto simp: loading_def)
  show ?case
  proof (cases "loadable ph")
    case False
    have "loaded file filesize (Suc i) (hmem h) (paging_phys_addr pd)"
      by (rule loaded_skip [OF Suc.prems(2)]) (use ph False in \<open>auto simp: to_load_def\<close>)
    moreover have "second_pass pd file filesize [i ..< n] h pm = second_pass pd file filesize [Suc i ..< n] h pm"
      unfolding i(2) using ph False pd by (auto simp: loadable_def elf_load_segment_def elf_validate_segment_def)
    ultimately show ?thesis using IH [OF Suc.prems(1)] by simp
  next
    case True
    have t: "to_load file filesize i ph" using ph True by (simp add: to_load_def)
    note v = segments_valid(1,2) [OF seg i(1) t]
    obtain r h' pm' where r: "elf_load_segment pd file filesize ph h pm = Some (r, h', pm')"
      "r \<Longrightarrow> loading h' pd pm'" "r \<Longrightarrow> adds (paging_phys_addr pd) (hmem h) (hmem h') (first_page ph) (end_page ph)"
      "r \<Longrightarrow> seg_image file ph (hmem h') (paging_phys_addr pd)"
      using load_segment_ok [OF Suc.prems(1) v len loaded_unmapped [OF seg i(1) Suc.prems(2) t]] by blast
    have s: "second_pass pd file filesize [i ..< n] h pm = (if r then second_pass pd file filesize [Suc i ..< n] h' pm' else Some (False, h', pm'))"
      unfolding i(2) using ph True r(1) by (simp add: loadable_def)
    show ?thesis unfolding s using IH [OF r(2) loaded_Suc [OF seg i(1) Suc.prems(2) t r(3,4)]] by auto
  qed
qed

section \<open>The finished address space\<close>

definition stack_page :: "u32 \<Rightarrow> bool" where "stack_page x \<longleftrightarrow> in_pages 0xBFBFC 0xBFC00 x"

text \<open>
  What a file with \<open>n\<close> program headers describes: its segments, a stack that user code may write, no other user
  address, and every user address with a byte of its own.
\<close>

definition program_image :: "bytes \<Rightarrow> u32 \<Rightarrow> nat \<Rightarrow> memory \<Rightarrow> u32 \<Rightarrow> bool" where
  "program_image file filesize n m c \<longleftrightarrow>
     (\<forall>j < n. \<forall>ph. to_load file filesize j ph \<longrightarrow> seg_image file ph m c) \<and>
     (\<forall>x. stack_page x \<longrightarrow> (\<exists>p. mmu m c x = Some (p, True, True))) \<and>
     (\<forall>x < 0xC0000000. mmu m c x \<noteq> None \<longleftrightarrow>
        stack_page x \<or> (\<exists>j < n. \<exists>ph. to_load file filesize j ph \<and> in_pages (first_page ph) (end_page ph) x)) \<and>
     backed m c {0x200000 ..< 0x400000}"

lemma segment_off_stack:
  assumes "elf_validate_segment ph filesize" "p_memsz ph \<noteq> 0" and "in_pages (first_page ph) (end_page ph) x"
  shows "\<not> stack_page x"
proof -
  have "end_page ph \<le> 0xBFBFC \<or> 0xBFC00 \<le> first_page ph"
    using valid_segment(6) [OF assms(1,2)] unfolding end_page_def first_page_def page_no_def by linarith
  then show ?thesis using assms(3) by (auto simp: stack_page_def in_pages_def)
qed

lemma map_stack_ok:
  assumes ld: "loading h pd pm" and new: "\<And>x. stack_page x \<Longrightarrow> mmu (hmem h) (paging_phys_addr pd) x = None"
  shows "\<exists>r h' pm'. map_stack pd h pm = Some (r, h', pm') \<and>
    (r \<longrightarrow> loading h' pd pm' \<and> adds (paging_phys_addr pd) (hmem h) (hmem h') 0xBFBFC 0xBFC00 \<and>
      (\<forall>x. stack_page x \<longrightarrow> (\<exists>p. mmu (hmem h') (paging_phys_addr pd) x = Some (p, True, True))))"
proof -
  let ?c = "paging_phys_addr pd"
  obtain frm pm1 where al: "pmm_alloc_frames USER_STACK_PAGES pm = (frm, pm1)" by fastforce
  have c: "USER_STACK_BASE = 0xBFBFC000" "unat USER_STACK_PAGES = 4" "PAGING_FLAG_WRITABLE OR PAGING_FLAG_USER = 6"
    by (simp_all add: elf_consts paging_consts)
  have b: "page_aligned USER_STACK_BASE" "page_no USER_STACK_BASE = 0xBFBFC" unfolding c by (simp_all add: page_aligned_def page_no_def)
  have le: "page_no USER_STACK_BASE + unat USER_STACK_PAGES \<le> 0xC0000" by (simp add: b(2) c(2))
  have pages: "in_pages (page_no USER_STACK_BASE) (page_no USER_STACK_BASE + unat USER_STACK_PAGES) x = stack_page x" for x
    by (simp add: stack_page_def b(2) c(2))
  show ?thesis
  proof (cases "frm = 0")
    case False
    obtain r h1 where m: "map_pages (\<lambda>v p. paging_map_page pd v p 6) USER_STACK_BASE frm [0 ..< unat USER_STACK_PAGES] h = Some (r, h1)"
      "r \<Longrightarrow> loading h1 pd pm1" "r \<Longrightarrow> keeps_mapped ?c (hmem h) (hmem h1)"
      "r \<Longrightarrow> maps_area (hmem h) (hmem h1) ?c USER_STACK_BASE frm (unat USER_STACK_PAGES) True"
      using map_area [OF ld b(1) le al False, of 6] new unfolding pages by auto
    have "mmu (hmem h1) ?c x = (if stack_page x then Some (frm + (x - USER_STACK_BASE), True, True) else mmu (hmem h) ?c x)"
      if r "x < 0xC0000000" for x using m(4) [OF that(1)] that(2) unfolding maps_area_def pages by blast
    moreover have "x < 0xC0000000" if "stack_page x" for x using that in_pages_below unfolding stack_page_def by force
    ultimately have "r \<longrightarrow> adds ?c (hmem h) (hmem h1) 0xBFBFC 0xBFC00 \<and> (\<forall>x. stack_page x \<longrightarrow> (\<exists>p. mmu (hmem h1) ?c x = Some (p, True, True)))"
      using m(3) by (auto simp: adds_def simp flip: stack_page_def)
    then show ?thesis using al False m(1,2) by (auto simp: map_stack_def c(3))
  qed (auto simp: map_stack_def al)
qed

lemma elf_build_ok:
  assumes chk: "elf_check file filesize = Some True" and len: "unat filesize = length file"
    and own: "owns h P" "low_heap h" and k: "page_aligned kpd"
    and kh: "unat kpd + 4096 \<le> unat (heap_storage h) \<or> unat (heap_storage h) + 0x100000 \<le> unat kpd" and pm: "pmm_inv pm"
  shows "\<exists>eh pd h' pm'. ehdr_at file = Some eh \<and> elf_build kpd file filesize h pm = Some (pd, h', pm') \<and>
    (pd \<noteq> 0 \<longrightarrow> loading h' pd pm' \<and> program_image file filesize (unat (e_phnum eh)) (hmem h') (paging_phys_addr pd))"
proof -
  obtain eh where eh: "ehdr_at file = Some eh" "segments_ok file filesize (unat (e_phnum eh))" using elf_check_segments [OF chk] by blast
  let ?n = "unat (e_phnum eh)"
  obtain pd h1 where c: "paging_create_pd kpd h = Some (pd, h1)" "pd \<noteq> 0 \<Longrightarrow> fresh_pd kpd h P pd h1"
    using create_pd_ok [OF own k kh] by blast
  show ?thesis
  proof (cases "pd = 0")
    case False
    let ?c = "paging_phys_addr pd"
    have none: "\<And>x. x < 0xC0000000 \<Longrightarrow> mmu (hmem h1) ?c x = None" using c(2) [OF False] by (simp add: fresh_pd_def)
    have ld: "loading h1 pd pm" using c(2) [OF False] pm none by (auto simp: loading_def backed_def fresh_pd_def)
    have l0: "loaded file filesize 0 (hmem h1) ?c" using none by (simp add: loaded_def)
    obtain r h2 pm2 where s: "second_pass pd file filesize [0 ..< ?n] h1 pm = Some (r, h2, pm2)"
      "r \<Longrightarrow> loading h2 pd pm2" "r \<Longrightarrow> loaded file filesize ?n (hmem h2) ?c"
      using second_pass_ok [OF eh(2) len ld l0 le0] by blast
    show ?thesis
    proof (cases r)
      case True
      have st: "mmu (hmem h2) ?c x = None" if "stack_page x" for x
      proof -
        have "x < 0xC0000000" using that in_pages_below unfolding stack_page_def by force
        then show ?thesis using s(3) [OF True] segment_off_stack segments_valid(1,2) [OF eh(2)] that unfolding loaded_def by blast
      qed
      obtain r3 h3 pm3 where t: "map_stack pd h2 pm2 = Some (r3, h3, pm3)" "r3 \<Longrightarrow> loading h3 pd pm3"
        "r3 \<Longrightarrow> adds ?c (hmem h2) (hmem h3) 0xBFBFC 0xBFC00" "r3 \<Longrightarrow> \<forall>x. stack_page x \<longrightarrow> (\<exists>p. mmu (hmem h3) ?c x = Some (p, True, True))"
        using map_stack_ok [OF s(2) [OF True] st] by blast
      have "program_image file filesize ?n (hmem h3) ?c" if r3
      proof -
        have "seg_image file ph (hmem h3) ?c" if "j < ?n" "to_load file filesize j ph" for j ph
        proof -
          have "seg_image file ph (hmem h2) ?c" "keeps_mapped ?c (hmem h2) (hmem h3)"
            using s(3) [OF True] t(3) [OF \<open>r3\<close>] that by (auto simp: loaded_def adds_def)
          then show ?thesis using segments_valid(1,2) [OF eh(2) that] by (rule seg_image_keeps)
        qed
        moreover have "mmu (hmem h3) ?c x \<noteq> None \<longleftrightarrow>
            stack_page x \<or> (\<exists>j < ?n. \<exists>ph. to_load file filesize j ph \<and> in_pages (first_page ph) (end_page ph) x)" if "x < 0xC0000000" for x
          using s(3) [OF True] t(3) [OF \<open>r3\<close>] that unfolding loaded_def adds_def stack_page_def by blast
        moreover have "backed (hmem h3) ?c {0x200000 ..< 0x400000}"
          using t(2) [OF that] pmm_used_range unfolding loading_def backed_def by (meson atLeastLessThan_iff)
        ultimately show ?thesis using t(4) [OF that] unfolding program_image_def by blast
      qed
      then show ?thesis using c(1) False eh(1) s(1) True t(1,2) by (auto simp: elf_build_def)
    qed (use c(1) False eh(1) s(1) in \<open>auto simp: elf_build_def\<close>)
  qed (use c(1) eh(1) in \<open>auto simp: elf_build_def\<close>)
qed

section \<open>Properties\<close>

text \<open>
  Property C24. Whatever bytes a file holds, the checks of the loader read nothing outside it and end with an
  answer. A file they accept has only segments that lie in the file and between \<open>USER_VADDR_MIN\<close> and the
  kernel's half, off the stack, no two of them on one page, and an entry point in an executable segment.
\<close>

theorem elf_check_sound:
  assumes "unat filesize = length file"
  shows "\<exists>b. elf_check file filesize = Some b \<and>
    (b \<longrightarrow> (\<exists>eh. ehdr_at file = Some eh \<and>
       (\<forall>i < unat (e_phnum eh). \<forall>ph. to_load file filesize i ph \<longrightarrow>
          unat (p_offset ph) + unat (p_filesz ph) \<le> length file \<and> unat (p_filesz ph) \<le> unat (p_memsz ph) \<and>
          0x1000 \<le> unat (p_vaddr ph) \<and> unat (p_vaddr ph) + unat (p_memsz ph) \<le> 0xC0000000 \<and>
          (\<forall>x. in_pages (first_page ph) (end_page ph) x \<longrightarrow> \<not> stack_page x \<and>
             (\<forall>j < i. \<forall>pv. to_load file filesize j pv \<longrightarrow> \<not> in_pages (first_page pv) (end_page pv) x))) \<and>
       (\<exists>i < unat (e_phnum eh). \<exists>ph. to_load file filesize i ph \<and> p_vaddr ph \<le> e_entry eh \<and>
          e_entry eh - p_vaddr ph < p_memsz ph \<and> p_flags ph AND PF_X \<noteq> 0)))"
proof -
  obtain b where b: "elf_check file filesize = Some b" using elf_check_returns [OF assms] by blast
  have "\<exists>eh. ehdr_at file = Some eh \<and>
       (\<forall>i < unat (e_phnum eh). \<forall>ph. to_load file filesize i ph \<longrightarrow>
          unat (p_offset ph) + unat (p_filesz ph) \<le> length file \<and> unat (p_filesz ph) \<le> unat (p_memsz ph) \<and>
          0x1000 \<le> unat (p_vaddr ph) \<and> unat (p_vaddr ph) + unat (p_memsz ph) \<le> 0xC0000000 \<and>
          (\<forall>x. in_pages (first_page ph) (end_page ph) x \<longrightarrow> \<not> stack_page x \<and>
             (\<forall>j < i. \<forall>pv. to_load file filesize j pv \<longrightarrow> \<not> in_pages (first_page pv) (end_page pv) x))) \<and>
       (\<exists>i < unat (e_phnum eh). \<exists>ph. to_load file filesize i ph \<and> p_vaddr ph \<le> e_entry eh \<and>
          e_entry eh - p_vaddr ph < p_memsz ph \<and> p_flags ph AND PF_X \<noteq> 0)" if b
  proof -
    have "elf_check file filesize = Some True" using b that by simp
    then obtain eh where eh: "ehdr_at file = Some eh" "segments_ok file filesize (unat (e_phnum eh))"
      "\<exists>i < unat (e_phnum eh). \<exists>ph. to_load file filesize i ph \<and> p_vaddr ph \<le> e_entry eh \<and>
          e_entry eh - p_vaddr ph < p_memsz ph \<and> p_flags ph AND PF_X \<noteq> 0"
      using elf_check_segments unfolding to_load_def by blast
    show ?thesis
    proof (intro exI [of _ eh] conjI allI impI)
      fix i ph assume i: "i < unat (e_phnum eh)" "to_load file filesize i ph"
      note v = segments_valid [OF eh(2) i]
      note s = valid_segment [OF v(1,2)]
      show "unat (p_offset ph) + unat (p_filesz ph) \<le> length file" using s(4) assms by simp
      show "unat (p_filesz ph) \<le> unat (p_memsz ph)" "0x1000 \<le> unat (p_vaddr ph)"
        "unat (p_vaddr ph) + unat (p_memsz ph) \<le> 0xC0000000" by (rule s)+
      fix x assume x: "in_pages (first_page ph) (end_page ph) x"
      show "\<not> stack_page x" by (rule segment_off_stack [OF v(1,2) x])
      fix j pv assume j: "j < i" "to_load file filesize j pv"
      have "j < unat (e_phnum eh)" using j(1) i(1) by simp
      note w = segments_valid [OF eh(2) this j(2)]
      show "\<not> in_pages (first_page pv) (end_page pv) x"
        using no_overlap [OF v(1,2) w(1,2) v(3) [OF j]] x by (auto simp: in_pages_def)
    qed (use eh in blast)+
  qed
  then show ?thesis using b by blast
qed

text \<open>A program of two bytes, and the file it comes in.\<close>

definition tiny_elf :: bytes where
  "tiny_elf = [0x7F, 69, 76, 70, 1, 1, 1, 0, 0, 0, 0, 0, 0, 0, 0, 0, 2, 0, 3, 0, 1, 0, 0, 0, 0, 0x10, 0, 0, 52, 0, 0, 0,
     0, 0, 0, 0, 0, 0, 0, 0, 52, 0, 32, 0, 1, 0, 0, 0, 0, 0, 0, 0,
     1, 0, 0, 0, 84, 0, 0, 0, 0, 0x10, 0, 0, 0, 0, 0, 0, 2, 0, 0, 0, 4, 0, 0, 0, 5, 0, 0, 0, 0, 0, 0, 0, 0xEB, 0xFE]"

lemma tiny_elf_ok: "elf_check tiny_elf 86 = Some True" "unat (86 :: u32) = length tiny_elf" "ehdr_at tiny_elf \<noteq> None"
  "map_option e_phnum (ehdr_at tiny_elf) = Some 1"
  by code_simp+

theorem elf_check_sound_witness:
  "unat (86 :: u32) = length tiny_elf \<and> (\<exists>eh. ehdr_at tiny_elf = Some eh \<and>
     (\<exists>i < unat (e_phnum eh). \<exists>ph. to_load tiny_elf 86 i ph \<and> p_vaddr ph \<le> e_entry eh))"
  using elf_check_sound [OF tiny_elf_ok(2)] tiny_elf_ok(1,2) by auto

text \<open>
  Property C23. For a file the checks accept, building the address space never faults, and when it succeeds
  memory holds exactly the program: each segment at its address, its bytes those of the file followed by
  zeros, open to user code and writable as its header says; a stack; no other user address; and no two
  user addresses with the same byte of memory, all in frames of the frame allocator.
\<close>

theorem elf_build_image:
  assumes "elf_check file filesize = Some True" and "unat filesize = length file" and "owns h P" "low_heap h" and "page_aligned kpd"
    and "unat kpd + 4096 \<le> unat (heap_storage h) \<or> unat (heap_storage h) + 0x100000 \<le> unat kpd" and "pmm_inv pm"
  shows "\<exists>eh pd h' pm'. ehdr_at file = Some eh \<and> elf_build kpd file filesize h pm = Some (pd, h', pm') \<and>
    (pd \<noteq> 0 \<longrightarrow> program_image file filesize (unat (e_phnum eh)) (hmem h') (paging_phys_addr pd))"
  using elf_build_ok [OF assms] by blast

lemma tiny_elf_header: "\<exists>ph. to_load tiny_elf 86 0 ph \<and> p_vaddr ph = 0x1000 \<and> p_memsz ph = 4 \<and> p_filesz ph = 2 \<and> p_offset ph = 84"
proof -
  have "map_option (map_option (\<lambda>ph. (p_type ph, p_vaddr ph, p_memsz ph, p_filesz ph, p_offset ph))) (elf_phdr tiny_elf 86 0) =
    Some (Some (1, 0x1000, 4, 2, 84))" by code_simp
  then obtain ph where "elf_phdr tiny_elf 86 0 = Some (Some ph)" "p_type ph = 1" "p_vaddr ph = 0x1000" "p_memsz ph = 4"
    "p_filesz ph = 2" "p_offset ph = 84" by (auto simp: map_option_eq_Some)
  then show ?thesis by (auto simp: to_load_def loadable_def PT_LOAD_def)
qed

theorem elf_build_image_witness:
  "\<exists>h pd h' pm'. owns h {} \<and> elf_build 0xC0011000 tiny_elf 86 h pmm_boot = Some (pd, h', pm') \<and>
     (pd \<noteq> 0 \<longrightarrow> vread (paging_phys_addr pd) (hmem h') 0x1001 = Some 0xFE \<and> vread (paging_phys_addr pd) (hmem h') 0x1003 = Some 0)"
proof -
  obtain h where h: "owns h {}" "low_heap h" "heap_storage h = 0xC0100000" using kheap_owns by blast
  have k: "page_aligned 0xC0011000" "unat (0xC0011000 :: u32) + 4096 \<le> unat (heap_storage h) \<or> unat (heap_storage h) + 0x100000 \<le> unat (0xC0011000 :: u32)"
    by (simp_all add: page_aligned_def h(3))
  obtain eh pd h' pm' where b: "ehdr_at tiny_elf = Some eh" "elf_build 0xC0011000 tiny_elf 86 h pmm_boot = Some (pd, h', pm')"
    "pd \<noteq> 0 \<Longrightarrow> program_image tiny_elf 86 (unat (e_phnum eh)) (hmem h') (paging_phys_addr pd)"
    using elf_build_image [OF tiny_elf_ok(1,2) h(1,2) k pmm_inv_boot] by blast
  have n: "0 < unat (e_phnum eh)" using tiny_elf_ok(4) b(1) by simp
  obtain ph where ph: "to_load tiny_elf 86 0 ph" "p_vaddr ph = 0x1000" "p_memsz ph = 4" "p_filesz ph = 2" "p_offset ph = 84"
    using tiny_elf_header by blast
  have "seg_image tiny_elf ph (hmem h') (paging_phys_addr pd)" if "pd \<noteq> 0"
    using b(3) [OF that] n ph(1) unfolding program_image_def by blast
  then have "vread (paging_phys_addr pd) (hmem h') (0x1000 + word_of_nat k) = Some (if k < 2 then tiny_elf ! (84 + k) else 0)" if "pd \<noteq> 0" "k < 4" for k
    using that ph by (simp add: seg_image_def)
  from this [of 1] this [of 3] show ?thesis using h(1) b(2) by (intro exI [of _ h] exI) (auto simp: tiny_elf_def)
qed

end
