(* ===== verification/Ring.thy ===== *)
theory Ring
  imports Kernel_Prelude
begin

text \<open>
  Ring buffers that keep one slot free, as the input queues of the kernel do: the list a ring stands for, and
  the interface \<open>bounded_queue\<close> that the queues of the keyboard and of the window manager provide.
\<close>

section \<open>The contents of a ring\<close>

definition ring_size :: "nat \<Rightarrow> nat \<Rightarrow> nat \<Rightarrow> nat" where
  "ring_size n h t = (if t \<le> h then h - t else h + n - t)"

definition ring_list :: "'a list \<Rightarrow> nat \<Rightarrow> nat \<Rightarrow> 'a list" where
  "ring_list buf h t = map (\<lambda>i. buf ! ((t + i) mod length buf)) [0 ..< ring_size (length buf) h t]"

lemma ring_size_less: "h < n \<Longrightarrow> t < n \<Longrightarrow> ring_size n h t < n"
  by (auto simp: ring_size_def)

lemma Suc_mod_if: "h < n \<Longrightarrow> Suc h mod n = (if Suc h = n then 0 else Suc h)"
  by auto

lemma ring_full:
  assumes "h < n" "t < n"
  shows "(Suc h mod n = t) = (Suc (ring_size n h t) = n)"
  unfolding Suc_mod_if [OF assms(1)] ring_size_def using assms by auto

lemma ring_size_put:
  assumes "h < n" "t < n" and "Suc h mod n \<noteq> t"
  shows "ring_size n (Suc h mod n) t = Suc (ring_size n h t)"
  using assms(3) unfolding Suc_mod_if [OF assms(1)] ring_size_def using assms(1,2) by auto

lemma ring_size_get:
  assumes "h < n" "t < n" and "h \<noteq> t"
  shows "ring_size n h t = Suc (ring_size n h (Suc t mod n))"
  unfolding Suc_mod_if [OF assms(2)] ring_size_def using assms by auto

lemma ring_empty: "h < n \<Longrightarrow> t < n \<Longrightarrow> (ring_size n h t = 0) = (h = t)"
  by (auto simp: ring_size_def)

lemma ring_slot:
  assumes "h < n" "t < n"
  shows "(t + ring_size n h t) mod n = h"
  using assms by (auto simp: ring_size_def)

lemma length_ring_list [simp]: "length (ring_list buf h t) = ring_size (length buf) h t"
  by (simp add: ring_list_def)

lemma ring_list_put:
  assumes "h < length buf" "t < length buf" and "Suc h mod length buf \<noteq> t"
  shows "ring_list (buf[h := x]) (Suc h mod length buf) t = ring_list buf h t @ [x]"
proof -
  let ?n = "length buf" and ?k = "ring_size (length buf) h t"
  have ne: "(t + i) mod ?n \<noteq> h" if "i < ?k" for i
  proof
    assume e: "(t + i) mod ?n = h"
    have k: "?k < ?n" by (rule ring_size_less [OF assms(1,2)])
    have "(t + i) mod ?n = (t + ?k) mod ?n" using e ring_slot [OF assms(1,2)] by simp
    then have "?n dvd ?k - i" using that by (metis add_diff_cancel_left less_imp_le_nat add_le_cancel_left mod_eq_dvd_iff_nat)
    then show False using that k by (auto dest: dvd_imp_le)
  qed
  have "map (\<lambda>i. buf[h := x] ! ((t + i) mod ?n)) [0 ..< ?k] = ring_list buf h t"
    unfolding ring_list_def by (rule map_cong) (simp_all add: ne [THEN not_sym])
  then show ?thesis using ring_size_put [OF assms] ring_slot [OF assms(1,2)] assms(1) by (simp add: ring_list_def)
qed

lemma ring_list_get:
  assumes "h < length buf" "t < length buf" and "h \<noteq> t"
  shows "ring_list buf h t = buf ! t # ring_list buf h (Suc t mod length buf)"
proof -
  let ?n = "length buf"
  have "ring_list buf h t = map (\<lambda>i. buf ! ((t + i) mod ?n)) (0 # map Suc [0 ..< ring_size ?n h (Suc t mod ?n)])"
    unfolding ring_list_def ring_size_get [OF assms] by (simp only: upt_conv_Cons map_Suc_upt zero_less_Suc)
  also have "\<dots> = buf ! t # ring_list buf h (Suc t mod ?n)"
    using assms(2) by (simp add: ring_list_def mod_simps)
  finally show ?thesis .
qed

lemma ring_list_Nil: "h < length buf \<Longrightarrow> t < length buf \<Longrightarrow> (ring_list buf h t = []) = (h = t)"
  using ring_empty [of h "length buf" t] by (metis length_0_conv length_ring_list)

section \<open>Bounded queues\<close>

text \<open>
  A queue of at most \<open>cap\<close> elements: what does not fit is dropped, what is taken is the oldest element.
\<close>

locale bounded_queue =
  fixes put :: "'a \<Rightarrow> 's \<Rightarrow> 's" and get :: "'s \<Rightarrow> 'a option \<times> 's" and inv :: "'s \<Rightarrow> bool" and contents :: "'s \<Rightarrow> 'a list"
    and cap :: nat
  assumes put_inv: "inv s \<Longrightarrow> inv (put x s)"
    and put_contents: "inv s \<Longrightarrow> contents (put x s) = (if length (contents s) < cap then contents s @ [x] else contents s)"
    and get_inv: "inv s \<Longrightarrow> inv (snd (get s))"
    and get_contents: "inv s \<Longrightarrow> contents s = (case fst (get s) of None \<Rightarrow> [] | Some x \<Rightarrow> x # contents (snd (get s)))"
    and get_empty: "inv s \<Longrightarrow> fst (get s) = None \<Longrightarrow> contents (snd (get s)) = []"
begin

lemma put_all:
  "inv s \<Longrightarrow> length (contents s) + length xs \<le> cap \<Longrightarrow> inv (fold put xs s) \<and> contents (fold put xs s) = contents s @ xs"
proof (induction xs arbitrary: s)
  case (Cons x xs)
  have "inv (put x s)" "contents (put x s) = contents s @ [x]" using Cons.prems by (simp_all add: put_inv put_contents)
  then show ?case using Cons.IH [of "put x s"] Cons.prems(2) by simp
qed simp

lemma get_cases:
  assumes "inv s"
  shows "contents s = [] \<and> fst (get s) = None \<and> contents (snd (get s)) = [] \<or>
    (\<exists>x xs. contents s = x # xs \<and> fst (get s) = Some x \<and> contents (snd (get s)) = xs)"
  using get_contents [OF assms] get_empty [OF assms] by (cases "fst (get s)") auto

lemma get_Cons: "inv s \<Longrightarrow> contents s = x # xs \<Longrightarrow> fst (get s) = Some x \<and> contents (snd (get s)) = xs \<and> inv (snd (get s))"
  using get_cases [of s] get_inv [of s] by auto

lemma get_Nil: "inv s \<Longrightarrow> contents s = [] \<Longrightarrow> fst (get s) = None \<and> contents (snd (get s)) = [] \<and> inv (snd (get s))"
  using get_cases [of s] get_inv [of s] by auto

end

text \<open>Mixed runs: \<open>Some x\<close> stands for a put, \<open>None\<close> for a get. The elements taken are those of the queue of lists.\<close>

fun queue_run :: "('a \<Rightarrow> 's \<Rightarrow> 's) \<Rightarrow> ('s \<Rightarrow> 'a option \<times> 's) \<Rightarrow> 'a option list \<Rightarrow> 's \<Rightarrow> 'a option list \<times> 's" where
  "queue_run put get [] s = ([], s)"
| "queue_run put get (Some x # ops) s = queue_run put get ops (put x s)"
| "queue_run put get (None # ops) s = (let (r, s1) = get s; (rs, s2) = queue_run put get ops s1 in (r # rs, s2))"

definition list_put :: "nat \<Rightarrow> 'a \<Rightarrow> 'a list \<Rightarrow> 'a list" where
  "list_put cap x xs = (if length xs < cap then xs @ [x] else xs)"

definition list_get :: "'a list \<Rightarrow> 'a option \<times> 'a list" where
  "list_get xs = (case xs of [] \<Rightarrow> (None, []) | x # ys \<Rightarrow> (Some x, ys))"

context bounded_queue
begin

lemma run_refines:
  "inv s \<Longrightarrow> fst (queue_run put get ops s) = fst (queue_run (list_put cap) list_get ops (contents s)) \<and>
     contents (snd (queue_run put get ops s)) = snd (queue_run (list_put cap) list_get ops (contents s)) \<and>
     inv (snd (queue_run put get ops s))"
proof (induction ops arbitrary: s)
  case (Cons p ops)
  show ?case
  proof (cases p)
    case (Some x)
    then show ?thesis using Cons.IH [of "put x s"] Cons.prems by (simp add: put_inv put_contents list_put_def)
  next
    case None
    have g: "list_get (contents s) = (fst (get s), contents (snd (get s)))" "inv (snd (get s))"
      using get_cases [OF Cons.prems] get_inv [OF Cons.prems] by (auto simp: list_get_def)
    show ?thesis using Cons.IH [OF g(2)] None g(1) by (auto simp: Let_def case_prod_beta)
  qed
qed simp

end

section \<open>Rings are bounded queues\<close>

text \<open>What a ring buffer does to its slots and its two indices.\<close>

locale ring_buffer =
  fixes put :: "'a \<Rightarrow> 's \<Rightarrow> 's" and get :: "'s \<Rightarrow> 'a option \<times> 's" and inv :: "'s \<Rightarrow> bool"
    and slots :: "'s \<Rightarrow> 'a list" and head :: "'s \<Rightarrow> nat" and tail :: "'s \<Rightarrow> nat" and n :: nat
  assumes bounds: "inv s \<Longrightarrow> length (slots s) = n \<and> head s < n \<and> tail s < n"
    and inv_put: "inv s \<Longrightarrow> inv (put x s)"
    and inv_get: "inv s \<Longrightarrow> inv (snd (get s))"
    and put_full: "inv s \<Longrightarrow> Suc (head s) mod n = tail s \<Longrightarrow>
      slots (put x s) = slots s \<and> head (put x s) = head s \<and> tail (put x s) = tail s"
    and put_room: "inv s \<Longrightarrow> Suc (head s) mod n \<noteq> tail s \<Longrightarrow>
      slots (put x s) = (slots s)[head s := x] \<and> head (put x s) = Suc (head s) mod n \<and> tail (put x s) = tail s"
    and get_none: "inv s \<Longrightarrow> head s = tail s \<Longrightarrow> get s = (None, s)"
    and get_some: "inv s \<Longrightarrow> head s \<noteq> tail s \<Longrightarrow> fst (get s) = Some (slots s ! tail s) \<and>
      slots (snd (get s)) = slots s \<and> head (snd (get s)) = head s \<and> tail (snd (get s)) = Suc (tail s) mod n"

sublocale ring_buffer \<subseteq> bounded_queue put get inv "\<lambda>s. ring_list (slots s) (head s) (tail s)" "n - 1"
proof (unfold_locales, goal_cases)
  case (1 s x)
  then show ?case by (rule inv_put)
next
  case (2 s x)
  then have b: "head s < length (slots s)" "tail s < length (slots s)" "length (slots s) = n" using bounds by auto
  show ?case
  proof (cases "Suc (head s) mod n = tail s")
    case True
    then show ?thesis using put_full [OF 2 True] ring_full [OF b(1,2)] b(3) by simp
  next
    case False
    then have "Suc (ring_size n (head s) (tail s)) \<noteq> n" using ring_full [OF b(1,2)] b(3) by simp
    then have "ring_size n (head s) (tail s) < n - 1" using ring_size_less [OF b(1,2)] b(3) by simp
    then show ?thesis using put_room [OF 2 False] ring_list_put [OF b(1,2)] False b(3) by simp
  qed
next
  case (3 s)
  then show ?case by (rule inv_get)
next
  case (4 s)
  then have b: "head s < length (slots s)" "tail s < length (slots s)" "length (slots s) = n" using bounds by auto
  show ?case
    using get_none [OF 4] get_some [OF 4] ring_list_Nil [OF b(1,2)] ring_list_get [OF b(1,2)] b(3)
    by (cases "head s = tail s") simp_all
next
  case (5 s)
  then have b: "head s < length (slots s)" "tail s < length (slots s)" using bounds by auto
  then show ?case using 5(2) get_none [OF 5(1)] get_some [OF 5(1)] ring_list_Nil [OF b] by (cases "head s = tail s") auto
qed

end
