(* ===== verification/Keyboard.thy ===== *)
theory Keyboard
  imports Ring Port_Io
begin

text \<open>
  The keyboard driver (\<open>Kernel/drivers/keyboard.c\<close>) and the event queues of the window manager that it
  feeds (the first part of \<open>Kernel/tui/tui_wm.c\<close>).

  The port accesses of the interrupt handler are an argument. A program that waits for a key halts the
  processor until the next interrupt; what arrives while it waits is the argument \<open>ev\<close> of the waiting
  functions: at each halt the first batch of keyboard interrupts is handled, each given by the values of
  the status and the data port. The result \<open>None\<close> stands for waiting for ever and for accesses outside an
  array. Log output is not modelled.
\<close>

section \<open>Event queues\<close>

definition KEY_QUEUE_SIZE :: nat where "KEY_QUEUE_SIZE = 64"
definition MOUSE_QUEUE_SIZE :: nat where "MOUSE_QUEUE_SIZE = 32"

datatype tui_event_t =
    TUI_EV_KEY (ev_ascii: u8) (ev_scancode: u8) (ev_alt: u8) (ev_ctrl: u8) (ev_shift: u8)
  | TUI_EV_MOUSE (ev_buttons: u8) (ev_dx: "8 word") (ev_dy: "8 word")

record wm_queues =
  g_key_queue :: "tui_event_t list"
  g_key_head :: u16
  g_key_tail :: u16
  g_mouse_queue :: "tui_event_t list"
  g_mouse_head :: u16
  g_mouse_tail :: u16
  g_queue_overflow :: u32

definition key_queue_full :: "wm_queues \<Rightarrow> bool" where
  "key_queue_full q \<longleftrightarrow> (unat (g_key_head q) + 1) mod KEY_QUEUE_SIZE = unat (g_key_tail q)"

definition key_queue_empty :: "wm_queues \<Rightarrow> bool" where
  "key_queue_empty q \<longleftrightarrow> g_key_head q = g_key_tail q"

definition key_queue_put :: "tui_event_t \<Rightarrow> wm_queues \<Rightarrow> wm_queues" where
  "key_queue_put ev q =
     (if key_queue_full q then q\<lparr>g_queue_overflow := g_queue_overflow q + 1\<rparr>
      else q\<lparr>g_key_queue := (g_key_queue q)[unat (g_key_head q) := ev],
             g_key_head := word_of_nat ((unat (g_key_head q) + 1) mod KEY_QUEUE_SIZE)\<rparr>)"

definition key_queue_get :: "wm_queues \<Rightarrow> tui_event_t option \<times> wm_queues" where
  "key_queue_get q =
     (if key_queue_empty q then (None, q)
      else (Some (g_key_queue q ! unat (g_key_tail q)),
            q\<lparr>g_key_tail := word_of_nat ((unat (g_key_tail q) + 1) mod KEY_QUEUE_SIZE)\<rparr>))"

definition mouse_queue_full :: "wm_queues \<Rightarrow> bool" where
  "mouse_queue_full q \<longleftrightarrow> (unat (g_mouse_head q) + 1) mod MOUSE_QUEUE_SIZE = unat (g_mouse_tail q)"

definition mouse_queue_empty :: "wm_queues \<Rightarrow> bool" where
  "mouse_queue_empty q \<longleftrightarrow> g_mouse_head q = g_mouse_tail q"

definition mouse_queue_put :: "tui_event_t \<Rightarrow> wm_queues \<Rightarrow> wm_queues" where
  "mouse_queue_put ev q =
     (if mouse_queue_full q then q\<lparr>g_queue_overflow := g_queue_overflow q + 1\<rparr>
      else q\<lparr>g_mouse_queue := (g_mouse_queue q)[unat (g_mouse_head q) := ev],
             g_mouse_head := word_of_nat ((unat (g_mouse_head q) + 1) mod MOUSE_QUEUE_SIZE)\<rparr>)"

definition mouse_queue_get :: "wm_queues \<Rightarrow> tui_event_t option \<times> wm_queues" where
  "mouse_queue_get q =
     (if mouse_queue_empty q then (None, q)
      else (Some (g_mouse_queue q ! unat (g_mouse_tail q)),
            q\<lparr>g_mouse_tail := word_of_nat ((unat (g_mouse_tail q) + 1) mod MOUSE_QUEUE_SIZE)\<rparr>))"

definition tui_wm_post_key :: "u8 \<Rightarrow> u8 \<Rightarrow> u8 \<Rightarrow> u8 \<Rightarrow> u8 \<Rightarrow> wm_queues \<Rightarrow> wm_queues" where
  "tui_wm_post_key ascii scancode alt ctrl shift q = key_queue_put (TUI_EV_KEY ascii scancode alt ctrl shift) q"

definition tui_wm_post_mouse :: "u8 \<Rightarrow> 8 word \<Rightarrow> 8 word \<Rightarrow> wm_queues \<Rightarrow> wm_queues" where
  "tui_wm_post_mouse buttons dx dy q = mouse_queue_put (TUI_EV_MOUSE buttons dx dy) q"

definition tui_wm_queue_overflow :: "wm_queues \<Rightarrow> u32" where
  "tui_wm_queue_overflow q = g_queue_overflow q"

section \<open>Scan codes\<close>

definition KEYBUF_SIZE :: nat where "KEYBUF_SIZE = 256"
definition KEY_NONE :: u8 where "KEY_NONE = 0"
definition KEY_BACKSP :: u8 where "KEY_BACKSP = 0x08"
definition KEY_TAB :: u8 where "KEY_TAB = 0x09"
definition KEY_ENTER :: u8 where "KEY_ENTER = 0x0D"
definition KEY_ESC :: u8 where "KEY_ESC = 0x1B"

lemmas key_consts = KEY_NONE_def KEY_BACKSP_def KEY_TAB_def KEY_ENTER_def KEY_ESC_def

definition keypad_codes :: bytes where
  "keypad_codes = [42, 0, 32, 0, 0, 0, 0, 0, 0, 0, 0, 0, 0, 0, 0, 0, 55, 56, 57, 45, 52, 53, 54, 43, 49, 50, 51, 48, 46]"

definition scancode_ascii :: bytes where
  "scancode_ascii =
     [0, KEY_ESC, 49, 50, 51, 52, 53, 54, 55, 56, 57, 48, 45, 61, KEY_BACKSP, KEY_TAB,
      113, 119, 101, 114, 116, 121, 117, 105, 111, 112, 91, 93, KEY_ENTER, 0,
      97, 115, 100, 102, 103, 104, 106, 107, 108, 59, 39, 96, 0,
      92, 122, 120, 99, 118, 98, 110, 109, 44, 46, 47, 0] @ keypad_codes @ replicate 44 0"

definition scancode_shifted :: bytes where
  "scancode_shifted =
     [0, KEY_ESC, 33, 64, 35, 36, 37, 94, 38, 42, 40, 41, 95, 43, KEY_BACKSP, KEY_TAB,
      81, 87, 69, 82, 84, 89, 85, 73, 79, 80, 123, 125, KEY_ENTER, 0,
      65, 83, 68, 70, 71, 72, 74, 75, 76, 58, 34, 126, 0,
      124, 90, 88, 67, 86, 66, 78, 77, 60, 62, 63, 0] @ keypad_codes @ replicate 44 0"

section \<open>The key buffer\<close>

record kbd =
  g_keybuf :: bytes
  g_keybuf_head :: u16
  g_keybuf_tail :: u16
  g_shift :: u8
  g_alt :: u8
  g_ctrl :: u8
  g_tui_mode :: bool
  wm_queues :: wm_queues

definition buf_full :: "kbd \<Rightarrow> bool" where
  "buf_full s \<longleftrightarrow> (word_of_nat ((unat (g_keybuf_head s) + 1) mod KEYBUF_SIZE) :: u16) = g_keybuf_tail s"

definition buf_empty :: "kbd \<Rightarrow> bool" where
  "buf_empty s \<longleftrightarrow> g_keybuf_head s = g_keybuf_tail s"

definition buf_put :: "u8 \<Rightarrow> kbd \<Rightarrow> kbd" where
  "buf_put c s =
     (if \<not> buf_full s
      then s\<lparr>g_keybuf := (g_keybuf s)[unat (g_keybuf_head s) := c],
             g_keybuf_head := word_of_nat ((unat (g_keybuf_head s) + 1) mod KEYBUF_SIZE)\<rparr>
      else s)"

definition buf_get :: "kbd \<Rightarrow> u8 \<times> kbd" where
  "buf_get s =
     (if buf_empty s then (KEY_NONE, s)
      else (g_keybuf s ! unat (g_keybuf_tail s),
            s\<lparr>g_keybuf_tail := word_of_nat ((unat (g_keybuf_tail s) + 1) mod KEYBUF_SIZE)\<rparr>))"

definition keyboard_init :: "kbd \<Rightarrow> kbd" where
  "keyboard_init s = s\<lparr>g_keybuf_head := 0, g_keybuf_tail := 0, g_shift := 0, g_alt := 0, g_ctrl := 0\<rparr>"

text \<open>What the handler does with the byte from the data port.\<close>

definition handle_scancode :: "u8 \<Rightarrow> kbd \<Rightarrow> kbd" where
  "handle_scancode sc s =
     (let is_break = (sc AND 0x80 \<noteq> 0); code = sc AND 0x7F in
      if code = 0x2A \<or> code = 0x36 then s\<lparr>g_shift := (if is_break then 0 else 1)\<rparr>
      else if code = 0x1D then s\<lparr>g_ctrl := (if is_break then 0 else 1)\<rparr>
      else if code = 0x38 then s\<lparr>g_alt := (if is_break then 0 else 1)\<rparr>
      else if is_break then s
      else if code \<ge> 128 then s
      else
        (let ascii0 = (if g_shift s \<noteq> 0 then scancode_shifted ! unat code else scancode_ascii ! unat code);
             ascii = (if g_ctrl s \<noteq> 0 \<and> ascii0 \<ge> 97 \<and> ascii0 \<le> 122 then ascii0 - 97 + 1 else ascii0)
         in if g_tui_mode s
            then s\<lparr>wm_queues := tui_wm_post_key ascii code (g_alt s) (g_ctrl s) (g_shift s) (wm_queues s)\<rparr>
            else if ascii \<noteq> 0 then (if ascii \<noteq> KEY_BACKSP then buf_put ascii s else s) else s))"

definition keyboard_irq :: "'h ports \<Rightarrow> kbd \<Rightarrow> 'h \<Rightarrow> kbd \<times> 'h" where
  "keyboard_irq io s h =
     (let (status, h1) = p_inb io 0x64 h in
      if status AND 0x01 = 0 then (s, h1)
      else if status AND 0x20 \<noteq> 0 then (s, h1)
      else (let (sc, h2) = p_inb io 0x60 h1 in (handle_scancode sc s, h2)))"

definition keyboard_set_tui_mode :: "bool \<Rightarrow> kbd \<Rightarrow> kbd" where
  "keyboard_set_tui_mode enable s = s\<lparr>g_tui_mode := enable\<rparr>"

definition keyboard_getc :: "kbd \<Rightarrow> u8 \<times> kbd" where
  "keyboard_getc s = buf_get s"

section \<open>Waiting for keys\<close>

text \<open>A keyboard interrupt with the values of the two ports.\<close>

type_synonym key_irq = "u8 \<times> u8"

definition key_ports :: "key_irq ports" where
  "key_ports = \<lparr>p_inb = (\<lambda>r h. (if r = 0x64 then fst h else snd h, h)), p_outb = (\<lambda>r v h. h),
     p_inw = (\<lambda>r h. (0, h)), p_outw = (\<lambda>r v h. h)\<rparr>"

definition take_irq :: "key_irq \<Rightarrow> kbd \<Rightarrow> kbd" where
  "take_irq e s = fst (keyboard_irq key_ports s e)"

fun wait_key :: "key_irq list list \<Rightarrow> kbd \<Rightarrow> (u8 \<times> kbd \<times> key_irq list list) option" where
  "wait_key [] s = (let (c, s1) = buf_get s in if c \<noteq> KEY_NONE then Some (c, s1, []) else None)"
| "wait_key (b # ev) s =
     (let (c, s1) = buf_get s in if c \<noteq> KEY_NONE then Some (c, s1, b # ev) else wait_key ev (fold take_irq b s1))"

definition keyboard_read :: "key_irq list list \<Rightarrow> kbd \<Rightarrow> (u8 \<times> kbd \<times> key_irq list list) option" where
  "keyboard_read ev s = wait_key ev s"

text \<open>
  The body of the loop of \<open>keyboard_readline\<close> and of \<open>keyboard_readline_vga\<close>, which differ in the device
  they echo to: \<open>put\<close> writes a character to it, \<open>rub\<close> erases one. \<open>Inl\<close> is a return from the function.
\<close>

definition readline_key ::
  "(u8 \<Rightarrow> 'v \<Rightarrow> 'v option) \<Rightarrow> ('v \<Rightarrow> 'v option) \<Rightarrow> nat \<Rightarrow> u8 \<Rightarrow> nat \<times> bytes \<times> 'v \<Rightarrow>
   ((nat \<times> bytes \<times> 'v) + (nat \<times> bytes \<times> 'v)) option" where
  "readline_key put rub len c st =
     (case st of (i, buf, v) \<Rightarrow>
       if c = KEY_ENTER then do { buf1 \<leftarrow> arr_set buf i 0; v1 \<leftarrow> put 10 v; Some (Inl (i, buf1, v1)) }
       else if c = KEY_BACKSP then (if i > 0 then do { v1 \<leftarrow> rub v; Some (Inr (i - 1, buf, v1)) } else Some (Inr st))
       else if c = KEY_TAB then Some (Inr st)
       else if c = KEY_ESC then do { buf1 \<leftarrow> arr_set buf 0 0; Some (Inl (0, buf1, v)) }
       else if i < len - 1 then do { buf1 \<leftarrow> arr_set buf i c; v1 \<leftarrow> put c v; Some (Inr (i + 1, buf1, v1)) }
       else Some (Inr st))"

partial_function (option) readline_loop ::
  "(u8 \<Rightarrow> 'v \<Rightarrow> 'v option) \<Rightarrow> ('v \<Rightarrow> 'v option) \<Rightarrow> nat \<Rightarrow> nat \<times> bytes \<times> 'v \<Rightarrow> key_irq list list \<Rightarrow> kbd \<Rightarrow>
   ((nat \<times> bytes \<times> 'v) \<times> key_irq list list \<times> kbd) option" where
  "readline_loop put rub len st ev s =
     (case wait_key ev s of
        None \<Rightarrow> None
      | Some (c, s1, ev1) \<Rightarrow>
          (case readline_key put rub len c st of
             None \<Rightarrow> None
           | Some (Inl r) \<Rightarrow> Some (r, ev1, s1)
           | Some (Inr st1) \<Rightarrow> readline_loop put rub len st1 ev1 s1))"

declare readline_loop.simps [code]

text \<open>The buffer is \<open>None\<close> for a null pointer. The first one echoes to the serial port, that is, to the log.\<close>

definition keyboard_readline ::
  "bytes option \<Rightarrow> u16 \<Rightarrow> key_irq list list \<Rightarrow> kbd \<Rightarrow> (nat \<times> bytes option \<times> key_irq list list \<times> kbd) option" where
  "keyboard_readline buf len ev s =
     (case buf of
        None \<Rightarrow> Some (0, None, ev, s)
      | Some b \<Rightarrow>
          if len = 0 then Some (0, buf, ev, s)
          else map_option (\<lambda>((n, b1, _), ev1, s1). (n, Some b1, ev1, s1)) (readline_loop (\<lambda>_. Some) Some (unat len) (0, b, ()) ev s))"

definition keyboard_readline_vga ::
  "(u8 \<Rightarrow> 'v \<Rightarrow> 'v option) \<Rightarrow> bytes option \<Rightarrow> u16 \<Rightarrow> key_irq list list \<Rightarrow> kbd \<Rightarrow> 'v \<Rightarrow>
   (nat \<times> bytes option \<times> key_irq list list \<times> kbd \<times> 'v) option" where
  "keyboard_readline_vga vga_put buf len ev s v =
     (case buf of
        None \<Rightarrow> Some (0, None, ev, s, v)
      | Some b \<Rightarrow>
          if len = 0 then Some (0, buf, ev, s, v)
          else map_option (\<lambda>((n, b1, v1), ev1, s1). (n, Some b1, ev1, s1, v1))
                 (readline_loop vga_put (vga_put 8) (unat len) (0, b, v) ev s))"

end
