(* ===== verification/Console.thy ===== *)
theory Console
  imports Port_Io
begin

text \<open>
  The serial port (\<open>Kernel/drivers/serial.c\<close>) and the text console on the VGA memory
  (\<open>Kernel/drivers/vga.c\<close>). The port accesses are an argument. The result \<open>None\<close> stands for a serial port that
  never gets ready and for accesses outside the 80 by 25 cells of the screen. Strings are given without
  their NUL, a null pointer is \<open>None\<close>.
\<close>

section \<open>The serial port\<close>

definition SERIAL_PORT_COM1 :: u16 where "SERIAL_PORT_COM1 = 0x3F8"

definition serial_init :: "'h ports \<Rightarrow> 'h \<Rightarrow> 'h" where
  "serial_init io h =
     snd (p_inb io SERIAL_PORT_COM1
       (fold (\<lambda>(r, v). p_outb io (SERIAL_PORT_COM1 + r) v)
          [(1, 0x00), (3, 0x80), (0, 0x01), (1, 0x00), (3, 0x03), (2, 0xC7), (4, 0x0B)] h))"

definition serial_is_transmit_empty :: "'h ports \<Rightarrow> 'h \<Rightarrow> bool \<times> 'h" where
  "serial_is_transmit_empty io h = (let (s, h1) = p_inb io (SERIAL_PORT_COM1 + 5) h in (s AND 0x20 \<noteq> 0, h1))"

partial_function (option) serial_wait :: "'h ports \<Rightarrow> 'h \<Rightarrow> 'h option" where
  "serial_wait io h =
     (case serial_is_transmit_empty io h of (e, h1) \<Rightarrow> if \<not> e then serial_wait io h1 else Some h1)"

declare serial_wait.simps [code]

definition serial_putc :: "'h ports \<Rightarrow> u8 \<Rightarrow> 'h \<Rightarrow> 'h option" where
  "serial_putc io c h =
     do { h1 \<leftarrow> serial_wait io h;
          let h2 = p_outb io SERIAL_PORT_COM1 c h1;
          if c = 10 then do { h3 \<leftarrow> serial_wait io h2; Some (p_outb io SERIAL_PORT_COM1 13 h3) } else Some h2 }"

fun put_all :: "(u8 \<Rightarrow> 'h \<Rightarrow> 'h option) \<Rightarrow> bytes \<Rightarrow> 'h \<Rightarrow> 'h option" where
  "put_all put [] h = Some h"
| "put_all put (c # cs) h = do { h1 \<leftarrow> put c h; put_all put cs h1 }"

definition serial_puts :: "'h ports \<Rightarrow> bytes option \<Rightarrow> 'h \<Rightarrow> 'h option" where
  "serial_puts io str h = (case str of None \<Rightarrow> Some h | Some s \<Rightarrow> put_all (serial_putc io) s h)"

text \<open>The decimal digits of a number, the last one first; the array has room for ten.\<close>

function dec_digits :: "u32 \<Rightarrow> bytes \<Rightarrow> bytes" where
  "dec_digits value ds =
     (if value > 0 \<and> length ds < 10 then dec_digits (value div 10) (ds @ [48 + ucast (value mod 10)]) else ds)"
  by pat_completeness auto
termination by (relation "measure (\<lambda>(v, ds). 10 - length ds)") auto

declare dec_digits.simps [simp del]

definition dec_string :: "u32 \<Rightarrow> bytes" where
  "dec_string value = (if value = 0 then [48] else rev (dec_digits value []))"

definition serial_put_u32 :: "'h ports \<Rightarrow> u32 \<Rightarrow> 'h \<Rightarrow> 'h option" where
  "serial_put_u32 io value h = serial_puts io (Some (dec_string value)) h"

text \<open>The negation of the least value overflows.\<close>

definition serial_put_i32 :: "'h ports \<Rightarrow> u32 \<Rightarrow> 'h \<Rightarrow> 'h option" where
  "serial_put_i32 io value h =
     (if sint value < 0
      then do { h1 \<leftarrow> serial_putc io 45 h; if sint value = - 2147483648 then None else serial_put_u32 io (- value) h1 }
      else serial_put_u32 io value h)"

section \<open>The text console\<close>

definition VGA_WIDTH :: nat where "VGA_WIDTH = 80"
definition VGA_HEIGHT :: nat where "VGA_HEIGHT = 25"
definition VGA_COLOR :: u16 where "VGA_COLOR = 0x0F"

lemmas vga_consts = VGA_WIDTH_def VGA_HEIGHT_def VGA_COLOR_def

record vga =
  vga_mem :: "u16 list"
  g_vga_row :: nat
  g_vga_col :: nat

definition vga_cellv :: "u16 \<Rightarrow> u8 \<Rightarrow> u16" where
  "vga_cellv attr c = push_bit 8 attr OR ucast c"

abbreviation vga_blank :: u16 where "vga_blank \<equiv> vga_cellv VGA_COLOR 32"

definition vga_update_cursor :: "'h ports \<Rightarrow> vga \<Rightarrow> 'h \<Rightarrow> 'h" where
  "vga_update_cursor io v h =
     (let pos = (word_of_nat (g_vga_row v * VGA_WIDTH + g_vga_col v) :: u16) in
      p_outb io 0x3D5 (ucast (drop_bit 8 pos AND 0xFF)) (p_outb io 0x3D4 0x0E
        (p_outb io 0x3D5 (ucast (pos AND 0xFF)) (p_outb io 0x3D4 0x0F h))))"

fun shift_cells :: "nat list \<Rightarrow> u16 list \<Rightarrow> u16 list option" where
  "shift_cells [] m = Some m"
| "shift_cells (i # is) m = do { c \<leftarrow> arr_get m (i + VGA_WIDTH); m1 \<leftarrow> arr_set m i c; shift_cells is m1 }"

fun fill_cells :: "nat list \<Rightarrow> u16 \<Rightarrow> u16 list \<Rightarrow> u16 list option" where
  "fill_cells [] c m = Some m"
| "fill_cells (i # is) c m = do { m1 \<leftarrow> arr_set m i c; fill_cells is c m1 }"

definition vga_scroll :: "u16 list \<Rightarrow> u16 list option" where
  "vga_scroll m =
     do { m1 \<leftarrow> shift_cells [0 ..< (VGA_HEIGHT - 1) * VGA_WIDTH] m;
          fill_cells (map (\<lambda>i. (VGA_HEIGHT - 1) * VGA_WIDTH + i) [0 ..< VGA_WIDTH]) vga_blank m1 }"

definition vga_clear :: "'h ports \<Rightarrow> vga \<Rightarrow> 'h \<Rightarrow> (vga \<times> 'h) option" where
  "vga_clear io v h =
     do { m \<leftarrow> fill_cells [0 ..< VGA_WIDTH * VGA_HEIGHT] vga_blank (vga_mem v);
          let v1 = \<lparr>vga_mem = m, g_vga_row = 0, g_vga_col = 0\<rparr>;
          Some (v1, vga_update_cursor io v1 h) }"

text \<open>The loop that scrolls until the cursor is on the screen again.\<close>

function scroll_loop :: "vga \<Rightarrow> vga option" where
  "scroll_loop v =
     (if g_vga_row v \<ge> VGA_HEIGHT
      then (case vga_scroll (vga_mem v) of
              None \<Rightarrow> None
            | Some m \<Rightarrow> scroll_loop (v\<lparr>vga_mem := m, g_vga_row := (if g_vga_row v > 0 then g_vga_row v - 1 else g_vga_row v)\<rparr>))
      else Some v)"
  by pat_completeness auto
termination by (relation "measure g_vga_row") (auto simp: VGA_HEIGHT_def)

declare scroll_loop.simps [simp del]

definition wrap_line :: "vga \<Rightarrow> vga" where
  "wrap_line v = (if g_vga_col v \<ge> VGA_WIDTH then v\<lparr>g_vga_col := 0, g_vga_row := g_vga_row v + 1\<rparr> else v)"

definition put_cell :: "u16 \<Rightarrow> vga \<Rightarrow> vga option" where
  "put_cell cell v =
     (if g_vga_row v < VGA_HEIGHT \<and> g_vga_col v < VGA_WIDTH
      then do { m \<leftarrow> arr_set (vga_mem v) (g_vga_row v * VGA_WIDTH + g_vga_col v) cell;
                Some (v\<lparr>vga_mem := m, g_vga_col := g_vga_col v + 1\<rparr>) }
      else Some v)"

definition vga_putc :: "'h ports \<Rightarrow> u8 \<Rightarrow> vga \<times> 'h \<Rightarrow> (vga \<times> 'h) option" where
  "vga_putc io c vh =
     (case vh of (v, h) \<Rightarrow>
      do { v1 \<leftarrow>
             (if c = 10 then Some (v\<lparr>g_vga_row := g_vga_row v + 1, g_vga_col := 0\<rparr>)
              else if c = 13 then Some (v\<lparr>g_vga_col := 0\<rparr>)
              else if c = 8
              then (if g_vga_col v > 0
                    then do { m \<leftarrow> arr_set (vga_mem v) (g_vga_row v * VGA_WIDTH + (g_vga_col v - 1)) vga_blank;
                              Some (v\<lparr>vga_mem := m, g_vga_col := g_vga_col v - 1\<rparr>) }
                    else Some v)
              else if c = 9 then Some v
              else put_cell (vga_cellv VGA_COLOR c) v);
           v2 \<leftarrow> scroll_loop (wrap_line v1);
           Some (v2, vga_update_cursor io v2 h) })"

definition vga_puts :: "'h ports \<Rightarrow> bytes option \<Rightarrow> vga \<times> 'h \<Rightarrow> (vga \<times> 'h) option" where
  "vga_puts io s vh = (case s of None \<Rightarrow> Some vh | Some cs \<Rightarrow> put_all (vga_putc io) cs vh)"

fun write_cells :: "bytes \<Rightarrow> nat \<Rightarrow> u16 list \<Rightarrow> u16 list option" where
  "write_cells [] pos m = Some m"
| "write_cells (c # cs) pos m =
     (if pos < VGA_WIDTH * VGA_HEIGHT
      then do { m1 \<leftarrow> arr_set m pos (vga_cellv VGA_COLOR c); write_cells cs (pos + 1) m1 } else Some m)"

definition vga_write :: "nat \<Rightarrow> nat \<Rightarrow> bytes option \<Rightarrow> vga \<Rightarrow> vga option" where
  "vga_write row col txt v =
     (case txt of
        None \<Rightarrow> Some v
      | Some t \<Rightarrow>
          if row \<ge> VGA_HEIGHT \<or> col \<ge> VGA_WIDTH then Some v
          else do { m \<leftarrow> write_cells t (row * VGA_WIDTH + col) (vga_mem v); Some (v\<lparr>vga_mem := m\<rparr>) })"

definition vga_enable_cursor :: "'h ports \<Rightarrow> vga \<Rightarrow> 'h \<Rightarrow> 'h" where
  "vga_enable_cursor io v h =
     (let (start, h1) = p_inb io 0x3D5 (p_outb io 0x3D4 0x0A h) in
      vga_update_cursor io v (p_outb io 0x3D5 0x0F (p_outb io 0x3D4 0x0B (p_outb io 0x3D5 (start AND NOT 0x20) (p_outb io 0x3D4 0x0A h1)))))"

definition vga_disable_cursor :: "'h ports \<Rightarrow> 'h \<Rightarrow> 'h" where
  "vga_disable_cursor io h =
     (let (start, h1) = p_inb io 0x3D5 (p_outb io 0x3D4 0x0A h) in
      p_outb io 0x3D5 (start OR 0x20) (p_outb io 0x3D4 0x0A h1))"

definition vga_set_cursor :: "'h ports \<Rightarrow> nat \<Rightarrow> nat \<Rightarrow> vga \<Rightarrow> 'h \<Rightarrow> vga \<times> 'h" where
  "vga_set_cursor io row col v h =
     (let v1 = v\<lparr>g_vga_row := (if row \<ge> VGA_HEIGHT then VGA_HEIGHT - 1 else row), g_vga_col := (if col \<ge> VGA_WIDTH then VGA_WIDTH - 1 else col)\<rparr>
      in (v1, vga_update_cursor io v1 h))"

text \<open>The buffer of 48 bytes: at most 36 of the prefix, then as many digits as fit.\<close>

definition vga_write_u32 :: "nat \<Rightarrow> nat \<Rightarrow> bytes option \<Rightarrow> u32 \<Rightarrow> vga \<Rightarrow> vga option" where
  "vga_write_u32 row col prefix value v =
     (let p = (case prefix of None \<Rightarrow> [] | Some s \<Rightarrow> take 36 s) in
      vga_write row col (Some (p @ take (47 - length p) (dec_string value))) v)"

definition vga_putc_attr :: "'h ports \<Rightarrow> u8 \<Rightarrow> u8 \<Rightarrow> vga \<times> 'h \<Rightarrow> (vga \<times> 'h) option" where
  "vga_putc_attr io c attr vh =
     (case vh of (v, h) \<Rightarrow>
      do { v1 \<leftarrow> put_cell (vga_cellv (ucast attr) c) v; v2 \<leftarrow> scroll_loop (wrap_line v1); Some (v2, vga_update_cursor io v2 h) })"

definition vga_cell :: "nat \<Rightarrow> nat \<Rightarrow> u8 \<Rightarrow> u8 \<Rightarrow> vga \<Rightarrow> vga option" where
  "vga_cell row col c attr v =
     (if row \<ge> VGA_HEIGHT \<or> col \<ge> VGA_WIDTH then Some v
      else do { m \<leftarrow> arr_set (vga_mem v) (row * VGA_WIDTH + col) (vga_cellv (ucast attr) c); Some (v\<lparr>vga_mem := m\<rparr>) })"

end
