(* ===== verification/Syscall.thy ===== *)
theory Syscall
  imports Elf Keyboard Console
begin

text \<open>
  The system calls (\<open>Kernel/arch/syscall.c\<close>): files, the console and the arguments that user programs pass.

  The state holds what the calls work on: the volumes, by the addresses that \<open>g_sys_fs\<close> and the file
  descriptors hold, the disk, the kernel heap with the memory, the keyboard with the interrupts that
  will arrive, the console and the devices behind the ports, the page directory that is loaded and the
  timer. A file's contents are copied between the volume and user memory through the buffers of the
  code; a buffer on the kernel stack is a list. The result \<open>None\<close> stands for a fault, for waiting for ever,
  and whatever has no defined result in the functions that are called.
\<close>

section \<open>State\<close>

definition O_RDONLY :: u32 where "O_RDONLY = 1"
definition O_WRONLY :: u32 where "O_WRONLY = 2"
definition O_RDWR :: u32 where "O_RDWR = 3"
definition O_CREAT :: u32 where "O_CREAT = 0x0100"
definition MAX_FDS :: u32 where "MAX_FDS = 8"
definition CONSOLE_READ_FD :: u32 where "CONSOLE_READ_FD = 0"
definition CONSOLE_WRITE_FD :: u32 where "CONSOLE_WRITE_FD = 1"
definition SYSCALL_STRING_MAX :: nat where "SYSCALL_STRING_MAX = 256"
definition SYSCALL_READLINE_MAX :: nat where "SYSCALL_READLINE_MAX = 128"
definition SYS_PRINT :: u32 where "SYS_PRINT = 0"
definition SYS_EXIT :: u32 where "SYS_EXIT = 1"
definition SYS_GETTIME :: u32 where "SYS_GETTIME = 2"
definition SYS_OPEN :: u32 where "SYS_OPEN = 3"
definition SYS_READ :: u32 where "SYS_READ = 4"
definition SYS_WRITE :: u32 where "SYS_WRITE = 5"
definition SYS_CLOSE :: u32 where "SYS_CLOSE = 6"
definition SYS_SEEK :: u32 where "SYS_SEEK = 7"

abbreviation SYS_FAIL :: u32 where "SYS_FAIL \<equiv> 0xFFFFFFFF"

lemmas sys_consts = O_RDONLY_def O_WRONLY_def O_RDWR_def O_CREAT_def MAX_FDS_def CONSOLE_READ_FD_def CONSOLE_WRITE_FD_def
  SYSCALL_STRING_MAX_def SYSCALL_READLINE_MAX_def SYS_PRINT_def SYS_EXIT_def SYS_GETTIME_def SYS_OPEN_def SYS_READ_def
  SYS_WRITE_def SYS_CLOSE_def SYS_SEEK_def

record fd_entry_t =
  fd_used :: bool
  fd_fs :: "nat option"
  fd_info :: file_info_t
  fd_pos :: u32

record ('d, 'h) sys_state =
  g_sys_fs :: "nat option"
  g_fds :: "fd_entry_t list"
  g_syscall_did_exit :: u32
  volumes :: "nat \<Rightarrow> fat12_fs_t"
  sdev :: 'd
  sheap :: heap_t
  skbd :: kbd
  arrivals :: "key_irq list list"
  svga :: vga
  shw :: 'h
  scr3 :: u32
  sticks :: u32

definition syscall_set_fs :: "nat option \<Rightarrow> ('d, 'h) sys_state \<Rightarrow> ('d, 'h) sys_state" where
  "syscall_set_fs fs s = s\<lparr>g_sys_fs := fs\<rparr>"

definition console_putc :: "'h ports \<Rightarrow> u8 \<Rightarrow> vga \<times> 'h \<Rightarrow> (vga \<times> 'h) option" where
  "console_putc io c vh = do { (v1, h1) \<leftarrow> vga_putc io c vh; h2 \<leftarrow> serial_putc io c h1; Some (v1, h2) }"

definition info_display_name :: "file_info_t \<Rightarrow> bytes" where
  "info_display_name fi =
     takeWhile (\<lambda>c. c \<noteq> 32) (take 8 (fi_name fi)) @
     (if fi_name fi ! 8 \<noteq> 32 then 46 # takeWhile (\<lambda>c. c \<noteq> 32) (take 3 (drop 8 (fi_name fi))) else [])"

section \<open>Opening, closing, seeking\<close>

text \<open>The first free descriptor from \<open>fd\<close> on.\<close>

fun free_fd :: "fd_entry_t list \<Rightarrow> nat list \<Rightarrow> nat option" where
  "free_fd fds [] = None"
| "free_fd fds (i # is) = (if \<not> fd_used (fds ! i) then Some i else free_fd fds is)"

text \<open>Finding a file, or creating it where \<open>O_CREAT\<close> asks for it.\<close>

definition open_find ::
  "'d blk_ops \<Rightarrow> nat \<Rightarrow> bytes \<Rightarrow> u32 \<Rightarrow> ('d, 'h) sys_state \<Rightarrow> (file_info_t option \<times> ('d, 'h) sys_state) option" where
  "open_find drv v p flags s =
     do { fi \<leftarrow> fat12_find_file (volumes s v) p;
          if fi = None \<and> flags AND O_CREAT \<noteq> 0
          then do { (ok, fs1, d1) \<leftarrow> fat12_create_file drv p (volumes s v) (sdev s);
                    let s1 = s\<lparr>volumes := (volumes s)(v := fs1), sdev := d1\<rparr>;
                    if \<not> ok then Some (None, s1) else do { f \<leftarrow> fat12_find_file fs1 p; Some (f, s1) } }
          else Some (fi, s) }"

text \<open>A path is given without its NUL; a null pointer is \<open>None\<close>.\<close>

definition sys_open ::
  "'d blk_ops \<Rightarrow> bytes option \<Rightarrow> u32 \<Rightarrow> ('d, 'h) sys_state \<Rightarrow> (u32 \<times> ('d, 'h) sys_state) option" where
  "sys_open drv path flags s =
     (case (g_sys_fs s, path) of
        (Some v, Some p) \<Rightarrow>
          if p = [] then Some (SYS_FAIL, s)
          else do {
            (fi, s1) \<leftarrow> open_find drv v p flags s;
            case fi of
              None \<Rightarrow> Some (SYS_FAIL, s1)
            | Some info \<Rightarrow>
                (let acc = flags AND 0xFF in
                 if acc \<noteq> O_RDONLY \<and> acc \<noteq> O_WRONLY \<and> acc \<noteq> O_RDWR then Some (SYS_FAIL, s1)
                 else
                   (case free_fd (g_fds s1) [unat (CONSOLE_WRITE_FD + 1) ..< unat MAX_FDS] of
                      None \<Rightarrow> Some (SYS_FAIL, s1)
                    | Some fd \<Rightarrow>
                        Some (word_of_nat fd,
                          s1\<lparr>g_fds := (g_fds s1)[fd := \<lparr>fd_used = True, fd_fs = Some v, fd_info = info, fd_pos = 0\<rparr>]\<rparr>))) }
      | _ \<Rightarrow> Some (SYS_FAIL, s))"

definition sys_close :: "u32 \<Rightarrow> ('d, 'h) sys_state \<Rightarrow> u32 \<times> ('d, 'h) sys_state" where
  "sys_close fd s =
     (if fd = CONSOLE_READ_FD \<or> fd = CONSOLE_WRITE_FD \<or> fd \<ge> MAX_FDS \<or> \<not> fd_used (g_fds s ! unat fd) then (SYS_FAIL, s)
      else (0, s\<lparr>g_fds := (g_fds s)[unat fd := (g_fds s ! unat fd)\<lparr>fd_used := False, fd_fs := None\<rparr>]\<rparr>))"

definition sys_seek :: "u32 \<Rightarrow> u32 \<Rightarrow> u32 \<Rightarrow> ('d, 'h) sys_state \<Rightarrow> u32 \<times> ('d, 'h) sys_state" where
  "sys_seek fd offset whence s =
     (if fd \<ge> MAX_FDS \<or> \<not> fd_used (g_fds s ! unat fd) \<or> fd_fs (g_fds s ! unat fd) = None then (SYS_FAIL, s)
      else
        (let f = g_fds s ! unat fd; size = fi_size (fd_info f);
             np = (if whence = 0 then Some offset
                   else if whence = 1 then (if offset > 0xFFFFFFFF - fd_pos f then None else Some (fd_pos f + offset))
                   else if whence = 2 then (if offset > 0xFFFFFFFF - size then None else Some (size + offset))
                   else None)
         in case np of
              None \<Rightarrow> (SYS_FAIL, s)
            | Some n \<Rightarrow>
                (let n1 = (if n > size then size else n) in
                 (n1, s\<lparr>g_fds := (g_fds s)[unat fd := f\<lparr>fd_pos := n1\<rparr>]\<rparr>))))"

section \<open>Reading\<close>

definition read_console ::
  "'h ports \<Rightarrow> u32 \<Rightarrow> u32 \<Rightarrow> ('d, 'h) sys_state \<Rightarrow> (u32 \<times> ('d, 'h) sys_state) option" where
  "read_console io buf count s =
     (let line_limit = (word_of_nat (if unat count < SYSCALL_READLINE_MAX then unat count else SYSCALL_READLINE_MAX) :: u16) in
      do { (n0, line, ev, k, (v, h)) \<leftarrow>
             keyboard_readline_vga (vga_putc io) (Some (replicate SYSCALL_READLINE_MAX 0)) line_limit (arrivals s)
               (keyboard_set_tui_mode False (skbd s)) (svga s, shw s);
           let s1 = s\<lparr>skbd := keyboard_set_tui_mode True k, arrivals := ev, svga := v, shw := h\<rparr>;
           let n = (word_of_nat n0 :: u32);
           let copy_len = n + 1;
           if copy_len > count then Some (SYS_FAIL, s1)
           else do { (ok, m) \<leftarrow> paging_copy_to_user (scr3 s) buf line copy_len (hmem (sheap s1));
                     let s2 = s1\<lparr>sheap := (sheap s1)\<lparr>hmem := m\<rparr>\<rparr>;
                     Some (if ok then n else SYS_FAIL, s2) } })"

definition read_fd ::
  "'d blk_ops \<Rightarrow> nat \<Rightarrow> nat \<Rightarrow> u32 \<Rightarrow> u32 \<Rightarrow> ('d, 'h) sys_state \<Rightarrow> (u32 \<times> ('d, 'h) sys_state) option" where
  "read_fd drv fd v buf count s =
     (let f = g_fds s ! fd; size = fi_size (fd_info f) in
      do { (r, h1, d1) \<leftarrow> fat12_read_file drv (volumes s v) (fd_info f) (sheap s) (sdev s);
           let s1 = s\<lparr>sheap := h1, sdev := d1\<rparr>;
           case r of
             None \<Rightarrow> Some (SYS_FAIL, s1)
           | Some (p, bs) \<Rightarrow>
               (let avail = (if fd_pos f < size then size - fd_pos f else 0);
                    n = (if count < avail then count else avail);
                    src = drop (unat (fd_pos f)) (buffer_bytes (hmem h1) p bs (unat size))
                in do { (ok, m) \<leftarrow> paging_copy_to_user (scr3 s) buf (Some src) n (hmem h1);
                        let s2 = s1\<lparr>sheap := h1\<lparr>hmem := m\<rparr>\<rparr>;
                        h3 \<leftarrow> kfree p (sheap s2);
                        if \<not> ok then Some (SYS_FAIL, s2\<lparr>sheap := h3\<rparr>)
                        else Some (n, s2\<lparr>sheap := h3, g_fds := (g_fds s2)[fd := f\<lparr>fd_pos := fd_pos f + n\<rparr>]\<rparr>) }) })"

definition sys_read ::
  "'h ports \<Rightarrow> 'd blk_ops \<Rightarrow> u32 \<Rightarrow> u32 \<Rightarrow> u32 \<Rightarrow> ('d, 'h) sys_state \<Rightarrow> (u32 \<times> ('d, 'h) sys_state) option" where
  "sys_read io drv fd buf count s =
     (if buf = 0 \<or> count = 0 then Some (0, s)
      else if fd = CONSOLE_READ_FD then read_console io buf count s
      else if fd < MAX_FDS \<and> fd_used (g_fds s ! unat fd)
      then (case fd_fs (g_fds s ! unat fd) of None \<Rightarrow> Some (SYS_FAIL, s) | Some v \<Rightarrow> read_fd drv (unat fd) v buf count s)
      else Some (SYS_FAIL, s))"

section \<open>Writing\<close>

lemma chunk_step:
  assumes "pos < count" and "n = (if count - pos > 128 then 128 else count - pos)"
  shows "unat (pos + n) = unat pos + unat n" "0 < unat n" "unat pos + unat n \<le> unat count" "unat n \<le> 128" "unat n \<le> unat (count - pos :: u32)"
proof -
  have d: "unat (count - pos) = unat count - unat pos" using assms(1) by (intro unat_sub_nowrap) (simp add: word_less_nat_alt)
  have n: "unat n = min 128 (unat count - unat pos)" using assms(2) d by (auto simp: word_less_nat_alt)
  show s: "unat pos + unat n \<le> unat count" "0 < unat n" "unat n \<le> 128" "unat n \<le> unat (count - pos)"
    using n d assms(1) by (auto simp: word_less_nat_alt)
  then show "unat (pos + n) = unat pos + unat n" using unat_less_len [of count] by (intro unat_add_nowrap) simp
qed

text \<open>The loop over chunks of 128 bytes; the result says whether all of them could be read.\<close>

function write_chunks ::
  "'h ports \<Rightarrow> u32 \<Rightarrow> memory \<Rightarrow> u32 \<Rightarrow> u32 \<Rightarrow> u32 \<Rightarrow> vga \<times> 'h \<Rightarrow> (bool \<times> vga \<times> 'h) option" where
  "write_chunks io cr3 m buf count pos vh =
     (if pos < count
      then (let n = (if count - pos > 128 then 128 else count - pos) in
            case paging_copy_from_user cr3 m (Some (replicate 128 0)) (buf + pos) n of
              None \<Rightarrow> None
            | Some (ok, chunk) \<Rightarrow>
                if \<not> ok then Some (False, vh)
                else (case put_all (console_putc io) (take (unat n) (the chunk)) vh of
                        None \<Rightarrow> None
                      | Some vh1 \<Rightarrow> write_chunks io cr3 m buf count (pos + n) vh1))
      else Some (True, vh))"
  by pat_completeness auto

termination
proof (relation "measure (\<lambda>(io, cr3, m, buf, count, pos, vh). unat count - unat pos)", goal_cases)
  case (2 io cr3 m buf count pos vh n x2 ok chunk x2a)
  have "unat (pos + n) = unat pos + unat n" "0 < unat n" "unat pos + unat n \<le> unat count"
    using chunk_step [OF 2(1,2)] by auto
  then show ?case by simp
qed simp

declare write_chunks.simps [simp del]

text \<open>The bytes of a user range that has been checked.\<close>

definition user_bytes :: "u32 \<Rightarrow> memory \<Rightarrow> u32 \<Rightarrow> u32 \<Rightarrow> bytes option" where
  "user_bytes cr3 m buf count = copy_in cr3 m buf [0 ..< unat count] (replicate (unat count) 0)"

definition write_fd ::
  "'d blk_ops \<Rightarrow> nat \<Rightarrow> nat \<Rightarrow> u32 \<Rightarrow> u32 \<Rightarrow> ('d, 'h) sys_state \<Rightarrow> (u32 \<times> ('d, 'h) sys_state) option" where
  "write_fd drv fd v buf count s =
     do { ok \<leftarrow> paging_validate_user_range (scr3 s) (hmem (sheap s)) buf count False;
          if \<not> ok then Some (SYS_FAIL, s)
          else do {
            let f = g_fds s ! fd;
            data \<leftarrow> user_bytes (scr3 s) (hmem (sheap s)) buf count;
            (ok1, fs1, d1) \<leftarrow> fat12_write_file drv (info_display_name (fd_info f)) data (volumes s v) (sdev s);
            let s1 = s\<lparr>volumes := (volumes s)(v := fs1), sdev := d1\<rparr>;
            if \<not> ok1 then Some (SYS_FAIL, s1)
            else Some (count, s1\<lparr>g_fds := (g_fds s1)[fd := f\<lparr>fd_info := (fd_info f)\<lparr>fi_size := count\<rparr>, fd_pos := 0\<rparr>]\<rparr>) } }"

definition sys_write ::
  "'h ports \<Rightarrow> 'd blk_ops \<Rightarrow> u32 \<Rightarrow> u32 \<Rightarrow> u32 \<Rightarrow> ('d, 'h) sys_state \<Rightarrow> (u32 \<times> ('d, 'h) sys_state) option" where
  "sys_write io drv fd buf count s =
     (if buf = 0 \<and> count \<noteq> 0 then Some (SYS_FAIL, s)
      else if fd = CONSOLE_WRITE_FD
      then do { (ok, v, h) \<leftarrow> write_chunks io (scr3 s) (hmem (sheap s)) buf count 0 (svga s, shw s);
                Some (if ok then count else SYS_FAIL, s\<lparr>svga := v, shw := h\<rparr>) }
      else if fd < MAX_FDS \<and> fd_used (g_fds s ! unat fd)
      then (case fd_fs (g_fds s ! unat fd) of None \<Rightarrow> Some (SYS_FAIL, s) | Some v \<Rightarrow> write_fd drv (unat fd) v buf count s)
      else Some (SYS_FAIL, s))"

section \<open>The handler\<close>

definition c_string :: "bytes \<Rightarrow> bytes" where "c_string b = takeWhile (\<lambda>c. c \<noteq> 0) b"

text \<open>The bytes of a string literal.\<close>

definition ascii :: "string \<Rightarrow> bytes" where "ascii s = map of_char s"

definition syscall_handler ::
  "'h ports \<Rightarrow> 'd blk_ops \<Rightarrow> u32 \<Rightarrow> u32 \<Rightarrow> u32 \<Rightarrow> u32 \<Rightarrow> ('d, 'h) sys_state \<Rightarrow> (u32 \<times> ('d, 'h) sys_state) option" where
  "syscall_handler io drv eax ebx ecx edx s =
     (if eax = SYS_PRINT
      then do { (ok, msg) \<leftarrow> paging_copy_user_string (scr3 s) (hmem (sheap s)) (Some (replicate SYSCALL_STRING_MAX 0)) ebx;
                if \<not> ok then Some (SYS_FAIL, s)
                else do { h \<leftarrow> serial_puts io (map_option c_string msg) (shw s); Some (0, s\<lparr>shw := h\<rparr>) } }
      else if eax = SYS_EXIT 
      then do { h \<leftarrow> serial_puts io (Some (ascii ''[SYS] returning to kernel'' @ [10])) (shw s);
                Some (0, s\<lparr>shw := h, g_syscall_did_exit := 1\<rparr>) }
      else if eax = SYS_GETTIME then Some (sticks s, s)
      else if eax = SYS_OPEN
      then do { (ok, path) \<leftarrow> paging_copy_user_string (scr3 s) (hmem (sheap s)) (Some (replicate SYSCALL_STRING_MAX 0)) ebx;
                if \<not> ok then Some (SYS_FAIL, s) else sys_open drv (map_option c_string path) ecx s }
      else if eax = SYS_READ then sys_read io drv ebx ecx edx s
      else if eax = SYS_WRITE then sys_write io drv ebx ecx edx s
      else if eax = SYS_CLOSE then Some (sys_close ebx s)
      else if eax = SYS_SEEK then Some (sys_seek ebx ecx edx s)
      else do { h1 \<leftarrow> serial_puts io (Some (ascii ''[SYS] unknown syscall: '')) (shw s);
                h2 \<leftarrow> serial_put_u32 io eax h1;
                h3 \<leftarrow> serial_puts io (Some [10]) h2;
                Some (SYS_FAIL, s\<lparr>shw := h3\<rparr>) })"

end
