(* ===== verification/Keyboard_Props.thy ===== *)
theory Keyboard_Props
  imports Keyboard
begin

text \<open>
  The input queues are bounded queues, and a line that is read is the line that was typed.
\<close>

section \<open>The queues\<close>




lemma unat_ring_index: "n \<le> 256 \<Longrightarrow> 0 < n \<Longrightarrow> unat (word_of_nat (k mod n) :: u16) = k mod n"
proof -
  assume n: "n \<le> 256" "0 < n"
  then have "k mod n < 256" using mod_less_divisor [of n k] by linarith
  then show ?thesis by (simp add: unat_of_nat)
qed

lemma ring_index_less: "Suc k mod 64 < 64" "Suc k mod 32 < 32" "Suc k mod 256 < 256" by simp_all

lemmas ring_index = unat_ring_index ring_index_less word_unat_eq_iff



text \<open>The key buffer, with the empty buffer told apart from a key.\<close>

definition kbd_ok :: "kbd \<Rightarrow> bool" where
  "kbd_ok s \<longleftrightarrow> length (g_keybuf s) = 256 \<and> unat (g_keybuf_head s) < 256 \<and> unat (g_keybuf_tail s) < 256"

definition keys :: "kbd \<Rightarrow> bytes" where
  "keys s = ring_list (g_keybuf s) (unat (g_keybuf_head s)) (unat (g_keybuf_tail s))"

definition buf_take :: "kbd \<Rightarrow> u8 option \<times> kbd" where
  "buf_take s = (if buf_empty s then None else Some (fst (buf_get s)), snd (buf_get s))"

interpretation key_buf: ring_buffer buf_put buf_take kbd_ok g_keybuf "\<lambda>s. unat (g_keybuf_head s)" "\<lambda>s. unat (g_keybuf_tail s)" 256
  by (unfold_locales; auto simp: kbd_ok_def buf_put_def buf_take_def buf_get_def buf_full_def buf_empty_def KEYBUF_SIZE_def ring_index)

lemmas key_buf_put = key_buf.put_inv key_buf.put_contents [folded keys_def]
lemmas key_buf_get = key_buf.get_Cons [folded keys_def] key_buf.get_Nil [folded keys_def]

section \<open>What is typed\<close>

type_synonym mods = "u8 \<times> u8 \<times> u8"

definition mods :: "kbd \<Rightarrow> mods" where "mods s = (g_shift s, g_ctrl s, g_alt s)"

text \<open>The characters a scan code stands for, given the modifier keys, and the modifier keys afterwards.\<close>

definition key_char :: "u8 \<Rightarrow> u8 \<Rightarrow> u8 \<Rightarrow> u8" where
  "key_char shift ctrl code =
     (let a = (if shift \<noteq> 0 then scancode_shifted else scancode_ascii) ! unat code
      in if ctrl \<noteq> 0 \<and> 97 \<le> a \<and> a \<le> 122 then a - 96 else a)"

definition typed :: "key_irq \<Rightarrow> mods \<Rightarrow> bytes \<times> mods" where
  "typed e md =
     (case (e, md) of ((status, sc), (shift, ctrl, alt)) \<Rightarrow>
        let press = (if sc AND 0x80 \<noteq> 0 then 0 else 1); code = sc AND 0x7F; a = key_char shift ctrl code in
        if status AND 1 = 0 \<or> status AND 0x20 \<noteq> 0 then ([], md)
        else if code = 0x2A \<or> code = 0x36 then ([], press, ctrl, alt)
        else if code = 0x1D then ([], shift, press, alt)
        else if code = 0x38 then ([], shift, ctrl, press)
        else (if press = 0 \<or> a = 0 \<or> a = KEY_BACKSP then [] else [a], md))"

fun typed_all :: "key_irq list \<Rightarrow> mods \<Rightarrow> bytes \<times> mods" where
  "typed_all [] md = ([], md)"
| "typed_all (e # es) md = (let (ks, md1) = typed e md; (ls, md2) = typed_all es md1 in (ks @ ls, md2))"

lemma typed_all_append: "typed_all (es @ fs) md = (let (ks, md1) = typed_all es md; (ls, md2) = typed_all fs md1 in (ks @ ls, md2))"
  by (induction es arbitrary: md) (auto simp: Let_def case_prod_beta)

lemma typed_keys: "c \<in> set (fst (typed e md)) \<Longrightarrow> c \<noteq> 0 \<and> c \<noteq> KEY_BACKSP"
  by (auto simp: typed_def Let_def split: prod.splits if_splits)

lemma typed_all_keys: "c \<in> set (fst (typed_all es md)) \<Longrightarrow> c \<noteq> 0 \<and> c \<noteq> KEY_BACKSP"
proof (induction es arbitrary: md)
  case (Cons e es)
  then show ?case using typed_keys [of c e md] by (fastforce simp: Let_def case_prod_beta)
qed simp

lemma length_typed: "length (fst (typed e md)) \<le> 1"
  by (auto simp: typed_def Let_def split: prod.splits)

lemma length_typed_all: "length (fst (typed_all es md)) \<le> length es"
proof (induction es arbitrary: md)
  case (Cons e es)
  show ?case using length_typed [of e md] Cons.IH [of "snd (typed e md)"] by (simp add: Let_def case_prod_beta)
qed simp

lemma code_less: "\<not> (sc AND 0x7F :: u8) \<ge> 128"
proof -
  have "sc AND 0x7F = take_bit 7 sc" by (simp add: take_bit_eq_mask mask_eq_exp_minus_1)
  then have "unat (sc AND 0x7F) = unat sc mod 128" by (simp add: unat_take_bit_mod)
  then show ?thesis by (simp add: word_le_nat_alt)
qed

lemma buf_put_fields [simp]:
  "mods (buf_put c s) = mods s" "g_tui_mode (buf_put c s) = g_tui_mode s" "wm_queues (buf_put c s) = wm_queues s"
  "g_shift (buf_put c s) = g_shift s" "g_ctrl (buf_put c s) = g_ctrl s" "g_alt (buf_put c s) = g_alt s"
  by (simp_all add: buf_put_def mods_def)

lemma key_char_alt: "ascii0 = (if g_shift s \<noteq> 0 then scancode_shifted ! unat code else scancode_ascii ! unat code) \<Longrightarrow>
  (if g_ctrl s \<noteq> 0 \<and> ascii0 \<ge> 97 \<and> ascii0 \<le> 122 then ascii0 - 97 + 1 else ascii0) = key_char (g_shift s) (g_ctrl s) code"
  by (simp add: key_char_def Let_def)

lemma take_irq_typed:
  assumes "\<not> g_tui_mode s" and "kbd_ok s" and "length (keys s) < 255"
  shows "keys (take_irq e s) = keys s @ fst (typed e (mods s))" "mods (take_irq e s) = snd (typed e (mods s))"
    "\<not> g_tui_mode (take_irq e s)" "kbd_ok (take_irq e s)"
proof -
  obtain st sc where e: "e = (st, sc)" by fastforce
  let ?code = "sc AND 0x7F"
  let ?a = "key_char (g_shift s) (g_ctrl s) ?code"
  have irq: "take_irq e s = (if st AND 1 = 0 \<or> st AND 0x20 \<noteq> 0 then s else handle_scancode sc s)"
    by (simp add: take_irq_def keyboard_irq_def key_ports_def e Let_def)
  have h: "handle_scancode sc s =
     (if ?code = 0x2A \<or> ?code = 0x36 then s\<lparr>g_shift := (if sc AND 0x80 \<noteq> 0 then 0 else 1)\<rparr>
      else if ?code = 0x1D then s\<lparr>g_ctrl := (if sc AND 0x80 \<noteq> 0 then 0 else 1)\<rparr>
      else if ?code = 0x38 then s\<lparr>g_alt := (if sc AND 0x80 \<noteq> 0 then 0 else 1)\<rparr>
      else if sc AND 0x80 \<noteq> 0 \<or> ?a = 0 \<or> ?a = KEY_BACKSP then s else buf_put ?a s)"
    unfolding handle_scancode_def Let_def key_char_alt [OF refl] using assms(1) code_less by (simp add: KEY_BACKSP_def)
  have put: "keys (buf_put c s) = keys s @ [c]" "kbd_ok (buf_put c s)" for c
    using key_buf_put [OF assms(2)] assms(3) by simp_all
  have upd: "keys (s\<lparr>g_shift := x\<rparr>) = keys s" "keys (s\<lparr>g_ctrl := x\<rparr>) = keys s" "keys (s\<lparr>g_alt := x\<rparr>) = keys s" for x
    by (simp_all add: keys_def)
  show "keys (take_irq e s) = keys s @ fst (typed e (mods s))" "mods (take_irq e s) = snd (typed e (mods s))"
    "\<not> g_tui_mode (take_irq e s)" "kbd_ok (take_irq e s)"
    unfolding irq h using assms(1,2) put upd
    by (auto simp: typed_def e mods_def Let_def kbd_ok_def split: if_splits)
qed

lemma take_irqs_typed:
  assumes "\<not> g_tui_mode s" "kbd_ok s" and "length (keys s) + length es \<le> 255"
  shows "keys (fold take_irq es s) = keys s @ fst (typed_all es (mods s)) \<and> mods (fold take_irq es s) = snd (typed_all es (mods s)) \<and>
    \<not> g_tui_mode (fold take_irq es s) \<and> kbd_ok (fold take_irq es s)"
  using assms
proof (induction es arbitrary: s)
  case (Cons e es)
  have l: "length (keys s) < 255" using Cons.prems(3) by simp
  note t = take_irq_typed [OF Cons.prems(1,2) l, of e]
  have "length (keys (take_irq e s)) + length es \<le> 255" using t(1) length_typed [of e "mods s"] Cons.prems(3) by simp
  from Cons.IH [OF t(3,4) this] show ?case by (simp add: t(1,2) Let_def case_prod_beta)
qed simp

section \<open>Reading a line\<close>

text \<open>A keyboard that waits for keys: not in the mode of the window manager, its buffer free of null keys.\<close>

definition waiting :: "kbd \<Rightarrow> bool" where
  "waiting s \<longleftrightarrow> kbd_ok s \<and> \<not> g_tui_mode s \<and> 0 \<notin> set (keys s)"

text \<open>All keys that a reader will see: those in the buffer, then those that are typed while it waits.\<close>

definition coming :: "key_irq list list \<Rightarrow> kbd \<Rightarrow> bytes" where
  "coming ev s = keys s @ fst (typed_all (concat ev) (mods s))"

definition small_batches :: "key_irq list list \<Rightarrow> bool" where
  "small_batches ev \<longleftrightarrow> (\<forall>b \<in> set ev. length b \<le> 255)"

lemma buf_get_take: "kbd_ok s \<Longrightarrow> keys s = c # ks \<Longrightarrow> fst (buf_get s) = c \<and> keys (snd (buf_get s)) = ks \<and> kbd_ok (snd (buf_get s))"
  using key_buf_get(1) [of s c ks] by (auto simp: buf_take_def split: if_splits)

lemma buf_get_none: "kbd_ok s \<Longrightarrow> keys s = [] \<Longrightarrow> buf_get s = (KEY_NONE, s)"
  using key_buf_get(2) [of s] by (auto simp: buf_take_def buf_get_def split: if_splits)

lemma buf_get_fields [simp]: "mods (snd (buf_get s)) = mods s" "g_tui_mode (snd (buf_get s)) = g_tui_mode s"
  by (simp_all add: buf_get_def mods_def)

lemma wait_key_ok:
  assumes "waiting s" "small_batches ev" and "coming ev s = c # ks"
  shows "\<exists>s' ev'. wait_key ev s = Some (c, s', ev') \<and> waiting s' \<and> small_batches ev' \<and> coming ev' s' = ks"
  using assms
proof (induction ev arbitrary: s)
  case Nil
  then have k: "keys s = c # ks" by (simp add: coming_def)
  have ok: "kbd_ok s" "0 \<notin> set (keys s)" "\<not> g_tui_mode s" using Nil(1) by (auto simp: waiting_def)
  note g = buf_get_take [OF ok(1) k]
  then have "wait_key [] s = Some (c, snd (buf_get s), [])" using ok(2) k by (auto simp: case_prod_beta Let_def KEY_NONE_def)
  moreover have "waiting (snd (buf_get s))" using g ok k by (simp add: waiting_def)
  ultimately show ?case using g by (simp add: coming_def small_batches_def)
next
  case (Cons b ev)
  have ok: "kbd_ok s" "0 \<notin> set (keys s)" "\<not> g_tui_mode s" using Cons.prems(1) by (auto simp: waiting_def)
  show ?case
  proof (cases "keys s")
    case Nil
    have b: "length (keys s) + length b \<le> 255" using Nil Cons.prems(2) by (simp add: small_batches_def)
    note t = take_irqs_typed [OF ok(3,1) b]
    have w: "wait_key (b # ev) s = wait_key ev (fold take_irq b s)" using buf_get_none [OF ok(1) Nil] by simp
    have "waiting (fold take_irq b s)" using t Nil typed_all_keys [of 0 b "mods s"] by (auto simp: waiting_def)
    moreover have "coming ev (fold take_irq b s) = coming (b # ev) s"
      using t by (simp add: coming_def typed_all_append Let_def case_prod_beta)
    ultimately show ?thesis unfolding w using Cons.IH [of "fold take_irq b s"] Cons.prems(2,3) by (simp add: small_batches_def)
  next
    case (Cons d ds)
    note g = buf_get_take [OF ok(1) Cons]
    have d: "d = c" "ks = ds @ fst (typed_all (concat (b # ev)) (mods s))" using Cons.prems(3) Cons by (simp_all add: coming_def)
    then have "wait_key (b # ev) s = Some (c, snd (buf_get s), b # ev)" using g ok(2) Cons by (auto simp: case_prod_beta Let_def KEY_NONE_def)
    moreover have "waiting (snd (buf_get s))" using g ok Cons by (simp add: waiting_def)
    moreover have "coming (b # ev) (snd (buf_get s)) = ks" using g d by (simp add: coming_def)
    ultimately show ?thesis using Cons.prems(2) by blast
  qed
qed

text \<open>The line that a sequence of keys spells: up to Enter, nothing after Escape, what does not fit is left out.\<close>

fun line_of :: "nat \<Rightarrow> bytes \<Rightarrow> bytes \<Rightarrow> bytes option" where
  "line_of len acc [] = None"
| "line_of len acc (c # cs) =
     (if c = KEY_ENTER then Some acc
      else if c = KEY_ESC then Some []
      else line_of len (if c = KEY_BACKSP then butlast acc
                        else if c = KEY_TAB \<or> length acc \<ge> len - 1 then acc else acc @ [c]) cs)"

lemma readline_key_ok:
  assumes "i < len" "len \<le> length buf" and echo: "\<And>c v. ok v \<Longrightarrow> \<exists>v'. put c v = Some v' \<and> ok v'" "\<And>v. ok v \<Longrightarrow> \<exists>v'. rub v = Some v' \<and> ok v'"
    and v: "ok v"
  shows "\<exists>i' buf' v'. ok v' \<and> length buf' = length buf \<and>
    (if c = KEY_ENTER then readline_key put rub len c (i, buf, v) = Some (Inl (i', buf', v')) \<and> i' = i \<and> take (Suc i) buf' = take i buf @ [0]
     else if c = KEY_ESC then readline_key put rub len c (i, buf, v) = Some (Inl (i', buf', v')) \<and> i' = 0 \<and> take 1 buf' = [0]
     else readline_key put rub len c (i, buf, v) = Some (Inr (i', buf', v')) \<and> i' < len \<and>
       take i' buf' = (if c = KEY_BACKSP then butlast (take i buf) else if c = KEY_TAB \<or> i \<ge> len - 1 then take i buf else take i buf @ [c]))"
proof -
  have l: "i < length buf" "0 < length buf" using assms(1,2) by linarith+
  have t: "take (Suc i) (buf[i := x]) = take i buf @ [x]" for x using l by (simp add: take_Suc_conv_app_nth)
  have t0: "take 1 (buf[0 := x]) = [x]" for x using l(2) by (cases buf) simp_all
  have bl: "i > 0 \<Longrightarrow> take (i - 1) buf = butlast (take i buf)" using l by (simp add: butlast_take)
  obtain v1 v2 v3 where e: "put 10 v = Some v1" "ok v1" "put c v = Some v2" "ok v2" "rub v = Some v3" "ok v3" using echo v by meson
  show ?thesis
  proof (cases "c = KEY_BACKSP")
    case True
    then show ?thesis using e v bl assms(1) by (cases "i = 0") (auto simp: readline_key_def key_consts)
  next
    case False
    consider (enter) "c = KEY_ENTER" | (esc) "c = KEY_ESC" | (skip) "c \<noteq> KEY_ENTER" "c \<noteq> KEY_ESC" "c = KEY_TAB \<or> i \<ge> len - 1"
      | (add) "c \<noteq> KEY_ENTER" "c \<noteq> KEY_ESC" "c \<noteq> KEY_TAB" "i < len - 1" by linarith
    then show ?thesis
    proof cases
      case enter
      then show ?thesis using e t l by (intro exI [of _ i] exI [of _ "buf[i := 0]"] exI [of _ v1]) (simp add: readline_key_def key_consts arr_set_in)
    next
      case esc
      then show ?thesis using v t0 l by (intro exI [of _ 0] exI [of _ "buf[0 := 0]"] exI [of _ v]) (simp add: readline_key_def key_consts arr_set_in)
    next
      case skip
      then show ?thesis using v False assms(1) by (intro exI [of _ i] exI [of _ buf] exI [of _ v]) (auto simp: readline_key_def)
    next
      case add
      then show ?thesis using e t l False
        by (intro exI [of _ "Suc i"] exI [of _ "buf[i := c]"] exI [of _ v2]) (auto simp: readline_key_def arr_set_in)
    qed
  qed
qed

lemma readline_loop_ok:
  assumes "line_of len (take i buf) ks = Some line" and "waiting s" "small_batches ev" and "coming ev s = ks @ rest"
    and "i < len" "len \<le> length buf" and echo: "\<And>c v. ok v \<Longrightarrow> \<exists>v'. put c v = Some v' \<and> ok v'" "\<And>v. ok v \<Longrightarrow> \<exists>v'. rub v = Some v' \<and> ok v'"
    and v: "ok v"
  shows "\<exists>buf' v' ev' s'. readline_loop put rub len (i, buf, v) ev s = Some ((length line, buf', v'), ev', s') \<and>
    take (Suc (length line)) buf' = line @ [0] \<and> length buf' = length buf \<and> ok v' \<and> waiting s' \<and> length line < len"
  using assms(1-6,9)
proof (induction ks arbitrary: i buf s ev v)
  case (Cons c ks)
  obtain s1 ev1 where w: "wait_key ev s = Some (c, s1, ev1)" "waiting s1" "small_batches ev1" "coming ev1 s1 = ks @ rest"
    using wait_key_ok [OF Cons.prems(2,3)] Cons.prems(4) by force
  obtain i' buf' v' where k: "ok v'" "length buf' = length buf"
    "if c = KEY_ENTER then readline_key put rub len c (i, buf, v) = Some (Inl (i', buf', v')) \<and> i' = i \<and> take (Suc i) buf' = take i buf @ [0]
     else if c = KEY_ESC then readline_key put rub len c (i, buf, v) = Some (Inl (i', buf', v')) \<and> i' = 0 \<and> take 1 buf' = [0]
     else readline_key put rub len c (i, buf, v) = Some (Inr (i', buf', v')) \<and> i' < len \<and>
       take i' buf' = (if c = KEY_BACKSP then butlast (take i buf) else if c = KEY_TAB \<or> i \<ge> len - 1 then take i buf else take i buf @ [c])"
    using readline_key_ok [of i len buf ok put rub v c, OF Cons.prems(5,6) echo Cons.prems(7)] by blast
  have li: "length (take i buf) = i" using Cons.prems(5,6) by simp
  consider "c = KEY_ENTER" | "c = KEY_ESC" "c \<noteq> KEY_ENTER" | "c \<noteq> KEY_ENTER" "c \<noteq> KEY_ESC" by blast
  then show ?case
  proof cases
    case 1
    then show ?thesis using k w(1,2) Cons.prems(1,5) li by (subst readline_loop.simps) auto
  next
    case 2
    then show ?thesis using k w(1,2) Cons.prems(1,5) by (subst readline_loop.simps) (auto simp: key_consts)
  next
    case 3
    have l: "line_of len (take i' buf') ks = Some line" using Cons.prems(1) k(3) 3 li by (auto split: if_splits)
    have i': "i' < len" "len \<le> length buf'" using k 3 Cons.prems(6) by simp_all
    have "readline_loop put rub len (i, buf, v) ev s = readline_loop put rub len (i', buf', v') ev1 s1"
      by (subst readline_loop.simps) (use w(1) k(3) 3 in simp)
    then show ?thesis using Cons.IH [OF l w(2-4) i' k(1)] k(2) by simp
  qed
qed simp

section \<open>Properties\<close>

text \<open>
  Property C25. A line that is read is the line that was typed: when the keys in the buffer and those that
  arrive while the reader waits spell a line, \<open>keyboard_readline_vga\<close> returns its length and the buffer
  holds it with its NUL, never past \<open>len\<close> bytes. No key is lost as long as at most 255 interrupts
  arrive during one wait, and no key is delivered twice.
\<close>

theorem keyboard_readline_line:
  assumes "waiting s" "small_batches ev" and "coming ev s = ks @ rest" and "line_of (unat len) [] ks = Some line"
    and "0 < len" "unat len \<le> length buf" and "\<And>c v. ok v \<Longrightarrow> \<exists>v'. vga_put c v = Some v' \<and> ok v'" and "ok v"
  shows "\<exists>buf' ev' s' v'. keyboard_readline_vga vga_put (Some buf) len ev s v = Some (length line, Some buf', ev', s', v') \<and>
    take (Suc (length line)) buf' = line @ [0] \<and> length buf' = length buf \<and> length line < unat len \<and> ok v' \<and> waiting s'"
proof -
  have l: "0 < unat len" using assms(5) by (simp add: word_less_nat_alt)
  have n: "line_of (unat len) (take 0 buf) ks = Some line" using assms(4) by simp
  obtain buf' v' ev' s' where "readline_loop vga_put (vga_put 8) (unat len) (0, buf, v) ev s = Some ((length line, buf', v'), ev', s')"
    "take (Suc (length line)) buf' = line @ [0]" "length buf' = length buf" "ok v'" "waiting s'" "length line < unat len"
    using readline_loop_ok [of "unat len" 0 buf ks line s ev rest ok vga_put "vga_put 8" v, OF n assms(1,2,3) l assms(6,7,7,8)] by blast
  then show ?thesis using l by (auto simp: keyboard_readline_vga_def)
qed

definition kbd_boot :: kbd where
  "kbd_boot = \<lparr>g_keybuf = replicate 256 0, g_keybuf_head = 0, g_keybuf_tail = 0, g_shift = 0, g_alt = 0, g_ctrl = 0, g_tui_mode = False,
     wm_queues = \<lparr>g_key_queue = [], g_key_head = 0, g_key_tail = 0, g_mouse_queue = [], g_mouse_head = 0, g_mouse_tail = 0, g_queue_overflow = 0\<rparr>\<rparr>"

lemma waiting_boot: "waiting kbd_boot" "keys kbd_boot = []"
  by (simp_all add: waiting_def kbd_ok_def kbd_boot_def keys_def ring_list_def ring_size_def)

text \<open>Shift, H, release, I, Enter.\<close>

theorem keyboard_readline_line_witness:
  "\<exists>buf' ev' s' v'. keyboard_readline_vga (\<lambda>_. Some) (Some [7, 7, 7, 7]) 4 [[(1, 0x2A), (1, 0x23)], [], [(1, 0xAA), (1, 0x17)], [(1, 0x1C)]] kbd_boot () =
     Some (2, Some buf', ev', s', v') \<and> take 3 buf' = [72, 105, 0]"
proof -
  let ?ev = "[[(1, 0x2A), (1, 0x23)], [], [(1, 0xAA), (1, 0x17)], [(1, 0x1C)]] :: key_irq list list"
  have c: "coming ?ev kbd_boot = [72, 105, 13] @ []"
  proof -
    have "fst (typed_all (concat ?ev) (mods kbd_boot)) = [72, 105, 13]" by code_simp
    then show ?thesis by (simp add: coming_def waiting_boot)
  qed
  have l: "line_of (unat (4 :: u16)) [] [72, 105, 13] = Some [72, 105]" by code_simp
  have b: "small_batches ?ev" by (simp add: small_batches_def)
  have n: "(0 :: u16) < 4" "unat (4 :: u16) \<le> length [7 :: u8, 7, 7, 7]" by simp_all
  obtain buf' ev' s' v' where "keyboard_readline_vga (\<lambda>_. Some) (Some [7, 7, 7, 7]) 4 ?ev kbd_boot () = Some (length [72 :: u8, 105], Some buf', ev', s', v')"
    "take (Suc (length [72 :: u8, 105])) buf' = [72, 105] @ [0]"
    using keyboard_readline_line [of kbd_boot ?ev "[72, 105, 13]" "[]" 4 "[72, 105]" "[7, 7, 7, 7]" "\<lambda>_. True" "\<lambda>_. Some" "()", OF waiting_boot(1) b c l n] by blast
  then show ?thesis by (auto simp: numeral_2_eq_2 numeral_3_eq_3)
qed



text \<open>
  The backspace key never reaches the line editors: no key the handler puts into the buffer is
  \<open>KEY_BACKSP\<close>, whatever is typed, so that the case for it in the loops is never taken.
\<close>

lemma backspace_never_typed: "KEY_BACKSP \<notin> set (fst (typed_all es md))"
  using typed_all_keys [of KEY_BACKSP es md] by blast

end
