(* ===== verification/Console_Props.thy ===== *)
theory Console_Props
  imports Console
begin

text \<open>
  The text console shows a window on a text of unlimited length, and numbers are printed in decimal.
\<close>

section \<open>Scrolling\<close>

lemma shift_cells_upt:
  assumes "k \<le> n" and "n + 80 \<le> length m" and "\<forall>j < k. m ! j = m0 ! (j + 80)" "\<forall>j. k \<le> j \<and> j < length m \<longrightarrow> m ! j = m0 ! j" "length m = length m0"
  shows "\<exists>m'. shift_cells [k ..< n] m = Some m' \<and> length m' = length m0 \<and>
    (\<forall>j < length m0. m' ! j = (if j < n then m0 ! (j + 80) else m0 ! j))"
  using assms
proof (induction "n - k" arbitrary: k m)
  case 0
  then show ?case by auto
next
  case (Suc d)
  have k: "k < n" "[k ..< n] = k # [Suc k ..< n]" using Suc.hyps(2) by (auto simp: upt_conv_Cons)
  let ?m = "m[k := m ! (k + 80)]"
  have "\<exists>m'. shift_cells [Suc k ..< n] ?m = Some m' \<and> length m' = length m0 \<and>
    (\<forall>j < length m0. m' ! j = (if j < n then m0 ! (j + 80) else m0 ! j))"
    using Suc.prems k Suc.hyps(2) by (intro Suc.hyps(1)) (auto simp: nth_list_update less_Suc_eq)
  then show ?case unfolding k(2) using Suc.prems(2) k(1) by (simp add: arr_get_in arr_set_in VGA_WIDTH_def)
qed

lemma fill_cells_set:
  assumes "\<forall>i \<in> set is. i < length m"
  shows "\<exists>m'. fill_cells is c m = Some m' \<and> length m' = length m \<and> (\<forall>j < length m. m' ! j = (if j \<in> set is then c else m ! j))"
  using assms
proof (induction "is" arbitrary: m)
  case (Cons i "is")
  then obtain m' where "fill_cells is c (m[i := c]) = Some m'" "length m' = length m"
    "\<forall>j < length m. m' ! j = (if j \<in> set is then c else m[i := c] ! j)" using Cons.IH [of "m[i := c]"] by auto
  then show ?case using Cons.prems by (auto simp: arr_set_in nth_list_update)
qed simp

text \<open>The cell in row \<open>r\<close> and column \<open>c\<close> of a screen.\<close>

definition screen :: "u16 list \<Rightarrow> nat \<Rightarrow> nat \<Rightarrow> u16" where
  "screen m r c = m ! (r * 80 + c)"

lemma cell_index: "r < 25 \<Longrightarrow> c < 80 \<Longrightarrow> r * 80 + c < (2000 :: nat)"
  by simp

lemma cell_index_eq:
  assumes "c < 80" "d < (80 :: nat)"
  shows "(r * 80 + c = q * 80 + d) = (r = q \<and> c = d)"
proof -
  have "(r * 80 + c) div 80 = r" "(r * 80 + c) mod 80 = c" "(q * 80 + d) div 80 = q" "(q * 80 + d) mod 80 = d" using assms by simp_all
  then show ?thesis by metis
qed

lemma screen_update:
  assumes "length m = 2000" "r < 25" "c < 80" "q < 25" "d < 80"
  shows "screen (m[r * 80 + c := x]) q d = (if q = r \<and> d = c then x else screen m q d)"
  using assms cell_index_eq [OF assms(3,5)] cell_index [OF assms(2,3)] by (auto simp: screen_def nth_list_update)

lemma vga_scroll_screen:
  assumes "length m = 2000"
  shows "\<exists>m'. vga_scroll m = Some m' \<and> length m' = 2000 \<and>
    (\<forall>r < 25. \<forall>c < 80. screen m' r c = (if r < 24 then screen m (Suc r) c else vga_blank))"
proof -
  obtain m1 where m1: "shift_cells [0 ..< 1920] m = Some m1" "length m1 = 2000"
    "\<forall>j < 2000. m1 ! j = (if j < 1920 then m ! (j + 80) else m ! j)"
    using shift_cells_upt [of 0 1920 m m] assms by auto
  let ?is = "map (\<lambda>i. 1920 + i) [0 ..< 80]"
  have s: "set ?is = {1920 ..< 2000}" unfolding set_map set_upt by (auto simp: image_iff)
  obtain m2 where m2: "fill_cells ?is vga_blank m1 = Some m2" "length m2 = 2000"
    "\<forall>j < 2000. m2 ! j = (if 1920 \<le> j then vga_blank else m1 ! j)"
  proof -
    have "\<forall>i \<in> set ?is. i < length m1" unfolding s using m1(2) by simp
    from fill_cells_set [OF this, of vga_blank] show thesis unfolding s m1(2) using that by force
  qed
  have "screen m2 r c = (if r < 24 then screen m (Suc r) c else vga_blank)" if "r < 25" "c < 80" for r c
  proof -
    have "m2 ! (r * 80 + c) = (if 1920 \<le> r * 80 + c then vga_blank else m1 ! (r * 80 + c))" using m2(3) cell_index [OF that] by blast
    moreover have "(1920 \<le> r * 80 + c) = (\<not> r < 24)" using that by (cases "r < 24") simp_all
    moreover have "m1 ! (r * 80 + c) = m ! (Suc r * 80 + c)" if "r < 24"
    proof -
      have "r * 80 + c < 1920" "r * 80 + c + 80 = Suc r * 80 + c" using that \<open>c < 80\<close> by simp_all
      then show ?thesis using m1(3) by (simp add: ac_simps)
    qed
    ultimately show ?thesis by (simp add: screen_def)
  qed
  moreover have "vga_scroll m = Some m2"
    unfolding vga_scroll_def VGA_WIDTH_def VGA_HEIGHT_def using m1(1) m2(1) by (simp del: upt_rec_numeral)
  ultimately show ?thesis using m2(2) by blast
qed

section \<open>The text behind the screen\<close>

text \<open>
  A terminal without a lower end: rows of 80 cells, a cursor, and the first of the 25 rows that are shown. The
  window follows the cursor.
\<close>

record terminal =
  t_cells :: "nat \<Rightarrow> nat \<Rightarrow> u16"
  t_row :: nat
  t_col :: nat
  t_top :: nat

definition t_advance :: "terminal \<Rightarrow> terminal" where
  "t_advance t =
     (let t1 = (if t_col t \<ge> 80 then t\<lparr>t_col := 0, t_row := t_row t + 1\<rparr> else t)
      in t1\<lparr>t_top := max (t_top t1) (t_row t1 - 24)\<rparr>)"

definition t_cell :: "nat \<Rightarrow> nat \<Rightarrow> u16 \<Rightarrow> terminal \<Rightarrow> terminal" where
  "t_cell r c x t = t\<lparr>t_cells := (t_cells t)(r := (t_cells t r)(c := x))\<rparr>"

definition t_putc :: "u8 \<Rightarrow> terminal \<Rightarrow> terminal" where
  "t_putc c t = t_advance
     (if c = 10 then t\<lparr>t_row := t_row t + 1, t_col := 0\<rparr>
      else if c = 13 then t\<lparr>t_col := 0\<rparr>
      else if c = 8 then (if t_col t > 0 then t_cell (t_row t) (t_col t - 1) vga_blank (t\<lparr>t_col := t_col t - 1\<rparr>) else t)
      else if c = 9 then t
      else t_cell (t_row t) (t_col t) (vga_cellv VGA_COLOR c) (t\<lparr>t_col := t_col t + 1\<rparr>))"

text \<open>The screen shows the window; the rows below it are blank.\<close>

definition rows_shown :: "u16 list \<Rightarrow> terminal \<Rightarrow> bool" where
  "rows_shown m t \<longleftrightarrow> length m = 2000 \<and> (\<forall>r < 25. \<forall>c < 80. screen m r c = t_cells t (t_top t + r) c) \<and>
     (\<forall>r \<ge> t_top t + 25. \<forall>c < 80. t_cells t r c = vga_blank)"

definition displays :: "vga \<Rightarrow> terminal \<Rightarrow> bool" where
  "displays v t \<longleftrightarrow> rows_shown (vga_mem v) t \<and> g_vga_row v < 25 \<and> g_vga_col v < 80 \<and>
     t_row t = t_top t + g_vga_row v \<and> t_col t = g_vga_col v"

lemma rows_shown_cell:
  assumes "rows_shown m t" and "r < 25" "c < 80"
  shows "rows_shown (m[r * 80 + c := x]) (t_cell (t_top t + r) c x t)"
  using assms by (auto simp: rows_shown_def t_cell_def screen_update)

lemma rows_shown_cursor: "rows_shown m (t\<lparr>t_row := a\<rparr>) = rows_shown m t" "rows_shown m (t\<lparr>t_col := b\<rparr>) = rows_shown m t"
  by (simp_all add: rows_shown_def)

text \<open>After the character the cursor is at most one row below the window, and scrolling brings it back.\<close>

lemma scroll_shows:
  assumes "rows_shown (vga_mem v) t" and "g_vga_row v \<le> 25" "g_vga_col v < 80" and "t_row t = t_top t + g_vga_row v" "t_col t = g_vga_col v"
  shows "\<exists>v'. scroll_loop v = Some v' \<and> displays v' (t\<lparr>t_top := max (t_top t) (t_row t - 24)\<rparr>)"
proof (cases "g_vga_row v = 25")
  case True
  obtain m' where m': "vga_scroll (vga_mem v) = Some m'" "length m' = 2000"
    "\<forall>r < 25. \<forall>c < 80. screen m' r c = (if r < 24 then screen (vga_mem v) (Suc r) c else vga_blank)"
    using vga_scroll_screen [of "vga_mem v"] assms(1) unfolding rows_shown_def by blast
  have "scroll_loop v = Some (v\<lparr>vga_mem := m', g_vga_row := 24\<rparr>)"
    using True m'(1) by (subst scroll_loop.simps, simp add: VGA_HEIGHT_def, subst scroll_loop.simps, simp add: VGA_HEIGHT_def)
  moreover have top: "max (t_top t) (t_row t - 24) = Suc (t_top t)" using assms(4) True by simp
  moreover have "rows_shown m' (t\<lparr>t_top := Suc (t_top t)\<rparr>)"
  proof -
    have "screen m' r c = t_cells t (Suc (t_top t) + r) c" if "r < 25" "c < 80" for r c
    proof (cases "r < 24")
      case True
      then show ?thesis using m'(3) that assms(1) by (simp add: rows_shown_def)
    next
      case False
      then have "r = 24" using that by simp
      then show ?thesis using m'(3) that assms(1) by (simp add: rows_shown_def)
    qed
    then show ?thesis using m'(2) assms(1) by (simp add: rows_shown_def)
  qed
  ultimately show ?thesis using assms True by (auto simp: displays_def)
next
  case False
  then have r: "g_vga_row v < 25" using assms(2) by simp
  then have "max (t_top t) (t_row t - 24) = t_top t" using assms(4) by simp
  moreover have "scroll_loop v = Some v" using r by (subst scroll_loop.simps) (simp add: VGA_HEIGHT_def)
  ultimately show ?thesis using assms r by (simp add: displays_def)
qed

lemma advance_shows:
  assumes "rows_shown (vga_mem v) t" and "g_vga_row v < 25 \<or> g_vga_row v = 25 \<and> g_vga_col v < 80" "g_vga_col v \<le> 80" and "t_row t = t_top t + g_vga_row v" "t_col t = g_vga_col v"
  shows "\<exists>v'. scroll_loop (wrap_line v) = Some v' \<and> displays v' (t_advance t)"
proof (cases "g_vga_col v \<ge> 80")
  case True
  then have "g_vga_row v < 25" using assms(2) by auto
  with True show ?thesis
    using scroll_shows [of "wrap_line v" "t\<lparr>t_col := 0, t_row := t_row t + 1\<rparr>"] assms(1,3-)
    by (simp add: wrap_line_def t_advance_def VGA_WIDTH_def rows_shown_cursor Let_def)
next
  case False
  have "g_vga_row v \<le> 25" using assms(2) by auto
  then show ?thesis using False scroll_shows [of "wrap_line v" t] assms(1,3-) by (simp add: wrap_line_def t_advance_def VGA_WIDTH_def Let_def)
qed

lemma vga_putc_displays:
  assumes "displays v t"
  shows "\<exists>v' h'. vga_putc io c (v, h) = Some (v', h') \<and> displays v' (t_putc c t)"
proof -
  have d: "rows_shown (vga_mem v) t" "g_vga_row v < 25" "g_vga_col v < 80" "t_row t = t_top t + g_vga_row v" "t_col t = g_vga_col v" "length (vga_mem v) = 2000"
    using assms by (auto simp: displays_def rows_shown_def)
  have go: "\<exists>v' h'. do { v2 \<leftarrow> scroll_loop (wrap_line v1); Some (v2, vga_update_cursor io v2 h) } = Some (v', h') \<and> displays v' (t_advance t1)"
    if "rows_shown (vga_mem v1) t1" "g_vga_row v1 < 25 \<or> g_vga_row v1 = 25 \<and> g_vga_col v1 < 80" "g_vga_col v1 \<le> 80"
      "t_row t1 = t_top t1 + g_vga_row v1" "t_col t1 = g_vga_col v1" for v1 t1
    using advance_shows [OF that] by auto
  have i: "g_vga_row v * 80 + g_vga_col v < 2000" "g_vga_row v * 80 + (g_vga_col v - 1) < 2000" using d(2,3) by simp_all
  consider (nl) "c = 10" | (cr) "c = 13" | (bs) "c = 8" "g_vga_col v > 0" | (none) "c = 9 \<or> c = 8 \<and> g_vga_col v = 0"
    | (chr) "c \<noteq> 10" "c \<noteq> 13" "c \<noteq> 8" "c \<noteq> 9" by blast
  then show ?thesis
  proof cases
    case nl
    have "Suc (g_vga_row v) < 25 \<or> Suc (g_vga_row v) = 25" using d(2) by auto
    with nl show ?thesis using go [of "v\<lparr>g_vga_row := g_vga_row v + 1, g_vga_col := 0\<rparr>" "t\<lparr>t_row := t_row t + 1, t_col := 0\<rparr>"] d
      by (simp add: vga_putc_def t_putc_def rows_shown_cursor)
  next
    case cr
    then show ?thesis using go [of "v\<lparr>g_vga_col := 0\<rparr>" "t\<lparr>t_col := 0\<rparr>"] d by (simp add: vga_putc_def t_putc_def rows_shown_cursor)
  next
    case bs
    have "rows_shown ((vga_mem v)[g_vga_row v * 80 + (g_vga_col v - 1) := vga_blank]) (t_cell (t_row t) (t_col t - 1) vga_blank (t\<lparr>t_col := t_col t - 1\<rparr>))"
      using rows_shown_cell [of "vga_mem v" "t\<lparr>t_col := t_col t - 1\<rparr>" "g_vga_row v" "g_vga_col v - 1" vga_blank] d
      by (simp add: rows_shown_cursor)
    then show ?thesis
      using go [of "v\<lparr>vga_mem := (vga_mem v)[g_vga_row v * 80 + (g_vga_col v - 1) := vga_blank], g_vga_col := g_vga_col v - 1\<rparr>"
        "t_cell (t_row t) (t_col t - 1) vga_blank (t\<lparr>t_col := t_col t - 1\<rparr>)"] bs d i
      by (simp add: vga_putc_def t_putc_def arr_set_in VGA_WIDTH_def) (simp add: t_cell_def)
  next
    case none
    then show ?thesis using go [of v t] d by (auto simp: vga_putc_def t_putc_def)
  next
    case chr
    have "rows_shown ((vga_mem v)[g_vga_row v * 80 + g_vga_col v := x]) (t_cell (t_row t) (t_col t) x (t\<lparr>t_col := t_col t + 1\<rparr>))" for x
      using rows_shown_cell [of "vga_mem v" "t\<lparr>t_col := t_col t + 1\<rparr>" "g_vga_row v" "g_vga_col v" x] d
      by (simp add: rows_shown_cursor)
    then show ?thesis
      using go [of "v\<lparr>vga_mem := (vga_mem v)[g_vga_row v * 80 + g_vga_col v := vga_cellv VGA_COLOR c], g_vga_col := g_vga_col v + 1\<rparr>"
        "t_cell (t_row t) (t_col t) (vga_cellv VGA_COLOR c) (t\<lparr>t_col := t_col t + 1\<rparr>)"] chr d i
      by (simp add: vga_putc_def t_putc_def put_cell_def arr_set_in VGA_WIDTH_def VGA_HEIGHT_def) (simp add: t_cell_def)
  qed
qed

lemma put_all_displays:
  "displays v t \<Longrightarrow> \<exists>v' h'. put_all (vga_putc io) cs (v, h) = Some (v', h') \<and> displays v' (fold t_putc cs t)"
proof (induction cs arbitrary: v t h)
  case (Cons c cs)
  obtain v1 h1 where "vga_putc io c (v, h) = Some (v1, h1)" "displays v1 (t_putc c t)" using vga_putc_displays [OF Cons.prems, of io c h] by blast
  then show ?case using Cons.IH by simp
qed auto

section \<open>Numbers in decimal\<close>

definition dec_value :: "bytes \<Rightarrow> nat" where
  "dec_value ds = foldl (\<lambda>a d. 10 * a + (unat d - 48)) 0 ds"

text \<open>The digits with the least one first.\<close>

fun le_digits :: "bytes \<Rightarrow> nat" where
  "le_digits [] = 0"
| "le_digits (d # ds) = (unat d - 48) + 10 * le_digits ds"

lemma dec_value_rev: "dec_value (rev ds) = le_digits ds"
proof -
  have "foldr (\<lambda>d a. 10 * a + (unat d - 48)) ds 0 = le_digits ds" by (induction ds) simp_all
  then show ?thesis by (simp add: dec_value_def foldl_conv_foldr)
qed

lemma le_digits_append: "le_digits (ds @ [d]) = le_digits ds + 10 ^ length ds * (unat d - 48)"
  by (induction ds) (simp_all add: algebra_simps)

lemma digit_code: "unat (48 + ucast (v mod 10 :: u32) :: u8) = 48 + unat v mod 10"
proof -
  have "unat (ucast (v mod 10 :: u32) :: u8) = unat v mod 10" by (simp add: unat_ucast_mod unat_mod)
  then show ?thesis by (subst unat_add_nowrap) simp_all
qed

lemma dec_digits_value:
  assumes "unat v < 10 ^ (10 - length ds)" and "\<forall>d \<in> set ds. unat d \<in> {48 ..< 58}" and "length ds \<le> 10"
  shows "le_digits (dec_digits v ds) = le_digits ds + 10 ^ length ds * unat v \<and> (\<forall>d \<in> set (dec_digits v ds). unat d \<in> {48 ..< 58}) \<and>
    (v \<noteq> 0 \<longrightarrow> last (dec_digits v ds) \<noteq> 48)"
  using assms
proof (induction "10 - length ds" arbitrary: v ds)
  case 0
  then have "v = 0" by (simp add: unat_eq_0)
  then show ?case using 0 by (subst (1 2) dec_digits.simps) simp
next
  case (Suc k)
  show ?case
  proof (cases "v = 0")
    case True
    then show ?thesis using Suc.prems by (subst (1 2) dec_digits.simps) simp
  next
    case False
    let ?ds = "ds @ [48 + ucast (v mod 10)]"
    have l: "length ds < 10" using Suc.hyps(2) by simp
    have p: "(10 :: nat) ^ (10 - length ds) = 10 * 10 ^ (10 - length ?ds)" using l by (simp add: Suc_diff_Suc flip: power_Suc)
    have d: "unat (v div 10) = unat v div 10" by (simp add: unat_div)
    have k: "unat (v div 10) < 10 ^ (10 - length ?ds)" using Suc.prems(1) unfolding d p by (simp add: less_mult_imp_div_less mult.commute)
    have s: "\<forall>d \<in> set ?ds. unat d \<in> {48 ..< 58}" using Suc.prems(2) digit_code [of v] by auto
    have "le_digits (dec_digits (v div 10) ?ds) = le_digits ?ds + 10 ^ length ?ds * unat (v div 10) \<and>
        (\<forall>d \<in> set (dec_digits (v div 10) ?ds). unat d \<in> {48 ..< 58}) \<and> (v div 10 \<noteq> 0 \<longrightarrow> last (dec_digits (v div 10) ?ds) \<noteq> 48)"
      by (rule Suc.hyps(1)) (use Suc.hyps(2) l k s in auto)
    moreover have "le_digits ?ds + 10 ^ length ?ds * unat (v div 10) = le_digits ds + 10 ^ length ds * unat v"
    proof -
      define q r where "q = unat v div 10" and "r = unat v mod 10"
      have v: "unat v = r + 10 * q" by (simp add: q_def r_def)
      have "le_digits ?ds + 10 ^ length ?ds * q = le_digits ds + 10 ^ length ds * (r + 10 * q)"
        unfolding le_digits_append digit_code r_def [symmetric] by (simp add: algebra_simps)
      moreover have "unat (v div 10) = q" using d by (simp only: q_def)
      ultimately show ?thesis by (simp only: v)
    qed
    moreover have "last (dec_digits (v div 10) ?ds) \<noteq> 48" if "v div 10 = 0"
    proof -
      have "unat v div 10 = 0" using that d by simp
      then have "unat (48 + ucast (v mod 10) :: u8) \<noteq> unat (48 :: u8)" using digit_code [of v] False by (simp add: unat_eq_0)
      then have "48 + ucast (v mod 10) \<noteq> (48 :: u8)" by (metis)
      then show ?thesis unfolding that by (subst dec_digits.simps) simp
    qed
    moreover have "dec_digits v ds = dec_digits (v div 10) ?ds" using False l by (subst dec_digits.simps) (simp add: word_gt_0)
    ultimately show ?thesis by auto
  qed
qed

lemma dec_string_value: "dec_value (dec_string v) = unat v \<and> (\<forall>d \<in> set (dec_string v). unat d \<in> {48 ..< 58}) \<and> (v \<noteq> 0 \<longrightarrow> hd (dec_string v) \<noteq> 48)"
proof (cases "v = 0")
  case True
  then show ?thesis by (simp add: dec_string_def dec_value_def)
next
  case False
  have "unat v < 10 ^ 10" using unat_less_len [of v] by simp
  then have d: "le_digits (dec_digits v []) = unat v" "\<forall>d \<in> set (dec_digits v []). unat d \<in> {48 ..< 58}" "last (dec_digits v []) \<noteq> 48"
    using dec_digits_value [of v "[]"] False by auto
  then show ?thesis using False by (auto simp: dec_string_def dec_value_rev hd_rev)
qed

section \<open>Properties\<close>

text \<open>
  Property C27. The console shows a window on a text without end: after any string, \<open>vga_puts\<close> has returned, has
  written nothing outside the 2000 cells, and the screen holds the last 25 rows of what a terminal
  without a lower end would hold, with the cursor at the same place of the text.
\<close>

theorem vga_puts_displays:
  assumes "displays v t"
  shows "\<exists>v' h'. vga_puts io (Some cs) (v, h) = Some (v', h') \<and> length (vga_mem v') = 2000 \<and> displays v' (fold t_putc cs t)"
  using put_all_displays [OF assms, of io cs h] by (auto simp: vga_puts_def displays_def rows_shown_def)

definition vga_boot :: vga where "vga_boot = \<lparr>vga_mem = replicate 2000 vga_blank, g_vga_row = 0, g_vga_col = 0\<rparr>"

definition term_boot :: terminal where "term_boot = \<lparr>t_cells = (\<lambda>_ _. vga_blank), t_row = 0, t_col = 0, t_top = 0\<rparr>"

lemma displays_boot: "displays vga_boot term_boot"
  by (auto simp: displays_def rows_shown_def vga_boot_def term_boot_def screen_def intro!: nth_replicate)

theorem vga_puts_displays_witness:
  "\<exists>v' h'. vga_puts log_ports (Some [72, 105, 8, 10]) (vga_boot, []) = Some (v', h') \<and> screen (vga_mem v') 0 0 = vga_cellv VGA_COLOR 72 \<and>
     screen (vga_mem v') 0 1 = vga_blank \<and> g_vga_row v' = 1"
proof -
  obtain v' h' where v: "vga_puts log_ports (Some [72, 105, 8, 10]) (vga_boot, []) = Some (v', h')" "displays v' (fold t_putc [72, 105, 8, 10] term_boot)"
    using vga_puts_displays [OF displays_boot, of log_ports "[72, 105, 8, 10]" "[]"] by blast
  have t: "fold t_putc [72, 105, 8, 10] term_boot =
    \<lparr>t_cells = (\<lambda>_ _. vga_blank)(0 := ((\<lambda>_. vga_blank)(0 := vga_cellv VGA_COLOR 72, 1 := vga_blank))), t_row = 1, t_col = 0, t_top = 0\<rparr>"
    by (simp add: t_putc_def term_boot_def t_cell_def t_advance_def Let_def fun_eq_iff)
  show ?thesis using v(1) v(2) [unfolded t] by (auto simp: displays_def rows_shown_def)
qed

text \<open>
  Numbers are printed in decimal: for every 32-bit value the digits sent to the serial port read
  back as the value, without leading zeros, on every port that gets ready again after each character.
\<close>

theorem serial_put_u32_decimal:
  assumes "\<And>h. \<exists>h'. serial_wait io h = Some h' \<and> sent h' = sent h" and "\<And>h b. sent (p_outb io SERIAL_PORT_COM1 b h) = sent h @ [b]"
  shows "\<exists>h' ds. serial_put_u32 io v h = Some h' \<and> sent h' = sent h @ ds \<and> dec_value ds = unat v \<and> (v \<noteq> 0 \<longrightarrow> hd ds \<noteq> 48)"
proof -
  have "\<exists>h'. put_all (serial_putc io) cs h = Some h' \<and> sent h' = sent h @ cs" if "\<forall>c \<in> set cs. c \<noteq> 10" for cs h
    using that
  proof (induction cs arbitrary: h)
    case (Cons c cs)
    obtain h1 where h1: "serial_wait io h = Some h1" "sent h1 = sent h" using assms(1) by blast
    let ?h = "p_outb io SERIAL_PORT_COM1 c h1"
    have "serial_putc io c h = Some ?h" using h1(1) Cons.prems by (simp add: serial_putc_def)
    then show ?case using Cons.IH [of ?h] Cons.prems h1(2) assms(2) by auto
  qed simp
  moreover have "\<forall>c \<in> set (dec_string v). c \<noteq> 10" using dec_string_value [of v] by auto
  ultimately show ?thesis using dec_string_value [of v] by (fastforce simp: serial_put_u32_def serial_puts_def)
qed

text \<open>A port that is busy for two polls after each character.\<close>

definition slow_uart :: "(nat \<times> bytes) ports" where
  "slow_uart = \<lparr>p_inb = (\<lambda>r (n, bs). (if n = 0 then 0x20 else 0, n - 1, bs)), p_outb = (\<lambda>r v (n, bs). (2, bs @ [v])),
     p_inw = (\<lambda>r h. (0, h)), p_outw = (\<lambda>r v h. h)\<rparr>"

lemma slow_uart_wait: "serial_wait slow_uart (n, bs) = Some (0, bs)"
proof (induction n)
  case 0
  show ?case by (subst serial_wait.simps) (simp add: serial_is_transmit_empty_def slow_uart_def)
next
  case (Suc n)
  then show ?case by (subst serial_wait.simps) (simp add: serial_is_transmit_empty_def slow_uart_def)
qed

theorem serial_put_u32_decimal_witness:
  "\<exists>h' ds. serial_put_u32 slow_uart 4294967295 (1, []) = Some h' \<and> snd h' = ds \<and> dec_value ds = 4294967295"
proof -
  have w: "\<exists>h'. serial_wait slow_uart h = Some h' \<and> snd h' = snd h" for h using slow_uart_wait [of "fst h" "snd h"] by auto
  have o: "snd (p_outb slow_uart SERIAL_PORT_COM1 b h) = snd h @ [b]" for h b by (simp add: slow_uart_def case_prod_beta)
  show ?thesis using serial_put_u32_decimal [of slow_uart snd 4294967295 "(1, [])", OF w o] by auto
qed

end
