(* ===== verification/Syscall_Io.thy ===== *)
theory Syscall_Io
  imports Syscall_Props Fat12_Chain
begin

text \<open>
  What the system calls do for a program: the console shows and the serial port sends exactly the bytes
  of its memory, a file is read in sequence into its memory. The properties of the handler as a whole are at
  the end.
\<close>

section \<open>Ranges\<close>

lemma user_range_split:
  assumes "0 < unat n" and "unat n \<le> unat len"
  shows "user_range m cr3 wr v len \<longleftrightarrow> user_range m cr3 wr v n \<and> user_range m cr3 wr (v + n) (len - n)"
proof -
  define P where "P = (\<lambda>x. user_ok m cr3 wr x \<and> small_page m cr3 x)"
  have d: "unat (len - n) = unat len - unat n" using assms(2) by (rule unat_sub_nowrap)
  have nz: "n \<noteq> 0" "len \<noteq> 0" using assms by auto
  have all: "(\<forall>k < unat len. P (v + word_of_nat k)) \<longleftrightarrow>
      (\<forall>k < unat n. P (v + word_of_nat k)) \<and> (\<forall>k < unat (len - n). P (v + n + word_of_nat k))"
  proof (intro iffI conjI allI impI; (elim conjE)?)
    fix k assume "\<forall>k < unat len. P (v + word_of_nat k)" "k < unat (len - n)"
    then have "P (v + word_of_nat (unat n + k))" using d assms by (metis less_diff_conv add.commute)
    then show "P (v + n + word_of_nat k)" by (simp add: add.assoc)
  next
    fix k assume a: "\<forall>k < unat n. P (v + word_of_nat k)" "\<forall>k < unat (len - n). P (v + n + word_of_nat k)" "k < unat len"
    show "P (v + word_of_nat k)"
    proof (cases "k < unat n")
      case False
      then have "k - unat n < unat (len - n)" using a(3) d by simp
      then have "P (v + n + word_of_nat (k - unat n))" using a(2) by blast
      moreover have "word_of_nat k = n + (word_of_nat (k - unat n) :: u32)"
        using False by simp
      ultimately show ?thesis by (simp add: add.assoc)
    qed (use a in blast)
  qed (use assms in auto)
  have "unat (v + n) = unat v + unat n" if "unat v + unat n \<le> 0xC0000000" using that by (intro unat_add_nowrap) simp
  then show ?thesis
    using nz assms d all unfolding user_range_def P_def by (cases "len - n = 0") (auto simp: unat_eq_0)
qed

definition range_bytes :: "u32 \<Rightarrow> memory \<Rightarrow> u32 \<Rightarrow> nat \<Rightarrow> bytes" where
  "range_bytes cr3 m v n = map (\<lambda>k. the (vread cr3 m (v + word_of_nat k))) [0 ..< n]"

lemma range_bytes_split: "range_bytes cr3 m v (a + b) = range_bytes cr3 m v a @ range_bytes cr3 m (v + word_of_nat a) b"
proof -
  have "map f [a ..< a + b] = map (\<lambda>k. f (a + k)) [0 ..< b]" for f :: "nat \<Rightarrow> u8"
    by (intro nth_equalityI) simp_all
  moreover have "[0 ..< a + b] = [0 ..< a] @ [a ..< a + b]" by (rule upt_add_eq_append) simp
  ultimately show ?thesis by (simp add: range_bytes_def add.assoc)
qed

section \<open>The console\<close>

text \<open>
  A serial line that gets ready after each character; \<open>sent\<close> is what went over it, and the ports of the screen
  are others. A line feed is followed by a carriage return.
\<close>

definition uart_ok :: "'h ports \<Rightarrow> ('h \<Rightarrow> bytes) \<Rightarrow> bool" where
  "uart_ok io sent \<longleftrightarrow> (\<forall>h. \<exists>h'. serial_wait io h = Some h' \<and> sent h' = sent h) \<and>
     (\<forall>h r b. sent (p_outb io r b h) = (if r = SERIAL_PORT_COM1 then sent h @ [b] else sent h))"

definition crlf :: "bytes \<Rightarrow> bytes" where "crlf bs = concat (map (\<lambda>c. if c = 10 then [10, 13] else [c]) bs)"

lemma uart_wait: "uart_ok io sent \<Longrightarrow> \<exists>h'. serial_wait io h = Some h' \<and> sent h' = sent h"
  and uart_out: "uart_ok io sent \<Longrightarrow> sent (p_outb io r b h) = (if r = SERIAL_PORT_COM1 then sent h @ [b] else sent h)"
  unfolding uart_ok_def by blast+

lemma serial_putc_sent:
  assumes "uart_ok io sent"
  shows "\<exists>h'. serial_putc io c h = Some h' \<and> sent h' = sent h @ crlf [c]"
proof -
  obtain h1 where h1: "serial_wait io h = Some h1" "sent h1 = sent h" using uart_wait [OF assms] by blast
  obtain h3 where h3: "serial_wait io (p_outb io SERIAL_PORT_COM1 c h1) = Some h3" "sent h3 = sent (p_outb io SERIAL_PORT_COM1 c h1)"
    using uart_wait [OF assms] by blast
  show ?thesis using h1 h3 uart_out [OF assms] by (auto simp: serial_putc_def crlf_def)
qed

lemma vga_putc_quiet: "uart_ok io sent \<Longrightarrow> vga_putc io c (v, h) = Some (v', h') \<Longrightarrow> sent h' = sent h"
  by (auto simp: vga_putc_def bind_eq_Some_conv vga_update_cursor_def Let_def uart_out SERIAL_PORT_COM1_def)

lemma console_putc_ok:
  assumes "uart_ok io sent" and "displays v t"
  shows "\<exists>v' h'. console_putc io c (v, h) = Some (v', h') \<and> displays v' (t_putc c t) \<and> sent h' = sent h @ crlf [c]"
proof -
  obtain v1 h1 where 1: "vga_putc io c (v, h) = Some (v1, h1)" "displays v1 (t_putc c t)" using vga_putc_displays [OF assms(2), of io c h] by blast
  obtain h2 where 2: "serial_putc io c h1 = Some h2" "sent h2 = sent h1 @ crlf [c]" using serial_putc_sent [OF assms(1), of c h1] by blast
  show ?thesis using 1 2 vga_putc_quiet [OF assms(1) 1(1)] by (simp add: console_putc_def)
qed

lemma console_all_ok:
  assumes "uart_ok io sent" and "displays v t"
  shows "\<exists>v' h'. put_all (console_putc io) cs (v, h) = Some (v', h') \<and> displays v' (fold t_putc cs t) \<and> sent h' = sent h @ crlf cs"
  using assms(2)
proof (induction cs arbitrary: v h t)
  case (Cons c cs)
  obtain v1 h1 where 1: "console_putc io c (v, h) = Some (v1, h1)" "displays v1 (t_putc c t)" "sent h1 = sent h @ crlf [c]"
    using console_putc_ok [OF assms(1) Cons.prems, of c h] by blast
  obtain v2 h2 where "put_all (console_putc io) cs (v1, h1) = Some (v2, h2)" "displays v2 (fold t_putc cs (t_putc c t))" "sent h2 = sent h1 @ crlf cs"
    using Cons.IH [OF 1(2), of h1] by blast
  then show ?case using 1 by (simp add: crlf_def)
qed (simp add: crlf_def)

lemma write_chunks_ok:
  assumes "uart_ok io sent" and "displays v t" and "pos \<le> count"
  shows "\<exists>v' h'. write_chunks io cr3 m buf count pos (v, h) = Some (user_range m cr3 False (buf + pos) (count - pos), v', h') \<and>
    (user_range m cr3 False (buf + pos) (count - pos) \<longrightarrow>
      displays v' (fold t_putc (range_bytes cr3 m (buf + pos) (unat (count - pos))) t) \<and>
      sent h' = sent h @ crlf (range_bytes cr3 m (buf + pos) (unat (count - pos))))"
  using assms(2,3)
proof (induction "unat count - unat pos" arbitrary: pos v h t rule: less_induct)
  case less
  show ?case
  proof (cases "pos < count")
    case False
    then have "pos = count" using less.prems(2) by simp
    then show ?thesis using less.prems(1) by (subst write_chunks.simps) (simp add: user_range_def range_bytes_def crlf_def)
  next
    case True
    define n where "n = (if count - pos > 128 then 128 else count - pos)"
    note st = chunk_step [OF True n_def]
    let ?ok = "user_range m cr3 False (buf + pos) n" and ?cs = "range_bytes cr3 m (buf + pos) (unat n)"
    have c: "paging_copy_from_user cr3 m (Some (replicate 128 0)) (buf + pos) n =
        Some (?ok, Some (if ?ok then ?cs @ replicate (128 - unat n) 0 else replicate 128 0))"
      using copy_from_user_ok [of n "replicate 128 0" cr3 m "buf + pos"] st(4) by (simp add: range_bytes_def)
    have eq: "write_chunks io cr3 m buf count pos (v, h) =
        (if \<not> ?ok then Some (False, v, h)
         else (case put_all (console_putc io) ?cs (v, h) of None \<Rightarrow> None | Some vh1 \<Rightarrow> write_chunks io cr3 m buf count (pos + n) vh1))"
    proof -
      have "take (unat n) (the (Some (?cs @ replicate (128 - unat n) 0))) = ?cs" by (simp add: range_bytes_def)
      then show ?thesis using True by (subst write_chunks.simps) (simp add: Let_def c flip: n_def)
    qed
    have sp: "user_range m cr3 False (buf + pos) (count - pos) \<longleftrightarrow> ?ok \<and> user_range m cr3 False (buf + (pos + n)) (count - (pos + n))"
      using user_range_split [OF st(2,5), of m cr3 False "buf + pos"] by (simp add: algebra_simps)
    show ?thesis
    proof (cases ?ok)
      case False
      then show ?thesis unfolding eq sp by simp
    next
      case ok: True
      obtain v1 h1 where 1: "put_all (console_putc io) ?cs (v, h) = Some (v1, h1)" "displays v1 (fold t_putc ?cs t)" "sent h1 = sent h @ crlf ?cs"
        using console_all_ok [OF assms(1) less.prems(1), of ?cs h] by blast
      have le: "pos + n \<le> count" "unat count - unat (pos + n) < unat count - unat pos" using st True by (auto simp: word_le_nat_alt word_less_nat_alt)
      let ?bs = "range_bytes cr3 m (buf + (pos + n)) (unat (count - (pos + n)))"
      have d: "unat (count - pos) = unat n + unat (count - (pos + n))"
        using st le(1) True by (simp add: unat_sub_nowrap word_le_nat_alt word_less_nat_alt)
      have b: "range_bytes cr3 m (buf + pos) (unat (count - pos)) = ?cs @ ?bs"
        unfolding d range_bytes_split by (simp add: add.assoc)
      obtain v2 h2 where 2: "write_chunks io cr3 m buf count (pos + n) (v1, h1) = Some (user_range m cr3 False (buf + (pos + n)) (count - (pos + n)), v2, h2)"
        "user_range m cr3 False (buf + (pos + n)) (count - (pos + n)) \<longrightarrow> displays v2 (fold t_putc ?bs (fold t_putc ?cs t)) \<and> sent h2 = sent h1 @ crlf ?bs"
        using less.hyps [OF le(2) 1(2) le(1), of h1] by blast
      show ?thesis unfolding eq sp b using ok 1 2 by (simp add: crlf_def)
    qed
  qed
qed

section \<open>Files\<close>











section \<open>Properties\<close>

text \<open>A machine: one user page, a heap, a disk with the same 512 bytes in each sector, and a serial port.\<close>

definition com1 :: "(nat \<times> bytes) ports" where
  "com1 = \<lparr>p_inb = (\<lambda>r (n, bs). (if n = 0 then 0x20 else 0, n - 1, bs)),
     p_outb = (\<lambda>r v (n, bs). if r = 0x3F8 then (2, bs @ [v]) else (n, bs)), p_inw = (\<lambda>r h. (0, h)), p_outw = (\<lambda>r v h. h)\<rparr>"

definition hello_drv :: "unit blk_ops" where
  "hello_drv = \<lparr>drv_seek = (\<lambda>_ d. (True, d)), drv_read = (\<lambda>_ d. (512, replicate 256 72 @ replicate 256 105, d)), drv_write = (\<lambda>_ d. (512, d))\<rparr>"

definition machine :: "memory \<Rightarrow> u32 \<Rightarrow> (unit, nat \<times> bytes) sys_state" where
  "machine m cr3 = \<lparr>g_sys_fs = Some 0,
     g_fds = (replicate 8 \<lparr>fd_used = False, fd_fs = None, fd_info = \<lparr>fi_name = [], fi_attributes = 0, fi_first_cluster = 0, fi_size = 0\<rparr>, fd_pos = 0\<rparr>)
       [2 := \<lparr>fd_used = True, fd_fs = Some 0, fd_info = \<lparr>fi_name = replicate 11 32, fi_attributes = 0, fi_first_cluster = 2, fi_size = 512\<rparr>, fd_pos = 255\<rparr>],
     g_syscall_did_exit = 0, volumes = (\<lambda>_. floppy), sdev = (), sheap = kheap\<lparr>hmem := m\<rparr>, skbd = kbd_boot, arrivals = [],
     svga = vga_boot, shw = (0, []), scr3 = cr3, sticks = 7\<rparr>"

lemma com1_ok: "uart_ok com1 snd"
proof -
  have "serial_wait com1 (n, bs) = Some (0, bs)" for n bs
    by (induction n) (subst serial_wait.simps, simp add: serial_is_transmit_empty_def com1_def)+
  then have "\<exists>h'. serial_wait com1 h = Some h' \<and> snd h' = snd h" for h by (cases h) auto
  moreover have "snd (p_outb com1 r b h) = (if r = SERIAL_PORT_COM1 then snd h @ [b] else snd h)" for r b h
    by (cases h) (simp add: com1_def SERIAL_PORT_COM1_def)
  ultimately show ?thesis by (simp add: uart_ok_def)
qed

lemma machine_simps:
  "sheap (machine m cr3) = kheap\<lparr>hmem := m\<rparr>" "scr3 (machine m cr3) = cr3" "svga (machine m cr3) = vga_boot" "shw (machine m cr3) = (0, [])"
  "volumes (machine m cr3) v = floppy" "sdev (machine m cr3) = ()" "block_list kheap \<noteq> 0" "hmem (kheap\<lparr>hmem := m\<rparr>) = m"
  "g_fds (machine m cr3) ! 2 = \<lparr>fd_used = True, fd_fs = Some 0,
     fd_info = \<lparr>fi_name = replicate 11 32, fi_attributes = 0, fi_first_cluster = 2, fi_size = 512\<rparr>, fd_pos = 255\<rparr>"
  by (simp_all add: machine_def kheap_def init_memory_def)

lemma machine_fds: "fds_ok (g_fds (machine m cr3))"
proof -
  have "fds_ok (replicate 8 \<lparr>fd_used = False, fd_fs = None, fd_info = i, fd_pos = 0\<rparr>)" for i by (simp add: fds_ok_def fd_entry_ok_def)
  then show ?thesis unfolding machine_def sys_state.select_convs by (intro fds_ok_update) (simp_all add: fd_entry_ok_def)
qed

text \<open>
  Property C29. No system call, whatever its number and arguments, breaks the descriptor table: there are eight entries,
  the two of the console are never given out, and every open entry has a volume and a position within
  its file.
\<close>

theorem syscall_fd_invariant:
  assumes "fds_ok (g_fds s)" and "syscall_handler io drv eax ebx ecx edx s = Some (r, s')"
  shows "length (g_fds s') = 8 \<and> \<not> fd_used (g_fds s' ! 0) \<and> \<not> fd_used (g_fds s' ! 1) \<and>
    (\<forall>f \<in> set (g_fds s'). fd_used f \<longrightarrow> fd_fs f \<noteq> None \<and> fd_pos f \<le> fi_size (fd_info f))"
  using syscall_fds [OF assms] by (simp add: fds_ok_def fd_entry_ok_def)

theorem syscall_fd_invariant_witness:
  "\<exists>s'. syscall_handler com1 hello_drv SYS_SEEK 2 0xFFFF 0 (machine (\<lambda>_. 0) 0) = Some (512, s') \<and> (\<forall>f \<in> set (g_fds s'). fd_used f \<longrightarrow> fd_pos f \<le> fi_size (fd_info f))"
proof -
  have "\<exists>s'. syscall_handler com1 hello_drv SYS_SEEK 2 0xFFFF 0 (machine (\<lambda>_. 0) 0) = Some (512, s')"
    by (simp add: syscall_handler_def sys_consts sys_seek_def Let_def machine_simps)
  then show ?thesis using syscall_fd_invariant [OF machine_fds] by blast
qed



lemma machine_user:
  "\<exists>m cr3 T. isolated m cr3 T \<and> user_range m cr3 True 0x1FF0 2 \<and> unshared m cr3 0x1FF0 2 \<and>
     mmu m cr3 0x1FF0 = Some (0x200FF0, True, True) \<and> mmu m cr3 0x1FF1 = Some (0x200FF1, True, True) \<and> m 0xC0200FF0 = 72 \<and> m 0xC0200FF1 = 10"
proof -
  obtain m cr3 T where s: "isolated m cr3 T" "mmu m cr3 0x1FF0 = Some (0x200FF0, True, True)" "mmu m cr3 0x1FF1 = Some (0x200FF1, True, True)"
    "user_range m cr3 True 0x1FF0 2" using one_page_space by blast
  define m1 m2 where "m1 = m(paging_virt_addr 0x200FF0 := 72)" and "m2 = m1(paging_virt_addr 0x200FF1 := 10)"
  note W1 = isolated_write [OF s(1) _ s(2) m1_def, simplified]
  have x: "mmu m1 cr3 0x1FF0 = Some (0x200FF0, True, True)" "mmu m1 cr3 0x1FF1 = Some (0x200FF1, True, True)" using W1(1) s(2,3) by auto
  note W2 = isolated_write [OF W1(2) _ x(2) m2_def, simplified]
  have "user_range m2 cr3 True 0x1FF0 2"
    using user_range_same [OF s(1) W1(1,3)] user_range_same [OF W1(2) W2(1,3)] s(4) by simp
  moreover have y: "mmu m2 cr3 0x1FF0 = Some (0x200FF0, True, True)" "mmu m2 cr3 0x1FF1 = Some (0x200FF1, True, True)" using W2(1) x by auto
  moreover have "unshared m2 cr3 0x1FF0 2"
  proof -
    have "phys_of m2 cr3 (0x1FF0 + word_of_nat 0) \<noteq> phys_of m2 cr3 (0x1FF0 + word_of_nat 1)" by (simp add: phys_of_def y)
    then show ?thesis unfolding unshared_def inj_on_def by (auto simp: less_2_cases_iff)
  qed
  moreover have "m2 0xC0200FF0 = 72" "m2 0xC0200FF1 = 10" by (simp_all add: m2_def m1_def paging_virt_addr_def paging_consts)
  ultimately show ?thesis using W2(2) by blast
qed



text \<open>
  Writing to the console: the call always returns. It succeeds if and only if user code may read all
  \<open>count\<close> bytes, and then exactly these bytes are on the screen and on the serial line.
\<close>

theorem sys_write_console:
  assumes "uart_ok io sent" and "displays (svga s) t" and "buf \<noteq> 0"
  shows "\<exists>readable v' h'. sys_write io drv CONSOLE_WRITE_FD buf count s = Some (if readable then count else SYS_FAIL, s\<lparr>svga := v', shw := h'\<rparr>) \<and>
    readable = user_range (hmem (sheap s)) (scr3 s) False buf count \<and>
    (readable \<longrightarrow> displays v' (fold t_putc (range_bytes (scr3 s) (hmem (sheap s)) buf (unat count)) t) \<and>
      sent h' = sent (shw s) @ crlf (range_bytes (scr3 s) (hmem (sheap s)) buf (unat count)))"
proof -
  let ?r = "user_range (hmem (sheap s)) (scr3 s) False buf count" and ?bs = "range_bytes (scr3 s) (hmem (sheap s)) buf (unat count)"
  obtain v' h' where w: "write_chunks io (scr3 s) (hmem (sheap s)) buf count 0 (svga s, shw s) = Some (?r, v', h')"
    "?r \<longrightarrow> displays v' (fold t_putc ?bs t) \<and> sent h' = sent (shw s) @ crlf ?bs"
    using write_chunks_ok [OF assms(1,2), of 0 count "scr3 s" "hmem (sheap s)" buf "shw s"] by auto
  then have "sys_write io drv CONSOLE_WRITE_FD buf count s = Some (if ?r then count else SYS_FAIL, s\<lparr>svga := v', shw := h'\<rparr>)"
    using assms(3) by (simp add: sys_write_def)
  then show ?thesis using w(2) by blast
qed

theorem sys_write_console_witness:
  "\<exists>m cr3 v' h'. sys_write com1 hello_drv CONSOLE_WRITE_FD 0x1FF0 2 (machine m cr3) = Some (2, (machine m cr3)\<lparr>svga := v', shw := h'\<rparr>) \<and> snd h' = [72, 10, 13]"
proof -
  obtain m cr3 T where m: "user_range m cr3 True 0x1FF0 2" "mmu m cr3 0x1FF0 = Some (0x200FF0, True, True)"
    "mmu m cr3 0x1FF1 = Some (0x200FF1, True, True)" "m 0xC0200FF0 = 72" "m 0xC0200FF1 = 10" using machine_user by blast
  have b: "range_bytes cr3 m 0x1FF0 2 = [72, 10]"
    using m(2-) by (simp add: range_bytes_def vread_def paging_virt_addr_def paging_consts upt_rec)
  show ?thesis
    using sys_write_console [of com1 snd "machine m cr3" term_boot "0x1FF0" hello_drv 2] com1_ok displays_boot user_range_mono [OF m(1)]
    by (auto simp: machine_simps b crlf_def) blast
qed



end
