(* ===== verification/Mouse.thy ===== *)
theory Mouse
  imports Keyboard "HOL-Library.Signed_Division"
begin

text \<open>
  The PS/2 mouse (\<open>Kernel/drivers/ps2mouse.c\<close>) and the end of interrupt of \<open>Kernel/arch/interrupt.c\<close>, which its handler
  sends itself. Positions and movements are words that are read as signed numbers. The port accesses are
  an argument; the log output is not modelled.
\<close>

definition pic_send_eoi :: "'h ports \<Rightarrow> u8 \<Rightarrow> 'h \<Rightarrow> 'h" where
  "pic_send_eoi io irq h = p_outb io 0x20 0x20 (if irq \<ge> 8 then p_outb io 0xA0 0x20 h else h)"

record mouse_state_t =
  m_x :: "16 word"
  m_y :: "16 word"
  m_buttons :: u8
  m_dx :: u8
  m_dy :: u8
  m_packet_ready :: u8

record mouse =
  g_mouse_state :: mouse_state_t
  g_mouse_packet :: bytes
  g_mouse_packet_byte :: u8
  g_mouse_rx :: u32
  g_mouse_bad :: u32

section \<open>Talking to the controller\<close>

fun ps2_spin :: "'h ports \<Rightarrow> (u8 \<Rightarrow> bool) \<Rightarrow> nat \<Rightarrow> 'h \<Rightarrow> 'h" where
  "ps2_spin io ready 0 h = h"
| "ps2_spin io ready (Suc n) h = (case p_inb io 0x64 h of (st, h1) \<Rightarrow> if ready st then h1 else ps2_spin io ready n h1)"

definition ps2_wait_write :: "'h ports \<Rightarrow> 'h \<Rightarrow> 'h" where
  "ps2_wait_write io h = ps2_spin io (\<lambda>st. st AND 0x02 = 0) 100000 h"

definition ps2_wait_read :: "'h ports \<Rightarrow> 'h \<Rightarrow> 'h" where
  "ps2_wait_read io h = ps2_spin io (\<lambda>st. st AND 0x01 \<noteq> 0) 100000 h"

definition ps2_write_cmd :: "'h ports \<Rightarrow> u8 \<Rightarrow> 'h \<Rightarrow> 'h" where
  "ps2_write_cmd io cmd h = p_outb io 0x64 cmd (ps2_wait_write io h)"

definition ps2_write_data :: "'h ports \<Rightarrow> u8 \<Rightarrow> 'h \<Rightarrow> 'h" where
  "ps2_write_data io d h = p_outb io 0x60 d (ps2_wait_write io h)"

definition ps2_read_data :: "'h ports \<Rightarrow> 'h \<Rightarrow> u8 \<times> 'h" where
  "ps2_read_data io h = p_inb io 0x60 (ps2_wait_read io h)"

definition ps2_mouse_send :: "'h ports \<Rightarrow> u8 \<Rightarrow> 'h \<Rightarrow> bool \<times> 'h" where
  "ps2_mouse_send io cmd h =
     (case ps2_read_data io (ps2_write_data io cmd (ps2_write_cmd io 0xD4 h)) of (resp, h1) \<Rightarrow> (resp = 0xFA, h1))"

text \<open>The second result says whether the interrupt handler has been registered.\<close>

definition ps2mouse_init :: "'h ports \<Rightarrow> mouse \<Rightarrow> 'h \<Rightarrow> mouse \<times> bool \<times> 'h" where
  "ps2mouse_init io s h =
     (let h1 = ps2_write_cmd io 0x20 (ps2_write_cmd io 0xA8 h);
          (status, h2) = ps2_read_data io h1;
          h3 = ps2_write_data io (status OR 0x02) (ps2_write_cmd io 0x60 h2);
          (resp, h4) = ps2_read_data io (ps2_write_data io 0xF6 (ps2_write_cmd io 0xD4 h3))
      in if resp \<noteq> 0xFA then (s, False, h4)
         else
           (let h5 = snd (ps2_mouse_send io 0xF4 h4);
                h6 = snd (ps2_mouse_send io 0xE8 h5);
                h7 = snd (ps2_mouse_send io 0x03 h6)
            in (s\<lparr>g_mouse_state := \<lparr>m_x = 40, m_y = 12, m_buttons = 0, m_dx = 0, m_dy = 0, m_packet_ready = 0\<rparr>, g_mouse_packet_byte := 0\<rparr>, True, h7)))"

definition ps2mouse_enable :: "'h ports \<Rightarrow> 'h \<Rightarrow> 'h" where
  "ps2mouse_enable io h = snd (ps2_mouse_send io 0xF4 h)"

definition ps2mouse_disable :: "'h ports \<Rightarrow> 'h \<Rightarrow> 'h" where
  "ps2mouse_disable io h = snd (ps2_mouse_send io 0xF5 h)"

definition ps2mouse_get_state :: "mouse \<Rightarrow> mouse_state_t" where
  "ps2mouse_get_state s = g_mouse_state s"

section \<open>Packets\<close>

text \<open>The quarter of a movement, rounded towards zero, and a position kept in \<open>0 \<dots> n - 1\<close>.\<close>

definition quarter :: "u8 \<Rightarrow> int" where
  "quarter d = sint d sdiv 4"

definition clamp_pos :: "int \<Rightarrow> 16 word \<Rightarrow> 16 word" where
  "clamp_pos n v = (if sint v < 0 then 0 else if sint v \<ge> n then word_of_int (n - 1) else v)"

definition mouse_packet :: "mouse \<Rightarrow> wm_queues \<Rightarrow> mouse \<times> wm_queues" where
  "mouse_packet s q =
     (let p0 = g_mouse_packet s ! 0;
          dx = (if p0 AND 0x10 \<noteq> 0 then g_mouse_packet s ! 1 OR 0xF0 else g_mouse_packet s ! 1);
          dy = (if p0 AND 0x20 \<noteq> 0 then g_mouse_packet s ! 2 OR 0xF0 else g_mouse_packet s ! 2);
          st = g_mouse_state s
      in (s\<lparr>g_mouse_state := st\<lparr>m_dx := dx, m_dy := dy, m_buttons := p0 AND 0x07, m_packet_ready := 1,
              m_x := clamp_pos 80 (m_x st + word_of_int (quarter dx)), m_y := clamp_pos 25 (m_y st + word_of_int (quarter dy))\<rparr>,
            g_mouse_rx := g_mouse_rx s + 1\<rparr>,
          tui_wm_post_mouse (p0 AND 0x07) (word_of_int (quarter dx)) (word_of_int (quarter dy)) q))"

definition mouse_byte :: "u8 \<Rightarrow> mouse \<Rightarrow> wm_queues \<Rightarrow> bool \<times> mouse \<times> wm_queues" where
  "mouse_byte data s q =
     (if g_mouse_packet_byte s = 0
      then (if data AND 0x08 = 0 \<or> data AND 0xC0 \<noteq> 0 then (False, s\<lparr>g_mouse_bad := g_mouse_bad s + 1\<rparr>, q)
            else (True, s\<lparr>g_mouse_packet := (g_mouse_packet s)[0 := data], g_mouse_packet_byte := 1\<rparr>, q))
      else if g_mouse_packet_byte s = 1
      then (True, s\<lparr>g_mouse_packet := (g_mouse_packet s)[1 := data], g_mouse_packet_byte := 2\<rparr>, q)
      else (True, mouse_packet (s\<lparr>g_mouse_packet := (g_mouse_packet s)[2 := data], g_mouse_packet_byte := 0\<rparr>) q))"

definition ps2mouse_irq :: "'h ports \<Rightarrow> mouse \<Rightarrow> wm_queues \<Rightarrow> 'h \<Rightarrow> mouse \<times> wm_queues \<times> 'h" where
  "ps2mouse_irq io s q h =
     (case p_inb io 0x64 h of (status, h1) \<Rightarrow>
      if status AND 0x01 = 0 \<or> status AND 0x20 = 0 then (s, q, h1)
      else (case p_inb io 0x60 h1 of (data, h2) \<Rightarrow>
            case mouse_byte data s q of (eoi, s1, q1) \<Rightarrow> (s1, q1, if eoi then pic_send_eoi io 12 h2 else h2)))"

end
