(* ===== verification/Mouse_Props.thy ===== *)
theory Mouse_Props
  imports Mouse
begin

text \<open>
  The byte stream of the mouse as packets, and the position of the pointer as a point that moves on the screen.
\<close>

section \<open>Specification\<close>

text \<open>A packet starts with a byte that has bit 3 set and no overflow bit; other bytes are skipped until there is one.\<close>

definition header :: "u8 \<Rightarrow> bool" where
  "header b \<longleftrightarrow> b AND 0x08 \<noteq> 0 \<and> b AND 0xC0 = 0"

fun packets :: "bytes \<Rightarrow> (u8 \<times> u8 \<times> u8) list" where
  "packets (b # dx # dy # bs) = (if header b then (b, dx, dy) # packets bs else packets (dx # dy # bs))"
| "packets [] = []"
| "packets [b] = []"
| "packets [b, c] = []"

text \<open>A movement as the driver reads it, in quarters, and a step of the pointer in unbounded integers.\<close>

definition movement :: "bool \<Rightarrow> u8 \<Rightarrow> int" where
  "movement neg d = sint (if neg then d OR 0xF0 else d) sdiv 4"

definition within :: "int \<Rightarrow> int \<Rightarrow> int" where
  "within n v = max 0 (min (n - 1) v)"

fun step_to :: "int \<times> int \<Rightarrow> u8 \<times> u8 \<times> u8 \<Rightarrow> int \<times> int" where
  "step_to (x, y) (b, dx, dy) = (within 80 (x + movement (b AND 0x10 \<noteq> 0) dx), within 25 (y + movement (b AND 0x20 \<noteq> 0) dy))"

fun post_packet :: "wm_queues \<Rightarrow> u8 \<times> u8 \<times> u8 \<Rightarrow> wm_queues" where
  "post_packet q (b, dx, dy) =
     tui_wm_post_mouse (b AND 0x07) (word_of_int (movement (b AND 0x10 \<noteq> 0) dx)) (word_of_int (movement (b AND 0x20 \<noteq> 0) dy)) q"

definition pointer :: "mouse \<Rightarrow> int \<times> int" where
  "pointer s = (sint (m_x (g_mouse_state s)), sint (m_y (g_mouse_state s)))"

definition on_text :: "int \<times> int \<Rightarrow> bool" where
  "on_text p \<longleftrightarrow> 0 \<le> fst p \<and> fst p < 80 \<and> 0 \<le> snd p \<and> snd p < 25"

text \<open>The bytes of a run of interrupts.\<close>

fun mouse_bytes :: "bytes \<Rightarrow> mouse \<Rightarrow> wm_queues \<Rightarrow> mouse \<times> wm_queues" where
  "mouse_bytes [] s q = (s, q)"
| "mouse_bytes (b # bs) s q = (case mouse_byte b s q of (_, s1, q1) \<Rightarrow> mouse_bytes bs s1 q1)"

section \<open>Arithmetic\<close>

lemma quarter_bounds: "- 32 \<le> quarter d" "quarter d \<le> 31"
proof -
  have b: "- 128 \<le> sint d" "sint d < 128" using sint_ge [of d] sint_lt [of d] by simp_all
  have "quarter d = (if sint d < 0 then - ((- sint d) div 4) else sint d div 4)"
    by (auto simp: quarter_def signed_divide_int_def sgn_if)
  then show "- 32 \<le> quarter d" "quarter d \<le> 31" using b by (auto split: if_splits)
qed

lemma clamp_pos_exact:
  assumes "0 \<le> sint v" "sint v < n" and "0 < n" "n \<le> 80" and "- 32 \<le> d" "d \<le> 31"
  shows "sint (clamp_pos n (v + word_of_int d :: 16 word)) = within n (sint v + d)"
proof -
  have s: "sint (word_of_int k :: 16 word) = k" if "- 32768 \<le> k" "k < 32768" for k
    using that by (simp add: sint_word_ariths signed_take_bit_int_eq_self_iff sint_sbintrunc')
  have "v + word_of_int d = word_of_int (sint v + d)" by (simp flip: wi_hom_add)
  then have "sint (v + word_of_int d) = sint v + d" using s [of "sint v + d"] assms by simp
  moreover have "sint (word_of_int (n - 1) :: 16 word) = n - 1" by (rule s) (use assms in auto)
  ultimately show ?thesis using assms(3) by (auto simp: clamp_pos_def within_def)
qed

lemma within_bounds: "0 < n \<Longrightarrow> 0 \<le> within n v \<and> within n v < n"
  by (auto simp: within_def)

lemma quarter_movement: "quarter (if c then d OR 0xF0 else d) = movement c d"
  by (simp add: quarter_def movement_def)

lemmas movement_bounds = quarter_bounds [of "if c then d OR 0xF0 else d" for c d, unfolded quarter_movement]

text \<open>A whole packet.\<close>

lemma three_bytes:
  assumes "header b" and "g_mouse_packet_byte s = 0" "length (g_mouse_packet s) = 3" and "on_text (pointer s)"
  shows "\<exists>s'. mouse_bytes (b # dx # dy # bs) s q = mouse_bytes bs s' (post_packet q (b, dx, dy)) \<and>
    g_mouse_packet_byte s' = 0 \<and> length (g_mouse_packet s') = 3 \<and> pointer s' = step_to (pointer s) (b, dx, dy) \<and>
    g_mouse_rx s' = g_mouse_rx s + 1 \<and> m_buttons (g_mouse_state s') = b AND 0x07"
proof -
  obtain x y z where p: "g_mouse_packet s = [x, y, z]" using assms(3) by (auto simp: length_Suc_conv numeral_3_eq_3)
  let ?s = "s\<lparr>g_mouse_packet := [b, dx, dy], g_mouse_packet_byte := 0\<rparr>"
  have e: "mouse_bytes (b # dx # dy # bs) s q = (case mouse_packet ?s q of (s1, q1) \<Rightarrow> mouse_bytes bs s1 q1)"
    using assms(1,2) by (simp add: mouse_byte_def header_def p)
  define s1 where "s1 = fst (mouse_packet ?s q)"
  have q1: "snd (mouse_packet ?s q) = post_packet q (b, dx, dy)" by (simp only: mouse_packet_def Let_def snd_conv) (simp add: quarter_movement)
  have "pointer s1 = step_to (pointer s) (b, dx, dy)"
  proof -
    have "pointer s1 = (sint (clamp_pos 80 (m_x (g_mouse_state s) + word_of_int (movement (b AND 0x10 \<noteq> 0) dx))),
      sint (clamp_pos 25 (m_y (g_mouse_state s) + word_of_int (movement (b AND 0x20 \<noteq> 0) dy))))"
      unfolding s1_def mouse_packet_def Let_def fst_conv by (simp add: pointer_def quarter_movement)
    then show ?thesis using assms(4) by (simp add: clamp_pos_exact movement_bounds on_text_def pointer_def)
  qed
  moreover have "g_mouse_packet_byte s1 = 0" "length (g_mouse_packet s1) = 3" "g_mouse_rx s1 = g_mouse_rx s + 1" "m_buttons (g_mouse_state s1) = b AND 0x07"
    by (simp_all add: s1_def mouse_packet_def Let_def)
  ultimately show ?thesis using e q1 unfolding s1_def by (auto simp: split_beta)
qed

lemma skipped_byte:
  assumes "\<not> header b" and "g_mouse_packet_byte s = 0"
  shows "mouse_bytes (b # bs) s q = mouse_bytes bs (s\<lparr>g_mouse_bad := g_mouse_bad s + 1\<rparr>) q"
  using assms by (auto simp: mouse_byte_def header_def)

lemma short_bytes:
  assumes "length bs \<le> 2" and "g_mouse_packet_byte s = 0" and "mouse_bytes bs s q = (s', q')"
  shows "g_mouse_state s' = g_mouse_state s \<and> q' = q \<and> g_mouse_rx s' = g_mouse_rx s"
proof -
  consider "bs = []" | b where "bs = [b]" | b c where "bs = [b, c]"
    using assms(1) by (cases bs; cases "tl bs") (auto simp: le_Suc_eq numeral_2_eq_2)
  then show ?thesis using assms(2,3) by cases (auto simp: mouse_byte_def split: if_splits)
qed

lemma packets_short: "length bs \<le> 2 \<Longrightarrow> packets bs = []"
  by (cases bs rule: packets.cases) auto

lemma step_on_text: "on_text (step_to p k)"
  by (cases p; cases k) (simp add: on_text_def within_bounds)

text \<open>
  Property C31. The mouse driver decodes its byte stream exactly: starting between two packets with the pointer on the text screen, after any bytes
  the pointer is where the packets of the stream, one after the other, lead a point that is kept on the screen, computed without wrap-around; it never leaves
  the screen. Every packet is counted and posted once, in order, to the queue of the window manager; bytes that cannot start a packet are skipped.
\<close>

theorem mouse_stream_decoded:
  assumes "g_mouse_packet_byte s = 0" "length (g_mouse_packet s) = 3" and "on_text (pointer s)" and "mouse_bytes bs s q = (s', q')"
  shows "pointer s' = foldl step_to (pointer s) (packets bs) \<and> on_text (pointer s') \<and> q' = foldl post_packet q (packets bs) \<and>
    g_mouse_rx s' = g_mouse_rx s + word_of_nat (length (packets bs))"
  using assms
proof (induction bs arbitrary: s q rule: packets.induct)
  case (1 b dx dy bs)
  show ?case
  proof (cases "header b")
    case True
    obtain s1 where s1: "mouse_bytes (b # dx # dy # bs) s q = mouse_bytes bs s1 (post_packet q (b, dx, dy))"
      "g_mouse_packet_byte s1 = 0" "length (g_mouse_packet s1) = 3" "pointer s1 = step_to (pointer s) (b, dx, dy)" "g_mouse_rx s1 = g_mouse_rx s + 1"
      using three_bytes [OF True 1(3-5)] by blast
    have "on_text (pointer s1)" unfolding s1(4) by (rule step_on_text)
    have run: "mouse_bytes bs s1 (post_packet q (b, dx, dy)) = (s', q')" using 1(6) s1(1) by simp
    have "g_mouse_rx s1 + word_of_nat n = g_mouse_rx s + word_of_nat (Suc n)" for n by (simp add: s1(5))
    then show ?thesis using 1(1) [OF True s1(2,3) \<open>on_text (pointer s1)\<close> run] True unfolding s1(4) by auto
  next
    case False
    let ?s = "s\<lparr>g_mouse_bad := g_mouse_bad s + 1\<rparr>"
    have "pointer ?s = pointer s" by (simp add: pointer_def)
    moreover have "mouse_bytes (dx # dy # bs) ?s q = (s', q')" using 1(6) skipped_byte [OF False 1(3)] by metis
    ultimately show ?thesis using 1(2) [OF False, of ?s q] 1(3-5) False by (auto simp del: mouse_bytes.simps)
  qed
next
  case (3 v)
  then show ?case using short_bytes [of "[v]" s q s' q'] by (simp add: pointer_def del: mouse_bytes.simps)
next
  case (4 v w)
  then show ?case using short_bytes [of "[v, w]" s q s' q'] by (simp add: pointer_def del: mouse_bytes.simps)
qed simp

theorem mouse_stream_decoded_witness:
  "\<exists>s' q'. mouse_bytes [0, 0x08, 40, 20, 0x29, 0, 0x9C]
      \<lparr>g_mouse_state = \<lparr>m_x = 75, m_y = 1, m_buttons = 0, m_dx = 0, m_dy = 0, m_packet_ready = 0\<rparr>, g_mouse_packet = [0, 0, 0], g_mouse_packet_byte = 0, g_mouse_rx = 0, g_mouse_bad = 0\<rparr>
      \<lparr>g_key_queue = [], g_key_head = 0, g_key_tail = 0, g_mouse_queue = replicate 32 (TUI_EV_MOUSE 0 0 0), g_mouse_head = 0, g_mouse_tail = 0, g_queue_overflow = 0\<rparr> = (s', q') \<and>
    pointer s' = (79, 5) \<and> on_text (pointer s')"
proof -
  let ?s = "\<lparr>g_mouse_state = \<lparr>m_x = 75, m_y = 1, m_buttons = 0, m_dx = 0, m_dy = 0, m_packet_ready = 0\<rparr>, g_mouse_packet = [0, 0, 0], g_mouse_packet_byte = 0, g_mouse_rx = 0, g_mouse_bad = 0\<rparr>"
  let ?q = "\<lparr>g_key_queue = [], g_key_head = 0, g_key_tail = 0, g_mouse_queue = replicate 32 (TUI_EV_MOUSE 0 0 0), g_mouse_head = 0, g_mouse_tail = 0, g_queue_overflow = 0\<rparr>"
  let ?bs = "[0, 0x08, 40, 20, 0x29, 0, 0x9C]"
  have p: "on_text (pointer ?s)" "foldl step_to (pointer ?s) (packets ?bs) = (79, 5)" by code_simp+
  obtain s' q' where r: "mouse_bytes ?bs ?s ?q = (s', q')" by (cases "mouse_bytes ?bs ?s ?q")
  have "pointer s' = (79, 5)" "on_text (pointer s')" using mouse_stream_decoded [OF _ _ p(1) r] unfolding p(2) by auto
  then show ?thesis using r by blast
qed

text \<open>
  The sign bit of a movement fills bits 4 to 7 only, whatever they were: 100 to the left (0x9C with the sign bit) is read as 4 to the left, one cell.
\<close>

lemma mouse_sign_extension: "movement True 0x9C = - 1" "(- 100 :: int) sdiv 4 = - 25" "sint (0x9C :: u8) = - 100"
  by code_simp+

end
