(* ===== verification/Tui_Core.thy ===== *)
theory Tui_Core
  imports Keyboard Console Heap
begin

text \<open>
  Surfaces of character cells (\<open>Kernel/tui/tui_core.c\<close>). A surface holds the address of its array of
  cells, which is null when there is no memory, and the array; its size is what was asked of the heap. The
  functions that copy between two surfaces take them as separate values. \<open>None\<close> stands for an access outside
  an array.
\<close>

section \<open>Colours and surfaces\<close>

definition TUI_WIDTH :: nat where "TUI_WIDTH = 80"
definition TUI_HEIGHT :: nat where "TUI_HEIGHT = 25"

datatype tui_color_t = TUI_BLACK | TUI_BLUE | TUI_GREEN | TUI_CYAN | TUI_RED | TUI_MAGENTA | TUI_BROWN | TUI_LIGHT_GRAY
  | TUI_DARK_GRAY | TUI_LIGHT_BLUE | TUI_LIGHT_GREEN | TUI_LIGHT_CYAN | TUI_LIGHT_RED | TUI_LIGHT_MAGENTA | TUI_YELLOW | TUI_WHITE

fun color_code :: "tui_color_t \<Rightarrow> u8" where
  "color_code TUI_BLACK = 0"
| "color_code TUI_BLUE = 1"
| "color_code TUI_GREEN = 2"
| "color_code TUI_CYAN = 3"
| "color_code TUI_RED = 4"
| "color_code TUI_MAGENTA = 5"
| "color_code TUI_BROWN = 6"
| "color_code TUI_LIGHT_GRAY = 7"
| "color_code TUI_DARK_GRAY = 8"
| "color_code TUI_LIGHT_BLUE = 9"
| "color_code TUI_LIGHT_GREEN = 10"
| "color_code TUI_LIGHT_CYAN = 11"
| "color_code TUI_LIGHT_RED = 12"
| "color_code TUI_LIGHT_MAGENTA = 13"
| "color_code TUI_YELLOW = 14"
| "color_code TUI_WHITE = 15"

definition tui_make_attr :: "tui_color_t \<Rightarrow> tui_color_t \<Rightarrow> u8" where
  "tui_make_attr fg bg = push_bit 4 (color_code bg) OR color_code fg"

definition tui_theme_attr :: "nat \<Rightarrow> u8" where
  "tui_theme_attr element =
     (if element = 0 then tui_make_attr TUI_LIGHT_GRAY TUI_BLACK
      else if element = 1 then tui_make_attr TUI_CYAN TUI_BLACK
      else if element = 2 then tui_make_attr TUI_WHITE TUI_BLUE
      else if element = 3 then tui_make_attr TUI_LIGHT_GRAY TUI_BLUE
      else if element = 4 then tui_make_attr TUI_LIGHT_GRAY TUI_BLACK
      else if element = 5 then tui_make_attr TUI_WHITE TUI_BLACK
      else if element = 6 then tui_make_attr TUI_LIGHT_RED TUI_BLACK
      else if element = 7 then tui_make_attr TUI_LIGHT_GREEN TUI_BLACK
      else tui_make_attr TUI_LIGHT_GRAY TUI_BLACK)"

record tui_cell_t =
  cell_ch :: u8
  cell_attr :: u8

record tui_surface_t =
  surf_ptr :: u32
  surf_cells :: "tui_cell_t list"
  surf_width :: u16
  surf_height :: u16

section \<open>Operations\<close>

text \<open>The loop that gives one cell value to a run of cells.\<close>

fun clear_cells :: "nat list \<Rightarrow> tui_cell_t \<Rightarrow> tui_cell_t list \<Rightarrow> tui_cell_t list option" where
  "clear_cells [] c m = Some m"
| "clear_cells (i # is) c m = do { m1 \<leftarrow> arr_set m i c; clear_cells is c m1 }"

definition tui_surface_clear :: "u8 \<Rightarrow> tui_surface_t \<Rightarrow> tui_surface_t option" where
  "tui_surface_clear a s =
     (if surf_ptr s = 0 then Some s
      else do { m \<leftarrow> clear_cells [0 ..< unat (surf_width s) * unat (surf_height s)] \<lparr>cell_ch = 32, cell_attr = a\<rparr> (surf_cells s);
                Some (s\<lparr>surf_cells := m\<rparr>) })"

text \<open>The cells of a fresh block of memory.\<close>

definition raw_cells :: "(u32 \<Rightarrow> u8) \<Rightarrow> u32 \<Rightarrow> nat \<Rightarrow> tui_cell_t list" where
  "raw_cells m p n = map (\<lambda>i. \<lparr>cell_ch = m (p + word_of_nat (2 * i)), cell_attr = m (p + word_of_nat (2 * i) + 1)\<rparr>) [0 ..< n]"

definition tui_surface_init :: "u16 \<Rightarrow> u16 \<Rightarrow> heap_t \<Rightarrow> (tui_surface_t \<times> heap_t) option" where
  "tui_surface_init w h hp =
     (let size = (ucast w * ucast h) * 2 :: u32 in
      do { (p, hp1) \<leftarrow> kmalloc size hp;
           let s = \<lparr>surf_ptr = p, surf_cells = (if p = 0 then [] else raw_cells (hmem hp1) p (unat size div 2)), surf_width = w, surf_height = h\<rparr>;
           if p \<noteq> 0 then do { s1 \<leftarrow> tui_surface_clear (tui_make_attr TUI_LIGHT_GRAY TUI_BLACK) s; Some (s1, hp1) }
           else Some (s, hp1) })"

fun write_text :: "nat \<Rightarrow> bytes \<Rightarrow> nat \<Rightarrow> u8 \<Rightarrow> tui_cell_t list \<Rightarrow> tui_cell_t list option" where
  "write_text n [] pos a m = Some m"
| "write_text n (c # cs) pos a m =
     (if pos < n then do { m1 \<leftarrow> arr_set m pos \<lparr>cell_ch = c, cell_attr = a\<rparr>; write_text n cs (pos + 1) a m1 } else Some m)"

text \<open>A text is given without its NUL; a null pointer is \<open>None\<close>.\<close>

definition tui_surface_write :: "u16 \<Rightarrow> u16 \<Rightarrow> bytes option \<Rightarrow> u8 \<Rightarrow> tui_surface_t \<Rightarrow> tui_surface_t option" where
  "tui_surface_write row col text a s =
     (case text of
        None \<Rightarrow> Some s
      | Some cs \<Rightarrow>
          if surf_ptr s = 0 \<or> row \<ge> surf_height s then Some s
          else do { m \<leftarrow> write_text (unat (surf_width s) * unat (surf_height s)) cs
                           (unat row * unat (surf_width s) + unat col) a (surf_cells s);
                    Some (s\<lparr>surf_cells := m\<rparr>) })"

definition tui_surface_put :: "u16 \<Rightarrow> u16 \<Rightarrow> u8 \<Rightarrow> u8 \<Rightarrow> tui_surface_t \<Rightarrow> tui_surface_t option" where
  "tui_surface_put row col c a s =
     (if surf_ptr s = 0 \<or> row \<ge> surf_height s \<or> col \<ge> surf_width s then Some s
      else do { m \<leftarrow> arr_set (surf_cells s) (unat row * unat (surf_width s) + unat col) \<lparr>cell_ch = c, cell_attr = a\<rparr>;
                Some (s\<lparr>surf_cells := m\<rparr>) })"

text \<open>One row of a copy, then all rows.\<close>

fun blit_row :: "tui_surface_t \<Rightarrow> u16 \<Rightarrow> u16 \<Rightarrow> u16 \<Rightarrow> u16 \<Rightarrow> nat list \<Rightarrow> tui_surface_t \<Rightarrow> tui_surface_t option" where
  "blit_row src sr dr src_col dst_col [] dst = Some dst"
| "blit_row src sr dr src_col dst_col (c # cs) dst =
     (let sc = src_col + word_of_nat c; dc = dst_col + word_of_nat c in
      if sc \<ge> surf_width src \<or> dc \<ge> surf_width dst then blit_row src sr dr src_col dst_col cs dst
      else do { v \<leftarrow> arr_get (surf_cells src) (unat sr * unat (surf_width src) + unat sc);
                m \<leftarrow> arr_set (surf_cells dst) (unat dr * unat (surf_width dst) + unat dc) v;
                blit_row src sr dr src_col dst_col cs (dst\<lparr>surf_cells := m\<rparr>) })"

fun blit_rows :: "tui_surface_t \<Rightarrow> u16 \<Rightarrow> u16 \<Rightarrow> u16 \<Rightarrow> u16 \<Rightarrow> nat \<Rightarrow> nat list \<Rightarrow> tui_surface_t \<Rightarrow> tui_surface_t option" where
  "blit_rows src src_row src_col dst_row dst_col width [] dst = Some dst"
| "blit_rows src src_row src_col dst_row dst_col width (r # rs) dst =
     (let sr = src_row + word_of_nat r; dr = dst_row + word_of_nat r in
      if sr \<ge> surf_height src \<or> dr \<ge> surf_height dst then blit_rows src src_row src_col dst_row dst_col width rs dst
      else do { d1 \<leftarrow> blit_row src sr dr src_col dst_col [0 ..< width] dst;
                blit_rows src src_row src_col dst_row dst_col width rs d1 })"

definition tui_surface_blit_to ::
  "tui_surface_t \<Rightarrow> u16 \<Rightarrow> u16 \<Rightarrow> u16 \<Rightarrow> u16 \<Rightarrow> u16 \<Rightarrow> u16 \<Rightarrow> tui_surface_t \<Rightarrow> tui_surface_t option" where
  "tui_surface_blit_to src src_row src_col dst_row dst_col width height dst =
     (if surf_ptr src = 0 \<or> surf_ptr dst = 0 then Some dst
      else blit_rows src src_row src_col dst_row dst_col (unat width) [0 ..< unat height] dst)"

section \<open>Bounds\<close>

text \<open>A surface that has cells has all of them.\<close>

definition surf_ok :: "tui_surface_t \<Rightarrow> bool" where
  "surf_ok s \<longleftrightarrow> surf_ptr s \<noteq> 0 \<and> length (surf_cells s) = unat (surf_width s) * unat (surf_height s)"

definition cell_at :: "tui_surface_t \<Rightarrow> nat \<Rightarrow> nat \<Rightarrow> tui_cell_t" where
  "cell_at s r c = surf_cells s ! (r * unat (surf_width s) + c)"

lemma grid_index: "r < h \<Longrightarrow> c < w \<Longrightarrow> r * w + c < w * (h :: nat)"
proof -
  assume "r < h" "c < w"
  then have "r * w + c < Suc r * w" by simp
  also have "\<dots> \<le> h * w" using \<open>r < h\<close> by (intro mult_le_mono1) simp
  finally show ?thesis by (simp add: mult.commute)
qed

lemma grid_index_eq:
  assumes "c < w" "c' < (w :: nat)"
  shows "r * w + c = r' * w + c' \<longleftrightarrow> r = r' \<and> c = c'"
proof
  assume e: "r * w + c = r' * w + c'"
  have "(r * w + c) div w = r" "(r' * w + c') div w = r'" using assms by simp_all
  then have "r = r'" using e by metis
  then show "r = r' \<and> c = c'" using e by simp
qed simp

lemma clear_cells_all:
  "\<forall>i \<in> set is. i < length m \<Longrightarrow> \<exists>m'. clear_cells is c m = Some m' \<and> length m' = length m \<and>
    (\<forall>j < length m. m' ! j = (if j \<in> set is then c else m ! j))"
proof (induction "is" arbitrary: m)
  case (Cons i "is")
  obtain m' where "clear_cells is c (m[i := c]) = Some m'" "length m' = length m" "\<forall>j < length m. m' ! j = (if j \<in> set is then c else m[i := c] ! j)"
    using Cons.IH [of "m[i := c]"] Cons.prems by auto
  then show ?case using Cons.prems by (auto simp: arr_rules nth_list_update)
qed simp

lemma surface_clear_ok:
  assumes "surf_ok s"
  shows "\<exists>s'. tui_surface_clear a s = Some s' \<and> surf_ok s' \<and> surf_width s' = surf_width s \<and> surf_height s' = surf_height s \<and> surf_ptr s' = surf_ptr s \<and>
    (\<forall>r < unat (surf_height s). \<forall>c < unat (surf_width s). cell_at s' r c = \<lparr>cell_ch = 32, cell_attr = a\<rparr>)"
proof -
  let ?n = "unat (surf_width s) * unat (surf_height s)"
  obtain m' where m': "clear_cells [0 ..< ?n] \<lparr>cell_ch = 32, cell_attr = a\<rparr> (surf_cells s) = Some m'" "length m' = ?n"
    "\<forall>j < ?n. m' ! j = \<lparr>cell_ch = 32, cell_attr = a\<rparr>"
    using clear_cells_all [of "[0 ..< ?n]" "surf_cells s" "\<lparr>cell_ch = 32, cell_attr = a\<rparr>"] assms by (auto simp: surf_ok_def)
  then show ?thesis using assms by (auto simp: tui_surface_clear_def surf_ok_def cell_at_def grid_index)
qed

lemma surface_put_ok:
  assumes "surf_ok s"
  shows "\<exists>s'. tui_surface_put row col ch a s = Some s' \<and> surf_ok s' \<and> surf_width s' = surf_width s \<and> surf_height s' = surf_height s \<and> surf_ptr s' = surf_ptr s \<and>
    (\<forall>r < unat (surf_height s). \<forall>c < unat (surf_width s).
      cell_at s' r c = (if r = unat row \<and> c = unat col then \<lparr>cell_ch = ch, cell_attr = a\<rparr> else cell_at s r c))"
proof (cases "row \<ge> surf_height s \<or> col \<ge> surf_width s")
  case True
  then show ?thesis using assms by (auto simp: tui_surface_put_def word_le_nat_alt)
next
  case False
  then have rc: "unat row < unat (surf_height s)" "unat col < unat (surf_width s)" by (auto simp: word_less_nat_alt word_le_nat_alt not_le)
  let ?i = "unat row * unat (surf_width s) + unat col"
  have i: "?i < length (surf_cells s)" using assms grid_index [OF rc] by (simp add: surf_ok_def)
  have "cell_at (s\<lparr>surf_cells := (surf_cells s)[?i := v]\<rparr>) r c = (if r = unat row \<and> c = unat col then v else cell_at s r c)"
    if "r < unat (surf_height s)" "c < unat (surf_width s)" for r c v
    using that rc i grid_index_eq [OF rc(2) that(2), of "unat row" r] by (auto simp: cell_at_def nth_list_update)
  then show ?thesis using False i assms by (auto simp: tui_surface_put_def arr_rules surf_ok_def)
qed

end
