(* ===== verification/Tui_Wm.thy ===== *)
theory Tui_Wm
  imports Tui_Core Mouse
begin

text \<open>
  The window manager (\<open>Kernel/tui/tui_wm.c\<close>) and the composition of the screen (\<open>tui_composite\<close> in
  \<open>Kernel/tui/tui_core.c\<close>).

  A window is known by the address of its structure; \<open>wins\<close> holds the structures that are allocated, so that
  a pointer to a window that has been destroyed has no structure, and using it has no defined result
  (\<open>None\<close>). The applications' callbacks and the two functions of the shell that open windows are
  arguments: they may change the whole state. The event that is being handled is a copy of the
  slot of the queue. Log output is not modelled; what it reads of a window is.
\<close>

section \<open>State\<close>

definition MAX_WINDOWS :: nat where "MAX_WINDOWS = 16"
definition MAX_TITLE_LEN :: nat where "MAX_TITLE_LEN = 32"
definition SIZEOF_WIN :: u32 where "SIZEOF_WIN = 68"

record tui_win_t =
  win_x :: u16
  win_y :: u16
  win_w :: u16
  win_h :: u16
  win_title :: bytes
  win_content :: tui_surface_t
  win_visible :: bool
  win_focused :: bool
  win_z :: u8
  win_pinned :: bool
  win_app_data :: u32
  win_on_draw :: "nat option"
  win_on_key :: "nat option"
  win_on_mouse :: "nat option"

record wm =
  g_windows :: "u32 list"
  g_num_windows :: u8
  g_focused :: u32
  g_next_z :: u8
  wins :: "u32 \<Rightarrow> tui_win_t option"
  wheap :: heap_t
  queues :: wm_queues
  wmouse :: mouse
  dragging :: bool
  drag_win :: u32
  drag_offset_x :: int
  drag_offset_y :: int
  screen_addr :: u32
  g_screen :: tui_surface_t
  g_screen_cells :: "tui_cell_t list"
  g_cursor_row :: u16
  g_cursor_col :: u16
  g_cursor_visible :: bool
  vga_text :: "u16 list"

text \<open>The code of the applications: callbacks by number, and the windows that function keys open.\<close>

record apps =
  app_draw :: "nat \<Rightarrow> u32 \<Rightarrow> wm \<Rightarrow> wm option"
  app_key :: "nat \<Rightarrow> u32 \<Rightarrow> tui_event_t \<Rightarrow> wm \<Rightarrow> wm option"
  tui_shell_open_about :: "wm \<Rightarrow> wm option"
  tui_shell_open_clock :: "wm \<Rightarrow> wm option"

text \<open>Writing a field of the window at an address.\<close>

definition upd_win :: "u32 \<Rightarrow> (tui_win_t \<Rightarrow> tui_win_t) \<Rightarrow> wm \<Rightarrow> wm option" where
  "upd_win p f s = do { w \<leftarrow> wins s p; Some (s\<lparr>wins := (wins s)(p := Some (f w))\<rparr>) }"

definition tui_wm_init :: "wm \<Rightarrow> wm" where
  "tui_wm_init s =
     s\<lparr>g_num_windows := 0, g_focused := 0, g_next_z := 1,
       queues := (queues s)\<lparr>g_key_head := 0, g_key_tail := 0, g_mouse_head := 0, g_mouse_tail := 0, g_queue_overflow := 0\<rparr>,
       g_windows := replicate MAX_WINDOWS 0\<rparr>"

definition tui_wm_window_count :: "wm \<Rightarrow> u8" where
  "tui_wm_window_count s = g_num_windows s"

section \<open>Windows\<close>

definition tui_win_raise :: "u32 \<Rightarrow> wm \<Rightarrow> wm option" where
  "tui_win_raise p s =
     (if p = 0 then Some s
      else do {
        w \<leftarrow> wins s p;
        let s1 = (if \<not> win_pinned w then s\<lparr>wins := (wins s)(p := Some (w\<lparr>win_z := g_next_z s\<rparr>)), g_next_z := g_next_z s + 1\<rparr> else s);
        if g_focused s1 \<noteq> p
        then do { s2 \<leftarrow> (if g_focused s1 \<noteq> 0 then upd_win (g_focused s1) (\<lambda>w. w\<lparr>win_focused := False\<rparr>) s1 else Some s1);
                  s3 \<leftarrow> upd_win p (\<lambda>w. w\<lparr>win_focused := True\<rparr>) s2;
                  Some (s3\<lparr>g_focused := p\<rparr>) }
        else Some s1 })"

definition centred :: "nat \<Rightarrow> u16 \<Rightarrow> u16" where
  "centred n w = ucast ((word_of_nat n - ucast w :: u32) div 2)"

definition tui_win_create :: "bytes option \<Rightarrow> u16 \<Rightarrow> u16 \<Rightarrow> wm \<Rightarrow> (u32 \<times> wm) option" where
  "tui_win_create title w h s =
     (if unat (g_num_windows s) \<ge> MAX_WINDOWS then Some (0, s)
      else do {
        (p, h1) \<leftarrow> kmalloc SIZEOF_WIN (wheap s);
        if p = 0 then Some (0, s\<lparr>wheap := h1\<rparr>)
        else do {
          (surf, h2) \<leftarrow> tui_surface_init w h h1;
          if surf_ptr surf = 0 then do { h3 \<leftarrow> kfree p h2; Some (0, s\<lparr>wheap := h3\<rparr>) }
          else do {
            let win = \<lparr>win_x = centred TUI_WIDTH w, win_y = centred TUI_HEIGHT h, win_w = w, win_h = h,
              win_title = (case title of None \<Rightarrow> [] | Some t \<Rightarrow> take (MAX_TITLE_LEN - 1) t),
              win_content = surf, win_visible = True, win_focused = False, win_z = g_next_z s, win_pinned = False,
              win_app_data = 0, win_on_draw = None, win_on_key = None, win_on_mouse = None\<rparr>;
            ws \<leftarrow> arr_set (g_windows s) (unat (g_num_windows s)) p;
            let s1 = s\<lparr>wheap := h2, g_next_z := g_next_z s + 1, wins := (wins s)(p := Some win), g_windows := ws,
              g_num_windows := g_num_windows s + 1\<rparr>;
            s2 \<leftarrow> tui_win_raise p s1;
            Some (p, s2) } } })"

text \<open>The search for the window that gets the focus, from the last one down, and the index of a window.\<close>

fun refocus :: "u32 \<Rightarrow> nat \<Rightarrow> wm \<Rightarrow> wm option" where
  "refocus p 0 s = Some s"
| "refocus p (Suc j) s =
     do { q \<leftarrow> arr_get (g_windows s) j;
          if q \<noteq> 0 \<and> q \<noteq> p
          then do { w \<leftarrow> wins s q;
                    if win_visible w then upd_win q (\<lambda>w. w\<lparr>win_focused := True\<rparr>) (s\<lparr>g_focused := q\<rparr>) else refocus p j s }
          else refocus p j s }"

fun win_index :: "u32 list \<Rightarrow> u32 \<Rightarrow> nat list \<Rightarrow> nat option option" where
  "win_index ws p [] = Some None"
| "win_index ws p (i # is) = do { q \<leftarrow> arr_get ws i; if q = p then Some (Some i) else win_index ws p is }"

fun shift_down :: "nat list \<Rightarrow> u32 list \<Rightarrow> u32 list option" where
  "shift_down [] ws = Some ws"
| "shift_down (j # js) ws = do { q \<leftarrow> arr_get ws (j + 1); ws1 \<leftarrow> arr_set ws j q; shift_down js ws1 }"

definition tui_win_destroy :: "u32 \<Rightarrow> wm \<Rightarrow> wm option" where
  "tui_win_destroy p s =
     (if p = 0 then Some s
      else do {
        w \<leftarrow> wins s p;
        r \<leftarrow> win_index (g_windows s) p [0 ..< unat (g_num_windows s)];
        case r of
          None \<Rightarrow> Some s
        | Some i \<Rightarrow> do {
            h1 \<leftarrow> (if surf_ptr (win_content w) \<noteq> 0 then kfree (surf_ptr (win_content w)) (wheap s) else Some (wheap s));
            let s1 = s\<lparr>wheap := h1\<rparr>;
            s2 \<leftarrow> (if g_focused s1 = p then refocus p (unat (g_num_windows s)) (s1\<lparr>g_focused := 0\<rparr>) else Some s1);
            ws \<leftarrow> shift_down [i ..< unat (g_num_windows s) - 1] (g_windows s2);
            ws1 \<leftarrow> arr_set ws (unat (g_num_windows s) - 1) 0;
            h2 \<leftarrow> kfree p (wheap s2);
            Some (s2\<lparr>g_windows := ws1, g_num_windows := g_num_windows s2 - 1, wheap := h2, wins := (wins s2)(p := None)\<rparr>) } })"

text \<open>A coordinate kept on the screen: the new value is a 16-bit signed number.\<close>

definition on_screen :: "nat \<Rightarrow> u16 \<Rightarrow> u16 \<Rightarrow> u16" where
  "on_screen n extent v =
     (let v1 = (if sint v < 0 then 0 else v) in
      if sint v1 + int (unat extent) > int n then word_of_nat n - extent else v1)"

definition tui_win_move :: "u32 \<Rightarrow> u16 \<Rightarrow> u16 \<Rightarrow> wm \<Rightarrow> wm option" where
  "tui_win_move p dx dy s =
     (if p = 0 then Some s
      else upd_win p (\<lambda>w. w\<lparr>win_x := on_screen TUI_WIDTH (win_w w) (win_x w + dx), win_y := on_screen TUI_HEIGHT (win_h w) (win_y w + dy)\<rparr>) s)"

definition tui_win_set_focus :: "u32 \<Rightarrow> wm \<Rightarrow> wm option" where
  "tui_win_set_focus p s =
     (if p = 0 then Some s
      else do {
        s1 \<leftarrow> (if g_focused s \<noteq> 0 then upd_win (g_focused s) (\<lambda>w. w\<lparr>win_focused := False\<rparr>) s else Some s);
        s2 \<leftarrow> upd_win p (\<lambda>w. w\<lparr>win_focused := True\<rparr>) s1;
        tui_win_raise p (s2\<lparr>g_focused := p\<rparr>) })"

text \<open>The loop that skips windows which cannot get the focus.\<close>

partial_function (option) cycle_next :: "wm \<Rightarrow> int \<Rightarrow> nat \<Rightarrow> nat option" where
  "cycle_next s start next =
     (if int next = start then Some next
      else do {
        q \<leftarrow> arr_get (g_windows s) next;
        skip \<leftarrow> (if q = 0 then Some True else do { w \<leftarrow> wins s q; Some (\<not> win_visible w) });
        if skip then cycle_next s start ((next + 1) mod unat (g_num_windows s)) else Some next })"

declare cycle_next.simps [code]

definition tui_win_cycle_focus :: "wm \<Rightarrow> wm option" where
  "tui_win_cycle_focus s =
     (if g_num_windows s = 0 then Some s
      else do {
        r \<leftarrow> win_index (g_windows s) (g_focused s) [0 ..< unat (g_num_windows s)];
        let start = (case r of None \<Rightarrow> - 1 | Some i \<Rightarrow> int i);
        next \<leftarrow> cycle_next s start (nat (start + 1) mod unat (g_num_windows s));
        if int next \<noteq> start
        then do { q \<leftarrow> arr_get (g_windows s) next; if q \<noteq> 0 then tui_win_set_focus q s else Some s }
        else Some s })"

definition win_contains :: "tui_win_t \<Rightarrow> u16 \<Rightarrow> u16 \<Rightarrow> bool" where
  "win_contains w x y \<longleftrightarrow> win_visible w \<and>
     x \<ge> win_x w \<and> unat x < unat (win_x w) + unat (win_w w) \<and> y \<ge> win_y w \<and> unat y < unat (win_y w) + unat (win_h w)"

text \<open>The two loops of \<open>win_at\<close>; a null pointer is 0.\<close>

fun best_at :: "u16 \<Rightarrow> u16 \<Rightarrow> wm \<Rightarrow> nat list \<Rightarrow> u32 \<Rightarrow> u32 option" where
  "best_at x y s [] best = Some best"
| "best_at x y s (i # is) best =
     do { q \<leftarrow> arr_get (g_windows s) i;
          if q = 0 then best_at x y s is best
          else do { w \<leftarrow> wins s q;
                    if win_pinned w \<or> \<not> win_contains w x y then best_at x y s is best
                    else if best = 0 then best_at x y s is q
                    else do { b \<leftarrow> wins s best; best_at x y s is (if win_z w > win_z b then q else best) } } }"

fun first_at :: "u16 \<Rightarrow> u16 \<Rightarrow> wm \<Rightarrow> nat list \<Rightarrow> u32 option" where
  "first_at x y s [] = Some 0"
| "first_at x y s (i # is) =
     do { q \<leftarrow> arr_get (g_windows s) i;
          if q = 0 then first_at x y s is
          else do { w \<leftarrow> wins s q; if win_contains w x y then Some q else first_at x y s is } }"

definition win_at :: "u16 \<Rightarrow> u16 \<Rightarrow> wm \<Rightarrow> u32 option" where
  "win_at x y s =
     do { best \<leftarrow> best_at x y s [0 ..< unat (g_num_windows s)] 0;
          if best \<noteq> 0 then Some best else first_at x y s [0 ..< unat (g_num_windows s)] }"

section \<open>The screen\<close>

text \<open>A sequence of cells put on a surface.\<close>

fun put_seq :: "(u16 \<times> u16 \<times> u8 \<times> u8) list \<Rightarrow> tui_surface_t \<Rightarrow> tui_surface_t option" where
  "put_seq [] s = Some s"
| "put_seq ((r, c, ch, a) # ps) s = do { s1 \<leftarrow> tui_surface_put r c ch a s; put_seq ps s1 }"

text \<open>The frame, the sides and the title of a window.\<close>

definition frame_cells :: "tui_win_t \<Rightarrow> (u16 \<times> u16 \<times> u8 \<times> u8) list" where
  "frame_cells w =
     (let a = (if win_focused w then tui_theme_attr 2 else tui_theme_attr 3);
          top = (\<lambda>c. if c = 0 then 0xDA else if c = unat (win_w w) - 1 then 0xBF else 0xC4);
          bot = (\<lambda>c. if c = 0 then 0xC0 else if c = unat (win_w w) - 1 then 0xD9 else 0xC4);
          len = length (win_title w);
          tlen = (if unat (win_w w) \<ge> 2 \<and> len > unat (win_w w) - 2 then unat (win_w w) - 2 else len)
      in concat (map (\<lambda>c. [(win_y w, win_x w + word_of_nat c, top c, a),
                           (win_y w + win_h w - 1, win_x w + word_of_nat c, bot c, a)]) [0 ..< unat (win_w w)]) @
         concat (map (\<lambda>r. [(win_y w + word_of_nat r, win_x w, 0xB3, a),
                           (win_y w + word_of_nat r, win_x w + win_w w - 1, 0xB3, a)]) [1 ..< unat (win_h w) - 1]) @
         map (\<lambda>i. (win_y w, win_x w + 1 + word_of_nat i, win_title w ! i, a)) [0 ..< tlen])"

fun copy_content :: "tui_win_t \<Rightarrow> (nat \<times> nat) list \<Rightarrow> tui_surface_t \<Rightarrow> tui_surface_t option" where
  "copy_content w [] s = Some s"
| "copy_content w ((r, c) # ps) s =
     do { v \<leftarrow> arr_get (surf_cells (win_content w)) (r * unat (win_w w) + c);
          s1 \<leftarrow> tui_surface_put (win_y w + word_of_nat r) (win_x w + word_of_nat c) (cell_ch v) (cell_attr v) s;
          copy_content w ps s1 }"

definition inner :: "tui_win_t \<Rightarrow> (nat \<times> nat) list" where
  "inner w = concat (map (\<lambda>r. map (\<lambda>c. (r, c)) [1 ..< unat (win_w w) - 1]) [1 ..< unat (win_h w) - 1])"

definition draw_window_border :: "apps \<Rightarrow> u32 \<Rightarrow> wm \<Rightarrow> wm option" where
  "draw_window_border app p s =
     do { w \<leftarrow> wins s p;
          scr \<leftarrow> put_seq (frame_cells w) (g_screen s);
          let s1 = s\<lparr>g_screen := scr\<rparr>;
          s2 \<leftarrow> (case win_on_draw w of None \<Rightarrow> Some s1 | Some cb \<Rightarrow> app_draw app cb p s1);
          w2 \<leftarrow> wins s2 p;
          scr2 \<leftarrow> copy_content w2 (inner w2) (g_screen s2);
          Some (s2\<lparr>g_screen := scr2\<rparr>) }"

text \<open>The windows of one layer, then all layers. The counter of the layers has eight bits.\<close>

function draw_layer :: "apps \<Rightarrow> u8 \<Rightarrow> nat \<Rightarrow> wm \<Rightarrow> wm option" where
  "draw_layer app z i s =
     (if i < unat (g_num_windows s)
      then do {
        p \<leftarrow> arr_get (g_windows s) i;
        s1 \<leftarrow> (if p = 0 then Some s
               else do { w \<leftarrow> wins s p; if win_visible w \<and> win_z w = z then draw_window_border app p s else Some s });
        draw_layer app z (Suc i) s1 }
      else Some s)"
  by pat_completeness auto
termination
proof (relation "measure (\<lambda>(app, z, i, s). 256 - i)", goal_cases)
  case (2 app z i s)
  then have "i < 256" using unat_less_len [of "g_num_windows s"] by simp
  then show ?case by simp
qed simp

declare draw_layer.simps [simp del]

partial_function (option) draw_layers :: "apps \<Rightarrow> u8 \<Rightarrow> wm \<Rightarrow> wm option" where
  "draw_layers app z s =
     (if z \<le> g_next_z s then do { s1 \<leftarrow> draw_layer app z 0 s; draw_layers app (z + 1) s1 } else Some s)"

declare draw_layers.simps [code]

definition tui_wm_composite :: "apps \<Rightarrow> wm \<Rightarrow> wm option" where
  "tui_wm_composite app s =
     do { scr \<leftarrow> tui_surface_clear (tui_theme_attr 0) (g_screen s);
          draw_layers app 1 (s\<lparr>g_screen := scr\<rparr>) }"

definition show_cursor :: "wm \<Rightarrow> tui_cell_t list \<Rightarrow> tui_cell_t list option" where
  "show_cursor s m =
     (if g_cursor_visible s \<and> unat (g_cursor_row s) < TUI_HEIGHT \<and> unat (g_cursor_col s) < TUI_WIDTH
      then (let pos = unat (g_cursor_row s) * TUI_WIDTH + unat (g_cursor_col s) in
            do { c \<leftarrow> arr_get m pos; arr_set m pos (c\<lparr>cell_attr := 0x70\<rparr>) })
      else Some m)"

definition cell_word :: "tui_cell_t \<Rightarrow> u16" where
  "cell_word c = ucast (cell_ch c) OR push_bit 8 (ucast (cell_attr c))"

fun copy_screen :: "nat list \<Rightarrow> tui_cell_t list \<Rightarrow> u16 list \<Rightarrow> u16 list option" where
  "copy_screen [] m v = Some v"
| "copy_screen (i # is) m v = do { c \<leftarrow> arr_get m i; v1 \<leftarrow> arr_set v i (cell_word c); copy_screen is m v1 }"

definition tui_composite :: "apps \<Rightarrow> wm \<Rightarrow> wm option" where
  "tui_composite app s =
     (let scr = \<lparr>surf_ptr = screen_addr s, surf_cells = g_screen_cells s, surf_width = word_of_nat TUI_WIDTH, surf_height = word_of_nat TUI_HEIGHT\<rparr> in
      do { scr1 \<leftarrow> tui_surface_clear (tui_theme_attr 0) scr;
           s1 \<leftarrow> tui_wm_composite app (s\<lparr>g_screen := scr1\<rparr>);
           m \<leftarrow> show_cursor s1 (surf_cells (g_screen s1));
           v \<leftarrow> copy_screen [0 ..< TUI_WIDTH * TUI_HEIGHT] m (vga_text s1);
           Some (s1\<lparr>g_screen := (g_screen s1)\<lparr>surf_cells := m\<rparr>, g_screen_cells := m, vga_text := v\<rparr>) })"

definition tui_cursor_show :: "u16 \<Rightarrow> u16 \<Rightarrow> wm \<Rightarrow> wm" where
  "tui_cursor_show row col s = s\<lparr>g_cursor_row := row, g_cursor_col := col, g_cursor_visible := True\<rparr>"

definition tui_cursor_hide :: "wm \<Rightarrow> wm" where
  "tui_cursor_hide s = s\<lparr>g_cursor_visible := False\<rparr>"

section \<open>The event loop\<close>

definition handle_key :: "apps \<Rightarrow> tui_event_t \<Rightarrow> wm \<Rightarrow> wm option" where
  "handle_key app ev s =
     (let alt = (ev_alt ev \<noteq> 0); ctrl = (ev_ctrl ev \<noteq> 0); sc = ev_scancode ev in
      if \<not> alt \<and> \<not> ctrl \<and> sc = 0x3C then tui_shell_open_about app s
      else if \<not> alt \<and> \<not> ctrl \<and> sc = 0x3D then tui_shell_open_clock app s
      else if \<not> alt \<and> sc = 0x01
      then (if g_focused s \<noteq> 0 \<and> g_num_windows s > 1 then tui_win_destroy (g_focused s) s else Some s)
      else if alt \<and> sc = 0x0F then tui_win_cycle_focus s
      else if alt
      then (if g_focused s = 0 then Some s
            else if sc = 0x48 then tui_win_move (g_focused s) 0 (- 1) s
            else if sc = 0x50 then tui_win_move (g_focused s) 0 1 s
            else if sc = 0x4B then tui_win_move (g_focused s) (- 1) 0 s
            else if sc = 0x4D then tui_win_move (g_focused s) 1 0 s
            else Some s)
      else if g_focused s \<noteq> 0
      then do { w \<leftarrow> wins s (g_focused s);
                case win_on_key w of None \<Rightarrow> Some s | Some cb \<Rightarrow> app_key app cb (g_focused s) ev s }
      else Some s)"

definition drag_to :: "nat \<Rightarrow> u16 \<Rightarrow> u16 \<Rightarrow> int \<Rightarrow> u16" where
  "drag_to n extent cur off = on_screen n extent (word_of_int (sint cur - off))"

definition handle_mouse :: "tui_event_t \<Rightarrow> wm \<Rightarrow> wm option" where
  "handle_mouse ev s =
     (let cur_col = m_x (ps2mouse_get_state (wmouse s)); cur_row = m_y (ps2mouse_get_state (wmouse s)) in
      if ev_buttons ev AND 0x01 \<noteq> 0
      then do {
        hit \<leftarrow> win_at cur_col cur_row s;
        if hit = 0 then Some s
        else do {
          w \<leftarrow> wins s hit;
          if \<not> dragging s
          then do {
            s1 \<leftarrow> tui_win_set_focus hit s;
            w1 \<leftarrow> wins s1 hit;
            if \<not> win_pinned w1 \<and> cur_row = win_y w1 \<and> cur_col \<ge> win_x w1 \<and> unat cur_col < unat (win_x w1) + unat (win_w w1)
            then Some (s1\<lparr>dragging := True, drag_win := hit, drag_offset_x := int (unat cur_col) - int (unat (win_x w1)),
                          drag_offset_y := int (unat cur_row) - int (unat (win_y w1))\<rparr>)
            else Some s1 }
          else if drag_win s \<noteq> 0
          then upd_win (drag_win s) (\<lambda>d. d\<lparr>win_x := drag_to TUI_WIDTH (win_w d) cur_col (drag_offset_x s),
                                          win_y := drag_to TUI_HEIGHT (win_h d) cur_row (drag_offset_y s)\<rparr>) s
          else Some s } }
      else Some (s\<lparr>dragging := False, drag_win := 0\<rparr>))"

partial_function (option) key_loop :: "apps \<Rightarrow> wm \<Rightarrow> wm option" where
  "key_loop app s =
     (case key_queue_get (queues s) of
        (None, q) \<Rightarrow> Some (s\<lparr>queues := q\<rparr>)
      | (Some ev, q) \<Rightarrow> do { s1 \<leftarrow> handle_key app ev (s\<lparr>queues := q\<rparr>); key_loop app s1 })"

partial_function (option) mouse_loop :: "wm \<Rightarrow> wm option" where
  "mouse_loop s =
     (case mouse_queue_get (queues s) of
        (None, q) \<Rightarrow> Some (s\<lparr>queues := q\<rparr>)
      | (Some ev, q) \<Rightarrow> do { s1 \<leftarrow> handle_mouse ev (s\<lparr>queues := q\<rparr>); mouse_loop s1 })"

declare key_loop.simps [code] mouse_loop.simps [code]

text \<open>
  The body of the endless loop of \<open>tui_run\<close>, and a run of it; at each halt the interrupts change the queues
  and the mouse.
\<close>

definition tui_round :: "apps \<Rightarrow> wm \<Rightarrow> wm option" where
  "tui_round app s = do { s1 \<leftarrow> key_loop app s; s2 \<leftarrow> mouse_loop s1; tui_composite app s2 }"

fun tui_run :: "apps \<Rightarrow> (wm \<Rightarrow> wm) list \<Rightarrow> wm \<Rightarrow> wm option" where
  "tui_run app [] s = Some s"
| "tui_run app (irqs # rest) s = do { s1 \<leftarrow> tui_round app s; tui_run app rest (irqs s1) }"

end
