(* ===== verification/Tui_Paint.thy ===== *)
theory Tui_Paint
  imports Tui_Wm
begin

text \<open>
  How a window looks on the screen: the cells that \<open>draw_window_border\<close> puts, as a function of the position in the
  window, and that it changes nothing else on the screen.
\<close>

section \<open>Sequences of cells\<close>

abbreviation cell :: "u8 \<Rightarrow> u8 \<Rightarrow> tui_cell_t" where "cell ch a \<equiv> \<lparr>cell_ch = ch, cell_attr = a\<rparr>"

definition hits :: "nat \<Rightarrow> nat \<Rightarrow> u16 \<times> u16 \<times> u8 \<times> u8 \<Rightarrow> bool" where
  "hits r c e \<longleftrightarrow> unat (fst e) = r \<and> unat (fst (snd e)) = c"

definition entry_cell :: "u16 \<times> u16 \<times> u8 \<times> u8 \<Rightarrow> tui_cell_t" where
  "entry_cell e = cell (fst (snd (snd e))) (snd (snd (snd e)))"

definition last_put :: "(u16 \<times> u16 \<times> u8 \<times> u8) list \<Rightarrow> nat \<Rightarrow> nat \<Rightarrow> tui_cell_t \<Rightarrow> tui_cell_t" where
  "last_put ps r c d = fold (\<lambda>e v. if hits r c e then entry_cell e else v) ps d"

lemma last_put_append: "last_put (ps @ qs) r c d = last_put qs r c (last_put ps r c d)"
  by (simp add: last_put_def)

lemma last_put_none: "(\<And>e. e \<in> set ps \<Longrightarrow> \<not> hits r c e) \<Longrightarrow> last_put ps r c d = d"
  unfolding last_put_def by (induction ps arbitrary: d) auto

lemma last_put_one:
  assumes "\<And>e. e \<in> set ps \<Longrightarrow> hits r c e \<Longrightarrow> entry_cell e = v" and "\<exists>e \<in> set ps. hits r c e"
  shows "last_put ps r c d = v"
proof -
  have "last_put ps r c d = v" if "(\<exists>e \<in> set ps. hits r c e) \<or> d = v" for d
    using assms(1) that unfolding last_put_def by (induction ps arbitrary: d) auto
  then show ?thesis using assms(2) by blast
qed

text \<open>Surfaces of the same size.\<close>

definition same_dims :: "tui_surface_t \<Rightarrow> tui_surface_t \<Rightarrow> bool" where
  "same_dims s s' \<longleftrightarrow> surf_width s' = surf_width s \<and> surf_height s' = surf_height s \<and> surf_ptr s' = surf_ptr s \<and> surf_ok s'"

lemma put_seq_ok:
  assumes "surf_ok s"
  shows "\<exists>s'. put_seq ps s = Some s' \<and> same_dims s s' \<and>
    (\<forall>r < unat (surf_height s). \<forall>c < unat (surf_width s). cell_at s' r c = last_put ps r c (cell_at s r c))"
  using assms
proof (induction ps arbitrary: s)
  case Nil
  then show ?case by (simp add: same_dims_def last_put_def)
next
  case (Cons e ps)
  obtain r0 c0 ch a where e: "e = (r0, c0, ch, a)" by (cases e) auto
  obtain s1 where s1: "tui_surface_put r0 c0 ch a s = Some s1" "same_dims s s1"
    "\<forall>r < unat (surf_height s). \<forall>c < unat (surf_width s). cell_at s1 r c = (if r = unat r0 \<and> c = unat c0 then cell ch a else cell_at s r c)"
    using surface_put_ok [OF Cons.prems, of r0 c0 ch a] by (auto simp: same_dims_def)
  have "surf_ok s1" using s1(2) by (simp add: same_dims_def)
  then obtain s' where s': "put_seq ps s1 = Some s'" "same_dims s1 s'"
    "\<forall>r < unat (surf_height s1). \<forall>c < unat (surf_width s1). cell_at s' r c = last_put ps r c (cell_at s1 r c)"
    using Cons.IH by blast
  have "cell_at s' r c = last_put (e # ps) r c (cell_at s r c)" if "r < unat (surf_height s)" "c < unat (surf_width s)" for r c
    using that s'(3) s1(2,3) by (auto simp: e last_put_def hits_def entry_cell_def same_dims_def)
  then show ?case using s1 s' by (auto simp: e same_dims_def)
qed

section \<open>The look of a window\<close>

text \<open>A window that lies on the screen and has a content of its size.\<close>

definition win_ok :: "tui_win_t \<Rightarrow> bool" where
  "win_ok w \<longleftrightarrow> 2 \<le> unat (win_w w) \<and> 2 \<le> unat (win_h w) \<and> unat (win_x w) + unat (win_w w) \<le> 80 \<and> unat (win_y w) + unat (win_h w) \<le> 25 \<and>
     length (surf_cells (win_content w)) = unat (win_w w) * unat (win_h w)"

definition covers :: "tui_win_t \<Rightarrow> nat \<Rightarrow> nat \<Rightarrow> bool" where
  "covers w r c \<longleftrightarrow> unat (win_y w) \<le> r \<and> r < unat (win_y w) + unat (win_h w) \<and> unat (win_x w) \<le> c \<and> c < unat (win_x w) + unat (win_w w)"

definition win_attr :: "tui_win_t \<Rightarrow> u8" where
  "win_attr w = (if win_focused w then tui_theme_attr 2 else tui_theme_attr 3)"

definition title_len :: "tui_win_t \<Rightarrow> nat" where
  "title_len w = min (length (win_title w)) (unat (win_w w) - 2)"

text \<open>The cell at row \<open>i\<close> and column \<open>j\<close> of the window.\<close>

definition win_cell :: "tui_win_t \<Rightarrow> nat \<Rightarrow> nat \<Rightarrow> tui_cell_t" where
  "win_cell w i j =
     (let W = unat (win_w w); H = unat (win_h w) in
      if i = 0
      then cell (if 1 \<le> j \<and> j \<le> title_len w then win_title w ! (j - 1) else if j = 0 then 0xDA else if j = W - 1 then 0xBF else 0xC4) (win_attr w)
      else if i = H - 1 then cell (if j = 0 then 0xC0 else if j = W - 1 then 0xD9 else 0xC4) (win_attr w)
      else if j = 0 \<or> j = W - 1 then cell 0xB3 (win_attr w)
      else surf_cells (win_content w) ! (i * W + j))"

definition is_inner :: "tui_win_t \<Rightarrow> nat \<Rightarrow> nat \<Rightarrow> bool" where
  "is_inner w i j \<longleftrightarrow> 0 < i \<and> i < unat (win_h w) - 1 \<and> 0 < j \<and> j < unat (win_w w) - 1"

text \<open>Coordinates do not wrap within a window.\<close>

lemma win_coords:
  assumes "win_ok w"
  shows "j < unat (win_w w) \<Longrightarrow> unat (win_x w + word_of_nat j) = unat (win_x w) + j"
    "i < unat (win_h w) \<Longrightarrow> unat (win_y w + word_of_nat i) = unat (win_y w) + i"
    "unat (win_x w + win_w w - 1) = unat (win_x w) + unat (win_w w) - 1"
    "unat (win_y w + win_h w - 1) = unat (win_y w) + unat (win_h w) - 1"
proof -
  have b: "unat (win_x w) + unat (win_w w) \<le> 80" "unat (win_y w) + unat (win_h w) \<le> 25" "2 \<le> unat (win_w w)" "2 \<le> unat (win_h w)"
    using assms by (auto simp: win_ok_def)
  have add: "unat (a + word_of_nat n) = unat a + n" if "unat a + n < 2 ^ 16" for a :: u16 and n
  proof -
    have "unat (word_of_nat n :: u16) = n" using that by (simp add: unat_of_nat)
    then show ?thesis using that by (simp add: unat_add_nowrap)
  qed
  show "j < unat (win_w w) \<Longrightarrow> unat (win_x w + word_of_nat j) = unat (win_x w) + j" using b by (intro add) simp
  show "i < unat (win_h w) \<Longrightarrow> unat (win_y w + word_of_nat i) = unat (win_y w) + i" using b by (intro add) simp
  have "unat (win_x w + win_w w) = unat (win_x w) + unat (win_w w)" "unat (win_y w + win_h w) = unat (win_y w) + unat (win_h w)"
    using b by (simp_all add: unat_add_nowrap)
  then show "unat (win_x w + win_w w - 1) = unat (win_x w) + unat (win_w w) - 1" "unat (win_y w + win_h w - 1) = unat (win_y w) + unat (win_h w) - 1"
    using b by (simp_all add: unat_sub_nowrap)
qed

text \<open>The three parts of the frame.\<close>

definition bars :: "tui_win_t \<Rightarrow> (u16 \<times> u16 \<times> u8 \<times> u8) list" where
  "bars w = concat (map (\<lambda>c. [(win_y w, win_x w + word_of_nat c, if c = 0 then 0xDA else if c = unat (win_w w) - 1 then 0xBF else 0xC4, win_attr w),
     (win_y w + win_h w - 1, win_x w + word_of_nat c, if c = 0 then 0xC0 else if c = unat (win_w w) - 1 then 0xD9 else 0xC4, win_attr w)]) [0 ..< unat (win_w w)])"

definition sides :: "tui_win_t \<Rightarrow> (u16 \<times> u16 \<times> u8 \<times> u8) list" where
  "sides w = concat (map (\<lambda>r. [(win_y w + word_of_nat r, win_x w, 0xB3, win_attr w),
     (win_y w + word_of_nat r, win_x w + win_w w - 1, 0xB3, win_attr w)]) [1 ..< unat (win_h w) - 1])"

definition title_cells :: "tui_win_t \<Rightarrow> (u16 \<times> u16 \<times> u8 \<times> u8) list" where
  "title_cells w = map (\<lambda>i. (win_y w, win_x w + 1 + word_of_nat i, win_title w ! i, win_attr w)) [0 ..< title_len w]"

lemma frame_parts: "win_ok w \<Longrightarrow> frame_cells w = bars w @ sides w @ title_cells w"
  by (simp add: frame_cells_def bars_def sides_def title_cells_def win_attr_def title_len_def Let_def win_ok_def min_def)

lemma bars_put:
  assumes "win_ok w" and "i < unat (win_h w)" "j < unat (win_w w)"
  shows "last_put (bars w) (unat (win_y w) + i) (unat (win_x w) + j) d =
    (if i = 0 then cell (if j = 0 then 0xDA else if j = unat (win_w w) - 1 then 0xBF else 0xC4) (win_attr w)
     else if i = unat (win_h w) - 1 then cell (if j = 0 then 0xC0 else if j = unat (win_w w) - 1 then 0xD9 else 0xC4) (win_attr w)
     else d)"
proof -
  have h: "2 \<le> unat (win_h w)" using assms(1) by (simp add: win_ok_def)
  note k = win_coords [OF assms(1)]
  show ?thesis
  proof (cases "i = 0 \<or> i = unat (win_h w) - 1")
    case True
    then show ?thesis using h assms(3)
      by (intro last_put_one) (auto simp: bars_def hits_def entry_cell_def k)
  next
    case False
    then show ?thesis using h by (auto simp: bars_def hits_def k intro!: last_put_none)
  qed
qed

lemma sides_put:
  assumes "win_ok w" and "i < unat (win_h w)" "j < unat (win_w w)"
  shows "last_put (sides w) (unat (win_y w) + i) (unat (win_x w) + j) d =
    (if 0 < i \<and> i < unat (win_h w) - 1 \<and> (j = 0 \<or> j = unat (win_w w) - 1) then cell 0xB3 (win_attr w) else d)"
proof -
  have h: "2 \<le> unat (win_h w)" "2 \<le> unat (win_w w)" using assms(1) by (auto simp: win_ok_def)
  note k = win_coords [OF assms(1)]
  show ?thesis
  proof (cases "0 < i \<and> i < unat (win_h w) - 1 \<and> (j = 0 \<or> j = unat (win_w w) - 1)")
    case True
    have "\<exists>e \<in> set (sides w). hits (unat (win_y w) + i) (unat (win_x w) + j) e"
    proof (cases "j = 0")
      case j: True
      have "(win_y w + word_of_nat i, win_x w, 0xB3, win_attr w) \<in> set (sides w)" using True by (auto simp: sides_def)
      then show ?thesis using True h j by (intro bexI) (auto simp: hits_def k)
    next
      case j: False
      have "(win_y w + word_of_nat i, win_x w + win_w w - 1, 0xB3, win_attr w) \<in> set (sides w)" using True by (auto simp: sides_def)
      then show ?thesis using True h j by (intro bexI) (auto simp: hits_def k)
    qed
    then have "last_put (sides w) (unat (win_y w) + i) (unat (win_x w) + j) d = cell 0xB3 (win_attr w)"
      by (intro last_put_one) (auto simp: sides_def entry_cell_def)
    then show ?thesis using True by simp
  next
    case False
    then show ?thesis using h assms by (auto simp: sides_def hits_def k intro!: last_put_none)
  qed
qed

lemma title_put:
  assumes "win_ok w" and "i < unat (win_h w)" "j < unat (win_w w)"
  shows "last_put (title_cells w) (unat (win_y w) + i) (unat (win_x w) + j) d =
    (if i = 0 \<and> 1 \<le> j \<and> j \<le> title_len w then cell (win_title w ! (j - 1)) (win_attr w) else d)"
proof -
  have k: "unat (win_x w + 1 + word_of_nat n) = unat (win_x w) + Suc n" if "n < title_len w" for n
  proof -
    have "Suc n < unat (win_w w)" using that by (auto simp: title_len_def)
    from win_coords(1) [OF assms(1) this] show ?thesis by (simp add: add.assoc)
  qed
  show ?thesis
  proof (cases "i = 0 \<and> 1 \<le> j \<and> j \<le> title_len w")
    case True
    then obtain n where n: "j = Suc n" "n < title_len w" by (cases j) auto
    have "(win_y w, win_x w + 1 + word_of_nat n, win_title w ! n, win_attr w) \<in> set (title_cells w)" using n(2) by (auto simp: title_cells_def)
    then have "\<exists>e \<in> set (title_cells w). hits (unat (win_y w) + i) (unat (win_x w) + j) e"
      using True n k [OF n(2)] by (intro bexI) (auto simp: hits_def)
    then show ?thesis using True n by (intro trans [OF last_put_one [where v = "cell (win_title w ! n) (win_attr w)"]]) (auto simp: title_cells_def hits_def entry_cell_def k)
  next
    case False
    then show ?thesis by (auto simp: title_cells_def hits_def k intro!: last_put_none)
  qed
qed

lemma frame_put_inside:
  assumes "win_ok w" and "i < unat (win_h w)" "j < unat (win_w w)"
  shows "last_put (frame_cells w) (unat (win_y w) + i) (unat (win_x w) + j) d = (if is_inner w i j then d else win_cell w i j)"
  using assms(2,3) assms(1) [unfolded win_ok_def]
  unfolding frame_parts [OF assms(1)] last_put_append title_put [OF assms] sides_put [OF assms] bars_put [OF assms]
  by (auto simp: win_cell_def is_inner_def Let_def title_len_def)

lemma frame_put_outside:
  assumes "win_ok w" and "\<not> covers w r c"
  shows "last_put (frame_cells w) r c d = d"
proof -
  have b: "2 \<le> unat (win_w w)" "2 \<le> unat (win_h w)" using assms(1) by (auto simp: win_ok_def)
  note k = win_coords [OF assms(1)]
  have k1: "unat (win_x w + 1 + word_of_nat n) = unat (win_x w) + Suc n" if "n < title_len w" for n
  proof -
    have "Suc n < unat (win_w w)" using that by (auto simp: title_len_def)
    from k(1) [OF this] show ?thesis by (simp add: add.assoc)
  qed
  have t: "title_len w < unat (win_w w)" using b by (auto simp: title_len_def)
  have "\<not> hits r c e" if "e \<in> set (frame_cells w)" for e
    using that assms(2) b t unfolding frame_parts [OF assms(1)]
    by (auto simp: bars_def sides_def title_cells_def hits_def covers_def k k1)
  then show ?thesis by (rule last_put_none)
qed

section \<open>The content\<close>

definition content_cells :: "tui_win_t \<Rightarrow> (nat \<times> nat) list \<Rightarrow> (u16 \<times> u16 \<times> u8 \<times> u8) list" where
  "content_cells w ps = map (\<lambda>(r, c). let v = surf_cells (win_content w) ! (r * unat (win_w w) + c) in
     (win_y w + word_of_nat r, win_x w + word_of_nat c, cell_ch v, cell_attr v)) ps"

lemma copy_content_put:
  assumes "win_ok w" and "\<forall>(r, c) \<in> set ps. r < unat (win_h w) \<and> c < unat (win_w w)"
  shows "copy_content w ps s = put_seq (content_cells w ps) s"
  using assms(2)
proof (induction ps arbitrary: s)
  case (Cons p ps)
  obtain r c where p: "p = (r, c)" by fastforce
  have "r * unat (win_w w) + c < length (surf_cells (win_content w))"
    using Cons.prems assms(1) p grid_index [of r "unat (win_h w)" c "unat (win_w w)"] by (auto simp: win_ok_def)
  then have "arr_get (surf_cells (win_content w)) (r * unat (win_w w) + c) = Some (surf_cells (win_content w) ! (r * unat (win_w w) + c))"
    by (rule arr_get_in)
  then show ?case using Cons by (cases "tui_surface_put (win_y w + word_of_nat r) (win_x w + word_of_nat c)
      (cell_ch (surf_cells (win_content w) ! (r * unat (win_w w) + c))) (cell_attr (surf_cells (win_content w) ! (r * unat (win_w w) + c))) s")
    (auto simp: p content_cells_def Let_def)
qed (simp add: content_cells_def)

lemma inner_set: "(i, j) \<in> set (inner w) \<longleftrightarrow> is_inner w i j"
  by (fastforce simp: inner_def is_inner_def)

lemma content_put:
  assumes "win_ok w"
  shows "i < unat (win_h w) \<Longrightarrow> j < unat (win_w w) \<Longrightarrow>
      last_put (content_cells w (inner w)) (unat (win_y w) + i) (unat (win_x w) + j) d = (if is_inner w i j then win_cell w i j else d)"
    "\<not> covers w r c \<Longrightarrow> last_put (content_cells w (inner w)) r c d = d"
proof -
  note k = win_coords [OF assms]
  have bnd: "r < unat (win_h w)" "c < unat (win_w w)" if "is_inner w r c" for r c using that by (auto simp: is_inner_def)
  have mem: "e \<in> set (content_cells w (inner w)) \<longleftrightarrow> (\<exists>r c. is_inner w r c \<and> e = (win_y w + word_of_nat r, win_x w + word_of_nat c,
      cell_ch (surf_cells (win_content w) ! (r * unat (win_w w) + c)), cell_attr (surf_cells (win_content w) ! (r * unat (win_w w) + c))))" for e
    unfolding content_cells_def set_map image_iff by (auto simp: inner_set Let_def split: prod.splits) blast
  show "last_put (content_cells w (inner w)) (unat (win_y w) + i) (unat (win_x w) + j) d = (if is_inner w i j then win_cell w i j else d)"
    if ij: "i < unat (win_h w)" "j < unat (win_w w)"
  proof (cases "is_inner w i j")
    case True
    let ?v = "surf_cells (win_content w) ! (i * unat (win_w w) + j)"
    have "(win_y w + word_of_nat i, win_x w + word_of_nat j, cell_ch ?v, cell_attr ?v) \<in> set (content_cells w (inner w))" unfolding mem using True by blast
    then have "\<exists>e \<in> set (content_cells w (inner w)). hits (unat (win_y w) + i) (unat (win_x w) + j) e"
      by (rule bexI [rotated]) (simp add: hits_def k ij)
    then have "last_put (content_cells w (inner w)) (unat (win_y w) + i) (unat (win_x w) + j) d = ?v"
      by (intro last_put_one) (auto simp: mem hits_def entry_cell_def k bnd)
    then show ?thesis using True by (auto simp: win_cell_def is_inner_def Let_def)
  next
    case False
    then show ?thesis by (auto simp: mem hits_def k bnd intro!: last_put_none)
  qed
  show "last_put (content_cells w (inner w)) r c d = d" if "\<not> covers w r c"
    using that by (auto simp: mem hits_def covers_def k bnd intro!: last_put_none)
qed

end
