(* ===== verification/Tui_Screen.thy ===== *)
theory Tui_Screen
  imports Tui_Paint
begin

text \<open>
  The composed screen: every cell shows the topmost window that covers it, and that is the window which
  a click at the cell reaches.
\<close>

section \<open>States of the window manager\<close>

definition slots :: "wm \<Rightarrow> u32 list" where
  "slots s = take (unat (g_num_windows s)) (g_windows s)"

text \<open>
  The table holds exactly the live windows, without gaps and twice none; at most one window has the focus,
  and it is the one the manager knows; all windows lie on the screen.
\<close>

definition table_ok :: "wm \<Rightarrow> bool" where
  "table_ok s \<longleftrightarrow> length (g_windows s) = 16 \<and> unat (g_num_windows s) \<le> 16 \<and> distinct (slots s) \<and> 0 \<notin> set (slots s) \<and> dom (wins s) = set (slots s)"

definition focus_ok :: "wm \<Rightarrow> bool" where
  "focus_ok s \<longleftrightarrow> (g_focused s = 0 \<or> g_focused s \<in> dom (wins s)) \<and> (\<forall>p w. wins s p = Some w \<longrightarrow> win_focused w = (p = g_focused s))"

definition wm_inv :: "wm \<Rightarrow> bool" where
  "wm_inv s \<longleftrightarrow> table_ok s \<and> focus_ok s \<and> (\<forall>p w. wins s p = Some w \<longrightarrow> win_ok w \<and> win_visible w)"

text \<open>
  The layers as they are until the counter of layers comes to its end: different, below the next
  layer, and a window that is pinned to the bottom, of which there is one at most, is below the others.
\<close>

definition layers_ok :: "wm \<Rightarrow> bool" where
  "layers_ok s \<longleftrightarrow> (\<forall>p w. wins s p = Some w \<longrightarrow> 1 \<le> unat (win_z w) \<and> unat (win_z w) < unat (g_next_z s)) \<and>
     (\<forall>p q v w. wins s p = Some w \<and> wins s q = Some v \<and> win_z w = win_z v \<longrightarrow> p = q) \<and>
     (\<forall>p q v w. wins s p = Some w \<and> wins s q = Some v \<and> win_pinned w \<and> p \<noteq> q \<longrightarrow> \<not> win_pinned v \<and> unat (win_z w) < unat (win_z v))"

lemma inv_cong:
  assumes "g_windows s' = g_windows s" "g_num_windows s' = g_num_windows s" "wins s' = wins s" "g_focused s' = g_focused s" "g_next_z s' = g_next_z s"
  shows "wm_inv s' = wm_inv s" "layers_ok s' = layers_ok s"
  unfolding wm_inv_def table_ok_def slots_def focus_ok_def layers_ok_def assms by (rule refl)+

lemma layers_sub:
  assumes "layers_ok s" and bz: "\<And>q v. wins s' q = Some v \<Longrightarrow> \<exists>u. wins s q = Some u \<and> win_z u = win_z v \<and> win_pinned u = win_pinned v"
    and "g_next_z s' = g_next_z s"
  shows "layers_ok s'"
proof -
  have z: "\<And>q v. wins s q = Some v \<Longrightarrow> 1 \<le> unat (win_z v) \<and> unat (win_z v) < unat (g_next_z s)"
    "\<And>q r u v. wins s q = Some v \<Longrightarrow> wins s r = Some u \<Longrightarrow> win_z v = win_z u \<Longrightarrow> q = r"
    "\<And>q r u v. wins s q = Some v \<Longrightarrow> wins s r = Some u \<Longrightarrow> win_pinned v \<Longrightarrow> q \<noteq> r \<Longrightarrow> \<not> win_pinned u \<and> unat (win_z v) < unat (win_z u)"
    using assms(1) unfolding layers_ok_def by blast+
  show ?thesis
    unfolding layers_ok_def assms(3)
  proof (intro conjI allI impI; (elim conjE)?)
    fix q v assume "wins s' q = Some v"
    then obtain u where "wins s q = Some u" "win_z u = win_z v" using bz by blast
    then show "1 \<le> unat (win_z v)" "unat (win_z v) < unat (g_next_z s)" using z(1) [of q u] by auto
  next
    fix q r u v assume a: "wins s' q = Some v" "wins s' r = Some u" "win_z v = win_z u"
    obtain v' u' where "wins s q = Some v'" "win_z v' = win_z v" "wins s r = Some u'" "win_z u' = win_z u" using bz [OF a(1)] bz [OF a(2)] by blast
    then show "q = r" using z(2) [of q v' r u'] a(3) by simp
  next
    fix q r u v assume a: "wins s' q = Some v" "wins s' r = Some u" "win_pinned v" "q \<noteq> r"
    obtain v' u' where "wins s q = Some v'" "win_z v' = win_z v" "win_pinned v' = win_pinned v" "wins s r = Some u'" "win_z u' = win_z u" "win_pinned u' = win_pinned u"
      using bz [OF a(1)] bz [OF a(2)] by blast
    then show "\<not> win_pinned u" "unat (win_z v) < unat (win_z u)" using z(3) [of q v' r u'] a(3,4) by auto
  qed
qed

lemma slot_window:
  assumes "table_ok s" and "i < unat (g_num_windows s)"
  shows "arr_get (g_windows s) i = Some (g_windows s ! i)" "g_windows s ! i \<noteq> 0" "\<exists>w. wins s (g_windows s ! i) = Some w"
proof -
  have i: "i < length (g_windows s)" "g_windows s ! i \<in> set (slots s)"
    using assms by (auto simp: table_ok_def slots_def in_set_conv_nth)
  then show "arr_get (g_windows s) i = Some (g_windows s ! i)" "g_windows s ! i \<noteq> 0" using assms(1) by (auto simp: arr_rules table_ok_def)
  have "g_windows s ! i \<in> dom (wins s)" using i(2) assms(1) by (simp add: table_ok_def)
  then show "\<exists>w. wins s (g_windows s ! i) = Some w" by blast
qed

lemma window_slot:
  assumes "table_ok s" and "wins s p = Some w"
  obtains i where "i < unat (g_num_windows s)" "g_windows s ! i = p"
proof -
  have "p \<in> set (slots s)" using assms by (auto simp: table_ok_def)
  then obtain i where "i < length (slots s)" "slots s ! i = p" by (auto simp: in_set_conv_nth)
  then show thesis using that [of i] by (auto simp: slots_def)
qed

lemma slot_inj:
  assumes "table_ok s" and "i < unat (g_num_windows s)" "j < unat (g_num_windows s)" and "g_windows s ! i = g_windows s ! j"
  shows "i = j"
  using assms by (auto simp: table_ok_def slots_def nth_eq_iff_index_eq distinct_conv_nth)

section \<open>Drawing one window\<close>

text \<open>Repainting changes the cells of the content and nothing else.\<close>

definition repainted :: "tui_win_t \<Rightarrow> tui_win_t \<Rightarrow> bool" where
  "repainted w w' \<longleftrightarrow> (\<exists>m. length m = length (surf_cells (win_content w)) \<and> w' = w\<lparr>win_content := (win_content w)\<lparr>surf_cells := m\<rparr>\<rparr>)"

definition draw_ok :: "apps \<Rightarrow> bool" where
  "draw_ok app \<longleftrightarrow> (\<forall>cb p s w. wins s p = Some w \<longrightarrow> (\<exists>w'. repainted w w' \<and> app_draw app cb p s = Some (s\<lparr>wins := (wins s)(p := Some w')\<rparr>)))"

lemma repainted_refl: "repainted w w"
  unfolding repainted_def by (rule exI [of _ "surf_cells (win_content w)"]) simp

lemma repainted_simps:
  assumes "repainted w w'"
  shows "win_ok w' = win_ok w" "covers w' r c = covers w r c" "win_z w' = win_z w" "win_visible w' = win_visible w" "win_pinned w' = win_pinned w"
    "win_x w' = win_x w" "win_y w' = win_y w" "win_w w' = win_w w" "win_h w' = win_h w" "win_focused w' = win_focused w" "is_inner w' i j = is_inner w i j"
proof -
  obtain m where "length m = length (surf_cells (win_content w))" "w' = w\<lparr>win_content := (win_content w)\<lparr>surf_cells := m\<rparr>\<rparr>"
    using assms unfolding repainted_def by blast
  then show "win_ok w' = win_ok w" "covers w' r c = covers w r c" "win_z w' = win_z w" "win_visible w' = win_visible w" "win_pinned w' = win_pinned w"
    "win_x w' = win_x w" "win_y w' = win_y w" "win_w w' = win_w w" "win_h w' = win_h w" "win_focused w' = win_focused w" "is_inner w' i j = is_inner w i j"
    by (simp_all add: win_ok_def covers_def is_inner_def)
qed

lemma repainted_frame:
  assumes "repainted w w'" and "\<not> is_inner w i j" and "i < unat (win_h w)" "j < unat (win_w w)"
  shows "win_cell w' i j = win_cell w i j"
proof -
  obtain m where m: "w' = w\<lparr>win_content := (win_content w)\<lparr>surf_cells := m\<rparr>\<rparr>" using assms(1) unfolding repainted_def by blast
  have "i = 0 \<or> i = unat (win_h w) - 1 \<or> j = 0 \<or> j = unat (win_w w) - 1" using assms(2-4) by (auto simp: is_inner_def)
  then show ?thesis by (auto simp: m win_cell_def win_attr_def title_len_def Let_def)
qed

definition screen_ok :: "tui_surface_t \<Rightarrow> bool" where
  "screen_ok scr \<longleftrightarrow> surf_ok scr \<and> unat (surf_width scr) = 80 \<and> unat (surf_height scr) = 25"

lemma draw_window_ok:
  assumes "draw_ok app" and w: "wins s p = Some w" "win_ok w" and scr: "screen_ok (g_screen s)"
  shows "\<exists>w' scr. draw_window_border app p s = Some (s\<lparr>wins := (wins s)(p := Some w'), g_screen := scr\<rparr>) \<and> repainted w w' \<and> screen_ok scr \<and>
    (\<forall>r < 25. \<forall>c < 80. cell_at scr r c = (if covers w r c then win_cell w' (r - unat (win_y w)) (c - unat (win_x w)) else cell_at (g_screen s) r c))"
proof -
  have so: "surf_ok (g_screen s)" "unat (surf_width (g_screen s)) = 80" "unat (surf_height (g_screen s)) = 25" using scr by (auto simp: screen_ok_def)
  obtain s1 where s1: "put_seq (frame_cells w) (g_screen s) = Some s1" "same_dims (g_screen s) s1"
    "\<forall>r < 25. \<forall>c < 80. cell_at s1 r c = last_put (frame_cells w) r c (cell_at (g_screen s) r c)"
    using put_seq_ok [OF so(1), of "frame_cells w"] so(2,3) by auto
  obtain w' where w': "repainted w w'" "(case win_on_draw w of None \<Rightarrow> Some (s\<lparr>g_screen := s1\<rparr>) | Some cb \<Rightarrow> app_draw app cb p (s\<lparr>g_screen := s1\<rparr>)) =
      Some (s\<lparr>g_screen := s1, wins := (wins s)(p := Some w')\<rparr>)"
  proof (cases "win_on_draw w")
    case None
    then show thesis using that [of w] w(1) repainted_refl by (auto simp: fun_upd_idem)
  next
    case (Some cb)
    have "wins (s\<lparr>g_screen := s1\<rparr>) p = Some w" using w(1) by simp
    then show thesis using assms(1) Some that unfolding draw_ok_def by (fastforce)
  qed
  have ok': "win_ok w'" using w(2) repainted_simps(1) [OF w'(1)] by simp
  have cc: "copy_content w' (inner w') s1 = put_seq (content_cells w' (inner w')) s1"
    by (rule copy_content_put [OF ok']) (auto simp: inner_set is_inner_def)
  have d1: "surf_ok s1" "unat (surf_width s1) = 80" "unat (surf_height s1) = 25" using s1(2) so by (auto simp: same_dims_def)
  obtain s2 where s2: "put_seq (content_cells w' (inner w')) s1 = Some s2" "same_dims s1 s2"
    "\<forall>r < 25. \<forall>c < 80. cell_at s2 r c = last_put (content_cells w' (inner w')) r c (cell_at s1 r c)"
    using put_seq_ok [OF d1(1), of "content_cells w' (inner w')"] d1(2,3) by auto
  have run: "draw_window_border app p s = Some (s\<lparr>wins := (wins s)(p := Some w'), g_screen := s2\<rparr>)"
    using w(1) s1(1) w'(2) cc s2(1) by (simp add: draw_window_border_def Let_def)
  have "cell_at s2 r c = (if covers w r c then win_cell w' (r - unat (win_y w)) (c - unat (win_x w)) else cell_at (g_screen s) r c)"
    if rc: "r < 25" "c < 80" for r c
  proof (cases "covers w r c")
    case True
    define i j where "i = r - unat (win_y w)" and "j = c - unat (win_x w)"
    have ij: "r = unat (win_y w) + i" "c = unat (win_x w) + j" "i < unat (win_h w)" "j < unat (win_w w)" using True by (auto simp: covers_def i_def j_def)
    have ij': "i < unat (win_h w')" "j < unat (win_w w')" "unat (win_y w') = unat (win_y w)" "unat (win_x w') = unat (win_x w)"
      using ij repainted_simps [OF w'(1)] by simp_all
    have "cell_at s2 r c = (if is_inner w' i j then win_cell w' i j else if is_inner w i j then cell_at (g_screen s) r c else win_cell w i j)"
      using s2(3) s1(3) rc content_put(1) [OF ok' ij'(1,2)] frame_put_inside [OF w(2) ij(3,4)] ij(1,2) ij'(3,4) by simp
    also have "\<dots> = win_cell w' i j" using repainted_simps(11) [OF w'(1)] repainted_frame [OF w'(1) _ ij(3,4)] by simp
    finally show ?thesis using True by (simp add: i_def j_def)
  next
    case False
    then have "\<not> covers w' r c" using repainted_simps(2) [OF w'(1)] by simp
    then show ?thesis using s2(3) s1(3) rc content_put(2) [OF ok'] frame_put_outside [OF w(2) False] False by simp
  qed
  moreover have "screen_ok s2" using s2(2) d1 by (auto simp: same_dims_def screen_ok_def)
  ultimately show ?thesis using run w'(1) by blast
qed

section \<open>Layers\<close>

text \<open>The window on top at a cell among the layers below \<open>z\<close>.\<close>

definition top_at :: "wm \<Rightarrow> nat \<Rightarrow> nat \<Rightarrow> nat \<Rightarrow> u32 \<Rightarrow> tui_win_t \<Rightarrow> bool" where
  "top_at s z r c p w \<longleftrightarrow> wins s p = Some w \<and> unat (win_z w) < z \<and> covers w r c \<and>
     (\<forall>q v. wins s q = Some v \<and> unat (win_z v) < z \<and> covers v r c \<longrightarrow> unat (win_z v) \<le> unat (win_z w))"

definition painted :: "wm \<Rightarrow> nat \<Rightarrow> bool" where
  "painted s z \<longleftrightarrow> screen_ok (g_screen s) \<and> (\<forall>r < 25. \<forall>c < 80.
     (\<forall>p w. top_at s z r c p w \<longrightarrow> cell_at (g_screen s) r c = win_cell w (r - unat (win_y w)) (c - unat (win_x w))) \<and>
     ((\<forall>p w. wins s p = Some w \<and> unat (win_z w) < z \<longrightarrow> \<not> covers w r c) \<longrightarrow> cell_at (g_screen s) r c = cell 32 (tui_theme_attr 0)))"

text \<open>What drawing keeps.\<close>

definition redrawn :: "wm \<Rightarrow> wm \<Rightarrow> bool" where
  "redrawn s s' \<longleftrightarrow> (\<exists>f scr. s' = s\<lparr>wins := f, g_screen := scr\<rparr> \<and> dom f = dom (wins s) \<and> (\<forall>p w. wins s p = Some w \<longrightarrow> (\<exists>w'. f p = Some w' \<and> repainted w w')))"

lemma repainted_trans: "repainted w w1 \<Longrightarrow> repainted w1 w2 \<Longrightarrow> repainted w w2"
  by (auto simp: repainted_def)

lemma redrawn_refl: "redrawn s s"
  unfolding redrawn_def by (rule exI [of _ "wins s"], rule exI [of _ "g_screen s"]) (simp add: repainted_refl)

lemma redrawn_trans:
  assumes "redrawn s s1" and "redrawn s1 s2"
  shows "redrawn s s2"
proof -
  obtain f scr where 1: "s1 = s\<lparr>wins := f, g_screen := scr\<rparr>" "dom f = dom (wins s)" "\<And>p w. wins s p = Some w \<Longrightarrow> \<exists>w'. f p = Some w' \<and> repainted w w'"
    using assms(1) unfolding redrawn_def by blast
  obtain g scr2 where 2: "s2 = s1\<lparr>wins := g, g_screen := scr2\<rparr>" "dom g = dom (wins s1)" "\<And>p w. wins s1 p = Some w \<Longrightarrow> \<exists>w'. g p = Some w' \<and> repainted w w'"
    using assms(2) unfolding redrawn_def by blast
  have "s2 = s\<lparr>wins := g, g_screen := scr2\<rparr>" "dom g = dom (wins s)" using 1 2 by simp_all
  moreover have "\<exists>w'. g p = Some w' \<and> repainted w w'" if "wins s p = Some w" for p w
    using 1(3) [OF that] 2(3) 1(1) repainted_trans by fastforce
  ultimately show ?thesis unfolding redrawn_def by blast
qed

lemma redrawn_back:
  assumes "redrawn s s'" and "wins s' p = Some w'"
  obtains w where "wins s p = Some w" "repainted w w'"
proof -
  obtain f where f: "wins s' = f" "dom f = dom (wins s)" "\<And>p w. wins s p = Some w \<Longrightarrow> \<exists>w'. f p = Some w' \<and> repainted w w'"
    using assms(1) unfolding redrawn_def by fastforce
  have "p \<in> dom (wins s)" using f(1,2) assms(2) by auto
  then obtain w where "wins s p = Some w" by blast
  then show thesis using that f(1,3) assms(2) by fastforce
qed

lemma redrawn_fields:
  assumes "redrawn s s'"
  shows "g_windows s' = g_windows s" "g_num_windows s' = g_num_windows s" "g_next_z s' = g_next_z s" "g_focused s' = g_focused s" "dom (wins s') = dom (wins s)"
    "vga_text s' = vga_text s" "g_cursor_visible s' = g_cursor_visible s" "g_cursor_row s' = g_cursor_row s" "g_cursor_col s' = g_cursor_col s"
proof -
  obtain f scr where f: "s' = s\<lparr>wins := f, g_screen := scr\<rparr>" "dom f = dom (wins s)" using assms unfolding redrawn_def by blast
  then show "g_windows s' = g_windows s" "g_num_windows s' = g_num_windows s" "g_next_z s' = g_next_z s" "g_focused s' = g_focused s" "dom (wins s') = dom (wins s)"
    "vga_text s' = vga_text s" "g_cursor_visible s' = g_cursor_visible s" "g_cursor_row s' = g_cursor_row s" "g_cursor_col s' = g_cursor_col s" by simp_all
qed

lemma redrawn_inv:
  assumes "redrawn s s'" and "wm_inv s" and "layers_ok s"
  shows "wm_inv s'" "layers_ok s'"
proof -
  note f = redrawn_fields [OF assms(1)]
  have tab: "table_ok s'" using assms(2) f by (simp add: wm_inv_def table_ok_def slots_def)
  have bk: "\<exists>w. wins s p = Some w \<and> repainted w w'" if "wins s' p = Some w'" for p w' using redrawn_back [OF assms(1) that] by blast
  have fo: "g_focused s = 0 \<or> g_focused s \<in> dom (wins s)" "\<And>p w. wins s p = Some w \<Longrightarrow> win_focused w = (p = g_focused s)"
    using assms(2) unfolding wm_inv_def focus_ok_def by blast+
  have "win_focused w' = (p = g_focused s')" if w': "wins s' p = Some w'" for p w'
  proof -
    obtain w where "wins s p = Some w" "repainted w w'" using bk [OF w'] by blast
    then show ?thesis using fo(2) repainted_simps(10) f(4) by simp
  qed
  then have "focus_ok s'" using fo(1) f(4,5) by (simp add: focus_ok_def)
  moreover have "win_ok w' \<and> win_visible w'" if "wins s' p = Some w'" for p w'
    using bk [OF that] assms(2) repainted_simps(1,4) unfolding wm_inv_def by metis
  ultimately show "wm_inv s'" using tab by (simp add: wm_inv_def)
  have "\<exists>w. wins s p = Some w \<and> win_z w = win_z w' \<and> win_pinned w = win_pinned w'" if "wins s' p = Some w'" for p w'
    using bk [OF that] repainted_simps(3,5) by auto
  from layers_sub [OF assms(3) this f(3)] show "layers_ok s'" .
qed

section \<open>The compositor\<close>

lemma draw_layer_none:
  assumes "table_ok s" and "\<And>j w. i \<le> j \<Longrightarrow> j < unat (g_num_windows s) \<Longrightarrow> wins s (g_windows s ! j) = Some w \<Longrightarrow> \<not> (win_visible w \<and> win_z w = z)"
  shows "draw_layer app z i s = Some s"
  using assms(2)
proof (induction "unat (g_num_windows s) - i" arbitrary: i)
  case 0
  then show ?case by (subst draw_layer.simps) simp
next
  case (Suc n)
  have i: "i < unat (g_num_windows s)" using Suc.hyps(2) by simp
  obtain w where w: "wins s (g_windows s ! i) = Some w" using slot_window(3) [OF assms(1) i] by blast
  have "draw_layer app z (Suc i) s = Some s"
  proof (rule Suc.hyps(1))
    show "n = unat (g_num_windows s) - Suc i" using Suc.hyps(2) by simp
  qed (use Suc.prems in \<open>auto dest: Suc_leD\<close>)
  then show ?case using i slot_window(1,2) [OF assms(1) i] w Suc.prems [OF order_refl i w] by (subst draw_layer.simps) auto
qed

lemma draw_layer_one:
  assumes "table_ok s" and k: "k < unat (g_num_windows s)" "g_windows s ! k = p" "wins s p = Some w" "win_visible w" "win_z w = z"
    and other: "\<And>j v. j < unat (g_num_windows s) \<Longrightarrow> j \<noteq> k \<Longrightarrow> wins s (g_windows s ! j) = Some v \<Longrightarrow> win_z v \<noteq> z"
    and s': "draw_window_border app p s = Some s'" "redrawn s s'" "table_ok s'" and "i \<le> k"
  shows "draw_layer app z i s = Some s'"
  using \<open>i \<le> k\<close>
proof (induction "k - i" arbitrary: i)
  case 0
  then have i: "i = k" by simp
  note f = redrawn_fields [OF s'(2)]
  have "\<not> (win_visible v \<and> win_z v = z)" if j: "Suc k \<le> j" "j < unat (g_num_windows s')" "wins s' (g_windows s' ! j) = Some v" for j v
  proof -
    obtain u where u: "wins s (g_windows s ! j) = Some u" "repainted u v" by (rule redrawn_back [OF s'(2) j(3), unfolded f(1)])
    show ?thesis using other [OF _ _ u(1)] j(1,2) f(2) repainted_simps(3) [OF u(2)] by auto
  qed
  then have "draw_layer app z (Suc k) s' = Some s'" using s'(3) by (intro draw_layer_none) auto
  then show ?case unfolding i using k slot_window(1,2) [OF assms(1) k(1)] s'(1) by (subst draw_layer.simps) simp
next
  case (Suc n)
  have i: "i < unat (g_num_windows s)" "i \<noteq> k" using Suc.hyps(2) k(1) by auto
  obtain v where v: "wins s (g_windows s ! i) = Some v" using slot_window(3) [OF assms(1) i(1)] by blast
  have "draw_layer app z (Suc i) s = Some s'" using Suc.hyps(2) Suc.prems by (intro Suc.hyps(1)) auto
  then show ?case using i(1) slot_window(1,2) [OF assms(1) i(1)] v other [OF i v] by (subst draw_layer.simps) simp
qed

lemma painted_none:
  assumes "painted s z" and "\<And>p w. wins s p = Some w \<Longrightarrow> unat (win_z w) \<noteq> z"
  shows "painted s (Suc z)"
proof -
  have l: "unat (win_z w) < Suc z \<longleftrightarrow> unat (win_z w) < z" if "wins s p = Some w" for p w using assms(2) [OF that] by auto
  have "top_at s (Suc z) r c p w = top_at s z r c p w" for r c p w unfolding top_at_def using l by auto
  moreover have "(\<forall>p w. wins s p = Some w \<and> unat (win_z w) < Suc z \<longrightarrow> \<not> covers w r c) = (\<forall>p w. wins s p = Some w \<and> unat (win_z w) < z \<longrightarrow> \<not> covers w r c)" for r c
    using l by blast
  ultimately show ?thesis using assms(1) unfolding painted_def by simp
qed

lemma painted_one:
  assumes "painted s z" and p: "wins s p = Some w" "unat (win_z w) = z"
    and other: "\<And>q v. wins s q = Some v \<Longrightarrow> unat (win_z v) = z \<Longrightarrow> q = p"
    and s': "s' = s\<lparr>wins := (wins s)(p := Some w'), g_screen := scr\<rparr>" "repainted w w'" "screen_ok scr"
      "\<forall>r < 25. \<forall>c < 80. cell_at scr r c = (if covers w r c then win_cell w' (r - unat (win_y w)) (c - unat (win_x w)) else cell_at (g_screen s) r c)"
  shows "painted s' (Suc z)"
proof -
  note R = repainted_simps [OF s'(2)]
  have wp: "wins s' p = Some w'" "g_screen s' = scr" using s'(1) by simp_all
  have wq: "wins s' q = wins s q" if "q \<noteq> p" for q using s'(1) that by simp
  have "(\<forall>q v. top_at s' (Suc z) r c q v \<longrightarrow> cell_at scr r c = win_cell v (r - unat (win_y v)) (c - unat (win_x v))) \<and>
     ((\<forall>q v. wins s' q = Some v \<and> unat (win_z v) < Suc z \<longrightarrow> \<not> covers v r c) \<longrightarrow> cell_at scr r c = cell 32 (tui_theme_attr 0))"
    if rc: "r < 25" "c < 80" for r c
  proof (cases "covers w r c")
    case True
    have "q = p" if t: "top_at s' (Suc z) r c q v" for q v
    proof (rule ccontr)
      assume n: "q \<noteq> p"
      have v: "wins s q = Some v" "unat (win_z v) < Suc z" using t wq [OF n] by (auto simp: top_at_def)
      have "unat (win_z w') < Suc z" "covers w' r c" using True R(2,3) p(2) by simp_all
      then have "unat (win_z w') \<le> unat (win_z v)" using t wp(1) unfolding top_at_def by blast
      then show False using other [OF v(1)] v(2) R(3) p(2) n by auto
    qed
    then have "cell_at scr r c = win_cell v (r - unat (win_y v)) (c - unat (win_x v))" if t: "top_at s' (Suc z) r c q v" for q v
    proof -
      have "v = w'" using t wp(1) \<open>\<And>q v. top_at s' (Suc z) r c q v \<Longrightarrow> q = p\<close> [OF t] by (simp add: top_at_def)
      then show ?thesis using s'(4) rc True R(6,7) by simp
    qed
    moreover have "\<not> (\<forall>q v. wins s' q = Some v \<and> unat (win_z v) < Suc z \<longrightarrow> \<not> covers v r c)"
    proof -
      have "unat (win_z w') < Suc z" "covers w' r c" using True R(2,3) p(2) by simp_all
      then show ?thesis using wp(1) by blast
    qed
    ultimately show ?thesis by blast
  next
    case False
    have old: "cell_at scr r c = cell_at (g_screen s) r c" using s'(4) rc False by simp
    have lt: "wins s q = Some v \<and> unat (win_z v) < z" if "wins s' q = Some v" "unat (win_z v) < Suc z" "covers v r c" for q v
    proof -
      have "q \<noteq> p" using that wp(1) False R(2) by auto
      then have "wins s q = Some v" using that(1) wq by simp
      then show ?thesis using that(2) other [of q v] \<open>q \<noteq> p\<close> by (auto simp: less_Suc_eq)
    qed
    have ge: "wins s' q = Some v \<and> unat (win_z v) < Suc z" if "wins s q = Some v" "unat (win_z v) < z" "covers v r c" for q v
      using that wq [of q] p(1) False by (cases "q = p") auto
    have "top_at s z r c q v" if t: "top_at s' (Suc z) r c q v" for q v
      using t lt [of q v] ge unfolding top_at_def by blast
    then show ?thesis using assms(1) rc ge unfolding painted_def old by blast
  qed
  then show ?thesis using s'(3) wp(2) by (simp add: painted_def)
qed


lemma draw_layer_paints:
  assumes "draw_ok app" and "wm_inv s" "layers_ok s" and "painted s (unat z)"
  shows "\<exists>s'. draw_layer app z 0 s = Some s' \<and> redrawn s s' \<and> painted s' (Suc (unat z))"
proof (cases "\<exists>p w. wins s p = Some w \<and> win_z w = z")
  case False
  have "table_ok s" using assms(2) by (simp add: wm_inv_def)
  then have "draw_layer app z 0 s = Some s" using False by (intro draw_layer_none) auto
  moreover have "unat (win_z w) \<noteq> unat z" if "wins s p = Some w" for p w using False that unsigned_word_eqI [of "win_z w" z] by blast
  then have "painted s (Suc (unat z))" using assms(4) by (intro painted_none) blast+
  ultimately show ?thesis using redrawn_refl by blast
next
  case True
  then obtain p w where p: "wins s p = Some w" "win_z w = z" by blast
  have tab: "table_ok s" and w: "win_ok w" "win_visible w" using assms(2) p(1) unfolding wm_inv_def by blast+
  have uniq: "q = p" if "wins s q = Some v" "win_z v = z" for q v using assms(3) p that unfolding layers_ok_def by metis
  have scr: "screen_ok (g_screen s)" using assms(4) by (simp add: painted_def)
  obtain w' scr where d: "draw_window_border app p s = Some (s\<lparr>wins := (wins s)(p := Some w'), g_screen := scr\<rparr>)" "repainted w w'" "screen_ok scr"
    "\<forall>r < 25. \<forall>c < 80. cell_at scr r c = (if covers w r c then win_cell w' (r - unat (win_y w)) (c - unat (win_x w)) else cell_at (g_screen s) r c)"
    using draw_window_ok [OF assms(1) p(1) w(1) scr] by blast
  let ?s = "s\<lparr>wins := (wins s)(p := Some w'), g_screen := scr\<rparr>"
  have red: "redrawn s ?s"
    unfolding redrawn_def
  proof (intro exI conjI allI impI)
    show "?s = s\<lparr>wins := (wins s)(p := Some w'), g_screen := scr\<rparr>" by simp
    show "dom ((wins s)(p := Some w')) = dom (wins s)" using p(1) by auto
    fix q v assume "wins s q = Some v"
    then show "((wins s)(p := Some w')) q = Some (if q = p then w' else v)" "repainted v (if q = p then w' else v)" using p(1) d(2) repainted_refl by auto
  qed
  have tab': "table_ok ?s" using redrawn_inv(1) [OF red assms(2,3)] by (simp add: wm_inv_def)
  obtain k where k: "k < unat (g_num_windows s)" "g_windows s ! k = p" by (rule window_slot [OF tab p(1)])
  have "win_z v \<noteq> z" if "j < unat (g_num_windows s)" "j \<noteq> k" "wins s (g_windows s ! j) = Some v" for j v
    using uniq [OF that(3)] slot_inj [OF tab that(1) k(1)] that(2) k(2) by auto
  then have "draw_layer app z 0 s = Some ?s" using draw_layer_one [OF tab k p(1) w(2) p(2) _ d(1) red tab'] by blast
  moreover have "painted ?s (Suc (unat z))"
    using uniq p(2) unsigned_word_eqI [of _ z] by (intro painted_one [OF assms(4) p(1) _ _ refl d(2-4)]) blast+
  ultimately show ?thesis using red by blast
qed

lemma draw_layers_paints:
  assumes "draw_ok app" and "wm_inv s" "layers_ok s" and "painted s (unat z)" and "unat (g_next_z s) < 255" "unat z \<le> unat (g_next_z s) + 1"
  shows "\<exists>s'. draw_layers app z s = Some s' \<and> redrawn s s' \<and> painted s' (unat (g_next_z s) + 1)"
  using assms(2-)
proof (induction "unat (g_next_z s) + 1 - unat z" arbitrary: z s)
  case 0
  then have "unat z = unat (g_next_z s) + 1" by simp
  then show ?case using 0 redrawn_refl by (subst draw_layers.simps) (auto simp: word_le_nat_alt)
next
  case (Suc n)
  have z: "unat z \<le> unat (g_next_z s)" using Suc.hyps(2) by simp
  have z1: "unat (z + 1) = unat z + 1" using z Suc.prems(4) by (simp add: unat_add_nowrap)
  obtain s1 where s1: "draw_layer app z 0 s = Some s1" "redrawn s s1" "painted s1 (Suc (unat z))"
    using draw_layer_paints [OF assms(1) Suc.prems(1-3)] by blast
  note f = redrawn_fields [OF s1(2)]
  have "\<exists>s'. draw_layers app (z + 1) s1 = Some s' \<and> redrawn s1 s' \<and> painted s' (unat (g_next_z s1) + 1)"
  proof (rule Suc.hyps(1))
    show "n = unat (g_next_z s1) + 1 - unat (z + 1)" using Suc.hyps(2) z1 f(3) by simp
    show "wm_inv s1" "layers_ok s1" using redrawn_inv [OF s1(2) Suc.prems(1,2)] by blast+
    show "painted s1 (unat (z + 1))" using s1(3) z1 by simp
    show "unat (g_next_z s1) < 255" "unat (z + 1) \<le> unat (g_next_z s1) + 1" using Suc.prems(4) z z1 f(3) by auto
  qed
  then obtain s' where s': "draw_layers app (z + 1) s1 = Some s'" "redrawn s1 s'" "painted s' (unat (g_next_z s) + 1)" using f(3) by auto
  have "draw_layers app z s = Some s'" using z s1(1) s'(1) by (subst draw_layers.simps) (simp add: word_le_nat_alt)
  then show ?case using s'(3) redrawn_trans [OF s1(2) s'(2)] by blast
qed

section \<open>The window at a point\<close>

text \<open>\<open>q\<close> is the highest window of the list that is not pinned and contains the point; 0 if there is none.\<close>

definition highest :: "wm \<Rightarrow> u16 \<Rightarrow> u16 \<Rightarrow> u32 set \<Rightarrow> u32 \<Rightarrow> bool" where
  "highest s x y P q \<longleftrightarrow>
     (if q = 0 then \<forall>p w. p \<in> P \<and> wins s p = Some w \<longrightarrow> win_pinned w \<or> \<not> win_contains w x y
      else q \<in> P \<and> (\<exists>v. wins s q = Some v \<and> \<not> win_pinned v \<and> win_contains v x y \<and>
        (\<forall>p w. p \<in> P \<and> wins s p = Some w \<and> \<not> win_pinned w \<and> win_contains w x y \<longrightarrow> win_z w \<le> win_z v)))"

lemma best_at_ok:
  assumes "table_ok s" and "\<forall>i \<in> set is. i < unat (g_num_windows s)" and "highest s x y P b" and "0 \<notin> P"
  shows "\<exists>q. best_at x y s is b = Some q \<and> highest s x y (P \<union> (\<lambda>i. g_windows s ! i) ` set is) q"
  using assms(2-)
proof (induction "is" arbitrary: b P)
  case (Cons i "is")
  let ?p = "g_windows s ! i"
  have i: "i < unat (g_num_windows s)" using Cons.prems(1) by simp
  note sl = slot_window [OF assms(1) i]
  obtain w where w: "wins s ?p = Some w" using sl(3) by blast
  have P: "P \<union> (\<lambda>i. g_windows s ! i) ` set (i # is) = insert ?p P \<union> (\<lambda>i. g_windows s ! i) ` set is" by auto
  have go: ?case if b': "highest s x y (insert ?p P) b'" "best_at x y s (i # is) b = best_at x y s is b'" for b'
  proof -
    have "\<exists>q. best_at x y s is b' = Some q \<and> highest s x y (insert ?p P \<union> (\<lambda>i. g_windows s ! i) ` set is) q"
      by (rule Cons.IH [OF _ b'(1)]) (use Cons.prems sl(2) in auto)
    then show ?case unfolding P b'(2) .
  qed
  show ?case
  proof (cases "win_pinned w \<or> \<not> win_contains w x y")
    case True
    then have "highest s x y (insert ?p P) b" using Cons.prems(2) w unfolding highest_def by (auto split: if_splits)
    then show ?thesis using True sl(1,2) w by (intro go) auto
  next
    case False
    show ?thesis
    proof (cases "b = 0")
      case True
      then have "highest s x y (insert ?p P) ?p" using Cons.prems(2) w False sl(2) unfolding highest_def by auto
      then show ?thesis using True False sl(1,2) w by (intro go) auto
    next
      case b: False
      obtain v where v: "b \<in> P" "wins s b = Some v" "\<not> win_pinned v" "win_contains v x y"
        "\<And>p w. p \<in> P \<Longrightarrow> wins s p = Some w \<Longrightarrow> \<not> win_pinned w \<Longrightarrow> win_contains w x y \<Longrightarrow> win_z w \<le> win_z v"
        using Cons.prems(2) b unfolding highest_def by auto
      have "highest s x y (insert ?p P) (if win_z w > win_z v then ?p else b)"
      proof (cases "win_z w > win_z v")
        case True
        have "win_z u \<le> win_z w" if "q \<in> insert ?p P" "wins s q = Some u" "\<not> win_pinned u" "win_contains u x y" for q u
          using that v(5) [of q u] True w by auto
        then show ?thesis using True sl(2) w False unfolding highest_def by auto
      next
        case c: False
        have "win_z u \<le> win_z v" if "q \<in> insert ?p P" "wins s q = Some u" "\<not> win_pinned u" "win_contains u x y" for q u
          using that v(5) [of q u] c w by auto
        then show ?thesis using c b v(1-4) unfolding highest_def by auto
      qed
      then show ?thesis using False b sl(1,2) w v(2) by (intro go) auto
    qed
  qed
qed simp

lemma first_at_ok:
  assumes "table_ok s" and "\<forall>i \<in> set is. i < unat (g_num_windows s)"
  shows "\<exists>q. first_at x y s is = Some q \<and>
    (if q = 0 then \<forall>i \<in> set is. \<forall>w. wins s (g_windows s ! i) = Some w \<longrightarrow> \<not> win_contains w x y
     else \<exists>w. wins s q = Some w \<and> win_contains w x y)"
  using assms(2)
proof (induction "is")
  case (Cons i "is")
  have i: "i < unat (g_num_windows s)" using Cons.prems by simp
  note sl = slot_window [OF assms(1) i]
  obtain w where w: "wins s (g_windows s ! i) = Some w" using sl(3) by blast
  obtain q where q: "first_at x y s is = Some q" "if q = 0 then \<forall>i \<in> set is. \<forall>w. wins s (g_windows s ! i) = Some w \<longrightarrow> \<not> win_contains w x y
     else \<exists>w. wins s q = Some w \<and> win_contains w x y" using Cons by auto
  show ?case using q sl(1,2) w by (cases "win_contains w x y") (auto split: if_splits)
qed simp

text \<open>Points on the screen as 16-bit numbers.\<close>

lemma contains_covers:
  assumes "win_visible w"
  shows "win_contains w x y = covers w (unat y) (unat x)"
  using assms by (auto simp: win_contains_def covers_def word_le_nat_alt)

lemma win_at_top:
  assumes "wm_inv s" and "layers_ok s"
  shows "\<exists>q. win_at x y s = Some q \<and>
    (if q = 0 then \<forall>p w. wins s p = Some w \<longrightarrow> \<not> covers w (unat y) (unat x)
     else \<exists>w. top_at s (unat (g_next_z s) + 1) (unat y) (unat x) q w)"
proof -
  have tab: "table_ok s" and vis: "\<And>p w. wins s p = Some w \<Longrightarrow> win_visible w" using assms(1) unfolding wm_inv_def by blast+
  have cc: "win_contains w x y = covers w (unat y) (unat x)" if "wins s p = Some w" for p w using contains_covers [OF vis [OF that]] .
  have zz: "unat (win_z w) < unat (g_next_z s) + 1" if "wins s p = Some w" for p w using assms(2) that unfolding layers_ok_def by fastforce
  have slotI: "\<exists>i \<in> set [0 ..< unat (g_num_windows s)]. g_windows s ! i = p" if p: "wins s p = Some w" for p w
    by (rule window_slot [OF tab p]) auto
  obtain b where b: "best_at x y s [0 ..< unat (g_num_windows s)] 0 = Some b"
    "highest s x y ({} \<union> (\<lambda>i. g_windows s ! i) ` set [0 ..< unat (g_num_windows s)]) b"
    using best_at_ok [OF tab, of "[0 ..< unat (g_num_windows s)]" x y "{}" 0] by (auto simp: highest_def)
  show ?thesis
  proof (cases "b = 0")
    case False
    obtain v where v: "wins s b = Some v" "\<not> win_pinned v" "win_contains v x y"
      "\<And>p w. wins s p = Some w \<Longrightarrow> \<not> win_pinned w \<Longrightarrow> win_contains w x y \<Longrightarrow> win_z w \<le> win_z v"
      using b(2) False slotI unfolding highest_def by (auto simp: image_iff) blast
    have "unat (win_z w) \<le> unat (win_z v)" if w: "wins s p = Some w" "covers w (unat y) (unat x)" for p w
    proof (cases "win_pinned w")
      case True
      then have "p \<noteq> b" using v(1,2) w(1) by auto
      then have "unat (win_z w) < unat (win_z v)" using assms(2) w(1) v(1) True unfolding layers_ok_def by blast
      then show ?thesis by simp
    next
      case False
      then show ?thesis using v(4) [OF w(1)] cc [OF w(1)] w(2) by (simp add: word_le_nat_alt)
    qed
    then have "top_at s (unat (g_next_z s) + 1) (unat y) (unat x) b v" using v(1,3) cc [OF v(1)] zz [OF v(1)] unfolding top_at_def by blast
    then show ?thesis using b(1) False by (auto simp: win_at_def)
  next
    case True
    obtain q where q: "first_at x y s [0 ..< unat (g_num_windows s)] = Some q"
      "if q = 0 then \<forall>i \<in> set [0 ..< unat (g_num_windows s)]. \<forall>w. wins s (g_windows s ! i) = Some w \<longrightarrow> \<not> win_contains w x y
       else \<exists>w. wins s q = Some w \<and> win_contains w x y"
      using first_at_ok [OF tab, of "[0 ..< unat (g_num_windows s)]" x y] by auto
    have pin: "win_pinned w" if "wins s p = Some w" "covers w (unat y) (unat x)" for p w
      using b(2) True slotI [OF that(1)] that cc [OF that(1)] unfolding highest_def by auto
    have run: "win_at x y s = Some q" using b(1) True q(1) by (simp add: win_at_def)
    show ?thesis
    proof (cases "q = 0")
      case True
      have "\<not> covers w (unat y) (unat x)" if "wins s p = Some w" for p w
        using slotI [OF that] q(2) True that cc [OF that] by auto
      then show ?thesis using run True by auto
    next
      case False
      then obtain v where v: "wins s q = Some v" "win_contains v x y" using q(2) by auto
      have pv: "win_pinned v" using pin [OF v(1)] v(2) cc [OF v(1)] by simp
      have "unat (win_z w) \<le> unat (win_z v)" if w: "wins s p = Some w" "covers w (unat y) (unat x)" for p w
      proof (cases "p = q")
        case True
        then show ?thesis using w(1) v(1) by simp
      next
        case ne: False
        have "\<not> win_pinned w" using assms(2) v(1) w(1) pv ne unfolding layers_ok_def by metis
        then show ?thesis using pin [OF w] by simp
      qed
      then have "top_at s (unat (g_next_z s) + 1) (unat y) (unat x) q v" using v cc [OF v(1)] zz [OF v(1)] unfolding top_at_def by blast
      then show ?thesis using run False by auto
    qed
  qed
qed

section \<open>The whole screen\<close>

definition cursor_over :: "wm \<Rightarrow> nat \<Rightarrow> nat \<Rightarrow> tui_cell_t \<Rightarrow> tui_cell_t" where
  "cursor_over s r c v = (if g_cursor_visible s \<and> unat (g_cursor_row s) = r \<and> unat (g_cursor_col s) = c then v\<lparr>cell_attr := 0x70\<rparr> else v)"

lemma show_cursor_ok:
  assumes "length m = 2000"
  shows "\<exists>m'. show_cursor s m = Some m' \<and> length m' = 2000 \<and> (\<forall>r < 25. \<forall>c < 80. m' ! (r * 80 + c) = cursor_over s r c (m ! (r * 80 + c)))"
proof (cases "g_cursor_visible s \<and> unat (g_cursor_row s) < 25 \<and> unat (g_cursor_col s) < 80")
  case True
  let ?i = "unat (g_cursor_row s) * 80 + unat (g_cursor_col s)"
  have i: "?i < length m" using True assms by simp
  have "m[?i := (m ! ?i)\<lparr>cell_attr := 0x70\<rparr>] ! (r * 80 + c) = cursor_over s r c (m ! (r * 80 + c))" if "r < 25" "c < 80" for r c
    using True i that grid_index_eq [of "unat (g_cursor_col s)" 80 c "unat (g_cursor_row s)" r] by (auto simp: cursor_over_def nth_list_update)
  then show ?thesis using True i assms by (auto simp: show_cursor_def Let_def arr_rules TUI_WIDTH_def TUI_HEIGHT_def)
next
  case False
  then show ?thesis using assms by (auto simp: show_cursor_def cursor_over_def TUI_WIDTH_def TUI_HEIGHT_def)
qed

lemma copy_screen_ok:
  "\<forall>i \<in> set is. i < length m \<and> i < length v \<Longrightarrow>
    \<exists>v'. copy_screen is m v = Some v' \<and> length v' = length v \<and> (\<forall>j < length v. v' ! j = (if j \<in> set is then cell_word (m ! j) else v ! j))"
proof (induction "is" arbitrary: v)
  case (Cons i "is")
  obtain v' where "copy_screen is m (v[i := cell_word (m ! i)]) = Some v'" "length v' = length v"
    "\<forall>j < length v. v' ! j = (if j \<in> set is then cell_word (m ! j) else v[i := cell_word (m ! i)] ! j)"
    using Cons.IH [of "v[i := cell_word (m ! i)]"] Cons.prems by auto
  then show ?case using Cons.prems by (auto simp: arr_rules nth_list_update)
qed simp

lemma painted_blank:
  assumes "screen_ok scr" "\<forall>r < 25. \<forall>c < 80. cell_at scr r c = cell 32 (tui_theme_attr 0)" and "layers_ok s" and "g_screen s = scr"
  shows "painted s 1"
proof -
  have "\<not> unat (win_z w) < 1" if "wins s p = Some w" for p w using assms(3) that unfolding layers_ok_def by fastforce
  then have "\<not> top_at s 1 r c p w" for r c p w unfolding top_at_def by blast
  then show ?thesis using assms(1,2,4) unfolding painted_def by blast
qed

text \<open>With the counter of layers at its end the loop over the layers has no end.\<close>

lemma draw_window_z:
  assumes "draw_ok app" and "draw_window_border app p s = Some s'"
  shows "g_next_z s' = g_next_z s"
proof -
  obtain w where w: "wins s p = Some w" using assms(2) by (cases "wins s p") (auto simp: draw_window_border_def)
  obtain scr where scr: "put_seq (frame_cells w) (g_screen s) = Some scr"
    using assms(2) w by (cases "put_seq (frame_cells w) (g_screen s)") (auto simp: draw_window_border_def)
  let ?s1 = "s\<lparr>g_screen := scr\<rparr>"
  have "\<exists>f. (case win_on_draw w of None \<Rightarrow> Some ?s1 | Some cb \<Rightarrow> app_draw app cb p ?s1) = Some (?s1\<lparr>wins := f\<rparr>)"
  proof (cases "win_on_draw w")
    case None
    then show ?thesis by (auto intro!: exI [of _ "wins s"])
  next
    case (Some cb)
    have "wins ?s1 p = Some w" using w by simp
    then show ?thesis using assms(1) Some unfolding draw_ok_def by fastforce
  qed
  then obtain f where "(case win_on_draw w of None \<Rightarrow> Some ?s1 | Some cb \<Rightarrow> app_draw app cb p ?s1) = Some (?s1\<lparr>wins := f\<rparr>)" ..
  then show ?thesis using assms(2) w scr by (auto simp: draw_window_border_def Let_def bind_eq_Some_conv)
qed

lemma draw_layer_z: "draw_ok app \<Longrightarrow> draw_layer app z i s = Some s' \<Longrightarrow> g_next_z s' = g_next_z s"
proof (induction app z i s arbitrary: s' rule: draw_layer.induct)
  case (1 app z i s)
  show ?case
  proof (cases "i < unat (g_num_windows s)")
    case False
    then show ?thesis using 1(3) by (subst (asm) draw_layer.simps) simp
  next
    case True
    let ?m = "\<lambda>p. if p = 0 then Some s else do { w \<leftarrow> wins s p; if win_visible w \<and> win_z w = z then draw_window_border app p s else Some s }"
    obtain p s1 where p: "arr_get (g_windows s) i = Some p" "?m p = Some s1" "draw_layer app z (Suc i) s1 = Some s'"
      using 1(3) True by (subst (asm) draw_layer.simps) (auto simp: bind_eq_Some_conv)
    have "g_next_z s1 = g_next_z s" using p(2) draw_window_z [OF 1(2)] by (auto simp: bind_eq_Some_conv split: if_splits)
    then show ?thesis using 1(1) [OF True p(1,2) 1(2) p(3)] by simp
  qed
qed

lemma draw_layers_never:
  assumes "draw_ok app" and "g_next_z s = 255"
  shows "draw_layers app z s = None"
proof (rule ccontr)
  assume "draw_layers app z s \<noteq> None"
  then obtain r where r: "draw_layers app z s = Some r" by blast
  have "draw_ok app \<longrightarrow> g_next_z s \<noteq> 255"
  proof (rule draw_layers.raw_induct [OF _ r, of "\<lambda>app z s r. draw_ok app \<longrightarrow> g_next_z s \<noteq> 255"], goal_cases)
    case (1 dl app z s r)
    show ?case
    proof (intro impI notI)
      assume a: "draw_ok app" "g_next_z s = 255"
      have "z \<le> 255" using unat_less_len [of z] by (simp add: word_le_nat_alt)
      then obtain s1 where s1: "draw_layer app z 0 s = Some s1" "dl app (z + 1) s1 = Some r" using 1(2) a(2) by (auto simp: bind_eq_Some_conv)
      then show False using 1(1) [OF s1(2)] a draw_layer_z [OF a(1) s1(1)] by simp
    qed
  qed
  then show False using assms by blast
qed

section \<open>Properties\<close>

text \<open>The screen after a composition.\<close>

lemma composite_hit:
  assumes "draw_ok app" and "wm_inv s" "layers_ok s" and "screen_addr s \<noteq> 0" "length (g_screen_cells s) = 2000" "length (vga_text s) = 2000"
  shows "if g_next_z s = 255 then tui_composite app s = None
    else \<exists>s'. tui_composite app s = Some s' \<and> (\<forall>r < 25. \<forall>c < 80. \<exists>q. win_at (word_of_nat c) (word_of_nat r) s' = Some q \<and>
      vga_text s' ! (r * 80 + c) = cell_word (cursor_over s' r c
        (if q = 0 then cell 32 (tui_theme_attr 0)
         else win_cell (the (wins s' q)) (r - unat (win_y (the (wins s' q)))) (c - unat (win_x (the (wins s' q)))))))"
proof -
  let ?scr = "\<lparr>surf_ptr = screen_addr s, surf_cells = g_screen_cells s, surf_width = word_of_nat TUI_WIDTH, surf_height = word_of_nat TUI_HEIGHT\<rparr>"
  have "surf_ok ?scr" "unat (surf_width ?scr) = 80" "unat (surf_height ?scr) = 25" using assms(4,5) by (auto simp: surf_ok_def TUI_WIDTH_def TUI_HEIGHT_def)
  note c1 = surface_clear_ok [OF this(1), of "tui_theme_attr 0", unfolded this(2,3)]
  then obtain a where a: "tui_surface_clear (tui_theme_attr 0) ?scr = Some a" "screen_ok a"
    using \<open>unat (surf_width ?scr) = 80\<close> \<open>unat (surf_height ?scr) = 25\<close> by (auto simp: screen_ok_def)
  obtain b where b: "tui_surface_clear (tui_theme_attr 0) a = Some b" "screen_ok b" "\<forall>r < 25. \<forall>c < 80. cell_at b r c = cell 32 (tui_theme_attr 0)"
    using surface_clear_ok [of a "tui_theme_attr 0"] a(2) by (auto simp: screen_ok_def)
  let ?s = "s\<lparr>g_screen := b\<rparr>"
  have inv: "wm_inv ?s" "layers_ok ?s" using assms(2,3) inv_cong [of ?s s] by simp_all
  have comp: "tui_wm_composite app (s\<lparr>g_screen := a\<rparr>) = draw_layers app 1 ?s" using b(1) by (simp add: tui_wm_composite_def)
  show ?thesis
  proof (cases "g_next_z s = 255")
    case True
    then have "draw_layers app 1 ?s = None" by (intro draw_layers_never [OF assms(1)]) simp
    then show ?thesis using True a(1) comp by (simp add: tui_composite_def Let_def)
  next
    case False
    have z: "unat (g_next_z ?s) < 255"
    proof -
      have "unat (g_next_z s) \<noteq> unat (255 :: u8)" using False unsigned_word_eqI [of "g_next_z s" 255] by blast
      then show ?thesis using unat_less_len [of "g_next_z s"] by simp
    qed
    have pb: "painted ?s (unat (1 :: u8))" using painted_blank [OF b(2,3) inv(2)] by simp
    obtain s2 where s2: "draw_layers app 1 ?s = Some s2" "redrawn ?s s2" "painted s2 (unat (g_next_z ?s) + 1)"
      using draw_layers_paints [OF assms(1) inv pb z] by auto
    note f = redrawn_fields [OF s2(2)]
    have sc: "screen_ok (g_screen s2)" using s2(3) by (simp add: painted_def)
    then have l: "length (surf_cells (g_screen s2)) = 2000" "unat (surf_width (g_screen s2)) = 80" by (auto simp: screen_ok_def surf_ok_def)
    obtain m where m: "show_cursor s2 (surf_cells (g_screen s2)) = Some m" "length m = 2000"
      "\<forall>r < 25. \<forall>c < 80. m ! (r * 80 + c) = cursor_over s2 r c (surf_cells (g_screen s2) ! (r * 80 + c))"
      using show_cursor_ok [OF l(1)] by blast
    obtain v where v: "copy_screen [0 ..< 2000] m (vga_text s2) = Some v" "length v = 2000" "\<forall>j < 2000. v ! j = cell_word (m ! j)"
      using copy_screen_ok [of "[0 ..< 2000]" m "vga_text s2"] m(2) f(6) assms(6) by auto
    let ?s' = "s2\<lparr>g_screen := (g_screen s2)\<lparr>surf_cells := m\<rparr>, g_screen_cells := m, vga_text := v\<rparr>"
    have run: "tui_composite app s = Some ?s'"
      using a(1) comp s2(1) m(1) v(1) by (simp add: tui_composite_def Let_def TUI_WIDTH_def TUI_HEIGHT_def del: upt_rec_numeral)
    have inv': "wm_inv ?s'" "layers_ok ?s'"
      using redrawn_inv [OF s2(2) inv] inv_cong [of ?s' s2] by simp_all
    have "\<exists>q. win_at (word_of_nat c) (word_of_nat r) ?s' = Some q \<and> v ! (r * 80 + c) = cell_word (cursor_over ?s' r c
        (if q = 0 then cell 32 (tui_theme_attr 0) else win_cell (the (wins ?s' q)) (r - unat (win_y (the (wins ?s' q)))) (c - unat (win_x (the (wins ?s' q))))))"
      if rc: "r < 25" "c < 80" for r c
    proof -
      have u: "unat (word_of_nat r :: u16) = r" "unat (word_of_nat c :: u16) = c" using rc by (simp_all add: unat_of_nat)
      obtain q where q: "win_at (word_of_nat c) (word_of_nat r) ?s' = Some q"
        "if q = 0 then \<forall>p w. wins s2 p = Some w \<longrightarrow> \<not> covers w r c else \<exists>w. top_at s2 (unat (g_next_z s2) + 1) r c q w"
      proof -
        have t: "top_at ?s' n r c q w = top_at s2 n r c q w" for n q w by (simp add: top_at_def)
        have fs: "wins ?s' = wins s2" "g_next_z ?s' = g_next_z s2" by simp_all
        show thesis using win_at_top [OF inv', of "word_of_nat c" "word_of_nat r"] that unfolding u t fs by auto
      qed
      have cellv: "v ! (r * 80 + c) = cell_word (cursor_over ?s' r c (cell_at (g_screen s2) r c))"
        using v(3) m(3) rc l(2) by (simp add: cell_at_def cursor_over_def)
      show ?thesis
      proof (cases "q = 0")
        case True
        then have "\<forall>p w. wins s2 p = Some w \<longrightarrow> \<not> covers w r c" using q(2) by simp
        then have "cell_at (g_screen s2) r c = cell 32 (tui_theme_attr 0)" using s2(3) rc unfolding painted_def by blast
        then show ?thesis using q(1) cellv True by auto
      next
        case False
        then obtain w where w: "top_at s2 (unat (g_next_z s2) + 1) r c q w" using q(2) by auto
        then have "cell_at (g_screen s2) r c = win_cell w (r - unat (win_y w)) (c - unat (win_x w))" "wins s2 q = Some w"
          using s2(3) rc f(3) unfolding painted_def by (auto simp: top_at_def)
        then show ?thesis using q(1) cellv False by auto
      qed
    qed
    then show ?thesis using False run by auto
  qed
qed

end
