(* ===== verification/Tui_Wm_Props.thy ===== *)
theory Tui_Wm_Props
  imports Tui_Screen Heap_Inv
begin

text \<open>
  The calls of the window manager keep its table, the focus and the places of the windows, and the layers
  until their counter comes to its end; the focus goes round the windows in order.
\<close>

section \<open>Focus\<close>

text \<open>The state after window \<open>p\<close> has got the focus and come to the top, unless it is pinned.\<close>

definition focus_win :: "u32 \<Rightarrow> wm \<Rightarrow> u32 \<Rightarrow> tui_win_t \<Rightarrow> tui_win_t" where
  "focus_win p s q v = v\<lparr>win_focused := (q = p), win_z := (if q = p \<and> \<not> win_pinned v then g_next_z s else win_z v)\<rparr>"

definition focus_to :: "u32 \<Rightarrow> wm \<Rightarrow> wm" where
  "focus_to p s = s\<lparr>wins := (\<lambda>q. map_option (focus_win p s q) (wins s q)),
     g_next_z := (if win_pinned (the (wins s p)) then g_next_z s else g_next_z s + 1), g_focused := p\<rparr>"

lemma focus_okD:
  assumes "focus_ok s" and "wins s q = Some v"
  shows "win_focused v = (q = g_focused s)"
  using assms by (simp add: focus_ok_def)

lemma raise_eq:
  assumes "focus_ok s" and "wins s p = Some w" "p \<noteq> 0" and "wins s 0 = None"
  shows "tui_win_raise p s = Some (focus_to p s)"
proof -
  have fd: "win_focused v = (q = g_focused s)" if "wins s q = Some v" for q v by (rule focus_okD [OF assms(1) that])
  define w1 where "w1 = w\<lparr>win_z := (if win_pinned w then win_z w else g_next_z s)\<rparr>"
  define s1 where "s1 = s\<lparr>wins := (wins s)(p := Some w1), g_next_z := (if win_pinned w then g_next_z s else g_next_z s + 1)\<rparr>"
  have s1: "(if \<not> win_pinned w then s\<lparr>wins := (wins s)(p := Some (w\<lparr>win_z := g_next_z s\<rparr>)), g_next_z := g_next_z s + 1\<rparr> else s) = s1"
    using assms(2) by (auto simp: s1_def w1_def fun_upd_idem)
  have fw: "focus_win p s p w = w1\<lparr>win_focused := True\<rparr>" by (simp add: focus_win_def w1_def)
  have fo: "focus_win p s q v = v" if "wins s q = Some v" "q \<noteq> p" "q \<noteq> g_focused s" for q v using fd [OF that(1)] that by (simp add: focus_win_def)
  have eq: "(\<lambda>q. map_option (focus_win p s q) (wins s q)) = f"
    if "f p = Some (w1\<lparr>win_focused := True\<rparr>)" "\<And>q. q \<noteq> p \<Longrightarrow> q \<noteq> g_focused s \<Longrightarrow> f q = wins s q"
      "g_focused s \<noteq> p \<Longrightarrow> f (g_focused s) = map_option (\<lambda>v. v\<lparr>win_focused := False\<rparr>) (wins s (g_focused s))" for f
  proof
    fix q
    consider "q = p" | "q \<noteq> p" "q = g_focused s" | "q \<noteq> p" "q \<noteq> g_focused s" by blast
    then show "map_option (focus_win p s q) (wins s q) = f q"
    proof cases
      case 1
      then show ?thesis using that(1) assms(2) fw by simp
    next
      case 2
      then show ?thesis using that(3) by (cases "wins s q") (auto simp: focus_win_def)
    next
      case 3
      then show ?thesis using that(2) fo by (cases "wins s q") auto
    qed
  qed
  have pin: "win_pinned (the (wins s p)) = win_pinned w" using assms(2) by simp
  show ?thesis
  proof (cases "g_focused s = p")
    case True
    then have "win_focused w" using fd [OF assms(2)] by simp
    then have "(\<lambda>q. map_option (focus_win p s q) (wins s q)) = (wins s)(p := Some w1)" by (intro eq) (auto simp: True w1_def)
    moreover have "tui_win_raise p s = Some s1" using assms(2,3) True s1 by (simp add: tui_win_raise_def Let_def) (simp add: s1_def)
    ultimately show ?thesis using True by (simp add: focus_to_def pin s1_def)
  next
    case False
    have "g_focused s = 0 \<or> g_focused s \<in> dom (wins s)" using assms(1) by (simp add: focus_ok_def)
    then consider "g_focused s = 0" | v where "g_focused s \<noteq> 0" "wins s (g_focused s) = Some v" by blast
    then show ?thesis
    proof cases
      case 1
      then have "(\<lambda>q. map_option (focus_win p s q) (wins s q)) = (wins s)(p := Some (w1\<lparr>win_focused := True\<rparr>))"
        using assms(3,4) by (intro eq) auto
      moreover have "tui_win_raise p s = Some (s1\<lparr>wins := (wins s)(p := Some (w1\<lparr>win_focused := True\<rparr>)), g_focused := p\<rparr>)"
        using assms(2,3) 1 s1 by (simp add: tui_win_raise_def Let_def upd_win_def) (simp add: s1_def)
      ultimately show ?thesis by (simp add: focus_to_def pin s1_def)
    next
      case 2
      let ?f = "(wins s)(g_focused s := Some (v\<lparr>win_focused := False\<rparr>), p := Some (w1\<lparr>win_focused := True\<rparr>))"
      have "(\<lambda>q. map_option (focus_win p s q) (wins s q)) = ?f" using False 2(2) by (intro eq) auto
      moreover have "tui_win_raise p s = Some (s1\<lparr>wins := ?f, g_focused := p\<rparr>)"
        using assms(2,3) 2 False s1 by (simp add: tui_win_raise_def Let_def upd_win_def) (simp add: s1_def fun_upd_twist)
      ultimately show ?thesis by (simp add: focus_to_def pin s1_def)
    qed
  qed
qed

definition only_focus :: "u32 \<Rightarrow> wm \<Rightarrow> wm" where
  "only_focus p s = s\<lparr>wins := (\<lambda>q. map_option (\<lambda>v. v\<lparr>win_focused := (q = p)\<rparr>) (wins s q)), g_focused := p\<rparr>"

lemma only_focus_map:
  assumes "focus_ok s" and "wins s p = Some w" and "f p = Some (w\<lparr>win_focused := True\<rparr>)" and "\<And>q. q \<noteq> p \<Longrightarrow> q \<noteq> g_focused s \<Longrightarrow> f q = wins s q"
    and "g_focused s \<noteq> p \<Longrightarrow> f (g_focused s) = map_option (\<lambda>v. v\<lparr>win_focused := False\<rparr>) (wins s (g_focused s))"
  shows "(\<lambda>q. map_option (\<lambda>v. v\<lparr>win_focused := (q = p)\<rparr>) (wins s q)) = f"
proof
  fix q
  consider "q = p" | "q \<noteq> p" "q = g_focused s" | "q \<noteq> p" "q \<noteq> g_focused s" by blast
  then show "map_option (\<lambda>v. v\<lparr>win_focused := (q = p)\<rparr>) (wins s q) = f q"
  proof cases
    case 1
    then show ?thesis using assms(2,3) by simp
  next
    case 2
    then show ?thesis using assms(5) by (cases "wins s q") auto
  next
    case 3
    then show ?thesis using assms(4) focus_okD [OF assms(1)] by (cases "wins s q") auto
  qed
qed

lemma set_focus_eq:
  assumes "focus_ok s" and "wins s p = Some w" "p \<noteq> 0" and "wins s 0 = None"
  shows "tui_win_set_focus p s = Some (focus_to p s)"
proof -
  let ?o = "only_focus p s"
  have "g_focused s = 0 \<or> g_focused s \<in> dom (wins s)" using assms(1) by (simp add: focus_ok_def)
  then consider "g_focused s = 0" | v where "g_focused s \<noteq> 0" "wins s (g_focused s) = Some v" by blast
  then have st: "do { s1 \<leftarrow> (if g_focused s \<noteq> 0 then upd_win (g_focused s) (\<lambda>w. w\<lparr>win_focused := False\<rparr>) s else Some s);
      s2 \<leftarrow> upd_win p (\<lambda>w. w\<lparr>win_focused := True\<rparr>) s1; tui_win_raise p (s2\<lparr>g_focused := p\<rparr>) } = tui_win_raise p ?o"
  proof cases
    case 1
    have "wins ?o = (wins s)(p := Some (w\<lparr>win_focused := True\<rparr>))"
      unfolding only_focus_def using 1 assms(3,4) by (simp, intro only_focus_map [OF assms(1,2)]) auto
    then have "?o = s\<lparr>wins := (wins s)(p := Some (w\<lparr>win_focused := True\<rparr>)), g_focused := p\<rparr>" by (simp add: only_focus_def)
    then show ?thesis using 1 assms(2) by (simp add: upd_win_def)
  next
    case 2
    have "wins ?o = (wins s)(g_focused s := Some (v\<lparr>win_focused := False\<rparr>), p := Some (w\<lparr>win_focused := True\<rparr>))"
      unfolding only_focus_def using 2(2) by (simp, intro only_focus_map [OF assms(1,2)]) auto
    then have "?o = s\<lparr>wins := (wins s)(g_focused s := Some (v\<lparr>win_focused := False\<rparr>), p := Some (w\<lparr>win_focused := True\<rparr>)), g_focused := p\<rparr>"
      by (simp add: only_focus_def)
    then show ?thesis using 2 assms(2) by (cases "g_focused s = p") (auto simp: upd_win_def)
  qed
  have "focus_ok ?o" "wins ?o p = Some (w\<lparr>win_focused := True\<rparr>)" "wins ?o 0 = None" using assms(2,4) by (auto simp: only_focus_def focus_ok_def)
  then have "tui_win_raise p ?o = Some (focus_to p ?o)" by (intro raise_eq [OF _ _ assms(3)])
  moreover have "focus_to p ?o = focus_to p s"
  proof -
    have "(\<lambda>q. map_option (focus_win p ?o q) (wins ?o q)) = (\<lambda>q. map_option (focus_win p s q) (wins s q))"
    proof
      fix q
      show "map_option (focus_win p ?o q) (wins ?o q) = map_option (focus_win p s q) (wins s q)"
        by (cases "wins s q") (simp_all add: only_focus_def focus_win_def)
    qed
    then show ?thesis using assms(2) by (simp add: focus_to_def only_focus_def)
  qed
  ultimately show ?thesis using st assms(3) by (simp add: tui_win_set_focus_def)
qed

text \<open>Windows where only the focus and the layer have changed.\<close>

lemma focus_win_ok: "win_ok (focus_win p s q v) = win_ok v" "win_visible (focus_win p s q v) = win_visible v" "win_pinned (focus_win p s q v) = win_pinned v"
  by (simp_all add: focus_win_def win_ok_def)

lemma focus_to_wins:
  assumes "wins (focus_to p s) q = Some v'"
  obtains v where "wins s q = Some v" "v' = focus_win p s q v"
  using assms by (auto simp: focus_to_def)

lemma focus_to_inv:
  assumes "wm_inv s" and "wins s p = Some w"
  shows "wm_inv (focus_to p s)"
proof -
  have d: "dom (wins (focus_to p s)) = dom (wins s)" by (auto simp: focus_to_def dom_def)
  have "table_ok (focus_to p s)" using assms(1) d by (simp add: wm_inv_def table_ok_def slots_def) (simp add: focus_to_def)
  moreover have "focus_ok (focus_to p s)" 
  proof -
    have "g_focused (focus_to p s) = p" "p \<in> dom (wins (focus_to p s))" using assms(2) d by (auto simp: focus_to_def)
    then show ?thesis unfolding focus_ok_def by (auto simp: focus_win_def elim!: focus_to_wins)
  qed
  moreover have "win_ok v' \<and> win_visible v'" if v': "wins (focus_to p s) q = Some v'" for q v'
    using v' assms(1) by (auto simp: wm_inv_def focus_win_ok elim!: focus_to_wins)
  ultimately show ?thesis by (simp add: wm_inv_def)
qed

lemma focus_to_layers:
  assumes "layers_ok s" and "wins s p = Some w" and "unat (g_next_z s) < 255" "1 \<le> unat (g_next_z s)"
  shows "layers_ok (focus_to p s)"
proof -
  let ?s = "focus_to p s"
  have nz: "unat (g_next_z ?s) = (if win_pinned w then unat (g_next_z s) else unat (g_next_z s) + 1)"
    using assms(2,3) by (simp add: focus_to_def unat_add_nowrap)
  have z: "\<And>q v. wins s q = Some v \<Longrightarrow> 1 \<le> unat (win_z v) \<and> unat (win_z v) < unat (g_next_z s)"
    "\<And>q r u v. wins s q = Some v \<Longrightarrow> wins s r = Some u \<Longrightarrow> win_z v = win_z u \<Longrightarrow> q = r"
    "\<And>q r u v. wins s q = Some v \<Longrightarrow> wins s r = Some u \<Longrightarrow> win_pinned v \<Longrightarrow> q \<noteq> r \<Longrightarrow> \<not> win_pinned u \<and> unat (win_z v) < unat (win_z u)"
    using assms(1) unfolding layers_ok_def by blast+
  have zf: "win_z (focus_win p s q v) = (if q = p \<and> \<not> win_pinned v then g_next_z s else win_z v)" for q v by (simp add: focus_win_def)
  have neq: "win_z v \<noteq> g_next_z s" if "wins s q = Some v" for q v using z(1) [OF that] by auto
  show ?thesis
    unfolding layers_ok_def
  proof (intro conjI allI impI; (elim conjE)?)
    fix q v' assume "wins ?s q = Some v'"
    then obtain v where v: "wins s q = Some v" "v' = focus_win p s q v" by (rule focus_to_wins)
    show "1 \<le> unat (win_z v')" "unat (win_z v') < unat (g_next_z ?s)"
      using z(1) [OF v(1)] v assms(2,4) unfolding nz by (auto simp: zf)
  next
    fix q r u' v' assume a: "wins ?s q = Some v'" "wins ?s r = Some u'" "win_z v' = win_z u'"
    obtain v where v: "wins s q = Some v" "v' = focus_win p s q v" by (rule focus_to_wins [OF a(1)])
    obtain u where u: "wins s r = Some u" "u' = focus_win p s r u" by (rule focus_to_wins [OF a(2)])
    show "q = r" using a(3) z(2) [OF v(1) u(1)] neq [OF v(1)] neq [OF u(1)] unfolding v(2) u(2) by (auto simp: zf split: if_splits)
  next
    fix q r u' v' assume a: "wins ?s q = Some v'" "wins ?s r = Some u'" "win_pinned v'" "q \<noteq> r"
    obtain v where v: "wins s q = Some v" "v' = focus_win p s q v" by (rule focus_to_wins [OF a(1)])
    obtain u where u: "wins s r = Some u" "u' = focus_win p s r u" by (rule focus_to_wins [OF a(2)])
    have "win_pinned v" using a(3) v(2) by (simp add: focus_win_ok)
    then have "\<not> win_pinned u \<and> unat (win_z v) < unat (win_z u)" "unat (win_z v) < unat (g_next_z s)" using z(3) [OF v(1) u(1)] z(1) [OF v(1)] a(4) by auto
    then show "\<not> win_pinned u'" "unat (win_z v') < unat (win_z u')" using \<open>win_pinned v\<close> unfolding v(2) u(2) by (auto simp: zf focus_win_ok)
  qed
qed

section \<open>Places\<close>

lemma sint_nonneg:
  assumes "0 \<le> sint (v :: u16)"
  shows "sint v = int (unat v)"
proof -
  have b: "\<not> bit (uint v) 15" using assms bit_last_iff [of v] by (simp add: bit_uint_iff)
  have "uint v = take_bit (Suc 15) (uint v)" using uint_bounded [of v] by (simp add: take_bit_int_eq_self)
  also have "\<dots> = take_bit 15 (uint v)" using b by (simp only: take_bit_Suc_from_most) simp
  also have "\<dots> = sint v" using b by (simp add: sint_uint signed_take_bit_eq_if_positive)
  finally show ?thesis by simp
qed

lemma on_screen_ok:
  assumes "unat e \<le> n" and "n < 2 ^ 15"
  shows "unat (on_screen n e v) + unat e \<le> n"
proof -
  define v1 where "v1 = (if sint v < 0 then 0 else v)"
  have n: "unat (word_of_nat n - e :: u16) = n - unat e"
  proof -
    have "unat (word_of_nat n :: u16) = n" using assms(2) by (simp add: unat_of_nat)
    then show ?thesis using assms(1) by (simp add: unat_sub_nowrap)
  qed
  have "0 \<le> sint v1" by (simp add: v1_def)
  then have "int (unat v1) = sint v1" by (rule sint_nonneg [symmetric])
  then have "\<not> sint v1 + int (unat e) > int n \<Longrightarrow> unat v1 + unat e \<le> n" by linarith
  then show ?thesis using assms(1) n unfolding on_screen_def Let_def v1_def [symmetric] by auto
qed

lemma inv_no_null: "wm_inv s \<Longrightarrow> wins s 0 = None"
  by (auto simp: wm_inv_def table_ok_def)

lemma inv_window:
  assumes "wm_inv s" and "wins s p = Some w"
  shows "focus_ok s" "p \<noteq> 0" "win_ok w" "win_visible w"
  using assms inv_no_null [OF assms(1)] by (auto simp: wm_inv_def)

text \<open>A window at another place.\<close>

lemma place_inv:
  assumes "wm_inv s" and w: "wins s p = Some w" and "unat a + unat (win_w w) \<le> 80" "unat b + unat (win_h w) \<le> 25"
    and s': "s' = s\<lparr>wins := (wins s)(p := Some (w\<lparr>win_x := a, win_y := b\<rparr>))\<rparr>"
  shows "wm_inv s'" "layers_ok s \<Longrightarrow> layers_ok s'"
proof -
  have d: "dom (wins s') = dom (wins s)" using w s' by auto
  have bk: "\<exists>u. wins s q = Some u \<and> (v = u \<or> v = u\<lparr>win_x := a, win_y := b\<rparr> \<and> u = w)" if "wins s' q = Some v" for q v
    using that w s' by (auto split: if_splits)
  have "table_ok s'" using assms(1) d by (simp add: wm_inv_def table_ok_def slots_def s')
  moreover have "focus_ok s'"
  proof -
    have "win_focused v = (q = g_focused s)" if "wins s' q = Some v" for q v
      using bk [OF that] inv_window(1) [OF assms(1) w] by (auto simp: focus_ok_def)
    then show ?thesis using inv_window(1) [OF assms(1) w] d by (simp add: focus_ok_def s')
  qed
  moreover have "win_ok v \<and> win_visible v" if "wins s' q = Some v" for q v
    using bk [OF that] assms(1,3,4) inv_window(3,4) [OF assms(1) w] by (auto simp: wm_inv_def win_ok_def)
  ultimately show "wm_inv s'" by (simp add: wm_inv_def)
  assume l: "layers_ok s"
  have bz: "\<exists>u. wins s q = Some u \<and> win_z u = win_z v \<and> win_pinned u = win_pinned v" if "wins s' q = Some v" for q v using bk [OF that] by auto
  show "layers_ok s'" by (rule layers_sub [OF l bz]) (simp_all add: s')
qed

lemma move_ok:
  assumes "wm_inv s" and "wins s p = Some w"
  shows "\<exists>s'. tui_win_move p dx dy s = Some s' \<and> wm_inv s' \<and> (layers_ok s \<longrightarrow> layers_ok s') \<and> g_next_z s' = g_next_z s"
proof -
  have w: "unat (win_w w) \<le> 80" "unat (win_h w) \<le> 25" using inv_window(3) [OF assms] by (auto simp: win_ok_def)
  let ?a = "on_screen TUI_WIDTH (win_w w) (win_x w + dx)" and ?b = "on_screen TUI_HEIGHT (win_h w) (win_y w + dy)"
  let ?s = "s\<lparr>wins := (wins s)(p := Some (w\<lparr>win_x := ?a, win_y := ?b\<rparr>))\<rparr>"
  have "unat ?a + unat (win_w w) \<le> 80" "unat ?b + unat (win_h w) \<le> 25"
    using on_screen_ok [of "win_w w" 80] on_screen_ok [of "win_h w" 25] w by (simp_all add: TUI_WIDTH_def TUI_HEIGHT_def)
  from place_inv [OF assms this refl] have "wm_inv ?s" "layers_ok s \<longrightarrow> layers_ok ?s" by blast+
  then show ?thesis using assms(2) inv_window(2) [OF assms] by (simp add: tui_win_move_def upd_win_def)
qed

section \<open>The table\<close>

lemma win_index_ok:
  assumes "\<forall>i \<in> set is. i < length ws"
  shows "\<exists>r. win_index ws p is = Some r \<and> (case r of None \<Rightarrow> \<forall>i \<in> set is. ws ! i \<noteq> p | Some i \<Rightarrow> i \<in> set is \<and> ws ! i = p)"
  using assms
proof (induction "is")
  case (Cons i "is")
  then obtain r where "win_index ws p is = Some r" "case r of None \<Rightarrow> \<forall>i \<in> set is. ws ! i \<noteq> p | Some i \<Rightarrow> i \<in> set is \<and> ws ! i = p" by auto
  then show ?case using Cons.prems by (cases "ws ! i = p") (auto simp: arr_rules split: option.splits)
qed simp

lemma win_index_live:
  assumes "table_ok s" and "wins s p = Some w"
  shows "\<exists>i < unat (g_num_windows s). win_index (g_windows s) p [0 ..< unat (g_num_windows s)] = Some (Some i) \<and> g_windows s ! i = p"
proof -
  have "\<forall>i \<in> set [0 ..< unat (g_num_windows s)]. i < length (g_windows s)" using assms(1) by (auto simp: table_ok_def)
  from win_index_ok [OF this, of p] obtain r where r: "win_index (g_windows s) p [0 ..< unat (g_num_windows s)] = Some r"
    "case r of None \<Rightarrow> \<forall>i \<in> set [0 ..< unat (g_num_windows s)]. g_windows s ! i \<noteq> p | Some i \<Rightarrow> i \<in> set [0 ..< unat (g_num_windows s)] \<and> g_windows s ! i = p" by blast
  obtain k where k: "k < unat (g_num_windows s)" "g_windows s ! k = p" by (rule window_slot [OF assms])
  show ?thesis using r k by (cases r) auto
qed

lemma win_index_dead:
  assumes "table_ok s" and "wins s p = None"
  shows "win_index (g_windows s) p [0 ..< unat (g_num_windows s)] = Some None"
proof -
  have "\<forall>i \<in> set [0 ..< unat (g_num_windows s)]. i < length (g_windows s)" using assms(1) by (auto simp: table_ok_def)
  from win_index_ok [OF this, of p] obtain r where r: "win_index (g_windows s) p [0 ..< unat (g_num_windows s)] = Some r"
    "case r of None \<Rightarrow> \<forall>i \<in> set [0 ..< unat (g_num_windows s)]. g_windows s ! i \<noteq> p | Some i \<Rightarrow> i \<in> set [0 ..< unat (g_num_windows s)] \<and> g_windows s ! i = p" by blast
  have "r = None"
  proof (cases r)
    case (Some i)
    then show ?thesis using r(2) slot_window(3) [OF assms(1), of i] assms(2) by auto
  qed
  then show ?thesis using r(1) by simp
qed

text \<open>The window that gets the focus next: the one behind the focused one in the table, in a circle.\<close>

definition next_slot :: "wm \<Rightarrow> u32 \<Rightarrow> bool" where
  "next_slot s q \<longleftrightarrow> (if g_focused s = 0 then q = g_windows s ! 0
     else \<exists>i < unat (g_num_windows s). g_windows s ! i = g_focused s \<and> q = g_windows s ! (Suc i mod unat (g_num_windows s)))"

lemma cycle_ok:
  assumes "wm_inv s"
  shows "(g_num_windows s = 0 \<longrightarrow> tui_win_cycle_focus s = Some s) \<and>
    (g_num_windows s \<noteq> 0 \<longrightarrow> (\<exists>q w. next_slot s q \<and> wins s q = Some w \<and> tui_win_cycle_focus s = Some (if q = g_focused s then s else focus_to q s)))"
proof (cases "g_num_windows s = 0")
  case True
  then show ?thesis by (simp add: tui_win_cycle_focus_def)
next
  case False
  then have n: "0 < unat (g_num_windows s)" by (simp add: unat_gt_0)
  have tab: "table_ok s" and foc: "g_focused s = 0 \<or> g_focused s \<in> dom (wins s)" using assms by (auto simp: wm_inv_def focus_ok_def)
  define start where "start = (case the (win_index (g_windows s) (g_focused s) [0 ..< unat (g_num_windows s)]) of None \<Rightarrow> - 1 | Some i \<Rightarrow> int i)"
  define nx where "nx = nat (start + 1) mod unat (g_num_windows s)"
  have idx: "\<exists>r. win_index (g_windows s) (g_focused s) [0 ..< unat (g_num_windows s)] = Some r"
    using foc win_index_live [OF tab] win_index_dead [OF tab] inv_no_null [OF assms] by fastforce
  have ns: "next_slot s (g_windows s ! nx) \<and> (int nx = start \<longleftrightarrow> g_windows s ! nx = g_focused s)"
  proof (cases "g_focused s = 0")
    case True
    then have "start = - 1" using win_index_dead [OF tab, of 0] inv_no_null [OF assms] by (simp add: start_def)
    then show ?thesis using True slot_window(2) [OF tab n] by (auto simp: next_slot_def nx_def)
  next
    case f: False
    then obtain w where "wins s (g_focused s) = Some w" using foc by auto
    from win_index_live [OF tab this] obtain i where i: "i < unat (g_num_windows s)" "start = int i" "g_windows s ! i = g_focused s" by (auto simp: start_def)
    have nx: "nx = Suc i mod unat (g_num_windows s)" using i(2) by (simp add: nx_def nat_add_distrib)
    have "g_windows s ! nx = g_focused s \<longleftrightarrow> nx = i" using slot_inj [OF tab _ i(1), of nx] i(1,3) nx by auto
    then show ?thesis using f i nx by (auto simp: next_slot_def)
  qed
  have "nx < unat (g_num_windows s)" using n by (simp add: nx_def)
  note sl = slot_window [OF tab this]
  obtain w where w: "wins s (g_windows s ! nx) = Some w" using sl(3) by blast
  have vis: "win_visible w" by (rule inv_window(4) [OF assms w])
  have cn: "cycle_next s start nx = Some nx" using sl w vis by (subst cycle_next.simps) simp
  have "tui_win_cycle_focus s = (if int nx \<noteq> start then tui_win_set_focus (g_windows s ! nx) s else Some s)"
    using idx False cn sl(1,2) by (auto simp: tui_win_cycle_focus_def Let_def simp flip: start_def nx_def) (auto simp: start_def nx_def)
  also have "\<dots> = Some (if g_windows s ! nx = g_focused s then s else focus_to (g_windows s ! nx) s)"
    using ns set_focus_eq [OF inv_window(1) [OF assms w] w inv_window(2) [OF assms w] inv_no_null [OF assms]] by auto
  finally show ?thesis using False ns w by blast
qed

section \<open>New windows\<close>

lemma unat_widen: "unat (ucast (w :: u16) :: u32) = unat w"
  using unat_less_len [of w] by (simp add: unat_ucast_mod)

lemma surface_init_ok:
  assumes "unat w \<le> 80" "unat h \<le> 25" and "tui_surface_init w h hp = Some (surf, hp')" and "surf_ptr surf \<noteq> 0"
  shows "length (surf_cells surf) = unat w * unat h"
proof -
  let ?size = "(ucast w * ucast h) * 2 :: u32"
  have u: "unat (ucast w :: u32) = unat w" "unat (ucast h :: u32) = unat h" by (rule unat_widen)+
  have le: "unat w * unat h \<le> 80 * 25" using assms(1,2) by (intro mult_le_mono)
  then have "unat (ucast w * ucast h :: u32) = unat w * unat h" using u by (simp add: unat_mult_nowrap)
  then have sz: "unat ?size = unat w * unat h * 2" using le by (subst unat_mult_nowrap) (simp_all add: mult.commute)
  obtain q h1 where k: "kmalloc ?size hp = Some (q, h1)" using assms(3) by (cases "kmalloc ?size hp") (auto simp: tui_surface_init_def Let_def)
  let ?s = "\<lparr>surf_ptr = q, surf_cells = raw_cells (hmem h1) q (unat ?size div 2), surf_width = w, surf_height = h\<rparr>"
  have q: "q \<noteq> 0" using assms(3,4) k by (auto simp: tui_surface_init_def Let_def)
  have ok: "surf_ok ?s" using q sz by (simp add: surf_ok_def raw_cells_def)
  obtain s1 where s1: "tui_surface_clear (tui_make_attr TUI_LIGHT_GRAY TUI_BLACK) ?s = Some s1" "surf_ok s1" "surf_width s1 = w" "surf_height s1 = h"
    using surface_clear_ok [OF ok] by auto
  have "surf = s1" using assms(3) k q s1(1) by (simp add: tui_surface_init_def Let_def)
  then show ?thesis using s1(2-4) by (simp add: surf_ok_def)
qed

lemma centred_ok:
  assumes "unat w \<le> n" and "n \<le> 80"
  shows "unat (centred n w) + unat w \<le> n"
proof -
  have u: "unat (ucast w :: u32) = unat w" "unat (word_of_nat n :: u32) = n" using assms(2) by (simp_all add: unat_widen unat_of_nat)
  have "unat (word_of_nat n - ucast w :: u32) = n - unat w" using assms(1) u by (simp add: unat_sub_nowrap)
  then have d: "unat ((word_of_nat n - ucast w :: u32) div 2) = (n - unat w) div 2" by (simp add: unat_div)
  have "unat (centred n w) = (n - unat w) div 2" unfolding centred_def unat_ucast_mod d using assms(2) by simp
  then show ?thesis using assms(1) by linarith
qed

lemma table_add:
  assumes "table_ok s" and "unat (g_num_windows s) < 16" and "wins s p = None" "p \<noteq> 0"
    and s': "g_windows s' = (g_windows s)[unat (g_num_windows s) := p]" "g_num_windows s' = g_num_windows s + 1" "wins s' = (wins s)(p := Some w)"
  shows "table_ok s'"
proof -
  let ?n = "unat (g_num_windows s)"
  have n: "unat (g_num_windows s + 1) = Suc ?n" using assms(2) by (simp add: unat_add_nowrap)
  have l: "length (g_windows s) = 16" using assms(1) by (simp add: table_ok_def)
  have "slots s' = slots s @ [p]"
    unfolding slots_def s'(1,2) n using l assms(2) by (simp add: take_Suc_conv_app_nth)
  moreover have "p \<notin> set (slots s)" using assms(1,3) by (auto simp: table_ok_def)
  moreover have "dom (wins s') = insert p (dom (wins s))" using s'(3) by auto
  ultimately show ?thesis using assms(1,2,4) n l s' by (auto simp: table_ok_def)
qed

lemma win_create_ok:
  assumes inv: "wm_inv s" and size: "2 \<le> unat w" "unat w \<le> 80" "2 \<le> unat h" "unat h \<le> 25"
    and fresh: "\<And>p h1. kmalloc SIZEOF_WIN (wheap s) = Some (p, h1) \<Longrightarrow> wins s p = None"
    and run: "tui_win_create title w h s = Some (p, s')"
  shows "wm_inv s'" "layers_ok s \<Longrightarrow> 1 \<le> unat (g_next_z s) \<Longrightarrow> unat (g_next_z s) < 254 \<Longrightarrow> layers_ok s'"
proof -
  have "wm_inv s' \<and> (layers_ok s \<and> 1 \<le> unat (g_next_z s) \<and> unat (g_next_z s) < 254 \<longrightarrow> layers_ok s')"
  proof (cases "unat (g_num_windows s) \<ge> MAX_WINDOWS")
    case True
    then show ?thesis using run inv by (simp add: tui_win_create_def)
  next
    case False
    then have n16: "unat (g_num_windows s) < 16" by (simp add: MAX_WINDOWS_def)
    obtain q h1 where k: "kmalloc SIZEOF_WIN (wheap s) = Some (q, h1)"
      using run False by (cases "kmalloc SIZEOF_WIN (wheap s)") (auto simp: tui_win_create_def)
    have heap: "wm_inv (s\<lparr>wheap := hh\<rparr>) \<and> (layers_ok s \<longrightarrow> layers_ok (s\<lparr>wheap := hh\<rparr>))" for hh using inv inv_cong [of "s\<lparr>wheap := hh\<rparr>" s] by simp
    show ?thesis
    proof (cases "q = 0")
      case True
      then have "s' = s\<lparr>wheap := h1\<rparr>" using run False k by (simp add: tui_win_create_def)
      then show ?thesis using heap [of h1] by simp
    next
      case q: False
      obtain surf h2 where si: "tui_surface_init w h h1 = Some (surf, h2)"
        using run False k q by (cases "tui_surface_init w h h1") (auto simp: tui_win_create_def)
      show ?thesis
      proof (cases "surf_ptr surf = 0")
        case True
        then obtain h3 where "s' = s\<lparr>wheap := h3\<rparr>" using run False k q si by (cases "kfree q h2") (auto simp: tui_win_create_def)
        then show ?thesis using heap [of h3] by simp
      next
        case sp: False
        define win where "win = \<lparr>win_x = centred TUI_WIDTH w, win_y = centred TUI_HEIGHT h, win_w = w, win_h = h,
          win_title = (case title of None \<Rightarrow> [] | Some t \<Rightarrow> take (MAX_TITLE_LEN - 1) t),
          win_content = surf, win_visible = True, win_focused = False, win_z = g_next_z s, win_pinned = False,
          win_app_data = 0, win_on_draw = None, win_on_key = None, win_on_mouse = None\<rparr>"
        define s1 where "s1 = s\<lparr>wheap := h2, g_next_z := g_next_z s + 1, wins := (wins s)(q := Some win),
          g_windows := (g_windows s)[unat (g_num_windows s) := q], g_num_windows := g_num_windows s + 1\<rparr>"
        have tab: "table_ok s" "length (g_windows s) = 16" and foc: "focus_ok s" using inv by (auto simp: wm_inv_def table_ok_def)
        have wq: "wins s q = None" by (rule fresh [OF k])
        have as: "arr_set (g_windows s) (unat (g_num_windows s)) q = Some ((g_windows s)[unat (g_num_windows s) := q])" using tab(2) n16 by (simp add: arr_rules)
        have s': "tui_win_raise q s1 = Some s'" "q = p"
          using run False k q si sp as by (auto simp: tui_win_create_def Let_def bind_eq_Some_conv simp flip: win_def s1_def)
        have ok: "win_ok win"
          using size surface_init_ok [OF size(2,4) si sp] centred_ok [of w 80] centred_ok [of h 25]
          by (simp add: win_ok_def win_def TUI_WIDTH_def TUI_HEIGHT_def)
        have t1: "table_ok s1" by (rule table_add [OF tab(1) n16 wq q, where w = win]) (simp_all add: s1_def)
        have nf: "q \<noteq> g_focused s" using foc wq q by (auto simp: focus_ok_def)
        have f1: "focus_ok s1" using foc nf by (auto simp: focus_ok_def s1_def win_def)
        have i1: "wm_inv s1" using t1 f1 inv ok by (auto simp: wm_inv_def s1_def win_def)
        have w1: "wins s1 q = Some win" by (simp add: s1_def)
        have s'1: "s' = focus_to q s1" using raise_eq [OF f1 w1 q inv_no_null [OF i1]] s'(1) by simp
        have "layers_ok s1" if l: "layers_ok s" "1 \<le> unat (g_next_z s)" "unat (g_next_z s) < 254"
        proof -
          have z: "\<And>q v. wins s q = Some v \<Longrightarrow> 1 \<le> unat (win_z v) \<and> unat (win_z v) < unat (g_next_z s)"
            "\<And>q r u v. wins s q = Some v \<Longrightarrow> wins s r = Some u \<Longrightarrow> win_z v = win_z u \<Longrightarrow> q = r"
            "\<And>q r u v. wins s q = Some v \<Longrightarrow> wins s r = Some u \<Longrightarrow> win_pinned v \<Longrightarrow> q \<noteq> r \<Longrightarrow> \<not> win_pinned u \<and> unat (win_z v) < unat (win_z u)"
            using l(1) unfolding layers_ok_def by blast+
          have nz: "unat (g_next_z s1) = unat (g_next_z s) + 1" using l(3) by (simp add: s1_def unat_add_nowrap)
          have ws: "wins s1 r = (if r = q then Some win else wins s r)" for r by (simp add: s1_def)
          have zn: "win_z v \<noteq> g_next_z s" if "wins s r = Some v" for r v using z(1) [OF that] by auto
          have wz: "win_z win = g_next_z s" "\<not> win_pinned win" by (simp_all add: win_def)
          show ?thesis unfolding layers_ok_def nz ws
          proof (intro conjI allI impI; (elim conjE)?)
            fix r v assume "(if r = q then Some win else wins s r) = Some v"
            then show "1 \<le> unat (win_z v)" "unat (win_z v) < unat (g_next_z s) + 1" using z(1) [of r v] l(2) wz by (auto split: if_splits)
          next
            fix r t u v assume "(if r = q then Some win else wins s r) = Some v" "(if t = q then Some win else wins s t) = Some u" "win_z v = win_z u"
            then show "r = t" using z(2) [of r v t u] zn wz by (auto split: if_splits)
          next
            fix r t u v assume a: "(if r = q then Some win else wins s r) = Some v" "(if t = q then Some win else wins s t) = Some u" "win_pinned v" "r \<noteq> t"
            then have r: "wins s r = Some v" using wz by (auto split: if_splits)
            show "\<not> win_pinned u" "unat (win_z v) < unat (win_z u)" using a z(1) [OF r] z(3) [OF r, of t u] wz by (auto split: if_splits)
          qed
        qed
        moreover have "1 \<le> unat (g_next_z s1)" "unat (g_next_z s1) < 255" if "unat (g_next_z s) < 254" using that by (simp_all add: s1_def unat_add_nowrap)
        ultimately show ?thesis using focus_to_inv [OF i1 w1] focus_to_layers [OF _ w1] s'1 by blast
      qed
    qed
  qed
  then show "wm_inv s'" "layers_ok s \<Longrightarrow> 1 \<le> unat (g_next_z s) \<Longrightarrow> unat (g_next_z s) < 254 \<Longrightarrow> layers_ok s'" by blast+
qed

section \<open>Destroying windows\<close>

lemma shift_down_ok:
  assumes "m < length ws" and "i \<le> m"
  shows "\<exists>ws'. shift_down [i ..< m] ws = Some ws' \<and> length ws' = length ws \<and>
    (\<forall>j < length ws. ws' ! j = (if i \<le> j \<and> j < m then ws ! Suc j else ws ! j))"
  using assms
proof (induction "m - i" arbitrary: i ws)
  case 0
  then have "i = m" by simp
  then show ?case using 0 by auto
next
  case (Suc d)
  have i: "i < m" "[i ..< m] = i # [Suc i ..< m]" using Suc.hyps(2) by (auto simp: upt_conv_Cons)
  obtain ws' where ws': "shift_down [Suc i ..< m] (ws[i := ws ! Suc i]) = Some ws'" "length ws' = length ws"
    "\<forall>j < length ws. ws' ! j = (if Suc i \<le> j \<and> j < m then ws[i := ws ! Suc i] ! Suc j else ws[i := ws ! Suc i] ! j)"
  proof -
    have "d = m - Suc i" "m < length (ws[i := ws ! Suc i])" "Suc i \<le> m" using Suc.hyps(2) Suc.prems(1) i(1) by simp_all
    from Suc.hyps(1) [OF this] show thesis using that by simp blast
  qed
  have "ws' ! j = (if i \<le> j \<and> j < m then ws ! Suc j else ws ! j)" if "j < length ws" for j
    using ws'(3) that i(1) Suc.prems(1) by (auto simp: nth_list_update)
  then show ?case unfolding i(2) using ws' i(1) Suc.prems(1) by (auto simp: arr_rules)
qed

lemma remove_slot:
  assumes "i < n" "n \<le> length ws" and "length ws' = length ws" and "\<forall>j < length ws. ws' ! j = (if i \<le> j \<and> j < n - 1 then ws ! Suc j else ws ! j)"
  shows "take (n - 1) (ws'[n - 1 := 0]) = take i (take n ws) @ drop (Suc i) (take n ws)"
proof (rule nth_equalityI)
  show "length (take (n - 1) (ws'[n - 1 := 0])) = length (take i (take n ws) @ drop (Suc i) (take n ws))" using assms(1-3) by simp
next
  fix j assume "j < length (take (n - 1) (ws'[n - 1 := 0]))"
  then have j: "j < n - 1" "j < length ws" using assms(1-3) by simp_all
  have "take (n - 1) (ws'[n - 1 := 0]) ! j = ws' ! j" using j by simp
  also have "\<dots> = (if i \<le> j then ws ! Suc j else ws ! j)" using assms(4) j by auto
  also have "\<dots> = (take i (take n ws) @ drop (Suc i) (take n ws)) ! j"
  proof (cases "j < i")
    case True
    then show ?thesis using assms(1,2) by (simp add: nth_append)
  next
    case False
    then have "Suc (i + (j - i)) = Suc j" by simp
    then show ?thesis using False assms(1,2) j by (simp add: nth_append)
  qed
  finally show "take (n - 1) (ws'[n - 1 := 0]) ! j = (take i (take n ws) @ drop (Suc i) (take n ws)) ! j" .
qed

text \<open>The focus after the focused window has gone: on another window, if there is one.\<close>

lemma refocus_ok:
  assumes "table_ok s" and "\<And>q w. wins s q = Some w \<Longrightarrow> win_visible w" and "j \<le> unat (g_num_windows s)"
  shows "(\<exists>q w. q \<noteq> p \<and> q \<noteq> 0 \<and> wins s q = Some w \<and> refocus p j s = Some (s\<lparr>g_focused := q, wins := (wins s)(q := Some (w\<lparr>win_focused := True\<rparr>))\<rparr>)) \<or>
    refocus p j s = Some s"
  using assms(3)
proof (induction j)
  case (Suc j)
  have j: "j < unat (g_num_windows s)" using Suc.prems by simp
  note sl = slot_window [OF assms(1) j]
  obtain w where w: "wins s (g_windows s ! j) = Some w" using sl(3) by blast
  show ?case
  proof (cases "g_windows s ! j = p")
    case True
    then show ?thesis using Suc sl(1) by simp
  next
    case False
    then have "refocus p (Suc j) s = Some (s\<lparr>g_focused := g_windows s ! j, wins := (wins s)(g_windows s ! j := Some (w\<lparr>win_focused := True\<rparr>))\<rparr>)"
      using sl w assms(2) [OF w] by (simp add: upd_win_def)
    then show ?thesis using False sl(2) w by blast
  qed
qed simp

lemma table_remove:
  assumes "table_ok s" and i: "i < unat (g_num_windows s)" "g_windows s ! i = p"
    and ws: "shift_down [i ..< unat (g_num_windows s) - 1] (g_windows s) = Some ws" "arr_set ws (unat (g_num_windows s) - 1) 0 = Some ws1"
    and s': "g_windows s' = ws1" "g_num_windows s' = g_num_windows s - 1" "dom (wins s') = dom (wins s) - {p}"
  shows "table_ok s'"
proof -
  let ?n = "unat (g_num_windows s)"
  have t: "length (g_windows s) = 16" "?n \<le> 16" "distinct (slots s)" "0 \<notin> set (slots s)" "dom (wins s) = set (slots s)" using assms(1) by (auto simp: table_ok_def)
  have n1: "unat (g_num_windows s - 1) = ?n - 1" using i(1) by (simp add: unat_sub_nowrap)
  obtain ws' where ws': "shift_down [i ..< ?n - 1] (g_windows s) = Some ws'" "length ws' = 16"
    "\<forall>j < 16. ws' ! j = (if i \<le> j \<and> j < ?n - 1 then g_windows s ! Suc j else g_windows s ! j)"
  proof -
    have "?n - 1 < length (g_windows s)" "i \<le> ?n - 1" using i(1) t(1,2) by linarith+
    from shift_down_ok [OF this] show thesis using that unfolding t(1) by blast
  qed
  have e: "ws = ws'" using ws(1) ws'(1) by simp
  have ws1: "ws1 = ws'[?n - 1 := 0]" "length ws1 = 16" using ws(2) ws'(2) by (auto simp: arr_rules e)
  have sl: "slots s' = take i (slots s) @ drop (Suc i) (slots s)"
    unfolding slots_def s'(1,2) n1 ws1(1) by (rule remove_slot) (use i(1) t(1,2) ws' in auto)
  have pi: "i < length (slots s)" "slots s ! i = p" using i t(1,2) by (auto simp: slots_def)
  have dec: "slots s = take i (slots s) @ p # drop (Suc i) (slots s)" using id_take_nth_drop [OF pi(1)] pi(2) by simp
  have d: "distinct (take i (slots s) @ p # drop (Suc i) (slots s))" using t(3) dec by simp
  have "set (slots s) = insert p (set (slots s'))" unfolding sl by (subst dec) auto
  moreover have "p \<notin> set (slots s')" "distinct (slots s')" using d unfolding sl by auto
  ultimately show ?thesis using t n1 ws1(2) s' by (auto simp: table_ok_def)
qed

lemma win_destroy_ok:
  assumes inv: "wm_inv s" and w: "wins s p = Some w" and run: "tui_win_destroy p s = Some s'"
  shows "wm_inv s'" "layers_ok s \<Longrightarrow> layers_ok s'" "wins s' p = None" "g_next_z s' = g_next_z s"
proof -
  let ?n = "unat (g_num_windows s)"
  have tab: "table_ok s" and foc: "focus_ok s" and vis: "\<And>q v. wins s q = Some v \<Longrightarrow> win_visible v" using inv by (auto simp: wm_inv_def)
  have p0: "p \<noteq> 0" by (rule inv_window(2) [OF inv w])
  obtain i where i: "i < ?n" "win_index (g_windows s) p [0 ..< ?n] = Some (Some i)" "g_windows s ! i = p" using win_index_live [OF tab w] by blast
  obtain h1 where h1: "(if surf_ptr (win_content w) \<noteq> 0 then kfree (surf_ptr (win_content w)) (wheap s) else Some (wheap s)) = Some h1"
    using run w p0 i(2) by (cases "if surf_ptr (win_content w) \<noteq> 0 then kfree (surf_ptr (win_content w)) (wheap s) else Some (wheap s)") (auto simp: tui_win_destroy_def)
  let ?s1 = "s\<lparr>wheap := h1\<rparr>"
  have t1: "table_ok (?s1\<lparr>g_focused := 0\<rparr>)" using tab by (simp add: table_ok_def slots_def)
  have ref: "(\<exists>q v. q \<noteq> p \<and> q \<noteq> 0 \<and> wins s q = Some v \<and>
        (if g_focused ?s1 = p then refocus p ?n (?s1\<lparr>g_focused := 0\<rparr>) else Some ?s1) = Some (?s1\<lparr>g_focused := q, wins := (wins s)(q := Some (v\<lparr>win_focused := True\<rparr>))\<rparr>)) \<or>
      (if g_focused ?s1 = p then refocus p ?n (?s1\<lparr>g_focused := 0\<rparr>) else Some ?s1) = Some (if g_focused s = p then ?s1\<lparr>g_focused := 0\<rparr> else ?s1)"
    using refocus_ok [OF t1, of ?n p] vis by auto
  obtain f g where s2: "(if g_focused ?s1 = p then refocus p ?n (?s1\<lparr>g_focused := 0\<rparr>) else Some ?s1) = Some (?s1\<lparr>g_focused := g, wins := f\<rparr>)"
    "dom f = dom (wins s)" "g \<noteq> p" "g = 0 \<or> g \<in> dom (wins s)"
    "\<And>q v. f q = Some v \<Longrightarrow> \<exists>u. wins s q = Some u \<and> v = u\<lparr>win_focused := win_focused v\<rparr> \<and> (q \<noteq> p \<longrightarrow> win_focused v = (q = g))"
  proof -
    have fd: "win_focused v = (q = g_focused s)" if "wins s q = Some v" for q v by (rule focus_okD [OF foc that])
    have gf: "g_focused s = 0 \<or> g_focused s \<in> dom (wins s)" using foc by (simp add: focus_ok_def)
    have n0: "wins s 0 = None" by (rule inv_no_null [OF inv])
    from ref show thesis
    proof (elim disjE exE conjE)
      fix q v assume q: "q \<noteq> p" "q \<noteq> 0" "wins s q = Some v"
        "(if g_focused ?s1 = p then refocus p ?n (?s1\<lparr>g_focused := 0\<rparr>) else Some ?s1) = Some (?s1\<lparr>g_focused := q, wins := (wins s)(q := Some (v\<lparr>win_focused := True\<rparr>))\<rparr>)"
      have gq: "g_focused s = p \<or> g_focused s = q"
      proof (rule ccontr)
        assume a: "\<not> ?thesis"
        then have "?s1 = ?s1\<lparr>g_focused := q, wins := (wins s)(q := Some (v\<lparr>win_focused := True\<rparr>))\<rparr>" using q(4) by simp
        from arg_cong [where f = g_focused, OF this] show False using a by simp
      qed
      have "\<exists>u'. wins s r = Some u' \<and> u = u'\<lparr>win_focused := win_focused u\<rparr> \<and> (r \<noteq> p \<longrightarrow> win_focused u = (r = q))"
        if "((wins s)(q := Some (v\<lparr>win_focused := True\<rparr>))) r = Some u" for r u
        using that fd [of r u] q(3) gq by (auto split: if_splits)
      then show thesis using that [OF q(4)] q(1-3) by auto
    next
      assume a: "(if g_focused ?s1 = p then refocus p ?n (?s1\<lparr>g_focused := 0\<rparr>) else Some ?s1) = Some (if g_focused s = p then ?s1\<lparr>g_focused := 0\<rparr> else ?s1)"
      let ?g = "if g_focused s = p then 0 else g_focused s"
      have "(if g_focused s = p then ?s1\<lparr>g_focused := 0\<rparr> else ?s1) = ?s1\<lparr>g_focused := ?g, wins := wins s\<rparr>" by simp
      moreover have "\<exists>u'. wins s r = Some u' \<and> u = u'\<lparr>win_focused := win_focused u\<rparr> \<and> (r \<noteq> p \<longrightarrow> win_focused u = (r = ?g))" if "wins s r = Some u" for r u
        using that fd [OF that] n0 by auto
      ultimately show thesis using that [of "wins s" ?g] a p0 gf by auto
    qed
  qed
  let ?s2 = "?s1\<lparr>g_focused := g, wins := f\<rparr>"
  obtain ws where ws: "shift_down [i ..< ?n - 1] (g_windows s) = Some ws"
    using run w p0 i(2) h1 s2(1) by (cases "shift_down [i ..< ?n - 1] (g_windows s)") (auto simp: tui_win_destroy_def Let_def)
  obtain ws1 where ws1: "arr_set ws (?n - 1) 0 = Some ws1"
    using run w p0 i(2) h1 s2(1) ws by (cases "arr_set ws (?n - 1) 0") (auto simp: tui_win_destroy_def Let_def)
  obtain h2 where h2: "s' = ?s2\<lparr>g_windows := ws1, g_num_windows := g_num_windows s - 1, wheap := h2, wins := f(p := None)\<rparr>"
    using run w p0 i(2) h1 s2(1) ws ws1 by (cases "kfree p h1") (auto simp: tui_win_destroy_def Let_def)
  have ws': "wins s' = f(p := None)" "g_focused s' = g" "g_next_z s' = g_next_z s" by (simp_all add: h2)
  have bk: "\<exists>u. wins s q = Some u \<and> v = u\<lparr>win_focused := win_focused v\<rparr> \<and> win_focused v = (q = g)" if "wins s' q = Some v" for q v
    using that s2(5) [of q v] unfolding ws' by (auto split: if_splits)
  have dm: "dom (wins s') = dom (wins s) - {p}" using s2(2) unfolding ws' by auto
  have "table_ok s'" by (rule table_remove [OF tab i(1,3) ws ws1 _ _ dm]) (simp_all add: h2)
  moreover have "focus_ok s'" unfolding focus_ok_def dm ws'(2) using bk s2(3,4) by blast
  moreover have "win_ok v \<and> win_visible v" if v: "wins s' q = Some v" for q v
  proof -
    obtain u where u: "wins s q = Some u" "v = u\<lparr>win_focused := win_focused v\<rparr>" using bk [OF v] by blast
    have "win_ok (u\<lparr>win_focused := b\<rparr>) = win_ok u" "win_visible (u\<lparr>win_focused := b\<rparr>) = win_visible u" for b by (simp_all add: win_ok_def)
    then show ?thesis using inv_window(3,4) [OF inv u(1)] u(2) by metis
  qed
  ultimately show "wm_inv s'" by (simp add: wm_inv_def)
  show "wins s' p = None" "g_next_z s' = g_next_z s" by (simp_all add: ws')
  assume l: "layers_ok s"
  have "\<exists>u. wins s q = Some u \<and> win_z u = win_z v \<and> win_pinned u = win_pinned v" if v: "wins s' q = Some v" for q v
  proof -
    obtain u where u: "wins s q = Some u" "v = u\<lparr>win_focused := win_focused v\<rparr>" using bk [OF v] by blast
    have "win_z (u\<lparr>win_focused := b\<rparr>) = win_z u" "win_pinned (u\<lparr>win_focused := b\<rparr>) = win_pinned u" for b by simp_all
    then show ?thesis using u by metis
  qed
  from layers_sub [OF l this ws'(3)] show "layers_ok s'" .
qed


section \<open>Calls that return\<close>

lemma raise_returns:
  assumes "wins s p = Some w" and "g_focused s = 0 \<or> g_focused s \<in> dom (wins s)"
  shows "\<exists>s'. tui_win_raise p s = Some s'"
  using assms by (auto simp: tui_win_raise_def upd_win_def Let_def)

lemma create_returns:
  assumes inv: "wm_inv s" and k: "kmalloc SIZEOF_WIN (wheap s) = Some (q, h1)" and si: "tui_surface_init w h h1 = Some (surf, h2)"
    and kf: "surf_ptr surf = 0 \<Longrightarrow> kfree q h2 \<noteq> None"
  shows "\<exists>p s'. tui_win_create title w h s = Some (p, s')"
proof (cases "unat (g_num_windows s) \<ge> MAX_WINDOWS \<or> q = 0 \<or> surf_ptr surf = 0")
  case True
  then show ?thesis using k si kf by (auto simp: tui_win_create_def)
next
  case False
  have l: "length (g_windows s) = 16" and foc: "g_focused s = 0 \<or> g_focused s \<in> dom (wins s)" using inv by (auto simp: wm_inv_def table_ok_def focus_ok_def)
  have as: "\<exists>ws. arr_set (g_windows s) (unat (g_num_windows s)) q = Some ws" using l False by (simp add: arr_rules MAX_WINDOWS_def)
  have rs: "\<exists>s'. tui_win_raise q (s\<lparr>wheap := h2, g_next_z := g_next_z s + 1, wins := (wins s)(q := Some win), g_windows := ws, g_num_windows := g_num_windows s + 1\<rparr>) = Some s'" for win ws
    by (rule raise_returns) (use foc in auto)
  then show ?thesis using False k si as by (auto simp: tui_win_create_def Let_def bind_eq_Some_conv)
qed

lemma destroy_returns:
  assumes inv: "wm_inv s" and w: "wins s p = Some w"
    and h1: "(if surf_ptr (win_content w) \<noteq> 0 then kfree (surf_ptr (win_content w)) (wheap s) else Some (wheap s)) = Some h1" and h2: "kfree p h1 \<noteq> None"
  shows "\<exists>s'. tui_win_destroy p s = Some s'"
proof -
  let ?n = "unat (g_num_windows s)" and ?s1 = "s\<lparr>wheap := h1\<rparr>"
  have tab: "table_ok s" and vis: "\<And>q v. wins s q = Some v \<Longrightarrow> win_visible v" using inv by (auto simp: wm_inv_def)
  have p0: "p \<noteq> 0" by (rule inv_window(2) [OF inv w])
  obtain i where i: "i < ?n" "win_index (g_windows s) p [0 ..< ?n] = Some (Some i)" using win_index_live [OF tab w] by blast
  have t: "length (g_windows s) = 16" "?n \<le> 16" using tab by (auto simp: table_ok_def)
  have t1: "table_ok (?s1\<lparr>g_focused := 0\<rparr>)" using tab by (simp add: table_ok_def slots_def)
  have "?n - 1 < length (g_windows s)" "i \<le> ?n - 1" using i(1) t by linarith+
  from shift_down_ok [OF this] obtain ws where ws: "shift_down [i ..< ?n - 1] (g_windows s) = Some ws" "length ws = 16" using t(1) by auto
  have as: "arr_set ws (?n - 1) 0 = Some (ws[?n - 1 := 0])" using ws(2) t(2) i(1) by (simp add: arr_rules)
  obtain s2 where s2: "(if g_focused ?s1 = p then refocus p ?n (?s1\<lparr>g_focused := 0\<rparr>) else Some ?s1) = Some s2" "g_windows s2 = g_windows s" "wheap s2 = h1"
  proof (cases "g_focused ?s1 = p")
    case True
    have "\<exists>s2. refocus p ?n (?s1\<lparr>g_focused := 0\<rparr>) = Some s2 \<and> g_windows s2 = g_windows s \<and> wheap s2 = h1" using refocus_ok [OF t1, of ?n p] vis by auto
    then show ?thesis using that True by auto
  next
    case False
    then show ?thesis using that [of ?s1] by simp
  qed
  obtain h3 where h3: "kfree p h1 = Some h3" using h2 by blast
  show ?thesis using w p0 i(2) h1 s2 ws(1) as h3 by (simp add: tui_win_destroy_def Let_def)
qed

section \<open>Sequences of calls\<close>

text \<open>The calls of the window manager, and mouse events that are handled with the mouse in some state.\<close>

datatype wm_call = Create "bytes option" u16 u16 | Destroy u32 | Raise u32 | Move u32 u16 u16 | Focus u32 | Cycle | Pointer mouse tui_event_t

fun wm_exec :: "wm_call \<Rightarrow> wm \<Rightarrow> wm option" where
  "wm_exec (Create t w h) s = map_option snd (tui_win_create t w h s)"
| "wm_exec (Destroy p) s = tui_win_destroy p s"
| "wm_exec (Raise p) s = tui_win_raise p s"
| "wm_exec (Move p dx dy) s = tui_win_move p dx dy s"
| "wm_exec (Focus p) s = tui_win_set_focus p s"
| "wm_exec Cycle s = tui_win_cycle_focus s"
| "wm_exec (Pointer m ev) s = handle_mouse ev (s\<lparr>wmouse := m\<rparr>)"

text \<open>
  What a caller has to respect, and what is needed of the heap: a window fits on the screen, the heap returns and does not give out the address of a
  live window, and a pointer is null or a live window.
\<close>

definition heap_serves :: "u16 \<Rightarrow> u16 \<Rightarrow> wm \<Rightarrow> bool" where
  "heap_serves w h s \<longleftrightarrow>
     (case kmalloc SIZEOF_WIN (wheap s) of None \<Rightarrow> False
      | Some (p, h1) \<Rightarrow> wins s p = None \<and>
          (case tui_surface_init w h h1 of None \<Rightarrow> False | Some (surf, h2) \<Rightarrow> surf_ptr surf = 0 \<longrightarrow> kfree p h2 \<noteq> None))"

definition heap_frees :: "u32 \<Rightarrow> tui_win_t \<Rightarrow> wm \<Rightarrow> bool" where
  "heap_frees p w s \<longleftrightarrow>
     (case (if surf_ptr (win_content w) \<noteq> 0 then kfree (surf_ptr (win_content w)) (wheap s) else Some (wheap s)) of
        None \<Rightarrow> False | Some h1 \<Rightarrow> kfree p h1 \<noteq> None)"

fun call_ok :: "wm_call \<Rightarrow> wm \<Rightarrow> bool" where
  "call_ok (Create t w h) s \<longleftrightarrow> 2 \<le> unat w \<and> unat w \<le> 80 \<and> 2 \<le> unat h \<and> unat h \<le> 25 \<and> heap_serves w h s"
| "call_ok (Destroy p) s \<longleftrightarrow> (p \<noteq> 0 \<longrightarrow> (case wins s p of None \<Rightarrow> False | Some w \<Rightarrow> heap_frees p w s))"
| "call_ok (Raise p) s \<longleftrightarrow> p = 0 \<or> wins s p \<noteq> None"
| "call_ok (Move p dx dy) s \<longleftrightarrow> p = 0 \<or> wins s p \<noteq> None"
| "call_ok (Focus p) s \<longleftrightarrow> p = 0 \<or> wins s p \<noteq> None"
| "call_ok Cycle s \<longleftrightarrow> True"
| "call_ok (Pointer m ev) s \<longleftrightarrow> drag_win s = 0 \<or> wins s (drag_win s) \<noteq> None"

text \<open>What every call keeps; a call takes at most two layers.\<close>

definition kept :: "wm \<Rightarrow> wm \<Rightarrow> bool" where
  "kept s s' \<longleftrightarrow> wm_inv s' \<and> (1 \<le> unat (g_next_z s) \<and> unat (g_next_z s) < 254 \<longrightarrow>
     unat (g_next_z s) \<le> unat (g_next_z s') \<and> unat (g_next_z s') \<le> unat (g_next_z s) + 2 \<and> (layers_ok s \<longrightarrow> layers_ok s'))"

lemma kept_refl: "wm_inv s \<Longrightarrow> kept s s"
  by (simp add: kept_def)

lemma kept_focus:
  assumes "wm_inv s" and "wins s p = Some w"
  shows "kept s (focus_to p s)"
proof -
  have "unat (g_next_z (focus_to p s)) = (if win_pinned w then unat (g_next_z s) else unat (g_next_z s) + 1)" if "unat (g_next_z s) < 254"
    using assms(2) that by (simp add: focus_to_def unat_add_nowrap)
  then show ?thesis using focus_to_inv [OF assms] focus_to_layers [OF _ assms(2)] by (simp add: kept_def)
qed

lemma raise_layers:
  assumes "tui_win_raise p s = Some s'"
  shows "g_next_z s' = g_next_z s \<or> g_next_z s' = g_next_z s + 1"
  using assms by (auto simp: tui_win_raise_def upd_win_def Let_def bind_eq_Some_conv split: if_splits)

lemma create_layers:
  assumes "tui_win_create t w h s = Some (p, s')"
  shows "g_next_z s' = g_next_z s \<or> g_next_z s' = g_next_z s + 1 \<or> g_next_z s' = g_next_z s + 2"
  using assms by (auto simp: tui_win_create_def Let_def bind_eq_Some_conv split: if_splits dest!: raise_layers)

lemma kept_create:
  assumes "wm_inv s" and "call_ok (Create t w h) s"
  shows "\<exists>s'. wm_exec (Create t w h) s = Some s' \<and> kept s s'"
proof -
  obtain q h1 surf h2 where k: "kmalloc SIZEOF_WIN (wheap s) = Some (q, h1)" "wins s q = None" "tui_surface_init w h h1 = Some (surf, h2)"
    "surf_ptr surf = 0 \<Longrightarrow> kfree q h2 \<noteq> None"
    using assms(2) by (auto simp: heap_serves_def split: option.splits prod.splits)
  obtain p s' where run: "tui_win_create t w h s = Some (p, s')" using create_returns [OF assms(1) k(1,3,4)] by blast
  have b: "2 \<le> unat w" "unat w \<le> 80" "2 \<le> unat h" "unat h \<le> 25" using assms(2) by simp_all
  have fr: "\<And>p h1. kmalloc SIZEOF_WIN (wheap s) = Some (p, h1) \<Longrightarrow> wins s p = None" using k(1,2) by simp
  note c = win_create_ok [OF assms(1) b fr run]
  have z: "unat (g_next_z s + 1) = unat (g_next_z s) + 1" "unat (g_next_z s + 2) = unat (g_next_z s) + 2" if "unat (g_next_z s) < 254"
    using that by (simp_all add: unat_add_nowrap)
  have "unat (g_next_z s) \<le> unat (g_next_z s') \<and> unat (g_next_z s') \<le> unat (g_next_z s) + 2" if "unat (g_next_z s) < 254"
    using create_layers [OF run] z [OF that] by (elim disjE) simp_all
  then show ?thesis using c run by (simp add: kept_def)
qed

lemma kept_destroy:
  assumes "wm_inv s" and "call_ok (Destroy p) s"
  shows "\<exists>s'. wm_exec (Destroy p) s = Some s' \<and> kept s s'"
proof (cases "p = 0")
  case True
  then show ?thesis using kept_refl [OF assms(1)] by (simp add: tui_win_destroy_def)
next
  case False
  then obtain w where w: "wins s p = Some w" "heap_frees p w s" using assms(2) by (auto split: option.splits)
  obtain h1 where h1: "(if surf_ptr (win_content w) \<noteq> 0 then kfree (surf_ptr (win_content w)) (wheap s) else Some (wheap s)) = Some h1" "kfree p h1 \<noteq> None"
    using w(2) unfolding heap_frees_def by (cases "if surf_ptr (win_content w) \<noteq> 0 then kfree (surf_ptr (win_content w)) (wheap s) else Some (wheap s)") auto
  obtain s' where s': "tui_win_destroy p s = Some s'" using destroy_returns [OF assms(1) w(1) h1] by blast
  show ?thesis using win_destroy_ok [OF assms(1) w(1) s'] s' by (simp add: kept_def)
qed

lemma win_at_live:
  assumes "wm_inv s"
  shows "\<exists>q. win_at x y s = Some q \<and> (q = 0 \<or> (\<exists>w. wins s q = Some w))"
proof -
  have tab: "table_ok s" using assms by (simp add: wm_inv_def)
  obtain b where b: "best_at x y s [0 ..< unat (g_num_windows s)] 0 = Some b"
    "highest s x y ({} \<union> (\<lambda>i. g_windows s ! i) ` set [0 ..< unat (g_num_windows s)]) b"
    using best_at_ok [OF tab, of "[0 ..< unat (g_num_windows s)]" x y "{}" 0] by (auto simp: highest_def)
  obtain f where f: "first_at x y s [0 ..< unat (g_num_windows s)] = Some f" "f = 0 \<or> (\<exists>w. wins s f = Some w)"
    using first_at_ok [OF tab, of "[0 ..< unat (g_num_windows s)]" x y] by (auto split: if_splits)
  show ?thesis using b f by (cases "b = 0") (auto simp: win_at_def highest_def)
qed

lemma kept_cong:
  assumes "g_windows s' = g_windows s" "g_num_windows s' = g_num_windows s" "wins s' = wins s" "g_focused s' = g_focused s" "g_next_z s' = g_next_z s"
  shows "kept s' t = kept s t" "kept t s' = kept t s"
  using inv_cong [OF assms] assms(5) by (simp_all add: kept_def)

lemma focus_to_self: "wins s p = Some w \<Longrightarrow> wins (focus_to p s) p = Some (focus_win p s p w)"
  by (simp add: focus_to_def)

lemma kept_mouse:
  assumes inv: "wm_inv s" and dr: "drag_win s = 0 \<or> wins s (drag_win s) \<noteq> None"
  shows "\<exists>s'. handle_mouse ev s = Some s' \<and> kept s s'"
proof (cases "ev_buttons ev AND 0x01 \<noteq> 0")
  case False
  have "kept s (s\<lparr>dragging := False, drag_win := 0\<rparr>)" using kept_cong(2) [of _ s s] kept_refl [OF inv] by simp
  then show ?thesis using False by (simp add: handle_mouse_def Let_def)
next
  case True
  let ?c = "m_x (ps2mouse_get_state (wmouse s))" and ?r = "m_y (ps2mouse_get_state (wmouse s))"
  obtain q where q: "win_at ?c ?r s = Some q" "q = 0 \<or> (\<exists>w. wins s q = Some w)" using win_at_live [OF inv] by blast
  consider "q = 0" | w where "q \<noteq> 0" "wins s q = Some w" "\<not> dragging s" | w where "q \<noteq> 0" "wins s q = Some w" "dragging s" "drag_win s = 0"
    | w d where "q \<noteq> 0" "wins s q = Some w" "dragging s" "drag_win s \<noteq> 0" "wins s (drag_win s) = Some d" using q(2) dr by blast
  then show ?thesis
  proof cases
    case 1
    then show ?thesis using True q(1) kept_refl [OF inv] by (simp add: handle_mouse_def Let_def)
  next
    case 2
    have f: "tui_win_set_focus q s = Some (focus_to q s)" by (rule set_focus_eq [OF inv_window(1) [OF inv 2(2)] 2(2,1) inv_no_null [OF inv]])
    have "kept s (focus_to q s)" "kept s ((focus_to q s)\<lparr>dragging := a, drag_win := b, drag_offset_x := c, drag_offset_y := d\<rparr>)" for a b c d
      using kept_focus [OF inv 2(2)] kept_cong(2) [of "(focus_to q s)\<lparr>dragging := a, drag_win := b, drag_offset_x := c, drag_offset_y := d\<rparr>" "focus_to q s" s] by simp_all
    then show ?thesis using True q(1) 2 f focus_to_self [OF 2(2)] by (simp add: handle_mouse_def Let_def)
  next
    case 3
    then show ?thesis using True q(1) kept_refl [OF inv] by (simp add: handle_mouse_def Let_def)
  next
    case 4
    let ?a = "drag_to TUI_WIDTH (win_w d) ?c (drag_offset_x s)" and ?b = "drag_to TUI_HEIGHT (win_h d) ?r (drag_offset_y s)"
    let ?s = "s\<lparr>wins := (wins s)(drag_win s := Some (d\<lparr>win_x := ?a, win_y := ?b\<rparr>))\<rparr>"
    have d: "unat (win_w d) \<le> 80" "unat (win_h d) \<le> 25" using inv_window(3) [OF inv 4(5)] by (auto simp: win_ok_def)
    then have "unat ?a + unat (win_w d) \<le> 80" "unat ?b + unat (win_h d) \<le> 25"
      using on_screen_ok [of "win_w d" 80] on_screen_ok [of "win_h d" 25] by (simp_all add: drag_to_def TUI_WIDTH_def TUI_HEIGHT_def)
    from place_inv [OF inv 4(5) this refl] have "kept s ?s" by (simp add: kept_def)
    then show ?thesis using True q(1) 4 by (simp add: handle_mouse_def Let_def upd_win_def)
  qed
qed

lemma wm_exec_kept:
  assumes "wm_inv s" and "call_ok c s"
  shows "\<exists>s'. wm_exec c s = Some s' \<and> kept s s'"
proof (cases c)
  case (Create t w h)
  then show ?thesis using kept_create assms by blast
next
  case (Destroy p)
  then show ?thesis using kept_destroy assms by blast
next
  case (Raise p)
  show ?thesis
  proof (cases "p = 0")
    case True
    then show ?thesis using Raise kept_refl [OF assms(1)] by (simp add: tui_win_raise_def)
  next
    case False
    then obtain w where w: "wins s p = Some w" using assms(2) Raise by auto
    show ?thesis using Raise raise_eq [OF inv_window(1) [OF assms(1) w] w False inv_no_null [OF assms(1)]] kept_focus [OF assms(1) w] by simp
  qed
next
  case (Move p dx dy)
  show ?thesis
  proof (cases "p = 0")
    case True
    then show ?thesis using Move kept_refl [OF assms(1)] by (simp add: tui_win_move_def)
  next
    case False
    then obtain w where "wins s p = Some w" using assms(2) Move by auto
    from move_ok [OF assms(1) this, of dx dy] show ?thesis using Move by (auto simp: kept_def)
  qed
next
  case (Focus p)
  show ?thesis
  proof (cases "p = 0")
    case True
    then show ?thesis using Focus kept_refl [OF assms(1)] by (simp add: tui_win_set_focus_def)
  next
    case False
    then obtain w where w: "wins s p = Some w" using assms(2) Focus by auto
    show ?thesis using Focus set_focus_eq [OF inv_window(1) [OF assms(1) w] w False inv_no_null [OF assms(1)]] kept_focus [OF assms(1) w] by simp
  qed
next
  case Cycle
  show ?thesis using Cycle cycle_ok [OF assms(1)] kept_refl [OF assms(1)] kept_focus [OF assms(1)]
    by (cases "g_num_windows s = 0") auto
next
  case (Pointer m ev)
  let ?s = "s\<lparr>wmouse := m\<rparr>"
  have "wm_inv ?s" using assms(1) inv_cong(1) [of ?s s] by simp
  from kept_mouse [OF this, of ev] show ?thesis using Pointer assms(2) kept_cong(1) [of ?s s] by simp
qed

fun wm_run :: "wm_call list \<Rightarrow> wm \<Rightarrow> wm option" where
  "wm_run [] s = Some s"
| "wm_run (c # cs) s = do { s1 \<leftarrow> wm_exec c s; wm_run cs s1 }"

fun calls_ok :: "wm_call list \<Rightarrow> wm \<Rightarrow> bool" where
  "calls_ok [] s \<longleftrightarrow> True"
| "calls_ok (c # cs) s \<longleftrightarrow> call_ok c s \<and> (case wm_exec c s of None \<Rightarrow> True | Some s1 \<Rightarrow> calls_ok cs s1)"

lemma wm_run_kept:
  assumes "wm_inv s" and "calls_ok cs s"
  shows "\<exists>s'. wm_run cs s = Some s' \<and> wm_inv s' \<and>
    (1 \<le> unat (g_next_z s) \<and> unat (g_next_z s) + 2 * length cs \<le> 255 \<and> layers_ok s \<longrightarrow> layers_ok s' \<and> unat (g_next_z s') \<le> unat (g_next_z s) + 2 * length cs)"
  using assms
proof (induction cs arbitrary: s)
  case (Cons c cs)
  obtain s1 where s1: "wm_exec c s = Some s1" "kept s s1" using wm_exec_kept [OF Cons.prems(1)] Cons.prems(2) by auto
  have "wm_inv s1" "calls_ok cs s1" using s1 Cons.prems(2) by (auto simp: kept_def)
  from Cons.IH [OF this] obtain s' where s': "wm_run cs s1 = Some s'" "wm_inv s'"
    "1 \<le> unat (g_next_z s1) \<and> unat (g_next_z s1) + 2 * length cs \<le> 255 \<and> layers_ok s1 \<longrightarrow> layers_ok s' \<and> unat (g_next_z s') \<le> unat (g_next_z s1) + 2 * length cs" by blast
  have "layers_ok s' \<and> unat (g_next_z s') \<le> unat (g_next_z s) + 2 * length (c # cs)"
    if a: "1 \<le> unat (g_next_z s)" "unat (g_next_z s) + 2 * length (c # cs) \<le> 255" "layers_ok s"
  proof -
    have "unat (g_next_z s) < 254" using a(2) by simp
    then have "unat (g_next_z s) \<le> unat (g_next_z s1)" "unat (g_next_z s1) \<le> unat (g_next_z s) + 2" "layers_ok s1" using s1(2) a by (auto simp: kept_def)
    then show ?thesis using s'(3) a by simp
  qed
  then show ?case using s1(1) s'(1,2) by simp
qed simp

text \<open>The focus goes round the table.\<close>

lemma cycle_run:
  assumes "wm_inv s" and "i < length (slots s)" and "g_focused s = slots s ! i"
  shows "\<exists>s'. wm_run (replicate k Cycle) s = Some s' \<and> wm_inv s' \<and> slots s' = slots s \<and> g_focused s' = slots s ! ((i + k) mod length (slots s))"
  using assms
proof (induction k arbitrary: s i)
  case (Suc k)
  have tab: "table_ok s" using Suc.prems(1) by (simp add: wm_inv_def)
  then have n: "length (slots s) = unat (g_num_windows s)" by (auto simp: table_ok_def slots_def)
  have at: "slots s ! j = g_windows s ! j" if "j < unat (g_num_windows s)" for j using that by (simp add: slots_def)
  have i: "i < unat (g_num_windows s)" "g_focused s = g_windows s ! i" using Suc.prems(2,3) n at by auto
  then have "g_num_windows s \<noteq> 0" "g_focused s \<noteq> 0" using slot_window(2) [OF tab i(1)] by auto
  then obtain q w where q: "next_slot s q" "wins s q = Some w" "tui_win_cycle_focus s = Some (if q = g_focused s then s else focus_to q s)"
    using cycle_ok [OF Suc.prems(1)] by blast
  let ?j = "Suc i mod unat (g_num_windows s)" and ?s = "if q = g_focused s then s else focus_to q s"
  obtain i' where "i' < unat (g_num_windows s)" "g_windows s ! i' = g_focused s" "q = g_windows s ! (Suc i' mod unat (g_num_windows s))"
    using q(1) \<open>g_focused s \<noteq> 0\<close> by (auto simp: next_slot_def)
  then have qj: "q = g_windows s ! ?j" using slot_inj [OF tab _ i(1), of i'] i(2) by auto
  have j: "?j < unat (g_num_windows s)" using i(1) by simp
  have s1: "wm_inv ?s" "slots ?s = slots s" "g_focused ?s = q"
    using Suc.prems(1) focus_to_inv [OF Suc.prems(1) q(2)] by (auto simp: slots_def focus_to_def)
  have "?j < length (slots ?s)" "g_focused ?s = slots ?s ! ?j" using s1 j n at qj by auto
  from Suc.IH [OF s1(1) this] obtain s' where s': "wm_run (replicate k Cycle) ?s = Some s'" "wm_inv s'" "slots s' = slots s"
    "g_focused s' = slots s ! ((?j + k) mod length (slots s))" unfolding s1(2) by blast
  have "(?j + k) mod length (slots s) = (i + Suc k) mod length (slots s)" unfolding n by (metis add_Suc_shift mod_add_left_eq)
  then show ?case using s' q(3) by simp
qed simp

end
