(* ===== verification/Tui_Props.thy ===== *)
theory Tui_Props
  imports Tui_Wm_Props Paging_Copy
begin

text \<open>
  The properties of the window manager, with a run of it on a small heap as their witness.
\<close>

section \<open>A window manager at start\<close>

definition boot_queues :: wm_queues where
  "boot_queues = \<lparr>g_key_queue = [], g_key_head = 0, g_key_tail = 0, g_mouse_queue = [], g_mouse_head = 0, g_mouse_tail = 0, g_queue_overflow = 0\<rparr>"

definition boot_mouse :: mouse where
  "boot_mouse = \<lparr>g_mouse_state = \<lparr>m_x = 40, m_y = 12, m_buttons = 0, m_dx = 0, m_dy = 0, m_packet_ready = 0\<rparr>, g_mouse_packet = [0, 0, 0],
     g_mouse_packet_byte = 0, g_mouse_rx = 0, g_mouse_bad = 0\<rparr>"

definition boot_wm :: wm where
  "boot_wm = \<lparr>g_windows = [], g_num_windows = 0, g_focused = 0, g_next_z = 0, wins = (\<lambda>_. None), wheap = kheap, queues = boot_queues,
     wmouse = boot_mouse, dragging = False, drag_win = 0, drag_offset_x = 0, drag_offset_y = 0, screen_addr = 0xC0200000,
     g_screen = \<lparr>surf_ptr = 0, surf_cells = [], surf_width = 0, surf_height = 0\<rparr>, g_screen_cells = replicate 2000 (cell 0 0),
     g_cursor_row = 0, g_cursor_col = 0, g_cursor_visible = False, vga_text = replicate 2000 0\<rparr>"

definition no_apps :: apps where
  "no_apps = \<lparr>app_draw = (\<lambda>_ _ s. Some s), app_key = (\<lambda>_ _ _ s. Some s), tui_shell_open_about = Some, tui_shell_open_clock = Some\<rparr>"

lemma no_apps_draw: "draw_ok no_apps"
proof -
  have "s = s\<lparr>wins := (wins s)(p := Some w)\<rparr>" if "wins s p = Some w" for s p w using that by (simp add: fun_upd_idem)
  then show ?thesis using repainted_refl by (fastforce simp: draw_ok_def no_apps_def)
qed

lemma init_inv:
  assumes "wins s = Map.empty"
  shows "wm_inv (tui_wm_init s)" "layers_ok (tui_wm_init s)" "g_next_z (tui_wm_init s) = 1"
  using assms by (simp_all add: wm_inv_def table_ok_def focus_ok_def layers_ok_def slots_def tui_wm_init_def MAX_WINDOWS_def)

text \<open>Two small windows, the second in front, moved and dragged about, and the first one closed.\<close>

definition demo_calls :: "wm_call list" where
  "demo_calls = [Create (Some [65]) 3 3, Create None 4 2, Move 0xC0100010 5 1, Cycle, Pointer boot_mouse (TUI_EV_MOUSE 1 0 0)]"

lemma demo_ok: "calls_ok demo_calls (tui_wm_init boot_wm)"
  by code_simp

lemma demo_screen:
  "map_option (\<lambda>s. (screen_addr s, length (g_screen_cells s), length (vga_text s))) (wm_run demo_calls (tui_wm_init boot_wm)) = Some (0xC0200000, 2000, 2000)"
  by code_simp

lemma demo_run:
  obtains s where "wm_run demo_calls (tui_wm_init boot_wm) = Some s" "wm_inv s" "layers_ok s" "g_next_z s \<noteq> 255" "screen_addr s \<noteq> 0"
    "length (g_screen_cells s) = 2000" "length (vga_text s) = 2000"
proof -
  have e: "wins boot_wm = Map.empty" by (simp add: boot_wm_def)
  obtain s where s: "wm_run demo_calls (tui_wm_init boot_wm) = Some s" "wm_inv s" "layers_ok s" "unat (g_next_z s) \<le> 11"
    using wm_run_kept [OF init_inv(1) [OF e] demo_ok] init_inv(2,3) [OF e] by (auto simp: demo_calls_def)
  have "g_next_z s \<noteq> 255" using s(4) by auto
  then show thesis using that s demo_screen by auto
qed

section \<open>Properties\<close>



text \<open>
  Property C32. What is on the screen is what a click reaches: after \<open>tui_composite\<close> every cell of the text screen shows the
  window that \<open>win_at\<close> finds at this place, at the right place of the window, or the background where it finds none. When the
  counter of layers has come to 255 the function does not return any more.
\<close>

theorem composite_shows_hit:
  assumes "draw_ok app" and "wm_inv s" "layers_ok s" and "screen_addr s \<noteq> 0" "length (g_screen_cells s) = 2000" "length (vga_text s) = 2000"
  shows "if g_next_z s = 255 then tui_composite app s = None
    else \<exists>s'. tui_composite app s = Some s' \<and> (\<forall>r < 25. \<forall>c < 80. \<exists>q. win_at (word_of_nat c) (word_of_nat r) s' = Some q \<and>
      vga_text s' ! (r * 80 + c) = cell_word (cursor_over s' r c
        (if q = 0 then cell 32 (tui_theme_attr 0)
         else win_cell (the (wins s' q)) (r - unat (win_y (the (wins s' q)))) (c - unat (win_x (the (wins s' q)))))))"
  by (rule composite_hit [OF assms])

theorem composite_shows_hit_witness:
  "\<exists>s s' q. wm_run demo_calls (tui_wm_init boot_wm) = Some s \<and> tui_composite no_apps s = Some s' \<and> win_at (word_of_nat 40) (word_of_nat 12) s' = Some q \<and>
     vga_text s' ! (12 * 80 + 40) = cell_word (cursor_over s' 12 40
       (if q = 0 then cell 32 (tui_theme_attr 0)
        else win_cell (the (wins s' q)) (12 - unat (win_y (the (wins s' q)))) (40 - unat (win_x (the (wins s' q))))))"
proof -
  obtain s where s: "wm_run demo_calls (tui_wm_init boot_wm) = Some s" "wm_inv s" "layers_ok s" "g_next_z s \<noteq> 255" "screen_addr s \<noteq> 0"
    "length (g_screen_cells s) = 2000" "length (vga_text s) = 2000" by (rule demo_run)
  obtain s' where s': "tui_composite no_apps s = Some s'" "\<forall>r < 25. \<forall>c < 80. \<exists>q. win_at (word_of_nat c) (word_of_nat r) s' = Some q \<and>
      vga_text s' ! (r * 80 + c) = cell_word (cursor_over s' r c
        (if q = 0 then cell 32 (tui_theme_attr 0)
         else win_cell (the (wins s' q)) (r - unat (win_y (the (wins s' q)))) (c - unat (win_x (the (wins s' q))))))"
    using composite_shows_hit [OF no_apps_draw s(2,3,5-7)] s(4) by auto
  have "(12 :: nat) < 25" "(40 :: nat) < 80" by simp_all
  with s'(2) obtain q where q: "win_at (word_of_nat 40) (word_of_nat 12) s' = Some q"
    "vga_text s' ! (12 * 80 + 40) = cell_word (cursor_over s' 12 40
        (if q = 0 then cell 32 (tui_theme_attr 0)
         else win_cell (the (wins s' q)) (12 - unat (win_y (the (wins s' q)))) (40 - unat (win_x (the (wins s' q))))))" by blast
  show ?thesis using s(1) s'(1) q by blast
qed

text \<open>
  The focus goes round: starting with the focus on the window at index \<open>i\<close> of the table, \<open>k\<close> calls of \<open>tui_win_cycle_focus\<close> return and
  give the focus to the window at index \<open>(i + k) mod n\<close> of the \<open>n\<close> windows; the order in the table stays. So every window gets the focus.
\<close>

theorem cycle_focus_round:
  assumes "wm_inv s" and "i < length (slots s)" and "g_focused s = slots s ! i"
  shows "\<exists>s'. wm_run (replicate k Cycle) s = Some s' \<and> wm_inv s' \<and> slots s' = slots s \<and> g_focused s' = slots s ! ((i + k) mod length (slots s))"
  using cycle_run [OF assms] by blast

theorem cycle_focus_round_witness:
  "\<exists>s s'. wm_run demo_calls (tui_wm_init boot_wm) = Some s \<and> wm_run (replicate 3 Cycle) s = Some s' \<and> g_focused s' = slots s ! ((1 + 3) mod length (slots s))"
proof -
  obtain s where s: "wm_run demo_calls (tui_wm_init boot_wm) = Some s" "wm_inv s" by (rule demo_run)
  have "map_option (\<lambda>s. (length (slots s), g_focused s = slots s ! 1)) (wm_run demo_calls (tui_wm_init boot_wm)) = Some (2, True)" by code_simp
  then have "1 < length (slots s)" "g_focused s = slots s ! 1" using s(1) by auto
  from cycle_focus_round [OF s(2) this, of 3] show ?thesis using s(1) by blast
qed

text \<open>A window that is destroyed while it is dragged: the next mouse event uses memory that has been freed.\<close>

lemma drag_after_destroy:
  assumes "dragging s" and "drag_win s \<noteq> 0" "wins s (drag_win s) = None" and "ev_buttons ev AND 1 \<noteq> 0"
    and "win_at (m_x (ps2mouse_get_state (wmouse s))) (m_y (ps2mouse_get_state (wmouse s))) s = Some hit" "hit \<noteq> 0"
  shows "handle_mouse ev s = None"
  using assms by (cases "wins s hit") (simp_all add: handle_mouse_def Let_def upd_win_def)

end
