(* ===== verification/Widgets.thy ===== *)
theory Widgets
  imports Tui_Wm
begin

text \<open>
  The input line of the shell (\<open>Kernel/tui/widgets.c\<close>): a line with a cursor in a fixed array, and a ring of
  lines entered before. Arrays are byte lists of their full length; the result \<open>None\<close> stands for an access outside an
  array or through a pointer to a window that does not exist. A null pointer to the structure, which every function answers by doing nothing, does not
  arise here: the structure is the argument.
\<close>

section \<open>State\<close>

definition TUI_READLINE_MAX_HISTORY :: nat where "TUI_READLINE_MAX_HISTORY = 32"
definition TUI_READLINE_MAX_LINE :: nat where "TUI_READLINE_MAX_LINE = 256"
definition PROMPT_SIZE :: nat where "PROMPT_SIZE = 64"

record tui_readline_t =
  rl_prompt :: bytes
  rl_prompt_attr :: u8
  rl_line :: bytes
  rl_len :: u16
  rl_cursor :: u16
  rl_history :: "bytes list"
  rl_saved :: bytes
  rl_count :: u8
  rl_head :: u8
  rl_recall :: u8
  rl_parent :: u32

section \<open>Copies\<close>

text \<open>A move inside an array, byte by byte, upwards or downwards as the two ends lie.\<close>

fun copy_within :: "nat list \<Rightarrow> nat \<Rightarrow> nat \<Rightarrow> bytes \<Rightarrow> bytes option" where
  "copy_within [] d s xs = Some xs"
| "copy_within (i # is) d s xs = do { v \<leftarrow> arr_get xs (s + i); ys \<leftarrow> arr_set xs (d + i) v; copy_within is d s ys }"

definition memmove_impl :: "nat \<Rightarrow> nat \<Rightarrow> nat \<Rightarrow> bytes \<Rightarrow> bytes option" where
  "memmove_impl d s n xs = copy_within (if d < s then [0 ..< n] else rev [0 ..< n]) d s xs"

text \<open>The loop that copies a NUL-terminated text into an array of \<open>cap\<close> bytes; it returns the array and the length.\<close>

function copy_line :: "nat \<Rightarrow> bytes \<Rightarrow> bytes \<Rightarrow> nat \<Rightarrow> (bytes \<times> nat) option" where
  "copy_line cap src dst i =
     do { c \<leftarrow> arr_get src i;
          if c \<noteq> 0 \<and> i < cap - 1 then do { dst1 \<leftarrow> arr_set dst i c; copy_line cap src dst1 (Suc i) }
          else do { dst1 \<leftarrow> arr_set dst i 0; Some (dst1, i) } }"
  by pat_completeness auto
termination
  by (relation "measure (\<lambda>(cap, src, dst, i). cap - i)") auto

declare copy_line.simps [simp del]

text \<open>The loop that saves the line when the history is entered.\<close>

function save_line :: "nat \<Rightarrow> bytes \<Rightarrow> bytes \<Rightarrow> nat \<Rightarrow> bytes option" where
  "save_line len src dst i =
     (if i < len \<and> i < TUI_READLINE_MAX_LINE - 1
      then do { c \<leftarrow> arr_get src i; dst1 \<leftarrow> arr_set dst i c; save_line len src dst1 (Suc i) }
      else arr_set dst i 0)"
  by pat_completeness auto
termination
  by (relation "measure (\<lambda>(len, src, dst, i). len - i)") auto

declare save_line.simps [simp del]

text \<open>The comparison with the last entry of the history.\<close>

function same_text :: "bytes \<Rightarrow> bytes \<Rightarrow> nat \<Rightarrow> bool option" where
  "same_text a b i =
     do { x \<leftarrow> arr_get a i;
          y \<leftarrow> arr_get b i;
          if x \<noteq> 0 \<and> y \<noteq> 0 then (if x \<noteq> y then Some False else same_text a b (Suc i))
          else Some (x = 0 \<and> y = 0) }"
  by pat_completeness auto
termination
proof (relation "measure (\<lambda>(a, b, i). length a - i)", goal_cases)
  case (2 a b i x y)
  then have "i < length a" by (simp add: arr_rules)
  then show ?case by simp
qed simp

declare same_text.simps [simp del]

section \<open>Operations\<close>

text \<open>The prompt is given without its NUL; a null pointer is \<open>None\<close>.\<close>

definition tui_readline_init :: "bytes option \<Rightarrow> u8 \<Rightarrow> tui_readline_t \<Rightarrow> tui_readline_t option" where
  "tui_readline_init prompt attr rl =
     do { p0 \<leftarrow> arr_set (rl_prompt rl) 0 0;
          p1 \<leftarrow> (case prompt of None \<Rightarrow> Some p0 | Some t \<Rightarrow> map_option fst (copy_line PROMPT_SIZE (t @ [0]) p0 0));
          line \<leftarrow> arr_set (rl_line rl) 0 0;
          saved \<leftarrow> arr_set (rl_saved rl) 0 0;
          Some (rl\<lparr>rl_prompt := p1, rl_prompt_attr := attr, rl_len := 0, rl_cursor := 0, rl_line := line, rl_count := 0, rl_head := 0,
                   rl_recall := 0, rl_saved := saved, rl_parent := 0, rl_history := map (\<lambda>row. row[0 := 0]) (rl_history rl)\<rparr>) }"

text \<open>The text of a byte array up to its NUL.\<close>

definition text_of :: "bytes \<Rightarrow> bytes" where
  "text_of xs = takeWhile (\<lambda>c. c \<noteq> 0) xs"

fun put_line :: "nat list \<Rightarrow> u16 \<Rightarrow> u16 \<Rightarrow> bytes \<Rightarrow> tui_surface_t \<Rightarrow> tui_surface_t option" where
  "put_line [] row col line s = Some s"
| "put_line (i # is) row col line s =
     do { c \<leftarrow> arr_get line i; s1 \<leftarrow> tui_surface_put row (col + word_of_nat i) c (tui_theme_attr 4) s; put_line is row col line s1 }"

fun put_blanks :: "nat list \<Rightarrow> u16 \<Rightarrow> u16 \<Rightarrow> tui_surface_t \<Rightarrow> tui_surface_t option" where
  "put_blanks [] row col s = Some s"
| "put_blanks (i # is) row col s = do { s1 \<leftarrow> tui_surface_put row (col + word_of_nat i) 32 (tui_theme_attr 4) s; put_blanks is row col s1 }"

definition draw_line :: "tui_readline_t \<Rightarrow> tui_win_t \<Rightarrow> tui_surface_t option" where
  "draw_line rl w =
     (let row = win_h w - 2; col = 1 + word_of_nat (length (text_of (rl_prompt rl))) in
      do { s1 \<leftarrow> tui_surface_write row 0 (Some (replicate 84 0xC4)) (tui_theme_attr 1) (win_content w);
           s2 \<leftarrow> tui_surface_write row 1 (Some (text_of (rl_prompt rl))) (rl_prompt_attr rl) s1;
           s3 \<leftarrow> put_line [0 ..< unat (rl_len rl)] row col (rl_line rl) s2;
           s4 \<leftarrow> put_blanks [unat (rl_len rl) ..< nat (int (unat (win_w w)) - int (unat col) - 2)] row col s3;
           if rl_cursor rl < rl_len rl
           then do { c \<leftarrow> arr_get (rl_line rl) (unat (rl_cursor rl));
                     tui_surface_put row (col + rl_cursor rl) c (tui_make_attr TUI_BLACK TUI_WHITE) s4 }
           else tui_surface_put row (col + rl_cursor rl) 0x5F (tui_make_attr TUI_WHITE TUI_BLUE) s4 })"

definition tui_readline_draw :: "tui_readline_t \<Rightarrow> wm \<Rightarrow> wm option" where
  "tui_readline_draw rl s =
     (if rl_parent rl = 0 then Some s
      else do { w \<leftarrow> wins s (rl_parent rl); c \<leftarrow> draw_line rl w; upd_win (rl_parent rl) (\<lambda>w. w\<lparr>win_content := c\<rparr>) s })"

text \<open>The index of an entry of the history: a remainder in C, cut to 8 bits.\<close>

definition history_index :: "u8 \<Rightarrow> u8 \<Rightarrow> nat" where
  "history_index head recall =
     unat (word_of_int ((int (unat head) + int TUI_READLINE_MAX_HISTORY - 1 - int (unat recall)) smod int TUI_READLINE_MAX_HISTORY) :: u8)"

definition take_line :: "bytes \<Rightarrow> tui_readline_t \<Rightarrow> tui_readline_t option" where
  "take_line src rl =
     do { (line, n) \<leftarrow> copy_line TUI_READLINE_MAX_LINE src (rl_line rl) 0;
          Some (rl\<lparr>rl_line := line, rl_len := word_of_nat n, rl_cursor := word_of_nat n\<rparr>) }"

definition history_up :: "tui_readline_t \<Rightarrow> tui_readline_t option" where
  "history_up rl =
     (if rl_count rl > 0
      then do {
        rl1 \<leftarrow> (if rl_recall rl = 0 then do { sv \<leftarrow> (if rl_len rl > 0 then save_line (unat (rl_len rl)) (rl_line rl) (rl_saved rl) 0 else arr_set (rl_saved rl) 0 0);
                                               Some (rl\<lparr>rl_saved := sv\<rparr>) }
                else Some rl);
        if rl_recall rl1 < rl_count rl1
        then do { row \<leftarrow> arr_get (rl_history rl1) (history_index (rl_head rl1) (rl_recall rl1));
                  rl2 \<leftarrow> take_line row rl1;
                  Some (rl2\<lparr>rl_recall := rl_recall rl2 + 1\<rparr>) }
        else Some rl1 }
      else Some rl)"

definition history_down :: "tui_readline_t \<Rightarrow> tui_readline_t option" where
  "history_down rl =
     (if rl_recall rl > 0
      then (let rl1 = rl\<lparr>rl_recall := rl_recall rl - 1\<rparr> in
            if rl_recall rl1 = 0 then take_line (rl_saved rl1) rl1
            else do { row \<leftarrow> arr_get (rl_history rl1) (history_index (rl_head rl1) (rl_recall rl1)); take_line row rl1 })
      else Some rl)"

text \<open>The number of bytes a move takes: an \<open>int\<close> that becomes a \<open>size_t\<close>.\<close>

definition tail_bytes :: "tui_readline_t \<Rightarrow> nat" where
  "tail_bytes rl = unat (word_of_int (int (unat (rl_len rl)) - int (unat (rl_cursor rl)) + 1) :: u32)"

definition tui_readline_key :: "u8 \<Rightarrow> u8 \<Rightarrow> tui_readline_t \<Rightarrow> tui_readline_t option" where
  "tui_readline_key ascii scancode rl =
     (if scancode = 0x0E
      then (if rl_cursor rl > 0
            then do { line \<leftarrow> memmove_impl (unat (rl_cursor rl) - 1) (unat (rl_cursor rl)) (tail_bytes rl) (rl_line rl);
                      Some (rl\<lparr>rl_line := line, rl_cursor := rl_cursor rl - 1, rl_len := rl_len rl - 1\<rparr>) }
            else Some rl)
      else if scancode = 0x1C then Some rl
      else if scancode = 0x47 then Some (rl\<lparr>rl_cursor := 0\<rparr>)
      else if scancode = 0x4F then Some (rl\<lparr>rl_cursor := rl_len rl\<rparr>)
      else if scancode = 0x48 then history_up rl
      else if scancode = 0x50 then history_down rl
      else if ascii \<ge> 0x20 \<and> ascii \<le> 0x7E
      then (if unat (rl_len rl) < TUI_READLINE_MAX_LINE - 1
            then do { line \<leftarrow> memmove_impl (unat (rl_cursor rl) + 1) (unat (rl_cursor rl)) (tail_bytes rl) (rl_line rl);
                      line1 \<leftarrow> arr_set line (unat (rl_cursor rl)) ascii;
                      Some (rl\<lparr>rl_line := line1, rl_cursor := rl_cursor rl + 1, rl_len := rl_len rl + 1\<rparr>) }
            else Some rl)
      else if scancode = 0x4B then Some (if rl_cursor rl > 0 then rl\<lparr>rl_cursor := rl_cursor rl - 1\<rparr> else rl)
      else if scancode = 0x4D then Some (if rl_cursor rl < rl_len rl then rl\<lparr>rl_cursor := rl_cursor rl + 1\<rparr> else rl)
      else Some rl)"

definition tui_readline_get_line :: "tui_readline_t \<Rightarrow> bytes" where
  "tui_readline_get_line rl = text_of (rl_line rl)"

definition tui_readline_clear :: "tui_readline_t \<Rightarrow> tui_readline_t option" where
  "tui_readline_clear rl =
     do { line \<leftarrow> arr_set (rl_line rl) 0 0; Some (rl\<lparr>rl_len := 0, rl_cursor := 0, rl_line := line, rl_recall := 0\<rparr>) }"

definition tui_readline_add_history :: "bytes option \<Rightarrow> tui_readline_t \<Rightarrow> tui_readline_t option" where
  "tui_readline_add_history text rl =
     (case text of None \<Rightarrow> Some rl
      | Some t \<Rightarrow>
        if t = [] then Some rl
        else do {
          same \<leftarrow> (if rl_count rl > 0 then do { row \<leftarrow> arr_get (rl_history rl) (history_index (rl_head rl) 0); same_text row (t @ [0]) 0 } else Some False);
          if same then Some rl
          else do {
            row \<leftarrow> arr_get (rl_history rl) (unat (rl_head rl));
            (row1, n) \<leftarrow> copy_line TUI_READLINE_MAX_LINE (t @ [0]) row 0;
            hist \<leftarrow> arr_set (rl_history rl) (unat (rl_head rl)) row1;
            Some (rl\<lparr>rl_history := hist, rl_head := word_of_nat ((unat (rl_head rl) + 1) mod TUI_READLINE_MAX_HISTORY),
                     rl_count := (if unat (rl_count rl) < TUI_READLINE_MAX_HISTORY then rl_count rl + 1 else rl_count rl)\<rparr>) } })"

end
