(* ===== verification/Widgets_Props.thy ===== *)
theory Widgets_Props
  imports Widgets
begin

text \<open>
  The input line as an editor on a text with a cursor and a list of earlier lines, the latest first, and the refinement
  of this editor by the arrays of the code.
\<close>

section \<open>Specification\<close>

record editor =
  ed_text :: bytes
  ed_pos :: nat
  ed_hist :: "bytes list"
  ed_recall :: nat
  ed_saved :: bytes

definition show_text :: "bytes \<Rightarrow> editor \<Rightarrow> editor" where
  "show_text t e = e\<lparr>ed_text := t, ed_pos := length t\<rparr>"

definition ed_key :: "u8 \<Rightarrow> u8 \<Rightarrow> editor \<Rightarrow> editor" where
  "ed_key ascii sc e =
     (let t = ed_text e; p = ed_pos e; r = ed_recall e in
      if sc = 0x0E then (if p > 0 then e\<lparr>ed_text := take (p - 1) t @ drop p t, ed_pos := p - 1\<rparr> else e)
      else if sc = 0x1C then e
      else if sc = 0x47 then e\<lparr>ed_pos := 0\<rparr>
      else if sc = 0x4F then e\<lparr>ed_pos := length t\<rparr>
      else if sc = 0x48
      then (if ed_hist e = [] then e
            else (let e1 = (if r = 0 then e\<lparr>ed_saved := t\<rparr> else e) in
                  if r < length (ed_hist e) then show_text (ed_hist e ! r) e1\<lparr>ed_recall := r + 1\<rparr> else e1))
      else if sc = 0x50
      then (if r = 0 then e
            else if r = 1 then show_text (ed_saved e) (e\<lparr>ed_recall := 0\<rparr>)
            else show_text (ed_hist e ! (r - 1)) (e\<lparr>ed_recall := r - 1\<rparr>))
      else if ascii \<ge> 0x20 \<and> ascii \<le> 0x7E
      then (if length t < 255 then e\<lparr>ed_text := take p t @ ascii # drop p t, ed_pos := p + 1\<rparr> else e)
      else if sc = 0x4B then e\<lparr>ed_pos := p - 1\<rparr>
      else if sc = 0x4D then e\<lparr>ed_pos := min (length t) (p + 1)\<rparr>
      else e)"

definition ed_enter :: "bytes \<Rightarrow> editor \<Rightarrow> editor" where
  "ed_enter t e =
     (if t = [] \<or> (ed_hist e \<noteq> [] \<and> hd (ed_hist e) = t) then e
      else e\<lparr>ed_hist := take 32 (take 255 t # ed_hist e)\<rparr>)"

datatype rl_call = Key u8 u8 | Enter bytes | Clear

fun ed_call :: "rl_call \<Rightarrow> editor \<Rightarrow> editor" where
  "ed_call (Key a sc) e = ed_key a sc e"
| "ed_call (Enter t) e = ed_enter t e"
| "ed_call Clear e = e\<lparr>ed_text := [], ed_pos := 0, ed_recall := 0\<rparr>"

fun rl_exec :: "rl_call \<Rightarrow> tui_readline_t \<Rightarrow> tui_readline_t option" where
  "rl_exec (Key a sc) rl = tui_readline_key a sc rl"
| "rl_exec (Enter t) rl = tui_readline_add_history (Some t) rl"
| "rl_exec Clear rl = tui_readline_clear rl"

fun rl_run :: "rl_call list \<Rightarrow> tui_readline_t \<Rightarrow> tui_readline_t option" where
  "rl_run [] rl = Some rl"
| "rl_run (c # cs) rl = do { rl1 \<leftarrow> rl_exec c rl; rl_run cs rl1 }"

text \<open>An array that holds a text and its NUL.\<close>

definition has_text :: "bytes \<Rightarrow> bytes \<Rightarrow> bool" where
  "has_text xs t \<longleftrightarrow> length t < length xs \<and> (\<forall>j < length t. xs ! j = t ! j) \<and> xs ! length t = 0 \<and> 0 \<notin> set t"

definition line_rep :: "tui_readline_t \<Rightarrow> editor \<Rightarrow> bool" where
  "line_rep rl e \<longleftrightarrow> length (rl_line rl) = 256 \<and> has_text (rl_line rl) (ed_text e) \<and> rl_len rl = word_of_nat (length (ed_text e)) \<and>
     rl_cursor rl = word_of_nat (ed_pos e) \<and> ed_pos e \<le> length (ed_text e)"

definition hist_rep :: "tui_readline_t \<Rightarrow> bytes list \<Rightarrow> bool" where
  "hist_rep rl hs \<longleftrightarrow> length (rl_history rl) = 32 \<and> (\<forall>row \<in> set (rl_history rl). length row = 256) \<and> unat (rl_head rl) < 32 \<and>
     length hs \<le> 32 \<and> rl_count rl = word_of_nat (length hs) \<and> (\<forall>i < length hs. has_text (rl_history rl ! ((unat (rl_head rl) + 31 - i) mod 32)) (hs ! i))"

definition rl_rep :: "tui_readline_t \<Rightarrow> editor \<Rightarrow> bool" where
  "rl_rep rl e \<longleftrightarrow> line_rep rl e \<and> hist_rep rl (ed_hist e) \<and> rl_recall rl = word_of_nat (ed_recall e) \<and> ed_recall e \<le> length (ed_hist e) \<and>
     length (rl_saved rl) = 256 \<and> has_text (rl_saved rl) (ed_saved e)"

section \<open>Copies\<close>

lemma has_text_of: "has_text xs t \<Longrightarrow> text_of xs = t"
proof -
  assume a: "has_text xs t"
  have "xs = t @ 0 # drop (Suc (length t)) xs"
  proof -
    have "take (length t) xs = t" using a by (auto simp: has_text_def intro: nth_equalityI)
    then show ?thesis using a id_take_nth_drop [of "length t" xs] by (simp add: has_text_def)
  qed
  moreover have "takeWhile (\<lambda>c. c \<noteq> 0) (u @ 0 # r) = u" if "0 \<notin> set u" for u r :: bytes using that by (induction u) auto
  ultimately show ?thesis using a unfolding text_of_def has_text_def by metis
qed

lemma copy_within_up:
  assumes "d < s" and "k \<le> n" and "s + n \<le> length xs"
  shows "\<exists>ys. copy_within [k ..< n] d s xs = Some ys \<and> length ys = length xs \<and>
    (\<forall>j < length xs. ys ! j = (if d + k \<le> j \<and> j < d + n then xs ! (s + j - d) else xs ! j))"
  using assms
proof (induction "n - k" arbitrary: k xs)
  case 0
  then have "n = k" by simp
  then show ?case by auto
next
  case (Suc m)
  let ?xs = "xs[d + k := xs ! (s + k)]"
  have k: "k < n" "[k ..< n] = k # [Suc k ..< n]" using Suc.hyps(2) by (auto simp: upt_conv_Cons)
  have "m = n - Suc k" "Suc k \<le> n" "s + n \<le> length ?xs" using Suc.hyps(2) Suc.prems k(1) by simp_all
  from Suc.hyps(1) [OF this(1) assms(1) this(2,3)] obtain ys where ys: "copy_within [Suc k ..< n] d s ?xs = Some ys" "length ys = length xs"
    "\<forall>j < length xs. ys ! j = (if d + Suc k \<le> j \<and> j < d + n then ?xs ! (s + j - d) else ?xs ! j)" by auto
  have "ys ! j = (if d + k \<le> j \<and> j < d + n then xs ! (s + j - d) else xs ! j)" if "j < length xs" for j
    using ys(3) that assms(1) k(1) by (cases "j = d + k") (auto simp: nth_list_update)
  then show ?case unfolding k(2) using ys(1,2) Suc.prems k(1) assms(1) by (auto simp: arr_rules)
qed

lemma copy_within_down:
  assumes "s \<le> d" and "d + n \<le> length xs"
  shows "\<exists>ys. copy_within (rev [0 ..< n]) d s xs = Some ys \<and> length ys = length xs \<and>
    (\<forall>j < length xs. ys ! j = (if d \<le> j \<and> j < d + n then xs ! (s + j - d) else xs ! j))"
  using assms
proof (induction n arbitrary: xs)
  case (Suc n)
  let ?xs = "xs[d + n := xs ! (s + n)]"
  obtain ys where ys: "copy_within (rev [0 ..< n]) d s ?xs = Some ys" "length ys = length xs"
    "\<forall>j < length xs. ys ! j = (if d \<le> j \<and> j < d + n then ?xs ! (s + j - d) else ?xs ! j)"
    using Suc.IH [of ?xs] Suc.prems by auto
  have "ys ! j = (if d \<le> j \<and> j < d + Suc n then xs ! (s + j - d) else xs ! j)" if "j < length xs" for j
    using ys(3) that assms(1) by (cases "j = d + n") (auto simp: nth_list_update)
  then show ?case using ys(1,2) Suc.prems by (auto simp: arr_rules)
qed auto

lemma memmove_ok:
  assumes "s + n \<le> length xs" "d + n \<le> length xs"
  shows "\<exists>ys. memmove_impl d s n xs = Some ys \<and> length ys = length xs \<and>
    (\<forall>j < length xs. ys ! j = (if d \<le> j \<and> j < d + n then xs ! (s + j - d) else xs ! j))"
  using copy_within_up [of d s 0 n xs] copy_within_down [of s d n xs] assms by (cases "d < s") (auto simp: memmove_impl_def)

lemma copy_line_ok:
  assumes "has_text src t" and "length dst = cap" "0 < cap" and "i \<le> cap - 1" "i \<le> length t" and "\<forall>j < i. dst ! j = t ! j"
  shows "\<exists>d. copy_line cap src dst i = Some (d, min (cap - 1) (length t)) \<and> length d = cap \<and> has_text d (take (cap - 1) t)"
  using assms(2-)
proof (induction "min (cap - 1) (length t) - i" arbitrary: i dst)
  case 0
  then have i: "i = min (cap - 1) (length t)" by simp
  have "arr_get src i = Some (src ! i)" "src ! i = 0 \<or> \<not> i < cap - 1"
    using assms(1) i by (auto simp: has_text_def arr_rules min_def)
  moreover have "arr_set dst i 0 = Some (dst[i := 0])" using 0(2,3) i by (simp add: arr_rules)
  moreover have "has_text (dst[i := 0]) (take (cap - 1) t)"
  proof -
    have "i = length (take (cap - 1) t)" "i < cap" using i 0(3) by auto
    moreover have "0 \<notin> set (take (cap - 1) t)" using assms(1) by (auto simp: has_text_def dest: in_set_takeD)
    moreover have "dst[i := 0] ! j = take (cap - 1) t ! j" if "j < i" for j
    proof -
      have "dst[i := 0] ! j = dst ! j" using that by simp
      also have "\<dots> = t ! j" using 0(6) that by blast
      also have "\<dots> = take (cap - 1) t ! j" using that i by simp
      finally show ?thesis .
    qed
    ultimately show ?thesis using 0(2) by (simp add: has_text_def)
  qed
  ultimately show ?case using 0 i by (subst copy_line.simps) auto
next
  case (Suc m)
  have i: "i < cap - 1" "i < length t" using Suc.hyps(2) by simp_all
  have c: "arr_get src i = Some (t ! i)" "t ! i \<noteq> 0" using assms(1) i(2) by (auto simp: has_text_def arr_rules in_set_conv_nth)
  have "m = min (cap - 1) (length t) - Suc i" "length (dst[i := t ! i]) = cap" "Suc i \<le> cap - 1" "Suc i \<le> length t" "\<forall>j < Suc i. dst[i := t ! i] ! j = t ! j"
    using Suc.hyps(2) Suc.prems i by (auto simp: nth_list_update less_Suc_eq)
  from Suc.hyps(1) [OF this(1,2) \<open>0 < cap\<close> this(3-5)] show ?case
    using c i Suc.prems(1) by (subst copy_line.simps) (simp add: arr_rules)
qed

lemma save_line_ok:
  assumes "has_text src t" and "length t \<le> 255" and "length dst = 256" and "i \<le> length t" and "\<forall>j < i. dst ! j = t ! j"
  shows "\<exists>d. save_line (length t) src dst i = Some d \<and> length d = 256 \<and> has_text d t"
  using assms(3-)
proof (induction "length t - i" arbitrary: i dst)
  case 0
  then have i: "i = length t" by simp
  then have "has_text (dst[i := 0]) t" using 0 assms(1,2) by (auto simp: has_text_def nth_list_update)
  then show ?case using 0 i assms(2) by (subst save_line.simps) (simp add: arr_rules)
next
  case (Suc m)
  have i: "i < length t" using Suc.hyps(2) by simp
  have c: "arr_get src i = Some (t ! i)" using assms(1) i by (auto simp: has_text_def arr_rules)
  have "m = length t - Suc i" "length (dst[i := t ! i]) = 256" "Suc i \<le> length t" "\<forall>j < Suc i. dst[i := t ! i] ! j = t ! j"
    using Suc.hyps(2) Suc.prems i assms(2) by (auto simp: nth_list_update less_Suc_eq)
  from Suc.hyps(1) [OF this] show ?case using c i Suc.prems(1) assms(2)
    by (subst save_line.simps) (simp add: arr_rules TUI_READLINE_MAX_LINE_def)
qed

lemma same_text_ok:
  assumes "has_text a t" and "has_text b u" and "i \<le> length t" "i \<le> length u" and "take i t = take i u"
  shows "same_text a b i = Some (t = u)"
  using assms(3-)
proof (induction "length t - i" arbitrary: i)
  case 0
  then have i: "i = length t" by simp
  have x: "arr_get a i = Some 0" using assms(1) i by (simp add: has_text_def arr_rules)
  have y: "arr_get b i = Some (if i < length u then u ! i else 0)" using assms(2) 0 by (auto simp: has_text_def arr_rules)
  have "i < length u \<Longrightarrow> u ! i \<noteq> 0" using assms(2) by (auto simp: has_text_def in_set_conv_nth)
  moreover have "t = u \<longleftrightarrow> \<not> i < length u" using 0 i by auto
  ultimately show ?case using x y by (subst same_text.simps) auto
next
  case (Suc m)
  have i: "i < length t" using Suc.hyps(2) by simp
  have x: "arr_get a i = Some (t ! i)" "t ! i \<noteq> 0" using assms(1) i by (auto simp: has_text_def arr_rules in_set_conv_nth)
  show ?case
  proof (cases "i < length u")
    case False
    then have "arr_get b i = Some 0" using assms(2) Suc.prems by (auto simp: has_text_def arr_rules)
    moreover have "t \<noteq> u" using False i by auto
    ultimately show ?thesis using x by (subst same_text.simps) simp
  next
    case True
    have y: "arr_get b i = Some (u ! i)" "u ! i \<noteq> 0" using assms(2) True by (auto simp: has_text_def arr_rules in_set_conv_nth)
    show ?thesis
    proof (cases "t ! i = u ! i")
      case eq: True
      have "take (Suc i) t = take (Suc i) u" using Suc.prems(3) i True eq by (simp add: take_Suc_conv_app_nth)
      then show ?thesis using Suc.hyps(1) [of "Suc i"] Suc.hyps(2) i True x y eq by (subst same_text.simps) simp
    next
      case False
      then have "t \<noteq> u" by auto
      then show ?thesis using x y False by (subst same_text.simps) simp
    qed
  qed
qed

section \<open>The line\<close>

lemma unat_word_nat: "n < 2 ^ LENGTH('a) \<Longrightarrow> unat (word_of_nat n :: 'a::len word) = n"
  by (simp add: unat_of_nat)

lemma word_nat16: "n < 65536 \<Longrightarrow> unat (word_of_nat n :: u16) = n"
  by (simp add: unat_of_nat)

lemma line_repD:
  assumes "line_rep rl e"
  shows "length (rl_line rl) = 256" "has_text (rl_line rl) (ed_text e)" "length (ed_text e) \<le> 255" "unat (rl_len rl) = length (ed_text e)"
    "unat (rl_cursor rl) = ed_pos e" "ed_pos e \<le> length (ed_text e)" "tail_bytes rl = length (ed_text e) - ed_pos e + 1"
proof -
  show a: "length (rl_line rl) = 256" "has_text (rl_line rl) (ed_text e)" "ed_pos e \<le> length (ed_text e)" using assms by (auto simp: line_rep_def)
  then show b: "length (ed_text e) \<le> 255" by (simp add: has_text_def)
  show c: "unat (rl_len rl) = length (ed_text e)" "unat (rl_cursor rl) = ed_pos e" using assms a b by (simp_all add: line_rep_def word_nat16)
  have "int (length (ed_text e)) - int (ed_pos e) + 1 = int (length (ed_text e) - ed_pos e + 1)" using a(3) by simp
  moreover have "unat (word_of_nat (length (ed_text e) - ed_pos e + 1) :: u32) = length (ed_text e) - ed_pos e + 1"
    by (rule unat_word_nat) (use b in simp)
  ultimately show "tail_bytes rl = length (ed_text e) - ed_pos e + 1" unfolding tail_bytes_def c by (simp only: of_int_of_nat_eq)
qed

lemma line_cursor:
  assumes "line_rep rl e" and "q \<le> length (ed_text e)"
  shows "line_rep (rl\<lparr>rl_cursor := word_of_nat q\<rparr>) (e\<lparr>ed_pos := q\<rparr>)"
  using assms by (simp add: line_rep_def)

lemma line_backspace:
  assumes "line_rep rl e" and "0 < ed_pos e"
  shows "\<exists>line. memmove_impl (unat (rl_cursor rl) - 1) (unat (rl_cursor rl)) (tail_bytes rl) (rl_line rl) = Some line \<and>
    line_rep (rl\<lparr>rl_line := line, rl_cursor := rl_cursor rl - 1, rl_len := rl_len rl - 1\<rparr>)
      (e\<lparr>ed_text := take (ed_pos e - 1) (ed_text e) @ drop (ed_pos e) (ed_text e), ed_pos := ed_pos e - 1\<rparr>)"
proof -
  note r = line_repD [OF assms(1)]
  let ?t = "ed_text e" and ?p = "ed_pos e"
  have h: "length ?t < 256" "\<forall>j < length ?t. rl_line rl ! j = ?t ! j" "rl_line rl ! length ?t = 0" "0 \<notin> set ?t" using r(1,2) by (auto simp: has_text_def)
  have n: "?p + (length ?t - ?p + 1) \<le> length (rl_line rl)" "?p - 1 + (length ?t - ?p + 1) \<le> length (rl_line rl)" using r(1,3,6) by simp_all
  obtain ys where ys: "memmove_impl (?p - 1) ?p (length ?t - ?p + 1) (rl_line rl) = Some ys" "length ys = 256"
    "\<forall>j < 256. ys ! j = (if ?p - 1 \<le> j \<and> j < ?p - 1 + (length ?t - ?p + 1) then rl_line rl ! (?p + j - (?p - 1)) else rl_line rl ! j)"
    using memmove_ok [OF n] r(1) by auto
  let ?u = "take (?p - 1) ?t @ drop ?p ?t"
  have u: "length ?u = length ?t - 1" using r(6) assms(2) by simp
  have "ys ! j = (if j < ?p - 1 then rl_line rl ! j else rl_line rl ! Suc j)" if "j < length ?t" for j
    using ys(3) that h(1) r(6) assms(2) by auto
  moreover have "?u ! j = (if j < ?p - 1 then ?t ! j else ?t ! Suc j)" if "j < length ?u" for j
    using that r(6) assms(2) u by (auto simp: nth_append)
  moreover have "0 \<notin> set ?u" using h(4) by (auto dest: in_set_takeD in_set_dropD)
  moreover have "ys ! (length ?t - 1) = 0"
  proof -
    have "length ?t - 1 < length ?t" "\<not> length ?t - 1 < ?p - 1" "Suc (length ?t - 1) = length ?t" using r(6) assms(2) by linarith+
    then show ?thesis using calculation(1) [of "length ?t - 1"] h(3) by simp
  qed
  ultimately have "has_text ys ?u" using h u ys(2) r(6) assms(2) unfolding has_text_def by simp
  moreover have "rl_cursor rl - 1 = word_of_nat (?p - 1)" "rl_len rl - 1 = word_of_nat (length ?t - 1)"
    using assms r(6) by (simp_all add: line_rep_def of_nat_diff)
  ultimately have "line_rep (rl\<lparr>rl_line := ys, rl_cursor := rl_cursor rl - 1, rl_len := rl_len rl - 1\<rparr>) (e\<lparr>ed_text := ?u, ed_pos := ?p - 1\<rparr>)"
    using ys(2) u r(6) assms(2) by (simp add: line_rep_def)
  then show ?thesis using ys(1) r(5,7) by auto
qed

lemma line_insert:
  assumes "line_rep rl e" and "length (ed_text e) < 255" and "c \<noteq> 0"
  shows "\<exists>line. memmove_impl (unat (rl_cursor rl) + 1) (unat (rl_cursor rl)) (tail_bytes rl) (rl_line rl) = Some line \<and> length line = 256 \<and>
    line_rep (rl\<lparr>rl_line := line[unat (rl_cursor rl) := c], rl_cursor := rl_cursor rl + 1, rl_len := rl_len rl + 1\<rparr>)
      (e\<lparr>ed_text := take (ed_pos e) (ed_text e) @ c # drop (ed_pos e) (ed_text e), ed_pos := ed_pos e + 1\<rparr>)"
proof -
  note r = line_repD [OF assms(1)]
  let ?t = "ed_text e" and ?p = "ed_pos e"
  have h: "\<forall>j < length ?t. rl_line rl ! j = ?t ! j" "rl_line rl ! length ?t = 0" "0 \<notin> set ?t" using r(1,2) by (auto simp: has_text_def)
  have n: "?p + (length ?t - ?p + 1) \<le> length (rl_line rl)" "?p + 1 + (length ?t - ?p + 1) \<le> length (rl_line rl)" using r(1,6) assms(2) by simp_all
  obtain ys where ys: "memmove_impl (?p + 1) ?p (length ?t - ?p + 1) (rl_line rl) = Some ys" "length ys = 256"
    "\<forall>j < 256. ys ! j = (if ?p + 1 \<le> j \<and> j < ?p + 1 + (length ?t - ?p + 1) then rl_line rl ! (?p + j - (?p + 1)) else rl_line rl ! j)"
    using memmove_ok [OF n] r(1) by auto
  let ?u = "take ?p ?t @ c # drop ?p ?t" and ?ys = "ys[?p := c]"
  have u: "length ?u = length ?t + 1" using r(6) by simp
  have "?ys ! j = (if j < ?p then rl_line rl ! j else if j = ?p then c else rl_line rl ! (j - 1))" if "j < length ?t + 2" for j
    using ys(2,3) that r(6) assms(2) by (auto simp: nth_list_update)
  moreover have "?u ! j = (if j < ?p then ?t ! j else if j = ?p then c else ?t ! (j - 1))" if "j < length ?u" for j
    using that r(6) u by (auto simp: nth_append nth_Cons' min_def)
  moreover have "0 \<notin> set ?u" using h(3) assms(3) by (auto dest: in_set_takeD in_set_dropD)
  moreover have "?ys ! (length ?t + 1) = 0" using calculation(1) [of "length ?t + 1"] h(2) r(6) by simp
  ultimately have "has_text ?ys ?u" using h u ys(2) r(6) assms(2) unfolding has_text_def by simp
  moreover have "rl_cursor rl + 1 = word_of_nat (?p + 1)" "rl_len rl + 1 = word_of_nat (length ?t + 1)"
    using assms by (simp_all add: line_rep_def)
  ultimately have "line_rep (rl\<lparr>rl_line := ?ys, rl_cursor := rl_cursor rl + 1, rl_len := rl_len rl + 1\<rparr>) (e\<lparr>ed_text := ?u, ed_pos := ?p + 1\<rparr>)"
    using ys(2) u r(6) by (simp add: line_rep_def)
  then show ?thesis using ys(1,2) r(5,7) by auto
qed

lemma take_line_ok:
  assumes "length (rl_line rl) = 256" and "has_text src t" "length t \<le> 255"
  shows "\<exists>line. take_line src rl = Some (rl\<lparr>rl_line := line, rl_len := word_of_nat (length t), rl_cursor := word_of_nat (length t)\<rparr>) \<and>
    length line = 256 \<and> has_text line t"
proof -
  have "\<exists>d. copy_line 256 src (rl_line rl) 0 = Some (d, min (256 - 1) (length t)) \<and> length d = 256 \<and> has_text d (take (256 - 1) t)"
    by (rule copy_line_ok [OF assms(2)]) (use assms(1) in simp_all)
  then show ?thesis using assms(3) by (auto simp: take_line_def TUI_READLINE_MAX_LINE_def)
qed

section \<open>The history\<close>

lemma history_index_ok:
  assumes "unat h < 32" "unat r < 32"
  shows "history_index h r = (unat h + 31 - unat r) mod 32"
proof -
  have "int (unat h) + int TUI_READLINE_MAX_HISTORY - 1 - int (unat r) = int (unat h + 31 - unat r)" using assms by (simp add: TUI_READLINE_MAX_HISTORY_def)
  then have "(int (unat h) + int TUI_READLINE_MAX_HISTORY - 1 - int (unat r)) smod int TUI_READLINE_MAX_HISTORY = int ((unat h + 31 - unat r) mod 32)"
    by (simp add: TUI_READLINE_MAX_HISTORY_def signed_modulo_int_def signed_divide_int_def zmod_int minus_div_mult_eq_mod sgn_if)
  then have "history_index h r = unat (word_of_nat ((unat h + 31 - unat r) mod 32) :: u8)" by (simp only: history_index_def of_int_of_nat_eq)
  also have "\<dots> = (unat h + 31 - unat r) mod 32"
  proof (rule unat_word_nat)
    have "(unat h + 31 - unat r) mod 32 < 32" by simp
    then show "(unat h + 31 - unat r) mod 32 < 2 ^ LENGTH(8)" by simp
  qed
  finally show ?thesis .
qed

lemma hist_row:
  assumes "hist_rep rl hs" and "i < length hs"
  shows "\<exists>row. arr_get (rl_history rl) (history_index (rl_head rl) (word_of_nat i)) = Some row \<and> has_text row (hs ! i) \<and> length (hs ! i) \<le> 255"
proof -
  have h: "length (rl_history rl) = 32" "unat (rl_head rl) < 32" "length hs \<le> 32" "\<forall>row \<in> set (rl_history rl). length row = 256" using assms(1) by (auto simp: hist_rep_def)
  let ?k = "(unat (rl_head rl) + 31 - i) mod 32"
  have "unat (word_of_nat i :: u8) = i" using assms(2) h(3) by (simp add: unat_of_nat)
  then have k: "history_index (rl_head rl) (word_of_nat i) = ?k" using history_index_ok [of "rl_head rl" "word_of_nat i"] h assms(2) by simp
  have "?k < 32" by simp
  then have "arr_get (rl_history rl) ?k = Some (rl_history rl ! ?k)" "length (rl_history rl ! ?k) = 256" using h(1,4) by (simp_all add: arr_rules)
  moreover have "has_text (rl_history rl ! ?k) (hs ! i)" using assms by (simp add: hist_rep_def)
  ultimately show ?thesis unfolding k by (auto simp: has_text_def)
qed

lemma hist_cong:
  "rl_history rl' = rl_history rl \<Longrightarrow> rl_head rl' = rl_head rl \<Longrightarrow> rl_count rl' = rl_count rl \<Longrightarrow> hist_rep rl' hs = hist_rep rl hs"
  by (simp add: hist_rep_def)

lemma hist_add:
  assumes "hist_rep rl hs" and "length row = 256" "has_text row t"
    and rl': "rl_history rl' = (rl_history rl)[unat (rl_head rl) := row]" "rl_head rl' = word_of_nat ((unat (rl_head rl) + 1) mod 32)"
      "rl_count rl' = (if unat (rl_count rl) < 32 then rl_count rl + 1 else rl_count rl)"
  shows "hist_rep rl' (take 32 (t # hs))"
proof -
  let ?h = "unat (rl_head rl)"
  have h: "length (rl_history rl) = 32" "?h < 32" "length hs \<le> 32" "\<forall>row \<in> set (rl_history rl). length row = 256" "rl_count rl = word_of_nat (length hs)"
    "\<And>i. i < length hs \<Longrightarrow> has_text (rl_history rl ! ((?h + 31 - i) mod 32)) (hs ! i)" using assms(1) by (auto simp: hist_rep_def)
  have "(?h + 1) mod 32 < 32" by simp
  then have h': "unat (rl_head rl') = (?h + 1) mod 32" unfolding rl'(2) by (intro unat_word_nat) simp
  have c: "unat (rl_count rl) = length hs" using h(3,5) by (simp add: unat_of_nat)
  have "has_text (rl_history rl' ! (((?h + 1) mod 32 + 31 - i) mod 32)) (take 32 (t # hs) ! i)" if i: "i < length (take 32 (t # hs))" for i
  proof (cases i)
    case 0
    have "((?h + 1) mod 32 + 31) mod 32 = ?h" using h(2) by (cases "?h = 31") simp_all
    then show ?thesis using 0 h(1,2) assms(3) by (simp add: rl'(1))
  next
    case (Suc j)
    then have j: "j < length hs" "j < 31" using i by simp_all
    have k: "((?h + 1) mod 32 + 31 - i) mod 32 = (?h + 31 - j) mod 32"
    proof (cases "?h = 31")
      case True
      then show ?thesis using Suc j by (simp add: mod_if)
    next
      case False
      then show ?thesis using Suc h(2) by (simp add: add.commute)
    qed
    have "(?h + 31 - j) mod 32 \<noteq> ?h"
    proof (cases "j \<le> ?h")
      case True
      then show ?thesis using True h(2) j by (auto simp: mod_if)
    next
      case False
      then show ?thesis using h(2) j by (auto simp: mod_if)
    qed
    then show ?thesis using h(6) [OF j(1)] i Suc unfolding k rl'(1) by simp
  qed
  moreover have "rl_count rl' = word_of_nat (length (take 32 (t # hs)))"
    unfolding rl'(3) c using h(3,5) by (cases "length hs < 32") (simp_all add: min_def)
  moreover have "\<forall>row' \<in> set (rl_history rl'). length row' = 256" using h(4) assms(2) set_update_subset_insert [of "rl_history rl" ?h row] unfolding rl'(1) by auto
  ultimately show ?thesis using h(1) h' unfolding hist_rep_def by (simp add: rl'(1))
qed

section \<open>Refinement\<close>

lemma rl_repD:
  assumes "rl_rep rl e"
  shows "line_rep rl e" "hist_rep rl (ed_hist e)" "unat (rl_recall rl) = ed_recall e" "unat (rl_count rl) = length (ed_hist e)" "ed_recall e \<le> length (ed_hist e)"
    "length (ed_hist e) \<le> 32" "length (rl_saved rl) = 256" "has_text (rl_saved rl) (ed_saved e)"
proof -
  show a: "line_rep rl e" "hist_rep rl (ed_hist e)" "ed_recall e \<le> length (ed_hist e)" "length (rl_saved rl) = 256" "has_text (rl_saved rl) (ed_saved e)"
    using assms by (auto simp: rl_rep_def)
  then show b: "length (ed_hist e) \<le> 32" by (simp add: hist_rep_def)
  show "unat (rl_count rl) = length (ed_hist e)" using a(2) b by (simp add: hist_rep_def unat_word_nat)
  show "unat (rl_recall rl) = ed_recall e" using assms a(3) b by (simp add: rl_rep_def unat_word_nat)
qed

text \<open>Steps that change the line and the cursor only.\<close>

lemma rl_rep_line:
  assumes "rl_rep rl e" and "line_rep (rl\<lparr>rl_line := l, rl_cursor := c, rl_len := n\<rparr>) (e\<lparr>ed_text := t, ed_pos := p\<rparr>)"
  shows "rl_rep (rl\<lparr>rl_line := l, rl_cursor := c, rl_len := n\<rparr>) (e\<lparr>ed_text := t, ed_pos := p\<rparr>)"
  using assms by (simp add: rl_rep_def hist_rep_def)

lemma rl_rep_cursor:
  assumes "rl_rep rl e" and "q \<le> length (ed_text e)" "c = word_of_nat q"
  shows "rl_rep (rl\<lparr>rl_cursor := c\<rparr>) (e\<lparr>ed_pos := q\<rparr>)"
  using assms by (simp add: rl_rep_def hist_rep_def line_rep_def)

text \<open>A text that is taken into the line.\<close>

lemma rl_rep_take:
  assumes "rl_rep rl e" and "has_text src t" "length t \<le> 255" and "k \<le> length (ed_hist e)"
  shows "\<exists>rl1. take_line src rl = Some rl1 \<and> rl_rep (rl1\<lparr>rl_recall := word_of_nat k\<rparr>) ((show_text t e)\<lparr>ed_recall := k\<rparr>) \<and> rl_recall rl1 = rl_recall rl"
proof -
  note r = rl_repD [OF assms(1)]
  obtain l where l: "take_line src rl = Some (rl\<lparr>rl_line := l, rl_len := word_of_nat (length t), rl_cursor := word_of_nat (length t)\<rparr>)" "length l = 256" "has_text l t"
    using take_line_ok [OF line_repD(1) [OF r(1)] assms(2,3)] by blast
  show ?thesis using l r assms(4) by (simp add: rl_rep_def line_rep_def hist_rep_def show_text_def)
qed

lemma up_ok:
  assumes "rl_rep rl e"
  shows "\<exists>rl1. history_up rl = Some rl1 \<and> rl_rep rl1 (ed_key a 0x48 e)"
proof (cases "ed_hist e = []")
  case True
  then have "\<not> rl_count rl > 0" using rl_repD(4) [OF assms] by (simp add: word_less_nat_alt)
  then show ?thesis using assms True by (simp add: history_up_def ed_key_def Let_def)
next
  case False
  note r = rl_repD [OF assms]
  let ?e = "if ed_recall e = 0 then e\<lparr>ed_saved := ed_text e\<rparr> else e"
  have c: "rl_count rl > 0" using r(4) False by (simp add: word_less_nat_alt)
  have z: "rl_recall rl = 0 \<longleftrightarrow> ed_recall e = 0" using r(3) by (metis unat_eq_zero)
  note ln = line_repD [OF r(1)]
  have sv: "\<exists>sv. (if rl_len rl > 0 then save_line (unat (rl_len rl)) (rl_line rl) (rl_saved rl) 0 else arr_set (rl_saved rl) 0 0) = Some sv \<and> length sv = 256 \<and> has_text sv (ed_text e)"
  proof (cases "rl_len rl > 0")
    case True
    then show ?thesis using save_line_ok [OF ln(2,3) r(7), of 0] ln(4) by simp
  next
    case empty: False
    then have "ed_text e = []" using ln(4) by (simp add: word_less_nat_alt)
    then show ?thesis using empty r(7) by (auto simp: arr_rules has_text_def nth_list_update)
  qed
  obtain rl1 where rl1: "(if rl_recall rl = 0 then do { sv \<leftarrow> (if rl_len rl > 0 then save_line (unat (rl_len rl)) (rl_line rl) (rl_saved rl) 0 else arr_set (rl_saved rl) 0 0);
      Some (rl\<lparr>rl_saved := sv\<rparr>) } else Some rl) = Some rl1" "rl_rep rl1 ?e"
  proof (cases "rl_recall rl = 0")
    case True
    obtain sv where s: "(if rl_len rl > 0 then save_line (unat (rl_len rl)) (rl_line rl) (rl_saved rl) 0 else arr_set (rl_saved rl) 0 0) = Some sv"
      "length sv = 256" "has_text sv (ed_text e)" using sv by blast
    have "rl_rep (rl\<lparr>rl_saved := sv\<rparr>) (e\<lparr>ed_saved := ed_text e\<rparr>)" using assms s(2,3) by (simp add: rl_rep_def line_rep_def hist_rep_def)
    then show ?thesis using that [of "rl\<lparr>rl_saved := sv\<rparr>"] True z s(1) by simp
  next
    case False
    then show ?thesis using that [of rl] z assms by simp
  qed
  note r1 = rl_repD [OF rl1(2)]
  have hist: "ed_hist ?e = ed_hist e" "ed_recall ?e = ed_recall e" "ed_text ?e = ed_text e" by simp_all
  show ?thesis
  proof (cases "ed_recall e < length (ed_hist e)")
    case True
    have w: "rl_recall rl1 = word_of_nat (ed_recall e)" using rl1(2) hist by (simp add: rl_rep_def)
    obtain row where row: "arr_get (rl_history rl1) (history_index (rl_head rl1) (rl_recall rl1)) = Some row" "has_text row (ed_hist e ! ed_recall e)" "length (ed_hist e ! ed_recall e) \<le> 255"
      using hist_row [OF r1(2), of "ed_recall e"] True hist w by auto
    obtain rl2 where rl2: "take_line row rl1 = Some rl2" "rl_rep (rl2\<lparr>rl_recall := word_of_nat (ed_recall e + 1)\<rparr>) ((show_text (ed_hist e ! ed_recall e) ?e)\<lparr>ed_recall := ed_recall e + 1\<rparr>)"
      "rl_recall rl2 = rl_recall rl1"
      using rl_rep_take [OF rl1(2) row(2,3), of "ed_recall e + 1"] True hist by auto
    have "rl_recall rl1 < rl_count rl1" using r1(3,4) True hist by (simp add: word_less_nat_alt)
    then have "history_up rl = Some (rl2\<lparr>rl_recall := word_of_nat (ed_recall e + 1)\<rparr>)" using c rl1(1) row(1) rl2(1,3) w by (simp add: history_up_def)
    then show ?thesis using rl2(2) False True by (simp add: ed_key_def Let_def)
  next
    case n: False
    then have "\<not> rl_recall rl1 < rl_count rl1" using r1(3,4) hist by (simp add: word_less_nat_alt)
    then have "history_up rl = Some rl1" using c rl1(1) by (simp add: history_up_def)
    then show ?thesis using rl1(2) False n by (auto simp: ed_key_def Let_def)
  qed
qed

lemma down_ok:
  assumes "rl_rep rl e"
  shows "\<exists>rl1. history_down rl = Some rl1 \<and> rl_rep rl1 (ed_key a 0x50 e)"
proof (cases "ed_recall e = 0")
  case True
  then have "\<not> rl_recall rl > 0" using rl_repD(3) [OF assms] by (simp add: word_less_nat_alt)
  then show ?thesis using assms True by (simp add: history_down_def ed_key_def Let_def)
next
  case False
  note r = rl_repD [OF assms]
  let ?k = "ed_recall e - 1" and ?rl = "rl\<lparr>rl_recall := rl_recall rl - 1\<rparr>" and ?e = "e\<lparr>ed_recall := ed_recall e - 1\<rparr>"
  have pos: "rl_recall rl > 0" using r(3) False by (simp add: word_less_nat_alt)
  have w: "rl_recall rl - 1 = word_of_nat ?k" using assms False by (simp add: rl_rep_def of_nat_diff)
  have rep: "rl_rep ?rl ?e" using assms w r(5) by (simp add: rl_rep_def line_rep_def hist_rep_def)
  have kz: "rl_recall rl - 1 = 0 \<longleftrightarrow> ed_recall e = 1"
  proof -
    have "unat (rl_recall rl - 1) = ?k" unfolding w using r(5,6) by (simp add: unat_word_nat)
    then show ?thesis using False unat_eq_zero [of "rl_recall rl - 1"] by auto
  qed
  show ?thesis
  proof (cases "ed_recall e = 1")
    case True
    have "length (ed_saved e) \<le> 255" using r(7,8) by (simp add: has_text_def)
    then obtain rl1 where rl1: "take_line (rl_saved rl) ?rl = Some rl1" "rl_rep (rl1\<lparr>rl_recall := word_of_nat 0\<rparr>) ((show_text (ed_saved e) ?e)\<lparr>ed_recall := 0\<rparr>)" "rl_recall rl1 = rl_recall rl - 1"
      using rl_rep_take [OF rep r(8), of 0] by auto
    have "rl1\<lparr>rl_recall := word_of_nat 0\<rparr> = rl1" using rl1(3) w True by simp
    moreover have "(show_text (ed_saved e) ?e)\<lparr>ed_recall := 0\<rparr> = ed_key a 0x50 e" using True by (simp add: ed_key_def show_text_def Let_def)
    ultimately show ?thesis using rl1(1,2) pos kz True by (simp add: history_down_def Let_def)
  next
    case n: False
    have "?k < length (ed_hist e)" using r(5) False by simp
    then obtain row where row: "arr_get (rl_history rl) (history_index (rl_head rl) (word_of_nat ?k)) = Some row" "has_text row (ed_hist e ! ?k)" "length (ed_hist e ! ?k) \<le> 255"
      using hist_row [OF r(2)] by blast
    obtain rl1 where rl1: "take_line row ?rl = Some rl1" "rl_rep (rl1\<lparr>rl_recall := word_of_nat ?k\<rparr>) ((show_text (ed_hist e ! ?k) ?e)\<lparr>ed_recall := ?k\<rparr>)" "rl_recall rl1 = rl_recall rl - 1"
    proof -
      have "?k \<le> length (ed_hist ?e)" using r(5) by simp
      from rl_rep_take [OF rep row(2,3) this] show thesis using that by auto
    qed
    have "rl1\<lparr>rl_recall := word_of_nat ?k\<rparr> = rl1" using rl1(3) w by simp
    moreover have "(show_text (ed_hist e ! ?k) ?e)\<lparr>ed_recall := ?k\<rparr> = ed_key a 0x50 e" using False n by (simp add: ed_key_def show_text_def Let_def)
    ultimately show ?thesis using rl1(1,2) pos kz n row(1) w by (simp add: history_down_def Let_def)
  qed
qed

lemma key_ok:
  assumes "rl_rep rl e"
  shows "\<exists>rl1. tui_readline_key a sc rl = Some rl1 \<and> rl_rep rl1 (ed_key a sc e)"
proof -
  note r = rl_repD [OF assms]
  note ln = line_repD [OF r(1)]
  have cur: "rl_cursor rl > 0 \<longleftrightarrow> ed_pos e > 0" "rl_cursor rl < rl_len rl \<longleftrightarrow> ed_pos e < length (ed_text e)" using ln(4,5) by (simp_all add: word_less_nat_alt)
  have w: "rl_cursor rl = word_of_nat (ed_pos e)" "rl_len rl = word_of_nat (length (ed_text e))" using r(1) by (simp_all add: line_rep_def)
  consider "sc = 0x48" | "sc = 0x50" | "sc = 0x0E" | "sc \<notin> {0x48, 0x50, 0x0E, 0x1C, 0x47, 0x4F}" "a \<ge> 0x20" "a \<le> 0x7E"
    | "sc \<notin> {0x48, 0x50, 0x0E}" "sc \<in> {0x1C, 0x47, 0x4F} \<or> \<not> (a \<ge> 0x20 \<and> a \<le> 0x7E)" by blast
  then show ?thesis
  proof cases
    case 1
    then show ?thesis using up_ok [OF assms] by (simp add: tui_readline_key_def)
  next
    case 2
    then show ?thesis using down_ok [OF assms] by (simp add: tui_readline_key_def)
  next
    case 3
    show ?thesis
    proof (cases "ed_pos e > 0")
      case True
      then obtain l where "memmove_impl (unat (rl_cursor rl) - 1) (unat (rl_cursor rl)) (tail_bytes rl) (rl_line rl) = Some l"
        "line_rep (rl\<lparr>rl_line := l, rl_cursor := rl_cursor rl - 1, rl_len := rl_len rl - 1\<rparr>)
          (e\<lparr>ed_text := take (ed_pos e - 1) (ed_text e) @ drop (ed_pos e) (ed_text e), ed_pos := ed_pos e - 1\<rparr>)" using line_backspace [OF r(1)] by blast
      then show ?thesis using 3 True cur rl_rep_line [OF assms] by (simp add: tui_readline_key_def ed_key_def Let_def)
    next
      case False
      then show ?thesis using 3 cur assms by (simp add: tui_readline_key_def ed_key_def Let_def)
    qed
  next
    case 4
    have a0: "a \<noteq> 0" using 4(2) by auto
    show ?thesis
    proof (cases "length (ed_text e) < 255")
      case True
      obtain l where l: "memmove_impl (unat (rl_cursor rl) + 1) (unat (rl_cursor rl)) (tail_bytes rl) (rl_line rl) = Some l" "length l = 256"
        "line_rep (rl\<lparr>rl_line := l[unat (rl_cursor rl) := a], rl_cursor := rl_cursor rl + 1, rl_len := rl_len rl + 1\<rparr>)
          (e\<lparr>ed_text := take (ed_pos e) (ed_text e) @ a # drop (ed_pos e) (ed_text e), ed_pos := ed_pos e + 1\<rparr>)" using line_insert [OF r(1) True a0] by blast
      have "arr_set l (unat (rl_cursor rl)) a = Some (l[unat (rl_cursor rl) := a])" using l(2) ln(3,5,6) by (simp add: arr_rules)
      then show ?thesis using 4 True l(1) rl_rep_line [OF assms l(3)] ln(4) by (simp add: tui_readline_key_def ed_key_def Let_def TUI_READLINE_MAX_LINE_def)
    next
      case False
      then show ?thesis using 4 assms ln(4) by (simp add: tui_readline_key_def ed_key_def Let_def TUI_READLINE_MAX_LINE_def)
    qed
  next
    case 5
    have "\<exists>q. tui_readline_key a sc rl = Some (rl\<lparr>rl_cursor := word_of_nat q\<rparr>) \<and> ed_key a sc e = e\<lparr>ed_pos := q\<rparr> \<and> q \<le> length (ed_text e)"
    proof -
      have d: "rl_cursor rl - 1 = word_of_nat (ed_pos e - 1)" if "ed_pos e > 0" using that w by (simp add: of_nat_diff)
      have z: "rl\<lparr>rl_cursor := rl_cursor rl\<rparr> = rl" "e\<lparr>ed_pos := ed_pos e\<rparr> = e" by simp_all
      consider "sc = 0x47" | "sc = 0x4F" | "sc = 0x4B" "\<not> (a \<ge> 0x20 \<and> a \<le> 0x7E)" | "sc = 0x4D" "\<not> (a \<ge> 0x20 \<and> a \<le> 0x7E)" | "sc = 0x1C" | "sc \<notin> {0x1C, 0x47, 0x4F, 0x4B, 0x4D}" "\<not> (a \<ge> 0x20 \<and> a \<le> 0x7E)" using 5 by blast
      then show ?thesis
      proof cases
        case 1
        then show ?thesis by (auto simp: tui_readline_key_def ed_key_def Let_def intro!: exI [of _ 0])
      next
        case 2
        then show ?thesis using w by (auto simp: tui_readline_key_def ed_key_def Let_def intro!: exI [of _ "length (ed_text e)"])
      next
        case 3
        then have f: "(a \<ge> 0x20 \<and> a \<le> 0x7E) = False" by blast
        have k: "tui_readline_key a sc rl = Some (if rl_cursor rl > 0 then rl\<lparr>rl_cursor := rl_cursor rl - 1\<rparr> else rl)" "ed_key a sc e = e\<lparr>ed_pos := ed_pos e - 1\<rparr>"
          using f by (cases "a \<ge> 0x20"; simp add: tui_readline_key_def ed_key_def Let_def 3(1))+
        show ?thesis
        proof (cases "ed_pos e > 0")
          case True
          then show ?thesis using k d cur(1) ln(6) by (intro exI [of _ "ed_pos e - 1"]) simp
        next
          case False
          then show ?thesis using k w(1) cur(1) z(1) by (intro exI [of _ 0]) simp
        qed
      next
        case 4
        then have f: "(a \<ge> 0x20 \<and> a \<le> 0x7E) = False" by blast
        have k: "tui_readline_key a sc rl = Some (if rl_cursor rl < rl_len rl then rl\<lparr>rl_cursor := rl_cursor rl + 1\<rparr> else rl)"
          "ed_key a sc e = e\<lparr>ed_pos := min (length (ed_text e)) (ed_pos e + 1)\<rparr>"
          using f by (cases "a \<ge> 0x20"; simp add: tui_readline_key_def ed_key_def Let_def 4(1))+
        show ?thesis
        proof (cases "ed_pos e < length (ed_text e)")
          case True
          then show ?thesis using k w(1) cur(2) by (intro exI [of _ "ed_pos e + 1"]) simp
        next
          case False
          then show ?thesis using k w(1) cur(2) z(1) ln(6) by (intro exI [of _ "ed_pos e"]) simp
        qed
      next
        case 5
        then show ?thesis using w(1) z ln(6) by (intro exI [of _ "ed_pos e"]) (simp add: tui_readline_key_def ed_key_def Let_def)
      next
        case 6
        then have f: "(a \<ge> 0x20 \<and> a \<le> 0x7E) = False" by blast
        have "tui_readline_key a sc rl = Some rl" "ed_key a sc e = e"
          using f 6(1) \<open>sc \<notin> {0x48, 0x50, 0x0E}\<close> by (cases "a \<ge> 0x20"; simp add: tui_readline_key_def ed_key_def Let_def)+
        then show ?thesis using w(1) z ln(6) by (intro exI [of _ "ed_pos e"]) simp
      qed
    qed
    then obtain q where "tui_readline_key a sc rl = Some (rl\<lparr>rl_cursor := word_of_nat q\<rparr>)" "ed_key a sc e = e\<lparr>ed_pos := q\<rparr>" "q \<le> length (ed_text e)" by blast
    then show ?thesis using rl_rep_cursor [OF assms _ refl, of q] by simp
  qed
qed

lemma enter_ok:
  assumes "rl_rep rl e" and "0 \<notin> set t"
  shows "\<exists>rl1. tui_readline_add_history (Some t) rl = Some rl1 \<and> rl_rep rl1 (ed_enter t e)"
proof (cases "t = []")
  case True
  then show ?thesis using assms by (simp add: tui_readline_add_history_def ed_enter_def)
next
  case False
  note r = rl_repD [OF assms(1)]
  have ht: "has_text (t @ [0]) t" using assms(2) by (simp add: has_text_def nth_append)
  have c: "rl_count rl > 0 \<longleftrightarrow> ed_hist e \<noteq> []" using r(4) by (simp add: word_less_nat_alt)
  let ?same = "if rl_count rl > 0 then do { row \<leftarrow> arr_get (rl_history rl) (history_index (rl_head rl) 0); same_text row (t @ [0]) 0 } else Some False"
  have same: "?same = Some (ed_hist e \<noteq> [] \<and> hd (ed_hist e) = t)"
  proof (cases "ed_hist e = []")
    case hs: False
    then obtain row where "arr_get (rl_history rl) (history_index (rl_head rl) 0) = Some row" "has_text row (hd (ed_hist e))"
      using hist_row [OF r(2), of 0] by (auto simp: hd_conv_nth)
    then show ?thesis using hs c same_text_ok [OF _ ht, of row "hd (ed_hist e)" 0] by simp
  qed (use c in simp)
  show ?thesis
  proof (cases "ed_hist e \<noteq> [] \<and> hd (ed_hist e) = t")
    case True
    then have "?same = Some True" using same by simp
    then show ?thesis using assms(1) True False by (simp add: tui_readline_add_history_def ed_enter_def)
  next
    case n: False
    let ?h = "unat (rl_head rl)"
    have h: "length (rl_history rl) = 32" "?h < 32" "\<forall>row \<in> set (rl_history rl). length row = 256" using r(2) by (auto simp: hist_rep_def)
    then have lr: "length (rl_history rl ! ?h) = 256" by simp
    obtain row where row: "copy_line 256 (t @ [0]) (rl_history rl ! ?h) 0 = Some (row, min (256 - 1) (length t))" "length row = 256" "has_text row (take 255 t)"
      using copy_line_ok [OF ht lr, of 0] by auto
    let ?rl = "rl\<lparr>rl_history := (rl_history rl)[?h := row], rl_head := word_of_nat ((?h + 1) mod 32), rl_count := (if unat (rl_count rl) < 32 then rl_count rl + 1 else rl_count rl)\<rparr>"
    have "?same = Some False" using same n by simp
    then have "tui_readline_add_history (Some t) rl = Some ?rl"
      using False row(1) h(1,2) by (simp add: tui_readline_add_history_def TUI_READLINE_MAX_LINE_def TUI_READLINE_MAX_HISTORY_def arr_rules)
    moreover have "hist_rep ?rl (take 32 (take 255 t # ed_hist e))" by (rule hist_add [OF r(2) row(2,3)]) simp_all
    moreover have "line_rep ?rl e" using r(1) by (simp add: line_rep_def)
    ultimately show ?thesis using assms(1) False n r(5,6) by (auto simp: rl_rep_def ed_enter_def line_rep_def)
  qed
qed

lemma clear_ok:
  assumes "rl_rep rl e"
  shows "\<exists>rl1. tui_readline_clear rl = Some rl1 \<and> rl_rep rl1 (ed_call Clear e)"
  using assms line_repD(1) [OF rl_repD(1) [OF assms]]
  by (auto simp: tui_readline_clear_def rl_rep_def line_rep_def hist_rep_def has_text_def arr_rules nth_list_update)

lemma rl_exec_ok:
  assumes "rl_rep rl e" and "case c of Enter t \<Rightarrow> 0 \<notin> set t | _ \<Rightarrow> True"
  shows "\<exists>rl1. rl_exec c rl = Some rl1 \<and> rl_rep rl1 (ed_call c e)"
proof (cases c)
  case (Key a sc)
  then show ?thesis using key_ok [OF assms(1)] by simp
next
  case (Enter t)
  then show ?thesis using enter_ok [OF assms(1)] assms(2) by simp
next
  case Clear
  then show ?thesis using clear_ok [OF assms(1)] by simp
qed

text \<open>The structure after \<open>tui_readline_init\<close>, whatever it held before.\<close>

definition raw_readline :: "tui_readline_t \<Rightarrow> bool" where
  "raw_readline rl \<longleftrightarrow> length (rl_prompt rl) = 64 \<and> length (rl_line rl) = 256 \<and> length (rl_saved rl) = 256 \<and> length (rl_history rl) = 32 \<and>
     (\<forall>row \<in> set (rl_history rl). length row = 256)"

definition new_editor :: editor where
  "new_editor = \<lparr>ed_text = [], ed_pos = 0, ed_hist = [], ed_recall = 0, ed_saved = []\<rparr>"

lemma init_rep:
  assumes "raw_readline rl" and "0 \<notin> set p"
  shows "\<exists>rl1. tui_readline_init (Some p) a rl = Some rl1 \<and> rl_rep rl1 new_editor \<and> text_of (rl_prompt rl1) = take 63 p"
proof -
  have ht: "has_text (p @ [0]) p" using assms(2) by (simp add: has_text_def nth_append)
  have "length ((rl_prompt rl)[0 := 0]) = 64" using assms(1) by (simp add: raw_readline_def)
  then obtain d where "copy_line 64 (p @ [0]) ((rl_prompt rl)[0 := 0]) 0 = Some (d, min (64 - 1) (length p))" "has_text d (take 63 p)"
    using copy_line_ok [OF ht, of "(rl_prompt rl)[0 := 0]" 64 0] by auto
  then show ?thesis using assms(1) has_text_of [of d "take 63 p"]
    by (auto simp: tui_readline_init_def PROMPT_SIZE_def raw_readline_def rl_rep_def line_rep_def hist_rep_def has_text_def new_editor_def arr_rules nth_list_update)
qed

section \<open>Properties\<close>

text \<open>
  Property C34. The input line of the shell is an editor: from \<open>tui_readline_init\<close> on, after any sequence of keys, lines entered into the
  history and clearings, the array of the line holds exactly the text that insertions and deletions at the cursor, and the recalled lines, give,
  with its NUL; the cursor is within the text, the ring holds the last 32 different lines that were entered, the latest first. No access leaves an array.
\<close>

theorem readline_edits:
  assumes "raw_readline rl" and "0 \<notin> set p" and "\<forall>t. Enter t \<in> set cs \<longrightarrow> 0 \<notin> set t"
  shows "\<exists>rl1 rl2. tui_readline_init (Some p) a rl = Some rl1 \<and> rl_run cs rl1 = Some rl2 \<and> rl_rep rl2 (fold ed_call cs new_editor) \<and>
    tui_readline_get_line rl2 = ed_text (fold ed_call cs new_editor)"
proof -
  have run: "\<exists>rl2. rl_run cs rl1 = Some rl2 \<and> rl_rep rl2 (fold ed_call cs e)" if "rl_rep rl1 e" "\<forall>t. Enter t \<in> set cs \<longrightarrow> 0 \<notin> set t" for rl1 e cs
    using that
  proof (induction cs arbitrary: rl1 e)
    case (Cons c cs)
    have "case c of Enter t \<Rightarrow> 0 \<notin> set t | _ \<Rightarrow> True" using Cons.prems(2) by (auto split: rl_call.split)
    from rl_exec_ok [OF Cons.prems(1) this] obtain rl' where "rl_exec c rl1 = Some rl'" "rl_rep rl' (ed_call c e)" by blast
    then show ?case using Cons.IH [of rl' "ed_call c e"] Cons.prems(2) by simp
  qed simp
  obtain rl1 where rl1: "tui_readline_init (Some p) a rl = Some rl1" "rl_rep rl1 new_editor" using init_rep [OF assms(1,2)] by blast
  obtain rl2 where rl2: "rl_run cs rl1 = Some rl2" "rl_rep rl2 (fold ed_call cs new_editor)" using run [OF rl1(2) assms(3)] by blast
  have "tui_readline_get_line rl2 = ed_text (fold ed_call cs new_editor)"
    unfolding tui_readline_get_line_def by (rule has_text_of [OF line_repD(2) [OF rl_repD(1) [OF rl2(2)]]])
  then show ?thesis using rl1(1) rl2 by blast
qed

definition demo_readline :: tui_readline_t where
  "demo_readline = \<lparr>rl_prompt = replicate 64 0, rl_prompt_attr = 0, rl_line = replicate 256 0, rl_len = 0, rl_cursor = 0,
     rl_history = replicate 32 (replicate 256 0), rl_saved = replicate 256 0, rl_count = 0, rl_head = 0, rl_recall = 0, rl_parent = 0\<rparr>"

text \<open>Typing "ls", entering it, typing "a", and recalling the line with the arrow.\<close>

theorem readline_edits_witness:
  "\<exists>rl1 rl2. tui_readline_init (Some [36]) 7 demo_readline = Some rl1 \<and>
     rl_run [Key 0x73 0x1F, Key 0 0x4B, Key 0x6C 0x26, Enter [0x6C, 0x73], Clear, Key 0x61 0x1E, Key 0 0x48] rl1 = Some rl2 \<and> tui_readline_get_line rl2 = [0x6C, 0x73]"
proof -
  let ?cs = "[Key 0x73 0x1F, Key 0 0x4B, Key 0x6C 0x26, Enter [0x6C, 0x73], Clear, Key 0x61 0x1E, Key 0 0x48]"
  have "raw_readline demo_readline" by (simp add: raw_readline_def demo_readline_def)
  moreover have "\<forall>t. Enter t \<in> set ?cs \<longrightarrow> 0 \<notin> set t" by auto
  moreover have "ed_text (fold ed_call ?cs new_editor) = [0x6C, 0x73]" by code_simp
  ultimately show ?thesis using readline_edits [of demo_readline "[36]" ?cs 7] by auto
qed

text \<open>
  Going down in the history shows the line that is shown already: after two steps up, one step down changes nothing.
\<close>

lemma down_repeats:
  assumes "ed_recall e + 2 \<le> length (ed_hist e)"
  shows "ed_text (ed_key 0 0x50 (ed_key 0 0x48 (ed_key 0 0x48 e))) = ed_text (ed_key 0 0x48 (ed_key 0 0x48 e))"
proof -
  have "ed_hist e \<noteq> []" using assms by auto
  then show ?thesis using assms by (auto simp: ed_key_def Let_def show_text_def)
qed

end
