(* ===== verification/Pci.thy ===== *)
theory Pci
  imports Port_Io
begin

text \<open>
  The PCI bus (\<open>Kernel/drivers/pci.c\<close>, \<open>pci.h\<close>) and the clock (\<open>Kernel/drivers/rtc.c\<close>). The devices behind the ports are an argument, as in the other
  drivers, here with accesses of 32 bits. \<open>pci_scan_all\<close>, which only prints, is not modelled.
\<close>

record 'h lports = "'h ports" +
  p_inl :: "u16 \<Rightarrow> 'h \<Rightarrow> u32 \<times> 'h"
  p_outl :: "u16 \<Rightarrow> u32 \<Rightarrow> 'h \<Rightarrow> 'h"

section \<open>Addresses\<close>

definition PCI_CONFIG_ADDR :: u16 where "PCI_CONFIG_ADDR = 0xCF8"
definition PCI_CONFIG_DATA :: u16 where "PCI_CONFIG_DATA = 0xCFC"
definition PCI_VENDOR_ID :: u8 where "PCI_VENDOR_ID = 0x00"
definition PCI_DEVICE_ID :: u8 where "PCI_DEVICE_ID = 0x02"
definition PCI_COMMAND :: u8 where "PCI_COMMAND = 0x04"
definition PCI_BAR0 :: u8 where "PCI_BAR0 = 0x10"
definition PCI_INTERRUPT_LINE :: u8 where "PCI_INTERRUPT_LINE = 0x3C"
definition PCI_CMD_IO_SPACE :: u32 where "PCI_CMD_IO_SPACE = 0x0001"
definition PCI_CMD_MEM_SPACE :: u32 where "PCI_CMD_MEM_SPACE = 0x0002"
definition PCI_CMD_BUS_MASTER :: u32 where "PCI_CMD_BUS_MASTER = 0x0004"
definition PCI_BAR_IO :: u32 where "PCI_BAR_IO = 1"
definition PCI_NOT_FOUND :: u16 where "PCI_NOT_FOUND = 0xFFFF"
definition PCI_MAX_BUS :: nat where "PCI_MAX_BUS = 256"
definition PCI_MAX_SLOT :: nat where "PCI_MAX_SLOT = 32"
definition PCI_MAX_FUNC :: nat where "PCI_MAX_FUNC = 8"

definition PCI_ADDR :: "u32 \<Rightarrow> u32 \<Rightarrow> u32 \<Rightarrow> u16" where
  "PCI_ADDR bus slot func = ucast (push_bit 8 (bus AND 0xFF) OR push_bit 3 (slot AND 0x1F) OR (func AND 0x07))"

definition PCI_BUS :: "u16 \<Rightarrow> u16" where "PCI_BUS a = drop_bit 8 a AND 0xFF"
definition PCI_SLOT :: "u16 \<Rightarrow> u16" where "PCI_SLOT a = drop_bit 3 a AND 0x1F"
definition PCI_FUNC :: "u16 \<Rightarrow> u16" where "PCI_FUNC a = a AND 0x07"

section \<open>Configuration space\<close>

definition config_addr :: "u16 \<Rightarrow> u8 \<Rightarrow> u32" where
  "config_addr a off = 0x80000000 OR push_bit 16 (ucast (PCI_BUS a)) OR push_bit 11 (ucast (PCI_SLOT a)) OR
     push_bit 8 (ucast (PCI_FUNC a)) OR ucast (off AND 0xFC)"

definition pci_read_config :: "'h lports \<Rightarrow> u16 \<Rightarrow> u8 \<Rightarrow> 'h \<Rightarrow> u32 \<times> 'h" where
  "pci_read_config io a off h = p_inl io PCI_CONFIG_DATA (p_outl io PCI_CONFIG_ADDR (config_addr a off) h)"

definition pci_write_config :: "'h lports \<Rightarrow> u16 \<Rightarrow> u8 \<Rightarrow> u32 \<Rightarrow> 'h \<Rightarrow> 'h" where
  "pci_write_config io a off v h = p_outl io PCI_CONFIG_DATA v (p_outl io PCI_CONFIG_ADDR (config_addr a off) h)"

definition pci_read_word :: "'h lports \<Rightarrow> u16 \<Rightarrow> u8 \<Rightarrow> 'h \<Rightarrow> u16 \<times> 'h" where
  "pci_read_word io a off h =
     (case pci_read_config io a off h of (v, h1) \<Rightarrow> (if off AND 2 \<noteq> 0 then ucast (drop_bit 16 v AND 0xFFFF) else ucast (v AND 0xFFFF), h1))"

definition pci_read_irq :: "'h lports \<Rightarrow> u16 \<Rightarrow> 'h \<Rightarrow> u8 \<times> 'h" where
  "pci_read_irq io a h = (case pci_read_config io a PCI_INTERRUPT_LINE h of (v, h1) \<Rightarrow> (ucast (v AND 0xFF), h1))"

definition pci_read_bar :: "'h lports \<Rightarrow> u16 \<Rightarrow> u8 \<Rightarrow> 'h \<Rightarrow> u32 \<times> 'h" where
  "pci_read_bar io a i h = pci_read_config io a (PCI_BAR0 + i * 4) h"

definition pci_enable_bus_mastering :: "'h lports \<Rightarrow> u16 \<Rightarrow> 'h \<Rightarrow> 'h" where
  "pci_enable_bus_mastering io a h =
     (case pci_read_config io a PCI_COMMAND h of (cmd, h1) \<Rightarrow>
      pci_write_config io a PCI_COMMAND (cmd OR (PCI_CMD_IO_SPACE OR PCI_CMD_MEM_SPACE OR PCI_CMD_BUS_MASTER)) h1)"

section \<open>The search for a device\<close>

text \<open>The three loops; \<open>None\<close> when a loop ends without a result.\<close>

fun find_func :: "'h lports \<Rightarrow> u16 \<Rightarrow> u16 \<Rightarrow> nat \<Rightarrow> nat \<Rightarrow> nat list \<Rightarrow> 'h \<Rightarrow> u16 option \<times> 'h" where
  "find_func io vid did bus slot [] h = (None, h)"
| "find_func io vid did bus slot (f # fs) h =
     (let addr = PCI_ADDR (word_of_nat bus) (word_of_nat slot) (word_of_nat f); (vendor, h1) = pci_read_word io addr PCI_VENDOR_ID h in
      if vendor = 0xFFFF then (if f = 0 then (None, h1) else find_func io vid did bus slot fs h1)
      else (let (device, h2) = pci_read_word io addr PCI_DEVICE_ID h1 in
            if vendor = vid \<and> device = did then (Some addr, h2) else find_func io vid did bus slot fs h2))"

fun find_slot :: "'h lports \<Rightarrow> u16 \<Rightarrow> u16 \<Rightarrow> nat \<Rightarrow> nat list \<Rightarrow> 'h \<Rightarrow> u16 option \<times> 'h" where
  "find_slot io vid did bus [] h = (None, h)"
| "find_slot io vid did bus (s # ss) h =
     (case find_func io vid did bus s [0 ..< PCI_MAX_FUNC] h of
        (Some a, h1) \<Rightarrow> (Some a, h1)
      | (None, h1) \<Rightarrow> find_slot io vid did bus ss h1)"

fun find_bus :: "'h lports \<Rightarrow> u16 \<Rightarrow> u16 \<Rightarrow> nat list \<Rightarrow> 'h \<Rightarrow> u16 option \<times> 'h" where
  "find_bus io vid did [] h = (None, h)"
| "find_bus io vid did (b # bs) h =
     (case find_slot io vid did b [0 ..< PCI_MAX_SLOT] h of
        (Some a, h1) \<Rightarrow> (Some a, h1)
      | (None, h1) \<Rightarrow> find_bus io vid did bs h1)"

definition pci_find_device :: "'h lports \<Rightarrow> u16 \<Rightarrow> u16 \<Rightarrow> 'h \<Rightarrow> u16 \<times> 'h" where
  "pci_find_device io vid did h =
     (case find_bus io vid did [0 ..< PCI_MAX_BUS] h of (Some a, h1) \<Rightarrow> (a, h1) | (None, h1) \<Rightarrow> (PCI_NOT_FOUND, h1))"

section \<open>The clock\<close>

definition bcd_to_bin :: "u8 \<Rightarrow> u8" where
  "bcd_to_bin b = (b AND 0x0F) + drop_bit 4 b * 10"

definition cmos_read :: "'h lports \<Rightarrow> u8 \<Rightarrow> 'h \<Rightarrow> u8 \<times> 'h" where
  "cmos_read io reg h = p_inb io 0x71 (p_outb io 0x80 0 (p_outb io 0x70 (reg OR 0x80) h))"

text \<open>\<open>rtc_init\<close> reads a register and writes log lines; its result is 0.\<close>

definition rtc_init :: "'h lports \<Rightarrow> 'h \<Rightarrow> int \<times> 'h" where
  "rtc_init io h = (0, snd (cmos_read io 0x0B h))"

partial_function (option) rtc_wait :: "'h lports \<Rightarrow> 'h \<Rightarrow> 'h option" where
  "rtc_wait io h = (case cmos_read io 0x0A h of (a, h1) \<Rightarrow> if a AND 0x80 \<noteq> 0 then rtc_wait io h1 else Some h1)"

declare rtc_wait.simps [code]

definition rtc_read_time :: "'h lports \<Rightarrow> 'h \<Rightarrow> ((int \<times> int \<times> int) \<times> 'h) option" where
  "rtc_read_time io h =
     do { h0 \<leftarrow> rtc_wait io h;
          (let (sec, h1) = cmos_read io 0x00 h0; (mn, h2) = cmos_read io 0x02 h1; (hr, h3) = cmos_read io 0x04 h2; (reg_b, h4) = cmos_read io 0x0B h3;
               bcd = (reg_b AND 0x02 = 0);
               sec1 = (if bcd then bcd_to_bin sec else sec); min1 = (if bcd then bcd_to_bin mn else mn); hr1 = (if bcd then bcd_to_bin hr else hr);
               hr2 = (if reg_b AND 0x04 = 0 \<and> hr1 AND 0x80 \<noteq> 0 then (hr1 AND 0x7F) + 12 else hr1)
           in Some ((uint hr2, uint min1, uint sec1), h4)) }"

end
