(* ===== verification/Pci_Props.thy ===== *)
theory Pci_Props
  imports Pci
begin

text \<open>
  The search on the PCI bus against the configuration space as a function, and what the clock reads.
\<close>

section \<open>The configuration space\<close>


definition place :: "nat \<times> nat \<times> nat \<Rightarrow> u16" where
  "place p = (case p of (b, s, f) \<Rightarrow> PCI_ADDR (word_of_nat b) (word_of_nat s) (word_of_nat f))"






section \<open>The search\<close>







section \<open>Properties\<close>





text \<open>The last address is the value that stands for "not found".\<close>

lemma not_found_is_an_address: "place (255, 31, 7) = PCI_NOT_FOUND"
  by code_simp

section \<open>The clock\<close>

text \<open>A clock whose registers do not change while they are read: the index is latched at port 0x70.\<close>

definition clock_ok :: "'h lports \<Rightarrow> (u8 \<Rightarrow> u8) \<Rightarrow> bool" where
  "clock_ok io reg \<longleftrightarrow> (\<forall>i h. fst (cmos_read io i h) = reg i)"

lemma rtc_read_ok:
  assumes "clock_ok io reg" and "reg 0x0A AND 0x80 = 0"
  shows "\<exists>h'. rtc_read_time io h = Some
    ((let bcd = (reg 0x0B AND 0x02 = 0); hr = (if bcd then bcd_to_bin (reg 4) else reg 4)
      in (uint (if reg 0x0B AND 0x04 = 0 \<and> hr AND 0x80 \<noteq> 0 then (hr AND 0x7F) + 12 else hr),
          uint (if bcd then bcd_to_bin (reg 2) else reg 2), uint (if bcd then bcd_to_bin (reg 0) else reg 0))), h')"
proof -
  have r: "\<exists>h'. cmos_read io i h = (reg i, h')" for i h using assms(1) by (metis clock_ok_def prod.collapse)
  obtain h0 where "cmos_read io 0x0A h = (reg 0x0A, h0)" using r by blast
  then have w: "rtc_wait io h = Some h0" using assms(2) by (subst rtc_wait.simps) simp
  obtain h1 where h1: "cmos_read io 0 h0 = (reg 0, h1)" using r by blast
  obtain h2 where h2: "cmos_read io 2 h1 = (reg 2, h2)" using r by blast
  obtain h3 where h3: "cmos_read io 4 h2 = (reg 4, h3)" using r by blast
  obtain h4 where h4: "cmos_read io 0x0B h3 = (reg 0x0B, h4)" using r by blast
  show ?thesis using w h1 h2 h3 h4 by (simp add: rtc_read_time_def Let_def)
qed

text \<open>
  Bit 1 of register B selects 24 hours and bit 2 binary numbers; the driver has the two exchanged. A clock with binary numbers and 24 hours (both bits
  set) is read correctly. The usual setting, 24 hours in BCD, is read without a conversion: 23:59:58 becomes 35:89:88.
\<close>

lemma rtc_binary:
  assumes "clock_ok io reg" and "reg 0x0A AND 0x80 = 0" and "reg 0x0B = 0x06"
  shows "\<exists>h'. rtc_read_time io h = Some ((uint (reg 4), uint (reg 2), uint (reg 0)), h')"
  using rtc_read_ok [OF assms(1,2)] assms(3) by simp

lemma rtc_misreads_bcd:
  assumes "clock_ok io reg" and "reg 0x0A AND 0x80 = 0" and "reg 0x0B = 0x02" and "reg 4 = 0x23" "reg 2 = 0x59" "reg 0 = 0x58"
  shows "\<exists>h'. rtc_read_time io h = Some ((35, 89, 88), h')"
  using rtc_read_ok [OF assms(1,2)] assms(3-) by simp

end
