(* ===== verification/Rtl8139.thy ===== *)
theory Rtl8139
  imports Pci Net Paging
begin

text \<open>
  The network card (\<open>Kernel/drivers/rtl8139.c\<close>). \<open>rtl8139_transmit\<close> and \<open>rtl8139_receive\<close> are the functions \<open>rtl8139_send\<close> and
  \<open>rtl8139_poll\<close>, whose names stand in the network stack for the frames that go out and come in. The structure of the driver is a record; beside the addresses of the receive ring and of the four transmit
  buffers it has their contents, which the card shares. The ports are an argument. Log output is not modelled; the result \<open>None\<close> stands for an
  access outside a buffer.
\<close>

section \<open>State\<close>

definition RTL_MAC0 :: u16 where "RTL_MAC0 = 0x00"
definition RTL_MAC4 :: u16 where "RTL_MAC4 = 0x04"
definition RTL_TSD0 :: u16 where "RTL_TSD0 = 0x10"
definition RTL_TSAD0 :: u16 where "RTL_TSAD0 = 0x20"
definition RTL_RBSTART :: u16 where "RTL_RBSTART = 0x30"
definition RTL_CR :: u16 where "RTL_CR = 0x37"
definition RTL_CAPR :: u16 where "RTL_CAPR = 0x38"
definition RTL_IMR :: u16 where "RTL_IMR = 0x3C"
definition RTL_ISR :: u16 where "RTL_ISR = 0x3E"
definition RTL_RCR :: u16 where "RTL_RCR = 0x44"
definition RTL_CR_RST :: u8 where "RTL_CR_RST = 0x10"
definition RTL_NUM_TX_DESC :: nat where "RTL_NUM_TX_DESC = 4"
definition RTL_TX_BUF_SIZE :: nat where "RTL_TX_BUF_SIZE = 1536"
definition RTL_RX_BUF_SIZE :: nat where "RTL_RX_BUF_SIZE = 8192 + 16"

record rtl8139_t =
  io_base :: u16
  nic_mac :: bytes
  nic_irq :: u8
  rx_buffer :: u32
  rx_ring :: bytes
  rx_buffer_phys :: u32
  tx_buffers :: "u32 list"
  tx_data :: "bytes list"
  tx_buffer_phys :: "u32 list"
  tx_cur :: u8
  tx_busy :: "u8 list"
  rx_offset :: u32
  packet_count :: u32
  byte_count :: u32

section \<open>Registers\<close>

definition rtl_inb :: "'h lports \<Rightarrow> rtl8139_t \<Rightarrow> u16 \<Rightarrow> 'h \<Rightarrow> u8 \<times> 'h" where "rtl_inb io nic reg h = p_inb io (io_base nic + reg) h"
definition rtl_inw :: "'h lports \<Rightarrow> rtl8139_t \<Rightarrow> u16 \<Rightarrow> 'h \<Rightarrow> u16 \<times> 'h" where "rtl_inw io nic reg h = p_inw io (io_base nic + reg) h"
definition rtl_inl :: "'h lports \<Rightarrow> rtl8139_t \<Rightarrow> u16 \<Rightarrow> 'h \<Rightarrow> u32 \<times> 'h" where "rtl_inl io nic reg h = p_inl io (io_base nic + reg) h"
definition rtl_outb :: "'h lports \<Rightarrow> rtl8139_t \<Rightarrow> u16 \<Rightarrow> u8 \<Rightarrow> 'h \<Rightarrow> 'h" where "rtl_outb io nic reg v h = p_outb io (io_base nic + reg) v h"
definition rtl_outw :: "'h lports \<Rightarrow> rtl8139_t \<Rightarrow> u16 \<Rightarrow> u16 \<Rightarrow> 'h \<Rightarrow> 'h" where "rtl_outw io nic reg v h = p_outw io (io_base nic + reg) v h"
definition rtl_outl :: "'h lports \<Rightarrow> rtl8139_t \<Rightarrow> u16 \<Rightarrow> u32 \<Rightarrow> 'h \<Rightarrow> 'h" where "rtl_outl io nic reg v h = p_outl io (io_base nic + reg) v h"

definition rtl_read_mac :: "'h lports \<Rightarrow> rtl8139_t \<Rightarrow> 'h \<Rightarrow> rtl8139_t \<times> 'h" where
  "rtl_read_mac io nic h =
     (let (low, h1) = rtl_inl io nic RTL_MAC0 h; (high, h2) = rtl_inl io nic RTL_MAC4 h1
      in (nic\<lparr>nic_mac := [ucast (low AND 0xFF), ucast (drop_bit 8 low AND 0xFF), ucast (drop_bit 16 low AND 0xFF), ucast (drop_bit 24 low AND 0xFF),
                          ucast (high AND 0xFF), ucast (drop_bit 8 high AND 0xFF)]\<rparr>, h2))"

text \<open>The wait for the end of the reset gives up after 10001 readings.\<close>

fun reset_wait :: "'h lports \<Rightarrow> rtl8139_t \<Rightarrow> nat \<Rightarrow> 'h \<Rightarrow> 'h" where
  "reset_wait io nic 0 h = h"
| "reset_wait io nic (Suc n) h = (case rtl_inb io nic RTL_CR h of (v, h1) \<Rightarrow> if v AND RTL_CR_RST \<noteq> 0 then reset_wait io nic n h1 else h1)"

definition rtl_reset :: "'h lports \<Rightarrow> rtl8139_t \<Rightarrow> 'h \<Rightarrow> 'h" where
  "rtl_reset io nic h = reset_wait io nic 10001 (rtl_outb io nic RTL_CR RTL_CR_RST h)"

definition rtl8139_irq_handler :: "'h lports \<Rightarrow> rtl8139_t \<Rightarrow> 'h \<Rightarrow> rtl8139_t \<times> 'h" where
  "rtl8139_irq_handler io nic h =
     (if io_base nic = 0 then (nic, h)
      else (case rtl_inw io nic RTL_ISR h of (isr, h1) \<Rightarrow>
            if isr = 0 then (nic, h1)
            else (if isr AND 0x01 \<noteq> 0 then nic\<lparr>packet_count := packet_count nic + 1\<rparr> else nic, rtl_outw io nic RTL_ISR isr h1)))"

section \<open>Initialisation\<close>

text \<open>The bytes of a fresh block of the heap.\<close>

definition block_bytes :: "(u32 \<Rightarrow> u8) \<Rightarrow> u32 \<Rightarrow> nat \<Rightarrow> bytes" where
  "block_bytes m p n = map (\<lambda>i. m (p + word_of_nat i)) [0 ..< n]"

fun alloc_tx :: "nat list \<Rightarrow> rtl8139_t \<Rightarrow> heap_t \<Rightarrow> (bool \<times> rtl8139_t \<times> heap_t) option" where
  "alloc_tx [] nic hp = Some (True, nic, hp)"
| "alloc_tx (i # is) nic hp =
     do { (p, hp1) \<leftarrow> kmalloc (word_of_nat RTL_TX_BUF_SIZE) hp;
          let nic1 = nic\<lparr>tx_buffers := (tx_buffers nic)[i := p]\<rparr>;
          if p = 0 then Some (False, nic1, hp1)
          else alloc_tx is (nic1\<lparr>tx_data := (tx_data nic1)[i := block_bytes (hmem hp1) p RTL_TX_BUF_SIZE],
                                 tx_buffer_phys := (tx_buffer_phys nic1)[i := paging_phys_addr p]\<rparr>) hp1 }"

text \<open>The result is true for 0; the last component of the result says whether the interrupt handler has been registered.\<close>

definition rtl8139_init :: "'h lports \<Rightarrow> u16 \<Rightarrow> rtl8139_t \<Rightarrow> heap_t \<Rightarrow> 'h \<Rightarrow> (bool \<times> rtl8139_t \<times> heap_t \<times> 'h) option" where
  "rtl8139_init io pci_addr nic hp h =
     (let nic0 = nic\<lparr>io_base := 0, nic_irq := 0, rx_buffer := 0, rx_ring := [], rx_buffer_phys := 0, rx_offset := 0, packet_count := 0, byte_count := 0,
                     tx_cur := 0, tx_buffers := replicate RTL_NUM_TX_DESC 0, tx_data := replicate RTL_NUM_TX_DESC [],
                     tx_buffer_phys := replicate RTL_NUM_TX_DESC 0, tx_busy := replicate RTL_NUM_TX_DESC 0\<rparr>;
          (bar0, h1) = pci_read_bar io pci_addr 0 h in
      if bar0 AND PCI_BAR_IO = 0 then Some (False, nic0, hp, h1)
      else
        (let (irq, h2) = pci_read_irq io pci_addr h1;
             nic1 = nic0\<lparr>io_base := ucast (bar0 AND 0xFFFC), nic_irq := irq\<rparr>;
             (nic2, h3) = rtl_read_mac io nic1 (pci_enable_bus_mastering io pci_addr h2);
             h4 = rtl_reset io nic2 h3 in
         do { (p, hp1) \<leftarrow> kmalloc (word_of_nat RTL_RX_BUF_SIZE) hp;
              if p = 0 then Some (False, nic2, hp1, h4)
              else do {
                (ok, nic3, hp2) \<leftarrow> alloc_tx [0 ..< RTL_NUM_TX_DESC]
                   (nic2\<lparr>rx_buffer := p, rx_ring := block_bytes (hmem hp1) p RTL_RX_BUF_SIZE, rx_buffer_phys := paging_phys_addr p, rx_offset := 0\<rparr>) hp1;
                if \<not> ok then Some (False, nic3, hp2, h4)
                else Some (True, nic3, hp2,
                  rtl_outb io nic3 RTL_CR 0x0C (rtl_outw io nic3 RTL_IMR 0x75 (rtl_outl io nic3 RTL_RCR 0x0A
                    (rtl_outl io nic3 RTL_RBSTART (rx_buffer_phys nic3) h4)))) } }))"

section \<open>Sending\<close>

text \<open>The wait for a descriptor; false after 1000001 readings without an end of the transmission.\<close>

fun tx_wait :: "'h lports \<Rightarrow> rtl8139_t \<Rightarrow> u16 \<Rightarrow> nat \<Rightarrow> 'h \<Rightarrow> bool \<times> 'h" where
  "tx_wait io nic reg 0 h = (False, h)"
| "tx_wait io nic reg (Suc n) h = (case rtl_inl io nic reg h of (v, h1) \<Rightarrow> if v AND 0xC000 \<noteq> 0 then (True, h1) else tx_wait io nic reg n h1)"

definition rtl8139_transmit :: "'h lports \<Rightarrow> bytes \<Rightarrow> rtl8139_t \<Rightarrow> 'h \<Rightarrow> (bool \<times> rtl8139_t \<times> 'h) option" where
  "rtl8139_transmit io data nic h =
     (if data = [] \<or> length data > RTL_TX_BUF_SIZE then Some (False, nic, h)
      else
        (let desc = unat (tx_cur nic); tsd = RTL_TSD0 + word_of_nat desc * 4 in
         do { busy \<leftarrow> arr_get (tx_busy nic) desc;
              let (ok, h1) = (if busy \<noteq> 0 then tx_wait io nic tsd 1000001 h else (True, h));
              if \<not> ok then Some (False, nic, h1)
              else do {
                buf \<leftarrow> arr_get (tx_data nic) desc;
                buf1 \<leftarrow> arr_write buf 0 data;
                phys \<leftarrow> arr_get (tx_buffer_phys nic) desc;
                let h2 = rtl_outl io nic tsd (word_of_nat (length data) AND 0x1FFF) (rtl_outl io nic (RTL_TSAD0 + word_of_nat desc * 4) phys h1);
                Some (True, nic\<lparr>tx_data := (tx_data nic)[desc := buf1], tx_busy := (tx_busy nic)[desc := 1],
                                tx_cur := word_of_nat ((desc + 1) mod RTL_NUM_TX_DESC), byte_count := byte_count nic + word_of_nat (length data)\<rparr>, h2) } }))"

section \<open>Receiving\<close>

text \<open>The bytes that are copied to the caller; none stands for the result 0.\<close>

definition rtl8139_receive :: "'h lports \<Rightarrow> u16 \<Rightarrow> rtl8139_t \<Rightarrow> 'h \<Rightarrow> (bytes \<times> rtl8139_t \<times> 'h) option" where
  "rtl8139_receive io buf_size nic h =
     (if buf_size = 0 then Some ([], nic, h)
      else
        (let off = ucast (rx_offset nic AND 0x1FFF) :: u16 in
         do { hdr \<leftarrow> arr_slice (rx_ring nic) (unat off) 4;
              let status = ld16 hdr 0;
              let len = ld16 hdr 2;
              let pkt = len AND 0x3FFF;
              if status AND 0x0001 = 0 then Some ([], nic, h)
              else if pkt < 4 \<or> pkt > 1514
              then (let o1 = ucast ((rx_offset nic + (ucast len + 4 + 3)) AND NOT 3) :: u16;
                        nic1 = nic\<lparr>rx_offset := word_of_nat (unat o1 mod RTL_RX_BUF_SIZE)\<rparr>
                    in Some ([], nic1, rtl_outl io nic1 RTL_CAPR (rx_offset nic1 - 0x10) h))
              else do {
                let n = min (unat (pkt - 4)) (unat buf_size);
                out \<leftarrow> arr_slice (rx_ring nic) (unat off + 4) n;
                let next = (((ucast off + ucast len + 4) + 3) AND NOT 3 :: u32);
                let nic1 = nic\<lparr>rx_offset := ucast (word_of_nat (unat next mod RTL_RX_BUF_SIZE) :: u16), packet_count := packet_count nic + 1\<rparr>;
                Some (out, nic1, rtl_outl io nic1 RTL_CAPR (rx_offset nic1 - 0x10) h) } }))"

end
