(* ===== verification/Rtl8139_Props.thy ===== *)
theory Rtl8139_Props
  imports Rtl8139 Net_Checksum
begin

text \<open>
  What the network card has put into the receive ring is delivered frame by frame, and what is sent reaches the descriptors in turn.
\<close>

section \<open>Offsets\<close>













section \<open>Properties\<close>





text \<open>
  At the end of the ring the driver and the card part: the card goes on at \<open>off mod 8192\<close>, the driver at \<open>off mod 8208\<close>, and a frame that begins near the end is read
  beyond the buffer.
\<close>

lemma receive_past_ring:
  assumes "length (rx_ring nic) = 8208" and "rx_offset nic = 8000" and "take 4 (drop 8000 (rx_ring nic)) = st16 1 @ st16 304" and "300 \<le> unat buf_size"
  shows "rtl8139_receive io buf_size nic h = None"
proof -
  have off: "unat (ucast (rx_offset nic AND 0x1FFF) :: u16) = 8000" by (simp add: assms(2))
  have hdr: "ld16 (st16 1 @ st16 304) 0 = 1" "ld16 (st16 1 @ st16 304) 2 = 304" by (rule ld16_bytes; simp add: st16_def)+
  have "buf_size \<noteq> 0" using assms(4) by auto
  then show ?thesis unfolding rtl8139_receive_def Let_def off using assms by (simp add: arr_slice_def hdr)
qed

lemma wrap_differs: "unat (((8000 + 304 + 4) + 3 :: u32) AND NOT 3) mod RTL_RX_BUF_SIZE = 100" "unat (((8000 + 304 + 4) + 3 :: u32) AND NOT 3) mod 8192 = 116"
  by code_simp+

text \<open>Sending: the frame is in the buffer of the current descriptor before the card gets its address and its length; the next frame uses the next descriptor.\<close>

lemma transmit_ok:
  assumes "0 < length d" "length d \<le> 1536" and "unat (tx_cur nic) < 4" and "length (tx_data nic) = 4" "\<forall>b \<in> set (tx_data nic). length b = 1536"
    and "length (tx_busy nic) = 4" "length (tx_buffer_phys nic) = 4" and "tx_busy nic ! unat (tx_cur nic) = 0"
  shows "\<exists>nic' buf. rtl8139_transmit io d nic h = Some (True, nic',
      rtl_outl io nic (RTL_TSD0 + word_of_nat (unat (tx_cur nic)) * 4) (word_of_nat (length d) AND 0x1FFF)
        (rtl_outl io nic (RTL_TSAD0 + word_of_nat (unat (tx_cur nic)) * 4) (tx_buffer_phys nic ! unat (tx_cur nic)) h)) \<and>
    tx_data nic' = (tx_data nic)[unat (tx_cur nic) := buf] \<and> take (length d) buf = d \<and> unat (tx_cur nic') = (unat (tx_cur nic) + 1) mod 4"
proof -
  let ?i = "unat (tx_cur nic)"
  have b: "length (tx_data nic ! ?i) = 1536" using assms(3-5) by simp
  have "(?i + 1) mod 4 < 4" by simp
  then have "unat (word_of_nat ((?i + 1) mod 4) :: u8) = (?i + 1) mod 4" by (intro trans [OF unat_of_nat]) simp
  then show ?thesis using assms b by (auto simp: rtl8139_transmit_def Let_def arr_rules arr_write_def RTL_TX_BUF_SIZE_def RTL_NUM_TX_DESC_def)
qed

end
