(* ===== verification/Descriptors.thy ===== *)
theory Descriptors
  imports Mouse Sched_Fs Rtl8139
begin

text \<open>
  The descriptor tables of the processor (\<open>Kernel/arch/gdt.c\<close>, \<open>tss.c\<close>, \<open>idt.c\<close>) and the dispatch of interrupts
  (\<open>Kernel/arch/interrupt.c\<close>). The tables are lists of entries with the fields of the packed structures; the addresses of static variables
  and of the entry points in assembly are arguments. Loading a table sets a field of the state. The message of an exception
  is not modelled; the processor halts after it (\<open>None\<close>).
\<close>

section \<open>Segments\<close>

record gdt_entry_t =
  limit_low :: u16
  base_low :: u16
  base_mid :: u8
  access :: u8
  flags_limit_high :: u8
  base_high :: u8

definition GDT_R0_CODE :: nat where "GDT_R0_CODE = 1"
definition GDT_R0_DATA :: nat where "GDT_R0_DATA = 2"
definition GDT_R3_CODE :: nat where "GDT_R3_CODE = 3"
definition GDT_R3_DATA :: nat where "GDT_R3_DATA = 4"
definition GDT_TSS :: nat where "GDT_TSS = 5"
definition GDT_ACCESS_P :: u8 where "GDT_ACCESS_P = 0x80"
definition GDT_ACCESS_DPL0 :: u8 where "GDT_ACCESS_DPL0 = 0x00"
definition GDT_ACCESS_DPL3 :: u8 where "GDT_ACCESS_DPL3 = 0x60"
definition GDT_ACCESS_S :: u8 where "GDT_ACCESS_S = 0x10"
definition GDT_ACCESS_EX :: u8 where "GDT_ACCESS_EX = 0x08"
definition GDT_ACCESS_RW :: u8 where "GDT_ACCESS_RW = 0x02"
definition GDT_FLAG_GR :: u8 where "GDT_FLAG_GR = 0x80"
definition GDT_FLAG_DB :: u8 where "GDT_FLAG_DB = 0x40"

definition GDT_ACC_R0_CODE :: u8 where "GDT_ACC_R0_CODE = GDT_ACCESS_P OR GDT_ACCESS_DPL0 OR GDT_ACCESS_S OR GDT_ACCESS_EX OR GDT_ACCESS_RW"
definition GDT_ACC_R0_DATA :: u8 where "GDT_ACC_R0_DATA = GDT_ACCESS_P OR GDT_ACCESS_DPL0 OR GDT_ACCESS_S OR GDT_ACCESS_RW"
definition GDT_ACC_R3_CODE :: u8 where "GDT_ACC_R3_CODE = GDT_ACCESS_P OR GDT_ACCESS_DPL3 OR GDT_ACCESS_S OR GDT_ACCESS_EX OR GDT_ACCESS_RW"
definition GDT_ACC_R3_DATA :: u8 where "GDT_ACC_R3_DATA = GDT_ACCESS_P OR GDT_ACCESS_DPL3 OR GDT_ACCESS_S OR GDT_ACCESS_RW"
definition GDT_ACC_TSS :: u8 where "GDT_ACC_TSS = GDT_ACCESS_P OR GDT_ACCESS_DPL0 OR 0x09"
definition GDT_FLAGS_4GB :: u8 where "GDT_FLAGS_4GB = GDT_FLAG_GR OR GDT_FLAG_DB"

definition gdt_set_entry :: "u32 \<Rightarrow> u32 \<Rightarrow> u8 \<Rightarrow> u8 \<Rightarrow> gdt_entry_t" where
  "gdt_set_entry base limit acc flags =
     \<lparr>limit_low = ucast (limit AND 0xFFFF), base_low = ucast (base AND 0xFFFF), base_mid = ucast (drop_bit 16 base AND 0xFF), access = acc,
      flags_limit_high = (flags AND 0xF0) OR ucast (drop_bit 16 limit AND 0x0F), base_high = ucast (drop_bit 24 base AND 0xFF)\<rparr>"

definition zero_gdt_entry :: gdt_entry_t where
  "zero_gdt_entry = \<lparr>limit_low = 0, base_low = 0, base_mid = 0, access = 0, flags_limit_high = 0, base_high = 0\<rparr>"

section \<open>Gates\<close>

record idt_entry_t =
  offset_low :: u16
  selector :: u16
  idt_zero :: u8
  type_attr :: u8
  offset_high :: u16

definition IDT_ENTRIES :: nat where "IDT_ENTRIES = 256"
definition IDT_FLAG_INTERRUPT_GATE :: u8 where "IDT_FLAG_INTERRUPT_GATE = 0x8E"
definition IDT_FLAG_TRAP_GATE :: u8 where "IDT_FLAG_TRAP_GATE = 0x8F"
definition KERNEL_CODE_SEL :: u16 where "KERNEL_CODE_SEL = 0x08"

text \<open>The tables and the registers of the processor that point to them; the task state segment as the bytes of its packed structure.\<close>

record cpu =
  g_gdt_entries :: "gdt_entry_t list"
  gdtr :: "u16 \<times> u32"
  g_tss :: bytes
  task_register :: u16
  idt :: "idt_entry_t list"
  idtr :: "u16 \<times> u32"
  irq_flag :: bool

definition gdt_flush :: "u32 \<Rightarrow> u16 \<Rightarrow> cpu \<Rightarrow> cpu" where
  "gdt_flush addr n s = s\<lparr>gdtr := (n * 8 - 1, addr)\<rparr>"

definition gdt_install :: "u32 \<Rightarrow> cpu \<Rightarrow> cpu" where
  "gdt_install addr s =
     (let t = replicate 6 zero_gdt_entry;
          t1 = t[GDT_R0_CODE := gdt_set_entry 0 0xFFFFF GDT_ACC_R0_CODE GDT_FLAGS_4GB];
          t2 = t1[GDT_R0_DATA := gdt_set_entry 0 0xFFFFF GDT_ACC_R0_DATA GDT_FLAGS_4GB];
          t3 = t2[GDT_R3_CODE := gdt_set_entry 0 0xFFFFF GDT_ACC_R3_CODE GDT_FLAGS_4GB];
          t4 = t3[GDT_R3_DATA := gdt_set_entry 0 0xFFFFF GDT_ACC_R3_DATA GDT_FLAGS_4GB]
      in gdt_flush addr 6 (s\<lparr>g_gdt_entries := t4\<rparr>))"

text \<open>The structure has 88 bytes; \<open>ss0\<close> is at 8, \<open>esp0\<close> at 4 and \<open>iomap_offset\<close> at 86.\<close>

definition TSS_SIZE :: nat where "TSS_SIZE = 88"

definition tss_image :: bytes where
  "tss_image = (replicate TSS_SIZE 0)[8 := 0x10, 86 := ucast (word_of_nat TSS_SIZE :: u16), 87 := ucast (drop_bit 8 (word_of_nat TSS_SIZE :: u16))]"

definition tss_flush :: "u32 \<Rightarrow> cpu \<Rightarrow> cpu" where
  "tss_flush tss_addr s =
     s\<lparr>g_tss := tss_image,
       g_gdt_entries := (g_gdt_entries s)[GDT_TSS := gdt_set_entry tss_addr (word_of_nat (TSS_SIZE - 1)) GDT_ACC_TSS 0],
       task_register := word_of_nat (GDT_TSS * 8)\<rparr>"

definition idt_set_gate :: "nat \<Rightarrow> u32 \<Rightarrow> u8 \<Rightarrow> bool \<Rightarrow> idt_entry_t list \<Rightarrow> idt_entry_t list" where
  "idt_set_gate vector addr dpl is_trap t =
     t[vector := \<lparr>offset_low = ucast (addr AND 0xFFFF), selector = KERNEL_CODE_SEL, idt_zero = 0,
        type_attr = (if is_trap then IDT_FLAG_TRAP_GATE else IDT_FLAG_INTERRUPT_GATE) OR push_bit 5 (dpl AND 3),
        offset_high = ucast (drop_bit 16 addr AND 0xFFFF)\<rparr>]"

fun set_gates :: "nat list \<Rightarrow> (nat \<Rightarrow> u32) \<Rightarrow> idt_entry_t list \<Rightarrow> idt_entry_t list" where
  "set_gates [] stub t = t"
| "set_gates (i # is) stub t = set_gates is stub (idt_set_gate i (stub i) 0 False t)"

definition io_wait :: "'h ports \<Rightarrow> 'h \<Rightarrow> 'h" where
  "io_wait io h = p_outb io 0x80 0 h"

definition pic_remap :: "'h ports \<Rightarrow> 'h \<Rightarrow> 'h" where
  "pic_remap io h =
     (let w = (\<lambda>r v h. io_wait io (p_outb io r v h))
      in p_outb io 0xA1 0xFF (p_outb io 0x21 0xFC
           (w 0xA1 0x01 (w 0x21 0x01 (w 0xA1 0x02 (w 0x21 0x04 (w 0xA1 0x28 (w 0x21 0x20 (w 0xA0 0x11 (w 0x20 0x11 h))))))))))"

definition pic_unmask_irq :: "'h ports \<Rightarrow> u8 \<Rightarrow> 'h \<Rightarrow> 'h" where
  "pic_unmask_irq io irq h =
     (let port = (if irq < 8 then 0x21 else 0xA1); k = (if irq < 8 then irq else irq - 8)
      in case p_inb io port h of (v, h1) \<Rightarrow> p_outb io port (v AND NOT (push_bit (unat k) 1)) h1)"

definition idt_init :: "'h ports \<Rightarrow> u32 list \<Rightarrow> u32 \<Rightarrow> u32 \<Rightarrow> cpu \<Rightarrow> sched_fs \<Rightarrow> 'h \<Rightarrow> cpu \<times> sched_fs \<times> 'h" where
  "idt_init io isr_stub_table isr_syscall_stub idt_addr s sch h =
     (let t1 = set_gates [0 ..< IDT_ENTRIES] (\<lambda>i. isr_stub_table ! 0) (idt s);
          t2 = set_gates [0 ..< 48] (\<lambda>i. isr_stub_table ! i) t1;
          t3 = idt_set_gate 0x80 isr_syscall_stub 3 True t2;
          (sch1, h1) = timer_init io 100 sch (pic_remap io h)
      in (s\<lparr>idt := t3, idtr := (word_of_nat (IDT_ENTRIES * 8) - 1, idt_addr), irq_flag := True\<rparr>, sch1, h1))"

section \<open>Interrupts\<close>

text \<open>The functions that the drivers register.\<close>

datatype irq_handler_t = Mouse_Irq | Nic_Irq

record irq_state =
  g_irq_handlers :: "irq_handler_t option list"
  i_sched :: sched_fs
  i_kbd :: kbd
  i_mouse :: mouse
  i_nic :: rtl8139_t

definition irq_init_handlers :: "irq_state \<Rightarrow> irq_state" where
  "irq_init_handlers s = s\<lparr>g_irq_handlers := replicate 16 None\<rparr>"

text \<open>True stands for the result 0; a null handler is \<open>None\<close>.\<close>

definition irq_register :: "u8 \<Rightarrow> irq_handler_t option \<Rightarrow> irq_state \<Rightarrow> bool \<times> irq_state" where
  "irq_register irq f s = (if irq \<ge> 16 \<or> f = None then (False, s) else (True, s\<lparr>g_irq_handlers := (g_irq_handlers s)[unat irq := f]\<rparr>))"

definition irq_unregister :: "u8 \<Rightarrow> irq_state \<Rightarrow> bool \<times> irq_state" where
  "irq_unregister irq s = (if irq \<ge> 16 then (False, s) else (True, s\<lparr>g_irq_handlers := (g_irq_handlers s)[unat irq := None]\<rparr>))"

definition run_handler :: "'h lports \<Rightarrow> irq_handler_t \<Rightarrow> irq_state \<Rightarrow> 'h \<Rightarrow> irq_state \<times> 'h" where
  "run_handler io f s h =
     (case f of
        Mouse_Irq \<Rightarrow> (case ps2mouse_irq (ports.truncate io) (i_mouse s) (wm_queues (i_kbd s)) h of (m, q, h1) \<Rightarrow>
                        (s\<lparr>i_mouse := m, i_kbd := (i_kbd s)\<lparr>wm_queues := q\<rparr>\<rparr>, h1))
      | Nic_Irq \<Rightarrow> (case rtl8139_irq_handler io (i_nic s) h of (n, h1) \<Rightarrow> (s\<lparr>i_nic := n\<rparr>, h1)))"

definition interrupt_dispatch :: "'h lports \<Rightarrow> u32 \<Rightarrow> irq_state \<Rightarrow> 'h \<Rightarrow> (irq_state \<times> 'h) option" where
  "interrupt_dispatch io int_no s h =
     (if int_no \<ge> 32 \<and> int_no \<le> 47
      then do {
        let irq = (ucast (int_no - 32) :: u8);
        (s1, h1) \<leftarrow> (if irq = 0 then Some (s\<lparr>i_sched := timer_irq (i_sched s)\<rparr>, h)
                     else if irq = 1 then (case keyboard_irq (ports.truncate io) (i_kbd s) h of (k, h1) \<Rightarrow> Some (s\<lparr>i_kbd := k\<rparr>, h1))
                     else do { r \<leftarrow> arr_get (g_irq_handlers s) (unat irq);
                               Some (case r of None \<Rightarrow> (s, h) | Some f \<Rightarrow> run_handler io f s h) });
        Some (s1, pic_send_eoi (ports.truncate io) irq h1) }
      else None)"

end
