(* ===== verification/Descriptors_Props.thy ===== *)
theory Descriptors_Props
  imports Descriptors Sched_Fs_Props
begin

text \<open>
  What the processor reads from the descriptors, which gates are open to programs, and the dispatch of interrupts.
\<close>

section \<open>Descriptors as the processor reads them\<close>

definition seg_base :: "gdt_entry_t \<Rightarrow> u32" where
  "seg_base e = ucast (base_low e) OR push_bit 16 (ucast (base_mid e)) OR push_bit 24 (ucast (base_high e))"

definition seg_limit :: "gdt_entry_t \<Rightarrow> u32" where
  "seg_limit e = ucast (limit_low e) OR push_bit 16 (ucast (flags_limit_high e AND 0x0F))"

definition seg_dpl :: "gdt_entry_t \<Rightarrow> u8" where
  "seg_dpl e = drop_bit 5 (access e) AND 3"

definition gate_offset :: "idt_entry_t \<Rightarrow> u32" where
  "gate_offset g = ucast (offset_low g) OR push_bit 16 (ucast (offset_high g))"

definition gate_dpl :: "idt_entry_t \<Rightarrow> u8" where
  "gate_dpl g = drop_bit 5 (type_attr g) AND 3"

lemma low_bits:
  "(0xFFFF :: u32) = mask 16" "(0xFF :: u32) = mask 8" "(0x0F :: u32) = mask 4" "(0x0F :: u8) = mask 4" "(0xFFFFF :: u32) = mask 20" "(0xF0 :: u8) = push_bit 4 (mask 4)"
  by (simp_all add: mask_eq_exp_minus_1)

lemma halves: "ucast (ucast (w AND 0xFFFF) :: u16) OR push_bit 16 (ucast (ucast (drop_bit 16 w AND 0xFFFF) :: u16)) = (w :: u32)"
  unfolding low_bits by (rule bit_word_eqI) (auto simp: bit_simps)

lemma set_gate_nth:
  "i < length t \<Longrightarrow> idt_set_gate v a d trap t ! i = (if i = v then idt_set_gate v a d trap t ! v else t ! i)" "length (idt_set_gate v a d trap t) = length t"
  by (simp_all add: idt_set_gate_def)

definition gate_to :: "idt_entry_t \<Rightarrow> u32 \<Rightarrow> u8 \<Rightarrow> bool" where
  "gate_to g a d \<longleftrightarrow> gate_offset g = a \<and> selector g = 8 \<and> gate_dpl g = d \<and> type_attr g AND 0x80 \<noteq> 0"

lemma set_gate_to:
  assumes "v < length t" and "d = 0 \<or> d = 3"
  shows "gate_to (idt_set_gate v a d trap t ! v) a d"
proof -
  have "gate_offset (idt_set_gate v a d trap t ! v) = a" using assms(1) halves [of a] by (simp add: idt_set_gate_def gate_offset_def)
  then show ?thesis using assms by (auto simp: gate_to_def gate_dpl_def idt_set_gate_def KERNEL_CODE_SEL_def IDT_FLAG_TRAP_GATE_def IDT_FLAG_INTERRUPT_GATE_def)
qed

lemma set_gates_ok:
  assumes "\<forall>v \<in> set vs. v < length t" and "distinct vs"
  shows "length (set_gates vs stub t) = length t \<and> (\<forall>i < length t. if i \<in> set vs then gate_to (set_gates vs stub t ! i) (stub i) 0 else set_gates vs stub t ! i = t ! i)"
  using assms
proof (induction vs arbitrary: t)
  case (Cons v vs)
  let ?t = "idt_set_gate v (stub v) 0 False t"
  have l: "length ?t = length t" by (simp add: set_gate_nth)
  have ih: "length (set_gates vs stub ?t) = length t" "\<And>i. i < length t \<Longrightarrow> if i \<in> set vs then gate_to (set_gates vs stub ?t ! i) (stub i) 0 else set_gates vs stub ?t ! i = ?t ! i"
    using Cons.IH [of ?t] Cons.prems l by auto
  have "if i \<in> set (v # vs) then gate_to (set_gates vs stub ?t ! i) (stub i) 0 else set_gates vs stub ?t ! i = t ! i" if i: "i < length t" for i
  proof (cases "i = v")
    case True
    then show ?thesis using ih(2) [OF i] Cons.prems set_gate_to [of v t 0 "stub v" False] by simp
  next
    case False
    then show ?thesis using ih(2) [OF i] set_gate_nth(1) [OF i, of v "stub v" 0 False] by (auto split: if_splits)
  qed
  then show ?case using ih(1) by simp
qed simp

section \<open>Properties\<close>

text \<open>
  A segment descriptor that is written is what the processor reads: base, the 20 bits of the limit, the access byte and the flags come back for all values.
\<close>

theorem gdt_entry_roundtrip:
  "seg_base (gdt_set_entry base limit acc flags) = base \<and> seg_limit (gdt_set_entry base limit acc flags) = limit AND 0xFFFFF \<and>
   access (gdt_set_entry base limit acc flags) = acc \<and> flags_limit_high (gdt_set_entry base limit acc flags) AND 0xF0 = flags AND 0xF0"
proof (intro conjI)
  show "seg_base (gdt_set_entry base limit acc flags) = base"
  proof (rule bit_word_eqI)
    fix n assume n: "n < LENGTH(32)"
    consider "n < 16" | "16 \<le> n" "n < 24" | "24 \<le> n" by linarith
    then show "bit (seg_base (gdt_set_entry base limit acc flags)) n = bit base n"
      using n by cases (auto simp: seg_base_def gdt_set_entry_def low_bits bit_simps)
  qed
  show "seg_limit (gdt_set_entry base limit acc flags) = limit AND 0xFFFFF"
    unfolding seg_limit_def gdt_set_entry_def low_bits by (rule bit_word_eqI) (auto simp: bit_simps)
  show "flags_limit_high (gdt_set_entry base limit acc flags) AND 0xF0 = flags AND 0xF0"
    unfolding gdt_set_entry_def low_bits by (rule bit_word_eqI) (auto simp: bit_simps)
qed (simp add: gdt_set_entry_def)

text \<open>
  Property C37. Programs reach the kernel by one gate only: after \<open>gdt_install\<close> and \<open>idt_init\<close> all 256 gates are present and lead into the kernel's code segment,
  each to its entry point (vectors without one of their own to that of vector 0), the gate of vector 0x80 has privilege 3 and every other one privilege 0.
\<close>

theorem syscall_gate_only:
  assumes "length (idt s) = 256"
  shows "\<exists>s' sch' h'. idt_init io stubs sys_stub idt_addr (gdt_install gdt_addr s) sch h = (s', sch', h') \<and> length (idt s') = 256 \<and>
    (\<forall>v < 256. gate_to (idt s' ! v) (if v = 0x80 then sys_stub else if v < 48 then stubs ! v else stubs ! 0) (if v = 0x80 then 3 else 0)) \<and>
    seg_dpl (g_gdt_entries s' ! 1) = 0 \<and> access (g_gdt_entries s' ! 1) AND 0x18 = 0x18 \<and> seg_base (g_gdt_entries s' ! 1) = 0 \<and> seg_limit (g_gdt_entries s' ! 1) = 0xFFFFF"
proof -
  define t1 where "t1 = set_gates [0 ..< 256] (\<lambda>i. stubs ! 0) (idt s)"
  define t2 where "t2 = set_gates [0 ..< 48] (\<lambda>i. stubs ! i) t1"
  define t3 where "t3 = idt_set_gate 0x80 sys_stub 3 True t2"
  have t1: "length t1 = 256" "\<And>i. i < 256 \<Longrightarrow> gate_to (t1 ! i) (stubs ! 0) 0"
    using set_gates_ok [of "[0 ..< 256]" "idt s" "\<lambda>i. stubs ! 0"] assms by (auto simp: t1_def)
  have t2: "length t2 = 256" "\<And>i. i < 256 \<Longrightarrow> if i < 48 then gate_to (t2 ! i) (stubs ! i) 0 else t2 ! i = t1 ! i"
    using set_gates_ok [of "[0 ..< 48]" t1 "\<lambda>i. stubs ! i"] t1(1) by (auto simp: t2_def)
  have gates: "gate_to (t3 ! v) (if v = 0x80 then sys_stub else if v < 48 then stubs ! v else stubs ! 0) (if v = 0x80 then 3 else 0)" if v: "v < 256" for v
  proof (cases "v = 0x80")
    case True
    then show ?thesis using set_gate_to [where v = "0x80" and t = t2 and d = 3 and a = sys_stub and trap = True] t2(1) by (simp add: t3_def)
  next
    case False
    then show ?thesis using set_gate_nth(1) [of v t2] t1(2) [OF v] t2 v by (auto simp: t3_def split: if_splits)
  qed
  have seg: "g_gdt_entries (gdt_install gdt_addr s) ! 1 = gdt_set_entry 0 0xFFFFF GDT_ACC_R0_CODE GDT_FLAGS_4GB" "idt (gdt_install gdt_addr s) = idt s"
    by (simp_all add: gdt_install_def gdt_flush_def Let_def GDT_R0_CODE_def GDT_R0_DATA_def GDT_R3_CODE_def GDT_R3_DATA_def)
  obtain sch' h' where th: "timer_init io 100 sch (pic_remap io h) = (sch', h')" by fastforce
  let ?s = "(gdt_install gdt_addr s)\<lparr>idt := t3, idtr := (word_of_nat (IDT_ENTRIES * 8) - 1, idt_addr), irq_flag := True\<rparr>"
  have "idt_init io stubs sys_stub idt_addr (gdt_install gdt_addr s) sch h = (?s, sch', h')"
    using th seg(2) by (simp add: idt_init_def Let_def IDT_ENTRIES_def t1_def t2_def t3_def del: upt_rec_numeral)
  moreover have "length (idt ?s) = 256" using t2(1) by (simp add: t3_def set_gate_nth)
  moreover have "seg_dpl (g_gdt_entries ?s ! 1) = 0" "access (g_gdt_entries ?s ! 1) AND 0x18 = 0x18" "seg_base (g_gdt_entries ?s ! 1) = 0" "seg_limit (g_gdt_entries ?s ! 1) = 0xFFFFF"
  proof -
    have e: "g_gdt_entries ?s ! 1 = gdt_set_entry 0 0xFFFFF GDT_ACC_R0_CODE GDT_FLAGS_4GB" using seg(1) by simp
    show "seg_dpl (g_gdt_entries ?s ! 1) = 0" "access (g_gdt_entries ?s ! 1) AND 0x18 = 0x18" "seg_base (g_gdt_entries ?s ! 1) = 0" "seg_limit (g_gdt_entries ?s ! 1) = 0xFFFFF"
      unfolding e by code_simp+
  qed
  ultimately show ?thesis using gates by (intro exI [of _ ?s] exI [of _ sch'] exI [of _ h']) simp
qed

definition demo_cpu :: cpu where
  "demo_cpu = \<lparr>g_gdt_entries = [], gdtr = (0, 0), g_tss = [], task_register = 0,
     idt = replicate 256 \<lparr>offset_low = 0, selector = 0, idt_zero = 0, type_attr = 0, offset_high = 0\<rparr>, idtr = (0, 0), irq_flag = False\<rparr>"

theorem syscall_gate_only_witness:
  "\<exists>s' sch' h'. idt_init log_ports (map (\<lambda>i. 0xC0101000 + word_of_nat (16 * i)) [0 ..< 48]) 0xC0102000 0xC0200000 (gdt_install 0xC0200800 demo_cpu) boot_fs [] = (s', sch', h') \<and>
     gate_to (idt s' ! 0x80) 0xC0102000 3 \<and> gate_to (idt s' ! 14) 0xC01010E0 0 \<and> seg_dpl (g_gdt_entries s' ! 1) = 0"
proof -
  let ?st = "map (\<lambda>i. 0xC0101000 + word_of_nat (16 * i)) [0 ..< 48] :: u32 list"
  have "length (idt demo_cpu) = 256" by (simp add: demo_cpu_def)
  from syscall_gate_only [OF this, of log_ports ?st "0xC0102000" "0xC0200000" "0xC0200800" boot_fs "[]"]
  obtain s' sch' h' where s': "idt_init log_ports ?st 0xC0102000 0xC0200000 (gdt_install 0xC0200800 demo_cpu) boot_fs [] = (s', sch', h')"
    "\<forall>v < 256. gate_to (idt s' ! v) (if v = 0x80 then 0xC0102000 else if v < 48 then ?st ! v else ?st ! 0) (if v = 0x80 then 3 else 0)" "seg_dpl (g_gdt_entries s' ! 1) = 0" by blast
  have v: "(0x80 :: nat) < 256" "(14 :: nat) < 256" "?st ! 14 = 0xC01010E0" by simp_all
  have "gate_to (idt s' ! 0x80) 0xC0102000 3" using s'(2) [rule_format, OF v(1)] by simp
  moreover have "gate_to (idt s' ! 14) 0xC01010E0 0" using s'(2) [rule_format, OF v(2)] v(3) by simp
  ultimately show ?thesis using s'(1,3) by blast
qed

text \<open>The dispatch of a hardware interrupt always returns and ends with the acknowledgement; any other vector halts the machine.\<close>

lemma dispatch_returns:
  assumes "length (g_irq_handlers s) = 16" and "32 \<le> int_no" "int_no \<le> 47"
  shows "\<exists>s' h1. interrupt_dispatch io int_no s h = Some (s', pic_send_eoi (ports.truncate io) (ucast (int_no - 32)) h1)"
proof -
  have "unat (int_no - 32) = unat int_no - 32" using assms(2) by (simp add: unat_sub_nowrap word_le_nat_alt)
  then have i: "unat (ucast (int_no - 32) :: u8) < 16" using assms(3) by (simp add: unat_ucast_mod word_le_nat_alt)
  obtain k h1 where k: "keyboard_irq (ports.truncate io) (i_kbd s) h = (k, h1)" by fastforce
  obtain r where r: "arr_get (g_irq_handlers s) (unat (ucast (int_no - 32) :: u8)) = Some r" using i assms(1) by (simp add: arr_rules)
  show ?thesis
    using assms(2,3) k r by (cases "ucast (int_no - 32) = (0 :: u8)"; cases "ucast (int_no - 32) = (1 :: u8)"; cases r)
      (auto simp: interrupt_dispatch_def Let_def split: prod.split)
qed

lemma dispatch_halts: "\<not> (32 \<le> int_no \<and> int_no \<le> 47) \<Longrightarrow> interrupt_dispatch io int_no s h = None"
  by (auto simp: interrupt_dispatch_def)

text \<open>A mouse packet is acknowledged twice: by the handler and by the dispatcher.\<close>

definition mouse_ports :: "(u16 \<times> u8) list lports" where
  "mouse_ports = \<lparr>p_inb = (\<lambda>r h. (if r = 0x64 then 0x21 else 0x08, h)), p_outb = (\<lambda>r v h. h @ [(r, v)]), p_inw = (\<lambda>r h. (0, h)), p_outw = (\<lambda>r v h. h),
     p_inl = (\<lambda>r h. (0, h)), p_outl = (\<lambda>r v h. h)\<rparr>"

lemma mouse_acknowledged_twice:
  assumes "g_irq_handlers s = (replicate 16 None)[12 := Some Mouse_Irq]" and "g_mouse_packet_byte (i_mouse s) = 0"
  shows "\<exists>s'. interrupt_dispatch mouse_ports 44 s [] = Some (s', [(0xA0, 0x20), (0x20, 0x20), (0xA0, 0x20), (0x20, 0x20)])"
  using assms by (simp add: interrupt_dispatch_def Let_def arr_get_def run_handler_def ps2mouse_irq_def mouse_byte_def mouse_ports_def pic_send_eoi_def ports.truncate_def)

text \<open>The task state segment has 88 bytes, the processor's has 104.\<close>

lemma tss_too_short: "length tss_image = 88"
  by (simp add: tss_image_def TSS_SIZE_def)

end
