(* ===== verification/Http.thy ===== *)
theory Http
  imports Net Console
begin

text \<open>
  The JSON writer (\<open>Kernel/net/json.c\<close>) and the HTTP client (\<open>Kernel/net/http.c\<close>) on top of the
  TCP calls of theory \<open>Net\<close>.

  A string argument is the bytes before its terminator, and \<open>None\<close> is the null pointer; an output
  buffer is a byte list, and every store into it is checked, so that \<open>None\<close> is a store outside of
  the buffer (or a shift by a negative count, or a loop that does not end). A buffer on the stack
  starts with zeros: the code reads only what it has written. The connection is the one of the TCP
  model, \<open>tcp_get_conn\<close> gives its address. The lines written to the serial port are not modelled.
\<close>

section \<open>Strings and output positions\<close>

text \<open>The byte at index \<open>i\<close> of a string, its terminator included.\<close>

definition str_char :: "bytes \<Rightarrow> nat \<Rightarrow> u8 option" where
  "str_char s i = (if i < length s then Some (s ! i) else if i = length s then Some 0 else None)"

text \<open>The 16-bit counter of \<open>json_strlen\<close> and \<open>http_strlen\<close>: it starts over after 65535.\<close>

partial_function (option) str_len_from :: "bytes \<Rightarrow> u16 \<Rightarrow> u16 option" where
  "str_len_from s n = do { c \<leftarrow> str_char s (unat n); if c \<noteq> 0 then str_len_from s (n + 1) else Some n }"

definition json_strlen :: "bytes option \<Rightarrow> u16 option" where
  "json_strlen s = (case s of None \<Rightarrow> Some 0 | Some t \<Rightarrow> str_len_from t 0)"

definition http_strlen :: "bytes option \<Rightarrow> u16 option" where
  "http_strlen s = (case s of None \<Rightarrow> Some 0 | Some t \<Rightarrow> str_len_from t 0)"

text \<open>One store \<open>buf[pos++] = c\<close>, the stores of a counted loop, and of a loop up to the terminator.\<close>

definition put_char :: "u8 \<Rightarrow> bytes \<times> u16 \<Rightarrow> (bytes \<times> u16) option" where
  "put_char c st = (case st of (buf, pos) \<Rightarrow> do { b \<leftarrow> arr_set buf (unat pos) c; Some (b, pos + 1) })"

fun put_bytes :: "bytes \<Rightarrow> bytes \<times> u16 \<Rightarrow> (bytes \<times> u16) option" where
  "put_bytes [] st = Some st"
| "put_bytes (c # cs) st = do { st1 \<leftarrow> put_char c st; put_bytes cs st1 }"

fun put_str :: "bytes \<Rightarrow> bytes \<times> u16 \<Rightarrow> (bytes \<times> u16) option" where
  "put_str [] st = Some st"
| "put_str (c # cs) st = (if c = 0 then Some st else do { st1 \<leftarrow> put_char c st; put_str cs st1 })"

text \<open>The terminator behind the text, without moving the position.\<close>

definition put_nul :: "bytes \<times> u16 \<Rightarrow> (bytes \<times> u16) option" where
  "put_nul st = (case st of (buf, pos) \<Rightarrow> do { b \<leftarrow> arr_set buf (unat pos) 0; Some (b, pos) })"

text \<open>The digits of a number, the lowest first, in \<open>tmp\<close>; they are copied backwards.\<close>

function tmp_digits :: "u32 \<Rightarrow> bytes \<Rightarrow> bytes" where
  "tmp_digits val tmp =
     (if val > 0 \<and> length tmp < 11 then tmp_digits (val div 10) (tmp @ [48 + ucast (val mod 10)]) else tmp)"
  by pat_completeness auto
termination by (relation "measure (\<lambda>(_, t). 11 - length t)") auto

declare tmp_digits.simps [simp del]

definition num_text :: "u32 \<Rightarrow> bytes" where
  "num_text val = (if val = 0 then [48] else rev (tmp_digits val []))"

section \<open>JSON\<close>

definition json_begin :: "bytes \<times> u16 \<Rightarrow> (bytes \<times> u16) option" where
  "json_begin st = put_char 0x7B st"

definition json_end :: "bytes \<times> u16 \<Rightarrow> (bytes \<times> u16) option" where
  "json_end st = do { st1 \<leftarrow> put_char 0x7D st; put_nul st1 }"

definition json_key :: "bytes option \<Rightarrow> bytes \<times> u16 \<Rightarrow> (bytes \<times> u16) option" where
  "json_key key st =
     do { st1 \<leftarrow> put_char 0x22 st;
          len \<leftarrow> json_strlen key;
          st2 \<leftarrow> put_bytes (case key of None \<Rightarrow> [] | Some k \<Rightarrow> take (unat len) k) st1;
          put_char 0x22 st2 }"

definition json_string_val :: "bytes option \<Rightarrow> bytes \<times> u16 \<Rightarrow> (bytes \<times> u16) option" where
  "json_string_val val st =
     do { st1 \<leftarrow> put_char 0x22 st;
          len \<leftarrow> json_strlen val;
          st2 \<leftarrow> put_bytes (case val of None \<Rightarrow> [] | Some v \<Rightarrow> take (unat len) v) st1;
          put_char 0x22 st2 }"

definition json_number_val :: "u32 \<Rightarrow> bytes \<times> u16 \<Rightarrow> (bytes \<times> u16) option" where
  "json_number_val val st = put_bytes (num_text val) st"

definition json_string :: "bytes option \<Rightarrow> bytes option \<Rightarrow> bytes \<times> u16 \<Rightarrow> (bytes \<times> u16) option" where
  "json_string key val st =
     do { st1 \<leftarrow> json_key key st; st2 \<leftarrow> put_char 0x3A st1; json_string_val val st2 }"

definition json_number :: "bytes option \<Rightarrow> u32 \<Rightarrow> bytes \<times> u16 \<Rightarrow> (bytes \<times> u16) option" where
  "json_number key val st =
     do { st1 \<leftarrow> json_key key st; st2 \<leftarrow> put_char 0x3A st1; json_number_val val st2 }"

definition json_comma :: "bytes \<times> u16 \<Rightarrow> (bytes \<times> u16) option" where
  "json_comma st = put_char 0x2C st"

section \<open>HTTP: addresses and the request\<close>

definition http_u32_to_str :: "u32 \<Rightarrow> bytes \<times> u16 \<Rightarrow> (bytes \<times> u16) option" where
  "http_u32_to_str val st = do { st1 \<leftarrow> put_bytes (num_text val) st; put_nul st1 }"

text \<open>The octets of a dotted address; a shift by a negative count has no defined result.\<close>

definition put_octet :: "u32 \<Rightarrow> u32 \<Rightarrow> int \<Rightarrow> u32 option" where
  "put_octet ip octet shift = (if shift < 0 then None else Some (ip OR push_bit (nat shift) octet))"

partial_function (option) parse_ip_from :: "bytes \<Rightarrow> u16 \<Rightarrow> u32 \<Rightarrow> u32 \<Rightarrow> int \<Rightarrow> u32 option" where
  "parse_ip_from host i ip octet shift =
     do { c \<leftarrow> str_char host (unat i);
          if c = 0 then put_octet ip octet shift
          else if c \<ge> 48 \<and> c \<le> 57 then parse_ip_from host (i + 1) ip (octet * 10 + ucast (c - 48)) shift
          else if c = 46
          then do { ip1 \<leftarrow> put_octet ip octet shift; parse_ip_from host (i + 1) ip1 0 (shift - 8) }
          else Some 0 }"

definition parse_ip :: "bytes \<Rightarrow> u32 option" where
  "parse_ip host = parse_ip_from host 0 0 0 24"

definition HTTP_TAIL :: bytes where
  "HTTP_TAIL = [32, 72, 84, 84, 80, 47, 49, 46, 49, 13, 10]"

definition HOST_KEY :: bytes where
  "HOST_KEY = [72, 111, 115, 116, 58, 32]"

definition LENGTH_KEY :: bytes where
  "LENGTH_KEY = [67, 111, 110, 116, 101, 110, 116, 45, 76, 101, 110, 103, 116, 104, 58]"

definition CRLF :: bytes where
  "CRLF = [13, 10]"

definition put_length :: "u16 \<Rightarrow> bytes \<times> u16 \<Rightarrow> (bytes \<times> u16) option" where
  "put_length body_len st =
     (if body_len > 0
      then do { st1 \<leftarrow> put_bytes (LENGTH_KEY @ [32]) st; st2 \<leftarrow> http_u32_to_str (ucast body_len) st1; put_bytes CRLF st2 }
      else Some st)"

definition build_request ::
  "bytes \<Rightarrow> bytes \<Rightarrow> bytes \<Rightarrow> bytes option \<Rightarrow> bytes option \<Rightarrow> (bytes \<times> u16) option" where
  "build_request meth host path headers body =
     do { st1 \<leftarrow> put_str meth (replicate 512 0, 0);
          st2 \<leftarrow> put_char 32 st1;
          st3 \<leftarrow> put_str path st2;
          st4 \<leftarrow> put_bytes HTTP_TAIL st3;
          st5 \<leftarrow> put_bytes HOST_KEY st4;
          st6 \<leftarrow> put_str host st5;
          st7 \<leftarrow> put_bytes CRLF st6;
          st8 \<leftarrow> (case headers of None \<Rightarrow> Some st7 | Some hs \<Rightarrow> put_str hs st7);
          body_len \<leftarrow> (case body of None \<Rightarrow> Some 0 | Some b \<Rightarrow> http_strlen (Some b));
          st9 \<leftarrow> put_length body_len st8;
          st10 \<leftarrow> put_bytes CRLF st9;
          st11 \<leftarrow> (case body of None \<Rightarrow> Some st10 | Some b \<Rightarrow> if body_len > 0 then put_str b st10 else Some st10);
          put_nul st11 }"

section \<open>HTTP: a request and its answer\<close>

fun copy_response :: "u16 \<Rightarrow> bytes \<Rightarrow> bytes \<times> u16 \<Rightarrow> (bytes \<times> u16) option" where
  "copy_response sz [] st = Some st"
| "copy_response sz (c # cs) st =
     (if unat (snd st) < unat sz - 1 then do { st1 \<leftarrow> put_char c st; copy_response sz cs st1 } else Some st)"

partial_function (option) response_loop ::
  "resolver \<Rightarrow> u16 \<Rightarrow> bytes \<times> u16 \<Rightarrow> u32 \<Rightarrow> net \<Rightarrow> ((bytes \<times> u16) \<times> net) option" where
  "response_loop resolve sz st start s =
     (if unat (snd st) < unat sz - 1
      then (let (t, s1) = timer_ticks s in
            if t - start < 100
            then do { (n, chunk, s2) \<leftarrow> tcp_recv resolve 127 s1;
                      if n > 0
                      then do { st1 \<leftarrow> copy_response sz chunk st;
                                let (start1, s3) = timer_ticks s2;
                                response_loop resolve sz st1 start1 s3 }
                      else response_loop resolve sz st start s2 }
            else Some (st, s1))
      else Some (st, s))"

text \<open>The first blank line: the index behind it.\<close>

definition blank_line :: "bytes \<Rightarrow> nat \<Rightarrow> bool" where
  "blank_line b i \<longleftrightarrow> b ! i = 13 \<and> b ! (i + 1) = 10 \<and> b ! (i + 2) = 13 \<and> b ! (i + 3) = 10"

fun body_index :: "bytes \<Rightarrow> nat list \<Rightarrow> nat" where
  "body_index b [] = 0"
| "body_index b (i # is) = (if blank_line b i then i + 4 else body_index b is)"

fun shift_body :: "u16 \<Rightarrow> nat \<Rightarrow> nat list \<Rightarrow> bytes \<Rightarrow> bytes option" where
  "shift_body sz start [] b = Some b"
| "shift_body sz start (j # js) b =
     (if j < unat sz - 1
      then do { c \<leftarrow> arr_get b (start + j); b1 \<leftarrow> arr_set b j c; shift_body sz start js b1 }
      else Some b)"

text \<open>The answer is reduced to its body when it has a header.\<close>

definition cut_header :: "u16 \<Rightarrow> bytes \<times> u16 \<Rightarrow> bytes option" where
  "cut_header sz st =
     (case st of (b, tot) \<Rightarrow>
        (let body_start = body_index b [0 ..< unat tot - 3];
             body_len_out = unat tot - body_start
         in if body_start > 0
            then do { b1 \<leftarrow> shift_body sz body_start [0 ..< body_len_out] b; arr_set b1 body_len_out 0 }
            else Some b))"

definition http_request ::
  "resolver \<Rightarrow> bytes option \<Rightarrow> bytes option \<Rightarrow> bytes option \<Rightarrow> bytes option \<Rightarrow> bytes option \<Rightarrow> bytes option \<Rightarrow> u16 \<Rightarrow> net \<Rightarrow>
     (int \<times> bytes option \<times> net) option" where
  "http_request resolve meth host path headers body response sz s =
     (case (meth, host, path, response) of
        (Some m, Some h, Some p, Some r) \<Rightarrow>
          if sz = 0 then Some (- 1, response, s)
          else do {
            remote_ip \<leftarrow> parse_ip h;
            if remote_ip = 0 then Some (- 1, response, s)
            else do {
              (req, pos) \<leftarrow> build_request m h p headers body;
              (e, s1) \<leftarrow> tcp_connect resolve remote_ip 80 s;
              if e \<noteq> 0 then Some (- 1, response, s1)
              else do {
                (n, s2) \<leftarrow> tcp_send resolve (take (unat pos) req) s1;
                if n < 0 \<or> (word_of_int n :: u16) \<noteq> pos
                then do { s3 \<leftarrow> tcp_close resolve s2; Some (- 1, response, s3) }
                else do {
                  let (start, s3) = timer_ticks s2;
                  (st, s4) \<leftarrow> response_loop resolve sz (r, 0) start s3;
                  st1 \<leftarrow> put_nul st;
                  s5 \<leftarrow> tcp_close resolve s4;
                  b \<leftarrow> cut_header sz st1;
                  Some (0, Some b, s5) } } } }
      | _ \<Rightarrow> Some (- 1, response, s))"

section \<open>HTTP: a download\<close>

text \<open>The part of the header that fits, and whether it ends with a blank line.\<close>

fun append_while :: "u16 \<Rightarrow> bytes \<Rightarrow> bytes \<times> u16 \<Rightarrow> (bytes \<times> u16) option" where
  "append_while cap [] st = Some st"
| "append_while cap (c # cs) st =
     (if snd st < cap - 1 then do { st1 \<leftarrow> put_char c st; append_while cap cs st1 } else Some st)"

definition hdr_append :: "u16 \<Rightarrow> bytes \<Rightarrow> bytes \<times> u16 \<Rightarrow> (bytes \<times> u16) option" where
  "hdr_append cap data st = do { st1 \<leftarrow> append_while cap data st; put_nul st1 }"

definition hdr_ends :: "bytes \<Rightarrow> u16 \<Rightarrow> bool" where
  "hdr_ends hdr len \<longleftrightarrow> \<not> len < 4 \<and> blank_line hdr (unat len - 4)"

text \<open>The value of \<open>Content-Length:\<close>, a 32-bit \<open>long\<close>; -1 when there is none.\<close>

fun match_key :: "bytes \<Rightarrow> bytes \<Rightarrow> bool" where
  "match_key [] hs = True"
| "match_key (k # ks) [] = False"
| "match_key (k # ks) (h # hs) = (h = k \<and> match_key ks hs)"

fun number_at :: "bytes \<Rightarrow> 32 word \<Rightarrow> 32 word" where
  "number_at [] val = val"
| "number_at (c # cs) val = (if c \<ge> 48 \<and> c \<le> 57 then number_at cs (val * 10 + ucast (c - 48)) else val)"

definition length_value :: "bytes \<Rightarrow> 32 word" where
  "length_value hs =
     (let ds = dropWhile (\<lambda>c. c = 32 \<or> c = 9) hs in
      case ds of [] \<Rightarrow> - 1 | c # cs \<Rightarrow> if c < 48 \<or> c > 57 then - 1 else number_at ds 0)"

fun content_length_in :: "bytes \<Rightarrow> 32 word" where
  "content_length_in [] = - 1"
| "content_length_in (h # hs) =
     (if match_key LENGTH_KEY (h # hs) then length_value (drop (length LENGTH_KEY) (h # hs)) else content_length_in hs)"

definition parse_content_length :: "bytes \<Rightarrow> 32 word" where
  "parse_content_length hdr = content_length_in (takeWhile (\<lambda>c. c \<noteq> 0) hdr)"

definition GET_PFX :: bytes where
  "GET_PFX = [71, 69, 84, 32]"

definition GET_MID :: bytes where
  "GET_MID = HTTP_TAIL @ HOST_KEY"

definition GET_SFX :: bytes where
  "GET_SFX = [13, 10, 67, 111, 110, 110, 101, 99, 116, 105, 111, 110, 58, 32, 99, 108, 111, 115, 101, 13, 10, 13, 10]"

fun put_below :: "u16 \<Rightarrow> bytes \<Rightarrow> bytes \<times> u16 \<Rightarrow> (bytes \<times> u16) option" where
  "put_below lim [] st = Some st"
| "put_below lim (c # cs) st =
     (if c \<noteq> 0 \<and> snd st < lim then do { st1 \<leftarrow> put_char c st; put_below lim cs st1 } else Some st)"

definition build_get :: "bytes \<Rightarrow> bytes \<Rightarrow> (bytes \<times> u16) option" where
  "build_get host path =
     do { st1 \<leftarrow> put_bytes GET_PFX (replicate 512 0, 0);
          st2 \<leftarrow> put_below (512 - 64) path st1;
          st3 \<leftarrow> put_bytes GET_MID st2;
          st4 \<leftarrow> put_below (512 - 48) host st3;
          put_bytes GET_SFX st4 }"

text \<open>The local variables of \<open>http_download\<close> while it receives.\<close>

record download =
  dl_hdr :: "bytes \<times> u16"
  have_hdr :: bool
  content_len :: "32 word"
  dl_out :: bytes
  dl_total :: u32

fun copy_body :: "u32 \<Rightarrow> bytes \<Rightarrow> bytes \<times> u32 \<Rightarrow> (bytes \<times> u32) option" where
  "copy_body cap [] st = Some st"
| "copy_body cap (c # cs) st =
     (if snd st < cap
      then do { b \<leftarrow> arr_set (fst st) (unat (snd st)) c; copy_body cap cs (b, snd st + 1) }
      else Some st)"

definition take_header :: "u32 \<Rightarrow> bytes \<Rightarrow> download \<Rightarrow> download option" where
  "take_header cap chunk d =
     do { h \<leftarrow> hdr_append 1024 chunk (dl_hdr d);
          if hdr_ends (fst h) (snd h)
          then (let len = unat (snd h); body_at = body_index (fst h) [0 ..< len - 3] in
                do { st \<leftarrow> copy_body cap (take (len - body_at) (drop body_at (fst h))) (dl_out d, dl_total d);
                     Some (d\<lparr>dl_hdr := h, have_hdr := True, content_len := parse_content_length (fst h),
                             dl_out := fst st, dl_total := snd st\<rparr>) })
          else Some (d\<lparr>dl_hdr := h\<rparr>) }"

definition take_chunk :: "u32 \<Rightarrow> bytes \<Rightarrow> download \<Rightarrow> download option" where
  "take_chunk cap chunk d =
     (if \<not> have_hdr d then take_header cap chunk d
      else do { st \<leftarrow> copy_body cap chunk (dl_out d, dl_total d); Some (d\<lparr>dl_out := fst st, dl_total := snd st\<rparr>) })"

definition download_done :: "u32 \<Rightarrow> download \<Rightarrow> bool" where
  "download_done cap d \<longleftrightarrow> (sint (content_len d) \<ge> 0 \<and> dl_total d \<ge> content_len d) \<or> dl_total d \<ge> cap"

partial_function (option) download_loop ::
  "resolver \<Rightarrow> u32 \<Rightarrow> u32 \<Rightarrow> download \<Rightarrow> net \<Rightarrow> (download \<times> net) option" where
  "download_loop resolve cap start d s =
     (let (t, s1) = timer_ticks s in
      if t - start < 300
      then do { (n, chunk, s2) \<leftarrow> tcp_recv resolve 256 s1;
                if n \<le> 0 then download_loop resolve cap start d s2
                else do { let (start1, s3) = timer_ticks s2;
                          d1 \<leftarrow> take_chunk cap chunk d;
                          if download_done cap d1 then Some (d1, s3) else download_loop resolve cap start1 d1 s3 } }
      else Some (d, s1))"

text \<open>The result, the output buffer, the number of bytes in it, and the state.\<close>

definition http_download ::
  "resolver \<Rightarrow> bytes option \<Rightarrow> bytes option \<Rightarrow> bytes option \<Rightarrow> u32 \<Rightarrow> net \<Rightarrow> (int \<times> bytes option \<times> u32 \<times> net) option" where
  "http_download resolve host path out cap s =
     (case (host, path, out) of
        (Some h, Some p, Some buf) \<Rightarrow>
          if cap = 0 then Some (- 1, out, 0, s)
          else do {
            remote_ip \<leftarrow> parse_ip h;
            if remote_ip = 0 then Some (- 1, out, 0, s)
            else do {
              (req, pos) \<leftarrow> build_get h p;
              (e, s1) \<leftarrow> tcp_connect resolve remote_ip 80 s;
              if e \<noteq> 0 then Some (- 1, out, 0, s1)
              else do {
                (n, s2) \<leftarrow> tcp_send resolve (take (unat pos) req) s1;
                if n < 0 \<or> (word_of_int n :: u16) \<noteq> pos
                then do { s3 \<leftarrow> tcp_close resolve s2; Some (- 1, out, 0, s3) }
                else do {
                  let (start, s3) = timer_ticks s2;
                  (d, s4) \<leftarrow> download_loop resolve cap start
                     \<lparr>dl_hdr = (replicate 1024 0, 0), have_hdr = False, content_len = - 1, dl_out = buf, dl_total = 0\<rparr> s3;
                  s5 \<leftarrow> tcp_close resolve s4;
                  Some (0, Some (dl_out d), dl_total d, s5) } } } }
      | _ \<Rightarrow> Some (- 1, out, 0, s))"

end
