(* ===== verification/Http_Props.thy ===== *)
theory Http_Props
  imports Http Net_Tcp Console_Props
begin

text \<open>
  Text in a buffer: what the JSON calls write is read back, and so is the dotted notation of an address.
\<close>

section \<open>Writing text into a buffer\<close>

lemma arr_write_append:
  "arr_write b n (t @ u) = Option.bind (arr_write b n t) (\<lambda>b'. arr_write b' (n + length t) u)"
  by (simp add: arr_write_def ac_simps)

text \<open>
  An operation that writes the text \<open>t\<close> at the position and moves the position behind it: exactly
  when the text fits into the buffer; otherwise it writes outside.
\<close>

definition emits :: "(bytes \<times> u16 \<Rightarrow> (bytes \<times> u16) option) \<Rightarrow> bytes \<Rightarrow> bool" where
  "emits op t \<longleftrightarrow> (\<forall>b p. length b < 65536 \<longrightarrow> unat p \<le> length b \<longrightarrow>
     op (b, p) = map_option (\<lambda>b'. (b', p + word_of_nat (length t))) (arr_write b (unat p) t))"

lemma unat_pos:
  "unat p + n < 65536 \<Longrightarrow> unat (p + word_of_nat n :: u16) = unat p + n"
  by (simp add: unat_word_ariths unsigned_of_nat take_bit_nat_def)

lemma emits_nil: "emits Some []"
  by (simp add: emits_def arr_write_def)

lemma emits_bind:
  assumes "emits f t" and "emits g u"
  shows "emits (\<lambda>st. Option.bind (f st) g) (t @ u)"
  unfolding emits_def
proof (intro allI impI)
  fix b :: bytes and p :: u16
  assume l: "length b < 65536" "unat p \<le> length b"
  show "Option.bind (f (b, p)) g = map_option (\<lambda>b'. (b', p + word_of_nat (length (t @ u)))) (arr_write b (unat p) (t @ u))"
  proof (cases "arr_write b (unat p) t")
    case None
    then show ?thesis using assms(1) l by (simp add: emits_def arr_write_append)
  next
    case (Some b1)
    then have b1: "length b1 = length b" "unat p + length t \<le> length b"
      by (auto simp: arr_write_def split: if_splits)
    then have u: "unat (p + word_of_nat (length t)) = unat p + length t" using l by (intro unat_pos) simp
    have "f (b, p) = Some (b1, p + word_of_nat (length t))" using assms(1) l Some by (simp add: emits_def)
    moreover have "g (b1, p + word_of_nat (length t)) =
        map_option (\<lambda>b'. (b', p + word_of_nat (length t) + word_of_nat (length u))) (arr_write b1 (unat p + length t) u)"
      using assms(2) l b1 u by (simp add: emits_def)
    ultimately show ?thesis using Some by (simp add: arr_write_append add.assoc)
  qed
qed

lemma emits_char: "emits (put_char c) [c]"
  by (auto simp: emits_def put_char_def arr_set_def arr_write_def upd_conv_take_nth_drop)

lemma emits_bytes: "emits (put_bytes cs) cs"
proof (induction cs)
  case Nil
  then show ?case using emits_nil by (simp add: emits_def)
next
  case (Cons c cs)
  have "put_bytes (c # cs) = (\<lambda>st. Option.bind (put_char c st) (put_bytes cs))" by (rule ext) simp
  then show ?case using emits_bind [OF emits_char Cons, of c] by simp
qed

lemma put_str_bytes: "0 \<notin> set cs \<Longrightarrow> put_str cs st = put_bytes cs st"
proof (induction cs arbitrary: st)
  case (Cons c cs)
  then have "put_str cs = put_bytes cs" by (intro ext) simp
  then show ?case using Cons.prems by simp
qed simp

lemma emits_str: "0 \<notin> set cs \<Longrightarrow> emits (put_str cs) cs"
  using emits_bytes [of cs] by (simp add: emits_def put_str_bytes)

text \<open>The length of a string whose length has 16 bits.\<close>

lemma str_len_from:
  assumes "length s < 65536" and "0 \<notin> set s" and "unat n \<le> length s"
  shows "str_len_from s n = Some (word_of_nat (length s))"
  using assms(3)
proof (induction "length s - unat n" arbitrary: n)
  case 0
  then have e: "unat n = length s" by simp
  then have "n = word_of_nat (length s)" by (simp flip: e)
  then show ?case using e by (subst str_len_from.simps) (simp add: str_char_def)
next
  case (Suc m)
  then have l: "unat n < length s" by simp
  have u: "unat (n + 1) = Suc (unat n)" using l assms(1) by (simp add: unat_add_nowrap)
  have "s ! unat n \<noteq> 0" using l assms(2) by (metis nth_mem)
  then show ?case using Suc(1) [of "n + 1"] Suc(2) l u by (subst str_len_from.simps) (simp add: str_char_def)
qed

text \<open>A longer string makes the counter start over, for ever.\<close>

lemma str_len_loops:
  assumes "65536 \<le> length s" and "0 \<notin> set s"
  shows "str_len_from s n = None"
proof (rule ccontr)
  assume "str_len_from s n \<noteq> None"
  then obtain r where "str_len_from s n = Some r" by blast
  then have "65536 \<le> length s \<longrightarrow> 0 \<notin> set s \<longrightarrow> False"
  proof (rule str_len_from.raw_induct [of "\<lambda>s n r. 65536 \<le> length s \<longrightarrow> 0 \<notin> set s \<longrightarrow> False", rotated], goal_cases)
    case (1 f s n r)
    have u: "unat n < 65536" using unat_less_len [of n] by simp
    show ?case
    proof (intro impI)
      assume a: "65536 \<le> length s" "0 \<notin> set s"
      then have "s ! unat n \<noteq> 0" using u by (metis nth_mem less_le_trans)
      then show False using 1 a u by (auto simp: str_char_def)
    qed
  qed
  then show False using assms by simp
qed

lemma json_strlen_text:
  "length k < 65536 \<Longrightarrow> 0 \<notin> set k \<Longrightarrow> json_strlen (Some k) = Some (word_of_nat (length k)) \<and> unat (word_of_nat (length k) :: u16) = length k"
  by (simp add: json_strlen_def str_len_from unsigned_of_nat take_bit_nat_eq_self)

section \<open>The JSON writer\<close>

lemma tmp_digits_dec:
  "unat v < 10 ^ (10 - length ds) \<Longrightarrow> length ds \<le> 10 \<Longrightarrow> tmp_digits v ds = dec_digits v ds"
proof (induction "10 - length ds" arbitrary: v ds)
  case 0
  then have "v = 0" by (simp add: unat_eq_0)
  then show ?case by (subst tmp_digits.simps, subst dec_digits.simps) simp
next
  case (Suc k)
  let ?ds = "ds @ [48 + ucast (v mod 10)]"
  have l: "length ds < 10" using Suc.hyps(2) by simp
  have p: "(10 :: nat) ^ (10 - length ds) = 10 * 10 ^ (10 - length ?ds)" using l by (simp add: Suc_diff_Suc flip: power_Suc)
  have "unat (v div 10) < 10 ^ (10 - length ?ds)"
    using Suc.prems(1) unfolding p unat_div by (simp add: less_mult_imp_div_less mult.commute)
  then have "tmp_digits (v div 10) ?ds = dec_digits (v div 10) ?ds" using Suc.hyps(2) l by (intro Suc.hyps(1)) auto
  then show ?case using l by (subst tmp_digits.simps, subst dec_digits.simps) simp
qed

lemma num_text_dec: "num_text v = dec_string v"
proof -
  have "unat v < 10 ^ 10" using unat_less_len [of v] by simp
  then show ?thesis using tmp_digits_dec [of v "[]"] by (simp add: num_text_def dec_string_def)
qed

text \<open>A field of an object: its key, and a string or a number.\<close>

type_synonym field = "bytes \<times> (bytes + u32)"

definition quoted :: "bytes \<Rightarrow> bytes" where
  "quoted t = [0x22] @ t @ [0x22]"

fun field_text :: "field \<Rightarrow> bytes" where
  "field_text (k, Inl v) = quoted k @ [0x3A] @ quoted v"
| "field_text (k, Inr n) = quoted k @ [0x3A] @ num_text n"

fun fields_text :: "field list \<Rightarrow> bytes" where
  "fields_text [] = []"
| "fields_text [f] = field_text f"
| "fields_text (f # fs) = field_text f @ [0x2C] @ fields_text fs"

definition object_text :: "field list \<Rightarrow> bytes" where
  "object_text fs = [0x7B] @ fields_text fs @ [0x7D]"

definition c_text :: "bytes \<Rightarrow> bool" where
  "c_text t \<longleftrightarrow> 0 \<notin> set t \<and> length t < 65536"

fun field_ok :: "(bytes \<Rightarrow> bool) \<Rightarrow> field \<Rightarrow> bool" where
  "field_ok P (k, Inl v) \<longleftrightarrow> P k \<and> P v"
| "field_ok P (k, Inr n) \<longleftrightarrow> P k"

text \<open>The calls that a caller makes for an object: one for every field, a comma between two of them.\<close>

fun put_field :: "field \<Rightarrow> bytes \<times> u16 \<Rightarrow> (bytes \<times> u16) option" where
  "put_field (k, Inl v) st = json_string (Some k) (Some v) st"
| "put_field (k, Inr n) st = json_number (Some k) n st"

fun put_fields :: "field list \<Rightarrow> bytes \<times> u16 \<Rightarrow> (bytes \<times> u16) option" where
  "put_fields [] st = Some st"
| "put_fields [f] st = put_field f st"
| "put_fields (f # fs) st = do { st1 \<leftarrow> put_field f st; st2 \<leftarrow> json_comma st1; put_fields fs st2 }"

definition put_object :: "field list \<Rightarrow> bytes \<times> u16 \<Rightarrow> (bytes \<times> u16) option" where
  "put_object fs st = do { st1 \<leftarrow> json_begin st; st2 \<leftarrow> put_fields fs st1; json_end st2 }"

lemma emits_key: "c_text k \<Longrightarrow> emits (json_key (Some k)) (quoted k)"
proof -
  assume k: "c_text k"
  have "json_key (Some k) = (\<lambda>st. Option.bind (put_char 0x22 st) (\<lambda>st. Option.bind (put_bytes k st) (put_char 0x22)))"
    using k json_strlen_text [of k] by (intro ext) (simp add: json_key_def c_text_def)
  then show ?thesis
    using emits_bind [OF emits_char [of "0x22"] emits_bind [OF emits_bytes [of k] emits_char [of "0x22"]]] by (simp add: quoted_def)
qed

lemma string_val_key: "json_string_val = json_key"
  by (intro ext) (simp add: json_string_val_def json_key_def)

lemma emits_number_val: "emits (json_number_val n) (num_text n)"
  using emits_bytes by (simp add: emits_def json_number_val_def)

lemma emits_field:
  assumes "field_ok c_text f"
  shows "emits (put_field f) (field_text f)"
proof (cases f rule: field_text.cases)
  case (1 k v)
  have "put_field f = (\<lambda>st. Option.bind (json_key (Some k) st) (\<lambda>st. Option.bind (put_char 0x3A st) (json_key (Some v))))"
    using 1 by (intro ext) (simp add: json_string_def string_val_key)
  then show ?thesis
    using 1 assms emits_bind [OF emits_key [of k] emits_bind [OF emits_char [of "0x3A"] emits_key [of v]]] by simp
next
  case (2 k n)
  have "put_field f = (\<lambda>st. Option.bind (json_key (Some k) st) (\<lambda>st. Option.bind (put_char 0x3A st) (json_number_val n)))"
    using 2 by (intro ext) (simp add: json_number_def)
  then show ?thesis
    using 2 assms emits_bind [OF emits_key [of k] emits_bind [OF emits_char [of "0x3A"] emits_number_val [of n]]] by simp
qed

lemma emits_fields: "\<forall>f \<in> set fs. field_ok c_text f \<Longrightarrow> emits (put_fields fs) (fields_text fs)"
proof (induction fs rule: fields_text.induct)
  case 1
  then show ?case using emits_nil by (simp add: emits_def)
next
  case (2 f)
  then show ?case using emits_field [of f] by (simp add: emits_def)
next
  case (3 f g fs)
  have "put_fields (f # g # fs) =
      (\<lambda>st. Option.bind (put_field f st) (\<lambda>st. Option.bind (put_char 0x2C st) (put_fields (g # fs))))"
    by (intro ext) (simp add: json_comma_def)
  then show ?case
    using 3 emits_bind [OF emits_field [of f] emits_bind [OF emits_char [of "0x2C"] 3(1)]] by simp
qed

lemma json_end_closes:
  assumes "length b < 65536" and "unat p \<le> length b"
  shows "json_end (b, p) = map_option (\<lambda>b'. (b', p + 1)) (arr_write b (unat p) [0x7D, 0])"
proof (cases "unat p + 1 < length b")
  case True
  then have "unat (p + 1) = Suc (unat p)" using assms by (simp add: unat_add_nowrap)
  then show ?thesis using True
    by (simp add: json_end_def put_char_def put_nul_def arr_set_def arr_write_def upd_conv_take_nth_drop
        take_Suc_conv_app_nth nth_append list_update_append)
next
  case False
  then have "unat p + 1 = length b \<or> unat p = length b" using assms(2) by auto
  then show ?thesis
    using assms(1) by (auto simp: json_end_def put_char_def put_nul_def arr_set_def arr_write_def unat_add_nowrap)
qed

lemma put_object_text:
  assumes "\<forall>f \<in> set fs. field_ok c_text f" and "length b < 65536" and "unat p \<le> length b"
  shows "put_object fs (b, p) =
    map_option (\<lambda>b'. (b', p + word_of_nat (length (object_text fs)))) (arr_write b (unat p) (object_text fs @ [0]))"
proof -
  let ?t = "[0x7B] @ fields_text fs"
  have e: "emits (\<lambda>st. Option.bind (json_begin st) (put_fields fs)) ?t"
    using emits_bind [OF emits_char [of "0x7B"] emits_fields [OF assms(1)]] by (simp add: json_begin_def)
  have o: "object_text fs @ [0] = ?t @ [0x7D, 0]" by (simp add: object_text_def)
  show ?thesis
  proof (cases "arr_write b (unat p) ?t")
    case None
    then have "Option.bind (json_begin (b, p)) (put_fields fs) = None" using e assms(2,3) by (simp add: emits_def)
    then have "put_object fs (b, p) = None" by (simp add: put_object_def flip: bind_assoc)
    moreover have "arr_write b (unat p) (object_text fs @ [0]) = None" unfolding o using None by (subst arr_write_append) simp
    ultimately show ?thesis by simp
  next
    case (Some b1)
    then have b1: "length b1 = length b" "unat p + length ?t \<le> length b"
      by (auto simp: arr_write_def split: if_splits)
    then have u: "unat (p + word_of_nat (length ?t)) = unat p + length ?t" using assms(2) by (intro unat_pos) simp
    have "Option.bind (json_begin (b, p)) (put_fields fs) = Some (b1, p + word_of_nat (length ?t))"
      using e assms(2,3) Some by (simp add: emits_def)
    then have "put_object fs (b, p) = json_end (b1, p + word_of_nat (length ?t))"
      by (simp add: put_object_def flip: bind_assoc)
    also have "\<dots> = map_option (\<lambda>b'. (b', p + word_of_nat (length ?t) + 1)) (arr_write b1 (unat p + length ?t) [0x7D, 0])"
      using json_end_closes [of b1 "p + word_of_nat (length ?t)"] assms(2) b1 u by simp
    finally show ?thesis unfolding o arr_write_append [of b "unat p" ?t] using Some by (simp add: object_text_def add.assoc)
  qed
qed

text \<open>A reader of such texts: a string up to the next quotation mark, a number up to the last digit.\<close>

definition is_digit :: "u8 \<Rightarrow> bool" where
  "is_digit c \<longleftrightarrow> 48 \<le> c \<and> c \<le> 57"

fun read_quoted :: "bytes \<Rightarrow> (bytes \<times> bytes) option" where
  "read_quoted [] = None"
| "read_quoted (c # cs) = (if c = 0x22 then Some ([], cs) else do { (t, r) \<leftarrow> read_quoted cs; Some (c # t, r) })"

fun read_value :: "bytes \<Rightarrow> ((bytes + u32) \<times> bytes) option" where
  "read_value [] = None"
| "read_value (c # cs) =
     (if c = 0x22 then do { (t, r) \<leftarrow> read_quoted cs; Some (Inl t, r) }
      else Some (Inr (word_of_nat (dec_value (takeWhile is_digit (c # cs)))), dropWhile is_digit (c # cs)))"

fun read_field :: "bytes \<Rightarrow> (field \<times> bytes) option" where
  "read_field (c # cs) =
     (if c = 0x22
      then do { (k, r) \<leftarrow> read_quoted cs;
                (case r of [] \<Rightarrow> None
                 | d # ds \<Rightarrow> if d = 0x3A then do { (v, r1) \<leftarrow> read_value ds; Some ((k, v), r1) } else None) }
      else None)"
| "read_field [] = None"

fun read_fields :: "nat \<Rightarrow> bytes \<Rightarrow> field list option" where
  "read_fields 0 cs = None"
| "read_fields (Suc n) cs =
     do { (f, r) \<leftarrow> read_field cs;
          (case r of [] \<Rightarrow> None
           | d # ds \<Rightarrow> if d = 0x2C then do { fs \<leftarrow> read_fields n ds; Some (f # fs) }
                      else if d = 0x7D \<and> ds = [] then Some [f] else None) }"

definition read_object :: "bytes \<Rightarrow> field list option" where
  "read_object cs =
     (case cs of c # d # ds \<Rightarrow>
        if c \<noteq> 0x7B then None else if d = 0x7D \<and> ds = [] then Some [] else read_fields (length cs) (d # ds)
      | _ \<Rightarrow> None)"

definition plain :: "bytes \<Rightarrow> bool" where
  "plain t \<longleftrightarrow> c_text t \<and> 0x22 \<notin> set t"

lemma read_quoted_text: "0x22 \<notin> set t \<Longrightarrow> read_quoted (t @ 0x22 # r) = Some (t, r)"
  by (induction t) auto

lemma num_text_digits: "\<forall>d \<in> set (num_text n). is_digit d" "num_text n \<noteq> []" "dec_value (num_text n) = unat n"
proof -
  show "\<forall>d \<in> set (num_text n). is_digit d"
    using dec_string_value [of n] by (auto simp: num_text_dec is_digit_def word_le_nat_alt)
  show "dec_value (num_text n) = unat n" using dec_string_value [of n] by (simp add: num_text_dec)
  show "num_text n \<noteq> []"
  proof (cases "n = 0")
    case True
    then show ?thesis by (simp add: num_text_def)
  next
    case False
    then have "dec_value (num_text n) \<noteq> 0" using dec_string_value [of n] by (simp add: num_text_dec unat_eq_0)
    then show ?thesis by (auto simp: dec_value_def)
  qed
qed

lemma read_number:
  assumes "\<not> is_digit d"
  shows "read_value (num_text n @ d # r) = Some (Inr n, d # r)"
proof -
  obtain c cs where n: "num_text n = c # cs" using num_text_digits(2) [of n] by (cases "num_text n") auto
  have "takeWhile is_digit (num_text n @ d # r) = num_text n" "dropWhile is_digit (num_text n @ d # r) = d # r"
    using num_text_digits(1) [of n] assms by (simp_all add: takeWhile_append dropWhile_append)
  moreover have "c \<noteq> 0x22" using num_text_digits(1) [of n] n by (auto simp: is_digit_def)
  ultimately show ?thesis using n num_text_digits(3) [of n] by simp
qed

lemma read_field_text:
  assumes "field_ok plain f" and "\<not> is_digit d"
  shows "read_field (field_text f @ d # r) = Some (f, d # r)"
proof (cases f rule: field_text.cases)
  case (1 k v)
  then show ?thesis using assms(1) read_quoted_text [of k] read_quoted_text [of v] by (simp add: quoted_def plain_def)
next
  case (2 k n)
  then show ?thesis using assms read_quoted_text [of k] read_number [of d n r] by (simp add: quoted_def plain_def)
qed

lemma not_digits: "\<not> is_digit 0x2C" "\<not> is_digit 0x7D"
  by (simp_all add: is_digit_def)

lemma read_fields_text:
  "fs \<noteq> [] \<Longrightarrow> \<forall>f \<in> set fs. field_ok plain f \<Longrightarrow> length fs \<le> n \<Longrightarrow> read_fields n (fields_text fs @ [0x7D]) = Some fs"
proof (induction fs arbitrary: n rule: fields_text.induct)
  case (2 f)
  then obtain m where "n = Suc m" by (cases n) auto
  then show ?case using 2 read_field_text [of f "0x7D" "[]"] not_digits by simp
next
  case (3 f g fs)
  then obtain m where "n = Suc m" by (cases n) auto
  then show ?case using 3 read_field_text [of f "0x2C" "fields_text (g # fs) @ [0x7D]"] not_digits by simp
qed simp

lemma field_text_Cons: "\<exists>r. field_text f = 0x22 # r"
  by (cases f rule: field_text.cases) (auto simp: quoted_def)

lemma fields_text_length: "length fs \<le> length (fields_text fs)"
proof (induction fs rule: fields_text.induct)
  case (2 f)
  then show ?case using field_text_Cons [of f] by auto
qed auto

lemma read_object_text:
  assumes "\<forall>f \<in> set fs. field_ok plain f"
  shows "read_object (object_text fs) = Some fs"
proof (cases "fs = []")
  case True
  then show ?thesis by (simp add: object_text_def read_object_def)
next
  case False
  then obtain f gs where fs: "fs = f # gs" by (cases fs) auto
  obtain r where "field_text f = 0x22 # r" using field_text_Cons by blast
  then obtain q where q: "fields_text fs = 0x22 # q" using fs by (cases gs) auto
  have "length fs \<le> length (object_text fs)" using fields_text_length [of fs] by (simp add: object_text_def)
  then have "read_fields (length (object_text fs)) (fields_text fs @ [0x7D]) = Some fs"
    using read_fields_text [OF False assms] by blast
  then show ?thesis using q by (simp add: object_text_def read_object_def)
qed

text \<open>
  What the JSON calls write can be read back: for any fields whose strings have no quotation
  mark, the calls for an object write exactly when the text and its terminator fit into the rest of the
  buffer; then the position is moved by the length of the text, the bytes in between are a text from which
  a JSON reader gets the same fields, a terminator follows, and nothing else in the buffer has changed.
\<close>

theorem json_object_roundtrip:
  assumes "\<forall>f \<in> set fs. field_ok plain f" and "length buf < 65536" and "unat pos \<le> length buf"
  shows "\<exists>t. read_object t = Some fs \<and>
    put_object fs (buf, pos) =
      (if unat pos + length t < length buf
       then Some (take (unat pos) buf @ t @ [0] @ drop (unat pos + length t + 1) buf, pos + word_of_nat (length t)) else None)"
proof -
  have "field_ok c_text f" if "f \<in> set fs" for f
    using assms(1) that by (cases f rule: field_text.cases) (auto simp: plain_def)
  then show ?thesis
    using put_object_text [of fs buf pos] read_object_text [OF assms(1)] assms(2,3)
    by (intro exI [of _ "object_text fs"]) (auto simp: arr_write_def)
qed

theorem json_object_roundtrip_witness:
  "\<exists>t. read_object t = Some [([105, 100], Inr 42)] \<and>
    put_object [([105, 100], Inr 42)] (replicate 64 0, 0) =
      (if length t < 64 then Some (t @ [0] @ drop (length t + 1) (replicate 64 0), word_of_nat (length t)) else None)"
proof -
  obtain t where "read_object t = Some [([105, 100], Inr 42)]"
    "put_object [([105, 100], Inr 42)] (replicate 64 0, 0) =
      (if length t < 64 then Some (t @ [0] @ drop (length t + 1) (replicate 64 0), word_of_nat (length t)) else None)"
    using json_object_roundtrip [of "[([105, 100], Inr 42)]" "replicate 64 0" 0] by (auto simp: plain_def c_text_def)
  then show ?thesis by blast
qed

text \<open>A quotation mark in a string is written as it is: the text has other fields than were written.\<close>

lemma json_not_escaped:
  "object_text [([107], Inl [34, 44, 34, 97, 34, 58, 34])] = object_text [([107], Inl []), ([97], Inl [])]"
  by (simp add: object_text_def quoted_def)

section \<open>Addresses\<close>

text \<open>The same scan on the rest of the string instead of a 16-bit index.\<close>

fun ip_scan :: "bytes \<Rightarrow> u32 \<Rightarrow> u32 \<Rightarrow> int \<Rightarrow> u32 option" where
  "ip_scan [] ip octet shift = put_octet ip octet shift"
| "ip_scan (c # cs) ip octet shift =
     (if is_digit c then ip_scan cs ip (octet * 10 + ucast (c - 48)) shift
      else if c = 46 then do { ip1 \<leftarrow> put_octet ip octet shift; ip_scan cs ip1 0 (shift - 8) }
      else Some 0)"

lemma parse_ip_from_scan:
  assumes "length host < 65536" and "0 \<notin> set host" and "unat i \<le> length host"
  shows "parse_ip_from host i ip octet shift = ip_scan (drop (unat i) host) ip octet shift"
  using assms(3)
proof (induction "length host - unat i" arbitrary: i ip octet shift)
  case 0
  then show ?case by (subst parse_ip_from.simps) (simp add: str_char_def)
next
  case (Suc m)
  then have l: "unat i < length host" by simp
  have u: "unat (i + 1) = Suc (unat i)" using l assms(1) by (simp add: unat_add_nowrap)
  have d: "drop (unat i) host = host ! unat i # drop (Suc (unat i)) host" using l by (rule Cons_nth_drop_Suc [symmetric])
  have "host ! unat i \<noteq> 0" using l assms(2) by (metis nth_mem)
  moreover have "parse_ip_from host (i + 1) a b c = ip_scan (drop (Suc (unat i)) host) a b c" for a b c
    using Suc(1) [of "i + 1"] Suc(2) l u by simp
  ultimately show ?case using l unfolding d by (subst parse_ip_from.simps) (simp add: str_char_def is_digit_def)
qed

lemma digit_word: "is_digit d \<Longrightarrow> ucast (d - 48) = (word_of_nat (unat d - 48) :: u32)"
proof -
  assume "is_digit d"
  then have "unat (d - 48) = unat d - 48" by (simp add: is_digit_def word_le_nat_alt unat_sub_nowrap)
  then show ?thesis by (metis of_nat_unat)
qed

lemma ip_scan_digits:
  "\<forall>d \<in> set ds. is_digit d \<Longrightarrow> ip_scan (ds @ r) ip (word_of_nat a) shift =
     ip_scan r ip (word_of_nat (foldl (\<lambda>a d. 10 * a + (unat d - 48)) a ds)) shift"
proof (induction ds arbitrary: a)
  case (Cons d ds)
  have "word_of_nat a * 10 + ucast (d - 48) = (word_of_nat (10 * a + (unat d - 48)) :: u32)"
    using digit_word [of d] Cons.prems by simp
  then have "ip_scan ((d # ds) @ r) ip (word_of_nat a) shift = ip_scan (ds @ r) ip (word_of_nat (10 * a + (unat d - 48))) shift"
    using Cons.prems by (simp add: mult.commute)
  then show ?case using Cons.IH [of "10 * a + (unat d - 48)"] Cons.prems by simp
qed simp

lemma ip_scan_number: "ip_scan (num_text n @ r) ip 0 shift = ip_scan r ip n shift"
  using ip_scan_digits [OF num_text_digits(1), of n r ip 0 shift] num_text_digits(3) [of n] by (simp add: dec_value_def)

lemmas ip_scan_end = ip_scan_number [of _ "[]", simplified]

definition octet_of :: "nat \<Rightarrow> u32 \<Rightarrow> u32" where
  "octet_of k w = take_bit 8 (drop_bit k w)"

text \<open>The usual notation of an address.\<close>

definition dotted :: "u32 \<Rightarrow> bytes" where
  "dotted w = num_text (octet_of 24 w) @ [46] @ num_text (octet_of 16 w) @ [46] @ num_text (octet_of 8 w) @ [46] @ num_text (octet_of 0 w)"

lemma octets_join:
  "push_bit 24 (octet_of 24 w) OR push_bit 16 (octet_of 16 w) OR push_bit 8 (octet_of 8 w) OR octet_of 0 w = w"
proof (rule bit_word_eqI)
  fix n assume "n < LENGTH(32)"
  then consider "n < 8" | "8 \<le> n" "n < 16" | "16 \<le> n" "n < 24" | "24 \<le> n" "n < 32" by fastforce
  then show "bit (push_bit 24 (octet_of 24 w) OR push_bit 16 (octet_of 16 w) OR push_bit 8 (octet_of 8 w) OR octet_of 0 w) n = bit w n"
    by cases (auto simp: octet_of_def bit_simps)
qed

lemma num_text_length: "length (num_text n) \<le> 11"
proof -
  have "length (tmp_digits v t) \<le> 11" if "length t \<le> 11" for v t
    using that
  proof (induction v t rule: tmp_digits.induct)
    case (1 v t)
    then show ?case by (subst tmp_digits.simps) simp
  qed
  then show ?thesis by (simp add: num_text_def)
qed

lemma num_text_no_zero: "0 \<notin> set (num_text n)"
  using num_text_digits(1) [of n] by (auto simp: is_digit_def)

text \<open>
  The address parser reads the dotted notation of every 32-bit address back as this address.
\<close>

theorem parse_ip_dotted: "parse_ip (dotted w) = Some w"
proof -
  have "length (dotted w) < 65536"
    using num_text_length [of "octet_of 24 w"] num_text_length [of "octet_of 16 w"]
      num_text_length [of "octet_of 8 w"] num_text_length [of "octet_of 0 w"] by (simp add: dotted_def)
  moreover have "0 \<notin> set (dotted w)" using num_text_no_zero by (auto simp: dotted_def)
  ultimately have "parse_ip (dotted w) = ip_scan (dotted w) 0 0 24"
    using parse_ip_from_scan [of "dotted w" 0] by (simp add: parse_ip_def)
  also have "\<dots> = Some (push_bit 24 (octet_of 24 w) OR push_bit 16 (octet_of 16 w) OR push_bit 8 (octet_of 8 w) OR octet_of 0 w)"
    by (simp add: dotted_def ip_scan_number ip_scan_end put_octet_def is_digit_def or.assoc)
  finally show ?thesis by (simp only: octets_join)
qed

text \<open>A fifth number is shifted by a negative count.\<close>

lemma parse_ip_five: "parse_ip [49, 46, 49, 46, 49, 46, 49, 46, 49] = None"
proof -
  have "parse_ip [49, 46, 49, 46, 49, 46, 49, 46, 49] = ip_scan [49, 46, 49, 46, 49, 46, 49, 46, 49] 0 0 24"
    unfolding parse_ip_def by (subst parse_ip_from_scan) simp_all
  also have "\<dots> = None" by code_simp
  finally show ?thesis .
qed

end
