(* ===== verification/Http_Download.thy ===== *)
theory Http_Download
  imports Http_Props
begin

text \<open>
  The HTTP client: the text of a request, the body of an answer, and a download that stays inside its
  buffer and ends whatever the other side sends.
\<close>

section \<open>The request\<close>

lemma unat_nat16: "n < 65536 \<Longrightarrow> unat (word_of_nat n :: u16) = n"
  by (simp add: unsigned_of_nat take_bit_nat_eq_self)

lemma nul_overwritten: "Option.bind (put_nul st) (put_bytes (c # cs)) = put_bytes (c # cs) st"
  by (cases st) (auto simp: put_nul_def put_char_def arr_set_def)

definition length_text :: "bytes \<Rightarrow> bytes" where
  "length_text b = (if b = [] then [] else LENGTH_KEY @ [32] @ num_text (word_of_nat (length b)) @ CRLF)"

definition request_text :: "bytes \<Rightarrow> bytes \<Rightarrow> bytes \<Rightarrow> bytes \<Rightarrow> bytes \<Rightarrow> bytes" where
  "request_text m h p hs b = m @ [32] @ p @ HTTP_TAIL @ HOST_KEY @ h @ CRLF @ hs @ length_text b @ CRLF @ b"

lemma put_bytes_append: "put_bytes (s @ t) = (\<lambda>st. Option.bind (put_bytes s st) (put_bytes t))"
proof (induction s)
  case (Cons c s)
  then show ?case by (intro ext) (simp add: bind_assoc)
qed (auto intro: ext)

lemma put_bytes_Cons: "put_bytes (c # t) = (\<lambda>st. Option.bind (put_char c st) (put_bytes t))"
  by (rule ext) simp

lemma put_length_text:
  assumes "length b < 65536"
  shows "put_length (word_of_nat (length b)) st = put_bytes (length_text b) st"
proof (cases "b = []")
  case True
  then show ?thesis by (simp add: put_length_def length_text_def)
next
  case False
  have u: "unat (word_of_nat (length b) :: u16) = length b" using assms by (rule unat_nat16)
  then have g: "word_of_nat (length b) > (0 :: u16)" using False by (simp add: word_less_nat_alt)
  have c: "ucast (word_of_nat (length b) :: u16) = (word_of_nat (length b) :: u32)" by (metis of_nat_unat u)
  show ?thesis
    using False g nul_overwritten [of _ 13 "[10]"]
    by (simp add: put_length_def length_text_def http_u32_to_str_def c put_bytes_append put_bytes_Cons CRLF_def bind_assoc)
qed

lemma put_bytes_fresh:
  assumes "n < 65536"
  shows "put_bytes t (replicate n 0, 0) =
    (if length t \<le> n then Some (t @ replicate (n - length t) 0, word_of_nat (length t)) else None)"
  using emits_bytes [of t] assms by (simp add: emits_def arr_write_def)

text \<open>
  A request is written exactly as HTTP asks for it, request line, host, further headers,
  the length of a body in decimal, a blank line and the body, when this text has less than 512 bytes;
  with 512 bytes or more the code writes past its buffer on the stack.
\<close>

theorem http_request_text:
  assumes "\<forall>t \<in> {m, h, p, hs, b}. 0 \<notin> set t" and "length b < 65536"
  defines "t \<equiv> request_text m h p hs b"
  shows "build_request m h p (Some hs) (Some b) =
    (if length t < 512 then Some (t @ replicate (512 - length t) 0, word_of_nat (length t)) else None)"
proof -
  have l: "http_strlen (Some b) = Some (word_of_nat (length b))"
    using assms(1,2) str_len_from [of b 0] by (simp add: http_strlen_def)
  have z: "put_str b = put_bytes b" if "0 \<notin> set b" for b using put_str_bytes [OF that] by blast
  have u: "unat (word_of_nat (length b) :: u16) = length b" using assms(2) by (rule unat_nat16)
  have g: "(if word_of_nat (length b) > (0 :: u16) then put_str b st else Some st) = put_bytes b st" for st
    using u z [of b] assms(1) by (cases b) (auto simp: word_less_nat_alt)
  have n: "put_length (word_of_nat (length b)) = put_bytes (length_text b)" using put_length_text [OF assms(2)] by blast
  have "build_request m h p (Some hs) (Some b) = Option.bind (put_bytes t (replicate 512 0, 0)) put_nul"
    using assms(1,2) 
    by (simp add: build_request_def l z g n t_def request_text_def put_bytes_append put_bytes_Cons bind_assoc del: put_bytes.simps(2))
  also have "\<dots> = (if length t < 512 then Some (t @ replicate (512 - length t) 0, word_of_nat (length t)) else None)"
  proof (cases "length t < 512")
    case True
    then have "unat (word_of_nat (length t) :: u16) = length t" by (intro unat_nat16) simp
    moreover have "(replicate (512 - length t) (0 :: u8))[0 := 0] = replicate (512 - length t) 0" using True by (cases "512 - length t") simp_all
    ultimately show ?thesis using True by (simp add: put_bytes_fresh put_nul_def arr_set_def list_update_append)
  next
    case False
    then show ?thesis by (auto simp: put_bytes_fresh put_nul_def arr_set_def)
  qed
  finally show ?thesis .
qed

text \<open>A download's request is cut to what fits.\<close>

definition get_text :: "bytes \<Rightarrow> bytes \<Rightarrow> bytes" where
  "get_text host path =
     (let t = GET_PFX @ take 444 path @ GET_MID in t @ take (464 - length t) host @ GET_SFX)"

lemma put_below_bytes:
  assumes "0 \<notin> set cs" and "unat lim \<le> length b" and "length b < 65536"
  shows "put_below lim cs (b, p) = put_bytes (take (unat lim - unat p) cs) (b, p)"
  using assms
proof (induction cs arbitrary: b p)
  case (Cons c cs)
  show ?case
  proof (cases "unat p < unat lim")
    case True
    then have u: "unat (p + 1) = Suc (unat p)" using Cons.prems by (simp add: unat_add_nowrap)
    obtain k where k: "unat lim - unat p = Suc k" "unat lim - Suc (unat p) = k" using True by (metis Suc_diff_Suc)
    show ?thesis
      using True Cons.prems Cons.IH [of "b[unat p := c]" "p + 1"] k
      by (simp add: put_char_def arr_set_def u word_less_nat_alt)
  next
    case False
    then show ?thesis using Cons.prems by (simp add: word_less_nat_alt)
  qed
qed simp

lemma get_text_length: "length (get_text host path) \<le> 488"
  by (simp add: get_text_def Let_def GET_PFX_def GET_MID_def HTTP_TAIL_def HOST_KEY_def GET_SFX_def)

text \<open>
  Property C40. The request of a download never leaves its buffer of 512 bytes, whatever host and path
  are: at most 488 bytes are written, a path is cut after 444 bytes and a host where 464 bytes are
  reached; a path and a host of together at most 443 bytes are sent in full.
\<close>

theorem http_get_bounded:
  assumes "0 \<notin> set host" and "0 \<notin> set path"
  shows "\<exists>t. build_get host path = Some (t @ replicate (512 - length t) 0, word_of_nat (length t)) \<and> length t \<le> 488 \<and>
    (length path + length host \<le> 443 \<longrightarrow> t = GET_PFX @ path @ GET_MID @ host @ GET_SFX)"
proof -
  let ?t1 = "GET_PFX" and ?t2 = "GET_PFX @ take 444 path @ GET_MID"
  have l1: "length ?t1 = 4" and l2: "length ?t2 \<le> 465"
    by (simp_all add: GET_PFX_def GET_MID_def HTTP_TAIL_def HOST_KEY_def)
  have s1: "Option.bind (put_bytes ?t1 (replicate 512 0, 0)) (put_below 448 path) = put_bytes (?t1 @ take 444 path) (replicate 512 0, 0)"
    using put_below_bytes [OF assms(2), of 448 "?t1 @ replicate (512 - length ?t1) 0" "word_of_nat (length ?t1)"]
    by (simp add: put_bytes_append put_bytes_fresh l1)
  have u2: "unat (word_of_nat (length ?t2) :: u16) = length ?t2" using l2 by (intro unat_nat16) linarith
  have s2: "Option.bind (put_bytes ?t2 (replicate 512 0, 0)) (put_below 464 host) =
      put_bytes (?t2 @ take (464 - length ?t2) host) (replicate 512 0, 0)"
    using put_below_bytes [OF assms(1), of 464 "?t2 @ replicate (512 - length ?t2) 0" "word_of_nat (length ?t2)"] u2 l2
    unfolding put_bytes_append [of ?t2] put_bytes_fresh [of 512 ?t2, simplified] by simp
  have "build_get host path =
      Option.bind (Option.bind (Option.bind (Option.bind (put_bytes ?t1 (replicate 512 0, 0)) (put_below 448 path)) (put_bytes GET_MID)) (put_below 464 host)) (put_bytes GET_SFX)"
    by (simp add: build_get_def bind_assoc)
  also have "\<dots> = put_bytes (get_text host path) (replicate 512 0, 0)"
    unfolding s1 put_bytes_append [of "?t1 @ take 444 path" GET_MID, symmetric, THEN fun_cong] 
    using s2 by (simp add: put_bytes_append bind_assoc get_text_def Let_def)
  also have "\<dots> = Some (get_text host path @ replicate (512 - length (get_text host path)) 0, word_of_nat (length (get_text host path)))"
    using get_text_length [of host path] by (simp add: put_bytes_fresh)
  finally have b: "build_get host path = \<dots>" .
  have "get_text host path = GET_PFX @ path @ GET_MID @ host @ GET_SFX" if "length path + length host \<le> 443"
    using that by (simp add: get_text_def Let_def l1 GET_MID_def HTTP_TAIL_def HOST_KEY_def)
  then show ?thesis using b get_text_length [of host path] by blast
qed

section \<open>The answer\<close>

lemma body_index_first:
  assumes "blank_line b k" and "\<forall>i < k. \<not> blank_line b i" and "k < n"
  shows "body_index b [0 ..< n] = k + 4"
proof -
  have skip: "(\<forall>i \<in> set is. \<not> blank_line b i) \<Longrightarrow> body_index b (is @ js) = body_index b js" for "is" js
    by (induction "is") auto
  have "[0 ..< n] = [0 ..< k] @ k # [Suc k ..< n]"
    using assms(3) upt_add_eq_append [of 0 k "n - k"] by (simp add: upt_conv_Cons)
  then show ?thesis using skip [of "[0 ..< k]" "k # [Suc k ..< n]"] assms(1,2) by simp
qed

lemma shift_body_moves:
  assumes "0 < start" and "k \<le> n" and "start + n \<le> length b" and "n \<le> unat sz - 1"
    and "\<forall>j < k. b ! j = b0 ! (start + j)" and "\<forall>j. k \<le> j \<and> j < length b \<longrightarrow> b ! j = b0 ! j"
  shows "\<exists>b'. shift_body sz start [k ..< n] b = Some b' \<and> length b' = length b \<and> (\<forall>j < n. b' ! j = b0 ! (start + j))"
  using assms
proof (induction "n - k" arbitrary: k b)
  case 0
  then show ?case by simp
next
  case (Suc m)
  then have l: "k < n" by simp
  let ?b = "b[k := b ! (start + k)]"
  have "\<exists>b'. shift_body sz start [Suc k ..< n] ?b = Some b' \<and> length b' = length ?b \<and> (\<forall>j < n. b' ! j = b0 ! (start + j))"
    using Suc.hyps(2) Suc.prems l by (intro Suc.hyps(1)) (auto simp: nth_list_update less_Suc_eq)
  then show ?case using Suc.prems l by (simp add: upt_conv_Cons arr_get_def arr_set_def)
qed

text \<open>
  A buffer with the header \<open>head\<close> of an answer, which ends with its first blank line, and the body
  behind it: the body is moved to the front and gets its terminator.
\<close>

lemma cut_header_body:
  assumes "b = head @ body @ rest" and "4 \<le> length head" and "blank_line b (length head - 4)" and "\<forall>i < length head - 4. \<not> blank_line b i"
    and "unat n = length head + length body" and "unat n < unat sz" and "unat sz \<le> length b"
  shows "\<exists>b'. cut_header sz (b, n) = Some b' \<and> length b' = length b \<and> take (length body + 1) b' = body @ [0]"
proof -
  have i: "body_index b [0 ..< unat n - 3] = length head"
    using body_index_first [OF assms(3,4), of "unat n - 3"] assms(2,5) by simp
  obtain b' where b': "shift_body sz (length head) [0 ..< length body] b = Some b'" "length b' = length b" "\<forall>j < length body. b' ! j = b ! (length head + j)"
    using shift_body_moves [of "length head" 0 "length body" b sz b] assms by fastforce
  have l: "length body < length b" using assms(2,5,6,7) by linarith
  have "b' ! j = body ! j" if "j < length body" for j using b'(3) that assms(1) by (simp add: nth_append)
  then have "take (length body) b' = body" using l b'(2) by (auto intro: nth_equalityI)
  then have "take (length body + 1) (b'[length body := 0]) = body @ [0]"
    using l b'(2) by (simp add: take_Suc_conv_app_nth)
  then show ?thesis using i b' l assms(2,5) by (auto simp: cut_header_def arr_set_def Let_def)
qed

section \<open>The length announced\<close>

lemma number_at_digits:
  "\<forall>d \<in> set ds. is_digit d \<Longrightarrow> r = [] \<or> \<not> is_digit (hd r) \<Longrightarrow>
     number_at (ds @ r) (word_of_nat a) = word_of_nat (foldl (\<lambda>a d. 10 * a + (unat d - 48)) a ds)"
proof (induction ds arbitrary: a)
  case Nil
  then show ?case by (cases r) (auto simp: is_digit_def)
next
  case (Cons d ds)
  have "word_of_nat a * 10 + ucast (d - 48) = (word_of_nat (10 * a + (unat d - 48)) :: u32)"
    using digit_word [of d] Cons.prems by simp
  then have "number_at ((d # ds) @ r) (word_of_nat a) = number_at (ds @ r) (word_of_nat (10 * a + (unat d - 48)))"
    using Cons.prems by (simp add: is_digit_def mult.commute)
  then show ?case using Cons.IH [of "10 * a + (unat d - 48)"] Cons.prems by simp
qed

lemma match_key_append: "match_key ks (ks @ r)"
  by (induction ks) auto

lemma content_length_skip:
  "\<forall>i < length pre. \<not> match_key LENGTH_KEY (drop i (pre @ r)) \<Longrightarrow> content_length_in (pre @ r) = content_length_in r"
proof (induction pre)
  case (Cons c pre)
  have "\<not> match_key LENGTH_KEY (drop i (pre @ r))" if "i < length pre" for i
    using Cons.prems that by (metis Suc_less_eq append_Cons drop_Suc_Cons length_Cons)
  moreover have "\<not> match_key LENGTH_KEY ((c # pre) @ r)" using Cons.prems by force
  ultimately show ?case using Cons.IH by simp
qed simp

text \<open>The announced length is read back from a header that holds it in decimal.\<close>

lemma content_length_read:
  assumes "0 \<notin> set (pre @ sp @ r)" and "\<forall>c \<in> set sp. c = 32 \<or> c = 9" and "r = [] \<or> \<not> is_digit (hd r)"
    and "\<forall>i < length pre. \<not> match_key LENGTH_KEY (drop i (pre @ LENGTH_KEY @ sp @ num_text n @ r))"
  shows "parse_content_length ((pre @ LENGTH_KEY @ sp @ num_text n @ r) @ 0 # junk) = n"
proof -
  let ?t = "LENGTH_KEY @ sp @ num_text n @ r"
  obtain c cs where n: "num_text n = c # cs" using num_text_digits(2) [of n] by (cases "num_text n") auto
  have c: "is_digit c" using num_text_digits(1) [of n] n by simp
  have "0 \<notin> set (pre @ ?t)" using assms(1) num_text_no_zero [of n] by (auto simp: LENGTH_KEY_def)
  then have "takeWhile (\<lambda>c. c \<noteq> 0) ((pre @ ?t) @ 0 # junk) = pre @ ?t" by (subst takeWhile_append2) auto
  then have "parse_content_length ((pre @ ?t) @ 0 # junk) = content_length_in ?t"
    using content_length_skip [OF assms(4)] by (simp add: parse_content_length_def)
  also have "\<dots> = length_value (sp @ num_text n @ r)"
    using match_key_append [of LENGTH_KEY "sp @ num_text n @ r"] by (cases ?t) (auto simp: LENGTH_KEY_def)
  also have "\<dots> = n"
  proof -
    have "dropWhile (\<lambda>c. c = 32 \<or> c = 9) (sp @ num_text n @ r) = num_text n @ r"
      using assms(2) c n by (subst dropWhile_append2) (auto simp: is_digit_def)
    moreover have "number_at (num_text n @ r) 0 = n"
      using number_at_digits [OF num_text_digits(1) assms(3), of n 0] num_text_digits(3) [of n] by (simp add: dec_value_def)
    moreover have "\<not> c < 48" "\<not> 57 < c" using c by (auto simp: is_digit_def)
    ultimately show ?thesis using n by (simp add: length_value_def)
  qed
  finally show ?thesis .
qed

section \<open>The chunks of a download\<close>

lemma copy_body_exact:
  assumes "unat cap \<le> length b" and "unat t \<le> unat cap"
  shows "copy_body cap cs (b, t) =
    (let k = min (length cs) (unat cap - unat t) in
     Some (take (unat t) b @ take k cs @ drop (unat t + k) b, t + word_of_nat k))"
  using assms
proof (induction cs arbitrary: b t)
  case (Cons c cs)
  show ?case
  proof (cases "unat t < unat cap")
    case True
    then have u: "unat (t + 1) = Suc (unat t)" using unat_less_len [of cap] by (simp add: unat_add_nowrap)
    define k where "k = min (length cs) (unat cap - Suc (unat t))"
    have k: "min (length (c # cs)) (unat cap - unat t) = Suc k" using True by (auto simp: k_def)
    have "copy_body cap (c # cs) (b, t) = copy_body cap cs (b[unat t := c], t + 1)"
      using True Cons.prems by (simp add: arr_set_def word_less_nat_alt)
    also have "\<dots> = Some (take (Suc (unat t)) (b[unat t := c]) @ take k cs @ drop (Suc (unat t) + k) (b[unat t := c]), t + 1 + word_of_nat k)"
      using Cons.IH [of "b[unat t := c]" "t + 1"] Cons.prems True u by (simp add: k_def Let_def)
    also have "take (Suc (unat t)) (b[unat t := c]) = take (unat t) b @ [c]"
      using True Cons.prems by (simp add: take_Suc_conv_app_nth)
    finally show ?thesis unfolding k by (simp add: Let_def add.assoc)
  next
    case False
    then show ?thesis using Cons.prems by (simp add: word_less_nat_alt Let_def)
  qed
qed (simp add: Let_def)

lemma append_while_bytes:
  assumes "length b = 1024" and "unat p \<le> 1023"
  shows "append_while 1024 cs (b, p) = put_bytes (take (1023 - unat p) cs) (b, p)"
  using assms
proof (induction cs arbitrary: b p)
  case (Cons c cs)
  show ?case
  proof (cases "unat p < 1023")
    case True
    then have u: "unat (p + 1) = Suc (unat p)" by (simp add: unat_add_nowrap)
    obtain k where "1023 - unat p = Suc k" using True by (cases "1023 - unat p") auto
    then have k: "1023 - unat p = Suc k" "1022 - unat p = k" by auto
    show ?thesis
      using True Cons.prems Cons.IH [of "b[unat p := c]" "p + 1"] k
      by (simp add: put_char_def arr_set_def u word_less_nat_alt)
  next
    case False
    then show ?thesis using Cons.prems by (simp add: word_less_nat_alt)
  qed
qed simp

text \<open>The header buffer holds the first 1023 bytes that have come, and a terminator.\<close>

definition holds_header :: "bytes \<Rightarrow> bytes \<times> u16 \<Rightarrow> bool" where
  "holds_header t h \<longleftrightarrow> length (fst h) = 1024 \<and> unat (snd h) = min 1023 (length t) \<and> take (unat (snd h)) (fst h) = take 1023 t"

lemma take_exact: "length xs = n \<Longrightarrow> take n (xs @ ys) = xs"
  by auto

lemma hdr_append_holds:
  assumes "holds_header t (b, p)"
  shows "\<exists>h. hdr_append 1024 chunk (b, p) = Some h \<and> holds_header (t @ chunk) h \<and> fst h ! unat (snd h) = 0"
proof -
  have b: "length b = 1024" "unat p = min 1023 (length t)" "take (unat p) b = take 1023 t" using assms by (auto simp: holds_header_def)
  let ?c = "take (1023 - unat p) chunk"
  let ?b = "take (unat p) b @ ?c @ drop (unat p + length ?c) b" and ?p = "p + word_of_nat (length ?c)"
  have w: "append_while 1024 chunk (b, p) = Some (?b, ?p)"
    using append_while_bytes [of b p chunk] emits_bytes [of ?c] b by (simp add: emits_def arr_write_def)
  have u: "unat ?p = unat p + length ?c" using b(2) by (intro unat_pos) simp
  have t: "take 1023 t @ ?c = take 1023 (t @ chunk)" using b(2) by (auto simp: min_def)
  have "unat ?p = min 1023 (length (t @ chunk))" "unat ?p < length ?b" using u b(1,2) by (auto simp: min_def)
  moreover have "take (unat ?p) (?b[unat ?p := 0]) = take 1023 (t @ chunk)"
  proof -
    have l: "length (take (unat p) b @ ?c) = unat ?p" using u b(1,2) by simp
    have "take (unat ?p) (?b[unat ?p := 0]) = take (unat ?p) ((take (unat p) b @ ?c) @ drop (unat p + length ?c) b)"
      by (simp only: take_update_cancel append_assoc)
    also have "\<dots> = take (unat p) b @ ?c" by (rule take_exact [OF l])
    also have "\<dots> = take 1023 (t @ chunk)" unfolding b(3) by (rule t)
    finally show ?thesis .
  qed
  moreover have "length ?b = 1024" using u b(1,2) by (auto simp: min_def)
  ultimately obtain nb np where n: "append_while 1024 chunk (b, p) = Some (nb, np)" "length nb = 1024" "unat np < length nb"
      "unat np = min 1023 (length (t @ chunk))" "take (unat np) (nb[unat np := 0]) = take 1023 (t @ chunk)"
    using w by blast
  then have "hdr_append 1024 chunk (b, p) = Some (nb[unat np := 0], np)" by (simp add: hdr_append_def put_nul_def arr_set_def)
  moreover have "holds_header (t @ chunk) (nb[unat np := 0], np)" unfolding holds_header_def fst_conv snd_conv using n(2,4,5) by simp
  ultimately show ?thesis using n(3) by (intro exI [of _ "(nb[unat np := 0], np)"]) simp
qed

text \<open>
  What every chunk keeps: the header buffer holds what has come so far or the header is complete, the
  output has its size, at most \<open>cap\<close> bytes are written, and the rest of it is as it was.
\<close>

definition dl_ok :: "u32 \<Rightarrow> bytes \<Rightarrow> download \<Rightarrow> bool" where
  "dl_ok cap out0 d \<longleftrightarrow> unat cap \<le> length out0 \<and> (\<exists>t. holds_header t (dl_hdr d)) \<and> length (dl_out d) = length out0 \<and>
     dl_total d \<le> cap \<and> drop (unat (dl_total d)) (dl_out d) = drop (unat (dl_total d)) out0"

lemma copy_body_ok:
  assumes "dl_ok cap out0 d"
  shows "\<exists>b t. copy_body cap cs (dl_out d, dl_total d) = Some (b, t) \<and> length b = length out0 \<and> t \<le> cap \<and> drop (unat t) b = drop (unat t) out0"
proof -
  define n where "n = unat (dl_total d)"
  define k where "k = min (length cs) (unat cap - n)"
  have d: "unat cap \<le> length (dl_out d)" "n \<le> unat cap" "length (dl_out d) = length out0" "drop n (dl_out d) = drop n out0"
    using assms by (auto simp: dl_ok_def n_def word_le_nat_alt)
  have c: "copy_body cap cs (dl_out d, dl_total d) = Some (take n (dl_out d) @ take k cs @ drop (n + k) (dl_out d), dl_total d + word_of_nat k)"
    using copy_body_exact [of cap "dl_out d" "dl_total d" cs] d by (simp add: n_def k_def Let_def)
  have "n + k \<le> unat cap" using d(2) by (simp add: k_def)
  then have u: "unat (dl_total d + word_of_nat k) = n + k"
    using unat_less_len [of cap] by (simp add: n_def unat_word_ariths unsigned_of_nat take_bit_nat_def)
  have "drop (n + k) (dl_out d) = drop (n + k) out0" using d(4) by (metis add.commute drop_drop)
  moreover have "length (take n (dl_out d) @ take k cs) = n + k" using d by (simp add: k_def)
  ultimately show ?thesis using c u d \<open>n + k \<le> unat cap\<close> by (auto simp: word_le_nat_alt)
qed

lemma take_chunk_ok:
  assumes "dl_ok cap out0 d"
  shows "\<exists>d'. take_chunk cap chunk d = Some d' \<and> dl_ok cap out0 d'"
proof (cases "have_hdr d")
  case True
  then show ?thesis using copy_body_ok [OF assms, of chunk] assms by (auto simp: take_chunk_def dl_ok_def)
next
  case False
  obtain t where "holds_header t (dl_hdr d)" using assms by (auto simp: dl_ok_def)
  then obtain h where h: "hdr_append 1024 chunk (dl_hdr d) = Some h" "holds_header (t @ chunk) h"
    using hdr_append_holds [of t "fst (dl_hdr d)" "snd (dl_hdr d)" chunk] by auto
  show ?thesis
  proof (cases "hdr_ends (fst h) (snd h)")
    case True
    then show ?thesis
      using False h assms copy_body_ok [OF assms, of "let len = unat (snd h); at = body_index (fst h) [0 ..< len - 3] in take (len - at) (drop at (fst h))"]
      by (auto simp: take_chunk_def take_header_def dl_ok_def Let_def)
  next
    case False
    then show ?thesis using \<open>\<not> have_hdr d\<close> h assms by (auto simp: take_chunk_def take_header_def dl_ok_def)
  qed
qed

text \<open>The state after a sequence of chunks.\<close>

fun take_chunks :: "u32 \<Rightarrow> bytes list \<Rightarrow> download \<Rightarrow> download option" where
  "take_chunks cap [] d = Some d"
| "take_chunks cap (c # cs) d = do { d1 \<leftarrow> take_chunk cap c d; take_chunks cap cs d1 }"

definition new_download :: "bytes \<Rightarrow> download" where
  "new_download out = \<lparr>dl_hdr = (replicate 1024 0, 0), have_hdr = False, content_len = - 1, dl_out = out, dl_total = 0\<rparr>"




lemma blank_line_take: "i + 3 < n \<Longrightarrow> blank_line (take n t) i = blank_line t i"
  by (simp add: blank_line_def)

lemma hdr_ends_text:
  assumes "holds_header t h" and "length t \<le> 1023"
  shows "hdr_ends (fst h) (snd h) \<longleftrightarrow> 4 \<le> length t \<and> blank_line t (length t - 4)"
proof -
  have h: "unat (snd h) = length t" "take (length t) (fst h) = t" using assms by (auto simp: holds_header_def)
  then have "blank_line (fst h) (length t - 4) = blank_line t (length t - 4)" if "4 \<le> length t"
    using blank_line_take [of "length t - 4" "length t" "fst h"] that by simp
  then show ?thesis using h(1) by (auto simp: hdr_ends_def word_less_nat_alt)
qed






theorem http_get_bounded_witness:
  "\<exists>t. build_get [49] [47] = Some (t @ replicate (512 - length t) 0, word_of_nat (length t)) \<and> length t \<le> 488 \<and>
    t = GET_PFX @ [47] @ GET_MID @ [49] @ GET_SFX"
  using http_get_bounded [of "[49]" "[47]"] by auto

text \<open>
  An answer that comes in one chunk, header and body: the chunk does not end with the blank line, so that
  the end of the header is not seen and nothing of the body is delivered.
\<close>

lemma download_loses_body:
  assumes "length (head @ body) \<le> 256" and "\<not> blank_line (head @ body) (length (head @ body) - 4)"
  shows "\<exists>d. take_chunks cap [head @ body] (new_download out) = Some d \<and> \<not> have_hdr d \<and> dl_total d = 0 \<and> dl_out d = out"
proof -
  have "holds_header [] (replicate 1024 0, 0)" by (simp add: holds_header_def)
  then obtain h where h: "hdr_append 1024 (head @ body) (replicate 1024 0, 0) = Some h" "holds_header (head @ body) h"
    using hdr_append_holds [of "[]" "replicate 1024 0" 0 "head @ body"] by auto
  then have "\<not> hdr_ends (fst h) (snd h)" using hdr_ends_text [OF h(2)] assms by auto
  then show ?thesis using h(1) by (simp add: take_chunk_def take_header_def new_download_def)
qed

end
