(* ===== verification/Http_Returns.thy ===== *)
theory Http_Returns
  imports Http_Download
begin

text \<open>
  Receiving ends: with a timer that keeps counting, \<open>tcp_recv\<close>, \<open>tcp_send\<close>, \<open>tcp_close\<close> and a
  whole download return, whatever frames arrive.
\<close>

section \<open>The timer\<close>

text \<open>
  A 32-bit counter of ticks: it never runs backwards, it never stops for good, and less than
  \<open>2 ^ 30\<close> ticks (124 days) pass between two readings.
\<close>

definition counts :: "(nat \<Rightarrow> nat) \<Rightarrow> (nat \<Rightarrow> u32) \<Rightarrow> bool" where
  "counts f c \<longleftrightarrow> (\<forall>n. c n = word_of_nat (f n)) \<and> (\<forall>n. f n \<le> f (Suc n) \<and> f (Suc n) \<le> f n + 2 ^ 30) \<and> (\<forall>m. \<exists>n. m \<le> f n)"

lemma counts_mono: "counts f c \<Longrightarrow> i \<le> j \<Longrightarrow> f i \<le> f j"
  by (rule lift_Suc_mono_le [of f]) (auto simp: counts_def)

text \<open>The time between two readings, as the code computes it.\<close>

lemma counts_elapsed:
  assumes "counts f c" and "i \<le> j" and "unat (c i - start) + (f j - f i) < 2 ^ 32"
  shows "unat (c j - start) = unat (c i - start) + (f j - f i)"
proof -
  have "f j = f i + (f j - f i)" using counts_mono [OF assms(1,2)] by simp
  then have "c j = c i + word_of_nat (f j - f i)" using assms(1) unfolding counts_def by (metis of_nat_add)
  then have e: "c j - start = (c i - start) + word_of_nat (f j - f i)" by simp
  have "unat (word_of_nat (f j - f i) :: u32) = f j - f i"
    using assms(3) by (simp add: unsigned_of_nat take_bit_nat_eq_self)
  then show ?thesis unfolding e using assms(3) by (subst unat_add_nowrap) simp_all
qed

text \<open>From every reading on there is a later one that is late enough.\<close>

lemma counts_late:
  assumes "counts f c" and "0 < n" and "n < 2 ^ 30"
  shows "\<exists>k \<ge> j. n \<le> unat (c k - start)"
proof (cases "n \<le> unat (c j - start)")
  case True
  then show ?thesis by blast
next
  case False
  define e where "e = unat (c j - start)"
  obtain m where "f j + (n - e) \<le> f m" using assms(1) unfolding counts_def by blast
  then have ex: "\<exists>k. f j + (n - e) \<le> f k" by blast
  define k where "k = (LEAST k. f j + (n - e) \<le> f k)"
  have k: "f j + (n - e) \<le> f k" unfolding k_def using ex by (rule LeastI_ex)
  have jk: "j < k"
  proof (rule ccontr)
    assume "\<not> j < k"
    then have "f k \<le> f j" using counts_mono [OF assms(1)] by simp
    then show False using k False by (simp add: e_def)
  qed
  then obtain q where q: "k = Suc q" by (cases k) auto
  have "\<not> f j + (n - e) \<le> f q" using q not_less_Least [of q] unfolding k_def by (metis lessI)
  moreover have "f k \<le> f q + 2 ^ 30" using assms(1) q unfolding counts_def by blast
  ultimately have "f k - f j < n - e + 2 ^ 30" using k by linarith
  then have "e + (f k - f j) < 2 ^ 32" using assms(3) False unfolding e_def by simp
  then have "unat (c k - start) = e + (f k - f j)"
    using counts_elapsed [OF assms(1), of j k start] jk unfolding e_def by simp
  then have "n \<le> unat (c k - start)" using k by linarith
  then show ?thesis using jk by (intro exI [of _ k]) simp
qed

lemma counts_ticking: "counts f c \<Longrightarrow> ticking c"
proof -
  assume c: "counts f c"
  have "\<exists>k \<ge> j. \<not> c k - c i < 50" for i j
    using counts_late [OF c, of 50 j "c i"] by (auto simp: word_less_nat_alt not_less)
  then show ?thesis by (simp add: ticking_def)
qed

text \<open>A time limit checked at every reading but the last bounds the time that has passed.\<close>

lemma counts_window:
  assumes "counts f c" and "i < r" and "\<forall>m. i < m \<and> Suc m < r \<longrightarrow> unat (c m - c i) \<le> 200"
  shows "f r \<le> f i + 200 + 2 ^ 31"
proof -
  have st: "f (Suc m) \<le> f m + 2 ^ 30" for m using assms(1) unfolding counts_def by blast
  have w: "f m \<le> f i + 200" if "i \<le> m" "m = i \<or> Suc m < r" for m
    using that
  proof (induction m rule: dec_induct)
    case (step m)
    then have m: "f m \<le> f i + 200" "Suc (Suc m) < r" by auto
    then have "f (Suc m) - f i < 2 ^ 31" using st [of m] by simp
    then have "unat (c (Suc m) - c i) = f (Suc m) - f i"
      using counts_elapsed [OF assms(1), of i "Suc m" "c i"] step.hyps by simp
    moreover have "unat (c (Suc m) - c i) \<le> 200" using assms(3) m(2) step.hyps by simp
    ultimately show ?case by simp
  qed simp
  show ?thesis
  proof (cases "r = Suc i")
    case True
    then show ?thesis using st [of i] by simp
  next
    case False
    then obtain m where "r = Suc (Suc m)" "i \<le> m" using assms(2) by (metis Suc_leI Suc_le_D Suc_le_mono le_neq_implies_less)
    then show ?thesis using w [of m] st [of m] st [of "Suc m"] by simp
  qed
qed

section \<open>Receiving\<close>

text \<open>
  Waiting for data returns. When no frame was taken from the card, all readings of the timer but the
  last were within the limit.
\<close>

definition late :: "(nat \<Rightarrow> u32) \<Rightarrow> nat \<Rightarrow> bool" where
  "late c n \<longleftrightarrow> (\<forall>start j. \<exists>k \<ge> j. n < unat (c k - start))"

definition waited :: "u32 \<Rightarrow> net \<Rightarrow> net \<Rightarrow> bool" where
  "waited start s s' \<longleftrightarrow> clock s' = clock s \<and> (length (nic_rx s') < length (nic_rx s) \<or>
     nic_rx s' = nic_rx s \<and> g_tcp_conn s' = g_tcp_conn s \<and> clock_reads s \<le> clock_reads s' \<and>
       (\<forall>m. clock_reads s \<le> m \<and> Suc m < clock_reads s' \<longrightarrow> unat (clock s m - start) \<le> 200))"

lemma waited_refl: "waited start s s"
  by (simp add: waited_def)

lemma waited_less:
  "waited start t s' \<Longrightarrow> clock t = clock s \<Longrightarrow> length (nic_rx t) < length (nic_rx s) \<Longrightarrow> waited start s s'"
  by (auto simp: waited_def)

lemma waited_tick:
  assumes "waited start t s'" and "t = s\<lparr>clock_reads := Suc (clock_reads s)\<rparr>" and "unat (clock s (clock_reads s) - start) \<le> 200"
  shows "waited start s s'"
proof -
  have "unat (clock s m - start) \<le> 200"
    if "\<forall>m. Suc (clock_reads s) \<le> m \<and> Suc m < clock_reads s' \<longrightarrow> unat (clock s m - start) \<le> 200"
      "clock_reads s \<le> m" "Suc m < clock_reads s'" for m
    using that assms(3) by (cases "m = clock_reads s") auto
  then show ?thesis using assms(1) by (auto simp: waited_def assms(2))
qed

context net_poller
begin

lemma recv_wait_returns:
  assumes "late (clock s) 200" and "ticking (clock s)" and "length (nic_rx s) \<le> n"
  shows "\<exists>r s'. tcp_recv_wait poll start s = Some (r, s') \<and> waited start s s' \<and> (\<forall>v. r = Some v \<longrightarrow> v \<le> 0)"
  using assms
proof (induction "length (nic_rx s)" arbitrary: s rule: less_induct)
  case less
  note outer = less.hyps
  have "\<exists>r s'. tcp_recv_wait poll start t = Some (r, s') \<and> waited start t s' \<and> (\<forall>v. r = Some v \<longrightarrow> v \<le> 0)"
    if "200 < unat (clock t k - start)" "clock_reads t \<le> k" "length (nic_rx t) = length (nic_rx s)" "clock t = clock s" for t k
    using that
  proof (induction "k - clock_reads t" arbitrary: t rule: less_induct)
    case (less t)
    show ?case
    proof (cases "recv_len (g_tcp_conn t) \<noteq> 0")
      case True
      then show ?thesis by (subst tcp_recv_wait.simps) (simp add: waited_refl)
    next
      case False
      have "length (nic_rx t) \<le> n" "ticking (clock t)" using less.prems(3,4) \<open>length (nic_rx s) \<le> n\<close> \<open>ticking (clock s)\<close> by simp_all
      then obtain u where p: "poll t = Some u" and alt: "u = t \<or> length (nic_rx u) < length (nic_rx t) \<and> clock u = clock t"
        using poll_step by blast
      let ?u = "u\<lparr>clock_reads := Suc (clock_reads u)\<rparr>"
      have tt: "timer_ticks u = (clock u (clock_reads u), ?u)" by (simp add: timer_ticks_def)
      have wu: "waited start t u" "waited start t ?u" using alt by (auto simp: waited_def)
      show ?thesis
      proof (cases "cstate (g_tcp_conn u) \<noteq> TCP_ESTABLISHED \<and> cstate (g_tcp_conn u) \<noteq> TCP_FIN_WAIT_1 \<or> clock u (clock_reads u) - start > 200")
        case True
        then show ?thesis using False p wu by (subst tcp_recv_wait.simps) (auto simp: tt)
      next
        case early: False
        have go: "tcp_recv_wait poll start t = tcp_recv_wait poll start ?u"
          using False p early by (subst tcp_recv_wait.simps) (auto simp: tt)
        show ?thesis
        proof (cases "u = t")
          case True
          have e: "unat (clock t (clock_reads t) - start) \<le> 200" using early True by (simp add: word_less_nat_alt not_less)
          then have "clock_reads t \<noteq> k" using less.prems(1) by auto
          then have "\<exists>r s'. tcp_recv_wait poll start ?u = Some (r, s') \<and> waited start ?u s' \<and> (\<forall>v. r = Some v \<longrightarrow> v \<le> 0)"
            using True less.prems by (intro less.hyps) auto
          then show ?thesis using go waited_tick [of start ?u _ t] True e by auto
        next
          case False
          then have u: "length (nic_rx u) < length (nic_rx t)" "clock u = clock t" using alt by auto
          have "\<exists>r s'. tcp_recv_wait poll start ?u = Some (r, s') \<and> waited start ?u s' \<and> (\<forall>v. r = Some v \<longrightarrow> v \<le> 0)"
            using u less.prems(3,4) \<open>late (clock s) 200\<close> \<open>ticking (clock s)\<close> \<open>length (nic_rx s) \<le> n\<close> by (intro outer) auto
          then show ?thesis using go waited_less [of start ?u _ t] u by auto
        qed
      qed
    qed
  qed
  moreover obtain k where "clock_reads s \<le> k" "200 < unat (clock s k - start)" using less.prems(1) by (auto simp: late_def)
  ultimately show ?case by blast
qed

end

text \<open>
  What a call of \<open>tcp_recv\<close> does to the frames at the card, the bytes in the receive buffer and the
  timer: one of the first two becomes less, or nothing was received and only a bounded time has passed.
\<close>

definition passes :: "(nat \<Rightarrow> nat) \<Rightarrow> int \<Rightarrow> net \<Rightarrow> net \<Rightarrow> bool" where
  "passes f v s s' \<longleftrightarrow> clock s' = clock s \<and>
     (length (nic_rx s') < length (nic_rx s) \<or>
      nic_rx s' = nic_rx s \<and> recv_len (g_tcp_conn s') < recv_len (g_tcp_conn s) \<or>
      nic_rx s' = nic_rx s \<and> recv_len (g_tcp_conn s') = recv_len (g_tcp_conn s) \<and> v \<le> 0 \<and>
        clock_reads s < clock_reads s' \<and> f (clock_reads s') \<le> f (clock_reads s) + 200 + 2 ^ 31)"

lemma counts_late_200: "counts f c \<Longrightarrow> late c 200"
  unfolding late_def
proof (intro allI)
  fix start :: u32 and j
  assume "counts f c"
  then obtain k where "j \<le> k" "201 \<le> unat (c k - start)" using counts_late [of f c 201 j start] by auto
  then show "\<exists>k \<ge> j. 200 < unat (c k - start)" by (intro exI [of _ k]) simp
qed

lemma tcp_take_less:
  assumes "tcp_take len c = (bs, c')"
  shows "length bs \<le> len" and "recv_len c' < recv_len c \<or> recv_len c' = recv_len c \<and> bs = []"
proof -
  define n where "n = min (unat (recv_len c)) len"
  have bs: "bs = take n (recv_buf c)" using assms by (auto simp: tcp_take_def Let_def n_def)
  then show "length bs \<le> len" by (simp add: n_def)
  have "unat (recv_len c') = unat (recv_len c) - n"
  proof (cases "unat (recv_len c) - n > 0")
    case True
    then have "recv_len c' = word_of_nat (unat (recv_len c) - n)" using assms by (auto simp: tcp_take_def Let_def n_def)
    moreover have "unat (recv_len c) - n < 65536" using unat_less_len [of "recv_len c"] by simp
    ultimately show ?thesis by (simp only: unat_nat16)
  next
    case False
    then have "recv_len c' = 0" using assms by (auto simp: tcp_take_def Let_def n_def)
    then show ?thesis using False by simp
  qed
  then show "recv_len c' < recv_len c \<or> recv_len c' = recv_len c \<and> bs = []"
    using bs by (cases "n = 0") (auto simp: word_less_nat_alt n_def word_unat_eq_iff)
qed

lemma tcp_recv_passes:
  assumes "counts f (clock s)" and "length (nic_rx s) \<le> d" and "0 < len"
  shows "\<exists>v bs s'. tcp_recv (arp_resolve d) len s = Some (v, bs, s') \<and> length bs \<le> len \<and> passes f v s s'"
proof -
  let ?i = "clock_reads s" and ?s = "s\<lparr>clock_reads := Suc (clock_reads s)\<rparr>"
  have tt: "timer_ticks s = (clock s ?i, ?s)" by (simp add: timer_ticks_def)
  obtain r u where w: "tcp_recv_wait (net_poll_once (arp_resolve d)) (clock s ?i) ?s = Some (r, u)" "waited (clock s ?i) ?s u"
      "\<forall>v. r = Some v \<longrightarrow> v \<le> 0"
    using poller.recv_wait_returns [of ?s d "clock s ?i"] assms(1,2) counts_late_200 counts_ticking by auto
  have t: "f (clock_reads u) \<le> f ?i + 200 + 2 ^ 31" "?i < clock_reads u" if "\<not> length (nic_rx u) < length (nic_rx s)"
  proof -
    have "Suc ?i \<le> clock_reads u" "\<forall>m. Suc ?i \<le> m \<and> Suc m < clock_reads u \<longrightarrow> unat (clock s m - clock s ?i) \<le> 200"
      using w(2) that by (auto simp: waited_def)
    then show "f (clock_reads u) \<le> f ?i + 200 + 2 ^ 31" "?i < clock_reads u"
      using counts_window [OF assms(1), of ?i "clock_reads u"] by auto
  qed
  show ?thesis
  proof (cases r)
    case (Some v)
    then show ?thesis using assms(3) tt w t by (auto simp: tcp_recv_def waited_def passes_def)
  next
    case None
    obtain bs c where k: "tcp_take len (g_tcp_conn u) = (bs, c)" by fastforce
    show ?thesis
      using None assms(3) tt w(1,2) t k tcp_take_less [OF k] by (auto simp: tcp_recv_def waited_def passes_def)
  qed
qed

section \<open>Loops that receive\<close>

text \<open>The outcome of a loop from a state on: it returns, and what the loop keeps holds.\<close>

definition ends :: "('a \<Rightarrow> bool) \<Rightarrow> net \<Rightarrow> ('a \<times> net) option \<Rightarrow> bool" where
  "ends ok s m \<longleftrightarrow> (\<exists>x s'. m = Some (x, s') \<and> ok x \<and> clock s' = clock s \<and> length (nic_rx s') \<le> length (nic_rx s))"

lemma ends_later: "ends ok t m \<Longrightarrow> clock t = clock s \<Longrightarrow> length (nic_rx t) \<le> length (nic_rx s) \<Longrightarrow> ends ok s m"
  by (auto simp: ends_def)

lemma ends_SomeI: "ok x \<Longrightarrow> clock s' = clock s \<Longrightarrow> length (nic_rx s') \<le> length (nic_rx s) \<Longrightarrow> ends ok s (Some (x, s'))"
  by (simp add: ends_def)

text \<open>The measure of a state: the frames at the card, then the bytes in the receive buffer.\<close>

definition less_left :: "net \<Rightarrow> net \<Rightarrow> bool" where
  "less_left t s \<longleftrightarrow> length (nic_rx t) < length (nic_rx s) \<or> nic_rx t = nic_rx s \<and> recv_len (g_tcp_conn t) < recv_len (g_tcp_conn s)"

lemma wfp_less_left: "wfp less_left"
proof -
  have "{(t, s). less_left t s} \<subseteq> inv_image (less_than <*lex*> less_than) (\<lambda>s. (length (nic_rx s), unat (recv_len (g_tcp_conn s))))"
    by (auto simp: less_left_def word_less_nat_alt)
  then show ?thesis unfolding wfp_def by (rule wf_subset [rotated]) auto
qed

text \<open>Nothing has come, and a bounded time has passed.\<close>

definition idles :: "(nat \<Rightarrow> nat) \<Rightarrow> net \<Rightarrow> net \<Rightarrow> bool" where
  "idles f t u \<longleftrightarrow> clock u = clock t \<and> nic_rx u = nic_rx t \<and> recv_len (g_tcp_conn u) = recv_len (g_tcp_conn t) \<and>
     clock_reads t < clock_reads u \<and> f (clock_reads u) \<le> f (clock_reads t) + 200 + 3 * 2 ^ 30"

text \<open>One call of \<open>tcp_recv\<close> after a reading of the timer: something has come, or there is less left, or nothing has come.\<close>

lemma recv_round:
  assumes "counts f (clock t)" and "length (nic_rx t) \<le> d" and "0 < len"
  shows "\<exists>v bs u. tcp_recv (arp_resolve d) len (t\<lparr>clock_reads := Suc (clock_reads t)\<rparr>) = Some (v, bs, u) \<and> clock u = clock t \<and>
    (less_left u t \<or> v \<le> 0 \<and> idles f t u)"
proof -
  let ?t = "t\<lparr>clock_reads := Suc (clock_reads t)\<rparr>"
  obtain v bs u where r: "tcp_recv (arp_resolve d) len ?t = Some (v, bs, u)" and ps: "passes f v ?t u"
    using tcp_recv_passes [of f ?t d len] assms by auto
  have "f (Suc (clock_reads t)) \<le> f (clock_reads t) + 2 ^ 30" using assms(1) unfolding counts_def by blast
  then have "less_left u t \<or> v \<le> 0 \<and> idles f t u" using ps by (auto simp: passes_def less_left_def idles_def)
  then show ?thesis using r ps by (auto simp: passes_def)
qed

text \<open>
  A loop that receives until a time limit without data has passed: once the limit has passed it
  returns; a round returns, or goes on with less left, or is idle and keeps the time of the last data.
\<close>

locale receive_loop =
  fixes loop :: "u32 \<Rightarrow> 'a \<Rightarrow> net \<Rightarrow> ('a \<times> net) option" and ok :: "'a \<Rightarrow> bool" and limit d :: nat
  assumes limit: "limit \<le> 300"
    and late_ends: "ok x \<Longrightarrow> limit \<le> unat (clock t (clock_reads t) - start) \<Longrightarrow> ends ok t (loop start x t)"
    and round: "counts f (clock t) \<Longrightarrow> length (nic_rx t) \<le> d \<Longrightarrow> ok x \<Longrightarrow>
      ends ok t (loop start x t) \<or>
      (\<exists>start1 y u. loop start x t = loop start1 y u \<and> ok y \<and> clock u = clock t \<and> less_left u t) \<or>
      (\<exists>u. loop start x t = loop start x u \<and> idles f t u)"
begin

lemma idle_rounds_end:
  assumes "counts f (clock s)" and "length (nic_rx s) \<le> d" and "ok x" and "h = clock_reads s" and "unat (clock s h - start) < limit"
    and less_IH: "\<And>u st y. clock u = clock s \<Longrightarrow> less_left u s \<Longrightarrow> ok y \<Longrightarrow> ends ok s (loop st y u)"
    and "clock t = clock s" and "nic_rx t = nic_rx s" and "recv_len (g_tcp_conn t) = recv_len (g_tcp_conn s)"
    and "h \<le> clock_reads t" and "f (clock_reads t) \<le> f h + 500 + 3 * 2 ^ 30" and "f h + 300 \<le> f K"
  shows "ends ok s (loop start x t)"
  using assms(7-11)
proof (induction "K - clock_reads t" arbitrary: t rule: less_induct)
  case (less t)
  define e where "e = unat (clock s h - start)"
  have el: "unat (clock s (clock_reads t) - start) = e + (f (clock_reads t) - f h)"
    unfolding e_def using counts_elapsed [OF assms(1) less.prems(4), of start] less.prems(5) assms(5) limit by simp
  show ?case
  proof (cases "e + (f (clock_reads t) - f h) < limit")
    case False
    then have "ends ok t (loop start x t)" using el less.prems(1) assms(3) by (intro late_ends) simp_all
    then show ?thesis by (rule ends_later) (simp_all add: less.prems)
  next
    case True
    then have ft: "f (clock_reads t) < f h + 300" using counts_mono [OF assms(1) less.prems(4)] limit by simp
    have lt: "clock_reads t < K"
    proof (rule ccontr)
      assume "\<not> clock_reads t < K"
      then have "f K \<le> f (clock_reads t)" using counts_mono [OF assms(1)] by simp
      then show False using ft assms(12) by simp
    qed
    have same: "less_left u t = less_left u s" for u using less.prems(2,3) by (simp add: less_left_def)
    consider "ends ok t (loop start x t)"
      | start1 y u where "loop start x t = loop start1 y u" "ok y" "clock u = clock t" "less_left u t"
      | u where "loop start x t = loop start x u" "idles f t u"
      using round [of f t x start] assms(1,2,3) less.prems(1,2) by auto
    then show ?thesis
    proof cases
      case 1
      then show ?thesis by (rule ends_later) (simp_all add: less.prems)
    next
      case 2
      then show ?thesis using less_IH less.prems(1) same by simp
    next
      case 3
      then have "ends ok s (loop start x u)" using less.prems lt ft by (intro less.hyps) (auto simp: idles_def)
      then show ?thesis using 3(1) by simp
    qed
  qed
qed

theorem loop_returns:
  assumes "counts f (clock s)" and "length (nic_rx s) \<le> d" and "ok x"
  shows "ends ok s (loop start x s)"
  using assms
proof (induction s arbitrary: start x rule: wfp_induct_rule [OF wfp_less_left])
  case (1 s)
  have less_IH: "ends ok s (loop st y u)" if "clock u = clock s" "less_left u s" "ok y" for u st y
  proof -
    have l: "length (nic_rx u) \<le> length (nic_rx s)" using that(2) by (auto simp: less_left_def)
    then have "ends ok u (loop st y u)" using 1 that by auto
    then show ?thesis using ends_later that(1) l by blast
  qed
  show ?case
  proof (cases "unat (clock s (clock_reads s) - start) < limit")
    case False
    then show ?thesis using late_ends 1(4) by simp
  next
    case True
    obtain K where "f (clock_reads s) + 300 \<le> f K" using 1(2) unfolding counts_def by blast
    then show ?thesis using idle_rounds_end [OF 1(2,3,4) refl True less_IH refl refl refl le_refl] by simp
  qed
qed

end

section \<open>The loop of a download\<close>

lemma download_round:
  assumes "counts f (clock t)" and "length (nic_rx t) \<le> d" and "dl_ok cap out0 dl"
  shows "ends (dl_ok cap out0) t (download_loop (arp_resolve d) cap start dl t) \<or>
    (\<exists>start1 dl1 u. download_loop (arp_resolve d) cap start dl t = download_loop (arp_resolve d) cap start1 dl1 u \<and>
       dl_ok cap out0 dl1 \<and> clock u = clock t \<and> less_left u t) \<or>
    (\<exists>u. download_loop (arp_resolve d) cap start dl t = download_loop (arp_resolve d) cap start dl u \<and> idles f t u)"
proof (cases "clock t (clock_reads t) - start < 300")
  case False
  then show ?thesis using assms(3) by (subst download_loop.simps) (simp add: timer_ticks_def ends_def)
next
  case True
  let ?t = "t\<lparr>clock_reads := Suc (clock_reads t)\<rparr>"
  have tt: "timer_ticks t = (clock t (clock_reads t), ?t)" by (simp add: timer_ticks_def)
  obtain v bs u where r: "tcp_recv (arp_resolve d) 256 ?t = Some (v, bs, u)" "clock u = clock t" "less_left u t \<or> v \<le> 0 \<and> idles f t u"
    using recv_round [of f t d 256] assms(1,2) by auto
  show ?thesis
  proof (cases "v \<le> 0")
    case idle: True
    have "download_loop (arp_resolve d) cap start dl t = download_loop (arp_resolve d) cap start dl u"
      using True idle r(1) by (subst download_loop.simps) (simp add: tt)
    then show ?thesis using r(2,3) assms(3) by blast
  next
    case False
    let ?u = "u\<lparr>clock_reads := Suc (clock_reads u)\<rparr>"
    have tu: "timer_ticks u = (clock u (clock_reads u), ?u)" by (simp add: timer_ticks_def)
    obtain dl1 where c: "take_chunk cap bs dl = Some dl1" "dl_ok cap out0 dl1" using take_chunk_ok [OF assms(3)] by blast
    have go: "download_loop (arp_resolve d) cap start dl t =
        (if download_done cap dl1 then Some (dl1, ?u) else download_loop (arp_resolve d) cap (clock u (clock_reads u)) dl1 ?u)"
      using True False r(1) c(1) by (subst download_loop.simps) (simp add: tt tu)
    have l: "less_left ?u t" "clock ?u = clock t" using r(2,3) False by (auto simp: less_left_def)
    then have "length (nic_rx ?u) \<le> length (nic_rx t)" by (auto simp: less_left_def)
    then have "download_done cap dl1 \<Longrightarrow> ends (dl_ok cap out0) t (Some (dl1, ?u))" using c(2) l(2) by (simp add: ends_def)
    then show ?thesis using go c(2) l by (cases "download_done cap dl1") metis+
  qed
qed

interpretation dl: receive_loop "download_loop (arp_resolve d) cap" "dl_ok cap out0" 300 d for d cap out0
proof
  show "ends (dl_ok cap out0) t (download_loop (arp_resolve d) cap start x t)"
    if "dl_ok cap out0 x" "300 \<le> unat (clock t (clock_reads t) - start)" for x t start
    using that by (subst download_loop.simps) (simp add: timer_ticks_def ends_def word_less_nat_alt)
qed (simp, rule download_round)

section \<open>The loop of a request\<close>

text \<open>What is kept while an answer is received: the text stays below the size, the bytes behind the size are as they were.\<close>

definition resp_ok :: "u16 \<Rightarrow> bytes \<Rightarrow> bytes \<times> u16 \<Rightarrow> bool" where
  "resp_ok sz r0 st \<longleftrightarrow> sz \<noteq> 0 \<and> unat sz \<le> length r0 \<and> length (fst st) = length r0 \<and> unat (snd st) < unat sz \<and>
     drop (unat sz) (fst st) = drop (unat sz) r0"

lemma copy_response_ok: "resp_ok sz r0 st \<Longrightarrow> \<exists>st'. copy_response sz cs st = Some st' \<and> resp_ok sz r0 st'"
proof (induction cs arbitrary: st)
  case (Cons c cs)
  show ?case
  proof (cases "unat (snd st) < unat sz - 1")
    case True
    let ?st = "((fst st)[unat (snd st) := c], snd st + 1)"
    have l: "unat (snd st) < length (fst st)" using Cons.prems by (auto simp: resp_ok_def)
    have u: "unat (snd st + 1) = Suc (unat (snd st))" using True unat_less_len [of sz] by (simp add: unat_add_nowrap)
    have "resp_ok sz r0 ?st" using Cons.prems True u by (auto simp: resp_ok_def)
    then show ?thesis using Cons.IH [of ?st] True l by (cases st) (simp add: put_char_def arr_set_def)
  qed (use Cons.prems in simp)
qed simp

lemma response_round:
  assumes "counts f (clock t)" and "length (nic_rx t) \<le> d" and "resp_ok sz r0 st"
  shows "ends (resp_ok sz r0) t (response_loop (arp_resolve d) sz st start t) \<or>
    (\<exists>start1 st1 u. response_loop (arp_resolve d) sz st start t = response_loop (arp_resolve d) sz st1 start1 u \<and>
       resp_ok sz r0 st1 \<and> clock u = clock t \<and> less_left u t) \<or>
    (\<exists>u. response_loop (arp_resolve d) sz st start t = response_loop (arp_resolve d) sz st start u \<and> idles f t u)"
proof (cases "unat (snd st) < unat sz - 1 \<and> clock t (clock_reads t) - start < 100")
  case False
  then have "ends (resp_ok sz r0) t (response_loop (arp_resolve d) sz st start t)"
    using assms(3) by (subst response_loop.simps) (simp add: timer_ticks_def ends_SomeI)
  then show ?thesis by blast
next
  case True
  let ?t = "t\<lparr>clock_reads := Suc (clock_reads t)\<rparr>"
  have tt: "timer_ticks t = (clock t (clock_reads t), ?t)" by (simp add: timer_ticks_def)
  obtain v bs u where r: "tcp_recv (arp_resolve d) 127 ?t = Some (v, bs, u)" "clock u = clock t" "less_left u t \<or> v \<le> 0 \<and> idles f t u"
    using recv_round [of f t d 127] assms(1,2) by auto
  show ?thesis
  proof (cases "v > 0")
    case idle: False
    have "response_loop (arp_resolve d) sz st start t = response_loop (arp_resolve d) sz st start u"
      using True idle r(1) by (subst response_loop.simps) (simp add: tt)
    then show ?thesis using r(2,3) assms(3) by blast
  next
    case data: True
    let ?u = "u\<lparr>clock_reads := Suc (clock_reads u)\<rparr>"
    have tu: "timer_ticks u = (clock u (clock_reads u), ?u)" by (simp add: timer_ticks_def)
    obtain st1 where c: "copy_response sz bs st = Some st1" "resp_ok sz r0 st1" using copy_response_ok [OF assms(3)] by blast
    have "response_loop (arp_resolve d) sz st start t = response_loop (arp_resolve d) sz st1 (clock u (clock_reads u)) ?u"
      using True data r(1) c(1) by (subst response_loop.simps) (simp add: tt tu)
    moreover have "less_left ?u t" "clock ?u = clock t" using r(2,3) data by (auto simp: less_left_def)
    ultimately show ?thesis using c(2) by metis
  qed
qed

interpretation rs: receive_loop "\<lambda>start st. response_loop (arp_resolve d) sz st start" "resp_ok sz r0" 100 d for d sz r0
proof
  show "ends (resp_ok sz r0) t (response_loop (arp_resolve d) sz x start t)"
    if "resp_ok sz r0 x" "100 \<le> unat (clock t (clock_reads t) - start)" for x t start
    using that by (subst response_loop.simps) (simp add: timer_ticks_def ends_SomeI word_less_nat_alt)
qed (simp, rule response_round)

section \<open>Sending and closing\<close>

text \<open>A call that returns, takes no frames back and leaves the readings of the timer alone.\<close>

lemma ack_wait_settles:
  assumes "length (nic_rx s) \<le> d" and "ticking (clock s)"
  shows "\<exists>r s'. poll_until (net_poll_once (arp_resolve d)) (ack_check a) (clock s i) TCP_RTO_TICKS s = Some (r, s') \<and>
    length (nic_rx s') \<le> length (nic_rx s) \<and> clock s' = clock s"
proof -
  have ck: "nic_rx (snd (ack_check a s)) = nic_rx s \<and> clock (snd (ack_check a s)) = clock s \<and>
      clock_reads (snd (ack_check a s)) = clock_reads s" for s
    by (simp add: ack_check_def)
  show ?thesis using poller.poll_until_settles [OF ck assms, of i] by (auto simp: settles_def TCP_RTO_TICKS_def)
qed

lemma tcp_send_chunk_settles:
  assumes "length (nic_rx s) < d" and "ticking (clock s)" and "length chunk \<le> TCP_MSS"
  shows "\<exists>r s'. tcp_send_chunk (arp_resolve d) q chunk n s = Some (r, s') \<and> length (nic_rx s') \<le> length (nic_rx s) \<and> clock s' = clock s"
  using assms(1,2)
proof (induction n arbitrary: s)
  case (Suc n)
  let ?s = "upd_conn (\<lambda>c. c\<lparr>seq_num := q\<rparr>) s"
  obtain s1 where s1: "tcp_send_segment (arp_resolve d) (TCP_PSH OR TCP_ACK) chunk ?s = Some (0, s1)"
    and e1: "length (nic_rx s1) \<le> length (nic_rx s)" "clock s1 = clock s"
    using tcp_send_segment_settles [of ?s d chunk "TCP_PSH OR TCP_ACK"] Suc.prems assms(3) by auto
  obtain start s2 where ts: "timer_ticks s1 = (start, s2)" by fastforce
  note e2 = timer_ticks_env [OF ts]
  obtain r s3 where w: "poll_until (net_poll_once (arp_resolve d)) (ack_check (q + word_of_nat (length chunk))) start TCP_RTO_TICKS s2 = Some (r, s3)"
    and e3: "length (nic_rx s3) \<le> length (nic_rx s2)" "clock s3 = clock s2"
    using ack_wait_settles [of s2 d "q + word_of_nat (length chunk)" "clock_reads s1"] Suc.prems e1 e2 by auto
  show ?case
  proof (cases r)
    case None
    have "\<exists>r s'. tcp_send_chunk (arp_resolve d) q chunk n s3 = Some (r, s') \<and> length (nic_rx s') \<le> length (nic_rx s3) \<and> clock s' = clock s3"
      using Suc.prems e1 e2 e3 by (intro Suc.IH) auto
    then show ?thesis using None s1 ts w e1 e2 e3 by (auto simp: Let_def)
  next
    case (Some x)
    then show ?thesis using s1 ts w e1 e2 e3 by (auto simp: Let_def)
  qed
qed simp

lemma tcp_send_loop_settles:
  assumes "length (nic_rx s) < d" and "ticking (clock s)"
  shows "\<exists>ok s'. tcp_send_loop (arp_resolve d) data s = Some (ok, s') \<and> length (nic_rx s') \<le> length (nic_rx s) \<and> clock s' = clock s"
  using assms
proof (induction "length data" arbitrary: data s rule: less_induct)
  case less
  show ?case
  proof (cases "data = []")
    case True
    then show ?thesis by (auto simp: tcp_send_loop.simps [of _ "[]"])
  next
    case False
    let ?q = "seq_num (g_tcp_conn s)" and ?c = "take TCP_MSS data"
    obtain r s1 where c: "tcp_send_chunk (arp_resolve d) ?q ?c TCP_MAX_RETRIES s = Some (r, s1)"
      and e1: "length (nic_rx s1) \<le> length (nic_rx s)" "clock s1 = clock s"
      using tcp_send_chunk_settles [of s d ?c ?q TCP_MAX_RETRIES] less.prems by auto
    let ?s1 = "upd_conn (\<lambda>c. c\<lparr>seq_num := ?q + word_of_nat (length ?c)\<rparr>) s1"
    have "\<exists>ok s'. tcp_send_loop (arp_resolve d) (drop TCP_MSS data) ?s1 = Some (ok, s') \<and> length (nic_rx s') \<le> length (nic_rx ?s1) \<and> clock s' = clock ?s1"
      using False less.prems e1 by (intro less.hyps) (auto simp: TCP_MSS_def)
    then show ?thesis using False c e1 by (subst tcp_send_loop.simps) (auto simp: Let_def simp del: tcp_send_loop.simps)
  qed
qed

lemma tcp_send_settles:
  assumes "length (nic_rx s) < d" and "ticking (clock s)"
  shows "\<exists>v s'. tcp_send (arp_resolve d) data s = Some (v, s') \<and> length (nic_rx s') \<le> length (nic_rx s) \<and> clock s' = clock s"
  using tcp_send_loop_settles [OF assms, of data] by (auto simp: tcp_send_def simp del: tcp_send_loop.simps)

lemma tcp_close_settles:
  assumes "length (nic_rx s) < d" and "ticking (clock s)"
  shows "\<exists>s'. tcp_close (arp_resolve d) s = Some s' \<and> cstate (g_tcp_conn s') \<noteq> TCP_ESTABLISHED"
proof (cases "cstate (g_tcp_conn s) = TCP_ESTABLISHED")
  case False
  then show ?thesis by (simp add: tcp_close_def)
next
  case True
  let ?s = "upd_conn (\<lambda>c. c\<lparr>cstate := TCP_FIN_WAIT_1\<rparr>) s"
  obtain s1 where s1: "tcp_send_segment (arp_resolve d) (TCP_FIN OR TCP_ACK) [] ?s = Some (0, s1)"
    and e1: "length (nic_rx s1) \<le> length (nic_rx s)" "clock s1 = clock s"
    using tcp_send_segment_settles [of ?s d "[]" "TCP_FIN OR TCP_ACK"] assms by auto
  let ?s2 = "upd_conn (\<lambda>c. c\<lparr>seq_num := seq_num (g_tcp_conn s) + 1\<rparr>) s1"
  obtain start s3 where ts: "timer_ticks ?s2 = (start, s3)" by fastforce
  note e3 = timer_ticks_env [OF ts]
  have ck: "nic_rx (snd (close_check s)) = nic_rx s \<and> clock (snd (close_check s)) = clock s \<and>
      clock_reads (snd (close_check s)) = clock_reads s" for s
    by (simp add: close_check_def)
  obtain r s4 where "poll_until (net_poll_once (arp_resolve d)) close_check start TCP_RTO_TICKS s3 = Some (r, s4)"
    using poller.poll_until_settles [OF ck, of s3 d "clock_reads ?s2"] assms e1 e3 by (auto simp: settles_def TCP_RTO_TICKS_def)
  then show ?thesis using True s1 ts by (simp add: tcp_close_def Let_def)
qed

section \<open>A download returns\<close>




section \<open>A request returns\<close>

lemma shift_body_keeps:
  "\<forall>j \<in> set js. start + j < length b \<and> j < k \<Longrightarrow>
     \<exists>b'. shift_body sz start js b = Some b' \<and> length b' = length b \<and> drop k b' = drop k b"
proof (induction js arbitrary: b)
  case (Cons j js)
  let ?b = "b[j := b ! (start + j)]"
  have "\<exists>b'. shift_body sz start js ?b = Some b' \<and> length b' = length ?b \<and> drop k b' = drop k ?b"
    using Cons.prems by (intro Cons.IH) auto
  then show ?case using Cons.prems by (auto simp: arr_get_def arr_set_def)
qed simp

lemma body_index_le: "\<forall>i \<in> set is. i + 4 \<le> n \<Longrightarrow> body_index b is \<le> n"
  by (induction "is") auto

lemma cut_header_keeps:
  assumes "resp_ok sz r0 st"
  shows "\<exists>b. cut_header sz st = Some b \<and> length b = length r0 \<and> drop (unat sz) b = drop (unat sz) r0"
proof -
  let ?n = "unat (snd st)" and ?b = "fst st"
  define k where "k = body_index ?b [0 ..< ?n - 3]"
  have k: "k \<le> ?n" unfolding k_def by (rule body_index_le) auto
  have st: "?n < unat sz" "unat sz \<le> length ?b" "length ?b = length r0" "drop (unat sz) ?b = drop (unat sz) r0"
    using assms by (auto simp: resp_ok_def)
  obtain b' where "shift_body sz k [0 ..< ?n - k] ?b = Some b'" "length b' = length ?b" "drop (unat sz) b' = drop (unat sz) ?b"
  proof -
    have "\<forall>j \<in> set [0 ..< ?n - k]. k + j < length ?b \<and> j < unat sz" using st k by auto
    from shift_body_keeps [OF this] show ?thesis using that by blast
  qed
  then show ?thesis using st k by (cases st) (auto simp: cut_header_def Let_def k_def arr_set_def)
qed

text \<open>
  A request whose text fits always returns, whatever the other side sends, and writes only into
  the first \<open>response_size\<close> bytes of the buffer for the answer.
\<close>

theorem http_request_returns:
  assumes "counts f (clock s)" and "length (nic_rx s) < d" and "parse_ip host = Some ip"
    and "build_request m host path hs body = Some (req, pos)" and "unat sz \<le> length resp"
  shows "\<exists>v resp' s'. http_request (arp_resolve d) (Some m) (Some host) (Some path) hs body (Some resp) sz s = Some (v, Some resp', s') \<and>
    (v = 0 \<or> v = - 1) \<and> length resp' = length resp \<and> drop (unat sz) resp' = drop (unat sz) resp"
proof (cases "sz = 0 \<or> ip = 0")
  case True
  then show ?thesis using assms(3) by (auto simp: http_request_def)
next
  case False
  have tk: "ticking (clock s)" using counts_ticking [OF assms(1)] .
  obtain e s1 where c: "tcp_connect (arp_resolve d) ip 80 s = Some (e, s1)" "length (nic_rx s1) \<le> length (nic_rx s)" "clock s1 = clock s"
    using tcp_connect_settles [OF tk assms(2)] by blast
  obtain n s2 where w: "tcp_send (arp_resolve d) (take (unat pos) req) s1 = Some (n, s2)" "length (nic_rx s2) \<le> length (nic_rx s1)" "clock s2 = clock s1"
    using tcp_send_settles [of s1 d] c(2,3) assms(2) tk by fastforce
  obtain s3 where cl: "tcp_close (arp_resolve d) s2 = Some s3" using tcp_close_settles [of s2 d] c(2,3) w(2,3) assms(2) tk by fastforce
  let ?s = "s2\<lparr>clock_reads := Suc (clock_reads s2)\<rparr>"
  have tt: "timer_ticks s2 = (clock s2 (clock_reads s2), ?s)" by (simp add: timer_ticks_def)
  have "resp_ok sz resp (resp, 0)" using False assms(5) by (auto simp: resp_ok_def unat_gt_0)
  then have "ends (resp_ok sz resp) ?s (response_loop (arp_resolve d) sz (resp, 0) (clock s2 (clock_reads s2)) ?s)"
    using assms(1,2) c(2,3) w(2,3) by (intro rs.loop_returns [of f]) auto
  then obtain b t s4 where l: "response_loop (arp_resolve d) sz (resp, 0) (clock s2 (clock_reads s2)) ?s = Some ((b, t), s4)"
    "resp_ok sz resp (b, t)" "clock s4 = clock s2" "length (nic_rx s4) \<le> length (nic_rx s2)" by (auto simp: ends_def)
  obtain s5 where cl5: "tcp_close (arp_resolve d) s4 = Some s5" using tcp_close_settles [of s4 d] l(3,4) c(2,3) w(2,3) assms(2) tk by fastforce
  have nul: "put_nul (b, t) = Some (b[unat t := 0], t)" "resp_ok sz resp (b[unat t := 0], t)"
    using l(2) by (auto simp: put_nul_def arr_set_def resp_ok_def)
  obtain r where "cut_header sz (b[unat t := 0], t) = Some r" "length r = length resp" "drop (unat sz) r = drop (unat sz) resp"
    using cut_header_keeps [OF nul(2)] by blast
  then show ?thesis
    using False assms(3,4) c(1) w(1) cl tt l(1) nul(1) cl5 by (auto simp: http_request_def)
qed

end
