(* ===== verification/Drivers.thy ===== *)
theory Drivers
  imports Ipc Console Keyboard
begin

text \<open>
  The static drivers and their registration at start-up: the console of the hosted build
  (\<open>Kernel/drivers/driver.c\<close>) and the serial, screen, keyboard and timer drivers of the kernel
  (\<open>Kernel/drivers/driver_fs.c\<close>). The list of drivers is the one of theory \<open>Ipc\<close>.

  A driver's operations are a record of functions over the state that they work on: standard input and
  output of the host, or the devices behind the ports together with the keyboard. A buffer argument is
  \<open>None\<close> for the null pointer; \<open>None\<close> as a result is an access outside of the buffer, or an output that
  never ends because the serial port does not get ready.
\<close>

section \<open>The interface of a driver\<close>

record 's driver_ops =
  op_init :: "'s \<Rightarrow> int \<times> 's"
  op_open :: "int \<Rightarrow> 's \<Rightarrow> int \<times> 's"
  op_close :: "'s \<Rightarrow> int \<times> 's"
  op_read :: "bytes option \<Rightarrow> nat \<Rightarrow> 's \<Rightarrow> (int \<times> bytes option \<times> 's) option"
  op_write :: "bytes option \<Rightarrow> nat \<Rightarrow> 's \<Rightarrow> (int \<times> 's) option"
  op_ioctl :: "u32 \<Rightarrow> 's \<Rightarrow> int \<times> 's"

definition log_text :: "string \<Rightarrow> bytes" where
  "log_text s = map of_char s"

section \<open>The console of the hosted build\<close>

record host =
  host_in :: bytes
  host_out :: bytes

definition host_print :: "bytes \<Rightarrow> host \<Rightarrow> host" where
  "host_print bs h = h\<lparr>host_out := host_out h @ bs\<rparr>"

definition console_init :: "host \<Rightarrow> int \<times> host" where
  "console_init h = (0, host_print (log_text ''[DRIVER] console ready'' @ [10]) h)"

definition console_open :: "int \<Rightarrow> host \<Rightarrow> int \<times> host" where
  "console_open flags h = (0, h)"

definition console_close :: "host \<Rightarrow> int \<times> host" where
  "console_close h = (0, h)"

definition console_read :: "bytes option \<Rightarrow> nat \<Rightarrow> host \<Rightarrow> (int \<times> bytes option \<times> host) option" where
  "console_read buf count h =
     (case buf of
        None \<Rightarrow> Some (0, None, h)
      | Some b \<Rightarrow>
          if count = 0 then Some (0, buf, h)
          else (case host_in h of
                  [] \<Rightarrow> Some (0, buf, h)
                | ch # rest \<Rightarrow> do { b1 \<leftarrow> arr_set b 0 ch; Some (1, Some b1, h\<lparr>host_in := rest\<rparr>) }))"

definition console_write :: "bytes option \<Rightarrow> nat \<Rightarrow> host \<Rightarrow> (int \<times> host) option" where
  "console_write buf count h =
     (case buf of
        None \<Rightarrow> Some (0, h)
      | Some b \<Rightarrow> if count = 0 then Some (0, h)
                  else do { bs \<leftarrow> arr_slice b 0 count; Some (int count, host_print bs h) })"

definition console_ioctl :: "u32 \<Rightarrow> host \<Rightarrow> int \<times> host" where
  "console_ioctl request h = (- 1, h)"

definition console_ops :: "host driver_ops" where
  "console_ops = \<lparr>op_init = console_init, op_open = console_open, op_close = console_close,
     op_read = console_read, op_write = console_write, op_ioctl = console_ioctl\<rparr>"

text \<open>Registering a driver, with the line that is printed.\<close>

definition register_hosted :: "nat \<Rightarrow> driver_reg \<times> host \<Rightarrow> driver_reg \<times> host" where
  "register_hosted d st =
     (driver_register d (fst st), host_print (log_text ''[DRIVER] registered '' @ drv_name (fst st) d @ [10]) (snd st))"

definition drivers_init :: "nat \<Rightarrow> driver_reg \<Rightarrow> ipc_state \<Rightarrow> host \<Rightarrow> driver_reg \<times> ipc_state \<times> host" where
  "drivers_init console_driver reg s h =
     (let s1 = ipc_reset s;
          (reg1, h1) = register_hosted console_driver (reg\<lparr>driver_list := None\<rparr>, h);
          (r, h2) = op_init console_ops h1
      in (reg1, s1, host_print (log_text ''[DRIVER] driver core ready'' @ [10]) h2))"

section \<open>The drivers of the kernel\<close>

text \<open>Apart from their initialisation the four drivers have the same operations, which do nothing.\<close>

definition stub_ops :: "'s driver_ops" where
  "stub_ops = \<lparr>op_init = (\<lambda>s. (0, s)), op_open = (\<lambda>f s. (0, s)), op_close = (\<lambda>s. (0, s)),
     op_read = (\<lambda>buf cnt s. Some (0, buf, s)), op_write = (\<lambda>buf cnt s. Some (0, s)), op_ioctl = (\<lambda>r s. (- 1, s))\<rparr>"

definition serial_ops :: "'h ports \<Rightarrow> ('h \<times> kbd) driver_ops" where
  "serial_ops io = stub_ops\<lparr>op_init := (\<lambda>(h, k). (0, serial_init io h, k))\<rparr>"

definition vga_ops :: "('h \<times> kbd) driver_ops" where
  "vga_ops = stub_ops"

definition kbd_ops :: "('h \<times> kbd) driver_ops" where
  "kbd_ops = stub_ops\<lparr>op_init := (\<lambda>(h, k). (0, h, keyboard_init k))\<rparr>"

definition timer_ops :: "('h \<times> kbd) driver_ops" where
  "timer_ops = stub_ops"

definition register_fs :: "'h ports \<Rightarrow> nat \<Rightarrow> driver_reg \<times> 'h \<Rightarrow> (driver_reg \<times> 'h) option" where
  "register_fs io d st =
     (case st of (reg, h) \<Rightarrow>
        do { h1 \<leftarrow> serial_puts io (Some (log_text ''[DRIVER] registered '')) h;
             h2 \<leftarrow> serial_puts io (Some (drv_name reg d)) h1;
             h3 \<leftarrow> serial_puts io (Some [10]) h2;
             Some (driver_register d reg, h3) })"

text \<open>The comparison of names that \<open>driver_lookup\<close> has in this build; the end of a list is the terminator.\<close>

fun names_match :: "bytes \<Rightarrow> bytes \<Rightarrow> bool" where
  "names_match (a # as) (b # bs) = (if a \<noteq> b then False else names_match as bs)"
| "names_match as bs = (as = [] \<and> bs = [])"

partial_function (option) lookup_fs_from :: "driver_reg \<Rightarrow> bytes \<Rightarrow> nat option \<Rightarrow> nat option option" where
  "lookup_fs_from s name p =
     (case p of
        None \<Rightarrow> Some None
      | Some d \<Rightarrow> if names_match (drv_name s d) name then Some (Some d) else lookup_fs_from s name (drv_next s d))"

definition driver_lookup_fs :: "bytes \<Rightarrow> driver_reg \<Rightarrow> nat option option" where
  "driver_lookup_fs name s = lookup_fs_from s name (driver_list s)"

text \<open>One driver at start-up: it is registered, then initialised.\<close>

definition start_driver ::
  "'h ports \<Rightarrow> nat \<Rightarrow> ('h \<times> kbd) driver_ops \<Rightarrow> driver_reg \<times> 'h \<times> kbd \<Rightarrow> (driver_reg \<times> 'h \<times> kbd) option" where
  "start_driver io d ops st =
     (case st of (reg, h, k) \<Rightarrow> do { (reg1, h1) \<leftarrow> register_fs io d (reg, h); Some (reg1, snd (op_init ops (h1, k))) })"

definition drivers_init_fs ::
  "'h ports \<Rightarrow> nat \<Rightarrow> nat \<Rightarrow> nat \<Rightarrow> nat \<Rightarrow> driver_reg \<Rightarrow> ipc_fs_state \<Rightarrow> 'h \<times> kbd \<Rightarrow> (driver_reg \<times> ipc_fs_state \<times> 'h \<times> kbd) option" where
  "drivers_init_fs io serial vga kbd timer reg s env =
     do { st1 \<leftarrow> start_driver io serial (serial_ops io) (reg\<lparr>driver_list := None\<rparr>, env);
          st2 \<leftarrow> start_driver io vga vga_ops st1;
          st3 \<leftarrow> start_driver io kbd kbd_ops st2;
          (reg1, h, k) \<leftarrow> start_driver io timer timer_ops st3;
          h1 \<leftarrow> serial_puts io (Some (log_text ''[DRIVER] driver core ready'' @ [10])) h;
          Some (reg1, msg_pool_init s, h1, k) }"

end
