(* ===== verification/Drivers_Props.thy ===== *)
theory Drivers_Props
  imports Drivers Ipc_Mail
begin

text \<open>
  After start-up every driver is found by its name, in both builds, and the console passes bytes on in order.
\<close>

section \<open>Looking up\<close>

lemma names_match_eq: "names_match a b \<longleftrightarrow> a = b"
  by (induction a b rule: names_match.induct) auto

lemma lookup_fs_chain:
  "drv_chain s p ds \<Longrightarrow> lookup_fs_from s name p = Some (find (\<lambda>d. drv_name s d = name) ds)"
  by (induction ds arbitrary: p) (subst lookup_fs_from.simps; simp add: names_match_eq)+

text \<open>The lookup of the kernel, with its own comparison of names, is the one of the hosted build on every list of drivers.\<close>

theorem driver_lookup_builds_agree:
  assumes "drv_chain s (driver_list s) ds"
  shows "driver_lookup_fs name s = driver_lookup name s"
  using lookup_fs_chain [OF assms] driver_lookup_chain [OF assms] by (simp add: driver_lookup_fs_def driver_lookup_def)

section \<open>Start-up of the kernel\<close>

lemma serial_puts_returns:
  assumes "\<And>h. \<exists>h'. serial_wait io h = Some h'"
  shows "\<exists>h'. serial_puts io (Some cs) h = Some h'"
proof -
  have "\<exists>h'. serial_putc io c h = Some h'" for c h
  proof -
    obtain h1 where h1: "serial_wait io h = Some h1" using assms by blast
    obtain h2 where "serial_wait io (p_outb io SERIAL_PORT_COM1 c h1) = Some h2" using assms by blast
    then show ?thesis using h1 by (cases "c = 10") (simp_all add: serial_putc_def Let_def)
  qed
  then have "\<exists>h'. put_all (serial_putc io) cs h = Some h'"
  proof (induction cs arbitrary: h)
    case (Cons c cs)
    then obtain h1 where "serial_putc io c h = Some h1" by blast
    then show ?case using Cons by simp
  qed simp
  then show ?thesis by (simp add: serial_puts_def)
qed

lemma start_driver_returns:
  assumes "\<And>h. \<exists>h'. serial_wait io h = Some h'"
  shows "\<exists>h'. start_driver io d ops (reg, h, k) = Some (driver_register d reg, snd (op_init ops (h', k)))"
proof -
  obtain h1 where 1: "serial_puts io (Some (log_text ''[DRIVER] registered '')) h = Some h1" using serial_puts_returns [OF assms] by blast
  obtain h2 where 2: "serial_puts io (Some (drv_name reg d)) h1 = Some h2" using serial_puts_returns [OF assms] by blast
  obtain h3 where 3: "serial_puts io (Some [10]) h2 = Some h3" using serial_puts_returns [OF assms] by blast
  show ?thesis using 1 2 3 by (intro exI [of _ h3]) (simp add: start_driver_def register_fs_def)
qed

definition named :: "driver_reg \<Rightarrow> nat list \<Rightarrow> bool" where
  "named reg ds \<longleftrightarrow> map (drv_name reg) ds = map log_text [''serial'', ''vga'', ''keyboard'', ''timer''] \<and> distinct ds"

text \<open>
  The start of the drivers returns when the serial port always gets ready again; afterwards each of the
  four drivers is found under its name and no other name is known, no message waits and the keyboard
  buffer is empty.
\<close>

theorem drivers_ready:
  assumes "\<And>h. \<exists>h'. serial_wait io h = Some h'" and "named reg [a, b, c, d]"
  shows "\<exists>reg' h'. drivers_init_fs io a b c d reg s (h, k) = Some (reg', msg_pool_init s, h', keyboard_init k) \<and>
    (\<forall>name. driver_lookup_fs name reg' = Some (find (\<lambda>x. drv_name reg x = name) [d, c, b, a]))"
proof -
  let ?r0 = "reg\<lparr>driver_list := None\<rparr>"
  let ?r1 = "driver_register a ?r0" let ?r2 = "driver_register b ?r1" let ?r3 = "driver_register c ?r2" let ?r4 = "driver_register d ?r3"
  obtain h1 where 1: "start_driver io a (serial_ops io) (?r0, h, k) = Some (?r1, h1, k)"
    using start_driver_returns [OF assms(1), of a "serial_ops io" ?r0 h k] by (auto simp: serial_ops_def stub_ops_def)
  obtain h2 where 2: "start_driver io b vga_ops (?r1, h1, k) = Some (?r2, h2, k)"
    using start_driver_returns [OF assms(1), of b vga_ops ?r1 h1 k] by (auto simp: vga_ops_def stub_ops_def)
  obtain h3 where 3: "start_driver io c kbd_ops (?r2, h2, k) = Some (?r3, h3, keyboard_init k)"
    using start_driver_returns [OF assms(1), of c kbd_ops ?r2 h2 k] by (auto simp: kbd_ops_def stub_ops_def)
  obtain h4 where 4: "start_driver io d timer_ops (?r3, h3, keyboard_init k) = Some (?r4, h4, keyboard_init k)"
    using start_driver_returns [OF assms(1), of d timer_ops ?r3 h3 "keyboard_init k"] by (auto simp: timer_ops_def stub_ops_def)
  obtain h5 where 5: "serial_puts io (Some (log_text ''[DRIVER] driver core ready'' @ [10])) h4 = Some h5" using serial_puts_returns [OF assms(1)] by blast
  have dist: "distinct [a, b, c, d]" using assms(2) by (simp add: named_def)
  have "fold driver_register [a, b, c, d] ?r0 = ?r4" by simp
  then have ch: "drv_chain ?r4 (driver_list ?r4) [d, c, b, a]" "drv_name ?r4 = drv_name reg"
    using register_all [OF dist, of reg] by simp_all
  have "driver_lookup_fs name ?r4 = Some (find (\<lambda>x. drv_name reg x = name) [d, c, b, a])" for name
    using lookup_fs_chain [OF ch(1), of name] ch(2) by (simp only: driver_lookup_fs_def)
  then show ?thesis using 1 2 3 4 5 by (intro exI [of _ ?r4] exI [of _ h5]) (simp add: drivers_init_fs_def)
qed

section \<open>The console of the hosted build\<close>

text \<open>Reading byte by byte until the input ends, and what is read.\<close>

fun read_n :: "nat \<Rightarrow> host \<Rightarrow> (bytes \<times> host) option" where
  "read_n 0 h = Some ([], h)"
| "read_n (Suc n) h =
     do { (r, buf, h1) \<leftarrow> console_read (Some [0]) 1 h;
          if r = 1 then do { (bs, h2) \<leftarrow> read_n n h1; Some (hd (the buf) # bs, h2) } else Some ([], h1) }"

lemma console_reads_in_order: "read_n n h = Some (take n (host_in h), h\<lparr>host_in := drop n (host_in h)\<rparr>)"
proof (induction n arbitrary: h)
  case (Suc n)
  show ?case
  proof (cases "host_in h")
    case Nil
    then have "h\<lparr>host_in := []\<rparr> = h" by (cases h) simp
    then show ?thesis using Nil by (simp add: console_read_def)
  next
    case (Cons c cs)
    then show ?thesis using Suc.IH [of "h\<lparr>host_in := cs\<rparr>"] by (simp add: console_read_def arr_set_def)
  qed
qed simp

lemma console_write_appends:
  "count \<le> length b \<Longrightarrow> console_write (Some b) count h = Some (int count, h\<lparr>host_out := host_out h @ take count b\<rparr>)"
  by (cases h) (auto simp: console_write_def arr_slice_def host_print_def)

lemma drivers_init_finds_console:
  "driver_lookup (drv_name reg d) (fst (drivers_init d reg s h)) = Some (Some d)"
proof -
  have "drv_chain (driver_register d (reg\<lparr>driver_list := None\<rparr>)) (Some d) [d]" by (simp add: driver_register_def)
  then show ?thesis
    using driver_lookup_chain [of "driver_register d (reg\<lparr>driver_list := None\<rparr>)" "Some d" "[d]" "drv_name reg d"]
    by (simp add: drivers_init_def register_hosted_def driver_lookup_def driver_register_def console_ops_def console_init_def)
qed

end
