(* ===== verification/Spec2Isabelle.thy ===== *)
theory Spec2Isabelle
  imports Pmm Heap_Inv Net_Tcp Fat12_Stale Ata_Drive Ipc_Mail Scheduler_Props Sched_Fs_Props Elf_Image Syscall_Io Mouse_Props Tui_Props Widgets_Props Pci_Props Rtl8139_Props Descriptors_Props Http_Returns Drivers_Props
begin

text \<open>
  A verification development for pasinux, a hobby operating system for 32-bit x86 machines in C. Files are
  named relative to the directory Kernel of the repository; the second tree (pasinux/kernel) has older
  versions of the same files.

  \<^bold>\<open>The program.\<close> The kernel runs in one address space with a window on physical memory at 0xC0000000. A frame
  allocator and a heap serve the page tables, the program loader, the file system and the drivers. Two
  schedulers exist: a hosted one on linked queues and a freestanding one that switches stacks in the timer
  interrupt. Programs are read from a FAT12 volume on an ATA disk, loaded into an address space of their
  own and run in ring 3, from where they reach the kernel by system calls on files and on the console.
  Keyboard and mouse feed the queues of a window manager; an Ethernet, ARP, IPv4 and TCP stack polls a
  network card. Components call each other directly and share static variables; there is no concurrency
  but that of interrupts, which only post to queues, count ticks and switch stacks.

  \<^bold>\<open>How it is modelled.\<close> A static state is a record with the names of the variables, an operation a function
  on it. 8, 16 and 32-bit integers are words of that width, so that arithmetic wraps as in C. Pointers are
  32-bit addresses where the code computes with them (heap, page tables, programs) and keys or indices where it only
  follows them. Fallible functions return what the C function returns: an error is a value of the model. The result
  \<^term>\<open>None\<close> of a function into an option type stands for what has no defined result in C (an access outside
  an array, a page fault in the kernel) and for loops that do not end; every theorem that a
  function returns therefore also states that it stays within its arrays. Devices are records of port
  accesses over a state of their own; what the kernel relies on of a device is a hypothesis of the
  property, and the witness gives a device that meets it. Output that only goes to the log is left out
  where it is not part of the property; it cannot change the state of the kernel.

  \<^bold>\<open>Theories.\<close>
  \<^item> Kernel_Prelude: words without wrap-around, arrays with bounds, byte order. Port_Io: port accesses.
    Ring: ring buffers, with the contract of a bounded queue as a locale.
  \<^item> Pmm (mm/pmm.c): the frame allocator; runs of requests get disjoint frames in the region.
  \<^item> Heap, Heap_Inv (mm/mm_fs.c): the heap with its block list and size classes. The invariant
    says that blocks tile the heap without overlap and both kinds of lists are consistent; allocation keeps live blocks apart,
    freeing keeps the invariant where merging is allowed, the statistics balance. Three defects of merging,
    caching and rounding are theorems with runs that show them.
  \<^item> Paging, Paging_Mem, Paging_Space, Paging_Props, Paging_Copy (arch/paging.c): page tables in memory, the walk of the
    processor (mmu) as their meaning. Mapping changes exactly one page, a new directory is isolated, the
    check of user ranges is exact, copies never fault.
  \<^item> Elf, Elf_Check, Elf_Load, Elf_Image (fs/elf.c): the checks of a program file read nothing outside it and
    accept only sound segments; the built address space holds the program image and nothing else. Elf_Load states what
    the loader needs of a page mapper as a locale and interprets it on paging.
  \<^item> Fat12, Fat12_Chain, Fat12_File, Fat12_Stale (fs/fat12.c): the packed table, chains, contents, directory
    operations, with the contract of a block driver as a locale. Ata, Ata_Drive (drivers/ata.c): the disk driver, which is proved to meet
    the contract, so that contents round trip through file system, driver and controller.
  \<^item> Net, Net_Checksum, Net_Arp, Net_Tcp (net/): frames, checksums, the ARP cache, the TCP connection; delivery, termination and
    the invariant under any received frames, with the nesting of polling inside address resolution.
  \<^item> Ipc, Ipc_Queue, Ipc_Mail (ipc/ipc.c, drivers/driver.c, drivers/driver_fs.c): message pools with priority queues, the list of
    drivers; both pools interpret one locale.
  \<^item> Scheduler, Scheduler_Ring, Scheduler_Inv, Scheduler_Ops, Scheduler_Props (sched/scheduler.c) and Sched_Fs, Sched_Fs_Props
    (sched/sched_fs.c, drivers/timer.c): the ready ring and the sleep list in reachable states, the
    policies, round robin over interrupts.
  \<^item> Keyboard, Keyboard_Props (drivers/keyboard.c, queues of tui/tui_wm.c), Console, Console_Props (drivers/serial.c, drivers/vga.c): queues as bounded
    queues, reading a line, the screen as a window on a text without end, numbers in decimal.
  \<^item> Syscall, Syscall_Props, Syscall_Io (arch/syscall.c): the system calls over paging, file system, heap and
    console. The descriptor table is kept, memory changes only where the program could write itself,
    reading and writing deliver exactly the bytes.
  \<^item> Mouse, Mouse_Props (drivers/ps2mouse.c): the byte stream of the mouse is decoded exactly and moves a point on the screen.
  \<^item> Tui_Core, Tui_Wm, Tui_Paint, Tui_Screen, Tui_Wm_Props, Tui_Props (tui/tui_core.c, tui/tui_wm.c): surfaces, windows, the composition of the
    screen and the event loop. Tui_Paint says what a window looks like, Tui_Screen that the screen shows the windows by layers and
    that a click reaches what is shown; Tui_Wm_Props and Tui_Props that calls keep the table, the focus and the places.
  \<^item> Widgets, Widgets_Props (tui/widgets.c): the input line as an editor with a history.
  \<^item> Pci, Pci_Props (drivers/pci.c, drivers/rtc.c): the search for a device on the bus, the clock. Rtl8139, Rtl8139_Props (drivers/rtl8139.c): the receive ring and
    the transmit descriptors of the network card, below the frames of the network stack.
  \<^item> Descriptors, Descriptors_Props (arch/gdt.c, arch/idt.c, arch/tss.c, arch/interrupt.c): the tables as the processor reads them, the one gate open to programs,
    the dispatch to the handlers of timer, keyboard, mouse and network card.
  \<^item> Drivers, Drivers_Props (drivers/driver.c, drivers/driver_fs.c): the console of the hosted build, the static drivers of the kernel and their
    start-up, after which each is found by its name.
  \<^item> Http, Http_Props, Http_Download, Http_Returns (net/http.c, net/json.c): the text of requests and of JSON objects as checked stores into a buffer, the
    parsers of addresses and lengths, and the client that receives an answer in chunks over the calls of Net; its loops return, with a timer that keeps counting.

  \<^bold>\<open>Bounds and fuel.\<close> Loops that end by a counter are structural or have a measure; loops that may not end are partial
  functions into options, and where they end is proved. Fuel is used in one place: answering a received segment may resolve an address, which polls for
  frames again. The fuel is the depth of this nesting; every nested poll takes one of the frames that wait at the card, so that their number is
  enough, and that resolving and connecting return is proved for it.

  \<^bold>\<open>Not modelled.\<close> The graphical desktop (gui/gui_main.c) and the shell (tui/shell.c) draw and print with the functions
  above; boot code and interrupt entries are assembly; kernel/kmain.c and kernel/kernel.c call the initialisations in turn and
  log; mm/mm.c is a second build of the heap; user/notepad.c is a program. The tree
  pasinux/kernel has the same files or older versions of them. Functions that only print (arp_print_cache, pci_scan_all, self tests) are left out.
\<close>

end
